(* ===== verification/Smros_Prelude.thy ===== *)
theory Smros_Prelude
  imports Main "HOL-Library.Word" "HOL-Library.Code_Target_Nat"
begin

text \<open>
  Shared vocabulary of the development: the machine integer types of the kernel, Rust's
  checked and saturating arithmetic on them, the result type of fallible operations, and the
  scanning idioms of the sources (\<open>iter().position\<close>, \<open>iter().flatten()\<close>, \<open>swap_remove\<close>) on
  lists that model fixed arrays and vectors.

  The kernel targets are 64-bit, so \<open>usize\<close> is a 64-bit word wherever a caller chooses the
  value (addresses, sizes, priorities).  Container lengths and array indices are \<open>nat\<close>.
\<close>

unbundle bit_operations_syntax

type_synonym u8 = "8 word"
type_synonym u16 = "16 word"
type_synonym u32 = "32 word"
type_synonym u64 = "64 word"
type_synonym usize = "64 word"
type_synonym i16 = "16 word"
type_synonym i64 = "64 word"

named_theorems result_simps \<open>unfolding of the result combinators\<close>
named_theorems inv_intros \<open>invariant preservation by single operations\<close>

subsection \<open>Machine arithmetic\<close>

definition checked_add :: "'a::len word \<Rightarrow> 'a word \<Rightarrow> 'a word option" where
  "checked_add a b = (if unat a + unat b < 2 ^ LENGTH('a) then Some (a + b) else None)"

definition checked_sub :: "'a::len word \<Rightarrow> 'a word \<Rightarrow> 'a word option" where
  "checked_sub a b = (if b \<le> a then Some (a - b) else None)"

definition checked_mul :: "'a::len word \<Rightarrow> 'a word \<Rightarrow> 'a word option" where
  "checked_mul a b = (if unat a * unat b < 2 ^ LENGTH('a) then Some (a * b) else None)"

definition saturating_add :: "'a::len word \<Rightarrow> 'a word \<Rightarrow> 'a word" where
  "saturating_add a b = (case checked_add a b of Some c \<Rightarrow> c | None \<Rightarrow> - 1)"

definition saturating_sub :: "'a::len word \<Rightarrow> 'a word \<Rightarrow> 'a word" where
  "saturating_sub a b = (if b \<le> a then a - b else 0)"

definition checked_add_signed :: "'a::len word \<Rightarrow> 'a word \<Rightarrow> 'a word option" where
  "checked_add_signed a b =
     (if - (2 ^ (LENGTH('a) - 1)) \<le> sint a + sint b \<and> sint a + sint b < 2 ^ (LENGTH('a) - 1)
      then Some (a + b) else None)"

lemma checked_add_Some_iff:
  "checked_add a b = Some c \<longleftrightarrow> unat c = unat a + unat b"
  for a b c :: "'a::len word"
proof
  assume "checked_add a b = Some c"
  then show "unat c = unat a + unat b"
    by (auto simp: checked_add_def unat_word_ariths split: if_splits)
next
  assume u: "unat c = unat a + unat b"
  have "unat c < 2 ^ LENGTH('a)" by (rule unsigned_less)
  with u have lt: "unat a + unat b < 2 ^ LENGTH('a)" by simp
  then have "unat (a + b) = unat a + unat b" by (simp add: unat_word_ariths)
  with u have "c = a + b" by (simp add: word_unat_eq_iff)
  with lt show "checked_add a b = Some c" by (simp add: checked_add_def)
qed

lemma checked_add_None_iff:
  "checked_add a b = None \<longleftrightarrow> 2 ^ LENGTH('a) \<le> unat a + unat b"
  for a b :: "'a::len word"
  by (auto simp: checked_add_def)

lemma checked_sub_Some_iff:
  "checked_sub a b = Some c \<longleftrightarrow> unat a = unat c + unat b"
  for a b c :: "'a::len word"
proof
  assume "checked_sub a b = Some c"
  then have "b \<le> a" "c = a - b" by (auto simp: checked_sub_def split: if_splits)
  then show "unat a = unat c + unat b" by (simp add: unat_sub word_le_nat_alt)
next
  assume u: "unat a = unat c + unat b"
  then have le: "b \<le> a" by (simp add: word_le_nat_alt)
  then have "unat (a - b) = unat c" using u by (simp add: unat_sub)
  then have "a - b = c" by (simp add: word_unat_eq_iff)
  with le show "checked_sub a b = Some c" by (simp add: checked_sub_def)
qed

lemma checked_mul_SomeD:
  "checked_mul a b = Some c \<Longrightarrow> unat c = unat a * unat b"
  for a b c :: "'a::len word"
  by (auto simp: checked_mul_def unat_word_ariths split: if_splits)

lemma unat_saturating_add:
  "unat (saturating_add a b) = min (unat a + unat b) (2 ^ LENGTH('a) - 1)"
  for a b :: "'a::len word"
proof (cases "checked_add a b")
  case None
  then have "2 ^ LENGTH('a) \<le> unat a + unat b" by (simp add: checked_add_None_iff)
  with None show ?thesis by (simp add: saturating_add_def unsigned_minus_1_eq_mask mask_eq_exp_minus_1)
next
  case (Some c)
  then have c: "unat c = unat a + unat b" by (simp add: checked_add_Some_iff)
  moreover have "unat c < 2 ^ LENGTH('a)" by (rule unsigned_less)
  ultimately show ?thesis using Some by (simp add: saturating_add_def)
qed

lemma unat_saturating_sub: "unat (saturating_sub a b) = unat a - unat b"
  by (auto simp: saturating_sub_def unat_sub word_le_nat_alt)

lemma checked_add_one_gt: "checked_add a 1 = Some b \<Longrightarrow> a < b"
  for a :: "'a::len word"
  by (simp add: checked_add_Some_iff word_less_nat_alt)

lemma unat_succ: "a \<noteq> - 1 \<Longrightarrow> unat (a + 1) = Suc (unat a)"
  for a :: "'a::len word"
  using unatSuc [of a] by (simp add: add.commute eq_neg_iff_add_eq_0)

lemma word_less_succ: "a \<noteq> - 1 \<Longrightarrow> a < a + 1"
  for a :: "'a::len word"
  by (simp add: word_less_nat_alt unat_succ)

lemma list_all_update: "list_all P xs \<Longrightarrow> P x \<Longrightarrow> list_all P (xs[i := x])"
  using set_update_subset_insert [of xs i x] by (auto simp: list_all_iff)

subsection \<open>Results\<close>

definition ok_or :: "'e \<Rightarrow> 'a option \<Rightarrow> 'e + 'a" where
  "ok_or e x = (case x of None \<Rightarrow> Inl e | Some v \<Rightarrow> Inr v)"

definition and_then :: "'e + 'a \<Rightarrow> ('a \<Rightarrow> 'e + 'b) \<Rightarrow> 'e + 'b" where
  "and_then r f = (case r of Inl e \<Rightarrow> Inl e | Inr v \<Rightarrow> f v)"

definition is_ok :: "'e + 'a \<Rightarrow> bool" where
  "is_ok r = (case r of Inl _ \<Rightarrow> False | Inr _ \<Rightarrow> True)"

lemma ok_or_simps [simp, result_simps]:
  "ok_or e None = Inl e" "ok_or e (Some v) = Inr v"
  by (simp_all add: ok_or_def)

lemma and_then_simps [simp, result_simps]:
  "and_then (Inl e) f = Inl e" "and_then (Inr v) f = f v"
  by (simp_all add: and_then_def)

lemma is_ok_simps [simp, result_simps]: "\<not> is_ok (Inl e)" "is_ok (Inr v)"
  by (simp_all add: is_ok_def)

lemma and_then_Inr_iff: "and_then r f = Inr v \<longleftrightarrow> (\<exists>u. r = Inr u \<and> f u = Inr v)"
  by (cases r) auto

lemma and_then_Inl_iff: "and_then r f = Inl e \<longleftrightarrow> r = Inl e \<or> (\<exists>u. r = Inr u \<and> f u = Inl e)"
  by (cases r) auto

subsection \<open>Scanning arrays\<close>

text \<open>\<open>iter().position(p)\<close>: the first index that satisfies the predicate.\<close>

fun position :: "('a \<Rightarrow> bool) \<Rightarrow> 'a list \<Rightarrow> nat option" where
  "position p [] = None"
| "position p (x # xs) = (if p x then Some 0 else map_option Suc (position p xs))"

lemma position_None_iff: "position p xs = None \<longleftrightarrow> (\<forall>x\<in>set xs. \<not> p x)"
  by (induction xs) auto

lemma position_SomeD:
  "position p xs = Some i \<Longrightarrow> i < length xs \<and> p (xs ! i) \<and> (\<forall>j<i. \<not> p (xs ! j))"
proof (induction xs arbitrary: i)
  case Nil
  then show ?case by simp
next
  case (Cons x xs)
  show ?case
  proof (cases "p x")
    case True
    with Cons.prems show ?thesis by simp
  next
    case False
    with Cons.prems obtain k where k: "position p xs = Some k" "i = Suc k" by auto
    from Cons.IH [OF k(1)] k(2) False show ?thesis by (auto simp: less_Suc_eq_0_disj)
  qed
qed

lemma position_Some_length: "position p xs = Some i \<Longrightarrow> i < length xs"
  by (drule position_SomeD) simp

lemma position_Some_holds: "position p xs = Some i \<Longrightarrow> p (xs ! i)"
  by (drule position_SomeD) simp

lemma position_first: "position p xs = Some i \<Longrightarrow> j < i \<Longrightarrow> \<not> p (xs ! j)"
  by (drule position_SomeD) simp

lemma position_eqI:
  "i < length xs \<Longrightarrow> p (xs ! i) \<Longrightarrow> (\<And>j. j < i \<Longrightarrow> \<not> p (xs ! j)) \<Longrightarrow> position p xs = Some i"
proof (induction xs arbitrary: i)
  case Nil
  then show ?case by simp
next
  case (Cons x xs)
  show ?case
  proof (cases i)
    case 0
    with Cons.prems show ?thesis by simp
  next
    case (Suc k)
    with Cons.prems(3) [of 0] have "\<not> p x" by simp
    moreover have "position p xs = Some k"
    proof (rule Cons.IH)
      show "k < length xs" "p (xs ! k)" using Cons.prems(1,2) Suc by simp_all
      show "\<not> p (xs ! j)" if "j < k" for j using Cons.prems(3) [of "Suc j"] Suc that by simp
    qed
    ultimately show ?thesis using Suc by simp
  qed
qed

lemma position_uniqueI:
  assumes "i < length xs" "p (xs ! i)" "\<And>j. j < length xs \<Longrightarrow> p (xs ! j) \<Longrightarrow> j = i"
  shows "position p xs = Some i"
proof (rule position_eqI)
  show "\<not> p (xs ! j)" if "j < i" for j
    using assms(1) assms(3) [of j] that by auto
qed (use assms(1,2) in simp_all)

lemma position_exists: "i < length xs \<Longrightarrow> p (xs ! i) \<Longrightarrow> \<exists>j\<le>i. position p xs = Some j"
proof -
  assume a: "i < length xs" "p (xs ! i)"
  then have "position p xs \<noteq> None" by (auto simp: position_None_iff)
  then obtain j where j: "position p xs = Some j" by blast
  then have "j \<le> i" using a position_first [OF j] not_le_imp_less by blast
  with j show ?thesis by blast
qed

text \<open>\<open>iter().flatten()\<close> on an array of optional slots: the occupied slots in order.\<close>

definition flatten :: "'a option list \<Rightarrow> 'a list" where
  "flatten xs = List.map_filter (\<lambda>x. x) xs"

lemma flatten_simps [simp]:
  "flatten [] = []"
  "flatten (None # xs) = flatten xs"
  "flatten (Some x # xs) = x # flatten xs"
  by (simp_all add: flatten_def map_filter_simps)

lemma flatten_append [simp]: "flatten (xs @ ys) = flatten xs @ flatten ys"
  by (induction xs) (auto simp: flatten_def map_filter_simps split: option.splits)

lemma flatten_replicate_None [simp]: "flatten (replicate n None) = []"
  by (induction n) auto

lemma flatten_map_Some [simp]: "flatten (map Some xs) = xs"
  by (induction xs) auto

lemma set_flatten: "set (flatten xs) = {x. Some x \<in> set xs}"
proof (induction xs)
  case (Cons a xs)
  then show ?case by (cases a) auto
qed simp

lemma length_flatten_le: "length (flatten xs) \<le> length xs"
proof (induction xs)
  case (Cons a xs)
  then show ?case by (cases a) auto
qed simp

lemma in_flatten_nth: "x \<in> set (flatten xs) \<longleftrightarrow> (\<exists>i<length xs. xs ! i = Some x)"
  by (auto simp: set_flatten in_set_conv_nth)

text \<open>\<open>Vec::swap_remove(i)\<close>: the last element takes the place of the removed one.\<close>

definition swap_remove :: "'a list \<Rightarrow> nat \<Rightarrow> 'a list" where
  "swap_remove xs i = butlast (xs[i := last xs])"

text \<open>\<open>Vec::remove(i)\<close>: the elements behind the removed one move forward.\<close>

definition vec_remove :: "'a list \<Rightarrow> nat \<Rightarrow> 'a list" where
  "vec_remove xs i = take i xs @ drop (Suc i) xs"

lemma length_vec_remove: "i < length xs \<Longrightarrow> length (vec_remove xs i) = length xs - 1"
  by (simp add: vec_remove_def)

lemma set_vec_remove: "set (vec_remove xs i) \<subseteq> set xs"
  by (auto simp: vec_remove_def dest: in_set_takeD in_set_dropD)

lemma nth_vec_remove:
  "i < length xs \<Longrightarrow> k < length xs - 1 \<Longrightarrow> vec_remove xs i ! k = (if k < i then xs ! k else xs ! Suc k)"
  by (auto simp: vec_remove_def nth_append)

lemma position_map: "position p (map f xs) = position (\<lambda>x. p (f x)) xs"
  by (induction xs) auto

lemma position_append_Some: "position p xs = Some i \<Longrightarrow> position p (xs @ ys) = Some i"
  by (induction xs arbitrary: i) (auto split: if_splits)

lemma position_vec_remove:
  assumes p: "position p xs = Some i" and j: "j < length xs" and ne: "i \<noteq> j"
  shows "position p (vec_remove xs j) = Some (if j < i then i - 1 else i)"
proof -
  let ?k = "if j < i then i - 1 else i"
  from p have i: "i < length xs" "p (xs ! i)" "\<And>m. m < i \<Longrightarrow> \<not> p (xs ! m)"
    by (auto dest: position_SomeD)
  have k: "?k < length xs - 1" using i(1) j ne by auto
  have "vec_remove xs j ! ?k = xs ! i" using nth_vec_remove [OF j k] ne by auto
  moreover have "\<not> p (vec_remove xs j ! m)" if "m < ?k" for m
  proof (cases "m < j")
    case True
    with that i(3) [of m] nth_vec_remove [OF j, of m] k show ?thesis by (auto split: if_splits)
  next
    case False
    with that have "Suc m < i" by (auto split: if_splits)
    with i(3) [of "Suc m"] nth_vec_remove [OF j, of m] k that False show ?thesis by auto
  qed
  ultimately show ?thesis
    using k i(2) j by (intro position_eqI) (simp_all add: length_vec_remove)
qed

lemma position_update:
  assumes "\<And>x. x = xs ! i \<Longrightarrow> p y = p x" and "i < length xs"
  shows "position p (xs[i := y]) = position p xs"
proof -
  have "map p (xs[i := y]) = map p xs"
    using assms by (intro nth_equalityI) (auto simp: nth_list_update)
  then have "position id (map p (xs[i := y])) = position id (map p xs)" by simp
  then show ?thesis by (simp add: position_map)
qed

text \<open>Shifting the used part of an array down over a removed element, and up to make room for one.\<close>

definition shift_down :: "nat \<Rightarrow> nat \<Rightarrow> 'a list \<Rightarrow> 'a list" where
  "shift_down index len xs = fold (\<lambda>slot xs. xs[slot := xs ! (slot + 1)]) [index..<len - 1] xs"

definition shift_up :: "nat \<Rightarrow> nat \<Rightarrow> 'a list \<Rightarrow> 'a list" where
  "shift_up index len xs = fold (\<lambda>slot xs. xs[slot + 1 := xs ! slot]) (rev [index..<len]) xs"

definition vec_insert :: "'a list \<Rightarrow> nat \<Rightarrow> 'a \<Rightarrow> 'a list" where
  "vec_insert xs i x = take i xs @ x # drop i xs"

lemma nth_shift_down:
  assumes "j < length xs"
  shows "length (fold (\<lambda>slot xs. xs[slot := xs ! (slot + 1)]) [index..<j] xs) = length xs
    \<and> (\<forall>k<length xs. fold (\<lambda>slot xs. xs[slot := xs ! (slot + 1)]) [index..<j] xs ! k
         = (if index \<le> k \<and> k < j then xs ! Suc k else xs ! k))"
  using assms
proof (induction j)
  case (Suc j)
  then show ?case by (cases "index \<le> j") (auto simp: nth_list_update less_Suc_eq)
qed simp

lemma take_shift_down:
  assumes "index < len" "len \<le> length xs"
  shows "take (len - 1) ((shift_down index len xs)[len - 1 := e]) = vec_remove (take len xs) index"
    and "length ((shift_down index len xs)[len - 1 := e]) = length xs"
proof -
  have "len - 1 < length xs" using assms by simp
  note s = nth_shift_down [OF this, of index, folded shift_down_def]
  show "length ((shift_down index len xs)[len - 1 := e]) = length xs" using s by simp
  show "take (len - 1) ((shift_down index len xs)[len - 1 := e]) = vec_remove (take len xs) index"
  proof (rule nth_equalityI)
    show "length (take (len - 1) ((shift_down index len xs)[len - 1 := e])) = length (vec_remove (take len xs) index)"
      using s assms by (simp add: length_vec_remove)
    fix k assume "k < length (take (len - 1) ((shift_down index len xs)[len - 1 := e]))"
    then have "k < len - 1" by simp
    with s assms show "take (len - 1) ((shift_down index len xs)[len - 1 := e]) ! k = vec_remove (take len xs) index ! k"
      by (auto simp: nth_vec_remove)
  qed
qed

lemma nth_shift_up:
  assumes "index + n < length xs"
  shows "length (fold (\<lambda>slot xs. xs[slot + 1 := xs ! slot]) (rev [index..<index + n]) xs) = length xs
    \<and> (\<forall>k<length xs. fold (\<lambda>slot xs. xs[slot + 1 := xs ! slot]) (rev [index..<index + n]) xs ! k
         = (if index < k \<and> k \<le> index + n then xs ! (k - 1) else xs ! k))"
  using assms
proof (induction n arbitrary: xs)
  case (Suc n)
  let ?ys = "xs[index + n + 1 := xs ! (index + n)]"
  let ?f = "fold (\<lambda>slot xs. xs[slot + 1 := xs ! slot]) (rev [index..<index + n]) ?ys"
  have e: "fold (\<lambda>slot xs. xs[slot + 1 := xs ! slot]) (rev [index..<index + Suc n]) xs = ?f" by simp
  have l: "index + n < length ?ys" using Suc.prems by simp
  note ih = Suc.IH [OF l]
  have "?f ! k = (if index < k \<and> k \<le> index + Suc n then xs ! (k - 1) else xs ! k)" if k: "k < length xs" for k
  proof -
    have f: "?f ! k = (if index < k \<and> k \<le> index + n then ?ys ! (k - 1) else ?ys ! k)" using ih k by simp
    consider "k \<le> index" | "index < k" "k \<le> index + n" | "k = index + n + 1" | "index + n + 1 < k" by linarith
    then show ?thesis
    proof cases
      case 3
      then show ?thesis using f Suc.prems by simp
    qed (use f in \<open>simp_all add: nth_list_update\<close>)
  qed
  then show ?case using ih e by simp
qed auto

lemma take_shift_up:
  assumes "index \<le> len" "len < length xs"
  shows "take (Suc len) ((shift_up index len xs)[index := x]) = vec_insert (take len xs) index x"
    and "length ((shift_up index len xs)[index := x]) = length xs"
proof -
  have "index + (len - index) < length xs" using assms by simp
  note s = nth_shift_up [OF this]
  have e: "index + (len - index) = len" using assms by simp
  note s = s [unfolded e, folded shift_up_def]
  show "length ((shift_up index len xs)[index := x]) = length xs" using s by simp
  show "take (Suc len) ((shift_up index len xs)[index := x]) = vec_insert (take len xs) index x"
  proof (rule nth_equalityI)
    show "length (take (Suc len) ((shift_up index len xs)[index := x])) = length (vec_insert (take len xs) index x)"
      using s assms by (simp add: vec_insert_def)
    fix k assume "k < length (take (Suc len) ((shift_up index len xs)[index := x]))"
    then have "k < Suc len" by simp
    with s assms show "take (Suc len) ((shift_up index len xs)[index := x]) ! k = vec_insert (take len xs) index x ! k"
      by (auto simp: vec_insert_def nth_append nth_Cons' nth_list_update)
  qed
qed

end
