(* ===== verification/Object_Types.thy ===== *)
theory Object_Types
  imports Smros_Prelude
begin

text \<open>
  The shared types of the kernel objects: \<open>src/kernel_objects/types.rs\<close> (object types, the
  rights bitmask, default rights per object type, error codes) and the arithmetic and rights
  predicates of \<open>src/kernel_objects/object_logic_shared.rs\<close>.  A handle value is the wrapped
  \<open>u32\<close> itself.
\<close>

type_synonym HandleValue = u32

definition MAX_HANDLES_PER_PROCESS :: nat where
  "MAX_HANDLES_PER_PROCESS = 1024"

definition INVALID_HANDLE :: u32 where
  "INVALID_HANDLE = 0xFFFFFFFF"

definition PAGE_SIZE :: usize where
  "PAGE_SIZE = 0x1000"

datatype (plugins only: code "size") ObjectType =
    Vmo | Vmar | Channel | Socket | Event | Process | Thread | Port | Timer | Resource
  | Interrupt | EventPair | Fifo | StreamObj | DebugLog | Clock | Job | SuspendToken | Exception
  | Iommu | Bti | Pmt | PciDevice | Guest | Vcpu | Semaphore | SharedMemory | Profile | Pager
  | Framebuffer | Ktrace | Mtrace | MessageQueue | EventFd | SignalFd | TimerFd | Inotify
  | IoUring | MemFd | PidFd | FutexObj | LinuxFile | LinuxPipe | LinuxTcpSocket | LinuxUdpSocket
  | LinuxRawSocket | LinuxNetlinkSocket | LinuxProcess | LinuxThread | LinuxSignal
  | LinuxEventBus | LinuxDevice | LinuxDir | Hypervisor

datatype (plugins only: code "size") Rights =
    R_None | R_Duplicate | R_Transfer | R_Read | R_Write | R_Execute | R_Map | R_GetProperty
  | R_SetProperty | R_Enumerate | R_Destroy | R_SetPolicy | R_GetPolicy | R_Signal | R_SignalPeer
  | R_Wait | R_Inspect | R_ManageJob | R_ManageProcess | R_ManageThread | R_ApplyProfile
  | R_ManageSocket | R_OpChildren | R_Resize | R_AttachVmo | R_ManageVmo
  | R_DefaultVmo | R_DefaultVmar | R_DefaultChannel | R_DefaultJob | R_DefaultProcess
  | R_DefaultThread

text \<open>The discriminants of the single-bit rights; the default masks have none of their own.\<close>

fun right_bit :: "Rights \<Rightarrow> u32" where
  "right_bit R_Duplicate = push_bit 0 1"
| "right_bit R_Transfer = push_bit 1 1"
| "right_bit R_Read = push_bit 2 1"
| "right_bit R_Write = push_bit 3 1"
| "right_bit R_Execute = push_bit 4 1"
| "right_bit R_Map = push_bit 5 1"
| "right_bit R_GetProperty = push_bit 6 1"
| "right_bit R_SetProperty = push_bit 7 1"
| "right_bit R_Enumerate = push_bit 8 1"
| "right_bit R_Destroy = push_bit 9 1"
| "right_bit R_SetPolicy = push_bit 10 1"
| "right_bit R_GetPolicy = push_bit 11 1"
| "right_bit R_Signal = push_bit 12 1"
| "right_bit R_SignalPeer = push_bit 13 1"
| "right_bit R_Wait = push_bit 14 1"
| "right_bit R_Inspect = push_bit 15 1"
| "right_bit R_ManageJob = push_bit 16 1"
| "right_bit R_ManageProcess = push_bit 17 1"
| "right_bit R_ManageThread = push_bit 18 1"
| "right_bit R_ApplyProfile = push_bit 19 1"
| "right_bit R_ManageSocket = push_bit 20 1"
| "right_bit R_OpChildren = push_bit 21 1"
| "right_bit R_Resize = push_bit 22 1"
| "right_bit R_AttachVmo = push_bit 23 1"
| "right_bit R_ManageVmo = push_bit 24 1"
| "right_bit _ = 0"

fun rights_or :: "Rights list \<Rightarrow> u32" where
  "rights_or [] = 0"
| "rights_or [r] = right_bit r"
| "rights_or (r # rs) = right_bit r OR rights_or rs"

text \<open>\<open>Rights::X as u32\<close>: the bit of a single right, or the mask of a default set.\<close>

definition Rights_as_u32 :: "Rights \<Rightarrow> u32" where
  "Rights_as_u32 r = (case r of
     R_DefaultVmo \<Rightarrow> rights_or [R_Duplicate, R_Transfer, R_Read, R_Write, R_Map, R_GetProperty,
       R_SetProperty, R_Signal, R_Inspect, R_Resize]
   | R_DefaultVmar \<Rightarrow> rights_or [R_Duplicate, R_Transfer, R_Read, R_Write, R_Execute, R_Map,
       R_GetProperty, R_SetProperty, R_Destroy, R_Inspect, R_OpChildren]
   | R_DefaultChannel \<Rightarrow> rights_or [R_Duplicate, R_Transfer, R_Read, R_Write, R_Signal,
       R_SignalPeer, R_Wait]
   | R_DefaultJob \<Rightarrow> rights_or [R_Duplicate, R_Transfer, R_Read, R_Write, R_GetProperty,
       R_SetProperty, R_Enumerate, R_Destroy, R_SetPolicy, R_GetPolicy, R_Signal, R_Wait,
       R_Inspect, R_ManageJob, R_ManageProcess, R_ManageThread]
   | R_DefaultProcess \<Rightarrow> rights_or [R_Duplicate, R_Transfer, R_Read, R_Write, R_GetProperty,
       R_SetProperty, R_Enumerate, R_Destroy, R_Signal, R_Wait, R_Inspect, R_ManageProcess,
       R_ManageThread]
   | R_DefaultThread \<Rightarrow> rights_or [R_Duplicate, R_Transfer, R_Read, R_Write, R_GetProperty,
       R_SetProperty, R_Destroy, R_Signal, R_Wait, R_Inspect, R_ManageThread]
   | _ \<Rightarrow> right_bit r)"

definition RIGHT_SAME_RIGHTS :: u32 where
  "RIGHT_SAME_RIGHTS = 0x80000000"

definition RIGHTS_BASIC :: u32 where
  "RIGHTS_BASIC = rights_or [R_Duplicate, R_Transfer, R_Wait, R_Inspect]"

definition RIGHTS_PROPERTY :: u32 where
  "RIGHTS_PROPERTY = rights_or [R_GetProperty, R_SetProperty]"

definition RIGHTS_POLICY :: u32 where
  "RIGHTS_POLICY = rights_or [R_GetPolicy, R_SetPolicy]"

definition RIGHTS_SIGNAL :: u32 where
  "RIGHTS_SIGNAL = rights_or [R_Signal, R_SignalPeer]"

definition RIGHTS_IO :: u32 where
  "RIGHTS_IO = rights_or [R_Read, R_Write, R_Execute]"

definition RIGHTS_MEMORY :: u32 where
  "RIGHTS_MEMORY = right_bit R_Map"

definition RIGHTS_TASK :: u32 where
  "RIGHTS_TASK = rights_or [R_Enumerate, R_Destroy, R_ManageJob, R_ManageProcess, R_ManageThread,
     R_ApplyProfile]"

definition RIGHTS_SOCKET :: u32 where
  "RIGHTS_SOCKET = right_bit R_ManageSocket"

definition RIGHTS_EXTENDED :: u32 where
  "RIGHTS_EXTENDED = rights_or [R_OpChildren, R_Resize, R_AttachVmo, R_ManageVmo]"

definition RIGHTS_ALL :: u32 where
  "RIGHTS_ALL = RIGHTS_BASIC OR RIGHTS_PROPERTY OR RIGHTS_POLICY OR RIGHTS_SIGNAL OR RIGHTS_IO
     OR RIGHTS_MEMORY OR RIGHTS_TASK OR RIGHTS_SOCKET OR RIGHTS_EXTENDED"

definition DEFAULT_EVENT_RIGHTS :: u32 where
  "DEFAULT_EVENT_RIGHTS = rights_or [R_Duplicate, R_Transfer, R_GetProperty, R_SetProperty,
     R_Signal, R_Wait, R_Inspect]"

definition DEFAULT_EVENTPAIR_RIGHTS :: u32 where
  "DEFAULT_EVENTPAIR_RIGHTS = DEFAULT_EVENT_RIGHTS OR right_bit R_SignalPeer"

definition DEFAULT_PORT_RIGHTS :: u32 where
  "DEFAULT_PORT_RIGHTS = rights_or [R_Duplicate, R_Transfer, R_Read, R_Write, R_GetProperty,
     R_SetProperty, R_Inspect]"

definition DEFAULT_SOCKET_RIGHTS :: u32 where
  "DEFAULT_SOCKET_RIGHTS = Rights_as_u32 R_DefaultChannel OR right_bit R_GetProperty
     OR right_bit R_SetProperty OR right_bit R_Inspect"

definition DEFAULT_RESOURCE_RIGHTS :: u32 where
  "DEFAULT_RESOURCE_RIGHTS = rights_or [R_Duplicate, R_Transfer, R_Read, R_Write, R_Inspect]"

definition DEFAULT_INTERRUPT_RIGHTS :: u32 where
  "DEFAULT_INTERRUPT_RIGHTS = RIGHTS_BASIC OR RIGHTS_IO OR right_bit R_Signal"

definition DEFAULT_STREAM_RIGHTS :: u32 where
  "DEFAULT_STREAM_RIGHTS = RIGHTS_BASIC OR RIGHTS_PROPERTY OR right_bit R_Read
     OR right_bit R_Write OR right_bit R_Signal"

definition DEFAULT_CLOCK_RIGHTS :: u32 where
  "DEFAULT_CLOCK_RIGHTS = RIGHTS_BASIC OR RIGHTS_IO"

definition DEFAULT_SUSPEND_TOKEN_RIGHTS :: u32 where
  "DEFAULT_SUSPEND_TOKEN_RIGHTS = rights_or [R_Transfer, R_Inspect]"

definition DEFAULT_EXCEPTION_RIGHTS :: u32 where
  "DEFAULT_EXCEPTION_RIGHTS = right_bit R_Transfer OR RIGHTS_PROPERTY OR right_bit R_Inspect"

definition default_rights_for_object :: "ObjectType \<Rightarrow> u32" where
  "default_rights_for_object ty = (case ty of
     Vmo \<Rightarrow> Rights_as_u32 R_DefaultVmo
   | Vmar \<Rightarrow> Rights_as_u32 R_DefaultVmar
   | Channel \<Rightarrow> Rights_as_u32 R_DefaultChannel
   | Job \<Rightarrow> Rights_as_u32 R_DefaultJob
   | Process \<Rightarrow> Rights_as_u32 R_DefaultProcess
   | LinuxProcess \<Rightarrow> Rights_as_u32 R_DefaultProcess
   | Thread \<Rightarrow> Rights_as_u32 R_DefaultThread
   | LinuxThread \<Rightarrow> Rights_as_u32 R_DefaultThread
   | Fifo \<Rightarrow> Rights_as_u32 R_DefaultChannel
   | Socket \<Rightarrow> DEFAULT_SOCKET_RIGHTS
   | Event \<Rightarrow> DEFAULT_EVENT_RIGHTS
   | EventPair \<Rightarrow> DEFAULT_EVENTPAIR_RIGHTS
   | Port \<Rightarrow> DEFAULT_PORT_RIGHTS
   | Timer \<Rightarrow> DEFAULT_EVENT_RIGHTS
   | Resource \<Rightarrow> DEFAULT_RESOURCE_RIGHTS
   | Interrupt \<Rightarrow> DEFAULT_INTERRUPT_RIGHTS
   | StreamObj \<Rightarrow> DEFAULT_STREAM_RIGHTS
   | DebugLog \<Rightarrow> DEFAULT_SOCKET_RIGHTS
   | Clock \<Rightarrow> DEFAULT_CLOCK_RIGHTS
   | Hypervisor \<Rightarrow> DEFAULT_RESOURCE_RIGHTS OR RIGHTS_TASK OR RIGHTS_MEMORY
   | SuspendToken \<Rightarrow> DEFAULT_SUSPEND_TOKEN_RIGHTS
   | Exception \<Rightarrow> DEFAULT_EXCEPTION_RIGHTS
   | _ \<Rightarrow> DEFAULT_EVENT_RIGHTS OR RIGHTS_IO)"

datatype ZxError =
    ZxOk | ErrInternal | ErrNotSupported | ErrNoMemory | ErrCallBadState | ErrInvalidArgs
  | ErrAccessDenied | ErrNotFound | ErrAlreadyExists | ErrOutOfRange | ErrBadState | ErrTimedOut
  | ErrShouldWait | ErrCanceled | ErrPeerClosed

type_synonym 'a ZxResult = "ZxError + 'a"

subsection \<open>Ranges and pages\<close>

definition pages :: "usize \<Rightarrow> usize \<Rightarrow> usize" where
  "pages sz page_size =
     (if page_size = 0 then 0
      else let whole_pages = sz div page_size in
        if sz mod page_size = 0 then whole_pages
        else case checked_add whole_pages 1 of Some n \<Rightarrow> n | None \<Rightarrow> - 1)"

definition roundup_pages :: "usize \<Rightarrow> usize \<Rightarrow> usize" where
  "roundup_pages sz page_size =
     (if page_size = 0 then 0
      else case checked_mul (pages sz page_size) page_size of
        Some rounded \<Rightarrow> rounded | None \<Rightarrow> - 1)"

definition checked_end :: "usize \<Rightarrow> usize \<Rightarrow> usize option" where
  "checked_end addr len = (if addr \<le> - 1 - len then Some (addr + len) else None)"

definition page_aligned :: "usize \<Rightarrow> usize \<Rightarrow> bool" where
  "page_aligned addr page_size \<longleftrightarrow> page_size \<noteq> 0 \<and> addr mod page_size = 0"

definition range_within :: "usize \<Rightarrow> usize \<Rightarrow> usize \<Rightarrow> usize \<Rightarrow> bool" where
  "range_within addr len base sz =
     (case (checked_end addr len, checked_end base sz) of
        (Some end_a, Some limit) \<Rightarrow> base \<le> addr \<and> end_a \<le> limit
      | _ \<Rightarrow> False)"

definition ranges_overlap :: "usize \<Rightarrow> usize \<Rightarrow> usize \<Rightarrow> usize \<Rightarrow> bool" where
  "ranges_overlap start_a len_a start_b len_b =
     (case (checked_end start_a len_a, checked_end start_b len_b) of
        (Some end_a, Some end_b) \<Rightarrow> start_a < end_b \<and> start_b < end_a
      | _ \<Rightarrow> False)"

definition is_power_of_two :: "usize \<Rightarrow> bool" where
  "is_power_of_two n \<longleftrightarrow> list_ex (\<lambda>k. n = push_bit k 1) [0..<64]"

definition align_up_checked :: "usize \<Rightarrow> usize \<Rightarrow> usize option" where
  "align_up_checked addr align =
     (if align = 0 \<or> \<not> is_power_of_two align then None
      else case checked_add addr (align - 1) of
        Some biased \<Rightarrow> Some (biased AND NOT (align - 1))
      | None \<Rightarrow> None)"

subsection \<open>Rights\<close>

definition intersect_rights :: "u32 \<Rightarrow> u32 \<Rightarrow> u32" where
  "intersect_rights requested existing = requested AND existing"

definition rights_subset :: "u32 \<Rightarrow> u32 \<Rightarrow> bool" where
  "rights_subset requested existing \<longleftrightarrow> requested AND NOT existing = 0"

definition rights_has :: "u32 \<Rightarrow> u32 \<Rightarrow> bool" where
  "rights_has rights required \<longleftrightarrow> rights AND required = required"

definition rights_valid :: "u32 \<Rightarrow> u32 \<Rightarrow> bool" where
  "rights_valid rights known_mask \<longleftrightarrow> rights AND NOT known_mask = 0"

definition duplicate_rights_allowed :: "u32 \<Rightarrow> u32 \<Rightarrow> u32 \<Rightarrow> u32 \<Rightarrow> u32 \<Rightarrow> bool" where
  "duplicate_rights_allowed existing requested duplicate_right same_rights known_mask \<longleftrightarrow>
     rights_has existing duplicate_right
     \<and> (requested = same_rights
        \<or> (rights_valid requested known_mask \<and> rights_subset requested existing))"

definition replace_rights_allowed :: "u32 \<Rightarrow> u32 \<Rightarrow> u32 \<Rightarrow> u32 \<Rightarrow> bool" where
  "replace_rights_allowed existing requested same_rights known_mask \<longleftrightarrow>
     requested = same_rights
     \<or> (rights_valid requested known_mask \<and> rights_subset requested existing)"

definition handle_is_valid :: "u32 \<Rightarrow> u32 \<Rightarrow> bool" where
  "handle_is_valid handle invalid \<longleftrightarrow> handle \<noteq> 0 \<and> handle \<noteq> invalid"

definition signal_update :: "u32 \<Rightarrow> u32 \<Rightarrow> u32 \<Rightarrow> u32" where
  "signal_update current clear_mask set_mask = (current AND NOT clear_mask) OR set_mask"

definition channel_message_fits :: "nat \<Rightarrow> nat \<Rightarrow> nat \<Rightarrow> nat \<Rightarrow> bool" where
  "channel_message_fits data_len handles_len max_data_len max_handles_len \<longleftrightarrow>
     data_len \<le> max_data_len \<and> handles_len \<le> max_handles_len"

definition channel_signal_state :: "bool \<Rightarrow> bool \<Rightarrow> u32 \<Rightarrow> u32 \<Rightarrow> u32" where
  "channel_signal_state queue_not_empty peer_closed readable_signal peer_closed_signal =
     (if queue_not_empty \<and> peer_closed then readable_signal OR peer_closed_signal
      else if queue_not_empty then readable_signal
      else if peer_closed then peer_closed_signal
      else 0)"

definition rights_are_valid :: "u32 \<Rightarrow> bool" where
  "rights_are_valid rights = rights_valid rights RIGHTS_ALL"

definition rights_contain :: "u32 \<Rightarrow> u32 \<Rightarrow> bool" where
  "rights_contain rights required = rights_has rights required"

definition rights_are_subset :: "u32 \<Rightarrow> u32 \<Rightarrow> bool" where
  "rights_are_subset requested existing = rights_subset requested existing"

text \<open>The rights a duplicate or a replacement receives: the \<open>if rights == RIGHT_SAME_RIGHTS\<close> step.\<close>

definition effective_rights :: "u32 \<Rightarrow> u32 \<Rightarrow> u32" where
  "effective_rights existing requested =
     (if requested = RIGHT_SAME_RIGHTS then existing else requested)"

lemmas rights_mask_defs =
  RIGHTS_ALL_def RIGHTS_BASIC_def RIGHTS_PROPERTY_def RIGHTS_POLICY_def RIGHTS_SIGNAL_def
  RIGHTS_IO_def RIGHTS_MEMORY_def RIGHTS_TASK_def RIGHTS_SOCKET_def RIGHTS_EXTENDED_def

lemmas default_rights_defs =
  default_rights_for_object_def DEFAULT_EVENT_RIGHTS_def DEFAULT_EVENTPAIR_RIGHTS_def
  DEFAULT_PORT_RIGHTS_def DEFAULT_SOCKET_RIGHTS_def DEFAULT_RESOURCE_RIGHTS_def
  DEFAULT_INTERRUPT_RIGHTS_def DEFAULT_STREAM_RIGHTS_def DEFAULT_CLOCK_RIGHTS_def
  DEFAULT_SUSPEND_TOKEN_RIGHTS_def DEFAULT_EXCEPTION_RIGHTS_def

subsection \<open>Numeric values\<close>

text \<open>The masks as numbers, which is also how they are evaluated.\<close>

lemma Rights_as_u32_values [simp, code]:
  "Rights_as_u32 R_None = 0"
  "Rights_as_u32 R_Duplicate = 1"
  "Rights_as_u32 R_Transfer = 2"
  "Rights_as_u32 R_Read = 4"
  "Rights_as_u32 R_Write = 8"
  "Rights_as_u32 R_Execute = 0x10"
  "Rights_as_u32 R_Map = 0x20"
  "Rights_as_u32 R_GetProperty = 0x40"
  "Rights_as_u32 R_SetProperty = 0x80"
  "Rights_as_u32 R_Enumerate = 0x100"
  "Rights_as_u32 R_Destroy = 0x200"
  "Rights_as_u32 R_SetPolicy = 0x400"
  "Rights_as_u32 R_GetPolicy = 0x800"
  "Rights_as_u32 R_Signal = 0x1000"
  "Rights_as_u32 R_SignalPeer = 0x2000"
  "Rights_as_u32 R_Wait = 0x4000"
  "Rights_as_u32 R_Inspect = 0x8000"
  "Rights_as_u32 R_ManageJob = 0x10000"
  "Rights_as_u32 R_ManageProcess = 0x20000"
  "Rights_as_u32 R_ManageThread = 0x40000"
  "Rights_as_u32 R_ApplyProfile = 0x80000"
  "Rights_as_u32 R_ManageSocket = 0x100000"
  "Rights_as_u32 R_OpChildren = 0x200000"
  "Rights_as_u32 R_Resize = 0x400000"
  "Rights_as_u32 R_AttachVmo = 0x800000"
  "Rights_as_u32 R_ManageVmo = 0x1000000"
  "Rights_as_u32 R_DefaultVmo = 0x4090ef"
  "Rights_as_u32 R_DefaultVmar = 0x2082ff"
  "Rights_as_u32 R_DefaultChannel = 0x700f"
  "Rights_as_u32 R_DefaultJob = 0x7dfcf"
  "Rights_as_u32 R_DefaultProcess = 0x6d3cf"
  "Rights_as_u32 R_DefaultThread = 0x4d2cf"
  by (simp_all add: Rights_as_u32_def)

lemma rights_mask_values [code]:
  "RIGHTS_BASIC = 0xc003"
  "RIGHTS_PROPERTY = 0xc0"
  "RIGHTS_POLICY = 0xc00"
  "RIGHTS_SIGNAL = 0x3000"
  "RIGHTS_IO = 0x1c"
  "RIGHTS_MEMORY = 0x20"
  "RIGHTS_TASK = 0xf0300"
  "RIGHTS_SOCKET = 0x100000"
  "RIGHTS_EXTENDED = 0x1e00000"
  "RIGHTS_ALL = 0x1ffffff"
  by (simp_all add: rights_mask_defs)

lemma default_rights_values [code]:
  "DEFAULT_EVENT_RIGHTS = 0xd0c3"
  "DEFAULT_EVENTPAIR_RIGHTS = 0xf0c3"
  "DEFAULT_PORT_RIGHTS = 0x80cf"
  "DEFAULT_SOCKET_RIGHTS = 0xf0cf"
  "DEFAULT_RESOURCE_RIGHTS = 0x800f"
  "DEFAULT_INTERRUPT_RIGHTS = 0xd01f"
  "DEFAULT_STREAM_RIGHTS = 0xd0cf"
  "DEFAULT_CLOCK_RIGHTS = 0xc01f"
  "DEFAULT_SUSPEND_TOKEN_RIGHTS = 0x8002"
  "DEFAULT_EXCEPTION_RIGHTS = 0x80c2"
  by (simp_all add: default_rights_defs rights_mask_defs)

subsection \<open>Lemmas on ranges\<close>

lemma checked_end_eq_checked_add: "checked_end a l = checked_add a l"
proof -
  have "unat (- 1 - l) = unat (- 1 :: usize) - unat l"
    by (rule unat_sub) simp
  also have "unat (- 1 :: usize) = 2 ^ 64 - 1"
    by (simp add: unsigned_minus_1_eq_mask mask_eq_exp_minus_1)
  finally have m: "unat (- 1 - l) = 2 ^ 64 - 1 - unat l" .
  have l: "unat l < 2 ^ 64" using unsigned_less [of l] by simp
  have "a \<le> - 1 - l \<longleftrightarrow> unat a + unat l < 2 ^ 64"
    unfolding word_le_nat_alt m using l by auto
  then show ?thesis by (simp add: checked_end_def checked_add_def)
qed

lemma checked_end_Some_iff: "checked_end a l = Some e \<longleftrightarrow> unat e = unat a + unat l"
  by (simp add: checked_end_eq_checked_add checked_add_Some_iff)

lemma checked_end_None_iff: "checked_end a l = None \<longleftrightarrow> 2 ^ 64 \<le> unat a + unat l"
  by (simp add: checked_end_eq_checked_add checked_add_None_iff)

lemma unat_lt_64 [simp]: "unat (w :: 64 word) < 18446744073709551616"
  using unsigned_less [of w] by simp

lemma range_within_iff:
  "range_within addr len base sz \<longleftrightarrow>
     unat base + unat sz < 2 ^ 64 \<and> unat base \<le> unat addr
     \<and> unat addr + unat len \<le> unat base + unat sz"
proof (cases "checked_end base sz")
  case None
  then have "2 ^ 64 \<le> unat base + unat sz" by (simp only: checked_end_None_iff)
  with None show ?thesis by (simp add: range_within_def split: option.splits)
next
  case (Some limit)
  then have l: "unat limit = unat base + unat sz" by (simp add: checked_end_Some_iff)
  show ?thesis
  proof (cases "checked_end addr len")
    case None
    then have "2 ^ 64 \<le> unat addr + unat len" by (simp only: checked_end_None_iff)
    with None show ?thesis using l unat_lt_64 [of limit] by (simp add: range_within_def)
  next
    case (Some e)
    then have "unat e = unat addr + unat len" by (simp add: checked_end_Some_iff)
    with Some \<open>checked_end base sz = Some limit\<close> show ?thesis
      using l unat_lt_64 [of limit] by (auto simp: range_within_def word_le_nat_alt)
  qed
qed

lemma ranges_overlap_iff:
  assumes "unat a + unat la < 2 ^ 64" "unat b + unat lb < 2 ^ 64"
  shows "ranges_overlap a la b lb \<longleftrightarrow>
    unat a < unat b + unat lb \<and> unat b < unat a + unat la"
proof -
  from assms obtain ea eb where e: "checked_end a la = Some ea" "checked_end b lb = Some eb"
    by (metis checked_end_None_iff not_le option.exhaust)
  then have "unat ea = unat a + unat la" "unat eb = unat b + unat lb"
    by (simp_all add: checked_end_Some_iff)
  with e show ?thesis by (simp add: ranges_overlap_def word_less_nat_alt)
qed

subsection \<open>Lemmas on rights\<close>

lemma word_and_eq_right_iff: "a AND b = b \<longleftrightarrow> (\<forall>n. bit b n \<longrightarrow> bit a n)"
  for a b :: "'a::len word"
  by (auto simp: bit_eq_iff bit_simps dest: bit_imp_le_length)

lemma word_and_not_zero_iff: "a AND NOT b = 0 \<longleftrightarrow> (\<forall>n. bit a n \<longrightarrow> bit b n)"
  for a b :: "'a::len word"
  by (auto simp: bit_eq_iff bit_simps dest: bit_imp_le_length)

lemma rights_has_iff: "rights_has r q \<longleftrightarrow> (\<forall>n. bit q n \<longrightarrow> bit r n)"
  by (simp add: rights_has_def word_and_eq_right_iff)

lemma rights_subset_iff: "rights_subset q e \<longleftrightarrow> (\<forall>n. bit q n \<longrightarrow> bit e n)"
  by (simp add: rights_subset_def word_and_not_zero_iff)

lemma rights_subset_refl [simp]: "rights_subset r r"
  by (simp add: rights_subset_iff)

lemma rights_subset_trans: "rights_subset a b \<Longrightarrow> rights_subset b c \<Longrightarrow> rights_subset a c"
  by (simp add: rights_subset_iff)

lemma rights_has_mono: "rights_subset a b \<Longrightarrow> rights_has a q \<Longrightarrow> rights_has b q"
  by (auto simp: rights_subset_iff rights_has_iff)

lemma replace_effective_subset:
  "replace_rights_allowed e q RIGHT_SAME_RIGHTS m \<Longrightarrow> rights_subset (effective_rights e q) e"
  by (auto simp: replace_rights_allowed_def effective_rights_def)

lemma duplicate_effective_subset:
  "duplicate_rights_allowed e q d RIGHT_SAME_RIGHTS m \<Longrightarrow> rights_subset (effective_rights e q) e"
  by (auto simp: duplicate_rights_allowed_def effective_rights_def)

lemma replace_effective_valid:
  "replace_rights_allowed e q RIGHT_SAME_RIGHTS RIGHTS_ALL \<Longrightarrow> rights_are_valid e
     \<Longrightarrow> rights_are_valid (effective_rights e q)"
  by (auto simp: replace_rights_allowed_def effective_rights_def rights_are_valid_def)

lemma duplicate_effective_valid:
  "duplicate_rights_allowed e q d RIGHT_SAME_RIGHTS RIGHTS_ALL \<Longrightarrow> rights_are_valid e
     \<Longrightarrow> rights_are_valid (effective_rights e q)"
  by (auto simp: duplicate_rights_allowed_def effective_rights_def rights_are_valid_def)

lemma INVALID_HANDLE_eq: "INVALID_HANDLE = - 1"
  by (simp add: INVALID_HANDLE_def)

lemma RIGHTS_ALL_eq: "RIGHTS_ALL = 0x1FFFFFF"
  by (simp add: rights_mask_defs)

lemma default_rights_valid: "rights_are_valid (default_rights_for_object ty)"
  unfolding rights_are_valid_def rights_valid_def RIGHTS_ALL_eq
  by (cases ty) (simp_all add: default_rights_defs Rights_as_u32_def rights_mask_defs)

lemma signal_update_bit:
  "bit (signal_update c cl st) n \<longleftrightarrow> bit st n \<or> (bit c n \<and> \<not> bit cl n)"
  by (auto simp: signal_update_def bit_simps dest: bit_imp_le_length)

end
