(* ===== verification/Slot_Table.thy ===== *)
theory Slot_Table
  imports Smros_Prelude
begin

text \<open>
  Tables of slots.  The handle table, the socket, FIFO and port tables and the futex table all
  keep a fixed array of slots, find a slot by scanning for the first live one with a given key,
  and take the first slot that is not live for a new object.  The contract of that scan and its
  consequences are stated once here; each table interprets the locale on its own \<open>index\<close> and
  \<open>free_index\<close>.
\<close>

definition distinct_live :: "('e \<Rightarrow> bool) \<Rightarrow> ('e \<Rightarrow> 'k) \<Rightarrow> 'e list \<Rightarrow> bool" where
  "distinct_live live key es \<longleftrightarrow> distinct (map key (filter live es))"

lemma distinct_live_iff:
  "distinct_live live key es \<longleftrightarrow>
     (\<forall>i<length es. \<forall>j<length es.
        live (es ! i) \<and> live (es ! j) \<and> key (es ! i) = key (es ! j) \<longrightarrow> i = j)"
proof (induction es)
  case Nil
  then show ?case by (simp add: distinct_live_def)
next
  case (Cons e es)
  have "distinct_live live key (e # es) \<longleftrightarrow>
      (live e \<longrightarrow> (\<forall>j<length es. live (es ! j) \<longrightarrow> key (es ! j) \<noteq> key e))
      \<and> distinct_live live key es"
    by (auto simp: distinct_live_def in_set_conv_nth image_iff)
  then have "distinct_live live key (e # es) \<longleftrightarrow>
      (\<forall>j<length es. live (es ! j) \<longrightarrow> live e \<longrightarrow> key e \<noteq> key (es ! j))
      \<and> distinct_live live key es" by metis
  then show ?case unfolding Cons.IH by (simp only: length_Cons All_less_Suc2 nth_Cons_0 nth_Cons_Suc) fastforce
qed

lemma distinct_liveD:
  "distinct_live live key es \<Longrightarrow> i < length es \<Longrightarrow> j < length es \<Longrightarrow> live (es ! i)
     \<Longrightarrow> live (es ! j) \<Longrightarrow> key (es ! i) = key (es ! j) \<Longrightarrow> i = j"
  by (simp add: distinct_live_iff)

lemma distinct_live_none: "(\<And>e. e \<in> set es \<Longrightarrow> \<not> live e) \<Longrightarrow> distinct_live live key es"
  by (auto simp: distinct_live_iff)

lemma distinct_live_update:
  assumes d: "distinct_live live key es"
    and u: "live e \<Longrightarrow> (\<And>j. j < length es \<Longrightarrow> j \<noteq> i \<Longrightarrow> live (es ! j) \<Longrightarrow> key (es ! j) \<noteq> key e)"
  shows "distinct_live live key (es[i := e])"
  unfolding distinct_live_iff
proof (intro allI impI)
  fix a b
  assume a: "a < length (es[i := e])" and b: "b < length (es[i := e])"
    and "live (es[i := e] ! a) \<and> live (es[i := e] ! b)
      \<and> key (es[i := e] ! a) = key (es[i := e] ! b)"
  then have la: "live (es[i := e] ! a)" and lb: "live (es[i := e] ! b)"
    and k: "key (es[i := e] ! a) = key (es[i := e] ! b)" by blast+
  show "a = b"
  proof (cases "a = i \<or> b = i")
    case True
    then show ?thesis using a b la lb k u [of a] u [of b]
      by (cases "a = i"; cases "b = i") auto
  next
    case False
    then show ?thesis using a b la lb k d by (auto dest: distinct_liveD)
  qed
qed

lemma distinct_live_map:
  assumes "distinct_live live key es"
    and "\<And>e. e \<in> set es \<Longrightarrow> live (f e) \<Longrightarrow> live e \<and> key (f e) = key e"
  shows "distinct_live live key (map f es)"
  unfolding distinct_live_iff
proof (intro allI impI)
  fix i j
  assume ij: "i < length (map f es)" "j < length (map f es)"
    and l: "live (map f es ! i) \<and> live (map f es ! j)
      \<and> key (map f es ! i) = key (map f es ! j)"
  from ij have m: "es ! i \<in> set es" "es ! j \<in> set es" by simp_all
  show "i = j"
    using distinct_liveD [OF assms(1), of i j] assms(2) [OF m(1)] assms(2) [OF m(2)] ij l
    by simp
qed

locale slot_table =
  fixes live :: "'e \<Rightarrow> bool"
    and key :: "'e \<Rightarrow> 'k"
    and index :: "'e list \<Rightarrow> 'k \<Rightarrow> nat option"
    and free_index :: "'e list \<Rightarrow> nat option"
  assumes index_first: "index es k = position (\<lambda>e. live e \<and> key e = k) es"
    and free_first: "free_index es = position (\<lambda>e. \<not> live e) es"
begin

lemma index_SomeD: "index es k = Some i \<Longrightarrow> i < length es \<and> live (es ! i) \<and> key (es ! i) = k"
  by (auto simp: index_first dest: position_SomeD)

lemma index_None_iff: "index es k = None \<longleftrightarrow> (\<forall>e\<in>set es. live e \<longrightarrow> key e \<noteq> k)"
  by (auto simp: index_first position_None_iff)

lemma index_NoneD: "index es k = None \<Longrightarrow> i < length es \<Longrightarrow> live (es ! i) \<Longrightarrow> key (es ! i) \<noteq> k"
  by (auto simp: index_None_iff)

lemma free_SomeD: "free_index es = Some i \<Longrightarrow> i < length es \<and> \<not> live (es ! i)"
  by (auto simp: free_first dest: position_SomeD)

lemma free_None_iff: "free_index es = None \<longleftrightarrow> (\<forall>e\<in>set es. live e)"
  by (auto simp: free_first position_None_iff)

lemma index_SomeI:
  "distinct_live live key es \<Longrightarrow> i < length es \<Longrightarrow> live (es ! i) \<Longrightarrow> key (es ! i) = k
     \<Longrightarrow> index es k = Some i"
  unfolding index_first
  by (rule position_uniqueI) (auto dest: distinct_liveD)

lemma index_update_same:
  assumes "live e = live (es ! i)" "live e \<Longrightarrow> key e = key (es ! i)"
  shows "index (es[i := e]) k = index es k"
proof (cases "i < length es")
  case True
  have "map (\<lambda>x. live x \<and> key x = k) (es[i := e]) = map (\<lambda>x. live x \<and> key x = k) es"
    using True assms by (auto simp: map_update list_update_same_conv)
  moreover have "position q ys = position (\<lambda>b. b) (map q ys)" for q and ys :: "'e list"
    by (induction ys) auto
  ultimately show ?thesis unfolding index_first by metis
qed (simp add: list_update_beyond)

lemma index_fill:
  assumes d: "distinct_live live key es" and i: "i < length es" "\<not> live (es ! i)"
    and e: "live e" and fresh: "index es (key e) = None"
  shows "index (es[i := e]) k = (if k = key e then Some i else index es k)"
    and "distinct_live live key (es[i := e])"
proof -
  show d': "distinct_live live key (es[i := e])"
    using d fresh index_NoneD by (intro distinct_live_update) auto
  show "index (es[i := e]) k = (if k = key e then Some i else index es k)"
  proof (cases "k = key e")
    case True
    with d' i e show ?thesis by (auto intro: index_SomeI)
  next
    case False
    show ?thesis
    proof (cases "index es k")
      case None
      then have "index (es[i := e]) k = None"
        using False index_None_iff set_update_subset_insert by fastforce
      with None False show ?thesis by simp
    next
      case (Some j)
      then have "j < length es" "live (es ! j)" "key (es ! j) = k" by (auto dest: index_SomeD)
      with i(2) have "j \<noteq> i" by auto
      with d' \<open>j < length es\<close> \<open>live (es ! j)\<close> \<open>key (es ! j) = k\<close> have "index (es[i := e]) k = Some j"
        by (intro index_SomeI) auto
      with Some False show ?thesis by simp
    qed
  qed
qed

lemma index_clear:
  assumes d: "distinct_live live key es" and i: "i < length es" "live (es ! i)"
    and e: "\<not> live e"
  shows "index (es[i := e]) k = (if k = key (es ! i) then None else index es k)"
    and "distinct_live live key (es[i := e])"
proof -
  show d': "distinct_live live key (es[i := e])"
    using d e by (intro distinct_live_update) auto
  show "index (es[i := e]) k = (if k = key (es ! i) then None else index es k)"
  proof (cases "index (es[i := e]) k")
    case None
    then have "index es k = None \<or> k = key (es ! i)"
      using index_NoneD [OF None] i(1)
      by (metis index_SomeD length_list_update nth_list_update_neq option.exhaust)
    with None show ?thesis by auto
  next
    case (Some j)
    then have "j < length es" "live (es[i := e] ! j)" "key (es[i := e] ! j) = k"
      by (auto dest: index_SomeD)
    with e i have j: "j \<noteq> i" "live (es ! j)" "key (es ! j) = k" "j < length es"
      by (auto simp: nth_list_update split: if_splits)
    with d i have "k \<noteq> key (es ! i)" by (auto dest: distinct_liveD)
    moreover from d j have "index es k = Some j" by (auto intro: index_SomeI)
    ultimately show ?thesis using Some by simp
  qed
qed

text \<open>The entry under a key, and how the single updates of a table change it.\<close>

definition lookup :: "'e list \<Rightarrow> 'k \<Rightarrow> 'e option" where
  "lookup es k = map_option ((!) es) (index es k)"

lemma lookup_other:
  assumes "index es l = Some j" "index es k = Some i" "l \<noteq> k"
  shows "es[i := e] ! j = es ! j"
proof -
  have "j \<noteq> i" using assms index_SomeD by blast
  then show ?thesis by simp
qed

lemma lookup_replace:
  assumes i: "index es k = Some i" and e: "live e" "key e = k"
  shows "lookup (es[i := e]) = (lookup es)(k \<mapsto> e)"
proof
  fix l
  have si: "i < length es" "live (es ! i)" "key (es ! i) = k" using index_SomeD [OF i] by simp_all
  have "index (es[i := e]) l = index es l" using si e by (intro index_update_same) simp_all
  then show "lookup (es[i := e]) l = ((lookup es)(k \<mapsto> e)) l"
    using i si lookup_other [OF _ i] by (cases "index es l"; cases "l = k") (auto simp: lookup_def)
qed

lemma lookup_clear:
  assumes d: "distinct_live live key es" and i: "index es k = Some i" and e: "\<not> live e"
  shows "lookup (es[i := e]) = (lookup es)(k := None)"
proof
  fix l
  have si: "i < length es" "live (es ! i)" "key (es ! i) = k" using index_SomeD [OF i] by simp_all
  show "lookup (es[i := e]) l = ((lookup es)(k := None)) l"
    using index_clear(1) [OF d si(1,2) e, of l] si(3) lookup_other [OF _ i]
    by (cases "index es l"; cases "l = k") (auto simp: lookup_def)
qed

lemma lookup_fill:
  assumes d: "distinct_live live key es" and i: "i < length es" "\<not> live (es ! i)"
    and e: "live e" and fresh: "index es (key e) = None"
  shows "lookup (es[i := e]) = (lookup es)(key e \<mapsto> e)"
proof
  fix l
  have "j \<noteq> i" if "index es l = Some j" for j using that i(2) index_SomeD by blast
  then show "lookup (es[i := e]) l = ((lookup es)(key e \<mapsto> e)) l"
    using index_fill(1) [OF d i e fresh, of l] i(1) fresh by (cases "index es l") (auto simp: lookup_def)
qed

end

end
