(* ===== verification/Handle_Table.thy ===== *)
theory Handle_Table
  imports Object_Types Slot_Table
begin

text \<open>
  The per-process handle table, \<open>src/kernel_objects/handle.rs\<close>: a fixed array of entries with a
  counter for the next handle value.  Every operation of the source is one definition; the
  loops \<open>for i in 0..MAX_HANDLES_PER_PROCESS\<close> that stop at the first hit are scans with
  \<open>position\<close>.  The lemmas show which handle each operation creates or revokes, that rights
  never grow, and when handle values stay unique.
\<close>

record HandleEntry =
  he_handle :: HandleValue
  he_obj_type :: ObjectType
  he_rights :: u32
  he_valid :: bool

record HandleTable =
  ht_entries :: "HandleEntry list"
  ht_next_handle :: u32

definition EMPTY_ENTRY :: HandleEntry where
  "EMPTY_ENTRY = \<lparr>he_handle = INVALID_HANDLE, he_obj_type = Vmo, he_rights = 0, he_valid = False\<rparr>"

definition handle_table_new :: HandleTable where
  "handle_table_new =
     \<lparr>ht_entries = replicate MAX_HANDLES_PER_PROCESS EMPTY_ENTRY, ht_next_handle = 1\<rparr>"

text \<open>The two scans every operation starts with.\<close>

definition handle_index :: "HandleEntry list \<Rightarrow> HandleValue \<Rightarrow> nat option" where
  "handle_index es h = position (\<lambda>e. he_valid e \<and> he_handle e = h) es"

definition handle_free_index :: "HandleEntry list \<Rightarrow> nat option" where
  "handle_free_index es = position (\<lambda>e. \<not> he_valid e) es"

definition handle_add :: "HandleTable \<Rightarrow> ObjectType \<Rightarrow> u32 \<Rightarrow> HandleTable \<times> HandleValue option" where
  "handle_add t obj_type rights =
     (if \<not> rights_are_valid rights then (t, None)
      else let handle_num = ht_next_handle t;
               t = t\<lparr>ht_next_handle := handle_num + 1\<rparr> in
        if \<not> handle_is_valid handle_num INVALID_HANDLE then (t, None)
        else case handle_free_index (ht_entries t) of
          Some i \<Rightarrow>
            (t\<lparr>ht_entries := (ht_entries t)[i := \<lparr>he_handle = handle_num, he_obj_type = obj_type,
                 he_rights = rights, he_valid = True\<rparr>]\<rparr>, Some handle_num)
        | None \<Rightarrow> (t, None))"

definition handle_get_rights :: "HandleTable \<Rightarrow> HandleValue \<Rightarrow> u32 option" where
  "handle_get_rights t h = (case handle_index (ht_entries t) h of
     Some i \<Rightarrow> Some (he_rights (ht_entries t ! i)) | None \<Rightarrow> None)"

definition handle_get_object_type :: "HandleTable \<Rightarrow> HandleValue \<Rightarrow> ObjectType option" where
  "handle_get_object_type t h = (case handle_index (ht_entries t) h of
     Some i \<Rightarrow> Some (he_obj_type (ht_entries t ! i)) | None \<Rightarrow> None)"

definition handle_has_rights :: "HandleTable \<Rightarrow> HandleValue \<Rightarrow> u32 \<Rightarrow> bool" where
  "handle_has_rights t h required = (case handle_get_rights t h of
     Some rights \<Rightarrow> rights_contain rights required | None \<Rightarrow> False)"

definition handle_contains :: "HandleTable \<Rightarrow> HandleValue \<Rightarrow> bool" where
  "handle_contains t h \<longleftrightarrow> handle_get_rights t h \<noteq> None"

definition handle_add_existing ::
  "HandleTable \<Rightarrow> HandleValue \<Rightarrow> ObjectType \<Rightarrow> u32 \<Rightarrow> HandleTable \<times> bool" where
  "handle_add_existing t h obj_type rights =
     (if \<not> handle_is_valid h INVALID_HANDLE \<or> \<not> rights_are_valid rights \<or> handle_contains t h
      then (t, False)
      else case handle_free_index (ht_entries t) of
        Some i \<Rightarrow>
          (t\<lparr>ht_entries := (ht_entries t)[i := \<lparr>he_handle = h, he_obj_type = obj_type,
               he_rights = rights, he_valid = True\<rparr>]\<rparr>, True)
      | None \<Rightarrow> (t, False))"

definition handle_remove :: "HandleTable \<Rightarrow> HandleValue \<Rightarrow> HandleTable \<times> bool" where
  "handle_remove t h = (case handle_index (ht_entries t) h of
     Some i \<Rightarrow> (t\<lparr>ht_entries := (ht_entries t)[i := (ht_entries t ! i)\<lparr>he_valid := False\<rparr>]\<rparr>, True)
   | None \<Rightarrow> (t, False))"

definition handle_duplicate ::
  "HandleTable \<Rightarrow> HandleValue \<Rightarrow> u32 \<Rightarrow> HandleTable \<times> HandleValue option" where
  "handle_duplicate t h rights = (case handle_index (ht_entries t) h of
     Some i \<Rightarrow>
       let existing_rights = he_rights (ht_entries t ! i) in
       if \<not> duplicate_rights_allowed existing_rights rights (Rights_as_u32 R_Duplicate)
              RIGHT_SAME_RIGHTS RIGHTS_ALL
       then (t, None)
       else handle_add t (he_obj_type (ht_entries t ! i)) (effective_rights existing_rights rights)
   | None \<Rightarrow> (t, None))"

definition handle_replace ::
  "HandleTable \<Rightarrow> HandleValue \<Rightarrow> u32 \<Rightarrow> HandleTable \<times> HandleValue option" where
  "handle_replace t h rights = (case handle_index (ht_entries t) h of
     Some i \<Rightarrow>
       let existing_rights = he_rights (ht_entries t ! i) in
       if \<not> replace_rights_allowed existing_rights rights RIGHT_SAME_RIGHTS RIGHTS_ALL
       then (t, None)
       else (case handle_add t (he_obj_type (ht_entries t ! i))
                    (effective_rights existing_rights rights) of
           (t, None) \<Rightarrow> (t, None)
         | (t, Some new_handle) \<Rightarrow>
             (case handle_remove t h of
                (t, True) \<Rightarrow> (t, Some new_handle)
              | (t, False) \<Rightarrow> (fst (handle_remove t new_handle), None)))
   | None \<Rightarrow> (t, None))"

subsection \<open>Sequences of operations\<close>

datatype HandleOp =
    HAdd ObjectType u32
  | HDuplicate HandleValue u32
  | HReplace HandleValue u32
  | HRemove HandleValue
  | HAddExisting HandleValue ObjectType u32

fun handle_step :: "HandleTable \<Rightarrow> HandleOp \<Rightarrow> HandleTable" where
  "handle_step t (HAdd ty r) = fst (handle_add t ty r)"
| "handle_step t (HDuplicate h r) = fst (handle_duplicate t h r)"
| "handle_step t (HReplace h r) = fst (handle_replace t h r)"
| "handle_step t (HRemove h) = fst (handle_remove t h)"
| "handle_step t (HAddExisting h ty r) = fst (handle_add_existing t h ty r)"

fun handle_run :: "HandleTable \<Rightarrow> HandleOp list \<Rightarrow> HandleTable" where
  "handle_run t [] = t"
| "handle_run t (op # ops) = handle_run (handle_step t op) ops"

fun is_add :: "HandleOp \<Rightarrow> bool" where
  "is_add (HAdd _ _) = True"
| "is_add (HAddExisting _ _ _) = True"
| "is_add _ = False"

text \<open>In a run, every value brought in by \<open>add_existing\<close> is below the counter of the table at that time.\<close>

fun imports_behind :: "HandleTable \<Rightarrow> HandleOp list \<Rightarrow> bool" where
  "imports_behind t [] = True"
| "imports_behind t (op # ops) =
     ((case op of HAddExisting h ty r \<Rightarrow> h < ht_next_handle t | _ \<Rightarrow> True) \<and> imports_behind (handle_step t op) ops)"

subsection \<open>Invariant and abstraction\<close>

definition entry_ok :: "HandleEntry \<Rightarrow> bool" where
  "entry_ok e \<longleftrightarrow> (he_valid e \<longrightarrow>
     rights_are_valid (he_rights e) \<and> handle_is_valid (he_handle e) INVALID_HANDLE)"

definition ht_inv :: "HandleTable \<Rightarrow> bool" where
  "ht_inv t \<longleftrightarrow> length (ht_entries t) = MAX_HANDLES_PER_PROCESS
     \<and> list_all entry_ok (ht_entries t)
     \<and> distinct_live he_valid he_handle (ht_entries t)"

text \<open>The counter is ahead of every live handle, as long as no foreign value was imported.\<close>

definition ht_ahead :: "HandleTable \<Rightarrow> bool" where
  "ht_ahead t \<longleftrightarrow> list_all (\<lambda>e. he_valid e \<longrightarrow> he_handle e < ht_next_handle t) (ht_entries t)"

definition ht_lookup :: "HandleTable \<Rightarrow> HandleValue \<Rightarrow> (ObjectType \<times> u32) option" where
  "ht_lookup t h = (case handle_index (ht_entries t) h of
     Some i \<Rightarrow> Some (he_obj_type (ht_entries t ! i), he_rights (ht_entries t ! i))
   | None \<Rightarrow> None)"

interpretation handles: slot_table he_valid he_handle handle_index handle_free_index
  by unfold_locales (simp_all add: handle_index_def handle_free_index_def)

lemma get_rights_lookup: "handle_get_rights t h = map_option snd (ht_lookup t h)"
  by (simp add: handle_get_rights_def ht_lookup_def split: option.splits)

lemma get_object_type_lookup: "handle_get_object_type t h = map_option fst (ht_lookup t h)"
  by (simp add: handle_get_object_type_def ht_lookup_def split: option.splits)

lemma contains_lookup: "handle_contains t h \<longleftrightarrow> ht_lookup t h \<noteq> None"
  by (simp add: handle_contains_def get_rights_lookup)

lemmas handle_views = get_rights_lookup get_object_type_lookup contains_lookup

lemma lookup_None_iff: "ht_lookup t h = None \<longleftrightarrow> handle_index (ht_entries t) h = None"
  by (simp add: ht_lookup_def split: option.splits)

lemma ht_lookup_cong: "ht_entries t' = ht_entries t \<Longrightarrow> ht_lookup t' = ht_lookup t"
  by (rule ext) (simp add: ht_lookup_def split: option.splits)

lemma ahead_fresh: "ht_ahead t \<Longrightarrow> ht_lookup t (ht_next_handle t) = None"
  by (auto simp: lookup_None_iff handles.index_None_iff ht_ahead_def list_all_iff)

lemma handle_table_new_inv: "ht_inv handle_table_new" "ht_ahead handle_table_new"
  by (auto simp: ht_inv_def ht_ahead_def handle_table_new_def EMPTY_ENTRY_def entry_ok_def
      list_all_iff intro: distinct_live_none)

subsection \<open>Adding\<close>

lemma handle_add_Some:
  assumes "handle_add t ty r = (t', Some h)"
  obtains i where "rights_are_valid r" "h = ht_next_handle t" "handle_is_valid h INVALID_HANDLE"
    "handle_free_index (ht_entries t) = Some i" "ht_next_handle t' = h + 1"
    "ht_entries t' = (ht_entries t)[i := \<lparr>he_handle = h, he_obj_type = ty, he_rights = r,
       he_valid = True\<rparr>]"
  using assms by (auto simp: handle_add_def Let_def split: if_splits option.splits)

lemma handle_add_None: "handle_add t ty r = (t', None) \<Longrightarrow> ht_entries t' = ht_entries t"
  by (auto simp: handle_add_def Let_def split: if_splits option.splits)

lemma handle_add_lookup:
  assumes inv: "ht_inv t" and add: "handle_add t ty r = (t', Some h)"
    and fresh: "ht_lookup t (ht_next_handle t) = None"
  shows "ht_lookup t' = (ht_lookup t)(h \<mapsto> (ty, r))" and "ht_inv t'"
proof -
  from add obtain i where a: "rights_are_valid r" "h = ht_next_handle t"
    "handle_is_valid h INVALID_HANDLE" "handle_free_index (ht_entries t) = Some i"
    "ht_entries t' = (ht_entries t)[i := \<lparr>he_handle = h, he_obj_type = ty, he_rights = r,
       he_valid = True\<rparr>]"
    by (rule handle_add_Some)
  let ?e = "\<lparr>he_handle = h, he_obj_type = ty, he_rights = r, he_valid = True\<rparr>"
  from a(4) have i: "i < length (ht_entries t)" "\<not> he_valid (ht_entries t ! i)"
    by (auto dest: handles.free_SomeD)
  have d: "distinct_live he_valid he_handle (ht_entries t)" using inv by (simp add: ht_inv_def)
  have f: "handle_index (ht_entries t) (he_handle ?e) = None"
    using fresh a(2) by (simp add: lookup_None_iff)
  note fill = handles.index_fill [OF d i, of ?e, OF _ f]
  show "ht_lookup t' = (ht_lookup t)(h \<mapsto> (ty, r))"
  proof
    fix k
    show "ht_lookup t' k = ((ht_lookup t)(h \<mapsto> (ty, r))) k"
      using i handles.index_SomeD [of "ht_entries t" k]
      by (auto simp: ht_lookup_def a(5) fill nth_list_update split: option.splits)
  qed
  show "ht_inv t'"
    using inv fill(2) a(1,3)
    by (auto simp: ht_inv_def a(5) entry_ok_def intro!: list_all_update)
qed

lemma handle_add_ahead:
  assumes "ht_ahead t" "ht_next_handle t \<noteq> INVALID_HANDLE" "handle_add t ty r = (t', x)"
  shows "ht_ahead t'"
proof -
  let ?n = "ht_next_handle t"
  have n: "?n < ?n + 1" using assms(2)
    by (simp add: INVALID_HANDLE_eq word_less_succ)
  have "list_all (\<lambda>e. he_valid e \<longrightarrow> he_handle e < ?n + 1) (ht_entries t)"
    using assms(1) n by (auto simp: ht_ahead_def list_all_iff intro: less_trans)
  then show ?thesis using assms(1,3) n
    by (auto simp: handle_add_def Let_def ht_ahead_def split: if_splits option.splits
        intro!: list_all_update)
qed

subsection \<open>Removing\<close>

lemma handle_remove_lookup:
  assumes inv: "ht_inv t" and rem: "handle_remove t h = (t', b)"
  shows "ht_lookup t' = (ht_lookup t)(h := None)" and "ht_inv t'"
    and "b \<longleftrightarrow> ht_lookup t h \<noteq> None" and "ht_next_handle t' = ht_next_handle t"
proof -
  have *: "ht_lookup t' = (ht_lookup t)(h := None) \<and> ht_inv t'
      \<and> (b \<longleftrightarrow> ht_lookup t h \<noteq> None) \<and> ht_next_handle t' = ht_next_handle t"
  proof (cases "handle_index (ht_entries t) h")
    case None
    with rem inv show ?thesis
      by (auto simp: handle_remove_def ht_lookup_def fun_eq_iff)
  next
    case (Some i)
    then have i: "i < length (ht_entries t)" "he_valid (ht_entries t ! i)"
      "he_handle (ht_entries t ! i) = h" by (auto dest: handles.index_SomeD)
    have d: "distinct_live he_valid he_handle (ht_entries t)" using inv by (simp add: ht_inv_def)
    let ?e = "(ht_entries t ! i)\<lparr>he_valid := False\<rparr>"
    note clear = handles.index_clear [OF d i(1,2), of ?e, simplified]
    from rem Some have t': "ht_entries t' = (ht_entries t)[i := ?e]" "b"
      "ht_next_handle t' = ht_next_handle t" by (auto simp: handle_remove_def)
    have "ht_lookup t' k = ((ht_lookup t)(h := None)) k" for k
      using i handles.index_SomeD [of "ht_entries t" k]
      by (auto simp: ht_lookup_def t' clear nth_list_update split: option.splits)
    moreover have "ht_inv t'"
      using inv clear(2) by (auto simp: ht_inv_def t' entry_ok_def intro!: list_all_update)
    ultimately show ?thesis using t' Some by (auto simp: ht_lookup_def)
  qed
  then show "ht_lookup t' = (ht_lookup t)(h := None)" "ht_inv t'"
    "b \<longleftrightarrow> ht_lookup t h \<noteq> None" "ht_next_handle t' = ht_next_handle t" by blast+
qed

lemma handle_remove_ahead: "ht_ahead t \<Longrightarrow> ht_ahead (fst (handle_remove t h))"
proof -
  assume a: "ht_ahead t"
  show ?thesis
  proof (cases "handle_index (ht_entries t) h")
    case (Some i)
    with a show ?thesis
      by (auto simp: handle_remove_def ht_ahead_def intro!: list_all_update)
  qed (use a in \<open>simp add: handle_remove_def\<close>)
qed

subsection \<open>Duplicating and replacing\<close>

lemma handle_duplicate_cases:
  assumes "handle_duplicate t h r = (t', x)"
  obtains (missing) "ht_lookup t h = None" "t' = t" "x = None"
  | (denied) ty e where "ht_lookup t h = Some (ty, e)" "t' = t" "x = None"
      "\<not> duplicate_rights_allowed e r (Rights_as_u32 R_Duplicate) RIGHT_SAME_RIGHTS RIGHTS_ALL"
  | (added) ty e where "ht_lookup t h = Some (ty, e)"
      "duplicate_rights_allowed e r (Rights_as_u32 R_Duplicate) RIGHT_SAME_RIGHTS RIGHTS_ALL"
      "handle_add t ty (effective_rights e r) = (t', x)"
  using assms by (auto simp: handle_duplicate_def ht_lookup_def Let_def
      split: option.splits if_splits)

lemma handle_replace_cases:
  assumes "handle_replace t h r = (t', x)"
  obtains (missing) "ht_lookup t h = None" "t' = t" "x = None"
  | (denied) ty e where "ht_lookup t h = Some (ty, e)" "t' = t" "x = None"
      "\<not> replace_rights_allowed e r RIGHT_SAME_RIGHTS RIGHTS_ALL"
  | (full) ty e where "ht_lookup t h = Some (ty, e)"
      "replace_rights_allowed e r RIGHT_SAME_RIGHTS RIGHTS_ALL"
      "handle_add t ty (effective_rights e r) = (t', None)" "x = None"
  | (added) ty e t1 n where "ht_lookup t h = Some (ty, e)"
      "replace_rights_allowed e r RIGHT_SAME_RIGHTS RIGHTS_ALL"
      "handle_add t ty (effective_rights e r) = (t1, Some n)"
      "(case handle_remove t1 h of (t, True) \<Rightarrow> (t, Some n)
        | (t, False) \<Rightarrow> (fst (handle_remove t n), None)) = (t', x)"
  using assms by (auto simp: handle_replace_def ht_lookup_def Let_def
      split: option.splits if_splits prod.splits)

lemma handle_duplicate_Some:
  assumes inv: "ht_inv t" "ht_ahead t" and dup: "handle_duplicate t h r = (t', Some n)"
  obtains ty e where "ht_lookup t h = Some (ty, e)"
    "duplicate_rights_allowed e r (Rights_as_u32 R_Duplicate) RIGHT_SAME_RIGHTS RIGHTS_ALL"
    "ht_lookup t n = None" "ht_lookup t' = (ht_lookup t)(n \<mapsto> (ty, effective_rights e r))"
  using dup
proof (cases rule: handle_duplicate_cases)
  case (added ty e)
  then have "n = ht_next_handle t" by (auto elim: handle_add_Some)
  with added show ?thesis
    using that handle_add_lookup(1) [OF inv(1) added(3)] ahead_fresh [OF inv(2)] by blast
qed simp_all

lemma handle_replace_Some:
  assumes inv: "ht_inv t" "ht_ahead t" and rep: "handle_replace t h r = (t', Some n)"
  obtains ty e where "ht_lookup t h = Some (ty, e)"
    "replace_rights_allowed e r RIGHT_SAME_RIGHTS RIGHTS_ALL"
    "ht_lookup t n = None" "n \<noteq> h"
    "ht_lookup t' = (ht_lookup t)(n \<mapsto> (ty, effective_rights e r), h := None)"
  using rep
proof (cases rule: handle_replace_cases)
  case (added ty e t1 m)
  have m: "m = ht_next_handle t" using added(3) by (auto elim: handle_add_Some)
  note add = handle_add_lookup [OF inv(1) added(3) ahead_fresh [OF inv(2)]]
  obtain t2 b where r2: "handle_remove t1 h = (t2, b)" by fastforce
  note rem = handle_remove_lookup [OF add(2) r2]
  have b using rem(3) add(1) added(1) by simp
  with added(4) r2 have e: "m = n" "t2 = t'" by simp_all
  have "n \<noteq> h" using ahead_fresh [OF inv(2)] added(1) m e by auto
  moreover have "ht_lookup t n = None" using ahead_fresh [OF inv(2)] m e by simp
  ultimately show ?thesis using that added(1,2) rem(1) add(1) e by simp
qed simp_all

lemma handle_replace_None_lookup:
  assumes inv: "ht_inv t" "ht_ahead t" and rep: "handle_replace t h r = (t', None)"
  shows "ht_lookup t' = ht_lookup t"
  using rep
proof (cases rule: handle_replace_cases)
  case (full ty e)
  from handle_add_None [OF full(3)] show ?thesis by (rule ht_lookup_cong)
next
  case (added ty e t1 m)
  note add = handle_add_lookup [OF inv(1) added(3) ahead_fresh [OF inv(2)]]
  obtain t2 b where r2: "handle_remove t1 h = (t2, b)" by fastforce
  have b using handle_remove_lookup(3) [OF add(2) r2] add(1) added(1) by simp
  with added(4) r2 show ?thesis by simp
qed simp_all

subsection \<open>Whole runs\<close>

lemma handle_add_inv:
  assumes "ht_inv t" "ht_ahead t"
  shows "ht_inv (fst (handle_add t ty r))"
proof -
  obtain t' x where a: "handle_add t ty r = (t', x)" by fastforce
  show ?thesis
  proof (cases x)
    case None
    with a show ?thesis using assms handle_add_None [of t ty r t'] by (simp add: ht_inv_def)
  next
    case (Some h)
    with a show ?thesis using handle_add_lookup(2) [OF assms(1), of ty r t' h] ahead_fresh assms(2)
      by simp
  qed
qed

lemma handle_add_next:
  "ht_next_handle (fst (handle_add t ty r)) \<in> {ht_next_handle t, ht_next_handle t + 1}"
  by (auto simp: handle_add_def Let_def split: option.splits)

lemma handle_remove_inv: "ht_inv t \<Longrightarrow> ht_inv (fst (handle_remove t h))"
  by (metis handle_remove_lookup(2) prod.collapse)

lemma handle_remove_next: "ht_next_handle (fst (handle_remove t h)) = ht_next_handle t"
  by (auto simp: handle_remove_def split: option.splits)

definition ht_good :: "HandleTable \<Rightarrow> bool" where
  "ht_good t \<longleftrightarrow> ht_inv t \<and> ht_ahead t"

lemma handle_add_good:
  "ht_good t \<Longrightarrow> ht_next_handle t \<noteq> INVALID_HANDLE \<Longrightarrow> ht_good (fst (handle_add t ty r))"
  by (simp add: ht_good_def handle_add_inv) (metis handle_add_ahead prod.collapse)

lemma handle_remove_good: "ht_good t \<Longrightarrow> ht_good (fst (handle_remove t h))"
  by (simp add: ht_good_def handle_remove_inv handle_remove_ahead)

lemma handle_add_existing_next: "ht_next_handle (fst (handle_add_existing t h ty r)) = ht_next_handle t"
  by (auto simp: handle_add_existing_def split: option.splits)

lemma handle_add_existing_good:
  assumes "ht_good t" "h < ht_next_handle t"
  shows "ht_good (fst (handle_add_existing t h ty r))"
proof (cases "snd (handle_add_existing t h ty r)")
  case False
  then have "fst (handle_add_existing t h ty r) = t" by (auto simp: handle_add_existing_def split: option.splits)
  then show ?thesis using assms(1) by simp
next
  case True
  let ?e = "\<lparr>he_handle = h, he_obj_type = ty, he_rights = r, he_valid = True\<rparr>"
  obtain i where i: "handle_free_index (ht_entries t) = Some i" "handle_is_valid h INVALID_HANDLE" "rights_are_valid r"
    "\<not> handle_contains t h" "fst (handle_add_existing t h ty r) = t\<lparr>ht_entries := (ht_entries t)[i := ?e]\<rparr>"
    using True by (auto simp: handle_add_existing_def split: if_splits option.splits)
  have "i < length (ht_entries t)" "\<not> he_valid (ht_entries t ! i)" using handles.free_SomeD [OF i(1)] by simp_all
  moreover have "handle_index (ht_entries t) h = None" using i(4) by (simp add: contains_lookup lookup_None_iff)
  ultimately have "distinct_live he_valid he_handle ((ht_entries t)[i := ?e])"
    using handles.index_fill(2) [of "ht_entries t" i ?e] assms(1) by (simp add: ht_good_def ht_inv_def)
  moreover have "entry_ok ?e" using i(2,3) by (simp add: entry_ok_def)
  ultimately show ?thesis using assms i(5)
    by (auto simp: ht_good_def ht_inv_def ht_ahead_def intro!: list_all_update)
qed

text \<open>The two compound operations are an addition, possibly followed by removals.\<close>

inductive handle_derived :: "HandleTable \<Rightarrow> HandleTable \<Rightarrow> bool" where
  unchanged: "handle_derived t t"
| added: "handle_derived t (fst (handle_add t ty r))"
| moved: "handle_derived t (fst (handle_remove (fst (handle_add t ty r)) h))"
| undone: "handle_derived t
    (fst (handle_remove (fst (handle_remove (fst (handle_add t ty r)) h)) h'))"
| removed: "handle_derived t (fst (handle_remove t h))"
| imported: "h < ht_next_handle t \<Longrightarrow> handle_derived t (fst (handle_add_existing t h ty r))"

lemma handle_derived_add: "handle_add t ty r = (t', x) \<Longrightarrow> handle_derived t t'"
  by (metis fst_conv handle_derived.added)

lemma handle_step_derived: "imports_behind t (op # ops) \<Longrightarrow> handle_derived t (handle_step t op)"
proof (cases op)
  case (HAdd ty r)
  then show ?thesis by (simp add: handle_derived.added)
next
  case (HDuplicate h r)
  obtain t' x where "handle_duplicate t h r = (t', x)" by fastforce
  then have "handle_derived t t'"
    by (cases rule: handle_duplicate_cases)
      (auto intro: handle_derived.unchanged handle_derived_add)
  then show ?thesis using HDuplicate \<open>handle_duplicate t h r = (t', x)\<close> by simp
next
  case (HReplace h r)
  obtain t' x where rep: "handle_replace t h r = (t', x)" by fastforce
  then have "handle_derived t t'"
  proof (cases rule: handle_replace_cases)
    case (full ty e)
    then show ?thesis by (blast intro: handle_derived_add)
  next
    case (added ty e t1 n)
    obtain t2 b where r2: "handle_remove t1 h = (t2, b)" by fastforce
    show ?thesis
      using added(3,4) r2 handle_derived.moved [of t ty "effective_rights e r" h]
        handle_derived.undone [of t ty "effective_rights e r" h n]
      by (cases b) auto
  qed (simp_all add: handle_derived.unchanged)
  with rep HReplace show ?thesis by simp
next
  case (HRemove h)
  then show ?thesis by (simp add: handle_derived.removed)
next
  case (HAddExisting h ty r)
  then show "imports_behind t (op # ops) \<Longrightarrow> ?thesis" by (simp add: handle_derived.imported)
qed

lemma handle_derived_next:
  "handle_derived t t' \<Longrightarrow> ht_next_handle t' \<in> {ht_next_handle t, ht_next_handle t + 1}"
proof (induction rule: handle_derived.induct)
  case (added t ty r)
  then show ?case by (rule handle_add_next)
next
  case (moved t ty r h)
  then show ?case unfolding handle_remove_next by (rule handle_add_next)
next
  case (undone t ty r h h')
  then show ?case unfolding handle_remove_next by (rule handle_add_next)
qed (simp_all add: handle_remove_next handle_add_existing_next)

lemma handle_derived_good:
  "handle_derived t t' \<Longrightarrow> ht_good t \<Longrightarrow> ht_next_handle t \<noteq> INVALID_HANDLE \<Longrightarrow> ht_good t'"
  by (induction rule: handle_derived.induct) (simp_all add: handle_add_good handle_remove_good handle_add_existing_good)

lemmas handle_step_good = handle_derived_good [OF handle_step_derived]
lemmas handle_step_next = handle_derived_next [OF handle_step_derived]

lemma handle_run_good:
  "ht_good t \<Longrightarrow> unat (ht_next_handle t) + length ops < 2 ^ 32 \<Longrightarrow> imports_behind t ops \<Longrightarrow> ht_good (handle_run t ops)"
proof (induction ops arbitrary: t)
  case Nil
  then show ?case by simp
next
  case (Cons op ops)
  have n: "unat (ht_next_handle t) < 2 ^ 32 - 1" using Cons.prems(2) by simp
  then have ne: "ht_next_handle t \<noteq> INVALID_HANDLE" by (auto simp: INVALID_HANDLE_def)
  note step = handle_step_good [OF Cons.prems(3,1) ne]
  have "unat (ht_next_handle (handle_step t op)) \<le> Suc (unat (ht_next_handle t))"
    using handle_step_next [OF Cons.prems(3)] ne unat_succ [of "ht_next_handle t"]
    by (auto simp: INVALID_HANDLE_eq)
  with Cons.prems(2) have "unat (ht_next_handle (handle_step t op)) + length ops < 2 ^ 32" by simp
  from Cons.IH [OF step this] Cons.prems(3) show ?case by simp
qed

subsection \<open>Provenance of rights\<close>

definition ht_caps :: "HandleTable \<Rightarrow> (ObjectType \<times> u32) set" where
  "ht_caps t = (\<lambda>e. (he_obj_type e, he_rights e)) ` set (filter he_valid (ht_entries t))"

definition caps_within :: "(ObjectType \<times> u32) set \<Rightarrow> (ObjectType \<times> u32) set \<Rightarrow> bool" where
  "caps_within new old \<longleftrightarrow> (\<forall>ty r. (ty, r) \<in> new \<longrightarrow> (\<exists>r'. (ty, r') \<in> old \<and> rights_subset r r'))"

lemma caps_withinI:
  "(\<And>ty r. (ty, r) \<in> c \<Longrightarrow> \<exists>r'. (ty, r') \<in> d \<and> rights_subset r r') \<Longrightarrow> caps_within c d"
  by (auto simp: caps_within_def)

lemma caps_withinE:
  assumes "caps_within c d" and "(ty, r) \<in> c"
  obtains r' where "(ty, r') \<in> d" and "rights_subset r r'"
  using assms by (auto simp: caps_within_def)

lemma caps_within_subset: "c \<subseteq> d \<Longrightarrow> caps_within c d"
  by (rule caps_withinI) (blast intro: rights_subset_refl)

lemma caps_within_refl: "caps_within c c"
  by (rule caps_within_subset) simp

lemma caps_within_trans: "caps_within a b \<Longrightarrow> caps_within b c \<Longrightarrow> caps_within a c"
  by (rule caps_withinI) (blast elim: caps_withinE intro: rights_subset_trans)

lemma caps_within_mono:
  "c \<subseteq> insert (ty, r) d \<Longrightarrow> (ty, r') \<in> d \<Longrightarrow> rights_subset r r' \<Longrightarrow> caps_within c d"
  by (rule caps_withinI) (blast intro: rights_subset_refl)

lemma ht_caps_iff:
  "(ty, r) \<in> ht_caps t \<longleftrightarrow>
    (\<exists>e\<in>set (ht_entries t). he_valid e \<and> he_obj_type e = ty \<and> he_rights e = r)"
  by (auto simp: ht_caps_def image_iff)

lemma in_set_update: "x \<in> set (xs[i := y]) \<Longrightarrow> x = y \<or> x \<in> set xs"
  using set_update_subset_insert [of xs i y] by blast

lemma ht_caps_add: "ht_caps (fst (handle_add t ty r)) \<subseteq> insert (ty, r) (ht_caps t)"
  by (cases "handle_free_index (ht_entries t)")
    (auto simp: handle_add_def Let_def ht_caps_iff dest!: in_set_update)

lemma ht_caps_remove: "ht_caps (fst (handle_remove t h)) \<subseteq> ht_caps t"
  by (cases "handle_index (ht_entries t) h")
    (auto simp: handle_remove_def EMPTY_ENTRY_def ht_caps_iff dest!: in_set_update)

lemma ht_caps_lookup: "ht_lookup t h = Some c \<Longrightarrow> c \<in> ht_caps t"
  by (cases c) (auto simp: ht_lookup_def ht_caps_iff dest!: handles.index_SomeD split: option.splits)

lemma handle_step_caps:
  assumes "\<not> is_add op"
  shows "caps_within (ht_caps (handle_step t op)) (ht_caps t)"
proof (cases op)
  case (HAdd ty r)
  with assms show ?thesis by simp
next
  case (HAddExisting h ty r)
  with assms show ?thesis by simp
next
  case (HDuplicate h r)
  obtain t' x where dup: "handle_duplicate t h r = (t', x)" by fastforce
  then have "caps_within (ht_caps t') (ht_caps t)"
  proof (cases rule: handle_duplicate_cases)
    case (added ty e)
    then show ?thesis
      using ht_caps_add [of t ty "effective_rights e r"] ht_caps_lookup [OF added(1)]
      by (auto intro: caps_within_mono duplicate_effective_subset)
  qed (simp_all add: caps_within_refl)
  with dup HDuplicate show ?thesis by simp
next
  case (HReplace h r)
  obtain t' x where rep: "handle_replace t h r = (t', x)" by fastforce
  then have "caps_within (ht_caps t') (ht_caps t)"
  proof (cases rule: handle_replace_cases)
    case (full ty e)
    then show ?thesis
      using ht_caps_add [of t ty "effective_rights e r"] ht_caps_lookup [OF full(1)]
      by (auto intro: caps_within_mono replace_effective_subset)
  next
    case (added ty e t1 n)
    have "caps_within (ht_caps t1) (ht_caps t)"
      using added(1-3) ht_caps_add [of t ty "effective_rights e r"] ht_caps_lookup [OF added(1)]
      by (auto intro: caps_within_mono replace_effective_subset)
    moreover have "ht_caps t' \<subseteq> ht_caps t1"
      using added(4) ht_caps_remove [of t1 h] ht_caps_remove [of "fst (handle_remove t1 h)" n]
      by (auto split: prod.splits bool.splits)
    ultimately show ?thesis by (blast intro: caps_within_trans caps_within_subset)
  qed (simp_all add: caps_within_refl)
  with rep HReplace show ?thesis by simp
next
  case (HRemove h)
  then show ?thesis by (simp add: caps_within_subset ht_caps_remove)
qed

subsection \<open>Properties\<close>

text \<open>
  C20: rights never grow.  However duplications, replacements and removals are interleaved, every
  live handle of the resulting table names an object type that a live handle named before, with
  rights that are a subset of that handle's rights.
\<close>

theorem handle_rights_never_grow:
  assumes "list_all (\<lambda>op. \<not> is_add op) ops"
  shows "caps_within (ht_caps (handle_run t ops)) (ht_caps t)"
  using assms
proof (induction ops arbitrary: t)
  case Nil
  then show ?case by (simp add: caps_within_refl)
next
  case (Cons op ops)
  then show ?case using handle_step_caps [of op t] by (auto intro: caps_within_trans)
qed

theorem handle_rights_never_grow_witness:
  "caps_within
     (ht_caps (handle_run (fst (handle_add handle_table_new Channel 15))
        [HDuplicate 1 5, HReplace 2 4, HDuplicate 3 RIGHT_SAME_RIGHTS]))
     (ht_caps (fst (handle_add handle_table_new Channel 15)))"
  by (rule handle_rights_never_grow) simp

text \<open>
  A replacement is atomic.  On success the fresh handle holds the effective rights of the
  replaced one, the replaced handle is gone and every other handle is untouched; on failure no
  handle changes.
\<close>

lemma handle_replace_effect:
  assumes "ht_good t" and "handle_replace t h r = (t', res)"
  shows "case res of
     Some n \<Rightarrow> (\<exists>ty e. ht_lookup t h = Some (ty, e)
       \<and> replace_rights_allowed e r RIGHT_SAME_RIGHTS RIGHTS_ALL
       \<and> ht_lookup t n = None \<and> n \<noteq> h
       \<and> ht_lookup t' = (ht_lookup t)(n \<mapsto> (ty, effective_rights e r), h := None))
   | None \<Rightarrow> ht_lookup t' = ht_lookup t"
proof (cases res)
  case None
  with assms show ?thesis by (simp add: ht_good_def handle_replace_None_lookup)
next
  case (Some n)
  with assms show ?thesis by (auto simp: ht_good_def elim: handle_replace_Some)
qed

text \<open>
  C22: handle values are unique while the counter has not wrapped.  Starting from a new table, take
  any sequence of fewer than \<open>2 ^ 32 - 1\<close> operations in which every value that \<open>add_existing\<close> brings in
  from outside is below the counter of the table at that time.  Then all live handle values are
  distinct and valid, every live mask of rights is a valid one, and the next value is unused.
\<close>

theorem handle_values_unique:
  assumes "length ops < 2 ^ 32 - 1" and "imports_behind handle_table_new ops"
  shows "ht_inv (handle_run handle_table_new ops)
     \<and> ht_lookup (handle_run handle_table_new ops)
           (ht_next_handle (handle_run handle_table_new ops)) = None"
proof -
  have "ht_good (handle_run handle_table_new ops)"
    by (rule handle_run_good [OF _ _ assms(2)])
      (use assms(1) in \<open>simp_all add: ht_good_def handle_table_new_inv, simp add: handle_table_new_def\<close>)
  then show ?thesis by (simp add: ht_good_def ahead_fresh)
qed

theorem handle_values_unique_witness:
  "ht_inv (handle_run handle_table_new [HAdd Channel 15, HAddExisting 0 Channel 4, HReplace 1 4])"
proof -
  have "imports_behind handle_table_new [HAdd Channel 15, HAddExisting 0 Channel 4, HReplace 1 4]"
    by (simp add: handle_add_def handle_table_new_def Let_def rights_are_valid_def split: option.split)
  then show ?thesis by (intro handle_values_unique [THEN conjunct1]) simp_all
qed

text \<open>
  The condition on \<open>add_existing\<close> is needed: \<open>add\<close> does not test whether the value of the counter is
  already in use, so a value imported ahead of the counter is handed out a second time.
\<close>

lemma handle_import_collides:
  assumes imp: "handle_add_existing t (ht_next_handle t) ty r = (t1, True)"
    and add: "handle_add t1 ty' r' = (t2, Some n)"
  shows "handle_contains t1 n" and "\<not> ht_inv t2"
proof -
  from imp obtain i where i: "handle_free_index (ht_entries t) = Some i"
    and t1: "t1 = t\<lparr>ht_entries := (ht_entries t)[i := \<lparr>he_handle = ht_next_handle t,
      he_obj_type = ty, he_rights = r, he_valid = True\<rparr>]\<rparr>"
    by (auto simp: handle_add_existing_def split: if_splits option.splits)
  from i have il: "i < length (ht_entries t)" by (auto dest: handles.free_SomeD)
  from add obtain j where j: "n = ht_next_handle t1" "handle_free_index (ht_entries t1) = Some j"
    "ht_entries t2 = (ht_entries t1)[j := \<lparr>he_handle = n, he_obj_type = ty', he_rights = r',
      he_valid = True\<rparr>]"
    by (rule handle_add_Some)
  from j(2) have jl: "j < length (ht_entries t1)" "\<not> he_valid (ht_entries t1 ! j)"
    by (auto dest: handles.free_SomeD)
  have ne: "i \<noteq> j" using jl il by (auto simp: t1)
  show "handle_contains t1 n"
  proof (rule ccontr)
    assume "\<not> handle_contains t1 n"
    then have "handle_index (ht_entries t1) n = None"
      by (simp add: contains_lookup lookup_None_iff)
    from handles.index_NoneD [OF this, of i] show False using il j(1) by (simp add: t1)
  qed
  show "\<not> ht_inv t2"
  proof
    assume "ht_inv t2"
    then have "distinct_live he_valid he_handle (ht_entries t2)" by (simp add: ht_inv_def)
    from distinct_liveD [OF this, of i j] show False using il jl(1) ne j(1,3) by (simp add: t1)
  qed
qed

end
