(* ===== verification/Fifo_Law.thy ===== *)
theory Fifo_Law
  imports Smros_Prelude
begin

text \<open>
  The contract shared by the queueing objects (channels, sockets, FIFOs, ports).  A state holds a
  queue \<open>q\<close>; an operation enters some elements at the back (\<open>ins\<close>) and takes some from
  the front (\<open>outs\<close>).  The provider promises the law for one step; runs of steps then neither
  lose, duplicate nor reorder elements.
\<close>

fun run_steps :: "('s \<Rightarrow> 'o \<Rightarrow> 's) \<Rightarrow> 's \<Rightarrow> 'o list \<Rightarrow> 's" where
  "run_steps step s [] = s"
| "run_steps step s (op # ops) = run_steps step (step s op) ops"

fun run_trace :: "('s \<Rightarrow> 'o \<Rightarrow> 's) \<Rightarrow> ('s \<Rightarrow> 'o \<Rightarrow> 'a list) \<Rightarrow> 's \<Rightarrow> 'o list \<Rightarrow> 'a list" where
  "run_trace step obs s [] = []"
| "run_trace step obs s (op # ops) = obs s op @ run_trace step obs (step s op) ops"

lemma run_steps_invariant:
  assumes "\<And>s op. I s \<Longrightarrow> op \<in> set ops \<Longrightarrow> I (step s op)" and "I s"
  shows "I (run_steps step s ops)"
  using assms
proof (induction ops arbitrary: s)
  case (Cons op ops)
  have "I (step s op)" by (rule Cons.prems(1)) (simp_all add: Cons.prems(2))
  moreover have "\<And>s op. I s \<Longrightarrow> op \<in> set ops \<Longrightarrow> I (step s op)"
    by (rule Cons.prems(1)) simp_all
  ultimately show ?case using Cons.IH by simp
qed simp

text \<open>
  What an operation hands out need not be the whole element: a reader may see a part of it.  \<open>seen b a\<close>
  says that \<open>b\<close> is what the operation shows of the element \<open>a\<close>.
\<close>

locale fifo_match =
  fixes good :: "'s \<Rightarrow> bool"
    and allowed :: "'o \<Rightarrow> bool"
    and step :: "'s \<Rightarrow> 'o \<Rightarrow> 's"
    and q :: "'s \<Rightarrow> 'a list"
    and ins :: "'s \<Rightarrow> 'o \<Rightarrow> 'a list"
    and outs :: "'s \<Rightarrow> 'o \<Rightarrow> 'b list"
    and seen :: "'b \<Rightarrow> 'a \<Rightarrow> bool"
  assumes match_good: "good s \<Longrightarrow> allowed op \<Longrightarrow> good (step s op)"
    and match_law: "good s \<Longrightarrow> allowed op \<Longrightarrow>
      \<exists>xs. q s @ ins s op = xs @ q (step s op) \<and> list_all2 seen (outs s op) xs"
begin

theorem run_matches:
  "good s \<Longrightarrow> list_all allowed ops \<Longrightarrow>
     \<exists>xs. q s @ run_trace step ins s ops = xs @ q (run_steps step s ops)
       \<and> list_all2 seen (run_trace step outs s ops) xs"
proof (induction ops arbitrary: s)
  case (Cons op ops)
  then have g: "good s" "allowed op" "list_all allowed ops" by simp_all
  obtain xs where xs: "q s @ ins s op = xs @ q (step s op)" "list_all2 seen (outs s op) xs"
    using match_law [OF g(1,2)] by blast
  obtain ys where ys: "q (step s op) @ run_trace step ins (step s op) ops = ys @ q (run_steps step (step s op) ops)"
    "list_all2 seen (run_trace step outs (step s op) ops) ys"
    using Cons.IH [OF match_good [OF g(1,2)] g(3)] by blast
  have "q s @ run_trace step ins s (op # ops) = (q s @ ins s op) @ run_trace step ins (step s op) ops" by simp
  also have "\<dots> = (xs @ ys) @ q (run_steps step s (op # ops))" using xs(1) ys(1) by simp
  finally show ?case using list_all2_appendI [OF xs(2) ys(2)] by (intro exI [of _ "xs @ ys"]) simp
qed simp

end

text \<open>An operation that hands out whole elements.\<close>

locale fifo_law =
  fixes good :: "'s \<Rightarrow> bool"
    and allowed :: "'o \<Rightarrow> bool"
    and step :: "'s \<Rightarrow> 'o \<Rightarrow> 's"
    and q :: "'s \<Rightarrow> 'a list"
    and ins :: "'s \<Rightarrow> 'o \<Rightarrow> 'a list"
    and outs :: "'s \<Rightarrow> 'o \<Rightarrow> 'a list"
  assumes step_good: "good s \<Longrightarrow> allowed op \<Longrightarrow> good (step s op)"
    and step_law: "good s \<Longrightarrow> allowed op \<Longrightarrow> q s @ ins s op = outs s op @ q (step s op)"

sublocale fifo_law \<subseteq> whole: fifo_match good allowed step q ins outs "(=)"
  by unfold_locales (auto simp: step_good step_law list.rel_eq)

context fifo_law
begin

theorem run_conserves:
  "good s \<Longrightarrow> list_all allowed ops \<Longrightarrow>
     q s @ run_trace step ins s ops = run_trace step outs s ops @ q (run_steps step s ops)"
  using whole.run_matches by (auto simp: list.rel_eq)

end

end
