(* ===== verification/User_Memory.thy ===== *)
theory User_Memory
  imports Smros_Prelude
begin

unbundle bit_operations_syntax

text \<open>
  The memory that system calls reach through raw pointers: byte addressed, with the \<open>u8\<close> and
  \<open>u32\<close> slices that \<open>core::slice::from_raw_parts\<close> and \<open>from_raw_parts_mut\<close> give
  (little endian on every target of the kernel).
\<close>

type_synonym user_mem = "usize \<Rightarrow> u8"

definition load_bytes :: "user_mem \<Rightarrow> usize \<Rightarrow> nat \<Rightarrow> u8 list" where
  "load_bytes m p n = map (\<lambda>i. m (p + of_nat i)) [0..<n]"

definition store_bytes :: "user_mem \<Rightarrow> usize \<Rightarrow> u8 list \<Rightarrow> user_mem" where
  "store_bytes m p bs = (\<lambda>a. if unat (a - p) < length bs then bs ! unat (a - p) else m a)"

definition u32_to_bytes :: "u32 \<Rightarrow> u8 list" where
  "u32_to_bytes w = [ucast w, ucast (drop_bit 8 w), ucast (drop_bit 16 w), ucast (drop_bit 24 w)]"

fun u32s_of_bytes :: "u8 list \<Rightarrow> u32 list" where
  "u32s_of_bytes (a # b # c # d # bs) =
     (ucast a OR push_bit 8 (ucast b) OR push_bit 16 (ucast c) OR push_bit 24 (ucast d))
       # u32s_of_bytes bs"
| "u32s_of_bytes _ = []"

definition load_u32s :: "user_mem \<Rightarrow> usize \<Rightarrow> nat \<Rightarrow> u32 list" where
  "load_u32s m p n = u32s_of_bytes (load_bytes m p (4 * n))"

definition store_u32s :: "user_mem \<Rightarrow> usize \<Rightarrow> u32 list \<Rightarrow> user_mem" where
  "store_u32s m p ws = store_bytes m p (concat (map u32_to_bytes ws))"

text \<open>The pointer checks of \<open>syscall/syscall_logic_shared.rs\<close>.\<close>

definition user_buffer_valid :: "usize \<Rightarrow> usize \<Rightarrow> bool" where
  "user_buffer_valid ptr len \<longleftrightarrow> len = 0 \<or> ptr \<noteq> 0"

definition channel_buffers_valid :: "usize \<Rightarrow> usize \<Rightarrow> usize \<Rightarrow> usize \<Rightarrow> bool" where
  "channel_buffers_valid bytes_ptr bytes_len handles_ptr handles_len \<longleftrightarrow>
     user_buffer_valid bytes_ptr bytes_len \<and> user_buffer_valid handles_ptr handles_len"

lemma length_load_bytes [simp]: "length (load_bytes m p n) = n"
  by (simp add: load_bytes_def)

lemma store_bytes_Nil [simp]: "store_bytes m p [] = m"
  by (simp add: store_bytes_def)

lemma unat_of_nat_64: "n < 2 ^ 64 \<Longrightarrow> unat (of_nat n :: 64 word) = n"
  by (simp add: unat_of_nat take_bit_nat_eq_self)

lemma load_store_bytes:
  assumes "length bs \<le> 2 ^ 64"
  shows "load_bytes (store_bytes m p bs) p (length bs) = bs"
proof (rule nth_equalityI)
  fix i
  assume "i < length (load_bytes (store_bytes m p bs) p (length bs))"
  then have "i < length bs" by simp
  moreover from this assms have "unat (of_nat i :: 64 word) = i" by (simp add: unat_of_nat_64)
  ultimately show "load_bytes (store_bytes m p bs) p (length bs) ! i = bs ! i"
    by (simp add: load_bytes_def store_bytes_def)
qed simp

lemma u32_of_to_bytes:
  "ucast (ucast w :: u8) OR push_bit 8 (ucast (ucast (drop_bit 8 w) :: u8))
     OR push_bit 16 (ucast (ucast (drop_bit 16 w) :: u8))
     OR push_bit 24 (ucast (ucast (drop_bit 24 w) :: u8)) = (w :: u32)"
proof (rule bit_word_eqI)
  fix n
  assume "n < LENGTH(32)"
  then consider "n < 8" | "8 \<le> n" "n < 16" | "16 \<le> n" "n < 24" | "24 \<le> n" "n < 32"
    by (fastforce simp: not_less)
  then show "bit (ucast (ucast w :: u8) OR push_bit 8 (ucast (ucast (drop_bit 8 w) :: u8))
     OR push_bit 16 (ucast (ucast (drop_bit 16 w) :: u8))
     OR push_bit 24 (ucast (ucast (drop_bit 24 w) :: u8)) :: u32) n = bit w n"
    by cases (auto simp: bit_simps)
qed

lemma u32s_roundtrip: "u32s_of_bytes (concat (map u32_to_bytes ws)) = ws"
  by (induction ws) (simp_all add: u32_to_bytes_def u32_of_to_bytes)

lemma length_u32_bytes: "length (concat (map u32_to_bytes ws)) = 4 * length ws"
  by (induction ws) (simp_all add: u32_to_bytes_def)

lemma load_store_u32s:
  assumes "4 * length ws \<le> 2 ^ 64"
  shows "load_u32s (store_u32s m p ws) p (length ws) = ws"
  using load_store_bytes [of "concat (map u32_to_bytes ws)" m p] assms
  by (simp add: load_u32s_def store_u32s_def length_u32_bytes u32s_roundtrip)

lemma length_u32s_of_bytes: "length bs = 4 * n \<Longrightarrow> length (u32s_of_bytes bs) = n"
proof (induction n arbitrary: bs)
  case (Suc n)
  then obtain a b c d cs where "bs = a # b # c # d # cs" "length cs = 4 * n"
    by (auto simp: length_Suc_conv numeral_eq_Suc)
  then show ?case using Suc.IH by simp
qed simp

lemma length_load_u32s [simp]: "length (load_u32s m p n) = n"
  by (simp add: load_u32s_def length_u32s_of_bytes)

end
