(* ===== verification/Channel_Object.thy ===== *)
theory Channel_Object
  imports Object_Types Fifo_Law User_Memory
begin

text \<open>
  \<open>kernel_objects/channel.rs\<close>: the channel object, the global channel table and the
  \<open>sys_channel_*\<close> entry points.  Each queue is a \<open>VecDeque\<close>, modelled as a list; the
  messages waiting for an endpoint are in the queue of that endpoint.
\<close>

definition MAX_CHANNEL_MSG_SIZE :: nat where
  "MAX_CHANNEL_MSG_SIZE = 65536"

definition MAX_CHANNEL_MSG_HANDLES :: nat where
  "MAX_CHANNEL_MSG_HANDLES = 64"

definition CHANNEL_HANDLE_START :: u32 where
  "CHANNEL_HANDLE_START = 0x93000000"

definition MAX_CHANNEL_OBJECTS :: nat where
  "MAX_CHANNEL_OBJECTS = 256"

definition MAX_CHANNEL_QUEUE_MESSAGES :: nat where
  "MAX_CHANNEL_QUEUE_MESSAGES = 32"

definition CHANNEL_SIGNAL_READABLE :: u32 where
  "CHANNEL_SIGNAL_READABLE = 1"

definition CHANNEL_SIGNAL_WRITABLE :: u32 where
  "CHANNEL_SIGNAL_WRITABLE = 2"

definition CHANNEL_SIGNAL_PEER_CLOSED :: u32 where
  "CHANNEL_SIGNAL_PEER_CLOSED = 4"

record ChannelMessage =
  cm_data :: "u8 list"
  cm_handles :: "u32 list"
  cm_valid :: bool

definition channel_message_new :: "u8 list \<Rightarrow> u32 list \<Rightarrow> ChannelMessage" where
  "channel_message_new data handles = \<lparr>cm_data = data, cm_handles = handles, cm_valid = True\<rparr>"

datatype ChannelState = ChActive | ChPeerClosed | ChClosed

record Channel =
  ch_handle0 :: HandleValue
  ch_handle1 :: HandleValue
  ch_queue0 :: "ChannelMessage list"
  ch_queue1 :: "ChannelMessage list"
  ch_state :: ChannelState
  ch_ref_count :: u32
  ch_max_msg_size :: nat
  ch_rights0 :: u32
  ch_rights1 :: u32

definition channel_new :: "HandleValue \<Rightarrow> HandleValue \<Rightarrow> Channel" where
  "channel_new handle0 handle1 =
     \<lparr>ch_handle0 = handle0, ch_handle1 = handle1, ch_queue0 = [], ch_queue1 = [],
      ch_state = ChActive, ch_ref_count = 2, ch_max_msg_size = MAX_CHANNEL_MSG_SIZE,
      ch_rights0 = default_rights_for_object ObjectType.Channel,
      ch_rights1 = default_rights_for_object ObjectType.Channel\<rparr>"

definition endpoint_rights :: "Channel \<Rightarrow> HandleValue \<Rightarrow> u32 option" where
  "endpoint_rights c endpoint =
     (if endpoint = ch_handle0 c then Some (ch_rights0 c)
      else if endpoint = ch_handle1 c then Some (ch_rights1 c)
      else None)"

definition set_endpoint_rights :: "Channel \<Rightarrow> HandleValue \<Rightarrow> u32 \<Rightarrow> Channel \<times> bool" where
  "set_endpoint_rights c endpoint rights =
     (if endpoint = ch_handle0 c then (c\<lparr>ch_rights0 := rights\<rparr>, True)
      else if endpoint = ch_handle1 c then (c\<lparr>ch_rights1 := rights\<rparr>, True)
      else (c, False))"

definition channel_has_rights :: "Channel \<Rightarrow> HandleValue \<Rightarrow> u32 \<Rightarrow> bool" where
  "channel_has_rights c endpoint required =
     (case endpoint_rights c endpoint of Some rights \<Rightarrow> rights_contain rights required
      | None \<Rightarrow> False)"

definition channel_write ::
  "Channel \<Rightarrow> HandleValue \<Rightarrow> u8 list \<Rightarrow> u32 list \<Rightarrow> Channel \<times> unit ZxResult" where
  "channel_write c endpoint data handles =
     (if ch_state c \<noteq> ChActive then (c, Inl ErrPeerClosed)
      else if \<not> channel_has_rights c endpoint (Rights_as_u32 R_Write) then (c, Inl ErrAccessDenied)
      else if \<not> channel_message_fits (length data) (length handles) (ch_max_msg_size c)
                 MAX_CHANNEL_MSG_HANDLES then (c, Inl ErrInvalidArgs)
      else if endpoint = ch_handle0 c then
        (if length (ch_queue1 c) \<ge> MAX_CHANNEL_QUEUE_MESSAGES then (c, Inl ErrShouldWait)
         else (c\<lparr>ch_queue1 := ch_queue1 c @ [channel_message_new data handles]\<rparr>, Inr ()))
      else if endpoint = ch_handle1 c then
        (if length (ch_queue0 c) \<ge> MAX_CHANNEL_QUEUE_MESSAGES then (c, Inl ErrShouldWait)
         else (c\<lparr>ch_queue0 := ch_queue0 c @ [channel_message_new data handles]\<rparr>, Inr ()))
      else (c, Inl ErrInvalidArgs))"

definition channel_read ::
  "Channel \<Rightarrow> HandleValue \<Rightarrow> Channel \<times> (u8 list \<times> u32 list) ZxResult" where
  "channel_read c endpoint =
     (if ch_state c \<noteq> ChActive then (c, Inl ErrPeerClosed)
      else if \<not> channel_has_rights c endpoint (Rights_as_u32 R_Read) then (c, Inl ErrAccessDenied)
      else if endpoint = ch_handle0 c then
        (case ch_queue0 c of
           msg # rest \<Rightarrow> (c\<lparr>ch_queue0 := rest\<rparr>, Inr (cm_data msg, cm_handles msg))
         | [] \<Rightarrow> (c, Inl ErrShouldWait))
      else if endpoint = ch_handle1 c then
        (case ch_queue1 c of
           msg # rest \<Rightarrow> (c\<lparr>ch_queue1 := rest\<rparr>, Inr (cm_data msg, cm_handles msg))
         | [] \<Rightarrow> (c, Inl ErrShouldWait))
      else (c, Inl ErrInvalidArgs))"

definition close_endpoint :: "Channel \<Rightarrow> HandleValue \<Rightarrow> Channel \<times> unit ZxResult" where
  "close_endpoint c endpoint =
     (let settle = (\<lambda>c. (c\<lparr>ch_state := if ch_ref_count c = 0 then ChClosed else ChPeerClosed\<rparr>, Inr ()))
      in if endpoint = ch_handle0 c then
           settle (c\<lparr>ch_queue0 := [], ch_ref_count := ch_ref_count c - 1\<rparr>)
         else if endpoint = ch_handle1 c then
           settle (c\<lparr>ch_queue1 := [], ch_ref_count := ch_ref_count c - 1\<rparr>)
         else (c, Inl ErrInvalidArgs))"

definition channel_close :: "Channel \<Rightarrow> Channel \<times> unit ZxResult" where
  "channel_close c =
     (case close_endpoint c (ch_handle0 c) of
        (c, Inl e) \<Rightarrow> (c, Inl e)
      | (c, Inr _) \<Rightarrow>
          (case close_endpoint c (ch_handle1 c) of
             (c, Inl e) \<Rightarrow> (c, Inl e)
           | (c, Inr _) \<Rightarrow> (c\<lparr>ch_state := ChClosed\<rparr>, Inr ())))"

definition channel_is_valid :: "Channel \<Rightarrow> bool" where
  "channel_is_valid c \<longleftrightarrow> ch_state c = ChActive"

definition get_signal_state :: "Channel \<Rightarrow> HandleValue \<Rightarrow> u32" where
  "get_signal_state c endpoint =
     (let queue = (if endpoint = ch_handle0 c then ch_queue0 c else ch_queue1 c) in
      channel_signal_state (queue \<noteq> []) (ch_state c = ChPeerClosed)
        CHANNEL_SIGNAL_READABLE CHANNEL_SIGNAL_PEER_CLOSED)"

subsection \<open>The channel table\<close>

record ChannelTable =
  ct_channels :: "Channel list"
  ct_next_id :: u32

definition channel_table_new :: ChannelTable where
  "channel_table_new = \<lparr>ct_channels = [], ct_next_id = CHANNEL_HANDLE_START\<rparr>"

definition create_channel :: "ChannelTable \<Rightarrow> ChannelTable \<times> (HandleValue \<times> HandleValue) option" where
  "create_channel t =
     (if length (ct_channels t) \<ge> MAX_CHANNEL_OBJECTS then (t, None)
      else let h0 = ct_next_id t; h1 = ct_next_id t + 1 in
        (t\<lparr>ct_channels := ct_channels t @ [channel_new h0 h1], ct_next_id := ct_next_id t + 2\<rparr>,
         Some (h0, h1)))"

definition has_end :: "HandleValue \<Rightarrow> Channel \<Rightarrow> bool" where
  "has_end h c \<longleftrightarrow> ch_handle0 c = h \<or> ch_handle1 c = h"

text \<open>
  \<open>get_channel\<close> lends the first channel with the handle; the borrower's change goes back into
  the table at the index it was found at.
\<close>

definition get_channel :: "ChannelTable \<Rightarrow> HandleValue \<Rightarrow> nat option" where
  "get_channel t h = position (has_end h) (ct_channels t)"

definition put_channel :: "ChannelTable \<Rightarrow> nat \<Rightarrow> Channel \<Rightarrow> ChannelTable" where
  "put_channel t i c = t\<lparr>ct_channels := (ct_channels t)[i := c]\<rparr>"

definition remove_channel :: "ChannelTable \<Rightarrow> HandleValue \<Rightarrow> ChannelTable \<times> bool" where
  "remove_channel t h =
     (case get_channel t h of
        Some pos \<Rightarrow>
          (let (c, _) = close_endpoint (ct_channels t ! pos) h; t = put_channel t pos c in
           if ch_state c = ChClosed
           then (t\<lparr>ct_channels := vec_remove (ct_channels t) pos\<rparr>, True)
           else (t, True))
      | None \<Rightarrow> (t, False))"

definition table_write ::
  "ChannelTable \<Rightarrow> HandleValue \<Rightarrow> u8 list \<Rightarrow> u32 list \<Rightarrow> ChannelTable \<times> unit ZxResult" where
  "table_write t h data handles =
     (case get_channel t h of
        Some i \<Rightarrow> (let (c, r) = channel_write (ct_channels t ! i) h data handles in
                   (put_channel t i c, r))
      | None \<Rightarrow> (t, Inl ErrNotFound))"

definition write_message ::
  "ChannelTable \<Rightarrow> HandleValue \<Rightarrow> u8 list \<Rightarrow> ChannelTable \<times> unit ZxResult" where
  "write_message t h data = table_write t h data []"

definition read_message :: "ChannelTable \<Rightarrow> HandleValue \<Rightarrow> ChannelTable \<times> (u8 list) ZxResult" where
  "read_message t h =
     (case get_channel t h of
        Some i \<Rightarrow>
          (case channel_read (ct_channels t ! i) h of
             (c, Inr (data, handles)) \<Rightarrow> (put_channel t i c, Inr data)
           | (c, Inl e) \<Rightarrow> (put_channel t i c, Inl e))
      | None \<Rightarrow> (t, Inl ErrNotFound))"

definition table_rights :: "ChannelTable \<Rightarrow> HandleValue \<Rightarrow> u32 option" where
  "table_rights t h =
     (case get_channel t h of Some i \<Rightarrow> endpoint_rights (ct_channels t ! i) h | None \<Rightarrow> None)"

definition duplicate_endpoint_rights ::
  "ChannelTable \<Rightarrow> HandleValue \<Rightarrow> u32 \<Rightarrow> bool \<Rightarrow> ChannelTable \<times> unit ZxResult" where
  "duplicate_endpoint_rights t h requested replace =
     (case get_channel t h of
        None \<Rightarrow> (t, Inl ErrNotFound)
      | Some i \<Rightarrow>
          (case endpoint_rights (ct_channels t ! i) h of
             None \<Rightarrow> (t, Inl ErrNotFound)
           | Some existing \<Rightarrow>
               if \<not> (if replace
                     then replace_rights_allowed existing requested RIGHT_SAME_RIGHTS RIGHTS_ALL
                     else duplicate_rights_allowed existing requested (Rights_as_u32 R_Duplicate)
                            RIGHT_SAME_RIGHTS RIGHTS_ALL)
               then (t, Inl ErrAccessDenied)
               else if replace then
                 (case set_endpoint_rights (ct_channels t ! i) h
                        (effective_rights existing requested) of
                    (c, True) \<Rightarrow> (put_channel t i c, Inr ())
                  | (c, False) \<Rightarrow> (put_channel t i c, Inl ErrNotFound))
               else (t, Inr ())))"

subsection \<open>System calls\<close>

definition sys_channel_create ::
  "ChannelTable \<Rightarrow> u32 \<Rightarrow> ChannelTable \<times> (u32 \<times> u32) ZxResult" where
  "sys_channel_create t options =
     (if options \<noteq> 0 then (t, Inl ErrInvalidArgs)
      else case create_channel t of
        (t, Some hs) \<Rightarrow> (t, Inr hs)
      | (t, None) \<Rightarrow> (t, Inl ErrNoMemory))"

text \<open>
  \<open>sys_channel_read\<close> peeks at the front message to report its size (the two \<open>out\<close>
  parameters, threaded as a pair) before it takes the message and copies it out.  The body works
  on a mutable reference to one of the two queues: \<open>read_queue\<close> is that part.
\<close>

definition read_queue ::
  "ChannelMessage list \<Rightarrow> user_mem \<Rightarrow> usize \<Rightarrow> usize \<Rightarrow> usize \<Rightarrow> usize \<Rightarrow> usize \<times> usize
     \<Rightarrow> ChannelMessage list \<times> user_mem \<times> (usize \<times> usize) \<times> unit ZxResult" where
  "read_queue queue m bytes_ptr bytes_len handles_ptr handles_count actual =
     (case queue of
        [] \<Rightarrow> (queue, m, actual, Inl ErrShouldWait)
      | msg # rest \<Rightarrow>
          let actual = (of_nat (length (cm_data msg)), of_nat (length (cm_handles msg))) in
          if length (cm_data msg) > unat bytes_len \<or> length (cm_handles msg) > unat handles_count
          then (queue, m, actual, Inl ErrOutOfRange)
          else (rest,
                store_u32s (store_bytes m bytes_ptr (cm_data msg)) handles_ptr (cm_handles msg),
                actual, Inr ()))"

definition sys_channel_read ::
  "ChannelTable \<Rightarrow> user_mem \<Rightarrow> u32 \<Rightarrow> u32 \<Rightarrow> usize \<Rightarrow> usize \<Rightarrow> usize \<Rightarrow> usize \<Rightarrow> usize \<times> usize
     \<Rightarrow> ChannelTable \<times> user_mem \<times> (usize \<times> usize) \<times> unit ZxResult" where
  "sys_channel_read t m h options bytes_ptr bytes_len handles_ptr handles_count actual =
     (if options \<noteq> 0 then (t, m, actual, Inl ErrInvalidArgs)
      else if \<not> channel_buffers_valid bytes_ptr bytes_len handles_ptr handles_count
      then (t, m, actual, Inl ErrInvalidArgs)
      else case get_channel t h of
        None \<Rightarrow> (t, m, actual, Inl ErrNotFound)
      | Some i \<Rightarrow>
          (let c = ct_channels t ! i in
           if h = ch_handle0 c then
             (let (q, m, actual, r) = read_queue (ch_queue0 c) m bytes_ptr bytes_len handles_ptr
                                        handles_count actual
              in (put_channel t i (c\<lparr>ch_queue0 := q\<rparr>), m, actual, r))
           else if h = ch_handle1 c then
             (let (q, m, actual, r) = read_queue (ch_queue1 c) m bytes_ptr bytes_len handles_ptr
                                        handles_count actual
              in (put_channel t i (c\<lparr>ch_queue1 := q\<rparr>), m, actual, r))
           else (t, m, actual, Inl ErrInvalidArgs)))"

definition sys_channel_write ::
  "ChannelTable \<Rightarrow> user_mem \<Rightarrow> u32 \<Rightarrow> u32 \<Rightarrow> usize \<Rightarrow> usize \<Rightarrow> usize \<Rightarrow> usize
     \<Rightarrow> ChannelTable \<times> unit ZxResult" where
  "sys_channel_write t m h options bytes_ptr bytes_count handles_ptr handles_count =
     (if options \<noteq> 0 then (t, Inl ErrInvalidArgs)
      else if \<not> channel_buffers_valid bytes_ptr bytes_count handles_ptr handles_count
      then (t, Inl ErrInvalidArgs)
      else table_write t h (load_bytes m bytes_ptr (unat bytes_count))
             (load_u32s m handles_ptr (unat handles_count)))"

definition sys_channel_call_noretry ::
  "ChannelTable \<Rightarrow> user_mem \<Rightarrow> u32 \<Rightarrow> u32 \<Rightarrow> usize \<Rightarrow> usize \<Rightarrow> usize \<Rightarrow> usize \<Rightarrow> usize \<Rightarrow> usize
     \<Rightarrow> usize \<times> usize \<Rightarrow> ChannelTable \<times> user_mem \<times> (usize \<times> usize) \<times> unit ZxResult" where
  "sys_channel_call_noretry t m h options wr_bytes_ptr wr_num_bytes wr_num_handles
       rd_bytes_ptr rd_num_bytes rd_num_handles actual =
     (if wr_num_handles \<noteq> 0 \<or> rd_num_handles \<noteq> 0 then (t, m, actual, Inl ErrInvalidArgs)
      else case sys_channel_write t m h options wr_bytes_ptr wr_num_bytes 0 0 of
        (t, Inl e) \<Rightarrow> (t, m, actual, Inl e)
      | (t, Inr _) \<Rightarrow> sys_channel_read t m h options rd_bytes_ptr rd_num_bytes 0 0 actual)"

subsection \<open>What a read leaves in the memory of the caller\<close>

definition outside :: "usize \<Rightarrow> nat \<Rightarrow> usize \<Rightarrow> nat \<Rightarrow> bool" where
  "outside p n q k \<longleftrightarrow> list_all (\<lambda>i. k \<le> unat (p + of_nat i - q)) [0..<n]"

lemma load_bytes_store_outside:
  "outside p n q (length bs) \<Longrightarrow> load_bytes (store_bytes m q bs) p n = load_bytes m p n"
  by (auto simp: load_bytes_def store_bytes_def outside_def list_all_iff)

lemma load_store_messages:
  assumes "length bs \<le> n" "n \<le> 2 ^ 64" "length ws \<le> k" "4 * k \<le> 2 ^ 64" "outside bp n hp (4 * k)"
  shows "load_bytes (store_u32s (store_bytes m bp bs) hp ws) bp (length bs) = bs"
    and "load_u32s (store_u32s (store_bytes m bp bs) hp ws) hp (length ws) = ws"
proof -
  have "outside bp (length bs) hp (length (concat (map u32_to_bytes ws)))"
    unfolding outside_def list_all_iff length_u32_bytes
  proof
    fix i
    assume "i \<in> set [0..<length bs]"
    with assms(1,5) have "4 * k \<le> unat (bp + of_nat i - hp)" by (simp add: outside_def list_all_iff)
    with assms(3) show "4 * length ws \<le> unat (bp + of_nat i - hp)" by simp
  qed
  then show "load_bytes (store_u32s (store_bytes m bp bs) hp ws) bp (length bs) = bs"
    using assms by (simp add: store_u32s_def load_bytes_store_outside load_store_bytes)
  show "load_u32s (store_u32s (store_bytes m bp bs) hp ws) hp (length ws) = ws"
    using assms by (intro load_store_u32s) simp
qed

text \<open>
  The two buffers of a read are apart when the bytes and the handles that fit into them are stored at
  different addresses.
\<close>

definition buffers_apart :: "usize \<Rightarrow> usize \<Rightarrow> usize \<Rightarrow> usize \<Rightarrow> bool" where
  "buffers_apart bp bl hp hc \<longleftrightarrow> outside bp (unat bl) hp (4 * unat hc) \<and> unat hc \<le> 2 ^ 62"

text \<open>What a reader sees of a message: its bytes and, unless the interface drops them, its handles.\<close>

definition shows_message :: "u8 list \<times> u32 list option \<Rightarrow> ChannelMessage \<Rightarrow> bool" where
  "shows_message seen msg \<longleftrightarrow> fst seen = cm_data msg \<and> (snd seen = None \<or> snd seen = Some (cm_handles msg))"

text \<open>
  What a system call hands to its caller: the bytes and handles it has left in the buffers, in the
  numbers it reports.
\<close>

definition left_in_buffers ::
  "usize \<Rightarrow> usize \<Rightarrow> ChannelTable \<times> user_mem \<times> (usize \<times> usize) \<times> unit ZxResult \<Rightarrow> (u8 list \<times> u32 list option) list" where
  "left_in_buffers bp hp = (\<lambda>(t, m, (bytes, handles), r).
     if is_ok r then [(load_bytes m bp (unat bytes), Some (load_u32s m hp (unat handles)))] else [])"

subsection \<open>The inbox of an endpoint\<close>

definition queue_of :: "Channel \<Rightarrow> HandleValue \<Rightarrow> ChannelMessage list" where
  "queue_of c h = (if h = ch_handle0 c then ch_queue0 c else ch_queue1 c)"

definition set_queue :: "Channel \<Rightarrow> HandleValue \<Rightarrow> ChannelMessage list \<Rightarrow> Channel" where
  "set_queue c h q = (if h = ch_handle0 c then c\<lparr>ch_queue0 := q\<rparr> else c\<lparr>ch_queue1 := q\<rparr>)"

definition pop_queue :: "Channel \<Rightarrow> HandleValue \<Rightarrow> Channel" where
  "pop_queue c h = set_queue c h (tl (queue_of c h))"

lemma set_queue_same [simp]: "set_queue c h (queue_of c h) = c"
  by (simp add: set_queue_def queue_of_def)

definition same_ends :: "Channel \<Rightarrow> Channel \<Rightarrow> bool" where
  "same_ends c d \<longleftrightarrow> ch_handle0 c = ch_handle0 d \<and> ch_handle1 c = ch_handle1 d"

definition inbox :: "ChannelTable \<Rightarrow> HandleValue \<Rightarrow> ChannelMessage list" where
  "inbox t h = (case get_channel t h of Some i \<Rightarrow> queue_of (ct_channels t ! i) h | None \<Rightarrow> [])"

text \<open>\<open>x\<close> and \<open>y\<close> are the two ends of one channel of the table.\<close>

definition linked :: "HandleValue \<Rightarrow> HandleValue \<Rightarrow> ChannelTable \<Rightarrow> bool" where
  "linked x y t \<longleftrightarrow> x \<noteq> y \<and> (case get_channel t x of
      Some i \<Rightarrow> get_channel t y = Some i
        \<and> {ch_handle0 (ct_channels t ! i), ch_handle1 (ct_channels t ! i)} = {x, y}
    | None \<Rightarrow> False)"

lemma get_channel_SomeD:
  "get_channel t h = Some i \<Longrightarrow> i < length (ct_channels t) \<and> has_end h (ct_channels t ! i)"
  by (auto simp: get_channel_def dest: position_SomeD)

lemma same_ends_simps [simp]:
  "same_ends c c"
  "same_ends (fst (channel_write c e d hs)) c"
  "same_ends (fst (channel_read c e)) c"
  "same_ends (fst (close_endpoint c e)) c"
  "same_ends (fst (set_endpoint_rights c e r)) c"
  "same_ends (pop_queue c e) c"
  by (auto simp: same_ends_def channel_write_def channel_read_def close_endpoint_def Let_def
      set_endpoint_rights_def pop_queue_def set_queue_def split: list.splits)

lemma get_channel_put [simp]:
  assumes "i < length (ct_channels t)" and "same_ends c (ct_channels t ! i)"
  shows "get_channel (put_channel t i c) h = get_channel t h"
  using assms position_update [of "ct_channels t" i "has_end h" c]
  by (simp add: get_channel_def put_channel_def has_end_def same_ends_def)

lemma inbox_put:
  assumes "i < length (ct_channels t)" and "same_ends c (ct_channels t ! i)"
  shows "inbox (put_channel t i c) h =
    (if get_channel t h = Some i then queue_of c h else inbox t h)"
  using assms
  by (auto simp: inbox_def nth_list_update put_channel_def [of t i c, symmetric]
      split: option.splits) (auto simp: put_channel_def nth_list_update)

lemma linked_put:
  assumes "i < length (ct_channels t)" and "same_ends c (ct_channels t ! i)"
  shows "linked x y (put_channel t i c) = linked x y t"
proof -
  have "ct_channels (put_channel t i c) ! j = (if j = i then c else ct_channels t ! j)" for j
    using assms(1) by (simp add: put_channel_def nth_list_update)
  with assms show ?thesis
    by (auto simp: linked_def same_ends_def split: option.splits)
qed

lemma linked_other:
  assumes "linked x y t" and "get_channel t x = Some i" and "get_channel t h = Some j"
    and "h \<noteq> x" and "h \<noteq> y"
  shows "j \<noteq> i"
  using assms get_channel_SomeD [of t h j] by (auto simp: linked_def has_end_def)

lemma linked_sym: "linked x y t \<Longrightarrow> linked y x t"
  by (auto simp: linked_def split: option.splits)

lemma channel_write_cases:
  assumes "channel_write c e d hs = (c', r)"
  obtains (rejected) err where "r = Inl err" "c' = c"
  | (end0) "r = Inr ()" "e = ch_handle0 c"
      "c' = c\<lparr>ch_queue1 := ch_queue1 c @ [channel_message_new d hs]\<rparr>"
      "length (ch_queue1 c) < MAX_CHANNEL_QUEUE_MESSAGES" "length d \<le> ch_max_msg_size c"
      "length hs \<le> MAX_CHANNEL_MSG_HANDLES" "ch_state c = ChActive"
  | (end1) "r = Inr ()" "e \<noteq> ch_handle0 c" "e = ch_handle1 c"
      "c' = c\<lparr>ch_queue0 := ch_queue0 c @ [channel_message_new d hs]\<rparr>"
      "length (ch_queue0 c) < MAX_CHANNEL_QUEUE_MESSAGES" "length d \<le> ch_max_msg_size c"
      "length hs \<le> MAX_CHANNEL_MSG_HANDLES" "ch_state c = ChActive"
proof (cases r)
  case (Inl err)
  with assms show thesis by (intro rejected) (simp_all add: channel_write_def split: if_split_asm)
next
  case (Inr u)
  show thesis
  proof (cases "e = ch_handle0 c")
    case True
    with assms Inr show thesis
      by (intro end0) (simp_all add: channel_write_def channel_message_fits_def split: if_split_asm)
  next
    case False
    with assms Inr show thesis
      by (intro end1) (simp_all add: channel_write_def channel_message_fits_def split: if_split_asm)
  qed
qed

lemma channel_read_cases:
  assumes "channel_read c e = (c', r)"
  obtains (rejected) err where "r = Inl err" "c' = c"
  | (taken) d hs where "r = Inr (d, hs)" "queue_of c e \<noteq> []" "c' = pop_queue c e"
      "has_end e c" "d = cm_data (hd (queue_of c e))" "hs = cm_handles (hd (queue_of c e))"
proof (cases r)
  case (Inl err)
  with assms show thesis
    by (intro rejected) (simp_all add: channel_read_def split: if_split_asm list.split_asm)
next
  case (Inr v)
  obtain d hs where v: "v = (d, hs)" by fastforce
  show thesis
  proof (rule taken)
    show "r = Inr (d, hs)" using Inr v by simp
  qed (use assms Inr v in \<open>simp_all add: channel_read_def queue_of_def pop_queue_def set_queue_def
      has_end_def split: if_split_asm list.split_asm\<close>)
qed

lemma read_queue_cases:
  assumes "read_queue q m bp bl hp hc a = (q', m', a', r)"
  obtains (rejected) err where "r = Inl err" "err \<noteq> ErrOutOfRange" "q' = q" "m' = m"
  | (small) msg rest where "r = Inl ErrOutOfRange" "q = msg # rest" "q' = q" "m' = m"
      "a' = (of_nat (length (cm_data msg)), of_nat (length (cm_handles msg)))"
  | (taken) msg rest where "r = Inr ()" "q = msg # rest" "q' = rest"
      "m' = store_u32s (store_bytes m bp (cm_data msg)) hp (cm_handles msg)"
      "a' = (of_nat (length (cm_data msg)), of_nat (length (cm_handles msg)))"
      "length (cm_data msg) \<le> unat bl" "length (cm_handles msg) \<le> unat hc"
  using assms
  by (auto simp: read_queue_def Let_def split: if_splits list.splits)

lemma put_channel_same [simp]: "put_channel t i (ct_channels t ! i) = t"
  by (simp add: put_channel_def)

lemma sys_channel_read_cases:
  assumes sys: "sys_channel_read t m h opts bp bl hp hc a = (t', m', a', r)"
  obtains (rejected) err where "r = Inl err" "err \<noteq> ErrOutOfRange" "t' = t" "m' = m"
  | (small) i msg rest where "r = Inl ErrOutOfRange" "get_channel t h = Some i"
      "queue_of (ct_channels t ! i) h = msg # rest" "t' = t" "m' = m"
      "a' = (of_nat (length (cm_data msg)), of_nat (length (cm_handles msg)))"
  | (taken) i msg rest where "r = Inr ()" "get_channel t h = Some i"
      "queue_of (ct_channels t ! i) h = msg # rest"
      "t' = put_channel t i (pop_queue (ct_channels t ! i) h)"
      "m' = store_u32s (store_bytes m bp (cm_data msg)) hp (cm_handles msg)"
      "a' = (of_nat (length (cm_data msg)), of_nat (length (cm_handles msg)))"
      "length (cm_data msg) \<le> unat bl" "length (cm_handles msg) \<le> unat hc"
proof (cases "opts = 0 \<and> channel_buffers_valid bp bl hp hc \<and> get_channel t h \<noteq> None")
  case False
  with sys show thesis
    by (cases "get_channel t h") (auto simp: sys_channel_read_def intro: rejected split: if_splits)
next
  case True
  then obtain i where i: "get_channel t h = Some i" by auto
  let ?c = "ct_channels t ! i"
  obtain q' where q': "read_queue (queue_of ?c h) m bp bl hp hc a = (q', m', a', r)"
    and t': "t' = put_channel t i (set_queue ?c h q')"
    using sys True i get_channel_SomeD [OF i]
    by (auto simp: sys_channel_read_def Let_def queue_of_def has_end_def set_queue_def
        split: prod.splits if_splits)
  from q' show thesis
  proof (cases rule: read_queue_cases)
    case (rejected err)
    with t' show thesis by (intro that(1) [of err]) simp_all
  next
    case (small msg rest)
    from t' small(3) have "t' = t" by simp
    with i small show thesis by (intro that(2) [of i msg rest]) simp_all
  next
    case (taken msg rest)
    with t' i show thesis by (intro that(3) [of i msg rest]) (simp_all add: pop_queue_def)
  qed
qed

lemma queue_of_pop:
  assumes "has_end e c" and "ch_handle0 c \<noteq> ch_handle1 c"
  shows "queue_of (pop_queue c e) e = tl (queue_of c e)"
    and "h \<noteq> e \<Longrightarrow> has_end h c \<Longrightarrow> queue_of (pop_queue c e) h = queue_of c h"
  using assms by (auto simp: queue_of_def pop_queue_def set_queue_def has_end_def)

text \<open>Taking the front message of the queue at which \<open>h\<close> was found.\<close>

lemma pop_inbox:
  assumes l: "linked x y t" and g: "get_channel t h = Some i"
    and n: "queue_of (ct_channels t ! i) h \<noteq> []"
    and t': "t' = put_channel t i (pop_queue (ct_channels t ! i) h)"
  shows "linked x y t'" and "inbox t x = (if h = x then [hd (inbox t x)] else []) @ inbox t' x"
proof -
  from g have i: "i < length (ct_channels t)" "has_end h (ct_channels t ! i)"
    by (auto dest: get_channel_SomeD)
  show "linked x y t'" using l i(1) t' by (simp add: linked_put)
  obtain j where j: "get_channel t x = Some j" "get_channel t y = Some j" "x \<noteq> y"
    "{ch_handle0 (ct_channels t ! j), ch_handle1 (ct_channels t ! j)} = {x, y}"
    using l by (auto simp: linked_def split: option.splits)
  show "inbox t x = (if h = x then [hd (inbox t x)] else []) @ inbox t' x"
  proof (cases "i = j")
    case True
    have ne: "ch_handle0 (ct_channels t ! j) \<noteq> ch_handle1 (ct_channels t ! j)" using j(3,4) by auto
    have "has_end x (ct_channels t ! j)" using j(4) by (auto simp: has_end_def doubleton_eq_iff)
    with True j i n t' queue_of_pop [OF i(2)] ne show ?thesis
      by (auto simp: inbox_put) (simp_all add: inbox_def j)
  next
    case False
    with g j(1) have "h \<noteq> x" by auto
    with False i(1) j(1) t' show ?thesis by (simp add: inbox_put)
  qed
qed

lemma table_write_inbox:
  assumes l: "linked x y t" and w: "table_write t h d hs = (t', r)"
  shows "linked x y t'"
    and "inbox t' x = inbox t x @ (if h = y \<and> r = Inr () then [channel_message_new d hs] else [])"
proof -
  obtain j where j: "get_channel t x = Some j" "get_channel t y = Some j" "x \<noteq> y"
    "{ch_handle0 (ct_channels t ! j), ch_handle1 (ct_channels t ! j)} = {x, y}"
    using l by (auto simp: linked_def split: option.splits)
  have "linked x y t' \<and>
    inbox t' x = inbox t x @ (if h = y \<and> r = Inr () then [channel_message_new d hs] else [])"
  proof (cases "get_channel t h")
    case None
    with w j l show ?thesis by (auto simp: table_write_def)
  next
    case (Some i)
    obtain c' where c': "channel_write (ct_channels t ! i) h d hs = (c', r)"
      and t': "t' = put_channel t i c'"
      using w Some by (auto simp: table_write_def split: prod.splits)
    have i: "i < length (ct_channels t)" "has_end h (ct_channels t ! i)"
      using Some by (auto dest: get_channel_SomeD)
    have s: "same_ends c' (ct_channels t ! i)"
      using same_ends_simps(2) [of "ct_channels t ! i" h d hs] c' by simp
    have lk: "linked x y t'" using l i(1) s t' by (simp add: linked_put)
    show ?thesis
    proof (cases "i = j")
      case True
      from c' show ?thesis
        by (cases rule: channel_write_cases)
          (use True j i t' s lk in \<open>auto simp: inbox_put queue_of_def doubleton_eq_iff\<close>,
           (auto simp: inbox_def queue_of_def doubleton_eq_iff)?)
    next
      case False
      with Some j(2) have "h \<noteq> y" by auto
      with False i(1) j(1) s t' lk show ?thesis by (simp add: inbox_put)
    qed
  qed
  then show "linked x y t'"
    "inbox t' x = inbox t x @ (if h = y \<and> r = Inr () then [channel_message_new d hs] else [])"
    by simp_all
qed

lemma read_message_inbox:
  assumes l: "linked x y t" and w: "read_message t h = (t', r)"
  shows "linked x y t'"
    and "\<exists>ms. inbox t x = ms @ inbox t' x \<and>
      list_all2 shows_message (if h = x then (case r of Inr d \<Rightarrow> [(d, None)] | Inl _ \<Rightarrow> []) else []) ms"
proof -
  have "linked x y t' \<and> (\<exists>ms. inbox t x = ms @ inbox t' x \<and>
      list_all2 shows_message (if h = x then (case r of Inr d \<Rightarrow> [(d, None)] | Inl _ \<Rightarrow> []) else []) ms)"
  proof (cases "get_channel t h")
    case None
    with w l show ?thesis by (auto simp: read_message_def)
  next
    case (Some i)
    obtain c' r' where c': "channel_read (ct_channels t ! i) h = (c', r')" by fastforce
    then show ?thesis
    proof (cases rule: channel_read_cases)
      case (rejected err)
      with w l Some c' show ?thesis by (auto simp: read_message_def)
    next
      case (taken d hs)
      with w Some c' have t': "t' = put_channel t i (pop_queue (ct_channels t ! i) h)" "r = Inr d"
        by (auto simp: read_message_def)
      note p = pop_inbox [OF l Some taken(2) t'(1)]
      have "h = x \<Longrightarrow> d = cm_data (hd (inbox t x))" using taken(5) Some by (simp add: inbox_def)
      then show ?thesis using p t'(2)
        by (intro conjI exI [of _ "if h = x then [hd (inbox t x)] else []"]) (auto simp: shows_message_def)
    qed
  qed
  then show "linked x y t'"
    "\<exists>ms. inbox t x = ms @ inbox t' x \<and>
      list_all2 shows_message (if h = x then (case r of Inr d \<Rightarrow> [(d, None)] | Inl _ \<Rightarrow> []) else []) ms"
    by simp_all
qed

lemma sys_channel_read_inbox:
  assumes l: "linked x y t" and w: "sys_channel_read t m h opts bp bl hp hc a = (t', m', a', r)"
    and b: "h = x \<longrightarrow> buffers_apart bp bl hp hc"
  shows "linked x y t'"
    and "\<exists>ms. inbox t x = ms @ inbox t' x \<and>
      list_all2 shows_message (if h = x then left_in_buffers bp hp (t', m', a', r) else []) ms"
proof -
  from w have "linked x y t' \<and> (\<exists>ms. inbox t x = ms @ inbox t' x \<and>
      list_all2 shows_message (if h = x then left_in_buffers bp hp (t', m', a', r) else []) ms)"
  proof (cases rule: sys_channel_read_cases)
    case (rejected err)
    with l show ?thesis by (simp add: left_in_buffers_def is_ok_def case_prod_beta)
  next
    case (small i msg rest)
    with l show ?thesis by (simp add: left_in_buffers_def is_ok_def)
  next
    case (taken i msg rest)
    then have ne: "queue_of (ct_channels t ! i) h \<noteq> []" by simp
    note p = pop_inbox [OF l taken(2) ne taken(4)]
    have "unat bl < 2 ^ 64" "unat hc < 2 ^ 64" by simp_all
    then have len: "length (cm_data msg) < 2 ^ 64" "length (cm_handles msg) < 2 ^ 64" "unat bl \<le> 2 ^ 64"
      using taken(7,8) by linarith+
    have "list_all2 shows_message (left_in_buffers bp hp (t', m', a', r)) [hd (inbox t x)]" if "h = x"
    proof -
      have "outside bp (unat bl) hp (4 * unat hc)" "4 * unat hc \<le> 2 ^ 64" using b that by (simp_all add: buffers_apart_def)
      note ls = load_store_messages [OF taken(7) len(3) taken(8) this(2,1), of m]
      have "hd (inbox t x) = msg" using taken(2,3) that by (simp add: inbox_def)
      then show ?thesis using ls len(1,2) taken(1,5,6)
        by (simp add: left_in_buffers_def is_ok_def shows_message_def unat_of_nat_64)
    qed
    then show ?thesis using p by (intro conjI exI [of _ "if h = x then [hd (inbox t x)] else []"]) auto
  qed
  then show "linked x y t'"
    "\<exists>ms. inbox t x = ms @ inbox t' x \<and>
      list_all2 shows_message (if h = x then left_in_buffers bp hp (t', m', a', r) else []) ms"
    by simp_all
qed

lemma sys_channel_write_inbox:
  assumes l: "linked x y t" and w: "sys_channel_write t m h opts bp bc hp hc = (t', r)"
  shows "linked x y t'"
    and "inbox t' x = inbox t x @ (if h = y \<and> r = Inr ()
      then [channel_message_new (load_bytes m bp (unat bc)) (load_u32s m hp (unat hc))] else [])"
proof -
  have "linked x y t' \<and> inbox t' x = inbox t x @ (if h = y \<and> r = Inr ()
      then [channel_message_new (load_bytes m bp (unat bc)) (load_u32s m hp (unat hc))] else [])"
  proof (cases "opts = 0 \<and> channel_buffers_valid bp bc hp hc")
    case False
    with w l show ?thesis by (auto simp: sys_channel_write_def split: if_splits)
  next
    case True
    with w have "table_write t h (load_bytes m bp (unat bc)) (load_u32s m hp (unat hc)) = (t', r)"
      by (simp add: sys_channel_write_def)
    from table_write_inbox [OF l this] show ?thesis by simp
  qed
  then show "linked x y t'"
    "inbox t' x = inbox t x @ (if h = y \<and> r = Inr ()
      then [channel_message_new (load_bytes m bp (unat bc)) (load_u32s m hp (unat hc))] else [])"
    by simp_all
qed

lemma create_channel_inbox:
  assumes "linked x y t" and "create_channel t = (t', r)"
  shows "linked x y t'" and "inbox t' x = inbox t x"
proof -
  obtain i where i: "get_channel t x = Some i" "get_channel t y = Some i"
    using assms(1) by (auto simp: linked_def split: option.splits)
  have len: "i < length (ct_channels t)" using i(1) by (auto dest: get_channel_SomeD)
  have "t' = t \<or> (\<exists>c. ct_channels t' = ct_channels t @ [c])"
    using assms(2) by (auto simp: create_channel_def Let_def split: if_splits)
  then have "ct_channels t' ! i = ct_channels t ! i" and "get_channel t' x = Some i"
    and "get_channel t' y = Some i"
    using i len by (auto simp: get_channel_def nth_append position_append_Some)
  then show "linked x y t'" "inbox t' x = inbox t x"
    using assms(1) i by (simp_all add: linked_def inbox_def)
qed

lemma remove_channel_inbox:
  assumes l: "linked x y t" and h: "h \<noteq> x" "h \<noteq> y" and w: "remove_channel t h = (t', r)"
  shows "linked x y t'" and "inbox t' x = inbox t x"
proof -
  have "linked x y t' \<and> inbox t' x = inbox t x"
  proof (cases "get_channel t h")
    case None
    with w l show ?thesis by (simp add: remove_channel_def)
  next
    case (Some j)
    obtain i where i: "get_channel t x = Some i" "get_channel t y = Some i"
      using l by (auto simp: linked_def split: option.splits)
    have ne: "j \<noteq> i" by (rule linked_other [OF l i(1) Some h])
    have j: "j < length (ct_channels t)" "has_end h (ct_channels t ! j)"
      using Some by (auto dest: get_channel_SomeD)
    have il: "i < length (ct_channels t)" using i(1) by (auto dest: get_channel_SomeD)
    let ?c = "fst (close_endpoint (ct_channels t ! j) h)"
    let ?t = "put_channel t j ?c"
    have put: "linked x y ?t" "inbox ?t x = inbox t x" "get_channel ?t x = Some i"
      "get_channel ?t y = Some i"
      using j(1) l ne i by (simp_all add: linked_put inbox_put)
    show ?thesis
    proof (cases "ch_state ?c = ChClosed")
      case False
      with w Some put show ?thesis
        by (simp add: remove_channel_def Let_def split: prod.splits)
    next
      case True
      let ?k = "if j < i then i - 1 else i"
      have t': "t' = ?t\<lparr>ct_channels := vec_remove (ct_channels ?t) j\<rparr>"
        using w Some True by (simp add: remove_channel_def Let_def split: prod.splits)
      have jl: "j < length (ct_channels ?t)" using j(1) by (simp add: put_channel_def)
      have "get_channel t' x = Some ?k" "get_channel t' y = Some ?k"
        using put(3,4) jl ne position_vec_remove [of _ "ct_channels ?t" i j]
        by (simp_all add: get_channel_def t')
      moreover have "ct_channels t' ! ?k = ct_channels ?t ! i"
        using nth_vec_remove [OF jl, of ?k] ne il jl
        by (auto simp: t' put_channel_def)
      ultimately show ?thesis using put by (simp add: linked_def inbox_def)
    qed
  qed
  then show "linked x y t'" "inbox t' x = inbox t x" by simp_all
qed

lemma duplicate_endpoint_rights_put:
  assumes "duplicate_endpoint_rights t h q rep = (t', r)"
  obtains "t' = t"
  | i rights where "get_channel t h = Some i"
      "t' = put_channel t i (fst (set_endpoint_rights (ct_channels t ! i) h rights))"
      "\<exists>e. endpoint_rights (ct_channels t ! i) h = Some e
         \<and> replace_rights_allowed e q RIGHT_SAME_RIGHTS RIGHTS_ALL \<and> rights = effective_rights e q"
proof (cases "get_channel t h")
  case None
  with assms show thesis by (intro that(1)) (simp add: duplicate_endpoint_rights_def)
next
  case (Some i)
  show thesis
  proof (cases "endpoint_rights (ct_channels t ! i) h")
    case None
    with assms Some show thesis by (intro that(1)) (simp add: duplicate_endpoint_rights_def)
  next
    case (Some e)
    show thesis
    proof (cases "rep \<and> replace_rights_allowed e q RIGHT_SAME_RIGHTS RIGHTS_ALL")
      case True
      with assms Some \<open>get_channel t h = Some i\<close> show thesis
        by (intro that(2) [of i "effective_rights e q"])
          (auto simp: duplicate_endpoint_rights_def split: prod.splits bool.splits)
    next
      case False
      with assms Some \<open>get_channel t h = Some i\<close> show thesis
        by (intro that(1)) (auto simp: duplicate_endpoint_rights_def split: if_splits)
    qed
  qed
qed

subsection \<open>Runs of channel operations\<close>

datatype ChannelOp =
    CCreate u32
  | CWrite HandleValue "u8 list"
  | CRead HandleValue
  | CClose HandleValue
  | CRights HandleValue u32 bool
  | CSysWrite u32 u32 usize usize usize usize
  | CSysRead u32 u32 usize usize usize usize
  | CSysCall u32 u32 usize usize usize usize usize usize
  | CPoke usize "u8 list"

type_synonym channel_world = "ChannelTable \<times> user_mem"

fun channel_step :: "channel_world \<Rightarrow> ChannelOp \<Rightarrow> channel_world" where
  "channel_step (t, m) (CCreate options) = (fst (sys_channel_create t options), m)"
| "channel_step (t, m) (CWrite h d) = (fst (write_message t h d), m)"
| "channel_step (t, m) (CRead h) = (fst (read_message t h), m)"
| "channel_step (t, m) (CClose h) = (fst (remove_channel t h), m)"
| "channel_step (t, m) (CRights h r rep) = (fst (duplicate_endpoint_rights t h r rep), m)"
| "channel_step (t, m) (CSysWrite h opts bp bc hp hc) =
     (fst (sys_channel_write t m h opts bp bc hp hc), m)"
| "channel_step (t, m) (CSysRead h opts bp bl hp hc) =
     (case sys_channel_read t m h opts bp bl hp hc (0, 0) of (t, m, _) \<Rightarrow> (t, m))"
| "channel_step (t, m) (CSysCall h opts wp wn wh rp rn rh) =
     (case sys_channel_call_noretry t m h opts wp wn wh rp rn rh (0, 0) of (t, m, _) \<Rightarrow> (t, m))"
| "channel_step (t, m) (CPoke p bs) = (t, store_bytes m p bs)"

text \<open>The messages that a step accepts from endpoint \<open>y\<close>.\<close>

fun sent_by :: "HandleValue \<Rightarrow> channel_world \<Rightarrow> ChannelOp \<Rightarrow> ChannelMessage list" where
  "sent_by y (t, m) (CWrite h d) =
     (if h = y \<and> snd (write_message t h d) = Inr () then [channel_message_new d []] else [])"
| "sent_by y (t, m) (CSysWrite h opts bp bc hp hc) =
     (if h = y \<and> snd (sys_channel_write t m h opts bp bc hp hc) = Inr ()
      then [channel_message_new (load_bytes m bp (unat bc)) (load_u32s m hp (unat hc))] else [])"
| "sent_by y (t, m) (CSysCall h opts wp wn wh rp rn rh) =
     (if h = y \<and> wh = 0 \<and> rh = 0 \<and> snd (sys_channel_write t m h opts wp wn 0 0) = Inr ()
      then [channel_message_new (load_bytes m wp (unat wn)) []] else [])"
| "sent_by y (t, m) _ = []"

text \<open>What a step hands to endpoint \<open>x\<close>; \<open>read_message\<close> returns the bytes and drops the handles.\<close>

fun received_by :: "HandleValue \<Rightarrow> channel_world \<Rightarrow> ChannelOp \<Rightarrow> (u8 list \<times> u32 list option) list" where
  "received_by x (t, m) (CRead h) =
     (if h = x then (case snd (read_message t h) of Inr d \<Rightarrow> [(d, None)] | Inl _ \<Rightarrow> []) else [])"
| "received_by x (t, m) (CSysRead h opts bp bl hp hc) =
     (if h = x then left_in_buffers bp hp (sys_channel_read t m h opts bp bl hp hc (0, 0)) else [])"
| "received_by x (t, m) (CSysCall h opts wp wn wh rp rn rh) =
     (if h = x then left_in_buffers rp 0 (sys_channel_call_noretry t m h opts wp wn wh rp rn rh (0, 0)) else [])"
| "received_by x (t, m) _ = []"

text \<open>The steps that leave the channel of \<open>x\<close> and \<open>y\<close> open and read into buffers that do not overlap.\<close>

fun keeps_open :: "HandleValue \<Rightarrow> HandleValue \<Rightarrow> ChannelOp \<Rightarrow> bool" where
  "keeps_open x y (CClose h) \<longleftrightarrow> h \<noteq> x \<and> h \<noteq> y"
| "keeps_open x y (CSysRead h opts bp bl hp hc) \<longleftrightarrow> h = x \<longrightarrow> buffers_apart bp bl hp hc"
| "keeps_open x y _ \<longleftrightarrow> True"

lemma load_u32s_0 [simp]: "load_u32s m p 0 = []"
  by (simp add: load_u32s_def load_bytes_def)

definition channel_law :: "HandleValue \<Rightarrow> HandleValue \<Rightarrow> channel_world \<Rightarrow> ChannelOp \<Rightarrow> bool" where
  "channel_law x y s op \<longleftrightarrow> linked x y (fst (channel_step s op))
     \<and> (\<exists>ms. inbox (fst s) x @ sent_by y s op = ms @ inbox (fst (channel_step s op)) x
          \<and> list_all2 shows_message (received_by x s op) ms)"

lemma channel_call_law:
  assumes l: "linked x y t"
  shows "channel_law x y (t, m) (CSysCall h opts wp wn wh rp rn rh)"
proof (cases "wh = 0 \<and> rh = 0")
  case False
  with l show ?thesis by (auto simp: channel_law_def sys_channel_call_noretry_def left_in_buffers_def is_ok_def)
next
  case True
  have xy: "x \<noteq> y" using l by (simp add: linked_def)
  obtain t1 r1 where w: "sys_channel_write t m h opts wp wn 0 0 = (t1, r1)" by fastforce
  note w1 = sys_channel_write_inbox [OF l w]
  show ?thesis
  proof (cases r1)
    case (Inl e)
    with w w1 True show ?thesis
      by (cases "h = x") (simp_all add: channel_law_def sys_channel_call_noretry_def left_in_buffers_def is_ok_def)
  next
    case (Inr u)
    obtain t2 m2 a2 r2 where rd: "sys_channel_read t1 m h opts rp rn 0 0 (0, 0) = (t2, m2, a2, r2)"
      by (metis prod.collapse)
    have "h = x \<longrightarrow> buffers_apart rp rn 0 0" by (simp add: buffers_apart_def outside_def list_all_iff)
    note r2 = sys_channel_read_inbox [OF w1(1) rd this]
    have call: "sys_channel_call_noretry t m h opts wp wn wh rp rn rh (0, 0) = (t2, m2, a2, r2)"
      using w rd Inr True by (simp add: sys_channel_call_noretry_def)
    show ?thesis
      using w1(2) r2 w call Inr True xy by (cases "h = x"; cases "h = y") (simp_all add: channel_law_def)
  qed
qed

lemma channel_step_law:
  assumes l: "linked x y (fst s)" and k: "keeps_open x y op"
  shows "channel_law x y s op"
proof -
  obtain t m where s: "s = (t, m)" by fastforce
  with l have l: "linked x y t" by simp
  show ?thesis
  proof (cases op)
    case (CCreate opts)
    obtain t' r where "create_channel t = (t', r)" by fastforce
    with create_channel_inbox [OF l this] l show ?thesis
      by (simp add: channel_law_def s CCreate sys_channel_create_def split: option.splits)
  next
    case (CWrite h d)
    obtain t' r where w: "write_message t h d = (t', r)" by fastforce
    with table_write_inbox [OF l, of h d "[]" t' r] show ?thesis
      by (simp add: channel_law_def s CWrite write_message_def)
  next
    case (CRead h)
    obtain t' r where w: "read_message t h = (t', r)" by fastforce
    with read_message_inbox [OF l w] show ?thesis by (cases "h = x") (simp_all add: channel_law_def s CRead)
  next
    case (CClose h)
    obtain t' r where w: "remove_channel t h = (t', r)" by fastforce
    with remove_channel_inbox [OF l _ _ w] k show ?thesis by (simp add: channel_law_def s CClose)
  next
    case (CRights h q rep)
    obtain t' r where w: "duplicate_endpoint_rights t h q rep = (t', r)" by fastforce
    then have "linked x y t' \<and> inbox t' x = inbox t x"
    proof (cases rule: duplicate_endpoint_rights_put)
      case (2 i rights)
      then show ?thesis
        using l get_channel_SomeD [OF 2(1)]
        by (auto simp: linked_put inbox_put)
          (auto simp: inbox_def queue_of_def set_endpoint_rights_def)
    qed (simp add: l)
    with w show ?thesis by (simp add: channel_law_def s CRights)
  next
    case (CSysWrite h opts bp bc hp hc)
    obtain t' r where w: "sys_channel_write t m h opts bp bc hp hc = (t', r)" by fastforce
    with sys_channel_write_inbox [OF l w] show ?thesis by (simp add: channel_law_def s CSysWrite)
  next
    case (CSysRead h opts bp bl hp hc)
    obtain t' m' a' r where w: "sys_channel_read t m h opts bp bl hp hc (0, 0) = (t', m', a', r)"
      by (metis prod.collapse)
    from sys_channel_read_inbox [OF l w] k w show ?thesis by (cases "h = x") (simp_all add: channel_law_def s CSysRead)
  next
    case (CSysCall h opts wp wn wh rp rn rh)
    then show ?thesis using channel_call_law [OF l] by (simp add: s)
  next
    case (CPoke p bs)
    with l show ?thesis by (simp add: channel_law_def s)
  qed
qed

interpretation channel_fifo: fifo_match "\<lambda>s. linked x y (fst s)" "keeps_open x y" channel_step
  "\<lambda>s. inbox (fst s) x" "sent_by y" "received_by x" shows_message for x y
  using channel_step_law [unfolded channel_law_def] by unfold_locales blast+

subsection \<open>Invariant of the table\<close>

definition message_ok :: "ChannelMessage \<Rightarrow> bool" where
  "message_ok msg \<longleftrightarrow> length (cm_data msg) \<le> MAX_CHANNEL_MSG_SIZE
     \<and> length (cm_handles msg) \<le> MAX_CHANNEL_MSG_HANDLES \<and> cm_valid msg"

definition channel_ok :: "Channel \<Rightarrow> bool" where
  "channel_ok c \<longleftrightarrow> ch_handle0 c \<noteq> ch_handle1 c
     \<and> length (ch_queue0 c) \<le> MAX_CHANNEL_QUEUE_MESSAGES \<and> list_all message_ok (ch_queue0 c)
     \<and> length (ch_queue1 c) \<le> MAX_CHANNEL_QUEUE_MESSAGES \<and> list_all message_ok (ch_queue1 c)
     \<and> (ch_state c = ChActive \<and> ch_ref_count c = 2 \<or> ch_state c = ChPeerClosed \<and> ch_ref_count c = 1)
     \<and> ch_max_msg_size c = MAX_CHANNEL_MSG_SIZE
     \<and> rights_are_valid (ch_rights0 c) \<and> rights_are_valid (ch_rights1 c)"

definition channel_ends :: "Channel \<Rightarrow> HandleValue list" where
  "channel_ends c = [ch_handle0 c, ch_handle1 c]"

definition ct_handles :: "ChannelTable \<Rightarrow> HandleValue list" where
  "ct_handles t = concat (map channel_ends (ct_channels t))"

definition ct_inv :: "ChannelTable \<Rightarrow> bool" where
  "ct_inv t \<longleftrightarrow> length (ct_channels t) \<le> MAX_CHANNEL_OBJECTS
     \<and> list_all channel_ok (ct_channels t)
     \<and> distinct (ct_handles t)
     \<and> list_all (\<lambda>h. CHANNEL_HANDLE_START \<le> h \<and> h < ct_next_id t) (ct_handles t)
     \<and> CHANNEL_HANDLE_START \<le> ct_next_id t"

lemma channel_table_new_inv: "ct_inv channel_table_new"
  by (simp add: ct_inv_def channel_table_new_def ct_handles_def)

lemma ct_inv_nth: "ct_inv t \<Longrightarrow> i < length (ct_channels t) \<Longrightarrow> channel_ok (ct_channels t ! i)"
  by (simp add: ct_inv_def list_all_length)

lemma ct_inv_put:
  assumes "ct_inv t" and "i < length (ct_channels t)" and "same_ends c (ct_channels t ! i)"
    and "channel_ok c"
  shows "ct_inv (put_channel t i c)"
proof -
  have "map channel_ends ((ct_channels t)[i := c]) = map channel_ends (ct_channels t)"
    using assms(2,3)
    by (intro nth_equalityI) (auto simp: nth_list_update channel_ends_def same_ends_def)
  with assms show ?thesis
    by (auto simp: ct_inv_def put_channel_def ct_handles_def intro!: list_all_update)
qed

lemma ct_inv_drop:
  assumes "ct_inv t" and "i < length (ct_channels t)"
  shows "ct_inv (t\<lparr>ct_channels := vec_remove (ct_channels t) i\<rparr>)"
proof -
  let ?a = "take i (ct_channels t)" and ?b = "drop (Suc i) (ct_channels t)"
  have "ct_channels t = ?a @ ct_channels t ! i # ?b" using assms(2) by (rule id_take_nth_drop)
  then have "ct_handles t = concat (map channel_ends ?a) @ channel_ends (ct_channels t ! i)
      @ concat (map channel_ends ?b)"
    unfolding ct_handles_def by (metis concat.simps(2) concat_append list.simps(9) map_append)
  moreover have "list_all channel_ok ?a" "list_all channel_ok ?b"
    using assms(1) by (auto simp: ct_inv_def list_all_iff dest: in_set_takeD in_set_dropD)
  ultimately show ?thesis
    using assms by (auto simp: ct_inv_def ct_handles_def vec_remove_def)
qed

lemma ct_inv_create:
  assumes inv: "ct_inv t" and next_id: "unat (ct_next_id t) + 2 < 2 ^ 32"
  shows "ct_inv (fst (create_channel t))"
proof (cases "length (ct_channels t) \<ge> MAX_CHANNEL_OBJECTS")
  case True
  with inv show ?thesis by (simp add: create_channel_def)
next
  case False
  let ?n = "ct_next_id t"
  have n: "?n < ?n + 1" "?n + 1 < ?n + 2" "?n < ?n + 2" "?n \<noteq> ?n + 1"
    using next_id by (auto simp: word_less_nat_alt unat_word_ariths)
  have h: "ct_handles (fst (create_channel t)) = ct_handles t @ [?n, ?n + 1]"
    using False
    by (simp add: create_channel_def Let_def ct_handles_def channel_ends_def channel_new_def)
  have old: "\<forall>h\<in>set (ct_handles t). CHANNEL_HANDLE_START \<le> h \<and> h < ?n"
    using inv by (simp add: ct_inv_def list_all_iff)
  have "channel_ok (channel_new ?n (?n + 1))"
    using n(4) by (simp add: channel_ok_def channel_new_def default_rights_valid)
  moreover have "?n \<notin> set (ct_handles t)" "?n + 1 \<notin> set (ct_handles t)"
    using old n(1) by (auto dest!: bspec)
  moreover have "list_all (\<lambda>h. CHANNEL_HANDLE_START \<le> h \<and> h < ?n + 2) (ct_handles t @ [?n, ?n + 1])"
    using old n inv by (auto simp: list_all_iff ct_inv_def)
  ultimately show ?thesis
    using False inv n unfolding ct_inv_def h
    by (auto simp: create_channel_def Let_def)
qed

lemma channel_ok_write: "channel_ok c \<Longrightarrow> channel_ok (fst (channel_write c e d hs))"
proof -
  assume ok: "channel_ok c"
  obtain c' r where w: "channel_write c e d hs = (c', r)" by fastforce
  then have "channel_ok c'"
    by (cases rule: channel_write_cases)
      (use ok in \<open>auto simp: channel_ok_def message_ok_def channel_message_new_def\<close>)
  with w show ?thesis by simp
qed

lemma list_all_tl: "list_all P xs \<Longrightarrow> list_all P (tl xs)"
  by (cases xs) simp_all

lemma channel_ok_pop: "channel_ok c \<Longrightarrow> channel_ok (pop_queue c e)"
  by (auto simp: channel_ok_def pop_queue_def set_queue_def queue_of_def list_all_tl)

lemma channel_ok_close:
  assumes "channel_ok c" and "ch_state (fst (close_endpoint c e)) \<noteq> ChClosed"
  shows "channel_ok (fst (close_endpoint c e))"
  using assms by (auto simp: channel_ok_def close_endpoint_def Let_def)

lemma channel_ok_rights:
  "channel_ok c \<Longrightarrow> rights_are_valid r \<Longrightarrow> channel_ok (fst (set_endpoint_rights c e r))"
  by (simp add: channel_ok_def set_endpoint_rights_def)

lemma channel_ok_endpoint_rights:
  "channel_ok c \<Longrightarrow> endpoint_rights c e = Some r \<Longrightarrow> rights_are_valid r"
  by (auto simp: channel_ok_def endpoint_rights_def split: if_splits)

lemma ct_inv_table_write: "ct_inv t \<Longrightarrow> ct_inv (fst (table_write t h d hs))"
  by (auto simp: table_write_def split: option.splits prod.splits dest!: get_channel_SomeD
      intro!: ct_inv_put)
    (metis channel_ok_write ct_inv_nth fst_conv same_ends_simps(2))+

lemma ct_inv_pop:
  "ct_inv t \<Longrightarrow> get_channel t h = Some i \<Longrightarrow> ct_inv (put_channel t i (pop_queue (ct_channels t ! i) h))"
  by (rule ct_inv_put) (auto dest: get_channel_SomeD intro: channel_ok_pop ct_inv_nth)

lemma ct_inv_read_message:
  assumes inv: "ct_inv t"
  shows "ct_inv (fst (read_message t h))"
proof (cases "get_channel t h")
  case None
  with inv show ?thesis by (simp add: read_message_def)
next
  case (Some i)
  obtain c' r' where c': "channel_read (ct_channels t ! i) h = (c', r')" by fastforce
  then show ?thesis
    by (cases rule: channel_read_cases)
      (use c' inv Some in \<open>simp_all add: read_message_def ct_inv_pop\<close>)
qed

lemma ct_inv_sys_read: "ct_inv t \<Longrightarrow> sys_channel_read t m h opts bp bl hp hc a = (t', r) \<Longrightarrow> ct_inv t'"
  by (cases r) (auto elim!: sys_channel_read_cases simp: ct_inv_pop)

lemma ct_inv_sys_write: "ct_inv t \<Longrightarrow> ct_inv (fst (sys_channel_write t m h opts bp bc hp hc))"
  by (simp add: sys_channel_write_def ct_inv_table_write)

lemma ct_inv_remove:
  assumes inv: "ct_inv t"
  shows "ct_inv (fst (remove_channel t h))"
proof (cases "get_channel t h")
  case None
  with inv show ?thesis by (simp add: remove_channel_def)
next
  case (Some i)
  then have i: "i < length (ct_channels t)" by (auto dest: get_channel_SomeD)
  let ?c = "fst (close_endpoint (ct_channels t ! i) h)"
  show ?thesis
  proof (cases "ch_state ?c = ChClosed")
    case True
    have "vec_remove ((ct_channels t)[i := ?c]) i = vec_remove (ct_channels t) i"
      by (simp add: vec_remove_def)
    with True Some ct_inv_drop [OF inv i] show ?thesis
      by (simp add: remove_channel_def Let_def put_channel_def case_prod_beta)
  next
    case False
    with Some ct_inv_put [OF inv i _ channel_ok_close [OF ct_inv_nth [OF inv i] False]] show ?thesis
      by (simp add: remove_channel_def Let_def case_prod_beta)
  qed
qed

lemma ct_inv_rights:
  assumes inv: "ct_inv t"
  shows "ct_inv (fst (duplicate_endpoint_rights t h q rep))"
proof -
  obtain t' r where w: "duplicate_endpoint_rights t h q rep = (t', r)" by fastforce
  then have "ct_inv t'"
  proof (cases rule: duplicate_endpoint_rights_put)
    case 1
    with inv show ?thesis by simp
  next
    case (2 i rights)
    then have i: "i < length (ct_channels t)" by (auto dest: get_channel_SomeD)
    from 2(3) channel_ok_endpoint_rights [OF ct_inv_nth [OF inv i]] have "rights_are_valid rights"
      by (auto intro: replace_effective_valid)
    then show ?thesis unfolding 2(2)
      by (intro ct_inv_put channel_ok_rights) (simp_all add: inv i ct_inv_nth)
  qed
  with w show ?thesis by simp
qed

lemma channel_next_id:
  "ct_next_id (put_channel t i c) = ct_next_id t"
  "ct_next_id (fst (table_write t h d hs)) = ct_next_id t"
  "ct_next_id (fst (read_message t h)) = ct_next_id t"
  "ct_next_id (fst (remove_channel t h)) = ct_next_id t"
  "ct_next_id (fst (duplicate_endpoint_rights t h q rep)) = ct_next_id t"
  "ct_next_id (fst (sys_channel_write t m h opts bp bc hp hc)) = ct_next_id t"
  "sys_channel_read t m h opts bp bl hp hc a = (t', r) \<Longrightarrow> ct_next_id t' = ct_next_id t"
proof -
  show p: "ct_next_id (put_channel t i c) = ct_next_id t" for t :: ChannelTable and i c
    by (simp add: put_channel_def)
  show w: "ct_next_id (fst (table_write t h d hs)) = ct_next_id t" for d hs
    by (auto simp: table_write_def p split: option.splits prod.splits)
  show "ct_next_id (fst (read_message t h)) = ct_next_id t"
    by (auto simp: read_message_def p split: option.splits prod.splits sum.splits)
  show "ct_next_id (fst (remove_channel t h)) = ct_next_id t"
    by (auto simp: remove_channel_def p Let_def split: option.splits prod.splits)
  show "ct_next_id (fst (duplicate_endpoint_rights t h q rep)) = ct_next_id t"
    by (auto simp: duplicate_endpoint_rights_def p split: option.splits prod.splits bool.splits)
  show "ct_next_id (fst (sys_channel_write t m h opts bp bc hp hc)) = ct_next_id t"
    by (simp add: sys_channel_write_def w)
  show "sys_channel_read t m h opts bp bl hp hc a = (t', r) \<Longrightarrow> ct_next_id t' = ct_next_id t"
    by (cases r) (auto elim!: sys_channel_read_cases simp: p)
qed

definition handle_room :: "ChannelTable \<Rightarrow> nat \<Rightarrow> bool" where
  "handle_room t n \<longleftrightarrow> unat (ct_next_id t) + 2 * n < 2 ^ 32"

lemma channel_call_inv:
  assumes inv: "ct_inv t"
    and call: "sys_channel_call_noretry t m h opts wp wn wh rp rn rh a = (t', r)"
  shows "ct_inv t' \<and> ct_next_id t' = ct_next_id t"
proof (cases "wh = 0 \<and> rh = 0")
  case False
  with inv call show ?thesis by (auto simp: sys_channel_call_noretry_def)
next
  case True
  obtain t1 r1 where w: "sys_channel_write t m h opts wp wn 0 0 = (t1, r1)" by fastforce
  have t1: "ct_inv t1" "ct_next_id t1 = ct_next_id t"
    using ct_inv_sys_write [OF inv, of m h opts wp wn 0 0]
      channel_next_id(6) [of t m h opts wp wn 0 0] w by simp_all
  with call w True show ?thesis
    by (cases r1)
      (auto simp: sys_channel_call_noretry_def dest: ct_inv_sys_read channel_next_id(7))
qed

lemma channel_step_inv:
  assumes inv: "ct_inv (fst s)" and room: "handle_room (fst s) (Suc n)"
  shows "ct_inv (fst (channel_step s op)) \<and> handle_room (fst (channel_step s op)) n"
proof -
  obtain t m where s: "s = (t, m)" by fastforce
  with inv room have inv: "ct_inv t" and room: "unat (ct_next_id t) + 2 + 2 * n < 2 ^ 32"
    by (simp_all add: handle_room_def)
  show ?thesis
  proof (cases op)
    case (CCreate opts)
    have "unat (ct_next_id (fst (create_channel t))) \<le> unat (ct_next_id t) + 2"
      using room by (auto simp: create_channel_def Let_def unat_word_ariths)
    with ct_inv_create [OF inv] inv room show ?thesis
      by (auto simp: s CCreate sys_channel_create_def handle_room_def
          split: prod.splits option.splits)
  next
    case (CSysRead h opts bp bl hp hc)
    obtain t' m' a' r where w: "sys_channel_read t m h opts bp bl hp hc (0, 0) = (t', m', a', r)"
      by (metis prod.collapse)
    with ct_inv_sys_read [OF inv w] channel_next_id(7) [OF w] room show ?thesis
      by (simp add: s CSysRead handle_room_def)
  next
    case (CSysCall h opts wp wn wh rp rn rh)
    obtain t' m' a' r where
      w: "sys_channel_call_noretry t m h opts wp wn wh rp rn rh (0, 0) = (t', m', a', r)"
      by (metis prod.collapse)
    with channel_call_inv [OF inv w] room show ?thesis by (simp add: s CSysCall handle_room_def)
  qed (use inv room in \<open>simp_all add: s handle_room_def channel_next_id write_message_def
      ct_inv_table_write ct_inv_read_message ct_inv_remove ct_inv_rights ct_inv_sys_write\<close>)
qed

subsection \<open>Properties\<close>

text \<open>
  C8: messages are neither lost, duplicated, reordered nor altered.  Let \<open>x\<close> and \<open>y\<close> be the ends of
  one channel.  Take any interleaving of creations, reads, writes, calls, changes of rights and of the
  memory, and closes of other channels, in which the reads at \<open>x\<close> have a byte buffer and a handle
  buffer that do not overlap.  Then what \<open>x\<close> had waiting followed by what was accepted from \<open>y\<close> is a
  list \<open>ms\<close> followed by what \<open>x\<close> still has waiting, and the successful reads at \<open>x\<close> have returned the
  messages \<open>ms\<close>, one each and in order: \<open>read_message\<close> the bytes of its message, a system call the
  bytes and the handles, as found in the buffers of the caller after the call.
\<close>

theorem channel_messages_fifo:
  assumes "linked x y (fst s)" and "list_all (keeps_open x y) ops"
  shows "\<exists>ms. inbox (fst s) x @ run_trace channel_step (sent_by y) s ops
       = ms @ inbox (fst (run_steps channel_step s ops)) x
     \<and> list_all2 shows_message (run_trace channel_step (received_by x) s ops) ms"
  by (rule channel_fifo.run_matches [OF assms])

definition example_channel :: channel_world where
  "example_channel = (fst (create_channel channel_table_new), \<lambda>_. 7)"

definition example_channel_ops :: "ChannelOp list" where
  "example_channel_ops = [CWrite 0x93000001 [1, 2], CSysWrite 0x93000001 0 64 3 0 0,
     CCreate 0, CClose 0x93000002, CRead 0x93000000, CSysRead 0x93000000 0 4096 4 8192 1]"

theorem channel_messages_fifo_witness:
  "run_trace channel_step (sent_by 0x93000001) example_channel example_channel_ops
     = [channel_message_new [1, 2] [], channel_message_new [7, 7, 7] []]
   \<and> (\<exists>a b. run_trace channel_step (received_by 0x93000000) example_channel example_channel_ops = [a, b]
        \<and> shows_message a (channel_message_new [1, 2] []) \<and> shows_message b (channel_message_new [7, 7, 7] []))"
proof -
  have l: "linked 0x93000000 0x93000001 (fst example_channel)"
    by (simp add: example_channel_def create_channel_def channel_table_new_def MAX_CHANNEL_OBJECTS_def
        linked_def get_channel_def has_end_def channel_new_def CHANNEL_HANDLE_START_def)
  have "buffers_apart 4096 4 8192 1" by code_simp
  then have k: "list_all (keeps_open 0x93000000 0x93000001) example_channel_ops"
    by (simp add: example_channel_ops_def)
  have sent: "run_trace channel_step (sent_by 0x93000001) example_channel example_channel_ops
     = [channel_message_new [1, 2] [], channel_message_new [7, 7, 7] []]" by code_simp
  moreover have "inbox (fst (run_steps channel_step example_channel example_channel_ops)) 0x93000000 = []" by code_simp
  moreover have "inbox (fst example_channel) 0x93000000 = []" by code_simp
  ultimately have "list_all2 shows_message (run_trace channel_step (received_by 0x93000000) example_channel example_channel_ops)
      [channel_message_new [1, 2] [], channel_message_new [7, 7, 7] []]"
    using channel_messages_fifo [OF l k] by simp
  with sent show ?thesis by (auto simp: list_all2_Cons2)
qed

text \<open>
  C23: the channel table stays well formed.  From the empty table, any sequence of operations short
  enough for the handle counter not to wrap keeps at most 256 channels, every queue at 32 messages
  or fewer, every queued message within the size limits, the reference count in step with the
  state, the rights valid and all endpoint handles distinct.
\<close>

theorem channel_table_invariant:
  assumes "2 * length ops < 2 ^ 32 - unat CHANNEL_HANDLE_START"
  shows "ct_inv (fst (run_steps channel_step (channel_table_new, m) ops))"
proof -
  have "ct_inv (fst s) \<Longrightarrow> handle_room (fst s) (length ops) \<Longrightarrow>
      ct_inv (fst (run_steps channel_step s ops))" for s
  proof (induction ops arbitrary: s)
    case (Cons op ops)
    with channel_step_inv [of s "length ops" op] show ?case by simp
  qed simp
  moreover have "handle_room channel_table_new (length ops)"
    using assms by (simp add: handle_room_def channel_table_new_def)
  ultimately show ?thesis using channel_table_new_inv by simp
qed

theorem channel_table_invariant_witness:
  "ct_inv (fst (run_steps channel_step (channel_table_new, \<lambda>_. 0)
     [CCreate 0, CWrite 0x93000001 [1], CClose 0x93000000, CRead 0x93000000, CCreate 0]))"
  by (rule channel_table_invariant) (simp add: CHANNEL_HANDLE_START_def)

lemma inbox_pop:
  assumes "get_channel t h = Some i"
  shows "inbox (put_channel t i (pop_queue (ct_channels t ! i) h)) h = tl (inbox t h)"
  using assms get_channel_SomeD [OF assms]
  by (auto simp: inbox_put) (auto simp: inbox_def pop_queue_def set_queue_def queue_of_def)

text \<open>
  C24: a successful \<open>sys_channel_read\<close> takes exactly the front message, leaves its bytes and its
  handles in the caller's two buffers (which must not overlap) and reports their counts; when the
  buffers are too small it reports the needed counts and takes nothing; every other failure
  changes neither table nor memory.
\<close>

theorem sys_channel_read_delivers:
  assumes "sys_channel_read t m h opts bp bl hp hc a = (t', m', a', r)"
    and "outside bp (unat bl) hp (4 * unat hc)" and "unat hc \<le> 2 ^ 62"
  shows "case r of
      Inr _ \<Rightarrow> (\<exists>msg. inbox t h = msg # inbox t' h
        \<and> load_bytes m' bp (length (cm_data msg)) = cm_data msg
        \<and> load_u32s m' hp (length (cm_handles msg)) = cm_handles msg
        \<and> a' = (of_nat (length (cm_data msg)), of_nat (length (cm_handles msg))))
    | Inl e \<Rightarrow> t' = t \<and> m' = m \<and> (e = ErrOutOfRange \<longrightarrow> (\<exists>msg rest. inbox t h = msg # rest
        \<and> a' = (of_nat (length (cm_data msg)), of_nat (length (cm_handles msg)))))"
  using assms(1)
proof (cases rule: sys_channel_read_cases)
  case (taken i msg rest)
  have "unat bl \<le> 2 ^ 64" using less_imp_le [OF unat_lt_64 [of bl]] by simp
  note ls = load_store_messages [OF taken(7) this taken(8) _ assms(2)]
  from taken inbox_pop [OF taken(2)] ls [of m] assms(3) show ?thesis
    by (simp add: inbox_def)
next
  case (rejected err)
  then show ?thesis by simp
next
  case (small i msg rest)
  then show ?thesis by (simp add: inbox_def)
qed

theorem sys_channel_read_delivers_witness:
  "\<exists>t' m'. sys_channel_read
      (fst (table_write (fst example_channel) 0x93000001 [1, 2, 3] [9])) (\<lambda>_. 0)
      0x93000000 0 4096 4 8192 1 (0, 0) = (t', m', (3, 1), Inr ())
    \<and> load_bytes m' 4096 3 = [1, 2, 3] \<and> load_u32s m' 8192 1 = [9] \<and> inbox t' 0x93000000 = []"
proof -
  let ?t = "fst (table_write (fst example_channel) 0x93000001 [1, 2, 3] [9])"
  obtain t' m' a' r where
    sys: "sys_channel_read ?t (\<lambda>_. 0) 0x93000000 0 4096 4 8192 1 (0, 0) = (t', m', a', r)"
    by (metis prod.collapse)
  have r: "snd (snd (sys_channel_read ?t (\<lambda>_. 0) 0x93000000 0 4096 4 8192 1 (0, 0)))
      = ((3, 1), Inr ())" by code_simp
  have i: "inbox ?t 0x93000000 = [channel_message_new [1, 2, 3] [9]]" by code_simp
  have "outside 4096 (unat (4 :: usize)) 8192 (4 * unat (1 :: usize))"
    by code_simp
  from sys_channel_read_delivers [OF sys this] sys r i show ?thesis
    by (auto simp: channel_message_new_def numeral_3_eq_3)
qed

lemma ct_inv_unique:
  assumes inv: "ct_inv t" and ij: "i < length (ct_channels t)" "j < length (ct_channels t)"
    and h: "has_end h (ct_channels t ! i)" "has_end h (ct_channels t ! j)"
  shows "i = j"
proof (rule ccontr)
  assume ne: "i \<noteq> j"
  let ?e = "map channel_ends (ct_channels t)"
  have d: "distinct (concat ?e)" using inv by (simp add: ct_inv_def ct_handles_def)
  have "removeAll [] ?e = ?e" by (auto simp: channel_ends_def intro!: removeAll_id)
  with d have "distinct ?e" by (simp add: distinct_concat_iff)
  with ne ij have "?e ! i \<noteq> ?e ! j" by (subst nth_eq_iff_index_eq) simp_all
  moreover have "?e ! i \<in> set ?e" "?e ! j \<in> set ?e"
    using ij nth_mem [of _ ?e] by simp_all
  ultimately have "set (?e ! i) \<inter> set (?e ! j) = {}" using d unfolding distinct_concat_iff by blast
  with ij h show False by (auto simp: channel_ends_def has_end_def)
qed

lemma ct_inv_gone:
  assumes inv: "ct_inv t" and i: "i < length (ct_channels t)" "has_end h (ct_channels t ! i)"
  shows "get_channel (t\<lparr>ct_channels := vec_remove (ct_channels t) i\<rparr>) h = None"
proof -
  have "\<not> has_end h (vec_remove (ct_channels t) i ! k)" if "k < length (ct_channels t) - 1" for k
  proof -
    from that have "k < length (ct_channels t)" "Suc k < length (ct_channels t)" by simp_all
    with ct_inv_unique [OF inv _ i(1) _ i(2), of k] ct_inv_unique [OF inv _ i(1) _ i(2), of "Suc k"]
    show ?thesis by (auto simp: nth_vec_remove [OF i(1) that])
  qed
  then show ?thesis
    by (auto simp: get_channel_def position_None_iff in_set_conv_nth length_vec_remove [OF i(1)])
qed

text \<open>
  C25: closing the same endpoint twice destroys the channel under the open peer.  The table does not
  remember which endpoint was closed, so a second \<open>remove_channel\<close> of the same handle counts as
  the peer's close: the channel is dropped and the peer's handle is no longer found.
\<close>

definition table_active :: "ChannelTable \<Rightarrow> HandleValue \<Rightarrow> bool" where
  "table_active t h = (case get_channel t h of
     Some i \<Rightarrow> ch_state (ct_channels t ! i) = ChActive | None \<Rightarrow> False)"

theorem channel_double_close_drops_peer:
  assumes inv: "ct_inv t" and l: "linked x y t" and act: "table_active t x"
  shows "get_channel (fst (remove_channel t x)) y \<noteq> None
    \<and> get_channel (fst (remove_channel (fst (remove_channel t x)) x)) y = None"
proof -
  obtain i where g: "get_channel t x = Some i" "get_channel t y = Some i"
    and ends: "{ch_handle0 (ct_channels t ! i), ch_handle1 (ct_channels t ! i)} = {x, y}"
    using l by (auto simp: linked_def split: option.splits)
  let ?c = "ct_channels t ! i"
  let ?c1 = "fst (close_endpoint ?c x)"
  let ?t1 = "put_channel t i ?c1"
  have i: "i < length (ct_channels t)" "has_end x ?c" using g(1) by (auto dest: get_channel_SomeD)
  have "ch_state ?c = ChActive" using act g(1) by (simp add: table_active_def)
  with ct_inv_nth [OF inv i(1)] have "ch_ref_count ?c = 2" by (simp add: channel_ok_def)
  with i(2) have c1: "ch_state ?c1 = ChPeerClosed" "ch_ref_count ?c1 = 1"
    by (auto simp: close_endpoint_def has_end_def Let_def)
  have t1: "fst (remove_channel t x) = ?t1"
    using g(1) c1(1) by (simp add: remove_channel_def Let_def case_prod_beta)
  have inv1: "ct_inv ?t1" using ct_inv_remove [OF inv, of x] t1 by simp
  have g1: "get_channel ?t1 x = Some i" "get_channel ?t1 y = Some i" using g i(1) by simp_all
  have n1: "ct_channels ?t1 ! i = ?c1" "i < length (ct_channels ?t1)"
    using i(1) by (simp_all add: put_channel_def)
  have "ch_state (fst (close_endpoint ?c1 x)) = ChClosed"
    using c1(2) i(2) same_ends_simps(4) [of ?c x]
    by (auto simp: close_endpoint_def [of ?c1] has_end_def same_ends_def Let_def)
  then have "fst (remove_channel ?t1 x) = ?t1\<lparr>ct_channels := vec_remove (ct_channels ?t1) i\<rparr>"
    using g1(1) n1(1)
    by (simp add: remove_channel_def Let_def case_prod_beta) (simp add: put_channel_def vec_remove_def)
  moreover have "has_end y (ct_channels ?t1 ! i)" using g1(2) by (auto dest: get_channel_SomeD)
  ultimately show ?thesis using ct_inv_gone [OF inv1 n1(2)] g1(2) t1 by simp
qed

theorem channel_double_close_drops_peer_witness:
  "get_channel (fst (remove_channel (fst (remove_channel (fst example_channel) 0x93000000))
     0x93000000)) 0x93000001 = None"
proof -
  have inv: "ct_inv (fst example_channel)"
    using ct_inv_create [OF channel_table_new_inv]
    by (simp add: example_channel_def channel_table_new_def CHANNEL_HANDLE_START_def)
  have l: "linked 0x93000000 0x93000001 (fst example_channel)"
    "table_active (fst example_channel) 0x93000000" by code_simp+
  from channel_double_close_drops_peer [OF inv l] show ?thesis by simp
qed

text \<open>The table with the rights of one endpoint replaced.\<close>

definition table_with_rights :: "ChannelTable \<Rightarrow> HandleValue \<Rightarrow> u32 \<Rightarrow> ChannelTable" where
  "table_with_rights t h rights =
     (case get_channel t h of
        Some i \<Rightarrow> put_channel t i (fst (set_endpoint_rights (ct_channels t ! i) h rights))
      | None \<Rightarrow> t)"

lemma sys_channel_read_own_inbox:
  assumes "sys_channel_read t m h opts bp bl hp hc a = (t', m', a', r)"
  shows "inbox t' h = (if is_ok r then tl (inbox t h) else inbox t h)"
  using assms by (cases rule: sys_channel_read_cases) (simp_all add: is_ok_def inbox_pop)

text \<open>
  C26: \<open>sys_channel_read\<close> does not look at the rights of its handle.  Whatever rights an endpoint is
  left with, the call has the result, the counts and the memory it has with the rights before, and
  leaves the same messages waiting; while \<open>read_message\<close> on an active channel refuses with
  \<open>ErrAccessDenied\<close> and takes nothing when the rights do not include the read right.
\<close>

theorem sys_channel_read_ignores_rights:
  shows "snd (sys_channel_read (table_with_rights t h rights) m h opts bp bl hp hc a)
        = snd (sys_channel_read t m h opts bp bl hp hc a)
    \<and> inbox (fst (sys_channel_read (table_with_rights t h rights) m h opts bp bl hp hc a)) h
        = inbox (fst (sys_channel_read t m h opts bp bl hp hc a)) h
    \<and> (table_active t h \<and> \<not> rights_contain rights (Rights_as_u32 R_Read)
         \<longrightarrow> read_message (table_with_rights t h rights) h = (table_with_rights t h rights, Inl ErrAccessDenied))"
proof (cases "get_channel t h")
  case None
  then show ?thesis by (simp add: table_with_rights_def table_active_def)
next
  case (Some i)
  let ?c = "ct_channels t ! i"
  define u where "u = table_with_rights t h rights"
  have i: "i < length (ct_channels t)" "has_end h ?c" using get_channel_SomeD [OF Some] by simp_all
  have eq: "u = put_channel t i (fst (set_endpoint_rights ?c h rights))" using Some by (simp add: u_def table_with_rights_def)
  have "get_channel u h = Some i" "ct_channels u ! i = fst (set_endpoint_rights ?c h rights)"
    using Some i by (simp_all add: eq) (simp_all add: put_channel_def)
  then obtain d where u: "get_channel u h = Some i" "ct_channels u ! i = d"
    and d: "ch_handle0 d = ch_handle0 ?c" "ch_handle1 d = ch_handle1 ?c" "ch_queue0 d = ch_queue0 ?c"
      "ch_queue1 d = ch_queue1 ?c" "ch_state d = ch_state ?c" "endpoint_rights d h = Some rights"
    using i(2) by (auto simp: set_endpoint_rights_def endpoint_rights_def has_end_def)
  have same: "snd (sys_channel_read u m h opts bp bl hp hc a) = snd (sys_channel_read t m h opts bp bl hp hc a)"
    using Some u d(1-4) by (simp add: sys_channel_read_def Let_def case_prod_beta)
  obtain t' m' a' r where t': "sys_channel_read t m h opts bp bl hp hc a = (t', m', a', r)" by (metis prod.collapse)
  obtain u' where u': "sys_channel_read u m h opts bp bl hp hc a = (u', m', a', r)" using same t' by (metis prod.collapse snd_conv)
  have "inbox u h = inbox t h" using Some u d(1,3,4) by (simp add: inbox_def queue_of_def)
  then have "inbox u' h = inbox t' h"
    using sys_channel_read_own_inbox [OF t'] sys_channel_read_own_inbox [OF u'] by simp
  moreover have "read_message u h = (u, Inl ErrAccessDenied)"
    if "table_active t h" "\<not> rights_contain rights (Rights_as_u32 R_Read)"
    using that u d(5,6) Some put_channel_same [of u i]
    by (simp add: read_message_def channel_read_def table_active_def channel_has_rights_def)
  ultimately show ?thesis unfolding u_def [symmetric] using same t' u' by simp
qed

theorem sys_channel_read_ignores_rights_witness:
  "let t = fst (write_message (fst example_channel) 0x93000001 [5]); u = table_with_rights t 0x93000000 0x4000
   in snd (read_message u 0x93000000) = Inl ErrAccessDenied
      \<and> snd (snd (snd (sys_channel_read u (\<lambda>_. 0) 0x93000000 0 64 1 0 0 (0, 0)))) = Inr ()"
proof -
  let ?t = "fst (write_message (fst example_channel) 0x93000001 [5])"
  have h: "table_active ?t 0x93000000 \<and> \<not> rights_contain 0x4000 (Rights_as_u32 R_Read)" by code_simp
  have r: "snd (snd (snd (sys_channel_read ?t (\<lambda>_. 0) 0x93000000 0 64 1 0 0 (0, 0)))) = Inr ()" by code_simp
  show ?thesis
    using sys_channel_read_ignores_rights [of ?t "0x93000000" "0x4000" "\<lambda>_. 0" 0 64 1 0 0 "(0, 0)"] h r
    by (simp add: Let_def)
qed

end
