(* ===== verification/Ring.thy ===== *)
theory Ring
  imports Object_Types
begin

text \<open>
  The ring buffers of sockets, FIFOs and ports.  An array, the position of the oldest element and
  a count stand for a list; \<open>ring_index\<close> is the index computation of
  \<open>kernel_objects/socket_logic_shared.rs\<close> (and its copies for FIFOs and ports).  The locale
  \<open>bounded_queue\<close> is the contract the clients rely on.
\<close>

definition ring_index :: "nat \<Rightarrow> nat \<Rightarrow> nat \<Rightarrow> nat" where
  "ring_index read_pos offset capacity =
     (if capacity = 0 then 0
      else let base = read_pos mod capacity; offset = offset mod capacity in
        if base \<ge> capacity - offset then base - (capacity - offset) else base + offset)"

definition ring_list :: "'a list \<Rightarrow> nat \<Rightarrow> nat \<Rightarrow> 'a list" where
  "ring_list buf head n = map (\<lambda>k. buf ! ring_index head k (length buf)) [0..<n]"

text \<open>The subtraction form computes the remainder of the sum without forming the sum.\<close>

lemma ring_index_mod: "0 < N \<Longrightarrow> ring_index h k N = (h + k) mod N"
proof -
  assume N: "0 < N"
  have b: "h mod N < N" "k mod N < N" using N by simp_all
  have s: "(h + k) mod N = (h mod N + k mod N) mod N" by (simp add: mod_simps)
  show ?thesis
  proof (cases "h mod N + k mod N < N")
    case True
    with N s show ?thesis by (auto simp: ring_index_def Let_def)
  next
    case False
    moreover have "h mod N + k mod N - N < N" using b by linarith
    ultimately have "(h mod N + k mod N) mod N = h mod N + k mod N - N"
      by (simp add: le_mod_geq)
    with False N b s show ?thesis by (auto simp: ring_index_def Let_def)
  qed
qed

lemma ring_index_less [simp]: "0 < N \<Longrightarrow> ring_index h k N < N"
  by (simp add: ring_index_mod)

lemma ring_index_inj:
  assumes "h < N" "i < N" "j < N" "ring_index h i N = ring_index h j N"
  shows "i = j"
  using assms by (auto simp: ring_index_def Let_def split: if_splits)

lemma length_ring_list [simp]: "length (ring_list buf h n) = n"
  by (simp add: ring_list_def)

lemma ring_list_0 [simp]: "ring_list buf h 0 = []"
  by (simp add: ring_list_def)

lemma ring_list_nth: "k < n \<Longrightarrow> ring_list buf h n ! k = buf ! ring_index h k (length buf)"
  by (simp add: ring_list_def)

lemma ring_list_push:
  assumes "h < length buf" "n < length buf"
  shows "ring_list (buf[ring_index h n (length buf) := x]) h (Suc n) = ring_list buf h n @ [x]"
proof -
  have N: "0 < length buf" using assms(1) by linarith
  have "ring_index h k (length buf) \<noteq> ring_index h n (length buf)" if "k < n" for k
    using ring_index_inj [OF assms(1), of k n] that assms(2) by auto
  with N show ?thesis by (auto simp: ring_list_def nth_list_update dest: sym)
qed

lemma ring_list_pop:
  assumes "h < length buf" "n \<le> length buf" "0 < n"
  shows "ring_list buf h n = buf ! h # ring_list buf (ring_index h 1 (length buf)) (n - 1)"
proof (rule nth_equalityI)
  have N: "0 < length buf" using assms(1) by linarith
  fix k
  assume "k < length (ring_list buf h n)"
  then have k: "k < n" by simp
  show "ring_list buf h n ! k =
      (buf ! h # ring_list buf (ring_index h 1 (length buf)) (n - 1)) ! k"
  proof (cases k)
    case 0
    with k N assms(1) show ?thesis by (simp add: ring_list_nth ring_index_mod)
  next
    case (Suc m)
    then have "m < n - 1" using k by simp
    with Suc k N show ?thesis by (simp add: ring_list_nth ring_index_mod mod_simps)
  qed
qed (use assms in simp)

text \<open>The freed slot may be overwritten: it is not among the remaining elements.\<close>

lemma ring_list_clear:
  assumes "h < length buf" "n \<le> length buf"
  shows "ring_list (buf[h := d]) (ring_index h 1 (length buf)) (n - 1) =
    ring_list buf (ring_index h 1 (length buf)) (n - 1)"
proof -
  have N: "0 < length buf" using assms(1) by linarith
  have "h \<noteq> ring_index (ring_index h 1 (length buf)) k (length buf)" if "k < n - 1" for k
  proof
    assume "h = ring_index (ring_index h 1 (length buf)) k (length buf)"
    then have "ring_index h (Suc k) (length buf) = ring_index h 0 (length buf)"
      using N assms(1) by (simp add: ring_index_mod mod_simps) metis?
    moreover have "Suc k < length buf" using that assms(2) by linarith
    ultimately show False using ring_index_inj [OF assms(1) _ N] by blast
  qed
  then show ?thesis by (auto simp: ring_list_def intro!: nth_list_update_neq)
qed

lemma ring_list_first: "n \<le> length buf \<Longrightarrow> ring_list buf 0 n = take n buf"
  by (rule nth_equalityI) (auto simp: ring_list_nth ring_index_def dest: less_le_trans)

subsection \<open>The contract\<close>

locale bounded_queue =
  fixes inv :: "'e \<Rightarrow> bool"
    and contents :: "'e \<Rightarrow> 'a list"
    and capacity :: nat
    and push :: "'e \<Rightarrow> 'a \<Rightarrow> 'e \<times> unit ZxResult"
    and pop :: "'e \<Rightarrow> 'e \<times> 'a option"
  assumes push_ok: "inv e \<Longrightarrow> length (contents e) < capacity \<Longrightarrow>
      \<exists>e'. push e x = (e', Inr ()) \<and> inv e' \<and> contents e' = contents e @ [x]"
    and push_full: "inv e \<Longrightarrow> capacity \<le> length (contents e) \<Longrightarrow> push e x = (e, Inl ErrShouldWait)"
    and pop_empty: "inv e \<Longrightarrow> contents e = [] \<Longrightarrow> pop e = (e, None)"
    and pop_ok: "inv e \<Longrightarrow> contents e = x # xs \<Longrightarrow>
      \<exists>e'. pop e = (e', Some x) \<and> inv e' \<and> contents e' = xs"
    and bounded: "inv e \<Longrightarrow> length (contents e) \<le> capacity"
begin

lemma push_cases:
  assumes "inv e" and "push e x = (e', r)"
  obtains "length (contents e) < capacity" "r = Inr ()" "inv e'" "contents e' = contents e @ [x]"
  | "length (contents e) = capacity" "r = Inl ErrShouldWait" "e' = e"
proof (cases "length (contents e) < capacity")
  case True
  with push_ok [OF assms(1) True, of x] assms(2) that(1) show thesis by auto
next
  case False
  with push_full [OF assms(1), of x] bounded [OF assms(1)] assms(2) that(2) show thesis by auto
qed

lemma pop_cases:
  assumes "inv e" and "pop e = (e', r)"
  obtains "contents e = []" "r = None" "e' = e"
  | x where "r = Some x" "contents e = x # contents e'" "inv e'"
proof (cases "contents e")
  case Nil
  with pop_empty [OF assms(1)] assms(2) that(1) show thesis by auto
next
  case (Cons x xs)
  with pop_ok [OF assms(1) Cons] assms(2) that(2) show thesis by auto
qed

text \<open>Whatever is pushed comes out, first in first out.\<close>

theorem push_pop_empty:
  assumes "inv e" and "contents e = []" and "0 < capacity"
  shows "\<exists>e' e''. push e x = (e', Inr ()) \<and> pop e' = (e'', Some x) \<and> contents e'' = []"
proof -
  from push_ok [OF assms(1), of x] assms(2,3) obtain e'
    where e': "push e x = (e', Inr ())" "inv e'" "contents e' = [x]" by auto
  with pop_ok [OF e'(2,3)] show ?thesis by auto
qed

end

end
