(* ===== verification/Socket_Object.thy ===== *)
theory Socket_Object
  imports Channel_Object Ring Slot_Table
begin

unbundle bit_operations_syntax

text \<open>
  \<open>kernel_objects/socket.rs\<close> and \<open>socket_logic_shared.rs\<close>: stream and datagram
  sockets.  Each endpoint holds three rings (bytes, datagram lengths, shared handles) in fixed
  arrays; positions and counts are \<open>nat\<close>, bounded by the array sizes in the invariant.
\<close>

definition SOCKET_HANDLE_START :: u32 where
  "SOCKET_HANDLE_START = 0x90000000"

definition MAX_SOCKET_OBJECTS :: nat where
  "MAX_SOCKET_OBJECTS = 64"

definition MAX_SOCKET_SHARED :: nat where
  "MAX_SOCKET_SHARED = 16"

definition MAX_SOCKET_DATAGRAMS :: nat where
  "MAX_SOCKET_DATAGRAMS = 16"

definition SOCKET_SIZE :: nat where
  "SOCKET_SIZE = 128 * 2048"

definition SOCKET_SHUTDOWN_WRITE :: u32 where
  "SOCKET_SHUTDOWN_WRITE = 1"

definition SOCKET_SHUTDOWN_READ :: u32 where
  "SOCKET_SHUTDOWN_READ = 2"

definition SOCKET_SHUTDOWN_MASK :: u32 where
  "SOCKET_SHUTDOWN_MASK = SOCKET_SHUTDOWN_WRITE OR SOCKET_SHUTDOWN_READ"

definition SOCKET_DATAGRAM :: u32 where
  "SOCKET_DATAGRAM = 1"

definition SOCKET_CREATE_MASK :: u32 where
  "SOCKET_CREATE_MASK = SOCKET_DATAGRAM"

definition SOCKET_PEEK :: u32 where
  "SOCKET_PEEK = 8"

definition SOCKET_READ_OPTIONS_MASK :: u32 where
  "SOCKET_READ_OPTIONS_MASK = SOCKET_PEEK"

definition SOCKET_SIGNAL_PEER_WRITE_DISABLED :: u32 where
  "SOCKET_SIGNAL_PEER_WRITE_DISABLED = 0x10"

definition SOCKET_SIGNAL_WRITE_DISABLED :: u32 where
  "SOCKET_SIGNAL_WRITE_DISABLED = 0x20"

definition SOCKET_SIGNAL_SHARE :: u32 where
  "SOCKET_SIGNAL_SHARE = 0x200"

definition SOCKET_SIGNAL_READ_THRESHOLD :: u32 where
  "SOCKET_SIGNAL_READ_THRESHOLD = 0x400"

definition SOCKET_SIGNAL_WRITE_THRESHOLD :: u32 where
  "SOCKET_SIGNAL_WRITE_THRESHOLD = 0x800"

definition SOCKET_PROPERTY_RX_THRESHOLD :: u32 where
  "SOCKET_PROPERTY_RX_THRESHOLD = 12"

definition SOCKET_PROPERTY_TX_THRESHOLD :: u32 where
  "SOCKET_PROPERTY_TX_THRESHOLD = 13"

subsection \<open>Shared logic\<close>

definition options_valid :: "u32 \<Rightarrow> u32 \<Rightarrow> bool" where
  "options_valid options allowed \<longleftrightarrow> options AND NOT allowed = 0"

definition mask_options :: "u32 \<Rightarrow> u32 \<Rightarrow> u32" where
  "mask_options options allowed = options AND allowed"

definition remaining_capacity :: "nat \<Rightarrow> nat \<Rightarrow> nat" where
  "remaining_capacity len capacity = (if len \<ge> capacity then 0 else capacity - len)"

definition min_count :: "nat \<Rightarrow> nat \<Rightarrow> nat" where
  "min_count left right = (if left \<le> right then left else right)"

definition threshold_met :: "nat \<Rightarrow> nat \<Rightarrow> bool" where
  "threshold_met threshold observed \<longleftrightarrow> threshold \<noteq> 0 \<and> observed \<ge> threshold"

definition logic_refresh_read_signals :: "u32 \<Rightarrow> nat \<Rightarrow> nat \<Rightarrow> u32 \<Rightarrow> u32 \<Rightarrow> u32" where
  "logic_refresh_read_signals signals len threshold readable_signal threshold_signal =
     (let signals = (if len = 0 then signals AND NOT readable_signal
                     else signals OR readable_signal)
      in if threshold_met threshold len then signals OR threshold_signal
         else signals AND NOT threshold_signal)"

definition logic_refresh_write_signals ::
  "u32 \<Rightarrow> bool \<Rightarrow> nat \<Rightarrow> nat \<Rightarrow> u32 \<Rightarrow> u32 \<Rightarrow> u32" where
  "logic_refresh_write_signals signals write_disabled remaining threshold writable_signal
       threshold_signal =
     (let signals = (if write_disabled \<or> remaining = 0 then signals AND NOT writable_signal
                     else signals OR writable_signal)
      in if threshold_met threshold remaining then signals OR threshold_signal
         else signals AND NOT threshold_signal)"

subsection \<open>Endpoints\<close>

record SocketInfo =
  si_options :: u32
  si_padding1 :: u32
  si_rx_buf_max :: u64
  si_rx_buf_size :: u64
  si_rx_buf_available :: u64
  si_tx_buf_max :: u64
  si_tx_buf_size :: u64

record SocketEndpoint =
  se_handle :: HandleValue
  se_peer :: "HandleValue option"
  se_rights :: u32
  se_signals :: u32
  se_options :: u32
  se_data :: "u8 list"
  se_read_pos :: nat
  se_len :: nat
  se_datagram_lens :: "nat list"
  se_datagram_head :: nat
  se_datagram_count :: nat
  se_read_threshold :: nat
  se_write_threshold :: nat
  se_read_disabled :: bool
  se_write_disabled :: bool
  se_shared :: "HandleValue list"
  se_shared_head :: nat
  se_shared_count :: nat
  se_active :: bool

definition socket_empty :: SocketEndpoint where
  "socket_empty =
     \<lparr>se_handle = INVALID_HANDLE, se_peer = None, se_rights = 0, se_signals = 0, se_options = 0,
      se_data = replicate SOCKET_SIZE 0, se_read_pos = 0, se_len = 0,
      se_datagram_lens = replicate MAX_SOCKET_DATAGRAMS 0, se_datagram_head = 0,
      se_datagram_count = 0, se_read_threshold = 0, se_write_threshold = 0,
      se_read_disabled = False, se_write_disabled = False,
      se_shared = replicate MAX_SOCKET_SHARED INVALID_HANDLE, se_shared_head = 0,
      se_shared_count = 0, se_active = False\<rparr>"

definition socket_activate ::
  "SocketEndpoint \<Rightarrow> HandleValue \<Rightarrow> HandleValue \<Rightarrow> u32 \<Rightarrow> SocketEndpoint" where
  "socket_activate e handle peer options =
     e\<lparr>se_handle := handle, se_peer := Some peer,
       se_rights := default_rights_for_object ObjectType.Socket,
       se_signals := CHANNEL_SIGNAL_WRITABLE, se_options := options, se_read_pos := 0, se_len := 0,
       se_datagram_head := 0, se_datagram_count := 0, se_read_threshold := 0,
       se_write_threshold := 0, se_read_disabled := False, se_write_disabled := False,
       se_shared_head := 0, se_shared_count := 0, se_active := True\<rparr>"

definition socket_clear :: "SocketEndpoint \<Rightarrow> SocketEndpoint" where
  "socket_clear e =
     e\<lparr>se_handle := INVALID_HANDLE, se_peer := None, se_rights := 0, se_signals := 0,
       se_options := 0, se_read_pos := 0, se_len := 0, se_datagram_head := 0,
       se_datagram_count := 0, se_read_threshold := 0, se_write_threshold := 0,
       se_read_disabled := False, se_write_disabled := False, se_shared_head := 0,
       se_shared_count := 0, se_active := False\<rparr>"

definition data_index :: "SocketEndpoint \<Rightarrow> nat \<Rightarrow> nat" where
  "data_index e offset = ring_index (se_read_pos e) offset SOCKET_SIZE"

definition push_byte :: "SocketEndpoint \<Rightarrow> u8 \<Rightarrow> SocketEndpoint \<times> unit ZxResult" where
  "push_byte e byte =
     (if se_len e \<ge> SOCKET_SIZE then (e, Inl ErrShouldWait)
      else (e\<lparr>se_data := (se_data e)[data_index e (se_len e) := byte], se_len := se_len e + 1\<rparr>,
            Inr ()))"

definition pop_byte :: "SocketEndpoint \<Rightarrow> SocketEndpoint \<times> u8 option" where
  "pop_byte e =
     (if se_len e = 0 then (e, None)
      else let byte = se_data e ! se_read_pos e;
               e = e\<lparr>se_read_pos := (se_read_pos e + 1) mod SOCKET_SIZE, se_len := se_len e - 1\<rparr>;
               e = (if se_len e = 0 then e\<lparr>se_read_pos := 0\<rparr> else e)
           in (e, Some byte))"

definition peek_byte :: "SocketEndpoint \<Rightarrow> nat \<Rightarrow> u8 option" where
  "peek_byte e offset =
     (if offset \<ge> se_len e then None else Some (se_data e ! data_index e offset))"

definition push_datagram_len :: "SocketEndpoint \<Rightarrow> nat \<Rightarrow> SocketEndpoint \<times> unit ZxResult" where
  "push_datagram_len e len =
     (if se_datagram_count e \<ge> MAX_SOCKET_DATAGRAMS then (e, Inl ErrShouldWait)
      else let index = ring_index (se_datagram_head e) (se_datagram_count e) MAX_SOCKET_DATAGRAMS in
        (e\<lparr>se_datagram_lens := (se_datagram_lens e)[index := len],
           se_datagram_count := se_datagram_count e + 1\<rparr>, Inr ()))"

definition front_datagram_len :: "SocketEndpoint \<Rightarrow> nat option" where
  "front_datagram_len e =
     (if se_datagram_count e = 0 then None
      else Some (se_datagram_lens e ! se_datagram_head e))"

definition pop_datagram_len :: "SocketEndpoint \<Rightarrow> SocketEndpoint \<times> nat option" where
  "pop_datagram_len e =
     (if se_datagram_count e = 0 then (e, None)
      else let len = se_datagram_lens e ! se_datagram_head e;
               e = e\<lparr>se_datagram_lens := (se_datagram_lens e)[se_datagram_head e := 0],
                     se_datagram_head := ring_index (se_datagram_head e) 1 MAX_SOCKET_DATAGRAMS,
                     se_datagram_count := se_datagram_count e - 1\<rparr>;
               e = (if se_datagram_count e = 0 then e\<lparr>se_datagram_head := 0\<rparr> else e)
           in (e, Some len))"

definition push_shared :: "SocketEndpoint \<Rightarrow> HandleValue \<Rightarrow> SocketEndpoint \<times> unit ZxResult" where
  "push_shared e handle =
     (if se_shared_count e \<ge> MAX_SOCKET_SHARED then (e, Inl ErrShouldWait)
      else let index = ring_index (se_shared_head e) (se_shared_count e) MAX_SOCKET_SHARED in
        (e\<lparr>se_shared := (se_shared e)[index := handle], se_shared_count := se_shared_count e + 1\<rparr>,
         Inr ()))"

definition pop_shared :: "SocketEndpoint \<Rightarrow> SocketEndpoint \<times> HandleValue option" where
  "pop_shared e =
     (if se_shared_count e = 0 then (e, None)
      else let handle = se_shared e ! se_shared_head e;
               e = e\<lparr>se_shared := (se_shared e)[se_shared_head e := INVALID_HANDLE],
                     se_shared_head := ring_index (se_shared_head e) 1 MAX_SOCKET_SHARED,
                     se_shared_count := se_shared_count e - 1\<rparr>;
               e = (if se_shared_count e = 0 then e\<lparr>se_shared_head := 0\<rparr> else e)
           in (e, Some handle))"

text \<open>The loop of \<open>remove_shared\<close>: offset, compacted array, number kept.\<close>

fun remove_shared_loop ::
  "SocketEndpoint \<Rightarrow> HandleValue \<Rightarrow> nat list \<Rightarrow> HandleValue list \<Rightarrow> nat \<Rightarrow> HandleValue list \<times> nat" where
  "remove_shared_loop e handle [] compact count = (compact, count)"
| "remove_shared_loop e handle (offset # offsets) compact count =
     (let index = ring_index (se_shared_head e) offset MAX_SOCKET_SHARED;
          shared = se_shared e ! index
      in if shared \<noteq> handle
         then remove_shared_loop e handle offsets (compact[count := shared]) (count + 1)
         else remove_shared_loop e handle offsets compact count)"

definition remove_shared :: "SocketEndpoint \<Rightarrow> HandleValue \<Rightarrow> SocketEndpoint" where
  "remove_shared e handle =
     (let (compact, count) = remove_shared_loop e handle [0..<se_shared_count e]
                               (replicate MAX_SOCKET_SHARED INVALID_HANDLE) 0
      in e\<lparr>se_shared := compact, se_shared_head := 0, se_shared_count := count\<rparr>)"

subsection \<open>The socket table\<close>

record SocketTable =
  st_endpoints :: "SocketEndpoint list"
  st_next_handle :: u32

definition socket_table_new :: SocketTable where
  "socket_table_new = \<lparr>st_endpoints = replicate MAX_SOCKET_OBJECTS socket_empty,
     st_next_handle = SOCKET_HANDLE_START\<rparr>"

text \<open>Writing through \<open>self.endpoints[index]\<close>.\<close>

definition at_endpoint :: "SocketTable \<Rightarrow> nat \<Rightarrow> (SocketEndpoint \<Rightarrow> SocketEndpoint) \<Rightarrow> SocketTable" where
  "at_endpoint t i f = t\<lparr>st_endpoints := (st_endpoints t)[i := f (st_endpoints t ! i)]\<rparr>"

definition socket_alloc_handle :: "SocketTable \<Rightarrow> SocketTable \<times> HandleValue option" where
  "socket_alloc_handle t =
     (if st_next_handle t = INVALID_HANDLE then (t, None)
      else let handle = st_next_handle t in
        case checked_add (st_next_handle t) 1 of
          None \<Rightarrow> (t, None)
        | Some n \<Rightarrow>
            (t\<lparr>st_next_handle := n\<rparr>,
             if handle_is_valid handle INVALID_HANDLE then Some handle else None))"

definition socket_index :: "SocketEndpoint list \<Rightarrow> HandleValue \<Rightarrow> nat option" where
  "socket_index es handle = position (\<lambda>e. se_active e \<and> se_handle e = handle) es"

definition socket_free_index :: "SocketEndpoint list \<Rightarrow> nat option" where
  "socket_free_index es = position (\<lambda>e. \<not> se_active e) es"

fun free_pair_loop :: "nat \<Rightarrow> nat option \<Rightarrow> SocketEndpoint list \<Rightarrow> (nat \<times> nat) option" where
  "free_pair_loop index first [] = None"
| "free_pair_loop index first (e # es) =
     (if se_active e then free_pair_loop (Suc index) first es
      else case first of
        Some f \<Rightarrow> Some (f, index)
      | None \<Rightarrow> free_pair_loop (Suc index) (Some index) es)"

definition free_pair_indices :: "SocketTable \<Rightarrow> (nat \<times> nat) option" where
  "free_pair_indices t = free_pair_loop 0 None (st_endpoints t)"

definition socket_active_count :: "SocketTable \<Rightarrow> nat" where
  "socket_active_count t = length (filter se_active (st_endpoints t))"

definition socket_contains :: "SocketTable \<Rightarrow> HandleValue \<Rightarrow> bool" where
  "socket_contains t handle \<longleftrightarrow> socket_index (st_endpoints t) handle \<noteq> None"

definition socket_create_pair ::
  "SocketTable \<Rightarrow> u32 \<Rightarrow> SocketTable \<times> (HandleValue \<times> HandleValue) ZxResult" where
  "socket_create_pair t options =
     (if \<not> options_valid options SOCKET_CREATE_MASK then (t, Inl ErrInvalidArgs)
      else if socket_active_count t + 2 > MAX_SOCKET_OBJECTS then (t, Inl ErrNoMemory)
      else case free_pair_indices t of
        None \<Rightarrow> (t, Inl ErrNoMemory)
      | Some (left_index, right_index) \<Rightarrow>
          (case socket_alloc_handle t of
             (t, None) \<Rightarrow> (t, Inl ErrNoMemory)
           | (t, Some left) \<Rightarrow>
               (case socket_alloc_handle t of
                  (t, None) \<Rightarrow> (t, Inl ErrNoMemory)
                | (t, Some right) \<Rightarrow>
                    let t = at_endpoint t left_index (\<lambda>e. socket_activate e left right options);
                        t = at_endpoint t right_index (\<lambda>e. socket_activate e right left options)
                    in (t, Inr (left, right)))))"

definition close_peer :: "SocketEndpoint \<Rightarrow> SocketEndpoint" where
  "close_peer e = e\<lparr>se_signals := (se_signals e AND NOT CHANNEL_SIGNAL_WRITABLE)
                       OR CHANNEL_SIGNAL_PEER_CLOSED, se_peer := None\<rparr>"

definition unlink_peer :: "SocketTable \<Rightarrow> nat \<Rightarrow> SocketTable" where
  "unlink_peer t index =
     (case se_peer (st_endpoints t ! index) of
        None \<Rightarrow> t
      | Some peer \<Rightarrow>
          (case socket_index (st_endpoints t) peer of
             None \<Rightarrow> t
           | Some peer_index \<Rightarrow> at_endpoint t peer_index close_peer))"

definition forget_shared :: "HandleValue \<Rightarrow> SocketEndpoint \<Rightarrow> SocketEndpoint" where
  "forget_shared handle e =
     (if se_active e then
        let e = remove_shared e handle in
        if se_shared_count e = 0 then e\<lparr>se_signals := se_signals e AND NOT SOCKET_SIGNAL_SHARE\<rparr>
        else e
      else e)"

definition socket_close :: "SocketTable \<Rightarrow> HandleValue \<Rightarrow> SocketTable \<times> bool" where
  "socket_close t handle =
     (case socket_index (st_endpoints t) handle of
        None \<Rightarrow> (t, False)
      | Some index \<Rightarrow>
          let t = unlink_peer t index;
              t = t\<lparr>st_endpoints := map (forget_shared handle) (st_endpoints t)\<rparr>
          in (at_endpoint t index socket_clear, True))"

definition socket_signals :: "SocketTable \<Rightarrow> HandleValue \<Rightarrow> u32 option" where
  "socket_signals t handle =
     map_option (\<lambda>i. se_signals (st_endpoints t ! i)) (socket_index (st_endpoints t) handle)"

definition socket_rights :: "SocketTable \<Rightarrow> HandleValue \<Rightarrow> u32 option" where
  "socket_rights t handle =
     map_option (\<lambda>i. se_rights (st_endpoints t ! i)) (socket_index (st_endpoints t) handle)"

definition socket_has_rights :: "SocketTable \<Rightarrow> HandleValue \<Rightarrow> u32 \<Rightarrow> bool" where
  "socket_has_rights t handle required =
     (case socket_rights t handle of Some rights \<Rightarrow> rights_contain rights required | None \<Rightarrow> False)"

definition socket_update_signals ::
  "SocketTable \<Rightarrow> HandleValue \<Rightarrow> u32 \<Rightarrow> u32 \<Rightarrow> SocketTable \<times> u32 option" where
  "socket_update_signals t handle clear_mask set_mask =
     (case socket_index (st_endpoints t) handle of
        None \<Rightarrow> (t, None)
      | Some index \<Rightarrow>
          let t = at_endpoint t index
                    (\<lambda>e. e\<lparr>se_signals := signal_update (se_signals e) clear_mask set_mask\<rparr>)
          in (t, Some (se_signals (st_endpoints t ! index))))"

definition socket_signal_peer ::
  "SocketTable \<Rightarrow> HandleValue \<Rightarrow> u32 \<Rightarrow> u32 \<Rightarrow> SocketTable \<times> u32 ZxResult" where
  "socket_signal_peer t handle clear_mask set_mask =
     (case socket_index (st_endpoints t) handle of
        None \<Rightarrow> (t, Inl ErrNotFound)
      | Some index \<Rightarrow>
          if \<not> socket_has_rights t handle (Rights_as_u32 R_SignalPeer) then (t, Inl ErrAccessDenied)
          else case se_peer (st_endpoints t ! index) of
            None \<Rightarrow> (t, Inl ErrPeerClosed)
          | Some peer \<Rightarrow>
              (case socket_update_signals t peer clear_mask set_mask of
                 (t, Some s) \<Rightarrow> (t, Inr s)
               | (t, None) \<Rightarrow> (t, Inl ErrPeerClosed)))"

definition socket_property :: "SocketTable \<Rightarrow> HandleValue \<Rightarrow> u32 \<Rightarrow> u64 option" where
  "socket_property t handle prop_id =
     (if \<not> socket_has_rights t handle (Rights_as_u32 R_GetProperty) then None
      else case socket_index (st_endpoints t) handle of
        None \<Rightarrow> None
      | Some index \<Rightarrow>
          if prop_id = SOCKET_PROPERTY_RX_THRESHOLD
          then Some (of_nat (se_read_threshold (st_endpoints t ! index)))
          else if prop_id = SOCKET_PROPERTY_TX_THRESHOLD
          then Some (of_nat (se_write_threshold (st_endpoints t ! index)))
          else None)"

definition refresh_read_signals :: "SocketEndpoint \<Rightarrow> SocketEndpoint" where
  "refresh_read_signals e =
     (let e = e\<lparr>se_signals := logic_refresh_read_signals (se_signals e) (se_len e)
                 (se_read_threshold e) CHANNEL_SIGNAL_READABLE SOCKET_SIGNAL_READ_THRESHOLD\<rparr>
      in if se_options e AND SOCKET_DATAGRAM \<noteq> 0 \<and> se_datagram_count e \<noteq> 0
         then e\<lparr>se_signals := se_signals e OR CHANNEL_SIGNAL_READABLE\<rparr> else e)"

definition refresh_write_signals :: "SocketTable \<Rightarrow> nat \<Rightarrow> SocketTable" where
  "refresh_write_signals t writer_index =
     (let unwritable = at_endpoint t writer_index (\<lambda>e. e\<lparr>se_signals :=
                 se_signals e AND NOT CHANNEL_SIGNAL_WRITABLE AND NOT SOCKET_SIGNAL_WRITE_THRESHOLD\<rparr>)
      in case se_peer (st_endpoints t ! writer_index) of
        None \<Rightarrow> unwritable
      | Some peer \<Rightarrow>
          (case socket_index (st_endpoints t) peer of
             None \<Rightarrow> unwritable
           | Some peer_index \<Rightarrow>
               let remaining = remaining_capacity (se_len (st_endpoints t ! peer_index)) SOCKET_SIZE
               in at_endpoint t writer_index (\<lambda>e. e\<lparr>se_signals :=
                    logic_refresh_write_signals (se_signals e) (se_write_disabled e) remaining
                      (se_write_threshold e) CHANNEL_SIGNAL_WRITABLE SOCKET_SIGNAL_WRITE_THRESHOLD\<rparr>)))"

definition socket_set_property ::
  "SocketTable \<Rightarrow> HandleValue \<Rightarrow> u32 \<Rightarrow> u64 \<Rightarrow> SocketTable \<times> bool ZxResult" where
  "socket_set_property t handle prop_id v =
     (case socket_index (st_endpoints t) handle of
        None \<Rightarrow> (t, Inr False)
      | Some index \<Rightarrow>
          if \<not> socket_has_rights t handle (Rights_as_u32 R_SetProperty) then (t, Inl ErrAccessDenied)
          else if prop_id = SOCKET_PROPERTY_RX_THRESHOLD then
            (if unat v > SOCKET_SIZE then (t, Inl ErrInvalidArgs)
             else (at_endpoint t index (\<lambda>e. refresh_read_signals (e\<lparr>se_read_threshold := unat v\<rparr>)),
                   Inr True))
          else if prop_id = SOCKET_PROPERTY_TX_THRESHOLD then
            (if unat v > SOCKET_SIZE then (t, Inl ErrInvalidArgs)
             else (refresh_write_signals
                     (at_endpoint t index (\<lambda>e. e\<lparr>se_write_threshold := unat v\<rparr>)) index, Inr True))
          else (t, Inr False))"

subsection \<open>Writing and reading\<close>

fun push_bytes :: "SocketEndpoint \<Rightarrow> u8 list \<Rightarrow> SocketEndpoint \<times> unit ZxResult" where
  "push_bytes e [] = (e, Inr ())"
| "push_bytes e (b # bs) =
     (case push_byte e b of (e, Inl err) \<Rightarrow> (e, Inl err) | (e, Inr _) \<Rightarrow> push_bytes e bs)"

definition push_packet :: "SocketEndpoint \<Rightarrow> bool \<Rightarrow> u8 list \<Rightarrow> SocketEndpoint \<times> unit ZxResult" where
  "push_packet e datagram bytes =
     (case push_bytes e bytes of
        (e, Inl err) \<Rightarrow> (e, Inl err)
      | (e, Inr _) \<Rightarrow> if datagram then push_datagram_len e (length bytes) else (e, Inr ()))"

text \<open>\<open>write\<close> after its checks of the two endpoints: how much fits, the transfer, the signals.\<close>

definition socket_transfer :: "SocketTable \<Rightarrow> nat \<Rightarrow> nat \<Rightarrow> u8 list \<Rightarrow> SocketTable \<times> nat ZxResult" where
  "socket_transfer t writer_index receiver_index bytes =
     (let datagram = (se_options (st_endpoints t ! writer_index) AND SOCKET_DATAGRAM \<noteq> 0);
          remaining = remaining_capacity (se_len (st_endpoints t ! receiver_index)) SOCKET_SIZE
      in if remaining = 0 \<and> (\<not> datagram \<or> bytes \<noteq> []) then (t, Inl ErrShouldWait)
         else if datagram \<and> length bytes > SOCKET_SIZE then (t, Inl ErrOutOfRange)
         else if datagram \<and> length bytes > remaining then (t, Inl ErrShouldWait)
         else if datagram \<and> se_datagram_count (st_endpoints t ! receiver_index)
                               \<ge> MAX_SOCKET_DATAGRAMS then (t, Inl ErrShouldWait)
         else
           let actual = (if datagram then length bytes else min_count (length bytes) remaining)
           in case push_packet (st_endpoints t ! receiver_index) datagram (take actual bytes) of
                (e, Inl err) \<Rightarrow> (at_endpoint t receiver_index (\<lambda>_. e), Inl err)
              | (e, Inr _) \<Rightarrow>
                  (refresh_write_signals
                     (at_endpoint (at_endpoint t receiver_index (\<lambda>_. e)) receiver_index
                        refresh_read_signals) writer_index,
                   Inr actual))"

definition socket_write :: "SocketTable \<Rightarrow> HandleValue \<Rightarrow> u8 list \<Rightarrow> SocketTable \<times> nat ZxResult" where
  "socket_write t handle bytes =
     (case socket_index (st_endpoints t) handle of
        None \<Rightarrow> (t, Inl ErrNotFound)
      | Some writer_index \<Rightarrow>
          if \<not> socket_has_rights t handle (Rights_as_u32 R_Write) then (t, Inl ErrAccessDenied)
          else if se_write_disabled (st_endpoints t ! writer_index) then (t, Inl ErrBadState)
          else case se_peer (st_endpoints t ! writer_index) of
            None \<Rightarrow> (t, Inl ErrPeerClosed)
          | Some peer \<Rightarrow>
              (case socket_index (st_endpoints t) peer of
                 None \<Rightarrow> (t, Inl ErrPeerClosed)
               | Some receiver_index \<Rightarrow>
                   if se_read_disabled (st_endpoints t ! receiver_index) then (t, Inl ErrBadState)
                   else socket_transfer t writer_index receiver_index bytes))"

text \<open>
  The copying loops write into the caller's \<open>out\<close> slice, which is threaded; an error leaves the
  bytes copied so far.
\<close>

fun peek_loop :: "SocketEndpoint \<Rightarrow> nat \<Rightarrow> nat \<Rightarrow> u8 list \<Rightarrow> u8 list \<times> unit ZxResult" where
  "peek_loop e offset 0 out = (out, Inr ())"
| "peek_loop e offset (Suc n) out =
     (case peek_byte e offset of
        None \<Rightarrow> (out, Inl ErrInternal)
      | Some b \<Rightarrow> peek_loop e (Suc offset) n (out[offset := b]))"

fun pop_loop ::
  "SocketEndpoint \<Rightarrow> nat \<Rightarrow> nat \<Rightarrow> u8 list \<Rightarrow> SocketEndpoint \<times> u8 list \<times> unit ZxResult" where
  "pop_loop e offset 0 out = (e, out, Inr ())"
| "pop_loop e offset (Suc n) out =
     (case pop_byte e of
        (e, None) \<Rightarrow> (e, out, Inl ErrInternal)
      | (e, Some b) \<Rightarrow> pop_loop e (Suc offset) n (out[offset := b]))"

fun drop_loop :: "SocketEndpoint \<Rightarrow> nat \<Rightarrow> SocketEndpoint \<times> unit ZxResult" where
  "drop_loop e 0 = (e, Inr ())"
| "drop_loop e (Suc n) =
     (case pop_byte e of
        (e, None) \<Rightarrow> (e, Inl ErrInternal)
      | (e, Some _) \<Rightarrow> drop_loop e n)"

definition read_datagram ::
  "SocketEndpoint \<Rightarrow> bool \<Rightarrow> u8 list \<Rightarrow> SocketEndpoint \<times> u8 list \<times> nat ZxResult" where
  "read_datagram e peek out =
     (case front_datagram_len e of
        None \<Rightarrow> (e, out, Inl ErrInternal)
      | Some datagram_len \<Rightarrow>
          let n = min_count (length out) datagram_len in
          case peek_loop e 0 n out of
            (out, Inl err) \<Rightarrow> (e, out, Inl err)
          | (out, Inr _) \<Rightarrow>
              if peek then (e, out, Inr n)
              else case pop_datagram_len e of
                (e, None) \<Rightarrow> (e, out, Inl ErrInternal)
              | (e, Some _) \<Rightarrow>
                  (case drop_loop e datagram_len of
                     (e, Inl err) \<Rightarrow> (e, out, Inl err)
                   | (e, Inr _) \<Rightarrow> (e, out, Inr n)))"

definition read_stream ::
  "SocketEndpoint \<Rightarrow> bool \<Rightarrow> u8 list \<Rightarrow> SocketEndpoint \<times> u8 list \<times> nat ZxResult" where
  "read_stream e peek out =
     (let n = min_count (length out) (se_len e) in
      if peek then
        (case peek_loop e 0 n out of
           (out, Inl err) \<Rightarrow> (e, out, Inl err)
         | (out, Inr _) \<Rightarrow> (e, out, Inr n))
      else
        (case pop_loop e 0 n out of
           (e, out, Inl err) \<Rightarrow> (e, out, Inl err)
         | (e, out, Inr _) \<Rightarrow> (e, out, Inr n)))"

definition after_read :: "SocketTable \<Rightarrow> nat \<Rightarrow> bool \<Rightarrow> SocketTable" where
  "after_read t index was_full =
     (let t = at_endpoint t index refresh_read_signals in
      case se_peer (st_endpoints t ! index) of
        None \<Rightarrow> t
      | Some peer \<Rightarrow>
          (case socket_index (st_endpoints t) peer of
             None \<Rightarrow> t
           | Some peer_index \<Rightarrow>
               let t = (if was_full then at_endpoint t peer_index (\<lambda>e. e\<lparr>se_signals :=
                          se_signals e OR CHANNEL_SIGNAL_WRITABLE\<rparr>) else t)
               in refresh_write_signals t peer_index))"

text \<open>\<open>read\<close> once there is something to read.\<close>

definition socket_receive ::
  "SocketTable \<Rightarrow> nat \<Rightarrow> bool \<Rightarrow> bool \<Rightarrow> u8 list \<Rightarrow> SocketTable \<times> u8 list \<times> nat ZxResult" where
  "socket_receive t index datagram peek out =
     (let e = st_endpoints t ! index; was_full = (se_len e = SOCKET_SIZE)
      in case (if datagram then read_datagram e peek out else read_stream e peek out) of
           (e, out, Inl err) \<Rightarrow> (at_endpoint t index (\<lambda>_. e), out, Inl err)
         | (e, out, Inr actual) \<Rightarrow>
             let t = at_endpoint t index (\<lambda>_. e) in
             (if \<not> peek \<and> (actual > 0 \<or> datagram) then after_read t index was_full else t,
              out, Inr actual))"

definition socket_read ::
  "SocketTable \<Rightarrow> HandleValue \<Rightarrow> u32 \<Rightarrow> u8 list \<Rightarrow> SocketTable \<times> u8 list \<times> nat ZxResult" where
  "socket_read t handle options out =
     (if \<not> options_valid options SOCKET_READ_OPTIONS_MASK then (t, out, Inl ErrInvalidArgs)
      else case socket_index (st_endpoints t) handle of
        None \<Rightarrow> (t, out, Inl ErrNotFound)
      | Some index \<Rightarrow>
          if \<not> socket_has_rights t handle (Rights_as_u32 R_Read) then (t, out, Inl ErrAccessDenied)
          else
            let e = st_endpoints t ! index;
                datagram = (se_options e AND SOCKET_DATAGRAM \<noteq> 0);
                unavailable = (if datagram then se_datagram_count e = 0 else se_len e = 0)
            in if unavailable then
              (t, out, Inl (if se_peer e = None then ErrPeerClosed
                            else if se_read_disabled e then ErrBadState else ErrShouldWait))
            else socket_receive t index datagram (options AND SOCKET_PEEK \<noteq> 0) out)"

subsection \<open>Shutdown, sharing, information\<close>

definition disable_read :: "SocketEndpoint \<Rightarrow> SocketEndpoint" where
  "disable_read e = e\<lparr>se_read_disabled := True,
     se_signals := se_signals e OR SOCKET_SIGNAL_PEER_WRITE_DISABLED\<rparr>"

definition disable_write :: "SocketEndpoint \<Rightarrow> SocketEndpoint" where
  "disable_write e = e\<lparr>se_write_disabled := True,
     se_signals := (se_signals e AND NOT CHANNEL_SIGNAL_WRITABLE) OR SOCKET_SIGNAL_WRITE_DISABLED\<rparr>"

definition shutdown_peer :: "SocketTable \<Rightarrow> nat \<Rightarrow> bool \<Rightarrow> bool \<Rightarrow> SocketTable" where
  "shutdown_peer t index rd wr =
     (case se_peer (st_endpoints t ! index) of
        None \<Rightarrow> t
      | Some peer \<Rightarrow>
          (case socket_index (st_endpoints t) peer of
             None \<Rightarrow> t
           | Some peer_index \<Rightarrow>
               let t = (if rd then at_endpoint t peer_index disable_write else t);
                   t = (if wr then at_endpoint t peer_index disable_read else t)
               in refresh_write_signals t peer_index))"

definition socket_shutdown :: "SocketTable \<Rightarrow> HandleValue \<Rightarrow> u32 \<Rightarrow> SocketTable \<times> unit ZxResult" where
  "socket_shutdown t handle options =
     (case socket_index (st_endpoints t) handle of
        None \<Rightarrow> (t, Inl ErrNotFound)
      | Some index \<Rightarrow>
          if \<not> socket_has_rights t handle (Rights_as_u32 R_Write) then (t, Inl ErrAccessDenied)
          else
            let options = mask_options options SOCKET_SHUTDOWN_MASK;
                rd = (options AND SOCKET_SHUTDOWN_READ \<noteq> 0);
                wr = (options AND SOCKET_SHUTDOWN_WRITE \<noteq> 0)
            in if \<not> rd \<and> \<not> wr then (t, Inr ())
            else
              let t = (if rd then at_endpoint t index disable_read else t);
                  t = (if wr then at_endpoint t index disable_write else t);
                  t = shutdown_peer t index rd wr
              in (refresh_write_signals t index, Inr ()))"

definition socket_share ::
  "SocketTable \<Rightarrow> HandleValue \<Rightarrow> HandleValue \<Rightarrow> SocketTable \<times> unit ZxResult" where
  "socket_share t handle shared =
     (case socket_index (st_endpoints t) handle of
        None \<Rightarrow> (t, Inl ErrNotFound)
      | Some index \<Rightarrow>
          if \<not> socket_has_rights t handle (Rights_as_u32 R_Transfer) then (t, Inl ErrAccessDenied)
          else if socket_index (st_endpoints t) shared = None then (t, Inl ErrNotFound)
          else case se_peer (st_endpoints t ! index) of
            None \<Rightarrow> (t, Inl ErrPeerClosed)
          | Some peer \<Rightarrow>
              (case socket_index (st_endpoints t) peer of
                 None \<Rightarrow> (t, Inl ErrPeerClosed)
               | Some peer_index \<Rightarrow>
                   (case push_shared (st_endpoints t ! peer_index) shared of
                      (e, Inl err) \<Rightarrow> (at_endpoint t peer_index (\<lambda>_. e), Inl err)
                    | (e, Inr _) \<Rightarrow>
                        (at_endpoint t peer_index (\<lambda>_. e\<lparr>se_signals :=
                           se_signals e OR SOCKET_SIGNAL_SHARE\<rparr>), Inr ()))))"

definition socket_accept :: "SocketTable \<Rightarrow> HandleValue \<Rightarrow> SocketTable \<times> HandleValue ZxResult" where
  "socket_accept t handle =
     (case socket_index (st_endpoints t) handle of
        None \<Rightarrow> (t, Inl ErrNotFound)
      | Some index \<Rightarrow>
          if \<not> socket_has_rights t handle (Rights_as_u32 R_Transfer) then (t, Inl ErrAccessDenied)
          else case pop_shared (st_endpoints t ! index) of
            (e, None) \<Rightarrow> (at_endpoint t index (\<lambda>_. e), Inl ErrShouldWait)
          | (e, Some shared) \<Rightarrow>
              (at_endpoint t index (\<lambda>_. if se_shared_count e = 0
                 then e\<lparr>se_signals := se_signals e AND NOT SOCKET_SIGNAL_SHARE\<rparr> else e),
               Inr shared))"

definition socket_info :: "SocketTable \<Rightarrow> HandleValue \<Rightarrow> SocketInfo option" where
  "socket_info t handle =
     (if \<not> socket_has_rights t handle (Rights_as_u32 R_Inspect) then None
      else case socket_index (st_endpoints t) handle of
        None \<Rightarrow> None
      | Some index \<Rightarrow>
          let e = st_endpoints t ! index;
              rx_size = se_len e;
              rx_available = (if se_options e AND SOCKET_DATAGRAM \<noteq> 0
                              then case front_datagram_len e of Some n \<Rightarrow> n | None \<Rightarrow> 0
                              else rx_size);
              (tx_size, tx_max) =
                (case Option.bind (se_peer e) (socket_index (st_endpoints t)) of
                   Some peer_index \<Rightarrow>
                     (of_nat (se_len (st_endpoints t ! peer_index)), of_nat SOCKET_SIZE)
                 | None \<Rightarrow> (0, 0))
          in Some \<lparr>si_options = se_options e, si_padding1 = 0, si_rx_buf_max = of_nat SOCKET_SIZE,
               si_rx_buf_size = of_nat rx_size, si_rx_buf_available = of_nat rx_available,
               si_tx_buf_max = tx_max, si_tx_buf_size = tx_size\<rparr>)"

subsection \<open>The three rings of an endpoint\<close>

definition ep_ok :: "SocketEndpoint \<Rightarrow> bool" where
  "ep_ok e \<longleftrightarrow> length (se_data e) = SOCKET_SIZE \<and> se_read_pos e < SOCKET_SIZE
     \<and> se_len e \<le> SOCKET_SIZE
     \<and> length (se_datagram_lens e) = MAX_SOCKET_DATAGRAMS
     \<and> se_datagram_head e < MAX_SOCKET_DATAGRAMS \<and> se_datagram_count e \<le> MAX_SOCKET_DATAGRAMS
     \<and> length (se_shared e) = MAX_SOCKET_SHARED
     \<and> se_shared_head e < MAX_SOCKET_SHARED \<and> se_shared_count e \<le> MAX_SOCKET_SHARED"

definition se_bytes :: "SocketEndpoint \<Rightarrow> u8 list" where
  "se_bytes e = ring_list (se_data e) (se_read_pos e) (se_len e)"

definition se_lens :: "SocketEndpoint \<Rightarrow> nat list" where
  "se_lens e = ring_list (se_datagram_lens e) (se_datagram_head e) (se_datagram_count e)"

definition se_shares :: "SocketEndpoint \<Rightarrow> HandleValue list" where
  "se_shares e = ring_list (se_shared e) (se_shared_head e) (se_shared_count e)"

lemma socket_sizes [simp]:
  "0 < SOCKET_SIZE" "0 < MAX_SOCKET_DATAGRAMS" "0 < MAX_SOCKET_SHARED"
  by (simp_all add: SOCKET_SIZE_def MAX_SOCKET_DATAGRAMS_def MAX_SOCKET_SHARED_def)

lemma length_se_bytes [simp]: "length (se_bytes e) = se_len e"
  and length_se_lens [simp]: "length (se_lens e) = se_datagram_count e"
  and length_se_shares [simp]: "length (se_shares e) = se_shared_count e"
  by (simp_all add: se_bytes_def se_lens_def se_shares_def)

lemma ring_empty_iff [simp]:
  "se_bytes e = [] \<longleftrightarrow> se_len e = 0" "se_lens e = [] \<longleftrightarrow> se_datagram_count e = 0"
  "se_shares e = [] \<longleftrightarrow> se_shared_count e = 0"
  by (metis length_se_bytes length_0_conv, metis length_se_lens length_0_conv,
      metis length_se_shares length_0_conv)

interpretation byte_ring: bounded_queue ep_ok se_bytes SOCKET_SIZE push_byte pop_byte
proof
  fix e x and xs :: "u8 list"
  assume ok: "ep_ok e"
  show "length (se_bytes e) \<le> SOCKET_SIZE" using ok by (simp add: ep_ok_def)
  show "\<exists>e'. push_byte e x = (e', Inr ()) \<and> ep_ok e' \<and> se_bytes e' = se_bytes e @ [x]"
    if "length (se_bytes e) < SOCKET_SIZE"
    using that ok ring_list_push [of "se_read_pos e" "se_data e" "se_len e" x]
    by (simp add: push_byte_def ep_ok_def se_bytes_def data_index_def)
  show "push_byte e x = (e, Inl ErrShouldWait)" if "SOCKET_SIZE \<le> length (se_bytes e)"
    using that by (simp add: push_byte_def)
  show "pop_byte e = (e, None)" if "se_bytes e = []"
    using that by (simp add: pop_byte_def)
  show "\<exists>e'. pop_byte e = (e', Some x) \<and> ep_ok e' \<and> se_bytes e' = xs" if "se_bytes e = x # xs"
    using that ok ring_list_pop [of "se_read_pos e" "se_data e" "se_len e"]
    by (cases "se_len e")
      (auto simp: pop_byte_def ep_ok_def se_bytes_def Let_def ring_index_mod)
qed

interpretation datagram_ring:
  bounded_queue ep_ok se_lens MAX_SOCKET_DATAGRAMS push_datagram_len pop_datagram_len
proof
  fix e x and xs :: "nat list"
  assume ok: "ep_ok e"
  show "length (se_lens e) \<le> MAX_SOCKET_DATAGRAMS" using ok by (simp add: ep_ok_def)
  show "\<exists>e'. push_datagram_len e x = (e', Inr ()) \<and> ep_ok e' \<and> se_lens e' = se_lens e @ [x]"
    if "length (se_lens e) < MAX_SOCKET_DATAGRAMS"
    using that ok ring_list_push [of "se_datagram_head e" "se_datagram_lens e" "se_datagram_count e" x]
    by (simp add: push_datagram_len_def ep_ok_def se_lens_def Let_def)
  show "push_datagram_len e x = (e, Inl ErrShouldWait)" if "MAX_SOCKET_DATAGRAMS \<le> length (se_lens e)"
    using that by (simp add: push_datagram_len_def)
  show "pop_datagram_len e = (e, None)" if "se_lens e = []"
    using that by (simp add: pop_datagram_len_def)
  show "\<exists>e'. pop_datagram_len e = (e', Some x) \<and> ep_ok e' \<and> se_lens e' = xs"
    if "se_lens e = x # xs"
    using that ok
      ring_list_pop [of "se_datagram_head e" "se_datagram_lens e" "se_datagram_count e"]
      ring_list_clear [of "se_datagram_head e" "se_datagram_lens e" "se_datagram_count e" 0]
    by (cases "se_datagram_count e")
      (auto simp: pop_datagram_len_def ep_ok_def se_lens_def Let_def)
qed

interpretation share_ring: bounded_queue ep_ok se_shares MAX_SOCKET_SHARED push_shared pop_shared
proof
  fix e x and xs :: "HandleValue list"
  assume ok: "ep_ok e"
  show "length (se_shares e) \<le> MAX_SOCKET_SHARED" using ok by (simp add: ep_ok_def)
  show "\<exists>e'. push_shared e x = (e', Inr ()) \<and> ep_ok e' \<and> se_shares e' = se_shares e @ [x]"
    if "length (se_shares e) < MAX_SOCKET_SHARED"
    using that ok ring_list_push [of "se_shared_head e" "se_shared e" "se_shared_count e" x]
    by (simp add: push_shared_def ep_ok_def se_shares_def Let_def)
  show "push_shared e x = (e, Inl ErrShouldWait)" if "MAX_SOCKET_SHARED \<le> length (se_shares e)"
    using that by (simp add: push_shared_def)
  show "pop_shared e = (e, None)" if "se_shares e = []"
    using that by (simp add: pop_shared_def)
  show "\<exists>e'. pop_shared e = (e', Some x) \<and> ep_ok e' \<and> se_shares e' = xs" if "se_shares e = x # xs"
    using that ok ring_list_pop [of "se_shared_head e" "se_shared e" "se_shared_count e"]
      ring_list_clear [of "se_shared_head e" "se_shared e" "se_shared_count e" INVALID_HANDLE]
    by (cases "se_shared_count e")
      (auto simp: pop_shared_def ep_ok_def se_shares_def Let_def)
qed

subsection \<open>The loops\<close>

definition bytes_frame :: "SocketEndpoint \<Rightarrow> SocketEndpoint \<Rightarrow> bool" where
  "bytes_frame e e' \<longleftrightarrow> (\<exists>d p n. e' = e\<lparr>se_data := d, se_read_pos := p, se_len := n\<rparr>)"

lemma bytes_frame_refl [simp]: "bytes_frame e e"
  unfolding bytes_frame_def
  by (rule exI [of _ "se_data e"], rule exI [of _ "se_read_pos e"], rule exI [of _ "se_len e"]) simp

lemma bytes_frame_trans: "bytes_frame a b \<Longrightarrow> bytes_frame b c \<Longrightarrow> bytes_frame a c"
  unfolding bytes_frame_def by (elim exE) (simp, blast)

lemma bytes_frame_sels:
  assumes "bytes_frame e e'"
  shows "se_handle e' = se_handle e" "se_peer e' = se_peer e" "se_rights e' = se_rights e"
    "se_signals e' = se_signals e" "se_options e' = se_options e" "se_active e' = se_active e"
    "se_lens e' = se_lens e" "se_shares e' = se_shares e"
    "se_read_threshold e' = se_read_threshold e" "se_write_threshold e' = se_write_threshold e"
    "se_read_disabled e' = se_read_disabled e" "se_write_disabled e' = se_write_disabled e"
    "se_datagram_count e' = se_datagram_count e" "se_shared_count e' = se_shared_count e"
  using assms by (auto simp: bytes_frame_def se_lens_def se_shares_def)

lemma push_byte_frame: "push_byte e b = (e', r) \<Longrightarrow> bytes_frame e e'"
proof -
  assume p: "push_byte e b = (e', r)"
  then have "e' = e \<or> e' = e\<lparr>se_data := (se_data e)[data_index e (se_len e) := b],
      se_read_pos := se_read_pos e, se_len := se_len e + 1\<rparr>"
    by (auto simp: push_byte_def split: if_splits)
  then show ?thesis unfolding bytes_frame_def using bytes_frame_refl [unfolded bytes_frame_def] by blast
qed

lemma pop_byte_frame: "pop_byte e = (e', r) \<Longrightarrow> bytes_frame e e'"
proof -
  assume p: "pop_byte e = (e', r)"
  let ?q = "if se_len e - 1 = 0 then 0 else (se_read_pos e + 1) mod SOCKET_SIZE"
  have "e' = e \<or> e' = e\<lparr>se_data := se_data e, se_read_pos := ?q, se_len := se_len e - 1\<rparr>"
    using p by (cases "se_len e") (auto simp: pop_byte_def Let_def)
  then show ?thesis unfolding bytes_frame_def using bytes_frame_refl [unfolded bytes_frame_def] by blast
qed

lemma push_bytes_ok:
  "ep_ok e \<Longrightarrow> se_len e + length bs \<le> SOCKET_SIZE \<Longrightarrow>
     \<exists>e'. push_bytes e bs = (e', Inr ()) \<and> ep_ok e' \<and> se_bytes e' = se_bytes e @ bs \<and> bytes_frame e e'"
proof (induction bs arbitrary: e)
  case (Cons b bs)
  from byte_ring.push_ok [OF Cons.prems(1), of b] Cons.prems(2) obtain e1
    where e1: "push_byte e b = (e1, Inr ())" "ep_ok e1" "se_bytes e1 = se_bytes e @ [b]" by auto
  have "se_len e1 = se_len e + 1" using arg_cong [OF e1(3), of length] by simp
  with Cons.IH [OF e1(2)] Cons.prems(2) obtain e2 where
    e2: "push_bytes e1 bs = (e2, Inr ())" "ep_ok e2" "se_bytes e2 = se_bytes e1 @ bs" "bytes_frame e1 e2"
    by auto
  with e1 bytes_frame_trans [OF push_byte_frame [OF e1(1)] e2(4)] show ?case by simp
qed simp

lemma peek_byte_nth:
  "ep_ok e \<Longrightarrow> peek_byte e k = (if k < se_len e then Some (se_bytes e ! k) else None)"
  by (simp add: peek_byte_def se_bytes_def ring_list_nth data_index_def ep_ok_def)

lemma peek_loop_ok:
  "ep_ok e \<Longrightarrow> off + n \<le> se_len e \<Longrightarrow> off + n \<le> length out \<Longrightarrow>
     peek_loop e off n out = (take off out @ take n (drop off (se_bytes e)) @ drop (off + n) out, Inr ())"
proof (induction n arbitrary: off out)
  case (Suc n)
  let ?b = "se_bytes e ! off"
  have b: "peek_byte e off = Some ?b" using Suc.prems by (simp add: peek_byte_nth)
  have "take (Suc off) (out[off := ?b]) = take off out @ [?b]"
    using Suc.prems(3) by (simp add: take_Suc_conv_app_nth)
  moreover have "take (Suc n) (drop off (se_bytes e)) = ?b # take n (drop (Suc off) (se_bytes e))"
    using Suc.prems(2) by (simp add: Cons_nth_drop_Suc [symmetric])
  ultimately show ?case using Suc.IH [of "Suc off" "out[off := ?b]"] Suc.prems b by simp
qed simp

lemma pop_loop_ok:
  "ep_ok e \<Longrightarrow> n \<le> se_len e \<Longrightarrow> off + n \<le> length out \<Longrightarrow>
     \<exists>e'. pop_loop e off n out = (e', take off out @ take n (se_bytes e) @ drop (off + n) out, Inr ())
       \<and> ep_ok e' \<and> se_bytes e' = drop n (se_bytes e) \<and> bytes_frame e e'"
proof (induction n arbitrary: e off out)
  case (Suc n)
  then obtain b bs where bs: "se_bytes e = b # bs"
    by (cases "se_bytes e") auto
  from byte_ring.pop_ok [OF Suc.prems(1) bs] obtain e1
    where e1: "pop_byte e = (e1, Some b)" "ep_ok e1" "se_bytes e1 = bs" by auto
  have "se_len e = Suc (length bs)" "se_len e1 = length bs"
    using arg_cong [OF bs, of length] arg_cong [OF e1(3), of length] by simp_all
  then have "n \<le> se_len e1" using Suc.prems(2) by simp
  from Suc.IH [OF e1(2) this, of "Suc off" "out[off := b]"] Suc.prems(3) obtain e2 where
    e2: "pop_loop e1 (Suc off) n (out[off := b]) =
        (e2, take (Suc off) (out[off := b]) @ take n bs @ drop (Suc off + n) (out[off := b]), Inr ())"
      "ep_ok e2" "se_bytes e2 = drop n bs" "bytes_frame e1 e2"
    using e1(3) by auto
  moreover have "take (Suc off) (out[off := b]) = take off out @ [b]"
    using Suc.prems(3) by (simp add: take_Suc_conv_app_nth)
  ultimately show ?case
    using e1(1) bs bytes_frame_trans [OF pop_byte_frame [OF e1(1)] e2(4)] by simp
qed simp

lemma drop_loop_ok:
  "ep_ok e \<Longrightarrow> n \<le> se_len e \<Longrightarrow>
     \<exists>e'. drop_loop e n = (e', Inr ()) \<and> ep_ok e' \<and> se_bytes e' = drop n (se_bytes e) \<and> bytes_frame e e'"
proof (induction n arbitrary: e)
  case (Suc n)
  then obtain b bs where bs: "se_bytes e = b # bs"
    by (cases "se_bytes e") auto
  from byte_ring.pop_ok [OF Suc.prems(1) bs] obtain e1
    where e1: "pop_byte e = (e1, Some b)" "ep_ok e1" "se_bytes e1 = bs" by auto
  have "n \<le> se_len e1"
    using arg_cong [OF bs, of length] arg_cong [OF e1(3), of length] Suc.prems(2) by simp
  from Suc.IH [OF e1(2) this] e1 bs bytes_frame_trans [OF pop_byte_frame [OF e1(1)]] show ?case by auto
qed simp

subsection \<open>Packets\<close>

fun chunks :: "nat list \<Rightarrow> 'a list \<Rightarrow> 'a list list" where
  "chunks [] bs = []"
| "chunks (n # ns) bs = take n bs # chunks ns (drop n bs)"

lemma chunks_snoc: "sum_list ns = length bs \<Longrightarrow> chunks (ns @ [length cs]) (bs @ cs) = chunks ns bs @ [cs]"
  by (induction ns arbitrary: bs) auto

definition is_datagram :: "SocketEndpoint \<Rightarrow> bool" where
  "is_datagram e \<longleftrightarrow> se_options e AND SOCKET_DATAGRAM \<noteq> 0"

definition se_packets :: "SocketEndpoint \<Rightarrow> u8 list list" where
  "se_packets e = chunks (se_lens e) (se_bytes e)"

text \<open>The lengths of a datagram endpoint account for exactly its bytes; a stream has none.\<close>

definition ep_good :: "SocketEndpoint \<Rightarrow> bool" where
  "ep_good e \<longleftrightarrow> ep_ok e \<and>
     (if is_datagram e then sum_list (se_lens e) = se_len e else se_datagram_count e = 0)"

lemma push_datagram_len_frame:
  "push_datagram_len e n = (e', r) \<Longrightarrow>
     \<exists>l c. e' = e\<lparr>se_datagram_lens := l, se_datagram_count := c\<rparr>"
proof -
  assume p: "push_datagram_len e n = (e', r)"
  have "e = e\<lparr>se_datagram_lens := se_datagram_lens e, se_datagram_count := se_datagram_count e\<rparr>"
    by simp
  moreover have "e' = e \<or> (\<exists>l c. e' = e\<lparr>se_datagram_lens := l, se_datagram_count := c\<rparr>)"
    using p by (auto simp: push_datagram_len_def Let_def split: if_splits)
  ultimately show ?thesis by metis
qed

lemma pop_datagram_len_frame:
  "pop_datagram_len e = (e', r) \<Longrightarrow>
     \<exists>l h c. e' = e\<lparr>se_datagram_lens := l, se_datagram_head := h, se_datagram_count := c\<rparr>"
proof -
  assume p: "pop_datagram_len e = (e', r)"
  let ?h = "if se_datagram_count e - 1 = 0 then 0
    else ring_index (se_datagram_head e) 1 MAX_SOCKET_DATAGRAMS"
  have "e = e\<lparr>se_datagram_lens := se_datagram_lens e, se_datagram_head := se_datagram_head e,
      se_datagram_count := se_datagram_count e\<rparr>" by simp
  moreover have "e' = e \<or> e' = e\<lparr>se_datagram_lens := (se_datagram_lens e)[se_datagram_head e := 0],
      se_datagram_head := ?h, se_datagram_count := se_datagram_count e - 1\<rparr>"
    using p by (cases "se_datagram_count e") (auto simp: pop_datagram_len_def Let_def)
  ultimately show ?thesis by metis
qed

lemma push_packet_ok:
  assumes good: "ep_good e" and room: "se_len e + length bs \<le> SOCKET_SIZE"
    and slot: "is_datagram e \<Longrightarrow> se_datagram_count e < MAX_SOCKET_DATAGRAMS"
  shows "\<exists>e'. push_packet e (is_datagram e) bs = (e', Inr ()) \<and> ep_good e'
    \<and> se_bytes e' = se_bytes e @ bs
    \<and> (is_datagram e \<longrightarrow> se_packets e' = se_packets e @ [bs])
    \<and> se_handle e' = se_handle e \<and> se_peer e' = se_peer e \<and> se_options e' = se_options e
    \<and> se_active e' = se_active e"
proof -
  from good have ok: "ep_ok e" by (simp add: ep_good_def)
  from push_bytes_ok [OF ok room] obtain e1 where e1: "push_bytes e bs = (e1, Inr ())" "ep_ok e1"
    "se_bytes e1 = se_bytes e @ bs" and f: "bytes_frame e e1" by auto
  note f1 = bytes_frame_sels [OF f]
  have len1: "se_len e1 = se_len e + length bs" using arg_cong [OF e1(3), of length] by simp
  show ?thesis
  proof (cases "is_datagram e")
    case False
    with e1 f1 good show ?thesis by (auto simp: push_packet_def ep_good_def is_datagram_def)
  next
    case True
    from datagram_ring.push_ok [OF e1(2), of "length bs"] slot [OF True] obtain e2
      where e2: "push_datagram_len e1 (length bs) = (e2, Inr ())" "ep_ok e2"
        "se_lens e2 = se_lens e @ [length bs]" using f1 by auto
    obtain l c where fr: "e2 = e1\<lparr>se_datagram_lens := l, se_datagram_count := c\<rparr>"
      using push_datagram_len_frame [OF e2(1)] by blast
    then have b2: "se_bytes e2 = se_bytes e @ bs" using e1(3) by (simp add: se_bytes_def)
    have sum: "sum_list (se_lens e) = length (se_bytes e)" using True good by (simp add: ep_good_def)
    have "ep_good e2" using e2(2,3) True sum len1 f1 fr
      by (simp add: ep_good_def is_datagram_def)
    moreover have "se_packets e2 = se_packets e @ [bs]"
      using chunks_snoc [OF sum, of bs] b2 e2(3) by (simp add: se_packets_def)
    ultimately show ?thesis using True e1(1) e2(1) b2 f1 fr by (auto simp: push_packet_def)
  qed
qed

lemma read_stream_ok:
  fixes out :: "u8 list"
  assumes ok: "ep_ok e"
  defines "n \<equiv> min (length out) (se_len e)"
  shows "\<exists>e'. read_stream e peek out = (e', take n (se_bytes e) @ drop n out, Inr n)
    \<and> ep_ok e' \<and> se_bytes e' = (if peek then se_bytes e else drop n (se_bytes e))
    \<and> bytes_frame e e'"
proof -
  have n: "min_count (length out) (se_len e) = n" by (simp add: n_def min_count_def)
  show ?thesis
  proof (cases peek)
    case True
    with peek_loop_ok [OF ok, of 0 n out] n show ?thesis
      by (simp add: read_stream_def n_def ok Let_def)
  next
    case False
    from pop_loop_ok [OF ok, of n 0 out] obtain e' where
      "pop_loop e 0 n out = (e', take n (se_bytes e) @ drop n out, Inr ())" "ep_ok e'"
      "se_bytes e' = drop n (se_bytes e)" "bytes_frame e e'" by (auto simp: n_def)
    with False n show ?thesis by (simp add: read_stream_def Let_def)
  qed
qed

lemma read_datagram_ok:
  fixes out :: "u8 list"
  assumes good: "ep_good e" and dg: "is_datagram e" and avail: "se_datagram_count e \<noteq> 0"
  defines "p \<equiv> hd (se_packets e)"
  defines "n \<equiv> min (length out) (length p)"
  shows "\<exists>e'. read_datagram e peek out = (e', take n p @ drop n out, Inr n) \<and> ep_good e'
    \<and> se_packets e \<noteq> []
    \<and> se_packets e' = (if peek then se_packets e else tl (se_packets e))
    \<and> se_handle e' = se_handle e \<and> se_peer e' = se_peer e \<and> se_options e' = se_options e
    \<and> se_active e' = se_active e"
proof -
  from good have ok: "ep_ok e" by (simp add: ep_good_def)
  obtain m ms where ms: "se_lens e = m # ms" using avail by (cases "se_lens e") auto
  have sum: "m + sum_list ms = se_len e" using good dg ms by (simp add: ep_good_def)
  have p: "p = take m (se_bytes e)" "length p = m" using ms sum by (simp_all add: p_def se_packets_def)
  have front: "front_datagram_len e = Some m"
  proof -
    have "se_datagram_lens e ! se_datagram_head e = hd (se_lens e)"
      using ring_list_pop [of "se_datagram_head e" "se_datagram_lens e" "se_datagram_count e"] ok avail
      by (simp add: se_lens_def ep_ok_def)
    with ms avail show ?thesis by (simp add: front_datagram_len_def)
  qed
  have nm: "min_count (length out) m = n" "n \<le> m" "n \<le> length out"
    using p by (simp_all add: n_def min_count_def)
  have peeked: "peek_loop e 0 n out = (take n p @ drop n out, Inr ())"
    using peek_loop_ok [OF ok, of 0 n out] nm sum p(1) by (simp add: min_def)
  from datagram_ring.pop_ok [OF ok ms] obtain e1 where
    e1: "pop_datagram_len e = (e1, Some m)" "ep_ok e1" "se_lens e1 = ms" by auto
  obtain l h c where fr: "e1 = e\<lparr>se_datagram_lens := l, se_datagram_head := h, se_datagram_count := c\<rparr>"
    using pop_datagram_len_frame [OF e1(1)] by blast
  then have b1: "se_bytes e1 = se_bytes e" "se_len e1 = se_len e" by (simp_all add: se_bytes_def)
  from drop_loop_ok [OF e1(2), of m] b1 sum obtain e2 where
    e2: "drop_loop e1 m = (e2, Inr ())" "ep_ok e2" "se_bytes e2 = drop m (se_bytes e)" "bytes_frame e1 e2"
    by auto
  note f2 = bytes_frame_sels [OF e2(4)]
  have len2: "se_len e2 = se_len e - m" using arg_cong [OF e2(3), of length] by simp
  have "ep_good e2" using e2(2) f2 e1(3) len2 sum dg fr by (simp add: ep_good_def is_datagram_def)
  moreover have "se_packets e2 = tl (se_packets e)"
    using e2(3) f2 e1(3) ms by (simp add: se_packets_def)
  moreover have "se_packets e \<noteq> []" using ms by (simp add: se_packets_def)
  ultimately show ?thesis
    using front nm(1) peeked e1(1) e2(1) f2 fr good by (simp add: read_datagram_def Let_def)
qed

subsection \<open>Compaction of shared handles\<close>

lemma remove_shared_loop_eq:
  "kept = filter (\<lambda>h. h \<noteq> handle)
       (map (\<lambda>k. se_shared e ! ring_index (se_shared_head e) k MAX_SOCKET_SHARED) offsets) \<Longrightarrow>
   count + length kept \<le> length compact \<Longrightarrow>
   remove_shared_loop e handle offsets compact count =
     (take count compact @ kept @ drop (count + length kept) compact, count + length kept)"
proof (induction offsets arbitrary: compact count kept)
  case (Cons k offsets)
  let ?h = "se_shared e ! ring_index (se_shared_head e) k MAX_SOCKET_SHARED"
  show ?case
  proof (cases "?h = handle")
    case True
    with Cons.IH [OF refl, of count compact] Cons.prems show ?thesis by simp
  next
    case False
    define rest where "rest = filter (\<lambda>h. h \<noteq> handle)
      (map (\<lambda>k. se_shared e ! ring_index (se_shared_head e) k MAX_SOCKET_SHARED) offsets)"
    have kept: "kept = ?h # rest" using False Cons.prems(1) by (simp add: rest_def)
    have "take (Suc count) (compact[count := ?h]) = take count compact @ [?h]"
      using Cons.prems(2) kept by (simp add: take_Suc_conv_app_nth)
    with Cons.IH [OF rest_def, of "Suc count" "compact[count := ?h]"] False kept Cons.prems(2)
    show ?thesis by simp
  qed
qed simp

lemma remove_shared_ok:
  assumes ok: "ep_ok e"
  shows "se_shares (remove_shared e handle) = filter (\<lambda>h. h \<noteq> handle) (se_shares e)"
    and "ep_ok (remove_shared e handle)"
proof -
  define kept where "kept = filter (\<lambda>h. h \<noteq> handle) (se_shares e)"
  have k: "kept = filter (\<lambda>h. h \<noteq> handle)
     (map (\<lambda>k. se_shared e ! ring_index (se_shared_head e) k MAX_SOCKET_SHARED) [0..<se_shared_count e])"
    using ok by (simp add: kept_def se_shares_def ring_list_def ep_ok_def)
  have "length kept \<le> length (se_shares e)" unfolding kept_def by (rule length_filter_le)
  then have len: "length kept \<le> MAX_SOCKET_SHARED" using ok by (simp add: ep_ok_def)
  have "remove_shared_loop e handle [0..<se_shared_count e]
      (replicate MAX_SOCKET_SHARED INVALID_HANDLE) 0 =
    (kept @ replicate (MAX_SOCKET_SHARED - length kept) INVALID_HANDLE, length kept)"
    using remove_shared_loop_eq [OF k, of 0 "replicate MAX_SOCKET_SHARED INVALID_HANDLE"] len by simp
  then have r: "remove_shared e handle = e\<lparr>se_shared := kept
      @ replicate (MAX_SOCKET_SHARED - length kept) INVALID_HANDLE,
      se_shared_head := 0, se_shared_count := length kept\<rparr>"
    by (simp add: remove_shared_def)
  show "se_shares (remove_shared e handle) = filter (\<lambda>h. h \<noteq> handle) (se_shares e)"
    by (simp add: r se_shares_def [of "_\<lparr>se_shared := _, se_shared_head := _, se_shared_count := _\<rparr>"]
        ring_list_first) (simp add: kept_def)
  show "ep_ok (remove_shared e handle)" using ok len by (simp add: r ep_ok_def)
qed

lemma remove_shared_sels [simp]:
  "se_handle (remove_shared e h) = se_handle e" "se_peer (remove_shared e h) = se_peer e"
  "se_options (remove_shared e h) = se_options e" "se_active (remove_shared e h) = se_active e"
  "se_bytes (remove_shared e h) = se_bytes e" "se_lens (remove_shared e h) = se_lens e"
  "se_len (remove_shared e h) = se_len e" "se_signals (remove_shared e h) = se_signals e"
  "se_datagram_count (remove_shared e h) = se_datagram_count e"
  by (simp_all add: remove_shared_def se_bytes_def se_lens_def case_prod_beta)

subsection \<open>Tables: skeleton and payload\<close>

text \<open>
  Most operations leave the skeleton of the table (which endpoints exist, under which handles and
  linked how) and the queued data alone.  \<open>quiet\<close> says so, and that the endpoints stay good.
\<close>

definition ep_core :: "SocketEndpoint \<Rightarrow> bool \<times> HandleValue \<times> HandleValue option \<times> u32" where
  "ep_core e = (se_active e, se_handle e, se_peer e, se_options e)"

definition ep_payload :: "SocketEndpoint \<Rightarrow> u8 list \<times> nat list" where
  "ep_payload e = (se_bytes e, se_lens e)"

definition quiet :: "SocketTable \<Rightarrow> SocketTable \<Rightarrow> bool" where
  "quiet t t' \<longleftrightarrow> map ep_core (st_endpoints t') = map ep_core (st_endpoints t)
     \<and> map ep_payload (st_endpoints t') = map ep_payload (st_endpoints t)
     \<and> st_next_handle t' = st_next_handle t
     \<and> (list_all ep_good (st_endpoints t) \<longrightarrow> list_all ep_good (st_endpoints t'))"

definition ep_calm :: "SocketEndpoint \<Rightarrow> SocketEndpoint \<Rightarrow> bool" where
  "ep_calm e e' \<longleftrightarrow> ep_core e' = ep_core e \<and> ep_payload e' = ep_payload e
     \<and> (ep_good e \<longrightarrow> ep_good e')"

definition ep_quiet :: "(SocketEndpoint \<Rightarrow> SocketEndpoint) \<Rightarrow> bool" where
  "ep_quiet f \<longleftrightarrow> (\<forall>e. ep_calm e (f e))"

lemma quiet_refl [simp]: "quiet t t"
  by (simp add: quiet_def)

lemma quiet_trans: "quiet a b \<Longrightarrow> quiet b c \<Longrightarrow> quiet a c"
  by (auto simp: quiet_def)

lemma quiet_at:
  assumes "ep_quiet f"
  shows "quiet t (at_endpoint t i f)"
proof (cases "i < length (st_endpoints t)")
  case True
  with assms show ?thesis
    by (auto simp: quiet_def at_endpoint_def ep_quiet_def ep_calm_def map_update
        list_update_same_conv list_all_length nth_list_update)
qed (simp add: at_endpoint_def list_update_beyond)

lemma quiet_at_trans: "quiet a b \<Longrightarrow> ep_quiet f \<Longrightarrow> quiet a (at_endpoint b i f)"
  by (blast intro: quiet_trans quiet_at)

lemma ep_quiet_flags [simp]:
  "ep_quiet (\<lambda>e. e\<lparr>se_signals := g e\<rparr>)"
  "ep_quiet (\<lambda>e. e\<lparr>se_read_threshold := n\<rparr>)"
  "ep_quiet (\<lambda>e. e\<lparr>se_write_threshold := n\<rparr>)"
  "ep_quiet disable_read" "ep_quiet disable_write" "ep_quiet refresh_read_signals"
  by (simp_all add: ep_quiet_def ep_calm_def ep_core_def ep_payload_def ep_good_def ep_ok_def
      se_bytes_def se_lens_def is_datagram_def disable_read_def disable_write_def refresh_read_signals_def Let_def)

lemma ep_calm_refl [simp]: "ep_calm e e"
  by (simp add: ep_calm_def)

lemma ep_calm_trans: "ep_calm a b \<Longrightarrow> ep_calm b c \<Longrightarrow> ep_calm a c"
  by (simp add: ep_calm_def)

lemma ep_quiet_comp: "ep_quiet f \<Longrightarrow> ep_quiet g \<Longrightarrow> ep_quiet (\<lambda>e. f (g e))"
  unfolding ep_quiet_def by (blast intro: ep_calm_trans)

lemma ep_calm_remove_shared: "ep_calm e (remove_shared e h)"
  by (simp add: ep_calm_def ep_core_def ep_payload_def ep_good_def is_datagram_def remove_shared_ok)

lemma ep_quiet_forget [simp]: "ep_quiet (forget_shared h)"
proof -
  have "ep_calm e (e\<lparr>se_signals := x\<rparr>)" for e x
    using ep_quiet_flags(1) [of "\<lambda>_. x"] unfolding ep_quiet_def by blast
  then have "ep_calm e (forget_shared h e)" for e
    using ep_calm_remove_shared [of e h] by (auto simp: forget_shared_def Let_def intro: ep_calm_trans)
  then show ?thesis by (simp add: ep_quiet_def)
qed

lemma quiet_refresh_write [simp]: "quiet t (refresh_write_signals t i)"
  by (auto simp: refresh_write_signals_def Let_def intro!: quiet_at split: option.splits)

lemma quiet_after_read [simp]: "quiet t (after_read t i full)"
proof -
  let ?t1 = "at_endpoint t i refresh_read_signals"
  have q1: "quiet t ?t1" by (rule quiet_at) simp
  have "quiet t (refresh_write_signals (if full then at_endpoint ?t1 j (\<lambda>e. e\<lparr>se_signals :=
      se_signals e OR CHANNEL_SIGNAL_WRITABLE\<rparr>) else ?t1) j)" for j
    by (rule quiet_trans [OF _ quiet_refresh_write]) (simp add: q1 quiet_at_trans)
  with q1 show ?thesis
    by (auto simp: after_read_def Let_def split: option.splits)
qed

lemma quiet_update_signals: "quiet t (fst (socket_update_signals t h c st))"
  by (auto simp: socket_update_signals_def Let_def intro!: quiet_at split: option.splits)

lemma quiet_signal_peer: "quiet t (fst (socket_signal_peer t h c st))"
  using quiet_update_signals [of t _ c st]
  by (auto simp: socket_signal_peer_def split: option.splits prod.splits) (metis fst_conv)+

lemma quiet_set_property: "quiet t (fst (socket_set_property t h prop v))"
proof -
  have "quiet t (refresh_write_signals (at_endpoint t i (\<lambda>e. e\<lparr>se_write_threshold := unat v\<rparr>)) i)" for i
    by (rule quiet_trans [OF _ quiet_refresh_write]) (simp add: quiet_at)
  moreover have "quiet t (at_endpoint t i (\<lambda>e. refresh_read_signals (e\<lparr>se_read_threshold := unat v\<rparr>)))" for i
    by (rule quiet_at) (simp add: ep_quiet_comp)
  ultimately show ?thesis by (auto simp: socket_set_property_def split: option.splits)
qed

lemma quiet_if_at: "quiet a b \<Longrightarrow> ep_quiet f \<Longrightarrow> quiet a (if c then at_endpoint b i f else b)"
  by (simp add: quiet_at_trans)

lemma quiet_refresh_trans: "quiet a b \<Longrightarrow> quiet a (refresh_write_signals b i)"
  by (erule quiet_trans) simp

lemma quiet_shutdown_peer: "quiet a t \<Longrightarrow> quiet a (shutdown_peer t i rd wr)"
  by (auto simp: shutdown_peer_def Let_def split: option.splits
      intro!: quiet_refresh_trans quiet_at_trans)

lemma quiet_shutdown: "quiet t (fst (socket_shutdown t h opts))"
proof (cases "socket_index (st_endpoints t) h")
  case None
  then show ?thesis by (simp add: socket_shutdown_def)
next
  case (Some i)
  have "quiet t (refresh_write_signals (shutdown_peer
      (if wr then at_endpoint (if rd then at_endpoint t i disable_read else t) i disable_write
       else if rd then at_endpoint t i disable_read else t) i rd wr) i)" for rd wr
    by (intro quiet_refresh_trans quiet_shutdown_peer quiet_if_at quiet_refl ep_quiet_flags)
  with Some show ?thesis by (simp add: socket_shutdown_def Let_def)
qed

lemma shares_frame_calm:
  assumes "e' = e\<lparr>se_shared := a, se_shared_head := b, se_shared_count := c\<rparr>" and "ep_ok e \<Longrightarrow> ep_ok e'"
  shows "ep_calm e e'"
  using assms by (simp add: ep_calm_def ep_core_def ep_payload_def ep_good_def is_datagram_def
      se_bytes_def se_lens_def)

lemma ep_calm_push_shared: "ep_calm e (fst (push_shared e h))"
proof -
  obtain e' r where p: "push_shared e h = (e', r)" by fastforce
  have ok: "ep_ok e \<Longrightarrow> ep_ok e'" using p by (auto elim: share_ring.push_cases)
  have "e' = e \<or> e' = e\<lparr>se_shared := (se_shared e)
      [ring_index (se_shared_head e) (se_shared_count e) MAX_SOCKET_SHARED := h],
      se_shared_head := se_shared_head e, se_shared_count := se_shared_count e + 1\<rparr>"
    using p by (auto simp: push_shared_def Let_def split: if_splits)
  then have "ep_calm e e'" using ok ep_calm_refl shares_frame_calm by metis
  with p show ?thesis by simp
qed

lemma ep_calm_pop_shared: "ep_calm e (fst (pop_shared e))"
proof -
  obtain e' r where p: "pop_shared e = (e', r)" by fastforce
  have ok: "ep_ok e \<Longrightarrow> ep_ok e'" using p by (auto elim: share_ring.pop_cases)
  have "e' = e \<or> e' = e\<lparr>se_shared := (se_shared e)[se_shared_head e := INVALID_HANDLE],
      se_shared_head := if se_shared_count e - 1 = 0 then 0
        else ring_index (se_shared_head e) 1 MAX_SOCKET_SHARED,
      se_shared_count := se_shared_count e - 1\<rparr>"
    using p by (cases "se_shared_count e") (auto simp: pop_shared_def Let_def)
  then have "ep_calm e e'" using ok ep_calm_refl shares_frame_calm by metis
  with p show ?thesis by simp
qed

lemma quiet_at_calm: "i < length (st_endpoints t) \<Longrightarrow> ep_calm (st_endpoints t ! i) e \<Longrightarrow>
    quiet t (at_endpoint t i (\<lambda>_. e))"
  by (auto simp: quiet_def at_endpoint_def ep_calm_def map_update list_update_same_conv
      list_all_length nth_list_update)

lemma calm_signals: "ep_calm a e \<Longrightarrow> ep_calm a (e\<lparr>se_signals := x\<rparr>)"
  using ep_quiet_flags(1) [of "\<lambda>_. x"] unfolding ep_quiet_def by (blast intro: ep_calm_trans)

lemma socket_index_core:
  "socket_index es h = position (\<lambda>c. fst c \<and> fst (snd c) = h) (map ep_core es)"
  by (simp add: socket_index_def position_map ep_core_def)

interpretation sockets: slot_table se_active se_handle socket_index socket_free_index
  by unfold_locales (simp_all add: socket_index_def socket_free_index_def)

lemma quiet_share: "quiet t (fst (socket_share t h g))"
proof -
  have "quiet t (at_endpoint t j (\<lambda>_. e))" "quiet t (at_endpoint t j (\<lambda>_. e\<lparr>se_signals := x\<rparr>))"
    if "socket_index (st_endpoints t) p = Some j" "push_shared (st_endpoints t ! j) g = (e, r)" for p j e r x
  proof -
    have j: "j < length (st_endpoints t)" using that(1) by (auto dest: sockets.index_SomeD)
    have c: "ep_calm (st_endpoints t ! j) e"
      using ep_calm_push_shared [of "st_endpoints t ! j" g] that(2) by simp
    show "quiet t (at_endpoint t j (\<lambda>_. e))" by (rule quiet_at_calm [OF j c])
    show "quiet t (at_endpoint t j (\<lambda>_. e\<lparr>se_signals := x\<rparr>))"
      by (rule quiet_at_calm [OF j calm_signals [OF c]])
  qed
  then show ?thesis
    by (auto simp: socket_share_def split: option.splits prod.splits sum.splits)
qed

lemma quiet_accept: "quiet t (fst (socket_accept t h))"
proof -
  have "quiet t (at_endpoint t j (\<lambda>_. e))" "quiet t (at_endpoint t j (\<lambda>_. e\<lparr>se_signals := x\<rparr>))"
    if "socket_index (st_endpoints t) p = Some j" "pop_shared (st_endpoints t ! j) = (e, r)" for p j e r x
  proof -
    have j: "j < length (st_endpoints t)" using that(1) by (auto dest: sockets.index_SomeD)
    have c: "ep_calm (st_endpoints t ! j) e"
      using ep_calm_pop_shared [of "st_endpoints t ! j"] that(2) by simp
    show "quiet t (at_endpoint t j (\<lambda>_. e))" by (rule quiet_at_calm [OF j c])
    show "quiet t (at_endpoint t j (\<lambda>_. e\<lparr>se_signals := x\<rparr>))"
      by (rule quiet_at_calm [OF j calm_signals [OF c]])
  qed
  then show ?thesis
    by (auto simp: socket_accept_def split: option.splits prod.splits sum.splits)
qed

subsection \<open>Invariant of the table\<close>

definition peers_ok :: "SocketEndpoint list \<Rightarrow> bool" where
  "peers_ok es \<longleftrightarrow> (\<forall>i<length es. \<forall>p. se_active (es ! i) \<longrightarrow> se_peer (es ! i) = Some p \<longrightarrow>
     (\<exists>j<length es. j \<noteq> i \<and> se_active (es ! j) \<and> se_handle (es ! j) = p
        \<and> se_peer (es ! j) = Some (se_handle (es ! i)) \<and> se_options (es ! j) = se_options (es ! i)))"

definition skeleton_ok :: "SocketEndpoint list \<Rightarrow> u32 \<Rightarrow> bool" where
  "skeleton_ok es next_handle \<longleftrightarrow> length es = MAX_SOCKET_OBJECTS
     \<and> distinct_live se_active se_handle es
     \<and> list_all (\<lambda>e. se_active e \<longrightarrow> SOCKET_HANDLE_START \<le> se_handle e \<and> se_handle e < next_handle) es
     \<and> peers_ok es \<and> SOCKET_HANDLE_START \<le> next_handle"

definition sock_inv :: "SocketTable \<Rightarrow> bool" where
  "sock_inv t \<longleftrightarrow> skeleton_ok (st_endpoints t) (st_next_handle t) \<and> list_all ep_good (st_endpoints t)"

lemma peers_okD:
  "peers_ok es \<Longrightarrow> i < length es \<Longrightarrow> se_active (es ! i) \<Longrightarrow> se_peer (es ! i) = Some p \<Longrightarrow>
     \<exists>j<length es. j \<noteq> i \<and> se_active (es ! j) \<and> se_handle (es ! j) = p
        \<and> se_peer (es ! j) = Some (se_handle (es ! i)) \<and> se_options (es ! j) = se_options (es ! i)"
  by (simp add: peers_ok_def)

lemma core_nth:
  assumes "map ep_core es' = map ep_core es" and "i < length es"
  shows "se_active (es' ! i) = se_active (es ! i)" "se_handle (es' ! i) = se_handle (es ! i)"
    "se_peer (es' ! i) = se_peer (es ! i)" "se_options (es' ! i) = se_options (es ! i)"
proof -
  have "ep_core (es' ! i) = ep_core (es ! i)"
    using assms by (metis length_map nth_map)
  then show "se_active (es' ! i) = se_active (es ! i)" "se_handle (es' ! i) = se_handle (es ! i)"
    "se_peer (es' ! i) = se_peer (es ! i)" "se_options (es' ! i) = se_options (es ! i)"
    by (simp_all add: ep_core_def)
qed

lemma skeleton_ok_cong:
  assumes "map ep_core es' = map ep_core es"
  shows "skeleton_ok es' n = skeleton_ok es n"
proof -
  have len: "length es' = length es" using assms by (metis length_map)
  note c = core_nth [OF assms]
  have "peers_ok es' = peers_ok es"
    unfolding peers_ok_def len by (simp add: c cong: conj_cong)
  moreover have "distinct_live se_active se_handle es' = distinct_live se_active se_handle es"
    unfolding distinct_live_iff len by (simp add: c)
  moreover have "list_all (\<lambda>e. se_active e \<longrightarrow> SOCKET_HANDLE_START \<le> se_handle e \<and> se_handle e < n) es'
    = list_all (\<lambda>e. se_active e \<longrightarrow> SOCKET_HANDLE_START \<le> se_handle e \<and> se_handle e < n) es"
    unfolding list_all_length len by (simp add: c)
  ultimately show ?thesis by (simp add: skeleton_ok_def len)
qed

lemma quiet_inv: "quiet t t' \<Longrightarrow> sock_inv t \<Longrightarrow> sock_inv t'"
  using skeleton_ok_cong [of "st_endpoints t'" "st_endpoints t" "st_next_handle t"]
  by (simp add: quiet_def sock_inv_def)

lemma quiet_index: "quiet t t' \<Longrightarrow> socket_index (st_endpoints t') h = socket_index (st_endpoints t) h"
  by (simp add: quiet_def socket_index_core)

text \<open>Replacing one endpoint by a good one with the same core.\<close>

lemma at_inv:
  assumes "sock_inv t" and "i < length (st_endpoints t)" and "ep_core e = ep_core (st_endpoints t ! i)"
    and "ep_good e"
  shows "sock_inv (at_endpoint t i (\<lambda>_. e))"
proof -
  have c: "map ep_core ((st_endpoints t)[i := e]) = map ep_core (st_endpoints t)"
    using assms(2,3) by (simp add: map_update list_update_same_conv)
  with assms skeleton_ok_cong [OF c] show ?thesis
    by (auto simp: sock_inv_def at_endpoint_def intro: list_all_update)
qed

lemma at_index:
  assumes "ep_core e = ep_core (st_endpoints t ! i)"
  shows "socket_index (st_endpoints (at_endpoint t i (\<lambda>_. e))) h = socket_index (st_endpoints t) h"
  using assms sockets.index_update_same [of e "st_endpoints t" i h]
  by (simp add: at_endpoint_def ep_core_def)

lemma inv_nth: "sock_inv t \<Longrightarrow> i < length (st_endpoints t) \<Longrightarrow> ep_good (st_endpoints t ! i)"
  by (simp add: sock_inv_def list_all_length)

lemma inv_peer:
  assumes inv: "sock_inv t" and i: "socket_index (st_endpoints t) x = Some i"
    and p: "se_peer (st_endpoints t ! i) = Some y"
  shows "\<exists>j. socket_index (st_endpoints t) y = Some j \<and> j \<noteq> i
    \<and> se_peer (st_endpoints t ! j) = Some x \<and> se_options (st_endpoints t ! j) = se_options (st_endpoints t ! i)"
proof -
  from i have i': "i < length (st_endpoints t)" "se_active (st_endpoints t ! i)" "se_handle (st_endpoints t ! i) = x"
    by (auto dest: sockets.index_SomeD)
  from inv have sk: "peers_ok (st_endpoints t)" "distinct_live se_active se_handle (st_endpoints t)"
    by (simp_all add: sock_inv_def skeleton_ok_def)
  from sk(1) i' p obtain j where j: "j < length (st_endpoints t)" "j \<noteq> i" "se_active (st_endpoints t ! j)"
    "se_handle (st_endpoints t ! j) = y" "se_peer (st_endpoints t ! j) = Some x"
    "se_options (st_endpoints t ! j) = se_options (st_endpoints t ! i)"
    unfolding peers_ok_def by blast
  from sockets.index_SomeI [OF sk(2) j(1,3,4)] j show ?thesis by blast
qed

subsection \<open>Writing\<close>

lemma socket_transfer_cases:
  assumes inv: "sock_inv t" and j: "j < length (st_endpoints t)"
    and opt: "se_options (st_endpoints t ! i) = se_options (st_endpoints t ! j)"
    and w: "socket_transfer t i j bytes = (t', r)"
  obtains (rejected) err where "r = Inl err" "t' = t"
  | (accepted) e n where "r = Inr n" "ep_good e" "ep_core e = ep_core (st_endpoints t ! j)"
      "se_bytes e = se_bytes (st_endpoints t ! j) @ take n bytes"
      "is_datagram (st_endpoints t ! j) \<Longrightarrow> n = length bytes
         \<and> se_packets e = se_packets (st_endpoints t ! j) @ [bytes]"
      "\<not> is_datagram (st_endpoints t ! j) \<Longrightarrow>
         n = min (length bytes) (SOCKET_SIZE - se_len (st_endpoints t ! j))"
      "quiet (at_endpoint t j (\<lambda>_. e)) t'"
proof -
  let ?e = "st_endpoints t ! j"
  let ?dg = "is_datagram ?e"
  let ?rem = "SOCKET_SIZE - se_len ?e"
  let ?n = "if ?dg then length bytes else min (length bytes) ?rem"
  have good: "ep_good ?e" using inv j by (rule inv_nth)
  have dg: "(se_options (st_endpoints t ! i) AND SOCKET_DATAGRAM \<noteq> 0) = ?dg"
    by (simp add: opt is_datagram_def)
  have rem: "remaining_capacity (se_len ?e) SOCKET_SIZE = ?rem" by (simp add: remaining_capacity_def)
  have mc: "min_count (length bytes) ?rem = min (length bytes) ?rem" by (simp add: min_count_def)
  show thesis
  proof (cases "(?rem = 0 \<and> (\<not> ?dg \<or> bytes \<noteq> [])) \<or> (?dg \<and> (length bytes > SOCKET_SIZE
      \<or> length bytes > ?rem \<or> se_datagram_count ?e \<ge> MAX_SOCKET_DATAGRAMS))")
    case True
    then have "\<exists>err. socket_transfer t i j bytes = (t, Inl err)"
      unfolding socket_transfer_def Let_def dg rem by auto
    with w show thesis by (auto intro: rejected)
  next
    case False
    have room: "se_len ?e + length (take ?n bytes) \<le> SOCKET_SIZE"
      using good False by (auto simp: ep_good_def ep_ok_def min_def)
    from push_packet_ok [OF good room] False obtain e where
      e: "push_packet ?e ?dg (take ?n bytes) = (e, Inr ())" "ep_good e"
        "se_bytes e = se_bytes ?e @ take ?n bytes"
        "?dg \<longrightarrow> se_packets e = se_packets ?e @ [take ?n bytes]"
        "se_handle e = se_handle ?e" "se_peer e = se_peer ?e" "se_options e = se_options ?e"
        "se_active e = se_active ?e" by auto
    have "socket_transfer t i j bytes = (refresh_write_signals (at_endpoint
        (at_endpoint t j (\<lambda>_. e)) j refresh_read_signals) i, Inr ?n)"
      unfolding socket_transfer_def Let_def dg rem
      using False e(1) by (cases ?dg) (simp_all add: mc)
    moreover have "quiet (at_endpoint t j (\<lambda>_. e)) (refresh_write_signals (at_endpoint
        (at_endpoint t j (\<lambda>_. e)) j refresh_read_signals) i)"
      by (intro quiet_refresh_trans quiet_at_trans quiet_refl ep_quiet_flags)
    ultimately show thesis using w e
      by (intro accepted [of ?n e]) (auto simp: ep_core_def)
  qed
qed

lemma socket_write_cases:
  assumes inv: "sock_inv t" and w: "socket_write t h bytes = (t', r)"
  obtains (rejected) err where "r = Inl err" "t' = t"
  | (accepted) i j y e n where "r = Inr n" "socket_index (st_endpoints t) h = Some i"
      "se_peer (st_endpoints t ! i) = Some y" "socket_index (st_endpoints t) y = Some j" "j \<noteq> i"
      "ep_good e" "ep_core e = ep_core (st_endpoints t ! j)"
      "se_bytes e = se_bytes (st_endpoints t ! j) @ take n bytes"
      "is_datagram (st_endpoints t ! j) \<Longrightarrow> n = length bytes
         \<and> se_packets e = se_packets (st_endpoints t ! j) @ [bytes]"
      "\<not> is_datagram (st_endpoints t ! j) \<Longrightarrow>
         n = min (length bytes) (SOCKET_SIZE - se_len (st_endpoints t ! j))"
      "quiet (at_endpoint t j (\<lambda>_. e)) t'"
proof (cases "\<exists>err. socket_write t h bytes = (t, Inl err)")
  case True
  with w show thesis by (auto intro: rejected)
next
  case False
  then obtain i y j where i: "socket_index (st_endpoints t) h = Some i"
    "se_peer (st_endpoints t ! i) = Some y" "socket_index (st_endpoints t) y = Some j"
    and tr: "socket_transfer t i j bytes = (t', r)"
    using w by (auto simp: socket_write_def split: option.splits if_splits)
  from inv_peer [OF inv i(1,2)] i(3) have jo: "j \<noteq> i"
    "se_options (st_endpoints t ! i) = se_options (st_endpoints t ! j)" by auto
  have j: "j < length (st_endpoints t)" using i(3) by (auto dest: sockets.index_SomeD)
  from inv j jo(2) tr show thesis
  proof (cases rule: socket_transfer_cases)
    case (rejected err)
    with that(1) show thesis by blast
  next
    case (accepted e n)
    with that(2) [of n i y j e] i jo(1) show thesis by blast
  qed
qed

subsection \<open>Reading\<close>

lemma socket_receive_stream:
  assumes inv: "sock_inv t" and i: "i < length (st_endpoints t)" and dg: "\<not> is_datagram (st_endpoints t ! i)"
    and rd: "socket_receive t i False peek out = (t', out', r)"
  obtains e n where "r = Inr n" "n = min (length out) (se_len (st_endpoints t ! i))"
    "out' = take n (se_bytes (st_endpoints t ! i)) @ drop n out" "ep_good e"
    "ep_core e = ep_core (st_endpoints t ! i)"
    "se_bytes e = (if peek then se_bytes (st_endpoints t ! i) else drop n (se_bytes (st_endpoints t ! i)))"
    "quiet (at_endpoint t i (\<lambda>_. e)) t'"
proof -
  let ?e = "st_endpoints t ! i"
  let ?n = "min (length out) (se_len ?e)"
  have good: "ep_good ?e" using inv i by (rule inv_nth)
  then have "ep_ok ?e" by (simp add: ep_good_def)
  from read_stream_ok [OF this, of peek out] obtain e where
    e: "read_stream ?e peek out = (e, take ?n (se_bytes ?e) @ drop ?n out, Inr ?n)" "ep_ok e"
      "se_bytes e = (if peek then se_bytes ?e else drop ?n (se_bytes ?e))" "bytes_frame ?e e" by blast
  note f = bytes_frame_sels [OF e(4)]
  have "ep_good e" using good dg e(2) f by (simp add: ep_good_def is_datagram_def)
  moreover have "ep_core e = ep_core ?e" using f by (simp add: ep_core_def)
  moreover have "r = Inr ?n" "out' = take ?n (se_bytes ?e) @ drop ?n out"
    "quiet (at_endpoint t i (\<lambda>_. e)) t'"
    using rd e(1) by (auto simp: socket_receive_def Let_def split: if_splits)
  ultimately show thesis using e(3) that by blast
qed

lemma socket_receive_datagram:
  assumes inv: "sock_inv t" and i: "i < length (st_endpoints t)" and dg: "is_datagram (st_endpoints t ! i)"
    and av: "se_datagram_count (st_endpoints t ! i) \<noteq> 0"
    and rd: "socket_receive t i True peek out = (t', out', r)"
  obtains e n p ps where "r = Inr n" "se_packets (st_endpoints t ! i) = p # ps"
    "n = min (length out) (length p)" "out' = take n p @ drop n out" "ep_good e"
    "ep_core e = ep_core (st_endpoints t ! i)"
    "se_packets e = (if peek then p # ps else ps)"
    "quiet (at_endpoint t i (\<lambda>_. e)) t'"
proof -
  let ?e = "st_endpoints t ! i"
  let ?p = "hd (se_packets ?e)"
  let ?n = "min (length out) (length ?p)"
  have good: "ep_good ?e" using inv i by (rule inv_nth)
  from read_datagram_ok [OF good dg av, of peek out] obtain e where
    e: "read_datagram ?e peek out = (e, take ?n ?p @ drop ?n out, Inr ?n)" "ep_good e"
      "se_packets ?e \<noteq> []" "se_packets e = (if peek then se_packets ?e else tl (se_packets ?e))"
    and f: "se_handle e = se_handle ?e" "se_peer e = se_peer ?e" "se_options e = se_options ?e"
      "se_active e = se_active ?e" by blast
  obtain ps where ps: "se_packets ?e = ?p # ps" using e(3) by (cases "se_packets ?e") auto
  have "ep_core e = ep_core ?e" using f by (simp add: ep_core_def)
  moreover have "r = Inr ?n" "out' = take ?n ?p @ drop ?n out" "quiet (at_endpoint t i (\<lambda>_. e)) t'"
    using rd e(1) by (auto simp: socket_receive_def Let_def split: if_splits)
  moreover have "se_packets e = (if peek then ?p # ps else ps)" using e(4) ps by (metis list.sel(3))
  ultimately show thesis using e(2) ps that by blast
qed

lemma socket_read_cases:
  assumes rd: "socket_read t h opts out = (t', out', r)"
  obtains (rejected) err where "r = Inl err" "err \<noteq> ErrInternal" "t' = t" "out' = out"
  | (received) i where "socket_index (st_endpoints t) h = Some i"
      "socket_receive t i (is_datagram (st_endpoints t ! i)) (opts AND SOCKET_PEEK \<noteq> 0) out = (t', out', r)"
      "is_datagram (st_endpoints t ! i) \<Longrightarrow> se_datagram_count (st_endpoints t ! i) \<noteq> 0"
proof (cases "\<exists>err. err \<noteq> ErrInternal \<and> socket_read t h opts out = (t, out, Inl err)")
  case True
  with rd show thesis by (auto intro: rejected)
next
  case False
  show thesis
  proof (cases "socket_index (st_endpoints t) h")
    case None
    then have "\<exists>err. err \<noteq> ErrInternal \<and> socket_read t h opts out = (t, out, Inl err)"
      by (simp add: socket_read_def)
    with False show thesis by blast
  next
    case (Some i)
    show thesis
      using False rd received [of i] Some unfolding socket_read_def Let_def is_datagram_def
      by (auto split: if_splits)
  qed
qed

subsection \<open>Creating a pair\<close>

lemma free_pair_loop_Some:
  "free_pair_loop k first es = Some (a, b) \<Longrightarrow> (\<And>f. first = Some f \<Longrightarrow> f < k) \<Longrightarrow>
     a < b \<and> k \<le> b \<and> b < k + length es \<and> \<not> se_active (es ! (b - k))
     \<and> (case first of Some f \<Rightarrow> a = f | None \<Rightarrow> k \<le> a \<and> \<not> se_active (es ! (a - k)))"
proof (induction es arbitrary: k first)
  case (Cons e es)
  have shift: "(e # es) ! (m - k) = es ! (m - Suc k)" if "Suc k \<le> m" for m
    using that by (simp add: nth_Cons' Suc_diff_Suc)
  show ?case
  proof (cases "se_active e")
    case True
    with Cons.prems(1) have "free_pair_loop (Suc k) first es = Some (a, b)" by simp
    from Cons.IH [OF this] Cons.prems(2) shift [of b] shift [of a] show ?thesis
      by (auto split: option.splits intro: less_SucI)
  next
    case False
    show ?thesis
    proof (cases first)
      case (Some f)
      with False Cons.prems show ?thesis by auto
    next
      case None
      with False Cons.prems(1) have "free_pair_loop (Suc k) (Some k) es = Some (a, b)" by simp
      from Cons.IH [OF this] shift [of b] False None show ?thesis by auto
    qed
  qed
qed simp

lemma free_pair_Some:
  assumes "free_pair_indices t = Some (i, j)"
  shows "i < j" "j < length (st_endpoints t)" "\<not> se_active (st_endpoints t ! i)"
    "\<not> se_active (st_endpoints t ! j)"
  using free_pair_loop_Some [of 0 None "st_endpoints t" i j] assms
  by (auto simp: free_pair_indices_def)

lemma skeleton_mono: "skeleton_ok es n \<Longrightarrow> n \<le> n' \<Longrightarrow> skeleton_ok es n'"
  by (auto simp: skeleton_ok_def list_all_iff intro: less_le_trans order_trans)

lemma skeleton_pair:
  assumes sk: "skeleton_ok es n" and n: "n < n + 1" "n + 1 < n + 2"
    and ij: "i < j" "j < length es" "\<not> se_active (es ! i)" "\<not> se_active (es ! j)"
    and a: "se_active a" "se_handle a = n" "se_peer a = Some (n + 1)"
    and b: "se_active b" "se_handle b = n + 1" "se_peer b = Some n" "se_options b = se_options a"
  shows "skeleton_ok (es[i := a, j := b]) (n + 2)"
proof -
  let ?es = "es[i := a, j := b]"
  have live: "se_handle e < n" "SOCKET_HANDLE_START \<le> se_handle e" if "e \<in> set es" "se_active e" for e
    using sk that by (auto simp: skeleton_ok_def list_all_iff)
  have d: "distinct_live se_active se_handle es" using sk by (simp add: skeleton_ok_def)
  have old: "se_handle e \<noteq> n" "se_handle e \<noteq> n + 1" "se_handle e < n + 2" if "e \<in> set es" "se_active e" for e
  proof -
    note l1 = live(1) [OF that]
    note l2 = less_trans [OF l1 n(1)]
    show "se_handle e \<noteq> n" "se_handle e \<noteq> n + 1" using l1 l2 by auto
    show "se_handle e < n + 2" by (rule less_trans [OF l2 n(2)])
  qed
  then have "socket_index es n = None" "socket_index es (n + 1) = None"
    by (auto simp: sockets.index_None_iff)
  then have d1: "distinct_live se_active se_handle (es[i := a])"
    and i1: "socket_index (es[i := a]) (n + 1) = None"
    using sockets.index_fill [OF d, of i a] ij a n by auto
  have "distinct_live se_active se_handle ?es"
    using sockets.index_fill(2) [OF d1, of j b] ij b i1 by simp
  moreover have "list_all (\<lambda>e. se_active e \<longrightarrow> SOCKET_HANDLE_START \<le> se_handle e \<and> se_handle e < n + 2) ?es"
  proof (intro list_all_update)
    have "SOCKET_HANDLE_START \<le> n" using sk by (simp add: skeleton_ok_def)
    then show "se_active a \<longrightarrow> SOCKET_HANDLE_START \<le> se_handle a \<and> se_handle a < n + 2"
      "se_active b \<longrightarrow> SOCKET_HANDLE_START \<le> se_handle b \<and> se_handle b < n + 2"
      using a b n by auto
    show "list_all (\<lambda>e. se_active e \<longrightarrow> SOCKET_HANDLE_START \<le> se_handle e \<and> se_handle e < n + 2) es"
      using live old by (auto simp: list_all_iff)
  qed
  moreover have "peers_ok ?es"
    unfolding peers_ok_def
  proof (intro allI impI)
    fix k p
    assume k: "k < length ?es" "se_active (?es ! k)" "se_peer (?es ! k) = Some p"
    consider "k = i" | "k = j" | "k \<noteq> i" "k \<noteq> j" by blast
    then show "\<exists>m<length ?es. m \<noteq> k \<and> se_active (?es ! m) \<and> se_handle (?es ! m) = p \<and>
      se_peer (?es ! m) = Some (se_handle (?es ! k)) \<and> se_options (?es ! m) = se_options (?es ! k)"
    proof cases
      case 1
      with ij a b k show ?thesis by (intro exI [of _ j]) (simp add: nth_list_update)
    next
      case 2
      with ij a b k show ?thesis by (intro exI [of _ i]) (simp add: nth_list_update)
    next
      case 3
      have "peers_ok es" using sk by (simp add: skeleton_ok_def)
      from peers_okD [OF this, of k p] 3 k obtain m where "m < length es" "m \<noteq> k" "se_active (es ! m)"
        "se_handle (es ! m) = p" "se_peer (es ! m) = Some (se_handle (es ! k))"
        "se_options (es ! m) = se_options (es ! k)" by auto
      moreover from this ij have "m \<noteq> i" "m \<noteq> j" by auto
      ultimately show ?thesis using 3 by (intro exI [of _ m]) simp
    qed
  qed
  moreover have "SOCKET_HANDLE_START \<le> n + 2" using sk n by (auto simp: skeleton_ok_def)
  ultimately show ?thesis using sk by (simp add: skeleton_ok_def)
qed

lemma activate_good: "ep_ok e \<Longrightarrow> ep_good (socket_activate e h p opts)"
  by (simp add: ep_good_def ep_ok_def socket_activate_def se_lens_def is_datagram_def)

lemma alloc_cases:
  assumes "SOCKET_HANDLE_START \<le> st_next_handle t" and "socket_alloc_handle t = (t', x)"
  obtains (none) "x = None" "t' = t"
  | (some) "x = Some (st_next_handle t)" "t' = t\<lparr>st_next_handle := st_next_handle t + 1\<rparr>"
      "st_next_handle t < st_next_handle t + 1"
proof (cases "st_next_handle t = INVALID_HANDLE")
  case True
  with assms show thesis by (intro none) (simp_all add: socket_alloc_handle_def)
next
  case False
  then have n: "st_next_handle t < st_next_handle t + 1"
    by (simp add: INVALID_HANDLE_eq word_less_succ)
  have ca: "checked_add (st_next_handle t) 1 = Some (st_next_handle t + 1)"
    using False by (simp add: checked_add_Some_iff unat_succ INVALID_HANDLE_eq)
  have nz: "st_next_handle t \<noteq> 0" using assms(1) by (auto simp: SOCKET_HANDLE_START_def)
  from assms(2) False ca nz n show thesis
    by (intro some) (simp_all add: socket_alloc_handle_def handle_is_valid_def Let_def)
qed

lemma socket_create_cases:
  assumes inv: "sock_inv t" and c: "socket_create_pair t opts = (t', r)"
  obtains (rejected) err where "r = Inl err" "st_endpoints t' = st_endpoints t"
      "st_next_handle t \<le> st_next_handle t'"
  | (created) i j where "r = Inr (st_next_handle t, st_next_handle t + 1)"
      "i < j" "j < length (st_endpoints t)" "\<not> se_active (st_endpoints t ! i)"
      "\<not> se_active (st_endpoints t ! j)"
      "st_next_handle t < st_next_handle t + 1" "st_next_handle t + 1 < st_next_handle t + 2"
      "st_endpoints t' = (st_endpoints t)
        [i := socket_activate (st_endpoints t ! i) (st_next_handle t) (st_next_handle t + 1) opts,
         j := socket_activate (st_endpoints t ! j) (st_next_handle t + 1) (st_next_handle t) opts]"
      "st_next_handle t' = st_next_handle t + 2"
proof (cases "\<not> options_valid opts SOCKET_CREATE_MASK \<or> socket_active_count t + 2 > MAX_SOCKET_OBJECTS
    \<or> free_pair_indices t = None")
  case True
  then have "\<exists>err. socket_create_pair t opts = (t, Inl err)" by (auto simp: socket_create_pair_def)
  with c show thesis by (auto intro: rejected)
next
  case False
  then obtain i j where ij: "free_pair_indices t = Some (i, j)" by auto
  note p = free_pair_Some [OF ij]
  have start: "SOCKET_HANDLE_START \<le> st_next_handle t" using inv by (simp add: sock_inv_def skeleton_ok_def)
  obtain t1 x1 where a1: "socket_alloc_handle t = (t1, x1)" by fastforce
  from start a1 show thesis
  proof (cases rule: alloc_cases)
    case none
    with c a1 False ij show thesis by (intro rejected) (auto simp: socket_create_pair_def)
  next
    case some
    have start1: "SOCKET_HANDLE_START \<le> st_next_handle t1" using start some(2,3) by auto
    obtain t2 x2 where a2: "socket_alloc_handle t1 = (t2, x2)" by fastforce
    from start1 a2 show thesis
    proof (cases rule: alloc_cases)
      case none
      with c a1 a2 False ij some show thesis
        by (intro rejected) (auto simp: socket_create_pair_def)
    next
      case 2: some
      show thesis
      proof (rule created [OF _ p some(3)])
        show "r = Inr (st_next_handle t, st_next_handle t + 1)"
          "st_next_handle t + 1 < st_next_handle t + 2" "st_next_handle t' = st_next_handle t + 2"
          "st_endpoints t' = (st_endpoints t)
            [i := socket_activate (st_endpoints t ! i) (st_next_handle t) (st_next_handle t + 1) opts,
             j := socket_activate (st_endpoints t ! j) (st_next_handle t + 1) (st_next_handle t) opts]"
          using c a1 a2 False ij some 2 p(1)
          by (auto simp: socket_create_pair_def at_endpoint_def Let_def add.commute)
      qed
    qed
  qed
qed

lemma socket_create_inv:
  assumes inv: "sock_inv t"
  shows "sock_inv (fst (socket_create_pair t opts))"
proof -
  obtain t' r where c: "socket_create_pair t opts = (t', r)" by fastforce
  from inv c have "sock_inv t'"
  proof (cases rule: socket_create_cases)
    case (rejected err)
    with inv show ?thesis by (auto simp: sock_inv_def intro: skeleton_mono)
  next
    case (created i j)
    have "ep_good (st_endpoints t ! i)" "ep_good (st_endpoints t ! j)"
      using inv created(2,3) by (auto intro: inv_nth)
    then have "list_all ep_good (st_endpoints t')"
      using inv unfolding created(8)
      by (intro list_all_update activate_good) (simp_all add: sock_inv_def ep_good_def)
    moreover have "skeleton_ok (st_endpoints t') (st_next_handle t')"
      unfolding created(8,9)
      by (rule skeleton_pair [OF _ created(6,7,2,3,4,5)])
        (use inv in \<open>simp_all add: sock_inv_def socket_activate_def\<close>)
    ultimately show ?thesis by (simp add: sock_inv_def)
  qed
  with c show ?thesis by simp
qed

subsection \<open>Closing\<close>

lemma ep_good_ok: "ep_good e \<Longrightarrow> ep_ok e"
  by (simp add: ep_good_def)

lemma clear_good: "ep_ok e \<Longrightarrow> ep_good (socket_clear e)"
  by (simp add: ep_good_def ep_ok_def socket_clear_def se_lens_def is_datagram_def)

lemma forget_sels [simp]:
  "se_active (forget_shared h e) = se_active e" "se_handle (forget_shared h e) = se_handle e"
  "se_peer (forget_shared h e) = se_peer e" "se_options (forget_shared h e) = se_options e"
  "se_bytes (forget_shared h e) = se_bytes e" "se_lens (forget_shared h e) = se_lens e"
  using ep_quiet_forget [of h]
  by (auto simp: ep_quiet_def ep_calm_def ep_core_def ep_payload_def)

lemma forget_good: "ep_good e \<Longrightarrow> ep_good (forget_shared h e)"
  using ep_quiet_forget [of h] by (simp add: ep_quiet_def ep_calm_def)

lemma close_peer_sels [simp]:
  "se_active (close_peer e) = se_active e" "se_handle (close_peer e) = se_handle e"
  "se_peer (close_peer e) = None" "se_options (close_peer e) = se_options e"
  "se_bytes (close_peer e) = se_bytes e" "se_lens (close_peer e) = se_lens e"
  "ep_good (close_peer e) = ep_good e"
  by (simp_all add: close_peer_def se_bytes_def se_lens_def ep_good_def ep_ok_def is_datagram_def)

lemma unlink_peer_nth:
  assumes inv: "sock_inv t" and i: "socket_index (st_endpoints t) h = Some i"
  shows "length (st_endpoints (unlink_peer t i)) = length (st_endpoints t)"
    and "st_next_handle (unlink_peer t i) = st_next_handle t"
    and "k < length (st_endpoints t) \<Longrightarrow> st_endpoints (unlink_peer t i) ! k =
      (if se_peer (st_endpoints t ! i) = Some (se_handle (st_endpoints t ! k))
          \<and> se_active (st_endpoints t ! k)
       then close_peer (st_endpoints t ! k) else st_endpoints t ! k)"
proof -
  show "length (st_endpoints (unlink_peer t i)) = length (st_endpoints t)"
    "st_next_handle (unlink_peer t i) = st_next_handle t"
    by (simp_all add: unlink_peer_def at_endpoint_def split: option.splits)
  show "st_endpoints (unlink_peer t i) ! k =
      (if se_peer (st_endpoints t ! i) = Some (se_handle (st_endpoints t ! k))
          \<and> se_active (st_endpoints t ! k)
       then close_peer (st_endpoints t ! k) else st_endpoints t ! k)" if k: "k < length (st_endpoints t)"
  proof (cases "se_peer (st_endpoints t ! i)")
    case None
    then show ?thesis by (simp add: unlink_peer_def)
  next
    case (Some y)
    from inv_peer [OF inv i Some] obtain j where j: "socket_index (st_endpoints t) y = Some j" by blast
    then have j': "j < length (st_endpoints t)" "se_active (st_endpoints t ! j)" "se_handle (st_endpoints t ! j) = y"
      by (auto dest: sockets.index_SomeD)
    have d: "distinct_live se_active se_handle (st_endpoints t)"
      using inv by (simp add: sock_inv_def skeleton_ok_def)
    have "y = se_handle (st_endpoints t ! k) \<and> se_active (st_endpoints t ! k) \<longleftrightarrow> k = j"
      using distinct_liveD [OF d k j'(1)] j' by metis
    with Some j k show ?thesis by (auto simp: unlink_peer_def at_endpoint_def nth_list_update)
  qed
qed

text \<open>What is left at index \<open>k\<close> after the endpoint at \<open>i\<close> closed.\<close>

lemma socket_close_nth:
  assumes inv: "sock_inv t" and i: "socket_index (st_endpoints t) h = Some i"
    and c: "socket_close t h = (t', r)"
  shows "r" and "st_next_handle t' = st_next_handle t"
    and "length (st_endpoints t') = length (st_endpoints t)"
    and "\<not> se_active (st_endpoints t' ! i)"
    and "k < length (st_endpoints t) \<Longrightarrow> ep_good (st_endpoints t' ! k)"
    and "k < length (st_endpoints t) \<Longrightarrow> k \<noteq> i \<Longrightarrow> st_endpoints t' ! k =
      forget_shared h (if se_peer (st_endpoints t ! i) = Some (se_handle (st_endpoints t ! k))
          \<and> se_active (st_endpoints t ! k)
        then close_peer (st_endpoints t ! k) else st_endpoints t ! k)"
proof -
  note u = unlink_peer_nth [OF inv i]
  let ?t1 = "unlink_peer t i"
  let ?es = "map (forget_shared h) (st_endpoints ?t1)"
  have il: "i < length (st_endpoints t)" using i by (auto dest: sockets.index_SomeD)
  have t': "r" "t' = ?t1\<lparr>st_endpoints := ?es[i := socket_clear (?es ! i)]\<rparr>"
    using c i by (auto simp: socket_close_def Let_def at_endpoint_def)
  show r by (rule t'(1))
  show "st_next_handle t' = st_next_handle t" "length (st_endpoints t') = length (st_endpoints t)"
    using u by (simp_all add: t'(2))
  show "\<not> se_active (st_endpoints t' ! i)" using il u(1) by (simp add: t'(2) socket_clear_def)
  show n: "st_endpoints t' ! k =
      forget_shared h (if se_peer (st_endpoints t ! i) = Some (se_handle (st_endpoints t ! k))
          \<and> se_active (st_endpoints t ! k)
        then close_peer (st_endpoints t ! k) else st_endpoints t ! k)"
    if "k < length (st_endpoints t)" "k \<noteq> i" for k
    using that u(1) u(3) [OF that(1)] by (simp add: t'(2))
  have g: "ep_good (?es ! k)" if "k < length (st_endpoints t)" for k
    using that u(1) u(3) [OF that] inv_nth [OF inv that] by (simp add: forget_good)
  show "ep_good (st_endpoints t' ! k)" if "k < length (st_endpoints t)"
    using g [OF that] that il u(1)
    by (cases "k = i") (simp_all add: t'(2) clear_good ep_good_ok)
qed

lemma socket_close_inv:
  assumes inv: "sock_inv t"
  shows "sock_inv (fst (socket_close t h))"
proof (cases "socket_index (st_endpoints t) h")
  case None
  with inv show ?thesis by (simp add: socket_close_def)
next
  case (Some i)
  obtain t' r where c: "socket_close t h = (t', r)" by fastforce
  note n = socket_close_nth [OF inv Some c]
  let ?es = "st_endpoints t" and ?es' = "st_endpoints t'"
  have i: "i < length ?es" "se_active (?es ! i)" "se_handle (?es ! i) = h"
    using Some by (auto dest: sockets.index_SomeD)
  have sk: "length ?es = MAX_SOCKET_OBJECTS" "distinct_live se_active se_handle ?es" "peers_ok ?es"
    "SOCKET_HANDLE_START \<le> st_next_handle t"
    using inv by (simp_all add: sock_inv_def skeleton_ok_def)
  have old: "se_active (?es ! k) \<and> k \<noteq> i \<and> se_handle (?es' ! k) = se_handle (?es ! k)"
    if "k < length ?es" "se_active (?es' ! k)" for k
    using that n(4) n(6) [OF that(1)] by (cases "k = i") (auto split: if_splits)
  have "list_all ep_good ?es'" using n(3,5) by (simp add: list_all_length)
  moreover have "distinct_live se_active se_handle ?es'"
    unfolding distinct_live_iff n(3)
  proof (intro allI impI, elim conjE)
    fix a b
    assume ab: "a < length ?es" "b < length ?es" "se_active (?es' ! a)" "se_active (?es' ! b)"
      "se_handle (?es' ! a) = se_handle (?es' ! b)"
    with distinct_liveD [OF sk(2) ab(1,2)] old [OF ab(1,3)] old [OF ab(2,4)] show "a = b" by simp
  qed
  moreover have "list_all (\<lambda>e. se_active e \<longrightarrow> SOCKET_HANDLE_START \<le> se_handle e
      \<and> se_handle e < st_next_handle t) ?es'"
    using inv old by (auto simp: list_all_length n(3) sock_inv_def skeleton_ok_def)
  moreover have "peers_ok ?es'"
    unfolding peers_ok_def n(3)
  proof (intro allI impI)
    fix k p
    assume k: "k < length ?es" "se_active (?es' ! k)" "se_peer (?es' ! k) = Some p"
    note ko = old [OF k(1,2)]
    have pk: "se_peer (?es ! k) = Some p" and nk: "se_peer (?es ! i) \<noteq> Some (se_handle (?es ! k))"
      and ok: "se_options (?es' ! k) = se_options (?es ! k)"
      using k(3) n(6) [OF k(1)] ko by (auto split: if_splits)
    from peers_okD [OF sk(3) k(1) _ pk] ko obtain m where m: "m < length ?es" "m \<noteq> k"
      "se_active (?es ! m)" "se_handle (?es ! m) = p" "se_peer (?es ! m) = Some (se_handle (?es ! k))"
      "se_options (?es ! m) = se_options (?es ! k)" by auto
    have mi: "m \<noteq> i" using m(5) nk by auto
    have "se_peer (?es ! i) \<noteq> Some p"
    proof
      assume ip: "se_peer (?es ! i) = Some p"
      from peers_okD [OF sk(3) i(1,2) ip] obtain j where "j < length ?es" "se_active (?es ! j)"
        "se_handle (?es ! j) = p" "se_peer (?es ! j) = Some (se_handle (?es ! i))" by auto
      with distinct_liveD [OF sk(2) m(1)] m have "se_handle (?es ! k) = se_handle (?es ! i)" by auto
      with distinct_liveD [OF sk(2) k(1) i(1)] ko i show False by auto
    qed
    with n(6) [OF m(1) mi] m(4) have "?es' ! m = forget_shared h (?es ! m)" by auto
    with m ko ok show "\<exists>m<length ?es. m \<noteq> k \<and> se_active (?es' ! m) \<and> se_handle (?es' ! m) = p
        \<and> se_peer (?es' ! m) = Some (se_handle (?es' ! k)) \<and> se_options (?es' ! m) = se_options (?es' ! k)"
      by (intro exI [of _ m]) simp
  qed
  ultimately show ?thesis using sk n(2,3) c by (simp add: sock_inv_def skeleton_ok_def)
qed

subsection \<open>Runs of socket operations\<close>

datatype SocketOp =
    SCreate u32
  | SClose HandleValue
  | SWrite HandleValue "u8 list"
  | SRead HandleValue u32 nat
  | SShutdown HandleValue u32
  | SShare HandleValue HandleValue
  | SAccept HandleValue
  | SSignal HandleValue u32 u32
  | SSignalPeer HandleValue u32 u32
  | SSetProperty HandleValue u32 u64

fun socket_step :: "SocketTable \<Rightarrow> SocketOp \<Rightarrow> SocketTable" where
  "socket_step t (SCreate opts) = fst (socket_create_pair t opts)"
| "socket_step t (SClose h) = fst (socket_close t h)"
| "socket_step t (SWrite h bytes) = fst (socket_write t h bytes)"
| "socket_step t (SRead h opts n) = fst (socket_read t h opts (replicate n 0))"
| "socket_step t (SShutdown h opts) = fst (socket_shutdown t h opts)"
| "socket_step t (SShare h g) = fst (socket_share t h g)"
| "socket_step t (SAccept h) = fst (socket_accept t h)"
| "socket_step t (SSignal h c st) = fst (socket_update_signals t h c st)"
| "socket_step t (SSignalPeer h c st) = fst (socket_signal_peer t h c st)"
| "socket_step t (SSetProperty h prop v) = fst (socket_set_property t h prop v)"

text \<open>What a client sees of the endpoint with handle \<open>x\<close>: its core and its queued data.\<close>

definition sock_view :: "SocketTable \<Rightarrow> HandleValue \<Rightarrow>
    ((bool \<times> HandleValue \<times> HandleValue option \<times> u32) \<times> u8 list \<times> nat list) option" where
  "sock_view t x = map_option (\<lambda>i. (ep_core (st_endpoints t ! i), ep_payload (st_endpoints t ! i)))
     (socket_index (st_endpoints t) x)"

definition sock_linked :: "bool \<Rightarrow> HandleValue \<Rightarrow> HandleValue \<Rightarrow> SocketTable \<Rightarrow> bool" where
  "sock_linked dg x y t = (case sock_view t x of
     Some ((_, _, peer, opts), _) \<Rightarrow> peer = Some y \<and> (opts AND SOCKET_DATAGRAM \<noteq> 0) = dg
   | None \<Rightarrow> False)"

definition stream_queue :: "SocketTable \<Rightarrow> HandleValue \<Rightarrow> u8 list" where
  "stream_queue t x = (case sock_view t x of Some (_, bs, _) \<Rightarrow> bs | None \<Rightarrow> [])"

definition packet_queue :: "SocketTable \<Rightarrow> HandleValue \<Rightarrow> u8 list list" where
  "packet_queue t x = (case sock_view t x of Some (_, bs, ns) \<Rightarrow> chunks ns bs | None \<Rightarrow> [])"

lemma sock_view_quiet:
  assumes "quiet t t'"
  shows "sock_view t' x = sock_view t x"
proof -
  have e: "ep_core (st_endpoints t' ! i) = ep_core (st_endpoints t ! i)"
    "ep_payload (st_endpoints t' ! i) = ep_payload (st_endpoints t ! i)"
    if "i < length (st_endpoints t)" for i
    using assms that unfolding quiet_def by (metis length_map nth_map)+
  show ?thesis unfolding sock_view_def quiet_index [OF assms]
    using e by (cases "socket_index (st_endpoints t) x") (auto dest: sockets.index_SomeD)
qed

lemma sock_view_at:
  assumes "ep_core e = ep_core (st_endpoints t ! j)" and "j < length (st_endpoints t)"
  shows "sock_view (at_endpoint t j (\<lambda>_. e)) x =
    (if socket_index (st_endpoints t) x = Some j then Some (ep_core e, ep_payload e) else sock_view t x)"
  unfolding sock_view_def at_index [OF assms(1)]
  using assms(2) by (cases "socket_index (st_endpoints t) x") (auto simp: at_endpoint_def nth_list_update)

lemma sock_view_create:
  assumes inv: "sock_inv t" and x: "socket_index (st_endpoints t) x = Some k"
    and c: "socket_create_pair t opts = (t', r)"
  shows "sock_view t' x = sock_view t x"
proof -
  have inv': "distinct_live se_active se_handle (st_endpoints t')"
    using socket_create_inv [OF inv, of opts] c by (simp add: sock_inv_def skeleton_ok_def)
  have k: "k < length (st_endpoints t)" "se_active (st_endpoints t ! k)" "se_handle (st_endpoints t ! k) = x"
    using x by (auto dest: sockets.index_SomeD)
  from inv c have "st_endpoints t' ! k = st_endpoints t ! k \<and> length (st_endpoints t') = length (st_endpoints t)"
  proof (cases rule: socket_create_cases)
    case (created i j)
    then have "k \<noteq> i" "k \<noteq> j" using k by auto
    with created(8) show ?thesis by simp
  qed simp
  with k x sockets.index_SomeI [OF inv', of k x] show ?thesis by (simp add: sock_view_def)
qed

lemma sock_view_close:
  assumes inv: "sock_inv t" and l: "sock_linked dg x y t" and h: "h \<noteq> x" "h \<noteq> y"
    and c: "socket_close t h = (t', r)"
  shows "sock_view t' x = sock_view t x"
proof (cases "socket_index (st_endpoints t) h")
  case None
  with c show ?thesis by (simp add: socket_close_def)
next
  case (Some i)
  note n = socket_close_nth [OF inv Some c]
  have inv': "distinct_live se_active se_handle (st_endpoints t')"
    using socket_close_inv [OF inv, of h] c by (simp add: sock_inv_def skeleton_ok_def)
  obtain k where x: "socket_index (st_endpoints t) x = Some k" and p: "se_peer (st_endpoints t ! k) = Some y"
    using l by (auto simp: sock_linked_def sock_view_def ep_core_def split: option.splits)
  have k: "k < length (st_endpoints t)" "se_active (st_endpoints t ! k)" "se_handle (st_endpoints t ! k) = x"
    using x by (auto dest: sockets.index_SomeD)
  have ih: "se_handle (st_endpoints t ! i) = h" using Some by (auto dest: sockets.index_SomeD)
  with k h have ki: "k \<noteq> i" by auto
  have "se_peer (st_endpoints t ! i) \<noteq> Some x"
    using inv_peer [OF inv Some] x p h(2) by auto
  with n(6) [OF k(1) ki] k(3) have e: "st_endpoints t' ! k = forget_shared h (st_endpoints t ! k)" by auto
  then have "socket_index (st_endpoints t') x = Some k"
    using k n(3) by (intro sockets.index_SomeI [OF inv']) auto
  with x e show ?thesis by (simp add: sock_view_def ep_core_def ep_payload_def)
qed

lemma sock_linkedE:
  assumes "sock_linked dg x y t"
  obtains k where "socket_index (st_endpoints t) x = Some k" "se_peer (st_endpoints t ! k) = Some y"
    "is_datagram (st_endpoints t ! k) = dg" "k < length (st_endpoints t)"
    "sock_view t x = Some (ep_core (st_endpoints t ! k), ep_payload (st_endpoints t ! k))"
  using assms
  by (auto simp: sock_linked_def sock_view_def ep_core_def is_datagram_def split: option.splits
      dest: sockets.index_SomeD)

lemma stream_queue_linked: "socket_index (st_endpoints t) x = Some k \<Longrightarrow> stream_queue t x = se_bytes (st_endpoints t ! k)"
  by (simp add: stream_queue_def sock_view_def ep_payload_def)

lemma packet_queue_linked: "socket_index (st_endpoints t) x = Some k \<Longrightarrow> packet_queue t x = se_packets (st_endpoints t ! k)"
  by (simp add: packet_queue_def sock_view_def ep_payload_def se_packets_def)

lemma linked_cong: "sock_view t' x = sock_view t x \<Longrightarrow> sock_linked dg x y t' = sock_linked dg x y t"
  by (simp add: sock_linked_def)

lemma queue_cong:
  "sock_view t' x = sock_view t x \<Longrightarrow> stream_queue t' x = stream_queue t x"
  "sock_view t' x = sock_view t x \<Longrightarrow> packet_queue t' x = packet_queue t x"
  by (simp_all add: stream_queue_def packet_queue_def)

lemma socket_write_law:
  assumes inv: "sock_inv t" and l: "sock_linked dg x y t" and w: "socket_write t h bytes = (t', r)"
  shows "sock_inv t'" and "sock_linked dg x y t'"
    and "\<not> dg \<Longrightarrow> stream_queue t' x =
      stream_queue t x @ (case r of Inr n \<Rightarrow> if h = y then take n bytes else [] | Inl _ \<Rightarrow> [])"
    and "dg \<Longrightarrow> packet_queue t' x = packet_queue t x @ (if h = y \<and> is_ok r then [bytes] else [])"
proof -
  from inv w have "sock_inv t' \<and> sock_linked dg x y t'
    \<and> (\<not> dg \<longrightarrow> stream_queue t' x =
      stream_queue t x @ (case r of Inr n \<Rightarrow> if h = y then take n bytes else [] | Inl _ \<Rightarrow> []))
    \<and> (dg \<longrightarrow> packet_queue t' x = packet_queue t x @ (if h = y \<and> is_ok r then [bytes] else []))"
  proof (cases rule: socket_write_cases)
    case (rejected err)
    with inv l show ?thesis by (simp add: is_ok_def)
  next
    case (accepted i j z e n)
    let ?t1 = "at_endpoint t j (\<lambda>_. e)"
    have j: "j < length (st_endpoints t)" "se_handle (st_endpoints t ! j) = z"
      using accepted(4) by (auto dest: sockets.index_SomeD)
    have inv': "sock_inv t'" using quiet_inv [OF accepted(11)] at_inv [OF inv j(1) accepted(7,6)] by blast
    obtain k where k: "socket_index (st_endpoints t) x = Some k" "se_peer (st_endpoints t ! k) = Some y"
      "is_datagram (st_endpoints t ! k) = dg" "k < length (st_endpoints t)"
      using l by (rule sock_linkedE)
    have v: "sock_view t' x = (if k = j then Some (ep_core e, ep_payload e) else sock_view t x)"
      using sock_view_quiet [OF accepted(11)] sock_view_at [OF accepted(7) j(1), of x] k(1) by simp
    have kj: "k = j \<longleftrightarrow> h = y"
    proof
      assume "k = j"
      with inv_peer [OF inv accepted(2,3)] accepted(4) k(2) show "h = y" by auto
    next
      assume "h = y"
      with inv_peer [OF inv k(1,2)] accepted(2-4) k(1) show "k = j" by auto
    qed
    show ?thesis
    proof (cases "k = j")
      case True
      have "sock_linked dg x y t'"
        using v True k(2,3) accepted(7) by (simp add: sock_linked_def ep_core_def is_datagram_def)
      moreover have "stream_queue t' x = se_bytes e" "packet_queue t' x = se_packets e"
        using v True by (simp_all add: stream_queue_def packet_queue_def ep_payload_def se_packets_def)
      ultimately show ?thesis
        using inv' True kj accepted(1,8,9) k(1,3)
        by (simp add: stream_queue_linked packet_queue_linked is_ok_def)
    next
      case False
      with v have v': "sock_view t' x = sock_view t x" by simp
      show ?thesis
        using linked_cong [OF v'] queue_cong [OF v'] l inv' kj False
        by (simp add: accepted(1) is_ok_def)
    qed
  qed
  then show "sock_inv t'" "sock_linked dg x y t'"
    "\<not> dg \<Longrightarrow> stream_queue t' x =
      stream_queue t x @ (case r of Inr n \<Rightarrow> if h = y then take n bytes else [] | Inl _ \<Rightarrow> [])"
    "dg \<Longrightarrow> packet_queue t' x = packet_queue t x @ (if h = y \<and> is_ok r then [bytes] else [])"
    by blast+
qed

text \<open>What a read shows of a packet: its longest prefix that fits the buffer of the reader.\<close>

definition shows_packet :: "nat \<times> u8 list \<Rightarrow> u8 list \<Rightarrow> bool" where
  "shows_packet seen packet \<longleftrightarrow> snd seen = take (fst seen) packet"

definition peeks :: "u32 \<Rightarrow> bool" where
  "peeks opts \<longleftrightarrow> opts AND SOCKET_PEEK \<noteq> 0"

text \<open>A read replaces the endpoint by one with a shorter queue; nothing else the peers see changes.\<close>

lemma socket_read_effect:
  assumes inv: "sock_inv t" and rd: "socket_read t h opts out = (t', out', r)"
  obtains (rejected) err where "r = Inl err" "err \<noteq> ErrInternal" "t' = t" "out' = out"
  | (stream) i e n where "socket_index (st_endpoints t) h = Some i" "i < length (st_endpoints t)"
      "\<not> is_datagram (st_endpoints t ! i)" "r = Inr n"
      "n = min (length out) (length (se_bytes (st_endpoints t ! i)))"
      "out' = take n (se_bytes (st_endpoints t ! i)) @ drop n out" "ep_good e"
      "ep_core e = ep_core (st_endpoints t ! i)"
      "se_bytes e = (if peeks opts then se_bytes (st_endpoints t ! i) else drop n (se_bytes (st_endpoints t ! i)))"
      "quiet (at_endpoint t i (\<lambda>_. e)) t'"
  | (packet) i e n p ps where "socket_index (st_endpoints t) h = Some i" "i < length (st_endpoints t)"
      "is_datagram (st_endpoints t ! i)" "r = Inr n" "se_packets (st_endpoints t ! i) = p # ps"
      "n = min (length out) (length p)" "out' = take n p @ drop n out" "ep_good e"
      "ep_core e = ep_core (st_endpoints t ! i)"
      "se_packets e = (if peeks opts then p # ps else ps)"
      "quiet (at_endpoint t i (\<lambda>_. e)) t'"
  using rd
proof (cases rule: socket_read_cases)
  case (rejected err)
  with that(1) show thesis by blast
next
  case (received i)
  have i: "i < length (st_endpoints t)" using received(1) by (auto dest: sockets.index_SomeD)
  show thesis
  proof (cases "is_datagram (st_endpoints t ! i)")
    case True
    from received(2) True have "socket_receive t i True (peeks opts) out = (t', out', r)"
      by (simp add: peeks_def)
    from socket_receive_datagram [OF inv i True received(3) [OF True] this] show thesis
      using that(3) [OF received(1) i True] by metis
  next
    case False
    from received(2) False have "socket_receive t i False (peeks opts) out = (t', out', r)"
      by (simp add: peeks_def)
    from socket_receive_stream [OF inv i False this] show thesis
      using that(2) [OF received(1) i False] by (metis length_se_bytes)
  qed
qed

lemma socket_read_law:
  assumes inv: "sock_inv t" and l: "sock_linked dg x y t"
    and rd: "socket_read t h opts out = (t', out', r)"
  shows "sock_inv t'" and "sock_linked dg x y t'"
    and "\<not> dg \<Longrightarrow> stream_queue t x =
      (case r of Inr n \<Rightarrow> if h = x \<and> \<not> peeks opts then take n out' else [] | Inl _ \<Rightarrow> []) @ stream_queue t' x"
    and "dg \<Longrightarrow> \<exists>ps. packet_queue t x = ps @ packet_queue t' x \<and> list_all2 shows_packet
      (case r of Inr n \<Rightarrow> if h = x \<and> \<not> peeks opts then [(length out, take n out')] else [] | Inl _ \<Rightarrow> []) ps"
proof -
  obtain k where k: "socket_index (st_endpoints t) x = Some k" "se_peer (st_endpoints t ! k) = Some y"
    "is_datagram (st_endpoints t ! k) = dg" "k < length (st_endpoints t)"
    using l by (rule sock_linkedE)
  have view: "sock_view t' x = (if h = x then Some (ep_core e, ep_payload e) else sock_view t x) \<and> sock_inv t'
      \<and> (h = x \<longrightarrow> k = i)"
    if "socket_index (st_endpoints t) h = Some i" "i < length (st_endpoints t)" "ep_good e"
      "ep_core e = ep_core (st_endpoints t ! i)" "quiet (at_endpoint t i (\<lambda>_. e)) t'" for i e
  proof -
    have "se_handle (st_endpoints t ! i) = h" "se_handle (st_endpoints t ! k) = x"
      using that(1) k(1) by (auto dest: sockets.index_SomeD)
    then have ki: "k = i \<longleftrightarrow> h = x" using that(1) k(1) by (metis option.inject)
    have "sock_view t' x = (if k = i then Some (ep_core e, ep_payload e) else sock_view t x)"
      using sock_view_quiet [OF that(5)] sock_view_at [OF that(4,2), of x] k(1) by simp
    with ki quiet_inv [OF that(5) at_inv [OF inv that(2,4,3)]] show ?thesis by simp
  qed
  from inv rd have "sock_inv t' \<and> sock_linked dg x y t'
    \<and> (\<not> dg \<longrightarrow> stream_queue t x =
      (case r of Inr n \<Rightarrow> if h = x \<and> \<not> peeks opts then take n out' else [] | Inl _ \<Rightarrow> []) @ stream_queue t' x)
    \<and> (dg \<longrightarrow> (\<exists>ps. packet_queue t x = ps @ packet_queue t' x \<and> list_all2 shows_packet
      (case r of Inr n \<Rightarrow> if h = x \<and> \<not> peeks opts then [(length out, take n out')] else [] | Inl _ \<Rightarrow> []) ps))"
  proof (cases rule: socket_read_effect)
    case (rejected err)
    with inv l show ?thesis by (simp add: is_ok_def)
  next
    case (stream i e n)
    note v = view [OF stream(1,2,7,8,10)]
    show ?thesis
    proof (cases "h = x")
      case False
      with v have v': "sock_view t' x = sock_view t x" "sock_inv t'" by simp_all
      show ?thesis using linked_cong [OF v'(1)] queue_cong [OF v'(1)] l v'(2) False stream(4) by simp
    next
      case True
      with v have ki: "k = i" and v': "sock_view t' x = Some (ep_core e, ep_payload e)" by simp_all
      have "sock_linked dg x y t'"
        using v' k(2,3) ki stream(8) by (simp add: sock_linked_def ep_core_def is_datagram_def)
      moreover have "stream_queue t' x = se_bytes e" using v' by (simp add: stream_queue_def ep_payload_def)
      moreover have "stream_queue t x = se_bytes (st_endpoints t ! i)" using k(1) ki by (simp add: stream_queue_linked)
      ultimately show ?thesis using v k(3) ki stream(3,4,5,6,9) True by (simp add: min_def)
    qed
  next
    case (packet i e n p ps)
    note v = view [OF packet(1,2,8,9,11)]
    show ?thesis
    proof (cases "h = x")
      case False
      with v have v': "sock_view t' x = sock_view t x" "sock_inv t'" by simp_all
      show ?thesis using linked_cong [OF v'(1)] queue_cong [OF v'(1)] l v'(2) False packet(4) by simp
    next
      case True
      with v have ki: "k = i" and v': "sock_view t' x = Some (ep_core e, ep_payload e)" by simp_all
      have "sock_linked dg x y t'"
        using v' k(2,3) ki packet(9) by (simp add: sock_linked_def ep_core_def is_datagram_def)
      moreover have "packet_queue t' x = se_packets e"
        using v' by (simp add: packet_queue_def ep_payload_def se_packets_def)
      moreover have "packet_queue t x = p # ps" using k(1) ki packet(5) by (simp add: packet_queue_linked)
      moreover have "take n out' = take (length out) p" using packet(6,7) by (simp add: min_def)
      ultimately show ?thesis using v k(3) ki packet(3,4,10) True
        by (cases "peeks opts") (auto simp: shows_packet_def intro!: exI [of _ "[p]"])
    qed
  qed
  then show "sock_inv t'" "sock_linked dg x y t'"
    "\<not> dg \<Longrightarrow> stream_queue t x =
      (case r of Inr n \<Rightarrow> if h = x \<and> \<not> peeks opts then take n out' else [] | Inl _ \<Rightarrow> []) @ stream_queue t' x"
    "dg \<Longrightarrow> \<exists>ps. packet_queue t x = ps @ packet_queue t' x \<and> list_all2 shows_packet
      (case r of Inr n \<Rightarrow> if h = x \<and> \<not> peeks opts then [(length out, take n out')] else [] | Inl _ \<Rightarrow> []) ps"
    by blast+
qed

lemma socket_read_inv:
  assumes "sock_inv t"
  shows "sock_inv (fst (socket_read t h opts out))"
proof -
  obtain t' out' r where rd: "socket_read t h opts out = (t', out', r)" by (metis prod.collapse)
  from assms rd have "sock_inv t'"
    by (cases rule: socket_read_effect) (auto intro: quiet_inv at_inv assms)
  with rd show ?thesis by simp
qed

lemma socket_write_inv:
  assumes "sock_inv t"
  shows "sock_inv (fst (socket_write t h bytes))"
proof -
  obtain t' r where w: "socket_write t h bytes = (t', r)" by fastforce
  from assms w have "sock_inv t'"
  proof (cases rule: socket_write_cases)
    case (accepted i j y e n)
    have "j < length (st_endpoints t)" using accepted(4) by (auto dest: sockets.index_SomeD)
    from quiet_inv [OF accepted(11) at_inv [OF assms this accepted(7,6)]] show ?thesis .
  qed (simp add: assms)
  with w show ?thesis by simp
qed

lemma socket_step_quiet:
  "\<forall>h. op \<noteq> SClose h \<Longrightarrow> \<forall>opts. op \<noteq> SCreate opts \<Longrightarrow> \<forall>h bytes. op \<noteq> SWrite h bytes \<Longrightarrow>
     \<forall>h opts n. op \<noteq> SRead h opts n \<Longrightarrow> quiet t (socket_step t op)"
  by (cases op) (simp_all add: quiet_shutdown quiet_share quiet_accept quiet_update_signals
      quiet_signal_peer quiet_set_property)

lemma socket_step_inv:
  assumes "sock_inv t"
  shows "sock_inv (socket_step t op)"
  using assms quiet_inv [OF socket_step_quiet, of op t]
  by (cases op) (simp_all add: socket_create_inv socket_close_inv socket_write_inv socket_read_inv)

lemma socket_table_new_inv: "sock_inv socket_table_new"
proof -
  have "ep_good socket_empty"
    by (simp add: ep_good_def ep_ok_def socket_empty_def is_datagram_def)
  moreover have "skeleton_ok (replicate MAX_SOCKET_OBJECTS socket_empty) SOCKET_HANDLE_START"
    by (auto simp: skeleton_ok_def list_all_iff peers_ok_def socket_empty_def intro!: distinct_live_none)
  ultimately show ?thesis by (simp add: sock_inv_def socket_table_new_def list_all_iff)
qed

fun bytes_sent :: "HandleValue \<Rightarrow> SocketTable \<Rightarrow> SocketOp \<Rightarrow> u8 list" where
  "bytes_sent y t (SWrite h bytes) =
     (case snd (socket_write t h bytes) of Inr n \<Rightarrow> if h = y then take n bytes else [] | Inl _ \<Rightarrow> [])"
| "bytes_sent y t _ = []"

fun bytes_received :: "HandleValue \<Rightarrow> SocketTable \<Rightarrow> SocketOp \<Rightarrow> u8 list" where
  "bytes_received x t (SRead h opts n) =
     (case snd (socket_read t h opts (replicate n 0)) of
        (out, Inr m) \<Rightarrow> if h = x \<and> \<not> peeks opts then take m out else []
      | (out, Inl _) \<Rightarrow> [])"
| "bytes_received x t _ = []"

fun packets_sent :: "HandleValue \<Rightarrow> SocketTable \<Rightarrow> SocketOp \<Rightarrow> u8 list list" where
  "packets_sent y t (SWrite h bytes) =
     (if h = y \<and> is_ok (snd (socket_write t h bytes)) then [bytes] else [])"
| "packets_sent y t _ = []"

text \<open>For every read that takes a packet, the size of the buffer and the bytes found in it.\<close>

fun packets_received :: "HandleValue \<Rightarrow> SocketTable \<Rightarrow> SocketOp \<Rightarrow> (nat \<times> u8 list) list" where
  "packets_received x t (SRead h opts n) =
     (case snd (socket_read t h opts (replicate n 0)) of
        (out, Inr m) \<Rightarrow> if h = x \<and> \<not> peeks opts then [(n, take m out)] else []
      | (out, Inl _) \<Rightarrow> [])"
| "packets_received x t _ = []"

fun keeps_socket :: "HandleValue \<Rightarrow> HandleValue \<Rightarrow> SocketOp \<Rightarrow> bool" where
  "keeps_socket x y (SClose h) \<longleftrightarrow> h \<noteq> x \<and> h \<noteq> y"
| "keeps_socket x y _ \<longleftrightarrow> True"

definition sock_good :: "bool \<Rightarrow> HandleValue \<Rightarrow> HandleValue \<Rightarrow> SocketTable \<Rightarrow> bool" where
  "sock_good dg x y t \<longleftrightarrow> sock_inv t \<and> sock_linked dg x y t"

lemma socket_step_law:
  assumes good: "sock_good dg x y t" and k: "keeps_socket x y op"
  shows "sock_good dg x y (socket_step t op)"
    and "\<not> dg \<Longrightarrow> stream_queue t x @ bytes_sent y t op
      = bytes_received x t op @ stream_queue (socket_step t op) x"
    and "dg \<Longrightarrow> \<exists>ps. packet_queue t x @ packets_sent y t op = ps @ packet_queue (socket_step t op) x
      \<and> list_all2 shows_packet (packets_received x t op) ps"
proof -
  from good have inv: "sock_inv t" and l: "sock_linked dg x y t" by (simp_all add: sock_good_def)
  have inv': "sock_inv (socket_step t op)" by (rule socket_step_inv [OF inv])
  have same: "sock_good dg x y (socket_step t op)
      \<and> stream_queue (socket_step t op) x = stream_queue t x
      \<and> packet_queue (socket_step t op) x = packet_queue t x"
    if "sock_view (socket_step t op) x = sock_view t x"
    using linked_cong [OF that] queue_cong [OF that] l inv' by (simp add: sock_good_def)
  have "sock_good dg x y (socket_step t op)
    \<and> (\<not> dg \<longrightarrow> stream_queue t x @ bytes_sent y t op
      = bytes_received x t op @ stream_queue (socket_step t op) x)
    \<and> (dg \<longrightarrow> (\<exists>ps. packet_queue t x @ packets_sent y t op = ps @ packet_queue (socket_step t op) x
      \<and> list_all2 shows_packet (packets_received x t op) ps))"
  proof (cases op)
    case (SCreate opts)
    obtain t' r where c: "socket_create_pair t opts = (t', r)" by fastforce
    obtain i where "socket_index (st_endpoints t) x = Some i" using l by (rule sock_linkedE)
    from sock_view_create [OF inv this c] same c SCreate show ?thesis by simp
  next
    case (SClose h)
    obtain t' r where c: "socket_close t h = (t', r)" by fastforce
    from sock_view_close [OF inv l _ _ c] k same c SClose show ?thesis by simp
  next
    case (SWrite h bytes)
    obtain t' r where w: "socket_write t h bytes = (t', r)" by fastforce
    from socket_write_law [OF inv l w] w SWrite show ?thesis by (simp add: sock_good_def)
  next
    case (SRead h opts n)
    obtain t' out' r where rd: "socket_read t h opts (replicate n 0) = (t', out', r)"
      by (metis prod.collapse)
    from socket_read_law [OF inv l rd] rd SRead show ?thesis
      by (cases r; cases "h = x \<and> \<not> peeks opts") (auto simp: sock_good_def)
  qed (use same sock_view_quiet [OF socket_step_quiet, of op t x] in simp_all)
  then show "sock_good dg x y (socket_step t op)"
    "\<not> dg \<Longrightarrow> stream_queue t x @ bytes_sent y t op
      = bytes_received x t op @ stream_queue (socket_step t op) x"
    "dg \<Longrightarrow> \<exists>ps. packet_queue t x @ packets_sent y t op = ps @ packet_queue (socket_step t op) x
      \<and> list_all2 shows_packet (packets_received x t op) ps" by blast+
qed

interpretation stream_fifo: fifo_law "sock_good False x y" "keeps_socket x y" socket_step
  "\<lambda>t. stream_queue t x" "bytes_sent y" "bytes_received x" for x y
  by unfold_locales (use socket_step_law in blast)+

interpretation packet_fifo: fifo_match "sock_good True x y" "keeps_socket x y" socket_step
  "\<lambda>t. packet_queue t x" "packets_sent y" "packets_received x" shows_packet for x y
  by unfold_locales (use socket_step_law in blast)+

subsection \<open>Properties\<close>

text \<open>
  C27: the socket table stays well formed under every sequence of operations, without any bound:
  rings stay within their arrays, the datagram lengths add up to the bytes held, live handles are
  distinct and below the counter, and peers point at each other with the same options.
\<close>

theorem socket_table_invariant: "sock_inv (run_steps socket_step socket_table_new ops)"
  by (rule run_steps_invariant [where I = sock_inv]) (simp_all add: socket_step_inv socket_table_new_inv)

text \<open>
  C14: stream sockets deliver bytes in order.  Whatever happens in between (short writes, peeks,
  shutdowns, sharing, other sockets opening and closing), the bytes waiting at \<open>x\<close> followed by
  those accepted from its peer \<open>y\<close> are the bytes handed to the readers of \<open>x\<close> followed by
  those still waiting.
\<close>

theorem socket_stream_order:
  assumes "sock_inv t" and "sock_linked False x y t" and "list_all (keeps_socket x y) ops"
  shows "stream_queue t x @ run_trace socket_step (bytes_sent y) t ops =
    run_trace socket_step (bytes_received x) t ops @ stream_queue (run_steps socket_step t ops) x"
  using stream_fifo.run_conserves [of x y t ops] assms by (simp add: sock_good_def)

text \<open>
  C28: datagram sockets keep packet boundaries.  While neither end of a pair is closed, and whatever
  else happens in between, the packets waiting at \<open>x\<close> followed by those accepted from its peer \<open>y\<close>
  (one for each successful write) are a list \<open>ps\<close> followed by the packets still waiting; the successful
  reads at \<open>x\<close> that do not peek take the packets \<open>ps\<close>, one each and in order, and each has left in
  the buffer of its caller the packet, cut to the size of that buffer.
\<close>

theorem socket_datagram_order:
  assumes "sock_inv t" and "sock_linked True x y t" and "list_all (keeps_socket x y) ops"
  shows "\<exists>ps. packet_queue t x @ run_trace socket_step (packets_sent y) t ops
       = ps @ packet_queue (run_steps socket_step t ops) x
     \<and> list_all2 shows_packet (run_trace socket_step (packets_received x) t ops) ps"
  using packet_fifo.run_matches [of x y t ops] assms by (simp add: sock_good_def)

text \<open>The kind of an endpoint, whether or not its peer is still open.\<close>

definition sock_is_datagram :: "SocketTable \<Rightarrow> HandleValue \<Rightarrow> bool" where
  "sock_is_datagram t x = (case sock_view t x of Some ((_, _, _, opts), _) \<Rightarrow> opts AND SOCKET_DATAGRAM \<noteq> 0 | None \<Rightarrow> False)"

lemma sock_is_datagram_at: "socket_index (st_endpoints t) x = Some k \<Longrightarrow> sock_is_datagram t x = is_datagram (st_endpoints t ! k)"
  by (simp add: sock_is_datagram_def sock_view_def ep_core_def is_datagram_def)

text \<open>
  C29: what a read returns and what it takes, also after the peer has closed.  On a well-formed table a
  read never reports \<open>ErrInternal\<close>: the loops that could run out of bytes do not; and a read that fails
  changes neither the table nor the buffer.  A successful read of a stream fills the buffer of the
  caller with the longest prefix of the waiting bytes that fits, and of a datagram socket, with the
  front packet cut to the buffer; the rest of the buffer is untouched.  It removes exactly these bytes,
  or the whole front packet, and nothing when it peeks.
\<close>

theorem socket_read_result:
  assumes inv: "sock_inv t" and rd: "socket_read t x opts out = (t', out', r)"
  shows "case r of
      Inl e \<Rightarrow> e \<noteq> ErrInternal \<and> t' = t \<and> out' = out
    | Inr n \<Rightarrow>
        if sock_is_datagram t x
        then (\<exists>p ps. packet_queue t x = p # ps \<and> n = min (length out) (length p) \<and> out' = take n p @ drop n out
           \<and> packet_queue t' x = (if peeks opts then p # ps else ps))
        else n = min (length out) (length (stream_queue t x)) \<and> out' = take n (stream_queue t x) @ drop n out
           \<and> stream_queue t' x = (if peeks opts then stream_queue t x else drop n (stream_queue t x))"
  using inv rd
proof (cases rule: socket_read_effect)
  case (stream i e n)
  have "sock_view t' x = Some (ep_core e, ep_payload e)"
    using sock_view_quiet [OF stream(10)] sock_view_at [OF stream(8,2), of x] stream(1) by simp
  then have "stream_queue t' x = se_bytes e" by (simp add: stream_queue_def ep_payload_def)
  then show ?thesis using stream sock_is_datagram_at [OF stream(1)] by (simp add: stream_queue_linked)
next
  case (packet i e n p ps)
  have "sock_view t' x = Some (ep_core e, ep_payload e)"
    using sock_view_quiet [OF packet(11)] sock_view_at [OF packet(9,2), of x] packet(1) by simp
  then have "packet_queue t' x = se_packets e" by (simp add: packet_queue_def ep_payload_def se_packets_def)
  then show ?thesis using packet sock_is_datagram_at [OF packet(1)] by (simp add: packet_queue_linked)
qed simp

subsubsection \<open>Witnesses\<close>

text \<open>The pair that the first \<open>create_pair\<close> makes.\<close>

definition example_pair :: "u32 \<Rightarrow> SocketTable" where
  "example_pair opts = fst (socket_create_pair socket_table_new opts)"

definition example_left :: "u32 \<Rightarrow> SocketEndpoint" where
  "example_left opts = socket_activate socket_empty 0x90000000 0x90000001 opts"

definition example_right :: "u32 \<Rightarrow> SocketEndpoint" where
  "example_right opts = socket_activate socket_empty 0x90000001 0x90000000 opts"

lemma example_new:
  "socket_table_new = \<lparr>st_endpoints = socket_empty # socket_empty # replicate 62 socket_empty,
    st_next_handle = 0x90000000\<rparr>"
proof -
  have n: "MAX_SOCKET_OBJECTS = Suc (Suc 62)" by (simp add: MAX_SOCKET_OBJECTS_def)
  show ?thesis by (simp only: socket_table_new_def n replicate_Suc SOCKET_HANDLE_START_def)
qed

lemma example_pair_eq:
  assumes "options_valid opts SOCKET_CREATE_MASK"
  shows "example_pair opts = \<lparr>st_endpoints = example_left opts # example_right opts # replicate 62 socket_empty,
    st_next_handle = 0x90000002\<rparr>"
proof -
  have "\<not> se_active socket_empty" by (simp add: socket_empty_def)
  then show ?thesis using assms
    by (simp add: example_pair_def socket_create_pair_def example_new
        socket_active_count_def MAX_SOCKET_OBJECTS_def free_pair_indices_def socket_alloc_handle_def
        INVALID_HANDLE_def checked_add_def handle_is_valid_def at_endpoint_def
        example_left_def example_right_def Let_def)
qed

lemma example_pair_inv: "sock_inv (example_pair opts)"
  using socket_create_inv [OF socket_table_new_inv] by (simp add: example_pair_def)

lemmas example_ends = example_left_def example_right_def socket_activate_def socket_empty_def

lemma example_linked:
  "sock_linked False 0x90000000 0x90000001 (example_pair 0)"
  "sock_linked True 0x90000000 0x90000001 (example_pair 1)"
  by (simp_all add: example_pair_eq options_valid_def SOCKET_CREATE_MASK_def SOCKET_DATAGRAM_def
      sock_linked_def sock_view_def socket_index_def example_ends ep_core_def)

lemma example_write:
  "snd (socket_write (example_pair 0) 0x90000001 [1, 2]) = Inr 2"
  by (simp add: example_pair_eq options_valid_def SOCKET_CREATE_MASK_def SOCKET_DATAGRAM_def
      socket_write_def socket_index_def example_ends socket_has_rights_def socket_rights_def
      rights_contain_def rights_has_def default_rights_for_object_def default_rights_values
      socket_transfer_def remaining_capacity_def min_count_def push_packet_def push_byte_def
      SOCKET_SIZE_def Let_def)

lemma example_dgram_write:
  "snd (socket_write (example_pair 1) 0x90000001 [1, 2]) = Inr 2"
  by (simp add: example_pair_eq options_valid_def SOCKET_CREATE_MASK_def SOCKET_DATAGRAM_def
      socket_write_def socket_index_def example_ends socket_has_rights_def socket_rights_def
      rights_contain_def rights_has_def default_rights_for_object_def default_rights_values
      socket_transfer_def remaining_capacity_def min_count_def push_packet_def push_byte_def
      push_datagram_len_def MAX_SOCKET_DATAGRAMS_def SOCKET_SIZE_def Let_def)

lemma example_empty_queues:
  "stream_queue (example_pair 0) 0x90000000 = []" "packet_queue (example_pair 1) 0x90000000 = []"
  by (simp_all add: example_pair_eq options_valid_def SOCKET_CREATE_MASK_def SOCKET_DATAGRAM_def
      stream_queue_def packet_queue_def sock_view_def socket_index_def example_ends ep_payload_def
      se_bytes_def se_lens_def)

theorem socket_stream_order_witness:
  "[1, 2] = run_trace socket_step (bytes_received 0x90000000) (example_pair 0)
      [SWrite 0x90000001 [1, 2], SCreate 1, SRead 0x90000000 0 1]
    @ stream_queue (run_steps socket_step (example_pair 0)
      [SWrite 0x90000001 [1, 2], SCreate 1, SRead 0x90000000 0 1]) 0x90000000"
  using socket_stream_order [OF example_pair_inv example_linked(1),
      of "[SWrite 0x90000001 [1, 2], SCreate 1, SRead 0x90000000 0 1]"]
  by (simp only: example_empty_queues run_trace.simps bytes_sent.simps example_write
      list.pred_inject keeps_socket.simps) simp

theorem socket_datagram_order_witness:
  "\<exists>ps. [[1, 2]] = ps @ packet_queue (run_steps socket_step (example_pair 1)
        [SWrite 0x90000001 [1, 2], SClose 0x90000007, SRead 0x90000000 0 1]) 0x90000000
     \<and> list_all2 shows_packet (run_trace socket_step (packets_received 0x90000000) (example_pair 1)
        [SWrite 0x90000001 [1, 2], SClose 0x90000007, SRead 0x90000000 0 1]) ps"
  using socket_datagram_order [OF example_pair_inv example_linked(2),
      of "[SWrite 0x90000001 [1, 2], SClose 0x90000007, SRead 0x90000000 0 1]"]
  by (simp only: example_empty_queues run_trace.simps [of _ "packets_sent 0x90000001"] packets_sent.simps example_dgram_write
      list.pred_inject keeps_socket.simps is_ok_def) simp

definition example_filled :: SocketTable where
  "example_filled = fst (socket_write (example_pair 0) 0x90000001 [1, 2])"

lemma example_filled_facts:
  "sock_inv example_filled" "sock_linked False 0x90000000 0x90000001 example_filled"
  "stream_queue example_filled 0x90000000 = [1, 2]"
  using socket_write_law [OF example_pair_inv example_linked(1), of "0x90000001" "[1, 2]"
      example_filled "Inr 2"] example_write example_empty_queues(1)
  by (simp_all add: example_filled_def prod_eq_iff)

lemma example_rights: "socket_has_rights example_filled 0x90000000 (Rights_as_u32 R_Read)"
  by (simp add: example_filled_def example_pair_eq options_valid_def SOCKET_CREATE_MASK_def
      SOCKET_DATAGRAM_def socket_write_def socket_index_def example_ends socket_has_rights_def
      socket_rights_def rights_contain_def rights_has_def default_rights_for_object_def
      default_rights_values socket_transfer_def remaining_capacity_def min_count_def push_packet_def
      push_byte_def SOCKET_SIZE_def Let_def refresh_write_signals_def refresh_read_signals_def
      at_endpoint_def)

theorem socket_read_result_witness:
  "\<exists>t'. socket_read example_filled 0x90000000 0 [0, 0, 0] = (t', [1, 2, 0], Inr 2) \<and> stream_queue t' 0x90000000 = []"
proof -
  obtain t' out' r where rd: "socket_read example_filled 0x90000000 0 [0, 0, 0] = (t', out', r)"
    by (metis prod.collapse)
  obtain k where k: "socket_index (st_endpoints example_filled) 0x90000000 = Some k"
    "\<not> is_datagram (st_endpoints example_filled ! k)" "k < length (st_endpoints example_filled)"
    using example_filled_facts(2) by (rule sock_linkedE) simp
  have "se_bytes (st_endpoints example_filled ! k) \<noteq> []"
    using example_filled_facts(3) stream_queue_linked [OF k(1)] by simp
  with k rd example_rights have
    "socket_receive example_filled k False False [0, 0, 0] = (t', out', r)"
    by (simp add: socket_read_def options_valid_def is_datagram_def Let_def)
  then obtain n where n: "r = Inr n"
    by (rule socket_receive_stream [OF example_filled_facts(1) k(3,2)])
  have "\<not> sock_is_datagram example_filled 0x90000000" using k(2) by (simp add: sock_is_datagram_at [OF k(1)])
  with socket_read_result [OF example_filled_facts(1) rd] n
  have "n = min 3 (length (stream_queue example_filled 0x90000000))
    \<and> out' = take n (stream_queue example_filled 0x90000000) @ drop n [0, 0, 0]
    \<and> stream_queue t' 0x90000000 = drop n (stream_queue example_filled 0x90000000)" by (simp add: peeks_def)
  with rd n show ?thesis by (simp add: example_filled_facts(3))
qed

end
