(* ===== verification/Linux_Wait.thy ===== *)
theory Linux_Wait
  imports Smros_Prelude "HOL-Library.Multiset"
begin

text \<open>
  Waiter slots.  The Linux futex queue, the message queues and the record locks keep blocked
  tasks in a fixed array of optional waiters, stamp each waiter with a sequence number and
  always serve the oldest waiter that qualifies.  This theory holds that common part: the
  abort value of an operation that may panic, the bookkeeping of the slot arrays, the loop
  that serves waiters until a limit is reached, and the locales \<open>oldest_first\<close> (the contract
  of a scan for the oldest waiter) and \<open>oldest_drain\<close> (what the serving loop does with it).
\<close>

subsection \<open>Panics\<close>

text \<open>The failure of an operation that returns \<open>Err\<close> or panics (a failing \<open>expect\<close>).\<close>

datatype 'e abort = Err 'e | Panic

subsection \<open>System call errors\<close>

datatype SysError =
    EPERM | ENOENT | ESRCH | EINTR | EIO | ENXIO | E2BIG | EBADF | ECHILD | EAGAIN | ENOMEM | EACCES
  | EFAULT | EBUSY | EEXIST | EMFILE | ENODEV | ENOTDIR | EISDIR | EINVAL | ESPIPE | ENAMETOOLONG
  | ENOLCK | ENOSYS | EOVERFLOW | ENOTSOCK | EMSGSIZE | ETIMEDOUT

text \<open>
  \<open>wake_blocked\<close> of \<open>linux_task.rs\<close> as the wait queues use it, on a state \<open>'t\<close> of the task
  table: it makes the task runnable and tells whether it was blocked.
\<close>

type_synonym 't waker = "usize \<Rightarrow> usize \<Rightarrow> 't \<Rightarrow> 't \<times> bool"

subsection \<open>Lists up to order\<close>

lemma sorted_wrt_mset:
  assumes "\<And>x y. R x y \<Longrightarrow> R y x"
  shows "sorted_wrt R xs \<Longrightarrow> mset xs = mset ys \<Longrightarrow> sorted_wrt R ys"
proof (induction xs arbitrary: ys)
  case (Cons x xs)
  then have "x \<in> set ys" by (metis list.set_intros(1) set_mset_mset)
  then obtain us vs where ys: "ys = us @ x # vs" by (meson split_list)
  with Cons.prems(2) have m: "mset xs = mset (us @ vs)" by simp
  then have "sorted_wrt R (us @ vs)" using Cons by simp
  moreover have "\<forall>y\<in>set us \<union> set vs. R x y" using Cons.prems(1) mset_eq_setD [OF m] by simp
  ultimately show ?case using assms by (auto simp: ys sorted_wrt_append)
qed simp

lemma mset_swap_remove:
  assumes "i < length xs"
  shows "mset (swap_remove xs i) = mset (take i xs @ drop (Suc i) xs)"
proof -
  have ne: "xs \<noteq> []" using assms by auto
  let ?ys = "xs[i := last xs]"
  have "?ys \<noteq> []" using ne by simp
  moreover have "last ?ys = last xs" using ne assms by (simp add: last_list_update)
  ultimately have "?ys = butlast ?ys @ [last xs]" by (metis append_butlast_last_id)
  then have "mset ?ys = add_mset (last xs) (mset (butlast ?ys))" by (metis mset_append mset.simps(1,2) union_mset_add_mset_right add.right_neutral)
  moreover have "mset ?ys = add_mset (last xs) (mset (take i xs @ drop (Suc i) xs))"
    using assms by (simp add: upd_conv_take_nth_drop)
  ultimately show ?thesis by (simp add: swap_remove_def)
qed

lemma mset_split_nth: "i < length xs \<Longrightarrow> mset xs = add_mset (xs ! i) (mset (take i xs @ drop (Suc i) xs))"
  by (metis id_take_nth_drop mset_append mset.simps(2) union_mset_add_mset_right)

lemma mset_update_nth: "i < length xs \<Longrightarrow> mset (xs[i := x]) = add_mset x (mset (take i xs @ drop (Suc i) xs))"
  by (simp add: upd_conv_take_nth_drop)

subsection \<open>Slot arrays\<close>

lemma flatten_split:
  assumes "i < length ws"
  shows "flatten ws = flatten (take i ws) @ (case ws ! i of None \<Rightarrow> [] | Some w \<Rightarrow> [w])
           @ flatten (drop (Suc i) ws)"
proof -
  have "ws = take i ws @ ws ! i # drop (Suc i) ws" using assms by (simp add: id_take_nth_drop)
  then have "flatten ws = flatten (take i ws @ ws ! i # drop (Suc i) ws)" by simp
  also have "\<dots> = flatten (take i ws) @ flatten (ws ! i # drop (Suc i) ws)" by simp
  finally show ?thesis by (cases "ws ! i") simp_all
qed

lemma flatten_update:
  assumes "i < length ws"
  shows "flatten (ws[i := x]) = flatten (take i ws) @ (case x of None \<Rightarrow> [] | Some w \<Rightarrow> [w])
           @ flatten (drop (Suc i) ws)"
  using flatten_split [of i "ws[i := x]"] assms by simp

lemma mset_flatten_fill:
  assumes "i < length ws" "ws ! i = None"
  shows "mset (flatten (ws[i := Some w])) = add_mset w (mset (flatten ws))"
  using flatten_split [OF assms(1)] flatten_update [OF assms(1)] assms(2) by simp

lemma mset_flatten_replace:
  assumes "i < length ws" "ws ! i = Some v"
  shows "mset (flatten (ws[i := Some w])) = add_mset w (mset (flatten ws) - {#v#})"
  using flatten_split [OF assms(1)] flatten_update [OF assms(1)] assms(2) by simp

lemma map_flatten_replace:
  assumes "i < length ws" "ws ! i = Some v" "f w = f v"
  shows "map f (flatten (ws[i := Some w])) = map f (flatten ws)"
  using flatten_split [OF assms(1)] flatten_update [OF assms(1)] assms(2,3) by simp

lemma in_flatten_index:
  assumes "w \<in> set (flatten ws)"
  obtains i where "i < length ws" "ws ! i = Some w"
  using assms by (auto simp: in_flatten_nth)

lemma distinct_flatten_clear:
  "distinct (map f (flatten ws)) \<Longrightarrow> distinct (map f (flatten (ws[i := None])))"
proof (cases "i < length ws")
  case True
  assume d: "distinct (map f (flatten ws))"
  from flatten_split [OF True] flatten_update [OF True, of None] d show ?thesis
    by (cases "ws ! i") auto
qed (simp add: list_update_beyond)

lemma distinct_flatten_nth:
  assumes "distinct (map f (flatten ws))" "i < length ws" "j < length ws" "ws ! i = Some v"
    "ws ! j = Some w" "f v = f w"
  shows "i = j"
proof (rule ccontr)
  assume "i \<noteq> j"
  then consider "i < j" | "j < i" by linarith
  then show False
  proof cases
    case 1
    have "w \<in> set (flatten (drop (Suc i) ws))"
      using 1 assms(3,5) by (auto simp: in_flatten_nth intro!: exI [of _ "j - Suc i"])
    then show False using assms(1,4,6) flatten_split [OF assms(2)] by (auto simp: image_iff)
  next
    case 2
    have "v \<in> set (flatten (drop (Suc j) ws))"
      using 2 assms(2,4) by (auto simp: in_flatten_nth intro!: exI [of _ "i - Suc j"])
    then show False using assms(1,5,6) flatten_split [OF assms(3)] by (auto simp: image_iff)
  qed
qed

text \<open>\<open>slot.map(p).unwrap_or(false)\<close> and \<open>slot.is_some_and(p)\<close>.\<close>

definition slot_is :: "('w \<Rightarrow> bool) \<Rightarrow> 'w option \<Rightarrow> bool" where
  "slot_is p slot = (case slot of None \<Rightarrow> False | Some w \<Rightarrow> p w)"

lemma slot_is_simps [simp]: "\<not> slot_is p None" "slot_is p (Some w) = p w"
  by (simp_all add: slot_is_def)

lemma slot_isD: "slot_is p x \<Longrightarrow> \<exists>w. x = Some w \<and> p w"
  by (cases x) auto

lemma position_slot_is:
  assumes "position (slot_is p) ws = Some i"
  obtains w where "i < length ws" "ws ! i = Some w" "p w"
  using assms position_SomeD [OF assms] by (auto dest: slot_isD)

lemma position_slot_is_None:
  "position (slot_is p) ws = None \<longleftrightarrow> (\<forall>w\<in>set (flatten ws). \<not> p w)"
proof (induction ws)
  case (Cons a ws)
  then show ?case by (cases a) auto
qed simp

text \<open>\<open>iter().flatten().find(p)\<close>\<close>

lemma find_flatten:
  "List.find p (flatten ws) = (case position (slot_is p) ws of None \<Rightarrow> None | Some i \<Rightarrow> ws ! i)"
proof (induction ws)
  case (Cons a ws)
  then show ?case by (cases a) (auto split: option.splits)
qed simp

lemma flatten_map_option: "flatten (map (map_option f) ws) = map f (flatten ws)"
proof (induction ws)
  case (Cons a ws)
  then show ?case by (cases a) simp_all
qed simp

lemma flatten_clear_subset: "set (flatten (ws[i := None])) \<subseteq> set (flatten ws)"
  by (auto simp: set_flatten) (metis insert_iff option.distinct(1) set_update_subset_insert subsetD)

lemma flatten_remove: "flatten (map (\<lambda>x. if slot_is p x then None else x) ws) = filter (\<lambda>w. \<not> p w) (flatten ws)"
proof (induction ws)
  case (Cons a ws)
  then show ?case by (cases a) auto
qed simp

lemma flatten_replace_cases:
  assumes "i < length ws" "w \<in> set (flatten (ws[i := Some v]))"
  shows "w = v \<or> w \<in> set (flatten ws)"
  using assms flatten_split [OF assms(1)] flatten_update [OF assms(1), of "Some v"]
  by (auto split: option.splits)

subsection \<open>Arrays with a compact prefix\<close>

definition compact :: "nat \<Rightarrow> 'a list \<Rightarrow> 'a option list" where
  "compact N xs = map Some xs @ replicate (N - length xs) None"

lemma flatten_compact [simp]: "flatten (compact N xs) = xs"
  by (simp add: compact_def)

lemma length_compact: "length xs \<le> N \<Longrightarrow> length (compact N xs) = N"
  by (simp add: compact_def)

lemma compact_Nil [simp]: "compact N [] = replicate N None"
  by (simp add: compact_def)

lemma compact_snoc:
  assumes "length xs < N"
  shows "(compact N xs)[length xs := Some x] = compact N (xs @ [x])"
proof -
  have "replicate (N - length xs) (None :: 'a option) = None # replicate (N - Suc (length xs)) None"
    using assms by (metis Suc_diff_Suc replicate_Suc)
  then show ?thesis by (simp add: compact_def list_update_append)
qed

lemma compact_update_last:
  "(compact N (xs @ [x]))[length xs := Some y] = compact N (xs @ [y])"
  by (simp add: compact_def list_update_append)

lemma compact_nth: "i < length xs \<Longrightarrow> compact N xs ! i = Some (xs ! i)"
  by (simp add: compact_def nth_append)

lemma position_replicate_None: "position (\<lambda>slot. slot = None) (replicate n None) = (if n = 0 then None else Some 0)"
  by (cases n) simp_all

lemma position_compact:
  "position (\<lambda>slot. slot = None) (compact N xs) = (if length xs < N then Some (length xs) else None)"
proof -
  have "position (\<lambda>slot. slot = None) (map Some xs @ ys)
      = map_option ((+) (length xs)) (position (\<lambda>slot. slot = None) ys)" for ys
    by (induction xs) (auto simp: option.map_comp comp_def option.map_ident)
  then show ?thesis by (auto simp: compact_def position_replicate_None)
qed

lemma list_all_flatten_replace:
  "list_all P (flatten ws) \<Longrightarrow> P v \<Longrightarrow> list_all P (flatten (ws[i := Some v]))"
proof (cases "i < length ws")
  case True
  assume "list_all P (flatten ws)" "P v"
  then show ?thesis using flatten_replace_cases [OF True, of _ v] by (auto simp: list_all_iff)
qed (simp add: list_update_beyond)

text \<open>
  Sequence numbers of the waiters: distinct, and below the next number unless the numbers are
  exhausted.
\<close>

definition stamped :: "('w \<Rightarrow> u64) \<Rightarrow> u64 option \<Rightarrow> 'w option list \<Rightarrow> bool" where
  "stamped seqn bound ws =
     (distinct (map seqn (flatten ws))
      \<and> (case bound of None \<Rightarrow> True | Some n \<Rightarrow> list_all (\<lambda>w. seqn w < n) (flatten ws)))"

lemma stampedI:
  "distinct (map seqn (flatten ws)) \<Longrightarrow> (\<And>n w. bound = Some n \<Longrightarrow> w \<in> set (flatten ws) \<Longrightarrow> seqn w < n)
   \<Longrightarrow> stamped seqn bound ws"
  by (simp add: stamped_def list_all_iff split: option.splits)

lemma stamped_distinct: "stamped seqn bound ws \<Longrightarrow> distinct (map seqn (flatten ws))"
  by (simp add: stamped_def)

lemma stamped_below: "stamped seqn (Some n) ws \<Longrightarrow> w \<in> set (flatten ws) \<Longrightarrow> seqn w < n"
  by (auto simp: stamped_def list_all_iff)

lemma stamped_empty [simp]: "stamped seqn bound (replicate N None)"
  by (simp add: stamped_def split: option.splits)

lemma stamped_clear: "stamped seqn bound ws \<Longrightarrow> stamped seqn bound (ws[i := None])"
  using flatten_clear_subset [of ws i]
  by (auto simp: stamped_def list_all_iff distinct_flatten_clear split: option.splits)

lemma stamped_remove:
  "stamped seqn bound ws \<Longrightarrow> stamped seqn bound (map (\<lambda>x. if slot_is p x then None else x) ws)"
  by (auto simp: stamped_def list_all_iff flatten_remove distinct_map_filter split: option.splits)

lemma stamped_map:
  assumes "stamped seqn bound ws" "\<And>w. seqn (f w) = seqn w"
  shows "stamped seqn bound (map (map_option f) ws)"
proof -
  have "seqn \<circ> f = seqn" using assms(2) by (simp add: fun_eq_iff)
  then show ?thesis using assms
    by (auto simp: stamped_def flatten_map_option list_all_iff split: option.splits)
qed

lemma stamped_replace:
  assumes "stamped seqn bound ws" "i < length ws" "ws ! i = Some w" "seqn v = seqn w"
  shows "stamped seqn bound (ws[i := Some v])"
proof (rule stampedI)
  show "distinct (map seqn (flatten (ws[i := Some v])))"
    using assms(1) map_flatten_replace [where f = seqn, OF assms(2,3,4)] by (simp add: stamped_def)
  have w: "w \<in> set (flatten ws)" using assms(2,3) by (auto simp: in_flatten_nth)
  show "seqn x < n" if "bound = Some n" "x \<in> set (flatten (ws[i := Some v]))" for n x
    using flatten_replace_cases [OF assms(2) that(2)] assms(1,4) w stamped_below that(1) by metis
qed

lemma stamped_fill:
  assumes "stamped seqn (Some n) ws" "i < length ws" "ws ! i = None" "seqn w = n"
    "\<And>m. bound = Some m \<Longrightarrow> n < m"
  shows "stamped seqn bound (ws[i := Some w])"
proof (rule stampedI)
  have m: "mset (flatten (ws[i := Some w])) = mset (w # flatten ws)"
    using mset_flatten_fill [OF assms(2,3)] by simp
  then have "mset (map seqn (flatten (ws[i := Some w]))) = mset (map seqn (w # flatten ws))" by simp
  moreover have "distinct (map seqn (w # flatten ws))"
    using stamped_below [OF assms(1)] stamped_distinct [OF assms(1)] assms(4) by force
  ultimately show "distinct (map seqn (flatten (ws[i := Some w])))" by (metis mset_eq_imp_distinct_iff)
  show "seqn x < b" if "bound = Some b" "x \<in> set (flatten (ws[i := Some w]))" for b x
    using flatten_replace_cases [OF assms(2) that(2)] assms(4,5) stamped_below [OF assms(1)] that(1)
    by (metis less_trans)
qed

subsection \<open>Scanning for the oldest waiter\<close>

text \<open>
  The scan of the futex and message queues: over all slots, remember the index and the
  sequence number of the first waiter that satisfies the predicate or is older than the one
  remembered.
\<close>

fun scan_oldest ::
  "('w \<Rightarrow> u64) \<Rightarrow> ('w \<Rightarrow> bool) \<Rightarrow> nat \<Rightarrow> 'w option list \<Rightarrow> nat option \<Rightarrow> u64 \<Rightarrow> nat option" where
  "scan_oldest seqn p index [] selected selected_sequence = selected"
| "scan_oldest seqn p index (None # ws) selected selected_sequence =
     scan_oldest seqn p (Suc index) ws selected selected_sequence"
| "scan_oldest seqn p index (Some w # ws) selected selected_sequence =
     (if p w \<and> (selected = None \<or> seqn w < selected_sequence)
      then scan_oldest seqn p (Suc index) ws (Some index) (seqn w)
      else scan_oldest seqn p (Suc index) ws selected selected_sequence)"

text \<open>The oldest qualifying waiter, as the scans promise it.\<close>

definition is_oldest :: "('w \<Rightarrow> u64) \<Rightarrow> ('w \<Rightarrow> bool) \<Rightarrow> 'w option list \<Rightarrow> nat option \<Rightarrow> bool" where
  "is_oldest seqn p ws r =
     (case r of
        None \<Rightarrow> (\<forall>w\<in>set (flatten ws). \<not> p w)
      | Some i \<Rightarrow> i < length ws
          \<and> (case ws ! i of
               None \<Rightarrow> False
             | Some v \<Rightarrow> p v \<and> (\<forall>w\<in>set (flatten ws). p w \<longrightarrow> seqn v \<le> seqn w)))"

lemma is_oldest_None [simp]: "is_oldest seqn p ws None \<longleftrightarrow> (\<forall>w\<in>set (flatten ws). \<not> p w)"
  by (simp add: is_oldest_def)

lemma is_oldest_Some:
  "is_oldest seqn p ws (Some i) \<longleftrightarrow>
     i < length ws \<and> (\<exists>v. ws ! i = Some v \<and> p v \<and> (\<forall>w\<in>set (flatten ws). p w \<longrightarrow> seqn v \<le> seqn w))"
  by (auto simp: is_oldest_def split: option.splits)

lemma is_oldest_snoc_None:
  "is_oldest seqn p ws r \<Longrightarrow> is_oldest seqn p (ws @ [None]) r"
  by (cases r) (auto simp: is_oldest_Some nth_append)

lemma is_oldest_snoc_skip:
  "is_oldest seqn p ws r \<Longrightarrow> \<not> p w \<or> (\<exists>i v. r = Some i \<and> ws ! i = Some v \<and> seqn v \<le> seqn w)
   \<Longrightarrow> is_oldest seqn p (ws @ [Some w]) r"
  by (cases r) (auto simp: is_oldest_Some nth_append)

lemma is_oldest_snoc_take:
  assumes "is_oldest seqn p ws r" "p w" "\<And>i v. r = Some i \<Longrightarrow> ws ! i = Some v \<Longrightarrow> seqn w < seqn v"
  shows "is_oldest seqn p (ws @ [Some w]) (Some (length ws))"
proof (cases r)
  case None
  with assms(1,2) show ?thesis by (auto simp: is_oldest_Some)
next
  case (Some i)
  with assms(1) obtain v where v: "ws ! i = Some v" "\<forall>u\<in>set (flatten ws). p u \<longrightarrow> seqn v \<le> seqn u"
    by (auto simp: is_oldest_Some)
  with assms(3) [OF Some] have "seqn w < seqn v" by simp
  with v(2) assms(2) show ?thesis by (auto simp: is_oldest_Some)
qed

lemma scan_oldest_correct:
  assumes "is_oldest seqn p done selected"
    and "\<And>i v. selected = Some i \<Longrightarrow> done ! i = Some v \<Longrightarrow> selected_sequence = seqn v"
  shows "is_oldest seqn p (done @ ws) (scan_oldest seqn p (length done) ws selected selected_sequence)"
  using assms
proof (induction ws arbitrary: "done" selected selected_sequence)
  case Nil
  then show ?case by simp
next
  case (Cons a ws)
  have snoc: "done @ a # ws = (done @ [a]) @ ws" "Suc (length done) = length (done @ [a])" by simp_all
  have old: "i < length done" if "selected = Some i" for i
    using Cons.prems(1) that by (auto simp: is_oldest_Some)
  show ?case
  proof (cases a)
    case None
    have "is_oldest seqn p ((done @ [a]) @ ws)
            (scan_oldest seqn p (length (done @ [a])) ws selected selected_sequence)"
      using Cons.prems None old
      by (intro Cons.IH) (auto simp: is_oldest_snoc_None nth_append)
    then show ?thesis using None by simp
  next
    case (Some w)
    show ?thesis
    proof (cases "p w \<and> (selected = None \<or> seqn w < selected_sequence)")
      case True
      have "is_oldest seqn p (done @ [a]) (Some (length done))"
        unfolding Some using Cons.prems True by (intro is_oldest_snoc_take) auto
      then have "is_oldest seqn p ((done @ [a]) @ ws)
            (scan_oldest seqn p (length (done @ [a])) ws (Some (length done)) (seqn w))"
        by (rule Cons.IH) (use Some in auto)
      then show ?thesis using True Some by simp
    next
      case False
      have "is_oldest seqn p (done @ [a]) selected"
        unfolding Some
      proof (rule is_oldest_snoc_skip [OF Cons.prems(1)])
        show "\<not> p w \<or> (\<exists>i v. selected = Some i \<and> done ! i = Some v \<and> seqn v \<le> seqn w)"
          using False Cons.prems by (cases selected) (auto simp: is_oldest_Some)
      qed
      then have "is_oldest seqn p ((done @ [a]) @ ws)
            (scan_oldest seqn p (length (done @ [a])) ws selected selected_sequence)"
        using Cons.prems(2) old by (intro Cons.IH) (auto simp: nth_append)
      moreover have "scan_oldest seqn p (length done) (a # ws) selected selected_sequence
          = scan_oldest seqn p (length (done @ [a])) ws selected selected_sequence"
        using False Some by auto
      ultimately show ?thesis by simp
    qed
  qed
qed

subsection \<open>Serving waiters\<close>

text \<open>
  The loop of \<open>wake\<close> and \<open>expire\<close>: while fewer than \<open>limit\<close> waiters are served, serve the
  oldest one that qualifies, record its identity and go on; stop when none is left.  A scan
  that returned an empty slot would fail the \<open>expect\<close> of the source: the value \<open>None\<close>.
\<close>

function serve_loop ::
  "('w option list \<Rightarrow> nat option) \<Rightarrow> ('w \<Rightarrow> 'w) \<Rightarrow> ('w \<Rightarrow> 'i) \<Rightarrow> nat \<Rightarrow> nat \<Rightarrow> 'w option list
     \<Rightarrow> 'i option list \<Rightarrow> ('w option list \<times> 'i option list) option" where
  "serve_loop oldest mark ident limit served ws ids =
     (if served < limit then
        (case oldest ws of
           None \<Rightarrow> Some (ws, ids)
         | Some index \<Rightarrow>
             (case ws ! index of
                None \<Rightarrow> None
              | Some w \<Rightarrow>
                  serve_loop oldest mark ident limit (Suc served) (ws[index := Some (mark w)])
                    (ids[served := Some (ident w)])))
      else Some (ws, ids))"
  by pat_completeness auto
termination
  by (relation "measure (\<lambda>(oldest, mark, ident, limit, served, ws, ids). limit - served)") auto

declare serve_loop.simps [simp del]

text \<open>The waiters that qualify, oldest first.\<close>

definition by_age :: "('w \<Rightarrow> u64) \<Rightarrow> ('w \<Rightarrow> bool) \<Rightarrow> 'w option list \<Rightarrow> 'w list" where
  "by_age seqn p ws = sort_key seqn (filter p (flatten ws))"

lemma set_by_age: "set (by_age seqn p ws) = {w \<in> set (flatten ws). p w}"
  by (auto simp: by_age_def)

lemma length_by_age: "length (by_age seqn p ws) \<le> length ws"
  by (simp add: by_age_def) (meson length_filter_le length_flatten_le order_trans)

lemma by_age_serve:
  assumes d: "distinct (map seqn (flatten ws))"
    and i: "i < length ws" "ws ! i = Some v" "p v"
    and least: "\<forall>w\<in>set (flatten ws). p w \<longrightarrow> seqn v \<le> seqn w"
    and v': "\<not> p v'"
  shows "by_age seqn p ws = v # by_age seqn p (ws[i := Some v'])"
proof -
  let ?a = "flatten (take i ws)" and ?b = "flatten (drop (Suc i) ws)"
  have f: "flatten ws = ?a @ v # ?b" using flatten_split [OF i(1)] i(2) by simp
  have f': "flatten (ws[i := Some v']) = ?a @ v' # ?b" using flatten_update [OF i(1)] by simp
  have inj: "inj_on seqn (set (filter p (flatten ws)))"
    using d by (auto simp: distinct_map inj_on_def)
  have "sort_key seqn (filter p (flatten ws)) = v # sort_key seqn (filter p (?a @ ?b))"
  proof (rule sort_key_inj_key_eq [OF _ inj])
    show "mset (filter p (flatten ws)) = mset (v # sort_key seqn (filter p (?a @ ?b)))"
      using f i(3) by simp
    show "sorted (map seqn (v # sort_key seqn (filter p (?a @ ?b))))"
      using least f by auto
  qed
  then show ?thesis using f' v' by (simp add: by_age_def)
qed

locale oldest_first =
  fixes seqn :: "'w \<Rightarrow> u64"
    and ready :: "'w \<Rightarrow> bool"
    and oldest :: "'w option list \<Rightarrow> nat option"
  assumes oldest_law: "is_oldest seqn ready ws (oldest ws)"
begin

lemma oldest_NoneD: "oldest ws = None \<Longrightarrow> w \<in> set (flatten ws) \<Longrightarrow> \<not> ready w"
  using oldest_law [of ws] by simp

lemma oldest_SomeD:
  assumes "oldest ws = Some i"
  obtains v where "i < length ws" "ws ! i = Some v" "ready v"
    "\<forall>w\<in>set (flatten ws). ready w \<longrightarrow> seqn v \<le> seqn w"
  using oldest_law [of ws] assms by (auto simp: is_oldest_Some)

lemma oldest_by_age:
  assumes "distinct (map seqn (flatten ws))"
  shows "map_option (\<lambda>i. ws ! i) (oldest ws) = map_option Some (case by_age seqn ready ws of
           [] \<Rightarrow> None | v # _ \<Rightarrow> Some v)"
proof (cases "oldest ws")
  case None
  then have "by_age seqn ready ws = []"
    using oldest_NoneD [OF None] set_by_age [of seqn ready ws] by (metis (no_types, lifting)
      Collect_empty_eq set_empty)
  with None show ?thesis by simp
next
  case (Some i)
  then obtain v where v: "i < length ws" "ws ! i = Some v" "ready v"
    "\<forall>w\<in>set (flatten ws). ready w \<longrightarrow> seqn v \<le> seqn w" by (rule oldest_SomeD)
  let ?xs = "filter ready (flatten ws)"
  have in_xs: "v \<in> set ?xs" using v by (auto simp: in_flatten_nth)
  have inj: "inj_on seqn (set ?xs)" using assms by (auto simp: distinct_map inj_on_def)
  have "sort_key seqn ?xs = v # sort_key seqn (remove1 v ?xs)"
  proof (rule sort_key_inj_key_eq [OF _ inj])
    show "mset ?xs = mset (v # sort_key seqn (remove1 v ?xs))" using in_xs by simp
    show "sorted (map seqn (v # sort_key seqn (remove1 v ?xs)))"
      using v(4) set_remove1_subset [of v ?xs] by auto
  qed
  with Some v(2) show ?thesis by (simp add: by_age_def)
qed

end

locale oldest_drain = oldest_first seqn ready oldest
  for seqn :: "'w \<Rightarrow> u64" and ready :: "'w \<Rightarrow> bool" and oldest :: "'w option list \<Rightarrow> nat option" +
  fixes mark :: "'w \<Rightarrow> 'w"
    and ident :: "'w \<Rightarrow> 'i"
  assumes mark_done: "\<not> ready (mark w)"
    and mark_seqn: "seqn (mark w) = seqn w"
begin

text \<open>
  Serving up to \<open>limit\<close> waiters takes the \<open>limit\<close> oldest qualifying ones, in the order in which
  they queued, marks exactly those, and writes their identities into the result array.
\<close>

lemma serve_loop_by_age:
  assumes "distinct (map seqn (flatten ws))" "served \<le> limit" "limit \<le> length ids"
  shows "serve_loop oldest mark ident limit served ws ids =
    (let sel = take (limit - served) (by_age seqn ready ws)
     in Some (map (map_option (\<lambda>w. if w \<in> set sel then mark w else w)) ws,
        take served ids @ map (\<lambda>w. Some (ident w)) sel @ drop (served + length sel) ids))"
  using assms
proof (induction "limit - served" arbitrary: served ws ids)
  case 0
  then show ?case by (simp add: serve_loop.simps option.map_id0 [unfolded id_def])
next
  case (Suc n)
  then have lt: "served < limit" by simp
  show ?case
  proof (cases "oldest ws")
    case None
    then have "by_age seqn ready ws = []"
      using oldest_NoneD [OF None] set_by_age [of seqn ready ws]
      by (metis (no_types, lifting) Collect_empty_eq set_empty)
    with None lt show ?thesis
      by (simp add: serve_loop.simps option.map_id0 [unfolded id_def])
  next
    case (Some i)
    then obtain v where v: "i < length ws" "ws ! i = Some v" "ready v"
      "\<forall>w\<in>set (flatten ws). ready w \<longrightarrow> seqn v \<le> seqn w" by (rule oldest_SomeD)
    let ?ws = "ws[i := Some (mark v)]" and ?ids = "ids[served := Some (ident v)]"
    let ?r = "take (limit - Suc served) (by_age seqn ready ?ws)"
    have age: "by_age seqn ready ws = v # by_age seqn ready ?ws"
      using by_age_serve [where p = ready, OF Suc.prems(1) v] mark_done by blast
    have d: "distinct (map seqn (flatten ?ws))"
      using Suc.prems(1) map_flatten_replace [where f = seqn, OF v(1,2) mark_seqn] by simp
    have sel: "take (limit - served) (by_age seqn ready ws) = v # ?r"
      using age lt by (simp add: Suc_diff_Suc [symmetric])
    have "serve_loop oldest mark ident limit served ws ids
        = serve_loop oldest mark ident limit (Suc served) ?ws ?ids"
      using lt Some v(2) by (simp add: serve_loop.simps [of _ _ _ limit served])
    also have "\<dots> = Some (map (map_option (\<lambda>w. if w \<in> set ?r then mark w else w)) ?ws,
        take (Suc served) ?ids @ map (\<lambda>w. Some (ident w)) ?r @ drop (Suc served + length ?r) ?ids)"
      using Suc.hyps(1) [OF _ d, of "Suc served" ?ids] Suc.hyps(2) Suc.prems(2,3) lt by (simp add: Let_def)
    also have "map (map_option (\<lambda>w. if w \<in> set ?r then mark w else w)) ?ws
        = map (map_option (\<lambda>w. if w \<in> set (v # ?r) then mark w else w)) ws" (is "?l = ?m")
    proof (rule nth_equalityI)
      show "?l ! j = ?m ! j" if "j < length ?l" for j
      proof (cases "j = i")
        case True
        have "mark v \<notin> set ?r"
          using set_by_age [of seqn ready ?ws] mark_done [of v] by (auto dest: in_set_takeD)
        with True v show ?thesis by simp
      next
        case False
        have "w \<noteq> v" if "ws ! j = Some w" for w
          using distinct_flatten_nth [OF Suc.prems(1) v(1) _ v(2) that] False that \<open>j < length ?l\<close> by auto
        with False that show ?thesis by (cases "ws ! j") auto
      qed
    qed simp
    also have "take (Suc served) ?ids @ map (\<lambda>w. Some (ident w)) ?r @ drop (Suc served + length ?r) ?ids
        = take served ids @ map (\<lambda>w. Some (ident w)) (v # ?r) @ drop (served + length (v # ?r)) ids"
      using lt Suc.prems(3) by (simp add: take_Suc_conv_app_nth)
    finally show ?thesis unfolding sel by (simp add: Let_def)
  qed
qed

corollary serve_all:
  assumes "distinct (map seqn (flatten ws))" "length (by_age seqn ready ws) \<le> limit" "limit \<le> n"
  shows "serve_loop oldest mark ident limit 0 ws (replicate n None) =
    Some (map (map_option (\<lambda>w. if ready w then mark w else w)) ws,
      map (\<lambda>w. Some (ident w)) (by_age seqn ready ws)
        @ replicate (n - length (by_age seqn ready ws)) None)"
proof -
  have "map (map_option (\<lambda>w. if w \<in> set (by_age seqn ready ws) then mark w else w)) ws
      = map (map_option (\<lambda>w. if ready w then mark w else w)) ws"
    by (auto simp: set_by_age set_flatten intro!: option.map_cong)
  then show ?thesis
    using serve_loop_by_age [OF assms(1), of 0 limit "replicate n None"] assms(2,3)
    by (simp add: Let_def)
qed

end

end
