(* ===== verification/Record_Lock.thy ===== *)
theory Record_Lock
  imports Linux_Wait "HOL-Library.Product_Lexorder"
begin

text \<open>
  POSIX record locks (\<open>src/src/syscall/linux_record_lock_logic_shared.rs\<close> and the runtime
  around it, \<open>linux_record_lock.rs\<close>): the normalisation of an \<open>flock\<close> request to a byte
  range, the lock table with its widening, splitting, sorting and coalescing of ranges, the
  queue of blocked lock requests, and the non-blocking and blocking entry points.

  A table is the array of its slots; the const generic parameter \<open>N\<close> is the length of the
  array.  The lemmas give the table its meaning byte by byte: which owner holds which kind of
  lock on which byte of which file.
\<close>

subsection \<open>Ranges\<close>

definition LINUX_RECORD_LOCK_END_OF_FILE :: u64 where
  "LINUX_RECORD_LOCK_END_OF_FILE = - 1"

datatype LinuxRecordLockRangeError = RangeInvalid | RangeOverflow

record LinuxRecordLockRange =
  rg_start :: u64
  rg_end :: u64

definition finite_range :: "u64 \<Rightarrow> u64 \<Rightarrow> LinuxRecordLockRange option" where
  "finite_range start end' =
     (if start < end' \<and> end' \<noteq> LINUX_RECORD_LOCK_END_OF_FILE
      then Some \<lparr>rg_start = start, rg_end = end'\<rparr> else None)"

definition to_eof :: "u64 \<Rightarrow> LinuxRecordLockRange" where
  "to_eof start = \<lparr>rg_start = start, rg_end = LINUX_RECORD_LOCK_END_OF_FILE\<rparr>"

text \<open>\<open>i64::try_from\<close> of an unsigned value.\<close>

definition i64_try_from :: "u64 \<Rightarrow> i64 option" where
  "i64_try_from x = (if unat x < 2 ^ 63 then Some x else None)"

definition record_lock_base :: "i16 \<Rightarrow> u64 \<Rightarrow> u64 \<Rightarrow> LinuxRecordLockRangeError + i64" where
  "record_lock_base whence cursor file_size =
     (if whence = 0 then Inr 0
      else if whence = 1 then ok_or RangeOverflow (i64_try_from cursor)
      else if whence = 2 then ok_or RangeOverflow (i64_try_from file_size)
      else Inl RangeInvalid)"

definition record_lock_range_from ::
  "i64 \<Rightarrow> i64 \<Rightarrow> i64 \<Rightarrow> LinuxRecordLockRangeError + LinuxRecordLockRange" where
  "record_lock_range_from base l_start l_len =
     and_then (ok_or RangeOverflow (checked_add_signed base l_start)) (\<lambda>anchor.
       if sint anchor < 0 then Inl RangeInvalid
       else if l_len = 0 then Inr (to_eof anchor)
       else
         and_then (ok_or RangeOverflow (checked_add_signed anchor l_len)) (\<lambda>endpoint.
           if sint endpoint < 0 then Inl RangeInvalid
           else
             let (start, end') = (if 0 < sint l_len then (anchor, endpoint) else (endpoint, anchor))
             in ok_or RangeInvalid (finite_range start end')))"

definition normalize_linux_record_lock_range ::
  "i16 \<Rightarrow> i64 \<Rightarrow> i64 \<Rightarrow> u64 \<Rightarrow> u64 \<Rightarrow> LinuxRecordLockRangeError + LinuxRecordLockRange" where
  "normalize_linux_record_lock_range whence l_start l_len cursor file_size =
     and_then (record_lock_base whence cursor file_size) (\<lambda>base.
       record_lock_range_from base l_start l_len)"

definition linux_record_lock_ranges_overlap ::
  "LinuxRecordLockRange \<Rightarrow> LinuxRecordLockRange \<Rightarrow> bool" where
  "linux_record_lock_ranges_overlap left right =
     (rg_start left < rg_end right \<and> rg_start right < rg_end left)"

definition linux_record_lock_types_conflict :: "bool \<Rightarrow> bool \<Rightarrow> bool" where
  "linux_record_lock_types_conflict left_is_write right_is_write = (left_is_write \<or> right_is_write)"

definition ranges_touch_or_overlap ::
  "LinuxRecordLockRange \<Rightarrow> LinuxRecordLockRange \<Rightarrow> bool" where
  "ranges_touch_or_overlap left right =
     (linux_record_lock_ranges_overlap left right
      \<or> rg_end left = rg_start right \<or> rg_end right = rg_start left)"

subsection \<open>The lock table\<close>

datatype LinuxRecordLockKind = Read | Write

record LinuxRecordLock =
  rl_file_id :: u64
  rl_owner :: usize
  rl_kind :: LinuxRecordLockKind
  rl_range :: LinuxRecordLockRange

datatype LinuxRecordLockTableError = LockCapacity

record LinuxRecordLockTable =
  records :: "LinuxRecordLock option list"

type_synonym 'a lock_result = "LinuxRecordLockTableError abort + 'a"

definition lock_table_new :: "nat \<Rightarrow> LinuxRecordLockTable" where
  "lock_table_new N = \<lparr>records = replicate N None\<rparr>"

definition lock_conflicts ::
  "u64 \<Rightarrow> usize \<Rightarrow> LinuxRecordLockKind \<Rightarrow> LinuxRecordLockRange \<Rightarrow> LinuxRecordLock \<Rightarrow> bool" where
  "lock_conflicts file_id owner kind rng r =
     (rl_file_id r = file_id \<and> rl_owner r \<noteq> owner
      \<and> linux_record_lock_ranges_overlap (rl_range r) rng
      \<and> linux_record_lock_types_conflict (rl_kind r = Write) (kind = Write))"

definition first_conflict ::
  "LinuxRecordLockTable \<Rightarrow> u64 \<Rightarrow> usize \<Rightarrow> LinuxRecordLockKind \<Rightarrow> LinuxRecordLockRange
     \<Rightarrow> LinuxRecordLock option" where
  "first_conflict t file_id owner kind rng =
     find (lock_conflicts file_id owner kind rng) (flatten (records t))"

definition table_push :: "LinuxRecordLockTable \<Rightarrow> LinuxRecordLock \<Rightarrow> LinuxRecordLockTable lock_result" where
  "table_push t r =
     (case position (\<lambda>slot. slot = None) (records t) of
        None \<Rightarrow> Inl (Err LockCapacity)
      | Some i \<Rightarrow> Inr (t\<lparr>records := (records t)[i := Some r]\<rparr>))"

definition push_left_piece ::
  "LinuxRecordLockTable \<Rightarrow> LinuxRecordLock \<Rightarrow> LinuxRecordLockRange
     \<Rightarrow> LinuxRecordLockTable lock_result" where
  "push_left_piece t r removed =
     (if rg_start (rl_range r) < rg_start removed then
        (case finite_range (rg_start (rl_range r)) (rg_start removed) of
           None \<Rightarrow> Inl Panic
         | Some rng \<Rightarrow> table_push t (r\<lparr>rl_range := rng\<rparr>))
      else Inr t)"

definition push_right_piece ::
  "LinuxRecordLockTable \<Rightarrow> LinuxRecordLock \<Rightarrow> LinuxRecordLockRange
     \<Rightarrow> LinuxRecordLockTable lock_result" where
  "push_right_piece t r removed =
     (if rg_end removed < rg_end (rl_range r) then
        (if rg_end (rl_range r) = LINUX_RECORD_LOCK_END_OF_FILE
         then table_push t (r\<lparr>rl_range := to_eof (rg_end removed)\<rparr>)
         else
           (case finite_range (rg_end removed) (rg_end (rl_range r)) of
              None \<Rightarrow> Inl Panic
            | Some rng \<Rightarrow> table_push t (r\<lparr>rl_range := rng\<rparr>)))
      else Inr t)"

text \<open>\<open>retain\<close>: the kept records move to the front of a fresh array.\<close>

fun retain_into ::
  "(LinuxRecordLock \<Rightarrow> bool) \<Rightarrow> LinuxRecordLock list \<Rightarrow> LinuxRecordLock option list \<Rightarrow> nat
     \<Rightarrow> LinuxRecordLock option list" where
  "retain_into keep [] retained next = retained"
| "retain_into keep (r # rs) retained next =
     (if keep r then retain_into keep rs (retained[next := Some r]) (Suc next)
      else retain_into keep rs retained next)"

definition table_retain :: "(LinuxRecordLock \<Rightarrow> bool) \<Rightarrow> LinuxRecordLockTable \<Rightarrow> LinuxRecordLockTable" where
  "table_retain keep t =
     t\<lparr>records := retain_into keep (flatten (records t)) (replicate (length (records t)) None) 0\<rparr>"

definition kind_rank :: "LinuxRecordLockKind \<Rightarrow> u8" where
  "kind_rank k = (case k of Read \<Rightarrow> 0 | Write \<Rightarrow> 1)"

definition record_key :: "LinuxRecordLock \<Rightarrow> u64 \<times> usize \<times> u64 \<times> u64 \<times> u8" where
  "record_key r =
     (rl_file_id r, rl_owner r, rg_start (rl_range r), rg_end (rl_range r), kind_rank (rl_kind r))"

definition record_less :: "LinuxRecordLock \<Rightarrow> LinuxRecordLock \<Rightarrow> bool" where
  "record_less left right = (record_key left < record_key right)"

definition should_swap :: "LinuxRecordLock option \<Rightarrow> LinuxRecordLock option \<Rightarrow> bool" where
  "should_swap left right =
     (case (left, right) of
        (None, Some _) \<Rightarrow> True
      | (Some left_record, Some right_record) \<Rightarrow> record_less right_record left_record
      | _ \<Rightarrow> False)"

text \<open>The two nested loops of the exchange sort.\<close>

definition sort_swap :: "('a \<Rightarrow> 'a \<Rightarrow> bool) \<Rightarrow> nat \<Rightarrow> nat \<Rightarrow> 'a list \<Rightarrow> 'a list" where
  "sort_swap sw left right xs =
     (if sw (xs ! left) (xs ! right) then xs[left := xs ! right, right := xs ! left] else xs)"

definition sort_inner :: "('a \<Rightarrow> 'a \<Rightarrow> bool) \<Rightarrow> nat \<Rightarrow> nat list \<Rightarrow> 'a list \<Rightarrow> 'a list" where
  "sort_inner sw left rights xs = fold (sort_swap sw left) rights xs"

definition exchange_sort :: "('a \<Rightarrow> 'a \<Rightarrow> bool) \<Rightarrow> 'a list \<Rightarrow> 'a list" where
  "exchange_sort sw xs =
     fold (\<lambda>left ys. sort_inner sw left [Suc left..<length xs] ys) [0..<length xs] xs"

definition coalesces :: "LinuxRecordLock \<Rightarrow> LinuxRecordLock \<Rightarrow> bool" where
  "coalesces previous r =
     (rl_file_id previous = rl_file_id r \<and> rl_owner previous = rl_owner r
      \<and> rl_kind previous = rl_kind r
      \<and> ranges_touch_or_overlap (rl_range previous) (rl_range r))"

definition extend_end :: "LinuxRecordLock \<Rightarrow> LinuxRecordLock \<Rightarrow> LinuxRecordLock" where
  "extend_end previous r =
     previous\<lparr>rl_range := (rl_range previous)\<lparr>rg_end :=
        max (rg_end (rl_range previous)) (rg_end (rl_range r))\<rparr>\<rparr>"

text \<open>
  The coalescing loop, with the array under construction and the number of its entries.  The
  \<open>expect\<close> on the previous entry and the write at \<open>count\<close> are panics when they fail.
\<close>

fun coalesce_into ::
  "LinuxRecordLock list \<Rightarrow> LinuxRecordLock option list \<Rightarrow> nat
     \<Rightarrow> (LinuxRecordLock option list) lock_result" where
  "coalesce_into [] coalesced n = Inr coalesced"
| "coalesce_into (r # rs) coalesced n =
     (if n \<noteq> 0 then
        (case coalesced ! (n - 1) of
           None \<Rightarrow> Inl Panic
         | Some previous \<Rightarrow>
             if coalesces previous r
             then coalesce_into rs (coalesced[n - 1 := Some (extend_end previous r)]) n
             else if n < length coalesced
             then coalesce_into rs (coalesced[n := Some r]) (Suc n)
             else Inl Panic)
      else if n < length coalesced
      then coalesce_into rs (coalesced[n := Some r]) (Suc n)
      else Inl Panic)"

definition sort_and_coalesce :: "LinuxRecordLockTable \<Rightarrow> LinuxRecordLockTable lock_result" where
  "sort_and_coalesce t =
     and_then
       (coalesce_into (flatten (exchange_sort should_swap (records t)))
          (replicate (length (records t)) None) 0)
       (\<lambda>coalesced. Inr (t\<lparr>records := coalesced\<rparr>))"

text \<open>One pass over the records, and the loop that repeats it until the range is stable.\<close>

definition widen_step ::
  "u64 \<Rightarrow> usize \<Rightarrow> LinuxRecordLockKind \<Rightarrow> LinuxRecordLock \<Rightarrow> LinuxRecordLockRange
     \<Rightarrow> LinuxRecordLockRange" where
  "widen_step file_id owner kind r replacement =
     (if rl_file_id r = file_id \<and> rl_owner r = owner \<and> rl_kind r = kind
         \<and> ranges_touch_or_overlap (rl_range r) replacement
      then \<lparr>rg_start = min (rg_start replacement) (rg_start (rl_range r)),
            rg_end = max (rg_end replacement) (rg_end (rl_range r))\<rparr>
      else replacement)"

definition widen_pass ::
  "u64 \<Rightarrow> usize \<Rightarrow> LinuxRecordLockKind \<Rightarrow> LinuxRecordLock list \<Rightarrow> LinuxRecordLockRange
     \<Rightarrow> LinuxRecordLockRange" where
  "widen_pass file_id owner kind rs replacement = fold (widen_step file_id owner kind) rs replacement"

definition lock_range_within :: "LinuxRecordLockRange \<Rightarrow> LinuxRecordLockRange \<Rightarrow> bool" where
  "lock_range_within inner outer = (rg_start outer \<le> rg_start inner \<and> rg_end inner \<le> rg_end outer)"

lemma lock_range_within_refl [simp]: "lock_range_within r r"
  by (simp add: lock_range_within_def)

lemma lock_range_within_trans: "lock_range_within a b \<Longrightarrow> lock_range_within b c \<Longrightarrow> lock_range_within a c"
  by (auto simp: lock_range_within_def)

lemma lock_range_within_antisym: "lock_range_within a b \<Longrightarrow> lock_range_within b a \<Longrightarrow> a = (b :: LinuxRecordLockRange)"
  by (auto simp: lock_range_within_def intro: LinuxRecordLockRange.equality)

lemma widen_step_grows: "lock_range_within r (widen_step f ow k x r)"
  by (simp add: widen_step_def lock_range_within_def)

lemma widen_pass_grows: "lock_range_within r (widen_pass f ow k xs r)"
  unfolding widen_pass_def
proof (induction xs arbitrary: r)
  case (Cons x xs)
  then show ?case using widen_step_grows lock_range_within_trans by fastforce
qed simp

function widen ::
  "u64 \<Rightarrow> usize \<Rightarrow> LinuxRecordLockKind \<Rightarrow> LinuxRecordLock list \<Rightarrow> LinuxRecordLockRange
     \<Rightarrow> LinuxRecordLockRange" where
  "widen file_id owner kind rs replacement =
     (let before = replacement; replacement = widen_pass file_id owner kind rs replacement
      in if replacement = before then replacement else widen file_id owner kind rs replacement)"
  by pat_completeness auto
termination
proof (relation "measure (\<lambda>(f, ow, k, rs, r). unat (rg_start r) + (2 ^ 64 - unat (rg_end r)))")
  fix f ow k rs and r before r' :: LinuxRecordLockRange
  assume a: "before = r" "r' = widen_pass f ow k rs r" "r' \<noteq> before"
  then have w: "lock_range_within r r'" by (simp add: widen_pass_grows)
  then have "rg_start r' < rg_start r \<or> rg_end r < rg_end r'"
    using a(1,3) lock_range_within_antisym [of r r'] by (force simp: lock_range_within_def less_le)
  moreover have "unat (rg_end r') < 2 ^ 64" using unsigned_less [of "rg_end r'"] by simp
  ultimately show "((f, ow, k, rs, r'), (f, ow, k, rs, r))
      \<in> measure (\<lambda>(f, ow, k, rs, r). unat (rg_start r) + (2 ^ 64 - unat (rg_end r)))"
    using w by (auto simp: lock_range_within_def word_le_nat_alt word_less_nat_alt)
qed simp

declare widen.simps [simp del]

text \<open>The loop that copies the records into the candidate table of \<open>set\<close>.\<close>

fun set_candidate ::
  "u64 \<Rightarrow> usize \<Rightarrow> LinuxRecordLockKind \<Rightarrow> LinuxRecordLockRange \<Rightarrow> LinuxRecordLock list
     \<Rightarrow> LinuxRecordLockTable \<Rightarrow> LinuxRecordLockTable lock_result" where
  "set_candidate file_id owner kind replacement [] candidate = Inr candidate"
| "set_candidate file_id owner kind replacement (r # rs) candidate =
     (if rl_file_id r \<noteq> file_id \<or> rl_owner r \<noteq> owner
      then and_then (table_push candidate r) (set_candidate file_id owner kind replacement rs)
      else if rl_kind r = kind \<and> ranges_touch_or_overlap (rl_range r) replacement
      then set_candidate file_id owner kind replacement rs candidate
      else if \<not> linux_record_lock_ranges_overlap (rl_range r) replacement
      then and_then (table_push candidate r) (set_candidate file_id owner kind replacement rs)
      else
        and_then (push_left_piece candidate r replacement) (\<lambda>candidate.
        and_then (push_right_piece candidate r replacement)
          (set_candidate file_id owner kind replacement rs)))"

text \<open>\<open>*self = candidate\<close> happens only when every step of building the candidate succeeded.\<close>

definition table_commit ::
  "LinuxRecordLockTable \<Rightarrow> LinuxRecordLockTable lock_result
     \<Rightarrow> LinuxRecordLockTable \<times> unit lock_result" where
  "table_commit t result = (case result of Inl e \<Rightarrow> (t, Inl e) | Inr candidate \<Rightarrow> (candidate, Inr ()))"

definition table_set ::
  "LinuxRecordLockTable \<Rightarrow> u64 \<Rightarrow> usize \<Rightarrow> LinuxRecordLockKind \<Rightarrow> LinuxRecordLockRange
     \<Rightarrow> LinuxRecordLockTable \<times> unit lock_result" where
  "table_set t file_id owner kind rng =
     (let replacement = widen file_id owner kind (flatten (records t)) rng
      in table_commit t
        (and_then
          (set_candidate file_id owner kind replacement (flatten (records t))
             (lock_table_new (length (records t)))) (\<lambda>candidate.
        and_then
          (table_push candidate
             \<lparr>rl_file_id = file_id, rl_owner = owner, rl_kind = kind, rl_range = replacement\<rparr>)
          sort_and_coalesce)))"

fun unlock_candidate ::
  "u64 \<Rightarrow> usize \<Rightarrow> LinuxRecordLockRange \<Rightarrow> LinuxRecordLock list
     \<Rightarrow> LinuxRecordLockTable \<Rightarrow> LinuxRecordLockTable lock_result" where
  "unlock_candidate file_id owner rng [] candidate = Inr candidate"
| "unlock_candidate file_id owner rng (r # rs) candidate =
     (if rl_file_id r \<noteq> file_id \<or> rl_owner r \<noteq> owner
         \<or> \<not> linux_record_lock_ranges_overlap (rl_range r) rng
      then and_then (table_push candidate r) (unlock_candidate file_id owner rng rs)
      else
        and_then (push_left_piece candidate r rng) (\<lambda>candidate.
        and_then (push_right_piece candidate r rng) (unlock_candidate file_id owner rng rs)))"

definition table_unlock ::
  "LinuxRecordLockTable \<Rightarrow> u64 \<Rightarrow> usize \<Rightarrow> LinuxRecordLockRange
     \<Rightarrow> LinuxRecordLockTable \<times> unit lock_result" where
  "table_unlock t file_id owner rng =
     table_commit t
       (and_then
         (unlock_candidate file_id owner rng (flatten (records t))
            (lock_table_new (length (records t))))
         sort_and_coalesce)"

definition table_release_owner_file ::
  "LinuxRecordLockTable \<Rightarrow> usize \<Rightarrow> u64 \<Rightarrow> LinuxRecordLockTable" where
  "table_release_owner_file t owner file_id =
     table_retain (\<lambda>r. rl_owner r \<noteq> owner \<or> rl_file_id r \<noteq> file_id) t"

definition table_release_owner :: "LinuxRecordLockTable \<Rightarrow> usize \<Rightarrow> LinuxRecordLockTable" where
  "table_release_owner t owner = table_retain (\<lambda>r. rl_owner r \<noteq> owner) t"

definition table_reset :: "LinuxRecordLockTable \<Rightarrow> LinuxRecordLockTable" where
  "table_reset t = t\<lparr>records := replicate (length (records t)) None\<rparr>"

subsection \<open>Blocked requests\<close>

datatype LinuxRecordLockWaitOutcome = LockWaiting | LockWoken | LockInterrupted

record LinuxRecordLockWaiter =
  lw_file_id :: u64
  lw_owner :: usize
  lw_kind :: LinuxRecordLockKind
  lw_range :: LinuxRecordLockRange
  lw_tid :: usize
  lw_scheduler_thread :: usize
  lw_sequence :: u64
  lw_outcome :: LinuxRecordLockWaitOutcome

definition lock_waiter_new ::
  "u64 \<Rightarrow> usize \<Rightarrow> LinuxRecordLockKind \<Rightarrow> LinuxRecordLockRange \<Rightarrow> usize \<Rightarrow> usize
     \<Rightarrow> LinuxRecordLockWaiter" where
  "lock_waiter_new file_id owner kind rng tid scheduler_thread =
     \<lparr>lw_file_id = file_id, lw_owner = owner, lw_kind = kind, lw_range = rng, lw_tid = tid,
      lw_scheduler_thread = scheduler_thread, lw_sequence = 0, lw_outcome = LockWaiting\<rparr>"

datatype LinuxRecordLockWaiterError = WaiterCapacity | WaiterDuplicate | WaiterExhausted

record LinuxRecordLockState =
  locks :: LinuxRecordLockTable
  waiters :: "LinuxRecordLockWaiter option list"
  next_sequence :: u64

definition lock_state_new :: "nat \<Rightarrow> nat \<Rightarrow> LinuxRecordLockState" where
  "lock_state_new L W = \<lparr>locks = lock_table_new L, waiters = replicate W None, next_sequence = 0\<rparr>"

definition lw_identity :: "LinuxRecordLockWaiter \<Rightarrow> usize \<times> usize" where
  "lw_identity w = (lw_tid w, lw_scheduler_thread w)"

definition waiter_push ::
  "LinuxRecordLockState \<Rightarrow> LinuxRecordLockWaiter
     \<Rightarrow> LinuxRecordLockState \<times> (LinuxRecordLockWaiterError + unit)" where
  "waiter_push s waiter =
     (if list_ex (\<lambda>current. lw_tid current = lw_tid waiter
                   \<and> lw_scheduler_thread current = lw_scheduler_thread waiter) (flatten (waiters s))
      then (s, Inl WaiterDuplicate)
      else
        (case checked_add (next_sequence s) 1 of
           None \<Rightarrow> (s, Inl WaiterExhausted)
         | Some following \<Rightarrow>
             (case position (\<lambda>slot. slot = None) (waiters s) of
                None \<Rightarrow> (s, Inl WaiterCapacity)
              | Some i \<Rightarrow>
                  (s\<lparr>waiters := (waiters s)[i := Some (waiter\<lparr>lw_sequence := next_sequence s,
                       lw_outcome := LockWaiting\<rparr>)],
                     next_sequence := following\<rparr>, Inr ()))))"

definition lock_ready :: "LinuxRecordLockTable \<Rightarrow> LinuxRecordLockWaiter \<Rightarrow> bool" where
  "lock_ready t w =
     (lw_outcome w = LockWaiting
      \<and> first_conflict t (lw_file_id w) (lw_owner w) (lw_kind w) (lw_range w) = None)"

text \<open>The selection scan of \<open>wake_ready\<close>: index and sequence number of the best waiter so far.\<close>

fun select_ready ::
  "LinuxRecordLockTable \<Rightarrow> nat \<Rightarrow> LinuxRecordLockWaiter option list \<Rightarrow> (nat \<times> u64) option
     \<Rightarrow> (nat \<times> u64) option" where
  "select_ready t index [] selected = selected"
| "select_ready t index (None # ws) selected = select_ready t (Suc index) ws selected"
| "select_ready t index (Some w # ws) selected =
     (if \<not> lock_ready t w then select_ready t (Suc index) ws selected
      else if (case selected of None \<Rightarrow> True | Some (_, sequence) \<Rightarrow> lw_sequence w < sequence)
      then select_ready t (Suc index) ws (Some (index, lw_sequence w))
      else select_ready t (Suc index) ws selected)"

definition oldest_ready :: "LinuxRecordLockTable \<Rightarrow> LinuxRecordLockWaiter option list \<Rightarrow> nat option" where
  "oldest_ready t ws = map_option fst (select_ready t 0 ws None)"

definition lock_woken :: "LinuxRecordLockWaiter \<Rightarrow> LinuxRecordLockWaiter" where
  "lock_woken w = w\<lparr>lw_outcome := LockWoken\<rparr>"

text \<open>
  The loop of \<open>wake_ready\<close>.  An empty slot under the selected index or more served waiters
  than result slots would be a panic, the value \<open>None\<close>.
\<close>

function wake_loop ::
  "LinuxRecordLockTable \<Rightarrow> LinuxRecordLockWaiter option list \<Rightarrow> (usize \<times> usize) option list \<Rightarrow> nat
     \<Rightarrow> (LinuxRecordLockWaiter option list \<times> (usize \<times> usize) option list) option" where
  "wake_loop t ws identities served =
     (case oldest_ready t ws of
        None \<Rightarrow> Some (ws, identities)
      | Some index \<Rightarrow>
          (case ws ! index of
             None \<Rightarrow> None
           | Some w \<Rightarrow>
               if served < length identities
               then wake_loop t (ws[index := Some (lock_woken w)])
                      (identities[served := Some (lw_identity w)]) (Suc served)
               else None))"
  by pat_completeness auto
termination
  by (relation "measure (\<lambda>(t, ws, identities, served). length identities - served)") auto

declare wake_loop.simps [simp del]

definition wake_ready ::
  "LinuxRecordLockState \<Rightarrow> (LinuxRecordLockState \<times> (usize \<times> usize) option list) option" where
  "wake_ready s =
     (case wake_loop (locks s) (waiters s) (replicate (length (waiters s)) None) 0 of
        None \<Rightarrow> None
      | Some (ws, identities) \<Rightarrow> Some (s\<lparr>waiters := ws\<rparr>, identities))"

definition lw_is :: "usize \<Rightarrow> usize \<Rightarrow> LinuxRecordLockWaiter \<Rightarrow> bool" where
  "lw_is tid scheduler_thread w = (lw_tid w = tid \<and> lw_scheduler_thread w = scheduler_thread)"

definition lock_interrupt :: "LinuxRecordLockState \<Rightarrow> usize \<Rightarrow> usize \<Rightarrow> LinuxRecordLockState \<times> bool" where
  "lock_interrupt s tid scheduler_thread =
     (case position (slot_is (lw_is tid scheduler_thread)) (waiters s) of
        None \<Rightarrow> (s, False)
      | Some i \<Rightarrow>
          (case waiters s ! i of
             None \<Rightarrow> (s, False)
           | Some w \<Rightarrow>
               if lw_outcome w \<noteq> LockWaiting then (s, False)
               else (s\<lparr>waiters := (waiters s)[i := Some (w\<lparr>lw_outcome := LockInterrupted\<rparr>)]\<rparr>, True)))"

definition lock_remove_task :: "LinuxRecordLockState \<Rightarrow> usize \<Rightarrow> usize \<Rightarrow> LinuxRecordLockState \<times> nat" where
  "lock_remove_task s tid scheduler_thread =
     (s\<lparr>waiters := map (\<lambda>slot. if slot_is (lw_is tid scheduler_thread) slot then None else slot) (waiters s)\<rparr>,
      length (filter (slot_is (lw_is tid scheduler_thread)) (waiters s)))"

definition lock_take_outcome ::
  "LinuxRecordLockState \<Rightarrow> usize \<Rightarrow> usize \<Rightarrow> LinuxRecordLockState \<times> LinuxRecordLockWaitOutcome option" where
  "lock_take_outcome s tid scheduler_thread =
     (case position (slot_is (\<lambda>w. lw_is tid scheduler_thread w \<and> lw_outcome w \<noteq> LockWaiting)) (waiters s) of
        None \<Rightarrow> (s, None)
      | Some i \<Rightarrow>
          (s\<lparr>waiters := (waiters s)[i := None]\<rparr>, map_option lw_outcome (waiters s ! i)))"

definition lock_state_reset :: "LinuxRecordLockState \<Rightarrow> LinuxRecordLockState" where
  "lock_state_reset s =
     s\<lparr>locks := table_reset (locks s), waiters := replicate (length (waiters s)) None,
       next_sequence := 0\<rparr>"

subsection \<open>Runtime entry points\<close>

text \<open>
  The runtime wraps the shared state in a lock and masks interrupts around every access, so
  each entry point is one transition.  The task table of \<open>linux_task.rs\<close> is a parameter: its
  state \<open>'t\<close> and \<open>wake_blocked\<close>, which makes a task that is blocked on a record lock runnable
  and tells whether it was blocked.  A panic of the shared logic is the value \<open>None\<close>.
\<close>

definition LINUX_RECORD_LOCK_LIMIT :: nat where
  "LINUX_RECORD_LOCK_LIMIT = 64"

datatype LinuxRecordLockRuntimeError = Conflict | Capacity

fun deliver_wakeups ::
  "'t waker \<Rightarrow> (usize \<times> usize) list \<Rightarrow> LinuxRecordLockState \<times> 't \<Rightarrow> LinuxRecordLockState \<times> 't" where
  "deliver_wakeups wake_blocked [] st = st"
| "deliver_wakeups wake_blocked ((tid, scheduler_thread) # ids) (s, tasks) =
     (let (tasks, woken) = wake_blocked tid scheduler_thread tasks
      in deliver_wakeups wake_blocked ids
           (if woken then s else fst (lock_take_outcome s tid scheduler_thread), tasks))"

definition wake_ready_tasks ::
  "'t waker \<Rightarrow> LinuxRecordLockState \<times> 't \<Rightarrow> (LinuxRecordLockState \<times> 't) option" where
  "wake_ready_tasks wake_blocked st =
     (case wake_ready (fst st) of
        None \<Rightarrow> None
      | Some (s, identities) \<Rightarrow> Some (deliver_wakeups wake_blocked (flatten identities) (s, snd st)))"

definition commit_and_wake ::
  "'t waker \<Rightarrow> 'e \<Rightarrow> LinuxRecordLockState \<times> 't \<Rightarrow> LinuxRecordLockTable \<times> unit lock_result
     \<Rightarrow> ((LinuxRecordLockState \<times> 't) \<times> ('e + unit)) option" where
  "commit_and_wake wake_blocked e st r =
     (case snd r of
        Inl Panic \<Rightarrow> None
      | Inl (Err _) \<Rightarrow> Some (((fst st)\<lparr>locks := fst r\<rparr>, snd st), Inl e)
      | Inr _ \<Rightarrow>
          map_option (\<lambda>st. (st, Inr ()))
            (wake_ready_tasks wake_blocked ((fst st)\<lparr>locks := fst r\<rparr>, snd st)))"

definition set_nonblocking ::
  "'t waker \<Rightarrow> LinuxRecordLockState \<times> 't \<Rightarrow> u64 \<Rightarrow> usize \<Rightarrow> LinuxRecordLockKind option
     \<Rightarrow> LinuxRecordLockRange
     \<Rightarrow> ((LinuxRecordLockState \<times> 't) \<times> (LinuxRecordLockRuntimeError + unit)) option" where
  "set_nonblocking wake_blocked st file_id owner kind rng =
     (case kind of
        Some kind \<Rightarrow>
          (if first_conflict (locks (fst st)) file_id owner kind rng \<noteq> None
           then Some (st, Inl Conflict)
           else commit_and_wake wake_blocked Capacity st
                  (table_set (locks (fst st)) file_id owner kind rng))
      | None \<Rightarrow>
          commit_and_wake wake_blocked Capacity st (table_unlock (locks (fst st)) file_id owner rng))"

text \<open>
  \<open>set_blocking\<close> up to the call of the scheduler: either it returns, or the caller is queued
  and blocked.  \<open>block_current\<close> of \<open>linux_task.rs\<close> is a parameter: it blocks the calling task
  and returns its tid and scheduler thread, or fails.
\<close>

datatype blocking_result = Returned "SysError + unit" | Parked

definition set_blocking_enter ::
  "'t waker \<Rightarrow> ('t \<Rightarrow> 't \<times> (SysError + usize \<times> usize)) \<Rightarrow> nat \<Rightarrow> usize \<Rightarrow> SysError + usize
     \<Rightarrow> LinuxRecordLockState \<times> 't \<Rightarrow> u64 \<Rightarrow> usize \<Rightarrow> LinuxRecordLockKind \<Rightarrow> LinuxRecordLockRange
     \<Rightarrow> ((LinuxRecordLockState \<times> 't) \<times> blocking_result) option" where
  "set_blocking_enter wake_blocked block_current cpu scheduler_thread current_tid st file_id owner kind rng =
     (if cpu \<noteq> 0 then Some (st, Returned (Inl EINVAL))
      else
        (case current_tid of
           Inl error \<Rightarrow> Some (st, Returned (Inl error))
         | Inr tid \<Rightarrow>
             if first_conflict (locks (fst st)) file_id owner kind rng = None
             then map_option (map_prod id Returned)
                    (commit_and_wake wake_blocked ENOLCK st
                      (table_set (locks (fst st)) file_id owner kind rng))
             else
               (case waiter_push (fst st) (lock_waiter_new file_id owner kind rng tid scheduler_thread) of
                  (s, Inl _) \<Rightarrow> Some ((s, snd st), Returned (Inl ENOLCK))
                | (s, Inr _) \<Rightarrow>
                    let (tasks, blocked) = block_current (snd st)
                    in if blocked = Inr (tid, scheduler_thread) then Some ((s, tasks), Parked)
                       else Some ((fst (lock_remove_task s tid scheduler_thread), tasks),
                              Returned (Inl EAGAIN)))))"

text \<open>
  \<open>set_blocking\<close> after the scheduler has come back to the caller: \<open>Parked\<close> stands for the next
  round of the loop, which starts with \<open>set_blocking_enter\<close> again.
\<close>

definition set_blocking_resume ::
  "'t waker \<Rightarrow> usize \<Rightarrow> usize \<Rightarrow> LinuxRecordLockState \<times> 't
     \<Rightarrow> ((LinuxRecordLockState \<times> 't) \<times> blocking_result) option" where
  "set_blocking_resume wake_blocked tid scheduler_thread st =
     (let (s, outcome) = lock_take_outcome (fst st) tid scheduler_thread
      in case outcome of
           Some LockWoken \<Rightarrow> Some ((s, snd st), Parked)
         | Some LockInterrupted \<Rightarrow> Some ((s, snd st), Returned (Inl EINTR))
         | Some LockWaiting \<Rightarrow> None
         | None \<Rightarrow>
             Some ((fst (lock_remove_task s tid scheduler_thread),
                    fst (wake_blocked tid scheduler_thread (snd st))), Returned (Inl EAGAIN)))"

definition release_owner_file ::
  "'t waker \<Rightarrow> LinuxRecordLockState \<times> 't \<Rightarrow> usize \<Rightarrow> u64 \<Rightarrow> (LinuxRecordLockState \<times> 't) option" where
  "release_owner_file wake_blocked st owner file_id =
     wake_ready_tasks wake_blocked
       ((fst st)\<lparr>locks := table_release_owner_file (locks (fst st)) owner file_id\<rparr>, snd st)"

definition release_owner ::
  "'t waker \<Rightarrow> LinuxRecordLockState \<times> 't \<Rightarrow> usize \<Rightarrow> (LinuxRecordLockState \<times> 't) option" where
  "release_owner wake_blocked st owner =
     wake_ready_tasks wake_blocked
       ((fst st)\<lparr>locks := table_release_owner (locks (fst st)) owner\<rparr>, snd st)"

definition interrupt_task ::
  "'t waker \<Rightarrow> LinuxRecordLockState \<times> 't \<Rightarrow> usize \<Rightarrow> usize \<Rightarrow> (LinuxRecordLockState \<times> 't) \<times> bool" where
  "interrupt_task wake_blocked st tid scheduler_thread =
     (let (s, interrupted) = lock_interrupt (fst st) tid scheduler_thread
      in if \<not> interrupted then ((s, snd st), False)
         else
           let (tasks, woken) = wake_blocked tid scheduler_thread (snd st)
           in if woken then ((s, tasks), True)
              else ((fst (lock_take_outcome s tid scheduler_thread), tasks), False))"

definition remove_task_waiters ::
  "LinuxRecordLockState \<times> 't \<Rightarrow> usize \<Rightarrow> usize \<Rightarrow> (LinuxRecordLockState \<times> 't) \<times> nat" where
  "remove_task_waiters st tid scheduler_thread =
     (let (s, removed) = lock_remove_task (fst st) tid scheduler_thread in ((s, snd st), removed))"

definition lock_runtime_reset :: "LinuxRecordLockState \<times> 't \<Rightarrow> LinuxRecordLockState \<times> 't" where
  "lock_runtime_reset st = (lock_state_reset (fst st), snd st)"

subsection \<open>Meaning of a table, byte by byte\<close>

definition covers :: "LinuxRecordLockRange \<Rightarrow> u64 \<Rightarrow> bool" where
  "covers r b = (rg_start r \<le> b \<and> b < rg_end r)"

definition wf_range :: "LinuxRecordLockRange \<Rightarrow> bool" where
  "wf_range r = (rg_start r < rg_end r)"

definition holds_byte ::
  "LinuxRecordLock list \<Rightarrow> u64 \<Rightarrow> usize \<Rightarrow> LinuxRecordLockKind \<Rightarrow> u64 \<Rightarrow> bool" where
  "holds_byte rs file_id owner kind b =
     list_ex (\<lambda>r. rl_file_id r = file_id \<and> rl_owner r = owner \<and> rl_kind r = kind
        \<and> covers (rl_range r) b) rs"

text \<open>Two records of one owner on one file never overlap, and no range is empty.\<close>

definition own_disjoint :: "LinuxRecordLock \<Rightarrow> LinuxRecordLock \<Rightarrow> bool" where
  "own_disjoint a b =
     (rl_file_id a = rl_file_id b \<and> rl_owner a = rl_owner b
      \<longrightarrow> \<not> linux_record_lock_ranges_overlap (rl_range a) (rl_range b))"

definition records_ok :: "LinuxRecordLock list \<Rightarrow> bool" where
  "records_ok rs = (list_all (\<lambda>r. wf_range (rl_range r)) rs \<and> sorted_wrt own_disjoint rs)"

definition lock_table_ok :: "LinuxRecordLockTable \<Rightarrow> bool" where
  "lock_table_ok t = records_ok (flatten (records t))"

lemma overlap_iff:
  assumes "wf_range a" "wf_range b"
  shows "linux_record_lock_ranges_overlap a b \<longleftrightarrow> (\<exists>x. covers a x \<and> covers b x)"
proof
  assume "linux_record_lock_ranges_overlap a b"
  then have "covers a (max (rg_start a) (rg_start b)) \<and> covers b (max (rg_start a) (rg_start b))"
    using assms by (auto simp: linux_record_lock_ranges_overlap_def covers_def wf_range_def max_def)
  then show "\<exists>x. covers a x \<and> covers b x" by blast
next
  assume "\<exists>x. covers a x \<and> covers b x"
  then show "linux_record_lock_ranges_overlap a b"
    by (auto simp: linux_record_lock_ranges_overlap_def covers_def intro: le_less_trans)
qed

lemma overlap_sym: "linux_record_lock_ranges_overlap a b = linux_record_lock_ranges_overlap b a"
  by (auto simp: linux_record_lock_ranges_overlap_def)

lemma touch_sym: "ranges_touch_or_overlap a b = ranges_touch_or_overlap b a"
  by (auto simp: ranges_touch_or_overlap_def overlap_sym)

lemma own_disjoint_sym: "own_disjoint a b \<Longrightarrow> own_disjoint b a"
  by (auto simp: own_disjoint_def overlap_sym)

lemma holds_byte_simps [simp]:
  "\<not> holds_byte [] f ow k b"
  "holds_byte (r # rs) f ow k b \<longleftrightarrow>
     rl_file_id r = f \<and> rl_owner r = ow \<and> rl_kind r = k \<and> covers (rl_range r) b
     \<or> holds_byte rs f ow k b"
  "holds_byte (rs @ ss) f ow k b \<longleftrightarrow> holds_byte rs f ow k b \<or> holds_byte ss f ow k b"
  by (auto simp: holds_byte_def)

lemma holds_byte_iff:
  "holds_byte rs f ow k b \<longleftrightarrow>
     (\<exists>r\<in>set rs. rl_file_id r = f \<and> rl_owner r = ow \<and> rl_kind r = k \<and> covers (rl_range r) b)"
  by (auto simp: holds_byte_def list_ex_iff)

lemma records_ok_Nil [simp]: "records_ok []"
  by (simp add: records_ok_def)

lemma records_ok_Cons [simp]:
  "records_ok (r # rs) \<longleftrightarrow> wf_range (rl_range r) \<and> (\<forall>s\<in>set rs. own_disjoint r s) \<and> records_ok rs"
  by (auto simp: records_ok_def)

lemma records_ok_append:
  "records_ok (rs @ ss) \<longleftrightarrow> records_ok rs \<and> records_ok ss \<and> (\<forall>r\<in>set rs. \<forall>s\<in>set ss. own_disjoint r s)"
  by (auto simp: records_ok_def sorted_wrt_append)

lemma records_ok_wf: "records_ok rs \<Longrightarrow> r \<in> set rs \<Longrightarrow> wf_range (rl_range r)"
  by (auto simp: records_ok_def list_all_iff)

lemma records_ok_mset: "records_ok rs \<Longrightarrow> mset rs = mset ss \<Longrightarrow> records_ok ss"
  using sorted_wrt_mset [of own_disjoint rs ss] own_disjoint_sym mset_eq_setD [of rs ss]
  by (auto simp: records_ok_def list_all_iff)

lemma records_ok_filter: "records_ok rs \<Longrightarrow> records_ok (filter p rs)"
  by (auto simp: records_ok_def list_all_iff intro: sorted_wrt_filter)

lemma holds_byte_mset: "mset rs = mset ss \<Longrightarrow> holds_byte rs = holds_byte ss"
  by (intro ext) (auto simp: holds_byte_iff dest: mset_eq_setD)

text \<open>No byte of a file is held twice by one owner.\<close>

lemma holds_byte_unique:
  assumes "records_ok rs" "holds_byte rs f ow k b" "holds_byte rs f ow k' b"
  shows "k = k'"
  using assms
proof (induction rs)
  case (Cons r rs)
  have "\<not> covers (rl_range r) b" if "rl_file_id r = f" "rl_owner r = ow" "holds_byte rs f ow j b" for j
  proof -
    from that(3) obtain s where s: "s \<in> set rs" "rl_file_id s = f" "rl_owner s = ow" "covers (rl_range s) b"
      by (auto simp: holds_byte_iff)
    with Cons.prems(1) that(1,2) have "\<not> linux_record_lock_ranges_overlap (rl_range r) (rl_range s)"
      by (auto simp: own_disjoint_def)
    moreover have "wf_range (rl_range r)" "wf_range (rl_range s)"
      using Cons.prems(1) records_ok_wf [of rs s] s(1) by simp_all
    ultimately show ?thesis using s(4) by (auto simp: overlap_iff)
  qed
  with Cons show ?case by auto
qed simp

text \<open>Appending records to a candidate table, or running out of slots.\<close>

definition extend_table ::
  "nat \<Rightarrow> LinuxRecordLock list \<Rightarrow> LinuxRecordLock list \<Rightarrow> LinuxRecordLockTable lock_result" where
  "extend_table N xs ys =
     (if length xs + length ys \<le> N then Inr \<lparr>records = compact N (xs @ ys)\<rparr> else Inl (Err LockCapacity))"

lemma extend_table_Nil: "length xs \<le> N \<Longrightarrow> extend_table N xs [] = Inr \<lparr>records = compact N xs\<rparr>"
  by (simp add: extend_table_def)

lemma extend_table_append:
  assumes "length xs + length ys \<le> N \<Longrightarrow> f \<lparr>records = compact N (xs @ ys)\<rparr> = extend_table N (xs @ ys) zs"
  shows "and_then (extend_table N xs ys) f = extend_table N xs (ys @ zs)"
  using assms by (auto simp: extend_table_def)

lemma table_push_compact:
  "table_push \<lparr>records = compact N xs\<rparr> r = extend_table N xs [r]"
  by (auto simp: table_push_def position_compact extend_table_def compact_snoc)

subsection \<open>Splitting\<close>

definition left_piece :: "LinuxRecordLock \<Rightarrow> LinuxRecordLockRange \<Rightarrow> LinuxRecordLock list" where
  "left_piece r removed =
     (if rg_start (rl_range r) < rg_start removed
      then [r\<lparr>rl_range := \<lparr>rg_start = rg_start (rl_range r), rg_end = rg_start removed\<rparr>\<rparr>] else [])"

definition right_piece :: "LinuxRecordLock \<Rightarrow> LinuxRecordLockRange \<Rightarrow> LinuxRecordLock list" where
  "right_piece r removed =
     (if rg_end removed < rg_end (rl_range r)
      then [r\<lparr>rl_range := \<lparr>rg_start = rg_end removed, rg_end = rg_end (rl_range r)\<rparr>\<rparr>] else [])"

lemma push_left_piece_compact:
  assumes "linux_record_lock_ranges_overlap (rl_range r) removed" "length xs \<le> N"
  shows "push_left_piece \<lparr>records = compact N xs\<rparr> r removed = extend_table N xs (left_piece r removed)"
proof -
  have "rg_start removed \<noteq> LINUX_RECORD_LOCK_END_OF_FILE"
    using assms(1) by (auto simp: linux_record_lock_ranges_overlap_def LINUX_RECORD_LOCK_END_OF_FILE_def)
  then show ?thesis
    using assms(2) by (simp add: push_left_piece_def left_piece_def finite_range_def table_push_compact
      extend_table_Nil)
qed

lemma push_right_piece_compact:
  assumes "length xs \<le> N"
  shows "push_right_piece \<lparr>records = compact N xs\<rparr> r removed = extend_table N xs (right_piece r removed)"
  using assms
  by (auto simp: push_right_piece_def right_piece_def finite_range_def to_eof_def table_push_compact
      extend_table_Nil)

definition set_pieces ::
  "u64 \<Rightarrow> usize \<Rightarrow> LinuxRecordLockKind \<Rightarrow> LinuxRecordLockRange \<Rightarrow> LinuxRecordLock
     \<Rightarrow> LinuxRecordLock list" where
  "set_pieces file_id owner kind replacement r =
     (if rl_file_id r \<noteq> file_id \<or> rl_owner r \<noteq> owner then [r]
      else if rl_kind r = kind \<and> ranges_touch_or_overlap (rl_range r) replacement then []
      else if \<not> linux_record_lock_ranges_overlap (rl_range r) replacement then [r]
      else left_piece r replacement @ right_piece r replacement)"

definition unlock_pieces ::
  "u64 \<Rightarrow> usize \<Rightarrow> LinuxRecordLockRange \<Rightarrow> LinuxRecordLock \<Rightarrow> LinuxRecordLock list" where
  "unlock_pieces file_id owner rng r =
     (if rl_file_id r \<noteq> file_id \<or> rl_owner r \<noteq> owner
         \<or> \<not> linux_record_lock_ranges_overlap (rl_range r) rng then [r]
      else left_piece r rng @ right_piece r rng)"

lemma push_both_pieces_compact:
  assumes "linux_record_lock_ranges_overlap (rl_range r) rm" "length xs \<le> N"
    and "length xs + length (left_piece r rm @ right_piece r rm) \<le> N \<Longrightarrow>
      f \<lparr>records = compact N (xs @ left_piece r rm @ right_piece r rm)\<rparr>
        = extend_table N (xs @ left_piece r rm @ right_piece r rm) zs"
  shows "and_then (push_left_piece \<lparr>records = compact N xs\<rparr> r rm) (\<lambda>c. and_then (push_right_piece c r rm) f)
    = extend_table N xs ((left_piece r rm @ right_piece r rm) @ zs)"
  unfolding push_left_piece_compact [OF assms(1,2)] append_assoc
proof (rule extend_table_append)
  assume le: "length xs + length (left_piece r rm) \<le> N"
  show "and_then (push_right_piece \<lparr>records = compact N (xs @ left_piece r rm)\<rparr> r rm) f
      = extend_table N (xs @ left_piece r rm) (right_piece r rm @ zs)"
    using le assms(3) by (subst push_right_piece_compact) (auto intro!: extend_table_append)
qed

lemma set_candidate_compact:
  "length xs \<le> N \<Longrightarrow>
   set_candidate f ow k rep rs \<lparr>records = compact N xs\<rparr>
     = extend_table N xs (concat (map (set_pieces f ow k rep) rs))"
proof (induction rs arbitrary: xs)
  case Nil
  then show ?case by (simp add: extend_table_Nil)
next
  case (Cons r rs)
  have one: "and_then (table_push \<lparr>records = compact N xs\<rparr> r) (set_candidate f ow k rep rs)
      = extend_table N xs ([r] @ concat (map (set_pieces f ow k rep) rs))"
    unfolding table_push_compact by (rule extend_table_append) (use Cons.IH in simp)
  have two: "and_then (push_left_piece \<lparr>records = compact N xs\<rparr> r rep) (\<lambda>c.
        and_then (push_right_piece c r rep) (set_candidate f ow k rep rs))
      = extend_table N xs ((left_piece r rep @ right_piece r rep) @ concat (map (set_pieces f ow k rep) rs))"
    if "linux_record_lock_ranges_overlap (rl_range r) rep"
    by (rule push_both_pieces_compact [OF that Cons.prems]) (use Cons.IH in simp)
  show ?case using one two Cons by (auto simp: set_pieces_def [of f ow k rep r])
qed

lemma unlock_candidate_compact:
  "length xs \<le> N \<Longrightarrow>
   unlock_candidate f ow rng rs \<lparr>records = compact N xs\<rparr>
     = extend_table N xs (concat (map (unlock_pieces f ow rng) rs))"
proof (induction rs arbitrary: xs)
  case Nil
  then show ?case by (simp add: extend_table_Nil)
next
  case (Cons r rs)
  have one: "and_then (table_push \<lparr>records = compact N xs\<rparr> r) (unlock_candidate f ow rng rs)
      = extend_table N xs ([r] @ concat (map (unlock_pieces f ow rng) rs))"
    unfolding table_push_compact by (rule extend_table_append) (use Cons.IH in simp)
  have two: "and_then (push_left_piece \<lparr>records = compact N xs\<rparr> r rng) (\<lambda>c.
        and_then (push_right_piece c r rng) (unlock_candidate f ow rng rs))
      = extend_table N xs ((left_piece r rng @ right_piece r rng) @ concat (map (unlock_pieces f ow rng) rs))"
    if "linux_record_lock_ranges_overlap (rl_range r) rng"
    by (rule push_both_pieces_compact [OF that Cons.prems]) (use Cons.IH in simp)
  show ?case using one two by (auto simp: unlock_pieces_def [of f ow rng r])
qed

lemma piece_fields:
  "s \<in> set (left_piece r rm @ right_piece r rm) \<Longrightarrow>
     rl_file_id s = rl_file_id r \<and> rl_owner s = rl_owner r \<and> rl_kind s = rl_kind r \<and> wf_range (rl_range s)"
  by (auto simp: left_piece_def right_piece_def wf_range_def split: if_splits)

lemma pieces_cover:
  assumes "wf_range (rl_range r)" "wf_range rm" "linux_record_lock_ranges_overlap (rl_range r) rm"
  shows "(\<exists>s\<in>set (left_piece r rm @ right_piece r rm). covers (rl_range s) b)
    \<longleftrightarrow> covers (rl_range r) b \<and> \<not> covers rm b"
proof -
  have l: "(\<exists>s\<in>set (left_piece r rm). covers (rl_range s) b)
      \<longleftrightarrow> rg_start (rl_range r) \<le> b \<and> b < rg_start rm"
    by (auto simp: left_piece_def covers_def)
  have g: "(\<exists>s\<in>set (right_piece r rm). covers (rl_range s) b)
      \<longleftrightarrow> rg_end rm \<le> b \<and> b < rg_end (rl_range r)"
    by (auto simp: right_piece_def covers_def)
  show ?thesis
    unfolding set_append bex_Un l g using assms
    by (auto simp: covers_def wf_range_def linux_record_lock_ranges_overlap_def)
qed

lemma pieces_ok:
  assumes "wf_range rm" "linux_record_lock_ranges_overlap (rl_range r) rm"
  shows "records_ok (left_piece r rm @ right_piece r rm)"
  using assms
  by (auto simp: left_piece_def right_piece_def records_ok_def wf_range_def own_disjoint_def
      linux_record_lock_ranges_overlap_def split: if_splits)

subsection \<open>Sorting and coalescing\<close>

lemma length_sort_swap [simp]: "length (sort_swap sw l r xs) = length xs"
  by (simp add: sort_swap_def)

lemma sort_swap_props:
  assumes "left < right" "right < length xs"
  shows "mset (sort_swap sw left right xs) = mset xs" "take left (sort_swap sw left right xs) = take left xs"
  using assms by (simp_all add: sort_swap_def mset_swap)

text \<open>
  The order in which the exchange sort arranges an array: \<open>sw x y\<close> tells that \<open>x\<close> before \<open>y\<close>
  is out of order.
\<close>

locale exchange_order =
  fixes sw :: "'a \<Rightarrow> 'a \<Rightarrow> bool"
  assumes sw_asym: "sw x y \<Longrightarrow> \<not> sw y x"
    and sw_trans: "\<not> sw x y \<Longrightarrow> \<not> sw y z \<Longrightarrow> \<not> sw x z"
begin

lemma sort_inner_min:
  assumes "Suc left \<le> m" "m \<le> length xs"
  shows "length (sort_inner sw left [Suc left..<m] xs) = length xs
    \<and> mset (sort_inner sw left [Suc left..<m] xs) = mset xs
    \<and> take left (sort_inner sw left [Suc left..<m] xs) = take left xs
    \<and> (\<forall>j. left < j \<and> j < m \<longrightarrow>
        \<not> sw (sort_inner sw left [Suc left..<m] xs ! left) (sort_inner sw left [Suc left..<m] xs ! j))"
  using assms
proof (induction m rule: nat_induct_at_least)
  case base
  then show ?case by (auto simp: sort_inner_def)
next
  case (Suc m)
  define ys where "ys = sort_inner sw left [Suc left..<m] xs"
  define zs where "zs = sort_inner sw left [Suc left..<Suc m] xs"
  from Suc have ih: "length ys = length xs" "mset ys = mset xs" "take left ys = take left xs"
    "\<And>j. left < j \<Longrightarrow> j < m \<Longrightarrow> \<not> sw (ys ! left) (ys ! j)" by (simp_all add: ys_def)
  have z: "zs = sort_swap sw left m ys" using Suc.hyps by (simp add: sort_inner_def ys_def zs_def)
  have lm: "left < m" "m < length ys" using Suc.hyps Suc.prems ih(1) by simp_all
  have "\<not> sw (zs ! left) (zs ! j)" if "left < j" "j < Suc m" for j
  proof (cases "sw (ys ! left) (ys ! m)")
    case True
    then have sw_eq: "zs = ys[left := ys ! m, m := ys ! left]" by (simp add: z sort_swap_def)
    have low: "\<not> sw (ys ! m) (ys ! left)" using sw_asym True by blast
    show ?thesis
    proof (cases "j = m")
      case True
      with sw_eq lm low show ?thesis by simp
    next
      case False
      with that have "\<not> sw (ys ! left) (ys ! j)" using ih(4) by simp
      with low have "\<not> sw (ys ! m) (ys ! j)" using sw_trans by blast
      with sw_eq lm that False show ?thesis by simp
    qed
  next
    case False
    with z have "zs = ys" by (simp add: sort_swap_def)
    with ih(4) [of j] that False show ?thesis by (cases "j = m") auto
  qed
  then show ?case using z sort_swap_props [OF lm] ih unfolding zs_def [symmetric] by simp
qed

lemma sort_step_sorted:
  assumes m: "m < length ys"
    and zs: "length zs = length ys" "mset zs = mset ys" "take m zs = take m ys"
    and least: "\<And>j. m < j \<Longrightarrow> j < length ys \<Longrightarrow> \<not> sw (zs ! m) (zs ! j)"
    and before: "\<And>i j. i < m \<Longrightarrow> i < j \<Longrightarrow> j < length ys \<Longrightarrow> \<not> sw (ys ! i) (ys ! j)"
    and ij: "i \<le> m" "i < j" "j < length ys"
  shows "\<not> sw (zs ! i) (zs ! j)"
proof (cases "i = m")
  case True
  then show ?thesis using least ij by simp
next
  case False
  then have i: "i < m" using ij by simp
  have same: "zs ! h = ys ! h" if "h < m" for h
    using zs(3) that by (metis nth_take)
  show ?thesis
  proof (cases "j < m")
    case True
    with i ij before same show ?thesis by simp
  next
    case False
    have "mset (take m zs) + mset (drop m zs) = mset (take m ys) + mset (drop m ys)"
      using zs(2) by (metis append_take_drop_id mset_append)
    then have "set (drop m zs) = set (drop m ys)" using zs(3) by (auto dest: mset_eq_setD)
    moreover have "zs ! j = drop m zs ! (j - m)" "j - m < length (drop m zs)"
      using False ij zs(1) by simp_all
    then have "zs ! j \<in> set (drop m zs)" by (metis nth_mem)
    ultimately obtain h where h: "h < length (drop m ys)" "zs ! j = drop m ys ! h"
      by (metis in_set_conv_nth)
    then show ?thesis using before [of i "m + h"] i same by simp
  qed
qed

lemma exchange_prefix_sorted:
  assumes "m \<le> length xs"
  shows "length (fold (\<lambda>left ys. sort_inner sw left [Suc left..<length xs] ys) [0..<m] xs) = length xs
    \<and> mset (fold (\<lambda>left ys. sort_inner sw left [Suc left..<length xs] ys) [0..<m] xs) = mset xs
    \<and> (\<forall>i j. i < m \<and> i < j \<and> j < length xs \<longrightarrow>
        \<not> sw (fold (\<lambda>left ys. sort_inner sw left [Suc left..<length xs] ys) [0..<m] xs ! i)
             (fold (\<lambda>left ys. sort_inner sw left [Suc left..<length xs] ys) [0..<m] xs ! j))"
  using assms
proof (induction m)
  case 0
  then show ?case by simp
next
  case (Suc m)
  define ys where "ys = fold (\<lambda>left ys. sort_inner sw left [Suc left..<length xs] ys) [0..<m] xs"
  define zs where "zs = fold (\<lambda>left ys. sort_inner sw left [Suc left..<length xs] ys) [0..<Suc m] xs"
  from Suc have ih: "length ys = length xs" "mset ys = mset xs"
    "\<And>i j. i < m \<Longrightarrow> i < j \<Longrightarrow> j < length xs \<Longrightarrow> \<not> sw (ys ! i) (ys ! j)" by (simp_all add: ys_def)
  have z: "zs = sort_inner sw m [Suc m..<length ys] ys" by (simp add: zs_def ys_def [symmetric] ih(1))
  have inner: "length zs = length ys" "mset zs = mset ys" "take m zs = take m ys"
    "\<And>j. m < j \<Longrightarrow> j < length ys \<Longrightarrow> \<not> sw (zs ! m) (zs ! j)"
    using sort_inner_min [of m "length ys" ys] ih(1) Suc.prems unfolding z by simp_all
  have "\<not> sw (zs ! i) (zs ! j)" if "i < Suc m" "i < j" "j < length xs" for i j
    using sort_step_sorted [OF _ inner, of i j] ih Suc.prems that by simp
  then show ?case using inner(1,2) ih(1,2) unfolding zs_def [symmetric] by simp
qed

theorem exchange_sort_sorted:
  "mset (exchange_sort sw xs) = mset xs" "sorted_wrt (\<lambda>x y. \<not> sw x y) (exchange_sort sw xs)"
  using exchange_prefix_sorted [of "length xs" xs]
  by (auto simp: exchange_sort_def sorted_wrt_iff_nth_less)

end

interpretation record_sort: exchange_order should_swap
proof
  fix x y :: "LinuxRecordLock option"
  show "should_swap x y \<Longrightarrow> \<not> should_swap y x"
    by (cases x; cases y) (auto simp: should_swap_def record_less_def)
next
  fix x y z :: "LinuxRecordLock option"
  show "\<not> should_swap x y \<Longrightarrow> \<not> should_swap y z \<Longrightarrow> \<not> should_swap x z"
    by (cases x; cases y; cases z) (auto simp: should_swap_def record_less_def)
qed

lemma mset_flatten: "mset (flatten ws) = image_mset the (filter_mset (\<lambda>x. x \<noteq> None) (mset ws))"
proof (induction ws)
  case (Cons a ws)
  then show ?case by (cases a) simp_all
qed simp

lemma sorted_wrt_flatten:
  "sorted_wrt (\<lambda>x y. \<not> should_swap x y) ws
   \<Longrightarrow> sorted_wrt (\<lambda>a b. record_key a \<le> record_key b) (flatten ws)"
proof (induction ws)
  case (Cons a ws)
  then show ?case
  proof (cases a)
    case (Some x)
    have "record_key x \<le> record_key b" if "b \<in> set (flatten ws)" for b
      using Cons.prems that Some by (auto simp: set_flatten should_swap_def record_less_def not_less)
    with Cons Some show ?thesis by simp
  qed simp
qed simp

text \<open>The coalescing loop on the list of the records it has kept so far.\<close>

fun coalesce :: "LinuxRecordLock list \<Rightarrow> LinuxRecordLock list \<Rightarrow> LinuxRecordLock list" where
  "coalesce acc [] = acc"
| "coalesce acc (r # rs) =
     (if acc \<noteq> [] \<and> coalesces (last acc) r
      then coalesce (butlast acc @ [extend_end (last acc) r]) rs
      else coalesce (acc @ [r]) rs)"

lemma length_coalesce: "length (coalesce acc rs) \<le> length acc + length rs"
proof (induction acc rs rule: coalesce.induct)
  case (2 acc r rs)
  show ?case
  proof (cases "acc \<noteq> [] \<and> coalesces (last acc) r")
    case True
    then have "length acc \<noteq> 0" by simp
    with 2(1) [OF True] True show ?thesis by simp
  qed (use 2(2) in auto)
qed simp

lemma coalesce_into_compact:
  "length acc + length rs \<le> N \<Longrightarrow>
   coalesce_into rs (compact N acc) (length acc) = Inr (compact N (coalesce acc rs))"
proof (induction acc rs rule: coalesce.induct)
  case (1 acc)
  then show ?case by simp
next
  case (2 acc r rs)
  have len: "length (compact N acc) = N" using 2(3) by (simp add: length_compact)
  have keep: "coalesce_into rs (compact N (acc @ [r])) (Suc (length acc)) = Inr (compact N (coalesce (acc @ [r]) rs))"
    if "\<not> (acc \<noteq> [] \<and> coalesces (last acc) r)"
    using 2(2) [OF that] 2(3) by simp
  have snoc: "(compact N acc)[length acc := Some r] = compact N (acc @ [r])"
    using 2(3) by (intro compact_snoc) simp
  show ?case
  proof (cases "acc = []")
    case True
    then show ?thesis using keep snoc len 2(3) by simp
  next
    case False
    then have split: "acc = butlast acc @ [last acc]" by simp
    have nth: "compact N acc ! (length acc - 1) = Some (last acc)"
      using False by (simp add: compact_nth last_conv_nth)
    show ?thesis
    proof (cases "coalesces (last acc) r")
      case True
      have "(compact N acc)[length acc - 1 := Some (extend_end (last acc) r)]
          = compact N (butlast acc @ [extend_end (last acc) r])"
        using compact_update_last [of N "butlast acc" "last acc"] split by simp
      then show ?thesis using 2(1) 2(3) True False nth by simp
    next
      case False
      then show ?thesis using keep snoc len 2(3) nth \<open>acc \<noteq> []\<close> by simp
    qed
  qed
qed

definition start_le :: "LinuxRecordLock \<Rightarrow> LinuxRecordLock \<Rightarrow> bool" where
  "start_le a b =
     (rl_file_id a = rl_file_id b \<and> rl_owner a = rl_owner b
      \<longrightarrow> rg_start (rl_range a) \<le> rg_start (rl_range b))"

lemma record_key_start_le: "record_key a \<le> record_key b \<Longrightarrow> start_le a b"
  by (auto simp: record_key_def start_le_def)

lemma extend_end_fields [simp]:
  "rl_file_id (extend_end p r) = rl_file_id p" "rl_owner (extend_end p r) = rl_owner p"
  "rl_kind (extend_end p r) = rl_kind p" "rg_start (rl_range (extend_end p r)) = rg_start (rl_range p)"
  by (simp_all add: extend_end_def)

lemma extend_end_covers:
  assumes "coalesces p r" "start_le p r" "wf_range (rl_range p)" "wf_range (rl_range r)"
  shows "wf_range (rl_range (extend_end p r))"
    "covers (rl_range (extend_end p r)) b \<longleftrightarrow> covers (rl_range p) b \<or> covers (rl_range r) b"
  using assms
  by (auto simp: coalesces_def start_le_def ranges_touch_or_overlap_def linux_record_lock_ranges_overlap_def
      extend_end_def wf_range_def covers_def max_def split: if_splits)

lemma extend_end_disjoint:
  assumes "coalesces p r" "start_le p r" "wf_range (rl_range p)" "wf_range (rl_range r)"
    "wf_range (rl_range s)" "own_disjoint p s" "own_disjoint r s"
  shows "own_disjoint (extend_end p r) s"
proof -
  have "rl_file_id r = rl_file_id p" "rl_owner r = rl_owner p" using assms(1) by (simp_all add: coalesces_def)
  then show ?thesis
    using assms(5-7) extend_end_covers [OF assms(1-4)] assms(3,4)
    unfolding own_disjoint_def extend_end_fields
    by (metis overlap_iff)
qed

lemma coalesce_meaning:
  "records_ok (acc @ rs) \<Longrightarrow> sorted_wrt start_le (acc @ rs) \<Longrightarrow>
   records_ok (coalesce acc rs) \<and> holds_byte (coalesce acc rs) = holds_byte (acc @ rs)"
proof (induction acc rs rule: coalesce.induct)
  case (1 acc)
  then show ?case by simp
next
  case (2 acc r rs)
  show ?case
  proof (cases "acc \<noteq> [] \<and> coalesces (last acc) r")
    case False
    with 2(2) [OF False] 2(3,4) show ?thesis by auto
  next
    case True
    define us p where "us = butlast acc" and "p = last acc"
    have acc: "acc = us @ [p]" using True by (simp add: us_def p_def)
    have co: "coalesces p r" using True p_def by simp
    have ok: "records_ok us" "records_ok rs" "wf_range (rl_range p)" "wf_range (rl_range r)"
      "\<forall>u\<in>set us. own_disjoint u p \<and> own_disjoint u r" "\<forall>s\<in>set rs. own_disjoint p s \<and> own_disjoint r s"
      "\<forall>u\<in>set us. \<forall>s\<in>set rs. own_disjoint u s"
      using 2(3) by (auto simp: acc records_ok_append)
    have st: "start_le p r" "\<forall>s\<in>set rs. start_le p s" "sorted_wrt start_le us" "sorted_wrt start_le rs"
      "\<forall>u\<in>set us. start_le u p" "\<forall>u\<in>set us. \<forall>s\<in>set rs. start_le u s"
      using 2(4) by (auto simp: acc sorted_wrt_append)
    note cov = extend_end_covers [OF co st(1) ok(3,4)]
    note dis = extend_end_disjoint [OF co st(1) ok(3,4)]
    have "own_disjoint u (extend_end p r)" if "u \<in> set us" for u
      using dis [of u] ok(1,5) that records_ok_wf own_disjoint_sym by blast
    moreover have "own_disjoint (extend_end p r) s" if "s \<in> set rs" for s
      using dis [of s] ok(2,6) that records_ok_wf by blast
    ultimately have ok': "records_ok ((us @ [extend_end p r]) @ rs)"
      using ok cov(1) by (auto simp: records_ok_append)
    have st': "sorted_wrt start_le ((us @ [extend_end p r]) @ rs)"
      using st by (auto simp: sorted_wrt_append start_le_def)
    have "holds_byte ((us @ [extend_end p r]) @ rs) = holds_byte (acc @ r # rs)"
      using co cov(2) by (intro ext) (auto simp: acc coalesces_def)
    moreover have "coalesce acc (r # rs) = coalesce (us @ [extend_end p r]) rs"
      using True by (simp add: us_def p_def)
    ultimately show ?thesis using 2(1) [OF True] ok' st' by (simp add: us_def p_def)
  qed
qed

text \<open>
  Sorting and coalescing keeps the meaning of a table, keeps it well formed, and never
  panics.
\<close>

lemma sort_and_coalesce_meaning:
  assumes "records_ok xs" "length xs \<le> N"
  obtains ys where "sort_and_coalesce \<lparr>records = compact N xs\<rparr> = Inr \<lparr>records = compact N ys\<rparr>"
    "records_ok ys" "holds_byte ys = holds_byte xs" "length ys \<le> length xs"
proof -
  define zs where "zs = flatten (exchange_sort should_swap (compact N xs))"
  have "mset zs = mset (flatten (compact N xs))"
    by (simp only: zs_def mset_flatten record_sort.exchange_sort_sorted(1))
  then have m: "mset zs = mset xs" by simp
  then have len: "length zs = length xs" by (rule mset_eq_length)
  have "sorted_wrt (\<lambda>a b. record_key a \<le> record_key b) zs"
    unfolding zs_def by (rule sorted_wrt_flatten [OF record_sort.exchange_sort_sorted(2)])
  then have "sorted_wrt start_le zs" by (rule sorted_wrt_mono_rel [rotated]) (rule record_key_start_le)
  moreover have "records_ok zs" using records_ok_mset [OF assms(1)] m by simp
  ultimately have "records_ok (coalesce [] zs) \<and> holds_byte (coalesce [] zs) = holds_byte zs"
    using coalesce_meaning [of "[]" zs] by simp
  moreover have "sort_and_coalesce \<lparr>records = compact N xs\<rparr> = Inr \<lparr>records = compact N (coalesce [] zs)\<rparr>"
    using coalesce_into_compact [of "[]" zs N] len assms(2)
    by (simp add: sort_and_coalesce_def zs_def [symmetric] length_compact)
  moreover have "length (coalesce [] zs) \<le> length xs" using length_coalesce [of "[]" zs] len by simp
  ultimately show thesis using that holds_byte_mset [OF m] by simp
qed

subsection \<open>Widening\<close>

lemma touching_hull:
  assumes "ranges_touch_or_overlap a b" "wf_range a" "wf_range b"
    "covers \<lparr>rg_start = min (rg_start b) (rg_start a), rg_end = max (rg_end b) (rg_end a)\<rparr> x"
  shows "covers a x \<or> covers b x"
  using assms
  by (auto simp: covers_def wf_range_def ranges_touch_or_overlap_def linux_record_lock_ranges_overlap_def
      min_def max_def split: if_splits)

definition widened ::
  "u64 \<Rightarrow> usize \<Rightarrow> LinuxRecordLockKind \<Rightarrow> LinuxRecordLock list \<Rightarrow> LinuxRecordLockRange
     \<Rightarrow> LinuxRecordLockRange \<Rightarrow> bool" where
  "widened f ow k rs rng rep =
     (lock_range_within rng rep \<and> wf_range rep
      \<and> (\<forall>b. covers rep b \<longrightarrow> covers rng b \<or> holds_byte rs f ow k b))"

lemma widened_step:
  assumes "widened f ow k rs rng rep" "r \<in> set rs" "wf_range (rl_range r)"
  shows "widened f ow k rs rng (widen_step f ow k r rep)"
proof (cases "rl_file_id r = f \<and> rl_owner r = ow \<and> rl_kind r = k \<and> ranges_touch_or_overlap (rl_range r) rep")
  case True
  let ?h = "widen_step f ow k r rep"
  have h: "?h = \<lparr>rg_start = min (rg_start rep) (rg_start (rl_range r)), rg_end = max (rg_end rep) (rg_end (rl_range r))\<rparr>"
    using True by (simp add: widen_step_def)
  have rep: "wf_range rep" "lock_range_within rng rep" "\<And>b. covers rep b \<Longrightarrow> covers rng b \<or> holds_byte rs f ow k b"
    using assms(1) by (auto simp: widened_def)
  have "lock_range_within rng ?h" using rep(2) widen_step_grows lock_range_within_trans by blast
  moreover have "wf_range ?h" using rep(1) unfolding h wf_range_def by (auto simp: min_def max_def)
  moreover have "covers rng b \<or> holds_byte rs f ow k b" if "covers ?h b" for b
    using touching_hull [of "rl_range r" rep b] that True assms(2,3) rep(1,3) unfolding h holds_byte_iff by blast
  ultimately show ?thesis by (simp add: widened_def)
next
  case False
  then show ?thesis using assms(1) by (auto simp: widen_step_def)
qed

lemma widened_pass:
  assumes "records_ok rs" "set xs \<subseteq> set rs" "widened f ow k rs rng rep"
  shows "widened f ow k rs rng (widen_pass f ow k xs rep)"
  using assms(2,3) unfolding widen_pass_def
proof (induction xs arbitrary: rep)
  case (Cons x xs)
  then show ?case using widened_step records_ok_wf [OF assms(1)] by simp
qed simp

lemma widen_pass_fixed:
  assumes "widen_pass f ow k xs rep = rep" "r \<in> set xs"
  shows "widen_step f ow k r rep = rep"
  using assms
proof (induction xs)
  case (Cons x xs)
  have "lock_range_within (widen_step f ow k x rep) (widen_pass f ow k xs (widen_step f ow k x rep))"
    by (rule widen_pass_grows)
  with Cons.prems(1) have "lock_range_within (widen_step f ow k x rep) rep" by (simp add: widen_pass_def)
  then have x: "widen_step f ow k x rep = rep" using widen_step_grows lock_range_within_antisym by blast
  with Cons.prems(1) have "widen_pass f ow k xs rep = rep" by (simp add: widen_pass_def)
  with Cons x show ?case by auto
qed simp

lemma widen_widened:
  "records_ok rs \<Longrightarrow> widened f ow k rs rng rep \<Longrightarrow> widened f ow k rs rng (widen f ow k rs rep)"
proof (induction f ow k rs rep rule: widen.induct)
  case (1 f ow k rs rep)
  have "widened f ow k rs rng (widen_pass f ow k rs rep)" using 1(2,3) widened_pass [of rs rs] by blast
  then show ?case using 1 by (subst widen.simps) (auto simp: Let_def)
qed

lemma widen_fixed: "widen_pass f ow k rs (widen f ow k rs rep) = widen f ow k rs rep"
proof (induction f ow k rs rep rule: widen.induct)
  case (1 f ow k rs rep)
  show ?case
  proof (cases "widen_pass f ow k rs rep = rep")
    case True
    then show ?thesis by (simp add: widen.simps [of f ow k rs rep])
  next
    case False
    then have "widen f ow k rs rep = widen f ow k rs (widen_pass f ow k rs rep)"
      by (subst widen.simps) (simp add: Let_def)
    then show ?thesis using 1 [OF refl refl False] by simp
  qed
qed

lemma widen_absorbs:
  assumes "r \<in> set rs" "rl_file_id r = f" "rl_owner r = ow" "rl_kind r = k"
    "ranges_touch_or_overlap (rl_range r) (widen f ow k rs rep)"
  shows "lock_range_within (rl_range r) (widen f ow k rs rep)"
proof -
  let ?w = "widen f ow k rs rep"
  have "widen_step f ow k r ?w = ?w" using widen_pass_fixed [OF widen_fixed assms(1)] .
  then have "\<lparr>rg_start = min (rg_start ?w) (rg_start (rl_range r)), rg_end = max (rg_end ?w) (rg_end (rl_range r))\<rparr> = ?w"
    using assms(2-5) by (simp add: widen_step_def)
  then have "min (rg_start ?w) (rg_start (rl_range r)) = rg_start ?w" "max (rg_end ?w) (rg_end (rl_range r)) = rg_end ?w"
    by (metis LinuxRecordLockRange.select_convs(1), metis LinuxRecordLockRange.select_convs(2))
  then show ?thesis by (simp add: lock_range_within_def min.absorb_iff1 [symmetric] max.absorb_iff1 [symmetric])
qed

subsection \<open>Setting and unlocking\<close>

text \<open>Replacing every record by pieces of itself keeps a list of records well formed.\<close>

lemma own_disjoint_sub:
  assumes "own_disjoint r r'" "wf_range (rl_range r)" "wf_range (rl_range r')"
    "wf_range (rl_range s)" "wf_range (rl_range s')"
    "rl_file_id s = rl_file_id r" "rl_owner s = rl_owner r"
    "rl_file_id s' = rl_file_id r'" "rl_owner s' = rl_owner r'"
    "\<And>b. covers (rl_range s) b \<Longrightarrow> covers (rl_range r) b" "\<And>b. covers (rl_range s') b \<Longrightarrow> covers (rl_range r') b"
  shows "own_disjoint s s'"
  using assms(1,6-11) unfolding own_disjoint_def overlap_iff [OF assms(2,3)] overlap_iff [OF assms(4,5)] by metis

definition refines_record :: "(LinuxRecordLock \<Rightarrow> LinuxRecordLock list) \<Rightarrow> LinuxRecordLock \<Rightarrow> bool" where
  "refines_record g r =
     (records_ok (g r)
      \<and> (\<forall>s\<in>set (g r). rl_file_id s = rl_file_id r \<and> rl_owner s = rl_owner r \<and> rl_kind s = rl_kind r
           \<and> (\<forall>b. covers (rl_range s) b \<longrightarrow> covers (rl_range r) b)))"

lemma refines_recordD:
  assumes "refines_record g r" "s \<in> set (g r)"
  shows "wf_range (rl_range s)" "rl_file_id s = rl_file_id r" "rl_owner s = rl_owner r"
    "rl_kind s = rl_kind r" "covers (rl_range s) b \<Longrightarrow> covers (rl_range r) b"
  using assms records_ok_wf by (auto simp: refines_record_def)

lemma records_ok_concat_map:
  assumes "records_ok rs" "\<forall>r\<in>set rs. refines_record g r"
  shows "records_ok (concat (map g rs))"
  using assms
proof (induction rs)
  case (Cons r rs)
  have "own_disjoint s s'" if "s \<in> set (g r)" "r' \<in> set rs" "s' \<in> set (g r')" for s r' s'
  proof (rule own_disjoint_sub [of r r'])
    show "own_disjoint r r'" "wf_range (rl_range r)" "wf_range (rl_range r')"
      using Cons.prems that(2) records_ok_wf by auto
  qed (use Cons.prems(2) that refines_recordD [of g r s] refines_recordD [of g r' s'] in auto)
  then show ?case using Cons by (auto simp: records_ok_append refines_record_def)
qed simp

lemma holds_byte_concat_map:
  assumes "\<forall>r\<in>set rs. refines_record g r"
  shows "holds_byte (concat (map g rs)) f ow k b \<longleftrightarrow>
    (\<exists>r\<in>set rs. rl_file_id r = f \<and> rl_owner r = ow \<and> rl_kind r = k \<and> (\<exists>s\<in>set (g r). covers (rl_range s) b))"
  using assms unfolding holds_byte_iff set_concat set_map by (fastforce simp: refines_record_def)

lemma no_overlap_no_cover:
  "wf_range a \<Longrightarrow> wf_range b \<Longrightarrow> \<not> linux_record_lock_ranges_overlap a b \<Longrightarrow> covers a x \<Longrightarrow> \<not> covers b x"
  by (auto simp: overlap_iff)

lemma split_refines:
  assumes "wf_range (rl_range r)" "wf_range rm" "linux_record_lock_ranges_overlap (rl_range r) rm"
  shows "refines_record (\<lambda>r. left_piece r rm @ right_piece r rm) r"
  unfolding refines_record_def
proof (intro conjI ballI allI impI)
  show "records_ok (left_piece r rm @ right_piece r rm)" by (rule pieces_ok [OF assms(2,3)])
next
  fix s assume s: "s \<in> set (left_piece r rm @ right_piece r rm)"
  show "rl_file_id s = rl_file_id r" "rl_owner s = rl_owner r" "rl_kind s = rl_kind r"
    using piece_fields [OF s] by simp_all
  show "covers (rl_range r) b" if "covers (rl_range s) b" for b
    using pieces_cover [OF assms, of b] s that by blast
qed

lemma set_pieces_refines:
  assumes "wf_range (rl_range r)" "wf_range rep"
  shows "refines_record (set_pieces f ow k rep) r"
  using split_refines [OF assms] assms(1) unfolding refines_record_def set_pieces_def by simp

lemma unlock_pieces_refines:
  assumes "wf_range (rl_range r)" "wf_range rng"
  shows "refines_record (unlock_pieces f ow rng) r"
  using split_refines [OF assms] assms(1) unfolding refines_record_def unlock_pieces_def by simp

lemma set_pieces_cover:
  assumes "wf_range (rl_range r)" "wf_range rep"
  shows "(\<exists>s\<in>set (set_pieces f ow k rep r). covers (rl_range s) b) \<longleftrightarrow>
    covers (rl_range r) b \<and> \<not> (rl_file_id r = f \<and> rl_owner r = ow
      \<and> (covers rep b \<or> rl_kind r = k \<and> ranges_touch_or_overlap (rl_range r) rep))"
proof (cases "linux_record_lock_ranges_overlap (rl_range r) rep")
  case True
  show ?thesis using pieces_cover [OF assms True, of b] by (auto simp: set_pieces_def True)
next
  case False
  show ?thesis using no_overlap_no_cover [OF assms False, of b] by (auto simp: set_pieces_def False)
qed

lemma unlock_pieces_cover:
  assumes "wf_range (rl_range r)" "wf_range rng"
  shows "(\<exists>s\<in>set (unlock_pieces f ow rng r). covers (rl_range s) b) \<longleftrightarrow>
    covers (rl_range r) b \<and> \<not> (rl_file_id r = f \<and> rl_owner r = ow \<and> covers rng b)"
proof (cases "linux_record_lock_ranges_overlap (rl_range r) rng")
  case True
  show ?thesis using pieces_cover [OF assms True, of b] by (auto simp: unlock_pieces_def True)
next
  case False
  show ?thesis using no_overlap_no_cover [OF assms False, of b] by (auto simp: unlock_pieces_def False)
qed

definition set_records ::
  "u64 \<Rightarrow> usize \<Rightarrow> LinuxRecordLockKind \<Rightarrow> LinuxRecordLockRange \<Rightarrow> LinuxRecordLock list
     \<Rightarrow> LinuxRecordLock list" where
  "set_records f ow k rep rs =
     concat (map (set_pieces f ow k rep) rs)
     @ [\<lparr>rl_file_id = f, rl_owner = ow, rl_kind = k, rl_range = rep\<rparr>]"

lemma set_records_meaning:
  fixes f ow k
  assumes ok: "records_ok rs" and wf: "wf_range rng"
  defines "rep \<equiv> widen f ow k rs rng"
  shows "records_ok (set_records f ow k rep rs)"
    and "holds_byte (set_records f ow k rep rs) f' ow' k' b \<longleftrightarrow>
      (if f' = f \<and> ow' = ow \<and> covers rng b then k' = k else holds_byte rs f' ow' k' b)"
proof -
  have "widened f ow k rs rng rng" using wf by (simp add: widened_def)
  then have "widened f ow k rs rng rep" unfolding rep_def by (rule widen_widened [OF ok])
  then have rep: "wf_range rep" "lock_range_within rng rep"
    "\<And>b. covers rep b \<Longrightarrow> covers rng b \<or> holds_byte rs f ow k b" by (auto simp: widened_def)
  have sub: "covers rep x" if "covers rng x" for x
    using that rep(2) by (auto simp: covers_def lock_range_within_def)
  let ?g = "set_pieces f ow k rep"
  have ref: "\<forall>r\<in>set rs. refines_record ?g r"
    using set_pieces_refines rep(1) records_ok_wf [OF ok] by blast
  have cov: "(\<exists>s\<in>set (?g r). covers (rl_range s) x) \<longleftrightarrow>
      covers (rl_range r) x \<and> \<not> (rl_file_id r = f \<and> rl_owner r = ow
        \<and> (covers rep x \<or> rl_kind r = k \<and> ranges_touch_or_overlap (rl_range r) rep))"
    if "r \<in> set rs" for r x
    using set_pieces_cover rep(1) records_ok_wf [OF ok that] by blast
  have apart: "\<not> linux_record_lock_ranges_overlap (rl_range s) rep"
    if "r \<in> set rs" "s \<in> set (?g r)" "rl_file_id s = f" "rl_owner s = ow" for r s
  proof -
    have "rl_file_id r = f" "rl_owner r = ow" "wf_range (rl_range s)"
      using refines_recordD [of ?g r s] ref that by auto
    then show ?thesis using cov [OF that(1)] that(2) rep(1) by (auto simp: overlap_iff)
  qed
  have "own_disjoint s \<lparr>rl_file_id = f, rl_owner = ow, rl_kind = k, rl_range = rep\<rparr>"
    if "s \<in> set (concat (map ?g rs))" for s
    using apart that by (auto simp: own_disjoint_def)
  then show "records_ok (set_records f ow k rep rs)"
    using records_ok_concat_map [OF ok ref] rep(1) by (simp add: set_records_def records_ok_append)
  have absorb: "covers rep b" if "r \<in> set rs" "rl_file_id r = f" "rl_owner r = ow" "rl_kind r = k"
    "ranges_touch_or_overlap (rl_range r) rep" "covers (rl_range r) b" for r
    using widen_absorbs [OF that(1-4), of rng] that(5,6) by (auto simp: rep_def [symmetric] lock_range_within_def covers_def)
  have new: "holds_byte (set_records f ow k rep rs) f' ow' k' b \<longleftrightarrow>
      (\<exists>r\<in>set rs. rl_file_id r = f' \<and> rl_owner r = ow' \<and> rl_kind r = k' \<and> covers (rl_range r) b
         \<and> \<not> (rl_file_id r = f \<and> rl_owner r = ow
              \<and> (covers rep b \<or> rl_kind r = k \<and> ranges_touch_or_overlap (rl_range r) rep)))
      \<or> f' = f \<and> ow' = ow \<and> k' = k \<and> covers rep b"
    using holds_byte_concat_map [OF ref, of f' ow' k' b] cov by (auto simp: set_records_def)
  show "holds_byte (set_records f ow k rep rs) f' ow' k' b \<longleftrightarrow>
      (if f' = f \<and> ow' = ow \<and> covers rng b then k' = k else holds_byte rs f' ow' k' b)"
  proof (cases "f' = f \<and> ow' = ow")
    case False
    then show ?thesis unfolding new holds_byte_iff [of rs] by auto
  next
    case True
    show ?thesis
    proof (cases "covers rep b")
      case False
      then show ?thesis unfolding new holds_byte_iff [of rs] using True absorb sub by auto
    next
      case rep_b: True
      then have "holds_byte (set_records f ow k rep rs) f' ow' k' b \<longleftrightarrow> k' = k"
        unfolding new using True by auto
      moreover have "holds_byte rs f ow k' b \<longleftrightarrow> k' = k" if "\<not> covers rng b"
        using rep(3) [OF rep_b] that holds_byte_unique [OF ok, of f ow k' b k] by blast
      ultimately show ?thesis using True by simp
    qed
  qed
qed

text \<open>At most one record is split in two, so a new lock takes at most two more slots.\<close>

lemma length_set_pieces:
  assumes "wf_range rep"
  shows "length (set_pieces f ow k rep r) \<le> (if rl_file_id r = f \<and> rl_owner r = ow
     \<and> covers (rl_range r) (rg_start rep) then 2 else 1)"
  using assms
  by (auto simp: set_pieces_def left_piece_def right_piece_def covers_def wf_range_def
      linux_record_lock_ranges_overlap_def)

lemma length_pieces_sum:
  assumes "records_ok rs"
    and "\<And>r. length (g r) \<le> (if rl_file_id r = f \<and> rl_owner r = ow \<and> covers (rl_range r) x then 2 else 1)"
  shows "length (concat (map g rs)) \<le> Suc (length rs)"
proof -
  let ?c = "\<lambda>r. rl_file_id r = f \<and> rl_owner r = ow \<and> covers (rl_range r) x"
  have none: "length (concat (map g rs)) \<le> length rs" if "\<forall>r\<in>set rs. \<not> ?c r" for rs
    using that
  proof (induction rs)
    case (Cons r rs)
    then show ?case using assms(2) [of r] by auto
  qed simp
  show ?thesis using assms(1)
  proof (induction rs)
    case (Cons r rs)
    show ?case
    proof (cases "?c r")
      case True
      have "\<not> ?c s" if "s \<in> set rs" for s
      proof
        assume c: "?c s"
        have "own_disjoint r s" "wf_range (rl_range r)" "wf_range (rl_range s)"
          using Cons.prems that records_ok_wf [of rs s] by simp_all
        then show False using True c by (auto simp: own_disjoint_def overlap_iff)
      qed
      then show ?thesis using none [of rs] assms(2) [of r] True by simp
    next
      case False
      then show ?thesis using Cons assms(2) [of r] by auto
    qed
  qed simp
qed

lemma length_set_records:
  "records_ok rs \<Longrightarrow> wf_range rep \<Longrightarrow> length (set_records f ow k rep rs) \<le> length rs + 2"
  using length_pieces_sum [where g = "set_pieces f ow k rep", OF _ length_set_pieces]
  by (simp add: set_records_def)

lemma length_unlock_pieces:
  assumes "wf_range rng"
  shows "length (unlock_pieces f ow rng r) \<le> (if rl_file_id r = f \<and> rl_owner r = ow
     \<and> covers (rl_range r) (rg_start rng) then 2 else 1)"
  using assms
  by (auto simp: unlock_pieces_def left_piece_def right_piece_def covers_def wf_range_def
      linux_record_lock_ranges_overlap_def)

lemma lock_table_new_compact: "lock_table_new N = \<lparr>records = compact N []\<rparr>"
  by (simp add: lock_table_new_def)

lemma set_candidate_set_records:
  "and_then (set_candidate f ow k rep rs (lock_table_new N))
     (\<lambda>c. and_then (table_push c \<lparr>rl_file_id = f, rl_owner = ow, rl_kind = k, rl_range = rep\<rparr>) sort_and_coalesce)
   = (if length (set_records f ow k rep rs) \<le> N
      then sort_and_coalesce \<lparr>records = compact N (set_records f ow k rep rs)\<rparr>
      else Inl (Err LockCapacity))"
  unfolding lock_table_new_compact
  by (subst set_candidate_compact) (simp_all add: extend_table_def table_push_compact set_records_def)

text \<open>
  Every outcome of \<open>set\<close>: it fails for lack of slots and changes nothing, or it installs a
  table whose meaning is the old one with the range given to the owner.
\<close>

lemma table_set_cases:
  assumes "lock_table_ok t" "wf_range rng"
  obtains
    (full) "table_set t f ow k rng = (t, Inl (Err LockCapacity))"
      "length (records t) < length (flatten (records t)) + 2"
  | (installed) ys where "table_set t f ow k rng = (\<lparr>records = compact (length (records t)) ys\<rparr>, Inr ())"
      "records_ok ys" "length ys \<le> length (records t)"
      "\<And>f' ow' k' b. holds_byte ys f' ow' k' b \<longleftrightarrow>
        (if f' = f \<and> ow' = ow \<and> covers rng b then k' = k
         else holds_byte (flatten (records t)) f' ow' k' b)"
proof -
  let ?rs = "flatten (records t)" and ?N = "length (records t)"
  let ?rep = "widen f ow k ?rs rng"
  let ?new = "set_records f ow k ?rep ?rs"
  have ok: "records_ok ?rs" using assms(1) by (simp add: lock_table_ok_def)
  have wf: "wf_range ?rep"
    using widen_widened [OF ok, of f ow k rng rng] assms(2) by (simp add: widened_def)
  have eq: "table_set t f ow k rng = table_commit t
      (if length ?new \<le> ?N then sort_and_coalesce \<lparr>records = compact ?N ?new\<rparr> else Inl (Err LockCapacity))"
    by (simp add: table_set_def set_candidate_set_records Let_def)
  show thesis
  proof (cases "length ?new \<le> ?N")
    case True
    note m = set_records_meaning [OF ok assms(2), of f ow k]
    obtain ys where ys: "sort_and_coalesce \<lparr>records = compact ?N ?new\<rparr> = Inr \<lparr>records = compact ?N ys\<rparr>"
      "records_ok ys" "holds_byte ys = holds_byte ?new" "length ys \<le> length ?new"
      using sort_and_coalesce_meaning [OF m(1) True] by blast
    show thesis using installed [of ys] eq ys m(2) True by (simp add: table_commit_def)
  next
    case False
    then show thesis using full eq length_set_records [OF ok wf, of f ow k] by (simp add: table_commit_def)
  qed
qed

lemma table_unlock_cases:
  assumes "lock_table_ok t" "wf_range rng"
  obtains
    (full) "table_unlock t f ow rng = (t, Inl (Err LockCapacity))"
      "length (records t) \<le> length (flatten (records t))"
  | (installed) ys where "table_unlock t f ow rng = (\<lparr>records = compact (length (records t)) ys\<rparr>, Inr ())"
      "records_ok ys" "length ys \<le> length (records t)"
      "\<And>f' ow' k' b. holds_byte ys f' ow' k' b \<longleftrightarrow>
        holds_byte (flatten (records t)) f' ow' k' b \<and> \<not> (f' = f \<and> ow' = ow \<and> covers rng b)"
proof -
  let ?rs = "flatten (records t)" and ?N = "length (records t)"
  let ?new = "concat (map (unlock_pieces f ow rng) ?rs)"
  have ok: "records_ok ?rs" using assms(1) by (simp add: lock_table_ok_def)
  have ref: "\<forall>r\<in>set ?rs. refines_record (unlock_pieces f ow rng) r"
    using unlock_pieces_refines assms(2) records_ok_wf [OF ok] by blast
  have new: "records_ok ?new" by (rule records_ok_concat_map [OF ok ref])
  have eq: "table_unlock t f ow rng = table_commit t
      (if length ?new \<le> ?N then sort_and_coalesce \<lparr>records = compact ?N ?new\<rparr> else Inl (Err LockCapacity))"
    unfolding table_unlock_def lock_table_new_compact
    by (subst unlock_candidate_compact) (simp_all add: extend_table_def)
  show thesis
  proof (cases "length ?new \<le> ?N")
    case True
    obtain ys where ys: "sort_and_coalesce \<lparr>records = compact ?N ?new\<rparr> = Inr \<lparr>records = compact ?N ys\<rparr>"
      "records_ok ys" "holds_byte ys = holds_byte ?new" "length ys \<le> length ?new"
      using sort_and_coalesce_meaning [OF new True] by blast
    have "holds_byte ?new f' ow' k' b \<longleftrightarrow> holds_byte ?rs f' ow' k' b \<and> \<not> (f' = f \<and> ow' = ow \<and> covers rng b)"
      for f' ow' k' b
      using holds_byte_concat_map [OF ref, of f' ow' k' b] unlock_pieces_cover [OF records_ok_wf [OF ok] assms(2)]
      by (auto simp: holds_byte_iff [of ?rs])
    then show thesis using installed [of ys] eq ys True by (simp add: table_commit_def)
  next
    case False
    have "length ?new \<le> Suc (length ?rs)"
      by (rule length_pieces_sum [OF ok length_unlock_pieces [OF assms(2)]])
    with False show thesis using full eq by (simp add: table_commit_def)
  qed
qed

lemma retain_into_compact:
  "length xs + length rs \<le> N \<Longrightarrow>
   retain_into keep rs (compact N xs) (length xs) = compact N (xs @ filter keep rs)"
proof (induction rs arbitrary: xs)
  case (Cons r rs)
  show ?case
  proof (cases "keep r")
    case True
    have "retain_into keep rs (compact N (xs @ [r])) (length (xs @ [r])) = compact N ((xs @ [r]) @ filter keep rs)"
      using Cons.prems by (intro Cons.IH) simp
    then show ?thesis using True Cons.prems compact_snoc [of xs N r] by simp
  next
    case False
    then show ?thesis using Cons.IH [of xs] Cons.prems by simp
  qed
qed simp

lemma table_retain_records:
  "table_retain keep t = \<lparr>records = compact (length (records t)) (filter keep (flatten (records t)))\<rparr>"
  using retain_into_compact [of "[]" "flatten (records t)" "length (records t)" keep] length_flatten_le [of "records t"]
  by (simp add: table_retain_def)

lemma table_retain_ok: "lock_table_ok t \<Longrightarrow> lock_table_ok (table_retain keep t)"
  by (simp add: table_retain_records lock_table_ok_def records_ok_filter)

lemma first_conflict_None_iff:
  assumes "lock_table_ok t" "wf_range rng"
  shows "first_conflict t f ow k rng = None \<longleftrightarrow>
    (\<forall>ow' k' b. holds_byte (flatten (records t)) f ow' k' b \<and> ow' \<noteq> ow \<and> covers rng b \<longrightarrow> k' = Read \<and> k = Read)"
proof -
  have wf: "wf_range (rl_range r)" if "r \<in> set (flatten (records t))" for r
    using assms(1) that records_ok_wf by (auto simp: lock_table_ok_def)
  have not_write: "j \<noteq> Write \<longleftrightarrow> j = Read" for j by (cases j) simp_all
  have "first_conflict t f ow k rng = None \<longleftrightarrow>
      (\<forall>r\<in>set (flatten (records t)). \<not> lock_conflicts f ow k rng r)"
    by (auto simp: first_conflict_def find_None_iff)
  also have "\<dots> \<longleftrightarrow> (\<forall>r\<in>set (flatten (records t)). rl_file_id r = f \<and> rl_owner r \<noteq> ow
      \<and> (\<exists>b. covers (rl_range r) b \<and> covers rng b) \<longrightarrow> rl_kind r \<noteq> Write \<and> k \<noteq> Write)"
    using wf assms(2) by (auto simp: lock_conflicts_def linux_record_lock_types_conflict_def overlap_iff)
  also have "\<dots> \<longleftrightarrow> (\<forall>ow' k' b. holds_byte (flatten (records t)) f ow' k' b \<and> ow' \<noteq> ow \<and> covers rng b
      \<longrightarrow> k' = Read \<and> k = Read)"
    unfolding holds_byte_iff not_write by blast
  finally show ?thesis .
qed

text \<open>Two owners share a byte of a file only under read locks.\<close>

definition locks_exclusive :: "LinuxRecordLockTable \<Rightarrow> bool" where
  "locks_exclusive t =
     (\<forall>f ow ow' k k' b. ow \<noteq> ow' \<and> holds_byte (flatten (records t)) f ow k b
        \<and> holds_byte (flatten (records t)) f ow' k' b \<longrightarrow> k = Read \<and> k' = Read)"

lemma table_set_exclusive:
  assumes "lock_table_ok t" "wf_range rng" "locks_exclusive t" "first_conflict t f ow k rng = None"
    "table_set t f ow k rng = (t', r)"
  shows "lock_table_ok t' \<and> locks_exclusive t' \<and> r \<noteq> Inl Panic"
  using assms(1,2)
proof (cases rule: table_set_cases [where f = f and ow = ow and k = k])
  case full
  with assms show ?thesis by auto
next
  case (installed ys)
  with assms(5) have t': "flatten (records t') = ys" "r = Inr ()" by auto
  have c: "k' = Read \<and> k = Read" if "holds_byte (flatten (records t)) f ow' k' b" "ow' \<noteq> ow" "covers rng b" for ow' k' b
    using first_conflict_None_iff [OF assms(1,2)] assms(4) that by blast
  have "locks_exclusive t'"
    unfolding locks_exclusive_def t'
  proof (intro allI impI, elim conjE)
    fix f1 ow1 ow2 k1 k2 b
    assume ne: "ow1 \<noteq> ow2" and h: "holds_byte ys f1 ow1 k1 b" "holds_byte ys f1 ow2 k2 b"
    let ?old = "holds_byte (flatten (records t)) f1"
    consider "f1 = f" "ow1 = ow" "covers rng b" | "f1 = f" "ow2 = ow" "covers rng b"
      | "\<not> (f1 = f \<and> ow1 = ow \<and> covers rng b)" "\<not> (f1 = f \<and> ow2 = ow \<and> covers rng b)" by blast
    then show "k1 = Read \<and> k2 = Read"
    proof cases
      case 1
      then have "k1 = k" "?old ow2 k2 b" using h ne unfolding installed(4) by simp_all
      then show ?thesis using c [of ow2 k2 b] 1 ne by simp
    next
      case 2
      then have "k2 = k" "?old ow1 k1 b" using h ne unfolding installed(4) by simp_all
      then show ?thesis using c [of ow1 k1 b] 2 ne by simp
    next
      case 3
      then have "?old ow1 k1 b" "?old ow2 k2 b" using h unfolding installed(4) by (simp_all split: if_splits)
      then show ?thesis using assms(3) ne unfolding locks_exclusive_def by blast
    qed
  qed
  with t' installed(2) show ?thesis by (simp add: lock_table_ok_def)
qed

lemma table_unlock_exclusive:
  assumes "lock_table_ok t" "wf_range rng" "locks_exclusive t" "table_unlock t f ow rng = (t', r)"
  shows "lock_table_ok t' \<and> locks_exclusive t' \<and> r \<noteq> Inl Panic"
  using assms(1,2)
proof (cases rule: table_unlock_cases [where f = f and ow = ow])
  case full
  with assms show ?thesis by auto
next
  case (installed ys)
  with assms(4) have t': "flatten (records t') = ys" "r = Inr ()" by auto
  have "locks_exclusive t'"
    unfolding locks_exclusive_def t' installed(4)
    using assms(3) unfolding locks_exclusive_def by blast
  with t' installed(2) show ?thesis by (simp add: lock_table_ok_def)
qed

lemma holds_byte_filter: "holds_byte (filter p rs) f ow k b \<Longrightarrow> holds_byte rs f ow k b"
  by (auto simp: holds_byte_iff)

lemma table_retain_exclusive: "locks_exclusive t \<Longrightarrow> locks_exclusive (table_retain keep t)"
  unfolding locks_exclusive_def table_retain_records LinuxRecordLockTable.simps flatten_compact
  using holds_byte_filter by blast

subsection \<open>Waking\<close>

lemma select_ready_scan:
  "map_option fst (select_ready t i ws sel) = scan_oldest lw_sequence (lock_ready t) i ws (map_option fst sel)
     (case sel of None \<Rightarrow> q | Some (_, q) \<Rightarrow> q)"
proof (induction ws arbitrary: i sel)
  case (Cons a ws)
  show ?case
  proof (cases a)
    case None
    then show ?thesis using Cons.IH by simp
  next
    case (Some w)
    then show ?thesis
      using Cons.IH [of "Suc i" sel] Cons.IH [of "Suc i" "Some (i, lw_sequence w)"]
      by (cases sel) auto
  qed
qed simp

interpretation lock_wake: oldest_drain lw_sequence "lock_ready t" "oldest_ready t" lock_woken lw_identity for t
proof
  fix ws
  show "is_oldest lw_sequence (lock_ready t) ws (oldest_ready t ws)"
    using scan_oldest_correct [of lw_sequence "lock_ready t" "[]" None _ ws] select_ready_scan [of t 0 ws None]
    by (simp add: oldest_ready_def)
qed (simp_all add: lock_ready_def lock_woken_def)

lemma wake_loop_serve:
  "distinct (map lw_sequence (flatten ws)) \<Longrightarrow>
   length (by_age lw_sequence (lock_ready t) ws) + served \<le> length identities \<Longrightarrow>
   wake_loop t ws identities served
     = serve_loop (oldest_ready t) lock_woken lw_identity (length identities) served ws identities"
proof (induction t ws identities served rule: wake_loop.induct)
  case (1 t ws identities served)
  show ?case
  proof (cases "oldest_ready t ws")
    case None
    then show ?thesis by (simp add: wake_loop.simps serve_loop.simps)
  next
    case (Some i)
    then obtain v where v: "i < length ws" "ws ! i = Some v" "lock_ready t v"
      "\<forall>w\<in>set (flatten ws). lock_ready t w \<longrightarrow> lw_sequence v \<le> lw_sequence w"
      by (rule lock_wake.oldest_SomeD)
    have age: "by_age lw_sequence (lock_ready t) ws
        = v # by_age lw_sequence (lock_ready t) (ws[i := Some (lock_woken v)])"
      using by_age_serve [where p = "lock_ready t", OF 1(2) v] lock_wake.mark_done by blast
    then have lt: "served < length identities" using 1(3) by simp
    have d: "distinct (map lw_sequence (flatten (ws[i := Some (lock_woken v)])))"
      using 1(2) map_flatten_replace [where f = lw_sequence, OF v(1,2) lock_wake.mark_seqn] by simp
    show ?thesis
      using 1(1) [OF Some v(2) lt d] age 1(3) Some v(2) lt
      by (subst wake_loop.simps, subst serve_loop.simps) simp
  qed
qed

definition waiters_ok :: "LinuxRecordLockState \<Rightarrow> bool" where
  "waiters_ok s =
     (distinct (map lw_sequence (flatten (waiters s)))
      \<and> list_all (\<lambda>w. lw_sequence w < next_sequence s) (flatten (waiters s)))"

lemma wake_ready_result:
  assumes "waiters_ok s"
  shows "wake_ready s = Some
    (s\<lparr>waiters := map (map_option (\<lambda>w. if lock_ready (locks s) w then lock_woken w else w)) (waiters s)\<rparr>,
     compact (length (waiters s)) (map lw_identity (by_age lw_sequence (lock_ready (locks s)) (waiters s))))"
proof -
  let ?ws = "waiters s" and ?age = "by_age lw_sequence (lock_ready (locks s)) (waiters s)"
  have d: "distinct (map lw_sequence (flatten ?ws))" using assms by (simp add: waiters_ok_def)
  have le: "length ?age \<le> length ?ws" by (rule length_by_age)
  have "wake_loop (locks s) ?ws (replicate (length ?ws) None) 0
      = serve_loop (oldest_ready (locks s)) lock_woken lw_identity (length ?ws) 0 ?ws (replicate (length ?ws) None)"
    using wake_loop_serve [OF d, of "locks s" 0 "replicate (length ?ws) None"] le by simp
  also note lock_wake.serve_all [OF d le order_refl]
  finally show ?thesis by (simp add: wake_ready_def compact_def)
qed

subsection \<open>Normalisation of a request\<close>

text \<open>The same computation over the integers, with the bounds of the signed offsets written out.\<close>

definition posix_range_from :: "int \<Rightarrow> int \<Rightarrow> int \<Rightarrow> LinuxRecordLockRangeError + int \<times> int" where
  "posix_range_from base l_start l_len =
     (let anchor = base + l_start; endpoint = anchor + l_len
      in if 2 ^ 63 \<le> base \<or> 2 ^ 63 \<le> anchor then Inl RangeOverflow
         else if anchor < 0 then Inl RangeInvalid
         else if l_len = 0 then Inr (anchor, 2 ^ 64 - 1)
         else if 2 ^ 63 \<le> endpoint then Inl RangeOverflow
         else if endpoint < 0 then Inl RangeInvalid
         else Inr (min anchor endpoint, max anchor endpoint))"

definition posix_lock_range ::
  "int \<Rightarrow> int \<Rightarrow> int \<Rightarrow> int \<Rightarrow> int \<Rightarrow> LinuxRecordLockRangeError + int \<times> int" where
  "posix_lock_range whence l_start l_len cursor file_size =
     (if whence = 0 then posix_range_from 0 l_start l_len
      else if whence = 1 then posix_range_from cursor l_start l_len
      else if whence = 2 then posix_range_from file_size l_start l_len
      else Inl RangeInvalid)"

definition word_range :: "int \<times> int \<Rightarrow> LinuxRecordLockRange" where
  "word_range r = \<lparr>rg_start = word_of_int (fst r), rg_end = word_of_int (snd r)\<rparr>"

lemma checked_add_signed_cases:
  fixes a b :: i64
  shows "checked_add_signed a b =
    (if - (2 ^ 63) \<le> sint a + sint b \<and> sint a + sint b < 2 ^ 63 then Some (word_of_int (sint a + sint b)) else None)"
  by (simp add: checked_add_signed_def wi_hom_add [symmetric])

lemma sint_i64_bounds: "- (2 ^ 63) \<le> sint w" "sint w < 2 ^ 63" for w :: i64
  using sint_ge [of w] sint_lt [of w] by simp_all

lemma sint_i64_of_int: "- (2 ^ 63) \<le> x \<Longrightarrow> x < 2 ^ 63 \<Longrightarrow> sint (word_of_int x :: i64) = x"
  by (simp add: signed_of_int signed_take_bit_int_eq_self)

lemma i64_try_from_cases:
  "i64_try_from w = (if uint w < 2 ^ 63 then Some (word_of_int (uint w)) else None)"
proof -
  have "unat w < 2 ^ 63 \<longleftrightarrow> int (unat w) < int (2 ^ 63)" by (rule of_nat_less_iff [symmetric])
  also have "\<dots> \<longleftrightarrow> uint w < 2 ^ 63" by simp
  finally show ?thesis by (simp add: i64_try_from_def)
qed

lemma word_of_int_less_i64:
  "0 \<le> x \<Longrightarrow> x < 2 ^ 63 \<Longrightarrow> 0 \<le> y \<Longrightarrow> y < 2 ^ 63 \<Longrightarrow> (word_of_int x :: u64) < word_of_int y \<longleftrightarrow> x < y"
  by (simp add: word_less_def uint_word_of_int)

lemma finite_range_of_int:
  assumes "0 \<le> x" "x < y" "y < 2 ^ 63"
  shows "finite_range (word_of_int x) (word_of_int y) = Some \<lparr>rg_start = word_of_int x, rg_end = word_of_int y\<rparr>"
proof -
  have u: "uint (word_of_int y :: u64) = y" using assms by (simp add: uint_word_of_int)
  have "(word_of_int y :: u64) \<noteq> - 1"
  proof
    assume "(word_of_int y :: u64) = - 1"
    with u have "y = uint (- 1 :: u64)" by simp
    also have "\<dots> = 2 ^ 64 - 1" by (simp add: unsigned_minus_1_eq_mask mask_eq_exp_minus_1)
    finally show False using assms(3) by simp
  qed
  then show ?thesis using assms word_of_int_less_i64 [of x y]
    by (simp add: finite_range_def LINUX_RECORD_LOCK_END_OF_FILE_def)
qed

lemma whence_cases:
  "(sint w = 0) = (w = 0)" "(sint w = 1) = (w = 1)" "(sint w = 2) = (w = 2)" for w :: i16
  using signed_word_eqI [of w 0] signed_word_eqI [of w 1] signed_word_eqI [of w 2] by auto

lemma normalize_from_base:
  assumes b: "0 \<le> base" "base < 2 ^ 63"
  shows "record_lock_range_from (word_of_int base) l_start l_len
    = map_sum id word_range (posix_range_from base (sint l_start) (sint l_len))"
proof -
  define anchor where "anchor = base + sint l_start"
  have lo: "- (2 ^ 63) \<le> anchor" using b(1) sint_i64_bounds(1) [of l_start] by (simp add: anchor_def)
  have base: "sint (word_of_int base :: i64) = base" using b by (intro sint_i64_of_int) simp_all
  have a: "checked_add_signed (word_of_int base) l_start = (if anchor < 2 ^ 63 then Some (word_of_int anchor) else None)"
    unfolding checked_add_signed_cases base using lo by (simp add: anchor_def)
  have len: "l_len = 0 \<longleftrightarrow> sint l_len = 0" using signed_word_eqI [of l_len 0] by auto
  have eof: "(word_of_int (2 ^ 64 - 1) :: u64) = - 1" by (simp add: wi_hom_sub [symmetric])
  show ?thesis
  proof (cases "anchor < 2 ^ 63 \<and> 0 \<le> anchor \<and> sint l_len \<noteq> 0")
    case False
    then show ?thesis
      unfolding record_lock_range_from_def posix_range_from_def a len using lo b
      by (auto simp: anchor_def [symmetric] sint_i64_of_int Let_def to_eof_def word_range_def eof
          LINUX_RECORD_LOCK_END_OF_FILE_def)
  next
    case True
    define endpoint where "endpoint = anchor + sint l_len"
    have an: "sint (word_of_int anchor :: i64) = anchor" using True by (intro sint_i64_of_int) simp_all
    have elo: "- (2 ^ 63) \<le> endpoint" using True sint_i64_bounds(1) [of l_len] by (simp add: endpoint_def)
    have e: "checked_add_signed (word_of_int anchor) l_len
        = (if endpoint < 2 ^ 63 then Some (word_of_int endpoint) else None)"
      unfolding checked_add_signed_cases an using elo by (simp add: endpoint_def)
    have se: "sint (word_of_int endpoint :: i64) = endpoint" if "endpoint < 2 ^ 63"
      using that elo by (intro sint_i64_of_int) simp_all
    have up: "0 < sint l_len \<longleftrightarrow> anchor < endpoint" and ne: "anchor \<noteq> endpoint"
      using True by (auto simp: endpoint_def)
    have f: "finite_range (word_of_int (min anchor endpoint)) (word_of_int (max anchor endpoint))
        = Some \<lparr>rg_start = word_of_int (min anchor endpoint), rg_end = word_of_int (max anchor endpoint)\<rparr>"
      if "endpoint < 2 ^ 63" "0 \<le> endpoint"
      using that True ne by (intro finite_range_of_int) auto
    show ?thesis
      unfolding record_lock_range_from_def posix_range_from_def a
      using True len e se an f up ne b
      by (auto simp: anchor_def [symmetric] endpoint_def [symmetric] Let_def word_range_def min_def max_def)
  qed
qed

lemma record_lock_base_cases:
  "record_lock_base whence cursor file_size =
     (if sint whence = 0 then Inr (word_of_int 0)
      else if sint whence = 1 then (if uint cursor < 2 ^ 63 then Inr (word_of_int (uint cursor)) else Inl RangeOverflow)
      else if sint whence = 2 then (if uint file_size < 2 ^ 63 then Inr (word_of_int (uint file_size)) else Inl RangeOverflow)
      else Inl RangeInvalid)"
  by (simp add: record_lock_base_def whence_cases i64_try_from_cases)

lemma posix_range_from_large: "2 ^ 63 \<le> base \<Longrightarrow> posix_range_from base l_start l_len = Inl RangeOverflow"
  by (simp add: posix_range_from_def Let_def)

lemma normalize_posix:
  "normalize_linux_record_lock_range whence l_start l_len cursor file_size =
     map_sum id word_range
       (posix_lock_range (sint whence) (sint l_start) (sint l_len) (uint cursor) (uint file_size))"
  using normalize_from_base [of 0 l_start l_len] normalize_from_base [of "uint cursor" l_start l_len]
    normalize_from_base [of "uint file_size" l_start l_len]
  unfolding normalize_linux_record_lock_range_def posix_lock_range_def record_lock_base_cases
  by (simp add: posix_range_from_large)

lemma normalize_wf: "normalize_linux_record_lock_range whence l_start l_len cursor file_size = Inr rng \<Longrightarrow> wf_range rng"
proof -
  assume a: "normalize_linux_record_lock_range whence l_start l_len cursor file_size = Inr rng"
  let ?p = "posix_lock_range (sint whence) (sint l_start) (sint l_len) (uint cursor) (uint file_size)"
  from a obtain x y where p: "?p = Inr (x, y)" and r: "rng = word_range (x, y)"
    unfolding normalize_posix by (cases ?p) auto
  then have xy: "0 \<le> x" "x < y" "y < 2 ^ 64"
    by (auto simp: posix_lock_range_def posix_range_from_def Let_def split: if_splits)
  then have "uint (word_of_int x :: u64) = x" "uint (word_of_int y :: u64) = y"
    by (simp_all add: uint_word_of_int)
  then show ?thesis using xy r by (simp add: wf_range_def word_less_def word_range_def)
qed

subsection \<open>The invariant of the runtime\<close>

text \<open>
  The table is well formed and exclusive, sequence numbers are unique, and no request that
  could be granted is left waiting.
\<close>

definition lock_state_pre :: "LinuxRecordLockState \<Rightarrow> bool" where
  "lock_state_pre s = (lock_table_ok (locks s) \<and> locks_exclusive (locks s) \<and> waiters_ok s)"

definition lock_state_ok :: "LinuxRecordLockState \<Rightarrow> bool" where
  "lock_state_ok s =
     (lock_state_pre s \<and> list_all (\<lambda>w. \<not> lock_ready (locks s) w) (flatten (waiters s)))"

lemma lock_state_new_ok: "lock_state_ok (lock_state_new L W)"
  by (simp add: lock_state_ok_def lock_state_pre_def lock_state_new_def lock_table_new_def lock_table_ok_def
      locks_exclusive_def waiters_ok_def)

lemma lock_state_reset_ok: "lock_state_ok (lock_state_reset s)"
  by (simp add: lock_state_ok_def lock_state_pre_def lock_state_reset_def table_reset_def lock_table_ok_def
      locks_exclusive_def waiters_ok_def)

lemma lock_state_ok_clear: "lock_state_ok s \<Longrightarrow> lock_state_ok (s\<lparr>waiters := (waiters s)[i := None]\<rparr>)"
  using flatten_clear_subset [of "waiters s" i]
  by (auto simp: lock_state_ok_def lock_state_pre_def waiters_ok_def list_all_iff distinct_flatten_clear)

lemma lock_remove_task_ok: "lock_state_ok s \<Longrightarrow> lock_state_ok (fst (lock_remove_task s tid th))"
  by (auto simp: lock_state_ok_def lock_state_pre_def waiters_ok_def lock_remove_task_def flatten_remove list_all_iff
      distinct_map_filter)

lemma lock_take_outcome_ok: "lock_state_ok s \<Longrightarrow> lock_state_ok (fst (lock_take_outcome s tid th))"
  by (auto simp: lock_take_outcome_def lock_state_ok_clear split: option.splits)

lemma lock_take_outcome_not_waiting: "snd (lock_take_outcome s tid th) \<noteq> Some LockWaiting"
proof (cases "position (slot_is (\<lambda>w. lw_is tid th w \<and> lw_outcome w \<noteq> LockWaiting)) (waiters s)")
  case (Some i)
  then show ?thesis by (rule position_slot_is) (simp add: lock_take_outcome_def Some)
qed (simp add: lock_take_outcome_def)

lemma lock_state_ok_replace:
  assumes "lock_state_ok s" "i < length (waiters s)" "waiters s ! i = Some w"
    "lw_sequence v = lw_sequence w" "lw_outcome v \<noteq> LockWaiting"
  shows "lock_state_ok (s\<lparr>waiters := (waiters s)[i := Some v]\<rparr>)"
proof -
  have d: "map lw_sequence (flatten ((waiters s)[i := Some v])) = map lw_sequence (flatten (waiters s))"
    using map_flatten_replace [where f = lw_sequence, OF assms(2,3,4)] .
  have "w \<in> set (flatten (waiters s))" using assms(2,3) by (auto simp: in_flatten_nth)
  then show ?thesis
    using assms(1,4,5) d flatten_replace_cases [OF assms(2), of _ v]
    unfolding lock_state_ok_def lock_state_pre_def waiters_ok_def list_all_iff lock_ready_def
    by (simp, metis)
qed

lemma lock_interrupt_ok: "lock_state_ok s \<Longrightarrow> lock_state_ok (fst (lock_interrupt s tid th))"
proof (cases "position (slot_is (lw_is tid th)) (waiters s)")
  case (Some i)
  assume ok: "lock_state_ok s"
  from Some obtain w where "i < length (waiters s)" "waiters s ! i = Some w" by (rule position_slot_is)
  then show ?thesis using lock_state_ok_replace [OF ok, of i w] ok by (simp add: lock_interrupt_def Some)
qed (simp add: lock_interrupt_def)

lemma waiter_push_ok:
  assumes "lock_state_ok s" "waiter_push s w = (s', r)"
    "first_conflict (locks s) (lw_file_id w) (lw_owner w) (lw_kind w) (lw_range w) \<noteq> None"
  shows "lock_state_ok s'"
proof (cases "list_ex (\<lambda>c. lw_tid c = lw_tid w \<and> lw_scheduler_thread c = lw_scheduler_thread w) (flatten (waiters s))
    \<or> checked_add (next_sequence s) 1 = None \<or> position (\<lambda>slot. slot = None) (waiters s) = None")
  case True
  then show ?thesis using assms(1,2) by (auto simp: waiter_push_def split: option.splits if_splits)
next
  case False
  then obtain q i where q: "checked_add (next_sequence s) 1 = Some q"
    and i: "position (\<lambda>slot. slot = None) (waiters s) = Some i" by auto
  let ?w = "w\<lparr>lw_sequence := next_sequence s, lw_outcome := LockWaiting\<rparr>"
  have s': "s' = s\<lparr>waiters := (waiters s)[i := Some ?w], next_sequence := q\<rparr>"
    using assms(2) False q i by (auto simp: waiter_push_def)
  have lt: "next_sequence s < q" using q by (rule checked_add_one_gt)
  have il: "i < length (waiters s)" "waiters s ! i = None" using position_SomeD [OF i] by simp_all
  let ?ws = "(waiters s)[i := Some ?w]"
  have m: "mset (flatten ?ws) = add_mset ?w (mset (flatten (waiters s)))"
    by (rule mset_flatten_fill [OF il])
  then have st: "set (flatten ?ws) = insert ?w (set (flatten (waiters s)))" by (metis set_mset_mset set_mset_add_mset_insert)
  have "mset (map lw_sequence (flatten ?ws)) = mset (map lw_sequence (?w # flatten (waiters s)))"
    using m by simp
  moreover have "distinct (map lw_sequence (?w # flatten (waiters s)))"
    using assms(1) by (auto simp: lock_state_ok_def lock_state_pre_def waiters_ok_def list_all_iff)
  ultimately have "distinct (map lw_sequence (flatten ?ws))" by (metis mset_eq_imp_distinct_iff)
  then show ?thesis
    using assms(1,3) st lt
    by (auto simp: s' lock_state_ok_def lock_state_pre_def waiters_ok_def list_all_iff lock_ready_def intro: less_trans)
qed

lemma wake_ready_ok:
  assumes "lock_state_pre s"
  obtains s' ids where "wake_ready s = Some (s', ids)" "lock_state_ok s'"
proof -
  let ?m = "\<lambda>w. if lock_ready (locks s) w then lock_woken w else w"
  have "lw_sequence \<circ> ?m = lw_sequence" by (simp add: fun_eq_iff lock_wake.mark_seqn)
  then have "lock_state_ok (s\<lparr>waiters := map (map_option ?m) (waiters s)\<rparr>)"
    using assms
    by (auto simp: lock_state_ok_def lock_state_pre_def waiters_ok_def flatten_map_option list_all_iff
        lock_wake.mark_seqn lock_wake.mark_done)
  then show thesis using that wake_ready_result [of s] assms by (simp add: lock_state_pre_def)
qed

lemma deliver_wakeups_ok: "lock_state_ok (fst st) \<Longrightarrow> lock_state_ok (fst (deliver_wakeups wake ids st))"
proof (induction wake ids st rule: deliver_wakeups.induct)
  case (2 wake tid th ids s tasks)
  then show ?case by (auto simp: lock_take_outcome_ok split: prod.splits if_splits)
qed simp

lemma wake_ready_tasks_ok:
  assumes "lock_state_pre (fst st)"
  obtains st' where "wake_ready_tasks wake st = Some st'" "lock_state_ok (fst st')"
proof -
  obtain s' ids where "wake_ready (fst st) = Some (s', ids)" "lock_state_ok s'"
    using wake_ready_ok [OF assms] .
  then show thesis using that deliver_wakeups_ok [of "(s', snd st)" wake "flatten ids"]
    by (simp add: wake_ready_tasks_def)
qed

lemma commit_and_wake_ok:
  assumes "lock_state_ok (fst st)"
    and r: "lock_table_ok (fst r) \<and> locks_exclusive (fst r) \<and> snd r \<noteq> Inl Panic"
    and err: "\<And>x. snd r = Inl (Err x) \<Longrightarrow> fst r = locks (fst st)"
  obtains st' q where "commit_and_wake wake e st r = Some (st', q)" "lock_state_ok (fst st')"
    "q = Inr () \<or> q = Inl e \<and> st' = st"
proof -
  have pre: "lock_state_pre ((fst st)\<lparr>locks := fst r\<rparr>)"
    using assms(1) r by (simp add: lock_state_ok_def lock_state_pre_def waiters_ok_def)
  show thesis
  proof (cases "snd r")
    case (Inl x)
    with r obtain y where x: "x = Err y" by (cases x) auto
    have "(fst st)\<lparr>locks := fst r\<rparr> = fst st" using err [of y] Inl x by simp
    with Inl x assms(1) show thesis using that [of st "Inl e"] by (simp add: commit_and_wake_def)
  next
    case (Inr u)
    obtain st' where "wake_ready_tasks wake ((fst st)\<lparr>locks := fst r\<rparr>, snd st) = Some st'" "lock_state_ok (fst st')"
      using wake_ready_tasks_ok [of "((fst st)\<lparr>locks := fst r\<rparr>, snd st)" wake] pre by auto
    then show thesis using that [of st' "Inr ()"] Inr by (simp add: commit_and_wake_def)
  qed
qed

lemma table_set_error:
  "snd (table_set t f ow k rng) = Inl e \<Longrightarrow> fst (table_set t f ow k rng) = t"
  by (simp add: table_set_def table_commit_def Let_def split: sum.splits)

lemma table_unlock_error: "snd (table_unlock t f ow rng) = Inl e \<Longrightarrow> fst (table_unlock t f ow rng) = t"
  by (simp add: table_unlock_def table_commit_def split: sum.splits)

lemma commit_set_ok:
  assumes "lock_state_ok (fst st)" "wf_range rng" "first_conflict (locks (fst st)) f ow k rng = None"
  obtains st' q where "commit_and_wake wake e st (table_set (locks (fst st)) f ow k rng) = Some (st', q)"
    "lock_state_ok (fst st')" "q = Inr () \<or> q = Inl e \<and> st' = st"
proof -
  have t: "lock_table_ok (locks (fst st))" "locks_exclusive (locks (fst st))"
    using assms(1) by (simp_all add: lock_state_ok_def lock_state_pre_def)
  obtain t' r where r: "table_set (locks (fst st)) f ow k rng = (t', r)" by (cases "table_set (locks (fst st)) f ow k rng")
  then have "lock_table_ok t' \<and> locks_exclusive t' \<and> r \<noteq> Inl Panic"
    using table_set_exclusive [OF t(1) assms(2) t(2) assms(3)] by blast
  then have "lock_table_ok (fst (t', r)) \<and> locks_exclusive (fst (t', r)) \<and> snd (t', r) \<noteq> Inl Panic" by simp
  moreover have "fst (t', r) = locks (fst st)" if "snd (t', r) = Inl (Err x)" for x
    using table_set_error [of "locks (fst st)" f ow k rng] r that by simp
  ultimately show thesis
    by (rule commit_and_wake_ok [OF assms(1), where wake = wake and e = e]) (assumption, rule that, simp_all only: r)
qed

lemma commit_unlock_ok:
  assumes "lock_state_ok (fst st)" "wf_range rng"
  obtains st' q where "commit_and_wake wake e st (table_unlock (locks (fst st)) f ow rng) = Some (st', q)"
    "lock_state_ok (fst st')" "q = Inr () \<or> q = Inl e \<and> st' = st"
proof -
  have t: "lock_table_ok (locks (fst st))" "locks_exclusive (locks (fst st))"
    using assms(1) by (simp_all add: lock_state_ok_def lock_state_pre_def)
  obtain t' r where r: "table_unlock (locks (fst st)) f ow rng = (t', r)" by (cases "table_unlock (locks (fst st)) f ow rng")
  then have "lock_table_ok t' \<and> locks_exclusive t' \<and> r \<noteq> Inl Panic"
    using table_unlock_exclusive [OF t(1) assms(2) t(2)] by blast
  then have "lock_table_ok (fst (t', r)) \<and> locks_exclusive (fst (t', r)) \<and> snd (t', r) \<noteq> Inl Panic" by simp
  moreover have "fst (t', r) = locks (fst st)" if "snd (t', r) = Inl (Err x)" for x
    using table_unlock_error [of "locks (fst st)" f ow rng] r that by simp
  ultimately show thesis
    by (rule commit_and_wake_ok [OF assms(1), where wake = wake and e = e]) (assumption, rule that, simp_all only: r)
qed

lemma set_nonblocking_ok:
  assumes "lock_state_ok (fst st)" "wf_range rng"
  obtains st' q where "set_nonblocking wake st f ow kind rng = Some (st', q)" "lock_state_ok (fst st')"
proof (cases kind)
  case None
  then show thesis using commit_unlock_ok [OF assms, of wake Capacity f ow] that by (auto simp: set_nonblocking_def)
next
  case (Some k)
  show thesis
  proof (cases "first_conflict (locks (fst st)) f ow k rng")
    case None
    then obtain st' q where
      "commit_and_wake wake Capacity st (table_set (locks (fst st)) f ow k rng) = Some (st', q)"
      "lock_state_ok (fst st')" "q = Inr () \<or> q = Inl Capacity \<and> st' = st"
      by (rule commit_set_ok [OF assms])
    then show thesis using that [of st' q] None Some by (simp add: set_nonblocking_def)
  next
    case (Some r)
    then show thesis using that [of st "Inl Conflict"] assms(1) \<open>kind = Some k\<close> by (simp add: set_nonblocking_def)
  qed
qed

lemma set_blocking_enter_ok:
  assumes "lock_state_ok (fst st)" "wf_range rng"
  obtains st' q where "set_blocking_enter wake block cpu th cur st f ow k rng = Some (st', q)" "lock_state_ok (fst st')"
proof (cases "cpu \<noteq> 0 \<or> (\<exists>e. cur = Inl e)")
  case True
  then have "\<exists>q. set_blocking_enter wake block cpu th cur st f ow k rng = Some (st, q)"
    by (cases "cpu = 0") (auto simp: set_blocking_enter_def)
  then show thesis using that assms(1) by blast
next
  case False
  then obtain tid where cur: "cpu = 0" "cur = Inr tid" by (cases cur) auto
  show thesis
  proof (cases "first_conflict (locks (fst st)) f ow k rng")
    case None
    then obtain st' q where
      "commit_and_wake wake ENOLCK st (table_set (locks (fst st)) f ow k rng) = Some (st', q)"
      "lock_state_ok (fst st')" "q = Inr () \<or> q = Inl ENOLCK \<and> st' = st"
      by (rule commit_set_ok [OF assms])
    then show thesis using that [of st' "Returned q"] None cur by (simp add: set_blocking_enter_def)
  next
    case (Some c)
    let ?w = "lock_waiter_new f ow k rng tid th"
    obtain s' r where p: "waiter_push (fst st) ?w = (s', r)" by (cases "waiter_push (fst st) ?w")
    have ok: "lock_state_ok s'"
      using waiter_push_ok [OF assms(1) p] Some by (simp add: lock_waiter_new_def)
    obtain tasks blocked where b: "block (snd st) = (tasks, blocked)" by (cases "block (snd st)")
    show thesis
    proof (cases r)
      case (Inl e)
      then show thesis using that [of "(s', snd st)"] ok p cur Some by (simp add: set_blocking_enter_def)
    next
      case (Inr u)
      then show thesis
        using that [of "(s', tasks)"] that [of "(fst (lock_remove_task s' tid th), tasks)"] ok lock_remove_task_ok [OF ok]
          p b cur Some by (cases "blocked = Inr (tid, th)") (simp_all add: set_blocking_enter_def)
    qed
  qed
qed

lemma set_blocking_resume_ok:
  assumes "lock_state_ok (fst st)"
  obtains st' q where "set_blocking_resume wake tid th st = Some (st', q)" "lock_state_ok (fst st')"
proof -
  obtain s' outcome where t: "lock_take_outcome (fst st) tid th = (s', outcome)"
    by (cases "lock_take_outcome (fst st) tid th")
  have ok: "lock_state_ok s'" using lock_take_outcome_ok [OF assms, of tid th] t by simp
  have "outcome \<noteq> Some LockWaiting" using lock_take_outcome_not_waiting [of "fst st" tid th] t by simp
  then consider "outcome = None" | "outcome = Some LockWoken" | "outcome = Some LockInterrupted"
    by (metis LinuxRecordLockWaitOutcome.exhaust option.exhaust)
  then show thesis
  proof cases
    case 1
    then show thesis
      using that [of "(fst (lock_remove_task s' tid th), _)"] lock_remove_task_ok [OF ok] t
      by (simp add: set_blocking_resume_def)
  qed (use that [of "(s', snd st)"] ok t in \<open>simp_all add: set_blocking_resume_def\<close>)
qed

lemma release_ok:
  assumes "lock_state_ok (fst st)"
  obtains st' where "wake_ready_tasks wake ((fst st)\<lparr>locks := table_retain keep (locks (fst st))\<rparr>, snd st) = Some st'"
    "lock_state_ok (fst st')"
proof -
  have "lock_state_pre ((fst st)\<lparr>locks := table_retain keep (locks (fst st))\<rparr>)"
    using assms table_retain_ok table_retain_exclusive
    by (auto simp: lock_state_ok_def lock_state_pre_def waiters_ok_def)
  then show thesis
    using wake_ready_tasks_ok [of "((fst st)\<lparr>locks := table_retain keep (locks (fst st))\<rparr>, snd st)" wake] that
    by (metis fst_conv)
qed

lemma release_owner_file_ok:
  "lock_state_ok (fst st) \<Longrightarrow> \<exists>st'. release_owner_file wake st ow f = Some st' \<and> lock_state_ok (fst st')"
  by (rule release_ok [of st wake]) (auto simp: release_owner_file_def table_release_owner_file_def)

lemma release_owner_ok:
  "lock_state_ok (fst st) \<Longrightarrow> \<exists>st'. release_owner wake st ow = Some st' \<and> lock_state_ok (fst st')"
  by (rule release_ok [of st wake]) (auto simp: release_owner_def table_release_owner_def)

lemma interrupt_task_ok: "lock_state_ok (fst st) \<Longrightarrow> lock_state_ok (fst (fst (interrupt_task wake st tid th)))"
  using lock_interrupt_ok [of "fst st" tid th]
  by (auto simp: interrupt_task_def Let_def lock_take_outcome_ok split: prod.splits if_splits)

subsection \<open>Runs of the runtime\<close>

text \<open>
  The transitions of the runtime: the lock requests of \<open>fcntl\<close> with a range that
  normalisation has accepted, the second half of a blocking request, the release of locks when
  a file is closed or a process exits, signals, task teardown and reset.  Between them the
  task table may change in any way.
\<close>

inductive lock_step ::
  "'t waker \<Rightarrow> ('t \<Rightarrow> 't \<times> (SysError + usize \<times> usize)) \<Rightarrow> LinuxRecordLockState \<times> 't
     \<Rightarrow> LinuxRecordLockState \<times> 't \<Rightarrow> bool"
  for wake_blocked :: "'t waker" and block_current :: "'t \<Rightarrow> 't \<times> (SysError + usize \<times> usize)" where
  step_set: "normalize_linux_record_lock_range whence l_start l_len cursor file_size = Inr rng \<Longrightarrow>
    set_nonblocking wake_blocked st file_id owner kind rng = Some (st', result) \<Longrightarrow>
    lock_step wake_blocked block_current st st'"
| step_block: "normalize_linux_record_lock_range whence l_start l_len cursor file_size = Inr rng \<Longrightarrow>
    set_blocking_enter wake_blocked block_current cpu scheduler_thread current_tid st file_id owner k rng
      = Some (st', parked) \<Longrightarrow>
    lock_step wake_blocked block_current st st'"
| step_resume: "set_blocking_resume wake_blocked tid scheduler_thread st = Some (st', parked) \<Longrightarrow>
    lock_step wake_blocked block_current st st'"
| step_close: "release_owner_file wake_blocked st owner file_id = Some st' \<Longrightarrow>
    lock_step wake_blocked block_current st st'"
| step_exit: "release_owner wake_blocked st owner = Some st' \<Longrightarrow>
    lock_step wake_blocked block_current st st'"
| step_signal: "interrupt_task wake_blocked st tid scheduler_thread = (st', interrupted) \<Longrightarrow>
    lock_step wake_blocked block_current st st'"
| step_remove: "remove_task_waiters st tid scheduler_thread = (st', removed) \<Longrightarrow>
    lock_step wake_blocked block_current st st'"
| step_reset: "lock_step wake_blocked block_current st (lock_runtime_reset st)"
| step_tasks: "lock_step wake_blocked block_current (s, tasks) (s, tasks')"

lemma lock_step_ok:
  "lock_step wake block st st' \<Longrightarrow> lock_state_ok (fst st) \<Longrightarrow> lock_state_ok (fst st')"
proof (induction rule: lock_step.induct)
  case (step_set whence l_start l_len cursor file_size rng st f ow kind st' result)
  then show ?case using set_nonblocking_ok [OF _ normalize_wf] by (metis fst_conv option.inject)
next
  case (step_block whence l_start l_len cursor file_size rng cpu th cur st f ow k st' parked)
  then show ?case using set_blocking_enter_ok [OF _ normalize_wf] by (metis fst_conv option.inject)
next
  case (step_resume tid th st st' parked)
  then show ?case using set_blocking_resume_ok by (metis fst_conv option.inject)
next
  case (step_close st ow f st')
  then show ?case using release_owner_file_ok by (metis option.inject)
next
  case (step_exit st ow st')
  then show ?case using release_owner_ok by (metis option.inject)
next
  case (step_signal st tid th st' b)
  then show ?case using interrupt_task_ok [of st wake tid th] by simp
next
  case (step_remove st tid th st' n)
  then show ?case using lock_remove_task_ok [of "fst st" tid th] by (auto simp: remove_task_waiters_def split: prod.splits)
qed (simp_all add: lock_runtime_reset_def lock_state_reset_ok)

lemma lock_run_ok:
  assumes "(lock_step wake block)\<^sup>*\<^sup>* (lock_state_new L W, tasks) st"
  shows "lock_state_ok (fst st)"
  using assms by (induction rule: rtranclp_induct) (auto simp: lock_state_new_ok intro: lock_step_ok)

subsection \<open>Properties\<close>

text \<open>
  C17: Setting a lock on a range gives the owner exactly that range with the requested kind,
  whatever it held there before, and leaves every other byte, file and owner as it was.  The
  table stays well formed.  It fails only for lack of slots, with at most one slot free, and
  then changes nothing.
\<close>
theorem record_lock_set_meaning:
  assumes "lock_table_ok t" "wf_range rng"
  shows "(table_set t f ow k rng = (t, Inl (Err LockCapacity)) \<and> length (records t) < length (flatten (records t)) + 2)
    \<or> (\<exists>t'. table_set t f ow k rng = (t', Inr ()) \<and> lock_table_ok t'
        \<and> (\<forall>f' ow' k' b. holds_byte (flatten (records t')) f' ow' k' b
             = (if f' = f \<and> ow' = ow \<and> covers rng b then k' = k
                else holds_byte (flatten (records t)) f' ow' k' b)))"
  using assms
proof (cases rule: table_set_cases [where f = f and ow = ow and k = k])
  case (installed ys)
  then show ?thesis by (auto simp: lock_table_ok_def)
qed simp

text \<open>
  C30: Unlocking a range takes exactly that range from the owner and leaves everything else as
  it was.  It fails only when a split needs a slot and none is free.
\<close>
theorem record_lock_unlock_meaning:
  assumes "lock_table_ok t" "wf_range rng"
  shows "(table_unlock t f ow rng = (t, Inl (Err LockCapacity)) \<and> length (records t) = length (flatten (records t)))
    \<or> (\<exists>t'. table_unlock t f ow rng = (t', Inr ()) \<and> lock_table_ok t'
        \<and> (\<forall>f' ow' k' b. holds_byte (flatten (records t')) f' ow' k' b
             = (holds_byte (flatten (records t)) f' ow' k' b \<and> \<not> (f' = f \<and> ow' = ow \<and> covers rng b))))"
  using assms
proof (cases rule: table_unlock_cases [where f = f and ow = ow])
  case full
  then show ?thesis using length_flatten_le [of "records t"] by simp
next
  case (installed ys)
  then show ?thesis by (auto simp: lock_table_ok_def)
qed

text \<open>
  C2: In every run of the runtime, whatever the task table does, two processes never hold
  conflicting locks on the same byte, and no blocked request is forgotten: a request still
  waiting conflicts with a lock that is held.
\<close>
theorem record_lock_runtime_safe:
  assumes "(lock_step wake_blocked block_current)\<^sup>*\<^sup>* (lock_state_new L W, tasks) st"
  shows "(ow \<noteq> ow' \<and> holds_byte (flatten (records (locks (fst st)))) f ow k b
      \<and> holds_byte (flatten (records (locks (fst st)))) f ow' k' b \<longrightarrow> k = Read \<and> k' = Read)
    \<and> (\<forall>w\<in>set (flatten (waiters (fst st))). lw_outcome w = LockWaiting
        \<longrightarrow> first_conflict (locks (fst st)) (lw_file_id w) (lw_owner w) (lw_kind w) (lw_range w) \<noteq> None)"
proof (intro conjI ballI impI)
  have ok: "locks_exclusive (locks (fst st))" "list_all (\<lambda>w. \<not> lock_ready (locks (fst st)) w) (flatten (waiters (fst st)))"
    using lock_run_ok [OF assms] by (simp_all add: lock_state_ok_def lock_state_pre_def)
  assume "ow \<noteq> ow' \<and> holds_byte (flatten (records (locks (fst st)))) f ow k b
      \<and> holds_byte (flatten (records (locks (fst st)))) f ow' k' b"
  then have "k = Read \<and> k' = Read" using ok(1) unfolding locks_exclusive_def by metis
  then show "k = Read" "k' = Read" by simp_all
next
  fix w assume "w \<in> set (flatten (waiters (fst st)))" "lw_outcome w = LockWaiting"
  then show "first_conflict (locks (fst st)) (lw_file_id w) (lw_owner w) (lw_kind w) (lw_range w) \<noteq> None"
    using lock_run_ok [OF assms] by (simp add: lock_state_ok_def list_all_iff lock_ready_def)
qed

text \<open>
  C31: No request panics: in every reachable state each entry point of the runtime returns,
  although it relies on ranges that stay non-empty, on free result slots and on waiter slots
  that stay occupied.
\<close>
theorem record_lock_no_panic:
  assumes "(lock_step wake_blocked block_current)\<^sup>*\<^sup>* (lock_state_new L W, tasks) st"
    "normalize_linux_record_lock_range whence l_start l_len cursor file_size = Inr rng"
  shows "set_nonblocking wake_blocked st file_id owner kind rng \<noteq> None
    \<and> set_blocking_enter wake_blocked block_current cpu th cur st file_id owner k rng \<noteq> None
    \<and> set_blocking_resume wake_blocked tid th st \<noteq> None
    \<and> release_owner_file wake_blocked st owner file_id \<noteq> None
    \<and> release_owner wake_blocked st owner \<noteq> None"
proof (intro conjI)
  note ok = lock_run_ok [OF assms(1)] and wf = normalize_wf [OF assms(2)]
  show "set_nonblocking wake_blocked st file_id owner kind rng \<noteq> None"
    using set_nonblocking_ok [OF ok wf] by (metis option.distinct(1))
  show "set_blocking_enter wake_blocked block_current cpu th cur st file_id owner k rng \<noteq> None"
    using set_blocking_enter_ok [OF ok wf] by (metis option.distinct(1))
  show "set_blocking_resume wake_blocked tid th st \<noteq> None"
    using set_blocking_resume_ok [OF ok] by (metis option.distinct(1))
  show "release_owner_file wake_blocked st owner file_id \<noteq> None" "release_owner wake_blocked st owner \<noteq> None"
    using release_owner_file_ok [OF ok] release_owner_ok [OF ok] by (metis option.distinct(1))+
qed

text \<open>
  C32: \<open>wake_ready\<close> marks every waiting request that no longer conflicts and no other, and
  reports their tasks in the order in which they queued.
\<close>
theorem record_lock_wake_order:
  assumes "waiters_ok s"
  shows "wake_ready s = Some
    (s\<lparr>waiters := map (map_option (\<lambda>w. if lock_ready (locks s) w then w\<lparr>lw_outcome := LockWoken\<rparr> else w)) (waiters s)\<rparr>,
     compact (length (waiters s)) (map lw_identity (by_age lw_sequence (lock_ready (locks s)) (waiters s))))"
  by (rule wake_ready_result [OF assms, unfolded lock_woken_def])

text \<open>
  C33: Normalising an \<open>flock\<close> request computes the byte range of the integers: the base of
  \<open>whence\<close> plus the offset, with negative lengths reaching backwards, length zero reaching to
  the end, and the error chosen by the first bound that fails.
\<close>
theorem record_lock_range_is_posix:
  "normalize_linux_record_lock_range whence l_start l_len cursor file_size =
     map_sum id word_range
       (posix_lock_range (sint whence) (sint l_start) (sint l_len) (uint cursor) (uint file_size))"
  by (rule normalize_posix)

subsection \<open>Concrete runs\<close>

definition example_locks :: LinuxRecordLockTable where
  "example_locks = \<lparr>records =
     [Some \<lparr>rl_file_id = 7, rl_owner = 1, rl_kind = Read, rl_range = \<lparr>rg_start = 0, rg_end = 100\<rparr>\<rparr>, None,
      Some \<lparr>rl_file_id = 7, rl_owner = 2, rl_kind = Read, rl_range = \<lparr>rg_start = 50, rg_end = 60\<rparr>\<rparr>,
      None, None, None]\<rparr>"

lemma example_locks_ok: "lock_table_ok example_locks"
  by code_simp

definition example_range :: LinuxRecordLockRange where
  "example_range = \<lparr>rg_start = 20, rg_end = 30\<rparr>"

lemma example_range_ok: "wf_range example_range"
  by code_simp

lemma example_locks_sizes: "length (records example_locks) = 6" "length (flatten (records example_locks)) = 2"
  by (simp_all add: example_locks_def)

theorem record_lock_set_meaning_witness:
  "\<exists>t'. table_set example_locks 7 1 Write example_range = (t', Inr ())
     \<and> holds_byte (flatten (records t')) 7 1 Write 25 \<and> holds_byte (flatten (records t')) 7 1 Read 10
     \<and> holds_byte (flatten (records t')) 7 2 Read 55"
proof -
  have h: "covers example_range 25" "\<not> covers example_range 10" "holds_byte (flatten (records example_locks)) 7 1 Read 10"
    "holds_byte (flatten (records example_locks)) 7 2 Read 55" by code_simp+
  from record_lock_set_meaning [OF example_locks_ok example_range_ok, of 7 1 Write]
  show ?thesis unfolding example_locks_sizes using h by auto
qed

theorem record_lock_unlock_meaning_witness:
  "\<exists>t'. table_unlock example_locks 7 1 example_range = (t', Inr ())
     \<and> \<not> holds_byte (flatten (records t')) 7 1 Read 25 \<and> holds_byte (flatten (records t')) 7 1 Read 30"
proof -
  have h: "covers example_range 25" "\<not> covers example_range 30" "holds_byte (flatten (records example_locks)) 7 1 Read 30"
    by code_simp+
  from record_lock_unlock_meaning [OF example_locks_ok example_range_ok, of 7 1]
  show ?thesis unfolding example_locks_sizes using h by auto
qed

text \<open>
  Process 1 takes a write lock, process 2 asks for an overlapping one and blocks, process 1
  exits.
\<close>

definition example_wake :: "unit waker" where
  "example_wake tid scheduler_thread tasks = (tasks, True)"

definition example_block :: "unit \<Rightarrow> unit \<times> (SysError + usize \<times> usize)" where
  "example_block tasks = (tasks, Inr (2, 12))"

definition example_lock_held :: "LinuxRecordLockState \<times> unit" where
  "example_lock_held =
     (\<lparr>locks = \<lparr>records = [Some \<lparr>rl_file_id = 7, rl_owner = 1, rl_kind = Write,
          rl_range = \<lparr>rg_start = 20, rg_end = 30\<rparr>\<rparr>, None, None]\<rparr>,
       waiters = [None, None], next_sequence = 0\<rparr>, ())"

definition example_lock_blocked :: "LinuxRecordLockState \<times> unit" where
  "example_lock_blocked =
     ((fst example_lock_held)\<lparr>waiters := [Some ((lock_waiter_new 7 2 Read \<lparr>rg_start = 25, rg_end = 26\<rparr> 2 12)), None],
        next_sequence := 1\<rparr>, ())"

lemma example_lock_run:
  "(lock_step example_wake example_block)\<^sup>*\<^sup>* (lock_state_new 3 2, ()) example_lock_blocked"
proof -
  have "set_nonblocking example_wake (lock_state_new 3 2, ()) 7 1 (Some Write) \<lparr>rg_start = 20, rg_end = 30\<rparr>
      = Some (example_lock_held, Inr ())" by code_simp
  moreover have "normalize_linux_record_lock_range 0 20 10 0 0 = Inr \<lparr>rg_start = 20, rg_end = 30\<rparr>" by code_simp
  ultimately have "lock_step example_wake example_block (lock_state_new 3 2, ()) example_lock_held"
    by (intro lock_step.step_set)
  moreover have "set_blocking_enter example_wake example_block 0 12 (Inr 2) example_lock_held 7 2 Read
      \<lparr>rg_start = 25, rg_end = 26\<rparr> = Some (example_lock_blocked, Parked)" by code_simp
  moreover have "normalize_linux_record_lock_range 0 25 1 0 0 = Inr \<lparr>rg_start = 25, rg_end = 26\<rparr>" by code_simp
  ultimately show ?thesis
    by (meson lock_step.step_block r_into_rtranclp rtranclp.rtrancl_into_rtrancl)
qed

theorem record_lock_runtime_safe_witness:
  "lw_outcome (lock_waiter_new 7 2 Read \<lparr>rg_start = 25, rg_end = 26\<rparr> 2 12) = LockWaiting
   \<and> first_conflict (locks (fst example_lock_blocked)) 7 2 Read \<lparr>rg_start = 25, rg_end = 26\<rparr> \<noteq> None"
proof -
  let ?w = "lock_waiter_new 7 2 Read \<lparr>rg_start = 25, rg_end = 26\<rparr> 2 12"
  have "?w \<in> set (flatten (waiters (fst example_lock_blocked)))" "lw_outcome ?w = LockWaiting"
    by (simp_all add: example_lock_blocked_def lock_waiter_new_def)
  then show ?thesis
    using record_lock_runtime_safe [OF example_lock_run, of 1 1 7 Read 0 Read] by (fastforce simp: lock_waiter_new_def)
qed

theorem record_lock_no_panic_witness:
  "set_nonblocking example_wake example_lock_blocked 7 1 None \<lparr>rg_start = 20, rg_end = 30\<rparr> \<noteq> None"
proof -
  have "normalize_linux_record_lock_range 0 20 10 0 0 = Inr \<lparr>rg_start = 20, rg_end = 30\<rparr>" by code_simp
  from record_lock_no_panic [OF example_lock_run this] show ?thesis by blast
qed

definition example_lock_waiters :: LinuxRecordLockState where
  "example_lock_waiters =
     \<lparr>locks = lock_table_new 2,
      waiters = [Some ((lock_waiter_new 7 2 Read \<lparr>rg_start = 25, rg_end = 26\<rparr> 2 12)\<lparr>lw_sequence := 4\<rparr>), None,
                 Some ((lock_waiter_new 8 3 Write \<lparr>rg_start = 0, rg_end = 26\<rparr> 3 13)\<lparr>lw_sequence := 1\<rparr>)],
      next_sequence = 9\<rparr>"

theorem record_lock_wake_order_witness:
  "map_option snd (wake_ready example_lock_waiters) = Some [Some (3, 13), Some (2, 12), None]"
proof -
  have "waiters_ok example_lock_waiters" by code_simp
  from record_lock_wake_order [OF this]
  have "map_option snd (wake_ready example_lock_waiters) = Some (compact (length (waiters example_lock_waiters))
      (map lw_identity (by_age lw_sequence (lock_ready (locks example_lock_waiters)) (waiters example_lock_waiters))))"
    by simp
  also have "\<dots> = Some [Some (3, 13), Some (2, 12), None]" by code_simp
  finally show ?thesis .
qed

end
