(* ===== verification/Linux_Signal.thy ===== *)
theory Linux_Signal
  imports Linux_Wait
begin

text \<open>
  Signals of Linux tasks, the first part of \<open>src/src/syscall/linux_task_logic_shared.rs\<close>: requests
  to create a thread, deadlines of sleeping tasks, the pending signals of a task or a process, and
  the state of a task that waits for signals or runs handlers.

  The arrays keep their length and a counter says how much of them is in use.  Every index that the
  operations use is below the length of its array in the states that satisfy \<open>pending_shape\<close>, which
  the operations keep.  \<open>pending_ok\<close> is this shape with room for every reservation; all operations
  keep it but \<open>requeue_front\<close>, which puts a signal back without regard to the reserved places.
\<close>

subsection \<open>Creating a thread\<close>

definition LINUX_ROOT_TID :: usize where "LINUX_ROOT_TID = 1"
definition LINUX_MAX_TID :: usize where "LINUX_MAX_TID = 0x7fffffff"
definition CLONE_VM :: usize where "CLONE_VM = 0x100"
definition CLONE_FS :: usize where "CLONE_FS = 0x200"
definition CLONE_FILES :: usize where "CLONE_FILES = 0x400"
definition CLONE_SIGHAND :: usize where "CLONE_SIGHAND = 0x800"
definition CLONE_THREAD :: usize where "CLONE_THREAD = 0x10000"
definition CLONE_SYSVSEM :: usize where "CLONE_SYSVSEM = 0x40000"
definition CLONE_SETTLS :: usize where "CLONE_SETTLS = 0x80000"
definition CLONE_PARENT_SETTID :: usize where "CLONE_PARENT_SETTID = 0x100000"
definition CLONE_CHILD_CLEARTID :: usize where "CLONE_CHILD_CLEARTID = 0x200000"
definition CLONE_CHILD_SETTID :: usize where "CLONE_CHILD_SETTID = 0x1000000"
definition CLONE_EXIT_SIGNAL_MASK :: usize where "CLONE_EXIT_SIGNAL_MASK = 0xff"

definition CLONE_REQUIRED_THREAD_FLAGS :: usize where
  "CLONE_REQUIRED_THREAD_FLAGS = CLONE_VM OR CLONE_FS OR CLONE_FILES OR CLONE_SIGHAND OR CLONE_THREAD OR CLONE_SYSVSEM"

definition CLONE_ALLOWED_THREAD_FLAGS :: usize where
  "CLONE_ALLOWED_THREAD_FLAGS =
     CLONE_REQUIRED_THREAD_FLAGS OR CLONE_SETTLS OR CLONE_PARENT_SETTID OR CLONE_CHILD_CLEARTID OR CLONE_CHILD_SETTID"

datatype LinuxCloneValidationError = ClFlags | ClStack | ClTls | ClParentTid | ClChildTid

record LinuxCloneRequest =
  cl_flags :: usize
  cl_user_sp :: usize
  cl_parent_tid :: "usize option"
  cl_tls :: "usize option"
  cl_child_tid :: "usize option"
  cl_clear_child_tid :: bool

definition valid_clone_tid_pointer :: "usize \<Rightarrow> bool" where
  "valid_clone_tid_pointer pointer = (pointer \<noteq> 0 \<and> pointer AND 3 = 0 \<and> checked_add pointer 4 \<noteq> None)"

definition clone_validate ::
  "usize \<Rightarrow> usize \<Rightarrow> usize \<Rightarrow> usize \<Rightarrow> usize \<Rightarrow> LinuxCloneValidationError + LinuxCloneRequest" where
  "clone_validate flags user_sp parent_tid tls child_tid =
     (if flags AND CLONE_EXIT_SIGNAL_MASK \<noteq> 0 \<or> flags AND NOT CLONE_ALLOWED_THREAD_FLAGS \<noteq> 0
         \<or> flags AND CLONE_REQUIRED_THREAD_FLAGS \<noteq> CLONE_REQUIRED_THREAD_FLAGS
         \<or> flags AND CLONE_THREAD \<noteq> 0 \<and> (flags AND CLONE_VM = 0 \<or> flags AND CLONE_SIGHAND = 0)
      then Inl ClFlags
      else if user_sp = 0 \<or> user_sp AND 0xf \<noteq> 0 then Inl ClStack
      else if flags AND CLONE_SETTLS \<noteq> 0 \<and> tls = 0 then Inl ClTls
      else if flags AND CLONE_PARENT_SETTID \<noteq> 0 \<and> \<not> valid_clone_tid_pointer parent_tid then Inl ClParentTid
      else
        let needs_child_tid = flags AND (CLONE_CHILD_SETTID OR CLONE_CHILD_CLEARTID) \<noteq> 0
        in if needs_child_tid \<and> \<not> valid_clone_tid_pointer child_tid then Inl ClChildTid
           else Inr \<lparr>cl_flags = flags, cl_user_sp = user_sp,
                     cl_parent_tid = (if flags AND CLONE_PARENT_SETTID \<noteq> 0 then Some parent_tid else None),
                     cl_tls = (if flags AND CLONE_SETTLS \<noteq> 0 then Some tls else None),
                     cl_child_tid = (if needs_child_tid then Some child_tid else None),
                     cl_clear_child_tid = (flags AND CLONE_CHILD_CLEARTID \<noteq> 0)\<rparr>)"

definition linux_task_tid_allocation :: "usize \<Rightarrow> (usize \<times> usize option) option" where
  "linux_task_tid_allocation next_tid =
     (if next_tid \<le> LINUX_ROOT_TID \<or> LINUX_MAX_TID < next_tid then None
      else Some (next_tid, if next_tid < LINUX_MAX_TID then Some (next_tid + 1) else None))"

definition linux_tid_to_user_value :: "usize \<Rightarrow> u32 option" where
  "linux_tid_to_user_value tid =
     (if \<not> (LINUX_ROOT_TID \<le> tid \<and> tid \<le> LINUX_MAX_TID) then None
      else if unat tid < 2 ^ 32 then Some (ucast tid) else None)"

subsection \<open>Deadlines\<close>

definition linux_sleep_timespec_nanoseconds :: "i64 \<Rightarrow> i64 \<Rightarrow> u64 option" where
  "linux_sleep_timespec_nanoseconds seconds nanoseconds =
     (if sint seconds < 0 \<or> \<not> (0 \<le> sint nanoseconds \<and> sint nanoseconds < 1000000000) then None
      else Option.bind (checked_mul seconds 1000000000) (\<lambda>total. checked_add total nanoseconds))"

definition ticks_ceil_of :: "u64 \<Rightarrow> u64 \<Rightarrow> u64 option" where
  "ticks_ceil_of total_nanoseconds tick_nanoseconds =
     checked_add (total_nanoseconds div tick_nanoseconds) (if total_nanoseconds mod tick_nanoseconds \<noteq> 0 then 1 else 0)"

definition linux_signal_timespec_to_ticks_ceil :: "u64 \<Rightarrow> i64 \<Rightarrow> i64 \<Rightarrow> u64 \<Rightarrow> u64 option" where
  "linux_signal_timespec_to_ticks_ceil now seconds nanoseconds tick_nanoseconds =
     (if tick_nanoseconds = 0 then None
      else
        Option.bind (linux_sleep_timespec_nanoseconds seconds nanoseconds) (\<lambda>total_nanoseconds.
        Option.bind (ticks_ceil_of total_nanoseconds tick_nanoseconds) (\<lambda>ticks.
          let phase_guard = (if total_nanoseconds = 0 then 0 else 1)
          in Option.bind (checked_add now ticks) (\<lambda>d. checked_add d phase_guard))))"

definition linux_sleep_relative_deadline_ticks :: "u64 \<Rightarrow> i64 \<Rightarrow> i64 \<Rightarrow> u64 \<Rightarrow> u64 option" where
  "linux_sleep_relative_deadline_ticks now seconds nanoseconds tick_nanoseconds =
     linux_signal_timespec_to_ticks_ceil now seconds nanoseconds tick_nanoseconds"

definition linux_sleep_relative_deadline_ticks_precise :: "u64 \<Rightarrow> u64 \<Rightarrow> u64 \<Rightarrow> u64 option" where
  "linux_sleep_relative_deadline_ticks_precise now requested_nanoseconds tick_nanoseconds =
     (if tick_nanoseconds = 0 then None
      else Option.bind (ticks_ceil_of requested_nanoseconds tick_nanoseconds) (checked_add now))"

definition linux_sleep_absolute_deadline_ticks :: "i64 \<Rightarrow> i64 \<Rightarrow> u64 \<Rightarrow> u64 option" where
  "linux_sleep_absolute_deadline_ticks seconds nanoseconds tick_nanoseconds =
     (if tick_nanoseconds = 0 then None
      else
        Option.bind (linux_sleep_timespec_nanoseconds seconds nanoseconds) (\<lambda>total_nanoseconds.
          ticks_ceil_of total_nanoseconds tick_nanoseconds))"

definition linux_sleep_realtime_deadline_ticks :: "u64 \<Rightarrow> i64 \<Rightarrow> u64 \<Rightarrow> u64 option" where
  "linux_sleep_realtime_deadline_ticks realtime_nanoseconds realtime_offset_nanoseconds tick_nanoseconds =
     (if tick_nanoseconds = 0 then None
      else
        let monotonic_nanoseconds = uint realtime_nanoseconds - sint realtime_offset_nanoseconds
        in if monotonic_nanoseconds \<le> 0 then ticks_ceil_of 0 tick_nanoseconds
           else if monotonic_nanoseconds < 2 ^ 64 then ticks_ceil_of (word_of_int monotonic_nanoseconds) tick_nanoseconds
           else None)"

definition linux_sleep_remaining_timespec :: "u64 \<Rightarrow> u64 \<Rightarrow> u64 \<Rightarrow> u64 \<Rightarrow> (i64 \<times> i64) option" where
  "linux_sleep_remaining_timespec started_at requested_nanoseconds now tick_nanoseconds =
     (if tick_nanoseconds = 0 then None
      else
        let elapsed_ticks = saturating_sub now started_at;
            elapsed_nanoseconds = unat elapsed_ticks * unat tick_nanoseconds;
            remaining_nanoseconds = unat requested_nanoseconds - elapsed_nanoseconds
        in if remaining_nanoseconds div 1000000000 < 2 ^ 63
           then Some (of_nat (remaining_nanoseconds div 1000000000), of_nat (remaining_nanoseconds mod 1000000000))
           else None)"

definition linux_short_sleep_deadline_nanoseconds :: "u64 \<Rightarrow> u64 \<Rightarrow> u64 \<Rightarrow> u64 option" where
  "linux_short_sleep_deadline_nanoseconds now requested_nanoseconds max_short_sleep_nanoseconds =
     (if requested_nanoseconds = 0 \<or> max_short_sleep_nanoseconds < requested_nanoseconds then None
      else checked_add now requested_nanoseconds)"

subsection \<open>Pending signals\<close>

definition LINUX_MAX_SIGNAL :: usize where "LINUX_MAX_SIGNAL = 64"
definition LINUX_REALTIME_SIGNAL_MIN :: usize where "LINUX_REALTIME_SIGNAL_MIN = 32"
definition LINUX_SIGNAL_INFO_BYTES :: nat where "LINUX_SIGNAL_INFO_BYTES = 128"
definition LINUX_RT_QUEUE_LIMIT :: nat where "LINUX_RT_QUEUE_LIMIT = 64"
definition LINUX_SIGCONT_SIGNAL :: usize where "LINUX_SIGCONT_SIGNAL = 18"
definition LINUX_STOP_SIGNAL_FIRST :: usize where "LINUX_STOP_SIGNAL_FIRST = 19"
definition LINUX_STOP_SIGNAL_LAST :: usize where "LINUX_STOP_SIGNAL_LAST = 22"

definition linux_signal_bit :: "usize \<Rightarrow> u64" where
  "linux_signal_bit signum = (if \<not> (1 \<le> signum \<and> signum \<le> LINUX_MAX_SIGNAL) then 0 else push_bit (unat (signum - 1)) 1)"

datatype LinuxSignalDisposition = DispIgnore | DispStop | DispContinue | DispTerminate | DispHandled

definition linux_signal_disposition :: "u64 \<Rightarrow> usize \<Rightarrow> LinuxSignalDisposition" where
  "linux_signal_disposition handler signum =
     (if handler = 1 then DispIgnore
      else if handler = 0 then
        (if signum = 17 \<or> signum = 23 \<or> signum = 28 then DispIgnore
         else if signum = LINUX_SIGCONT_SIGNAL then DispContinue
         else if LINUX_STOP_SIGNAL_FIRST \<le> signum \<and> signum \<le> LINUX_STOP_SIGNAL_LAST then DispStop
         else DispTerminate)
      else DispHandled)"

definition linux_signal_interrupts_sleep :: "LinuxSignalDisposition \<Rightarrow> bool" where
  "linux_signal_interrupts_sleep disposition = (disposition = DispTerminate \<or> disposition = DispHandled)"

record LinuxPendingSignal =
  ps_signum :: usize
  ps_has_info :: bool
  ps_info :: "u8 list"
  ps_timer_pid :: usize
  ps_timer_id :: u32

definition EMPTY_SIGNAL :: LinuxPendingSignal where
  "EMPTY_SIGNAL =
     \<lparr>ps_signum = 0, ps_has_info = False, ps_info = replicate LINUX_SIGNAL_INFO_BYTES 0, ps_timer_pid = 0, ps_timer_id = 0\<rparr>"

definition standard_signal :: "usize \<Rightarrow> LinuxPendingSignal" where
  "standard_signal signum = EMPTY_SIGNAL\<lparr>ps_signum := signum\<rparr>"

definition timer_identity :: "LinuxPendingSignal \<Rightarrow> (usize \<times> u32) option" where
  "timer_identity record = (if ps_timer_pid record = 0 then None else Some (ps_timer_pid record, ps_timer_id record))"

datatype LinuxPendingSignalSource = SourceTask | SourceProcess

datatype LinuxPendingSignalReservation = ResStandard usize | ResRealtime u64

datatype LinuxSignalRouteError = NoSuchTask | InvalidSignal | InvalidReservation | QueueFull

definition select_linux_pending_signal ::
  "LinuxPendingSignal option \<Rightarrow> LinuxPendingSignal option \<Rightarrow> (LinuxPendingSignalSource \<times> LinuxPendingSignal) option" where
  "select_linux_pending_signal task process =
     (case (task, process) of
        (Some task, Some process) \<Rightarrow>
          if ps_signum task \<le> ps_signum process then Some (SourceTask, task) else Some (SourceProcess, process)
      | (Some task, None) \<Rightarrow> Some (SourceTask, task)
      | (None, Some process) \<Rightarrow> Some (SourceProcess, process)
      | (None, None) \<Rightarrow> None)"

record LinuxPendingSignals =
  standard_pending :: u64
  standard_reserved :: u64
  standard_records :: "LinuxPendingSignal list"
  realtime_pending :: "LinuxPendingSignal list"
  realtime_sequences :: "u64 list"
  realtime_len :: nat
  realtime_reservations :: "u64 list"
  realtime_reserved :: nat
  next_realtime_sequence :: u64

definition pending_new :: LinuxPendingSignals where
  "pending_new =
     \<lparr>standard_pending = 0, standard_reserved = 0, standard_records = replicate (unat LINUX_REALTIME_SIGNAL_MIN) EMPTY_SIGNAL,
      realtime_pending = replicate LINUX_RT_QUEUE_LIMIT EMPTY_SIGNAL, realtime_sequences = replicate LINUX_RT_QUEUE_LIMIT 0,
      realtime_len = 0, realtime_reservations = replicate LINUX_RT_QUEUE_LIMIT 0, realtime_reserved = 0,
      next_realtime_sequence = 1\<rparr>"

definition pending_reset_in_place :: "LinuxPendingSignals \<Rightarrow> LinuxPendingSignals" where
  "pending_reset_in_place p =
     \<lparr>standard_pending = 0, standard_reserved = 0,
      standard_records = map (\<lambda>record. record\<lparr>ps_signum := 0, ps_has_info := False, ps_info := map (\<lambda>_. 0) (ps_info record),
        ps_timer_pid := 0, ps_timer_id := 0\<rparr>) (standard_records p),
      realtime_pending = map (\<lambda>record. record\<lparr>ps_signum := 0, ps_has_info := False, ps_info := map (\<lambda>_. 0) (ps_info record),
        ps_timer_pid := 0, ps_timer_id := 0\<rparr>) (realtime_pending p),
      realtime_sequences = map (\<lambda>_. 0) (realtime_sequences p), realtime_len = 0,
      realtime_reservations = map (\<lambda>_. 0) (realtime_reservations p), realtime_reserved = 0, next_realtime_sequence = 1\<rparr>"

definition allocate_realtime_sequence :: "LinuxPendingSignals \<Rightarrow> LinuxPendingSignals \<times> (LinuxSignalRouteError + u64)" where
  "allocate_realtime_sequence p =
     (let sequence = next_realtime_sequence p
      in if sequence = 0 then (p, Inl QueueFull)
         else (p\<lparr>next_realtime_sequence := (case checked_add sequence 1 of None \<Rightarrow> 0 | Some n \<Rightarrow> n)\<rparr>, Inr sequence))"

definition reserve_realtime_sequence :: "u64 \<Rightarrow> LinuxPendingSignals \<Rightarrow> LinuxPendingSignals \<times> (LinuxSignalRouteError + unit)" where
  "reserve_realtime_sequence sequence p =
     (if sequence = 0 \<or> LINUX_RT_QUEUE_LIMIT \<le> realtime_reserved p
         \<or> sequence \<in> set (take (realtime_reserved p) (realtime_reservations p))
      then (p, Inl InvalidReservation)
      else (p\<lparr>realtime_reservations := (realtime_reservations p)[realtime_reserved p := sequence],
              realtime_reserved := realtime_reserved p + 1\<rparr>, Inr ()))"

definition release_realtime_sequence :: "u64 \<Rightarrow> LinuxPendingSignals \<Rightarrow> LinuxPendingSignals \<times> bool" where
  "release_realtime_sequence sequence p =
     (case position (\<lambda>reserved. reserved = sequence) (take (realtime_reserved p) (realtime_reservations p)) of
        None \<Rightarrow> (p, False)
      | Some index \<Rightarrow>
          (p\<lparr>realtime_reservations := (shift_down index (realtime_reserved p) (realtime_reservations p))[realtime_reserved p - 1 := 0],
             realtime_reserved := realtime_reserved p - 1\<rparr>, True))"

definition insert_realtime_by_sequence ::
  "u64 \<Rightarrow> LinuxPendingSignal \<Rightarrow> LinuxPendingSignals \<Rightarrow> LinuxPendingSignals \<times> (LinuxSignalRouteError + unit)" where
  "insert_realtime_by_sequence sequence record p =
     (if sequence = 0 \<or> LINUX_RT_QUEUE_LIMIT \<le> realtime_len p then (p, Inl QueueFull)
      else
        let index = (case position (\<lambda>queued. sequence < queued) (take (realtime_len p) (realtime_sequences p)) of
                       None \<Rightarrow> realtime_len p | Some index \<Rightarrow> index)
        in (p\<lparr>realtime_pending := (shift_up index (realtime_len p) (realtime_pending p))[index := record],
              realtime_sequences := (shift_up index (realtime_len p) (realtime_sequences p))[index := sequence],
              realtime_len := realtime_len p + 1\<rparr>, Inr ()))"

definition pending_mask :: "LinuxPendingSignals \<Rightarrow> u64" where
  "pending_mask p =
     fold (\<lambda>record pending. pending OR linux_signal_bit (ps_signum record)) (take (realtime_len p) (realtime_pending p)) (standard_pending p)"

definition pending_queue :: "LinuxPendingSignal \<Rightarrow> LinuxPendingSignals \<Rightarrow> LinuxPendingSignals \<times> (LinuxSignalRouteError + unit)" where
  "pending_queue record p =
     (if \<not> (1 \<le> ps_signum record \<and> ps_signum record \<le> LINUX_MAX_SIGNAL) then (p, Inl InvalidSignal)
      else if ps_signum record < LINUX_REALTIME_SIGNAL_MIN then
        let bit = linux_signal_bit (ps_signum record)
        in if standard_pending p AND bit = 0
           then (p\<lparr>standard_pending := standard_pending p OR bit,
                   standard_records := (standard_records p)[unat (ps_signum record) := record]\<rparr>, Inr ())
           else (p, Inr ())
      else if LINUX_RT_QUEUE_LIMIT \<le> realtime_len p + realtime_reserved p then (p, Inl QueueFull)
      else
        (case allocate_realtime_sequence p of
           (p, Inl e) \<Rightarrow> (p, Inl e)
         | (p, Inr sequence) \<Rightarrow>
             (p\<lparr>realtime_pending := (realtime_pending p)[realtime_len p := record],
                realtime_sequences := (realtime_sequences p)[realtime_len p := sequence],
                realtime_len := realtime_len p + 1\<rparr>, Inr ())))"

text \<open>\<open>trailing_zeros\<close>, and the loop over the bits of a mask from the lowest one.\<close>

definition trailing_zeros :: "u64 \<Rightarrow> nat" where
  "trailing_zeros w = (case position (bit w) [0..<64] of None \<Rightarrow> 64 | Some n \<Rightarrow> n)"

lemma trailing_zeros_bit:
  assumes "w \<noteq> 0"
  shows "trailing_zeros w < 64" "bit w (trailing_zeros w)" "\<And>n. n < trailing_zeros w \<Longrightarrow> \<not> bit w n"
proof -
  have "\<exists>n<64. bit w n" using assms by (auto simp: bit_eq_iff bit_imp_le_length dest: bit_imp_le_length)
  then have "position (bit w) [0..<64] \<noteq> None" by (auto simp: position_None_iff)
  then obtain n where n: "position (bit w) [0..<64] = Some n" by auto
  note d = position_SomeD [OF n]
  have t: "trailing_zeros w = n" using n by (simp add: trailing_zeros_def)
  have "n < 64" using d by simp
  moreover have "\<not> bit w m" if "m < n" for m
  proof -
    have "[0..<64] ! m = m" using that \<open>n < 64\<close> by simp
    then show ?thesis using d that by metis
  qed
  ultimately show "trailing_zeros w < 64" "bit w (trailing_zeros w)" "\<And>n. n < trailing_zeros w \<Longrightarrow> \<not> bit w n"
    using t d by simp_all
qed

lemma linux_signal_bit_of_nat: "n < 64 \<Longrightarrow> linux_signal_bit (of_nat n + 1) = push_bit n 1"
proof -
  assume n: "n < 64"
  then have "unat (of_nat n :: usize) = n" by (simp add: unat_of_nat)
  moreover have "unat (of_nat n + 1 :: usize) = Suc n" using n by (simp add: unat_word_ariths unat_of_nat)
  ultimately show ?thesis using n by (simp add: linux_signal_bit_def LINUX_MAX_SIGNAL_def word_le_nat_alt)
qed

function scan_standard :: "u64 \<Rightarrow> (usize \<Rightarrow> bool) \<Rightarrow> u64 \<Rightarrow> usize option" where
  "scan_standard reserved eligible standard =
     (if standard = 0 then None
      else
        let signum = of_nat (trailing_zeros standard) + 1
        in if reserved AND linux_signal_bit signum = 0 \<and> eligible signum then Some signum
           else scan_standard reserved eligible (standard AND NOT (linux_signal_bit signum)))"
  by pat_completeness auto
termination
proof (relation "measure (\<lambda>(reserved, eligible, standard). card {n. bit standard n})", goal_cases)
  case (2 reserved eligible standard signum)
  note t = trailing_zeros_bit [OF 2(1)]
  have "{n. bit (standard AND NOT (linux_signal_bit signum)) n} \<subset> {n. bit standard n}"
    using t 2(2) linux_signal_bit_of_nat [OF t(1)] by (auto simp: bit_simps)
  moreover have "finite {n. bit standard n}" by (rule finite_subset [of _ "{..<64}"]) (auto dest: bit_imp_le_length)
  ultimately show ?case by (simp add: psubset_card_mono)
qed simp

declare scan_standard.simps [simp del]

definition lowest_step ::
  "LinuxPendingSignal list \<Rightarrow> (LinuxPendingSignal \<Rightarrow> bool) \<Rightarrow> nat \<times> LinuxPendingSignal \<Rightarrow> nat option \<Rightarrow> nat option" where
  "lowest_step pending eligible = (\<lambda>(index, record) selected.
     if \<not> eligible record then selected
     else if (case selected of None \<Rightarrow> True | Some selected_index \<Rightarrow> ps_signum record < ps_signum (pending ! selected_index))
     then Some index else selected)"

definition lowest_linux_pending_index :: "LinuxPendingSignal list \<Rightarrow> (LinuxPendingSignal \<Rightarrow> bool) \<Rightarrow> nat option" where
  "lowest_linux_pending_index pending eligible = fold (lowest_step pending eligible) (List.enumerate 0 pending) None"

definition lowest_realtime :: "(usize \<Rightarrow> bool) \<Rightarrow> LinuxPendingSignals \<Rightarrow> nat option" where
  "lowest_realtime eligible p =
     lowest_linux_pending_index (take (realtime_len p) (realtime_pending p)) (\<lambda>record. eligible (ps_signum record))"

definition peek_eligible :: "(usize \<Rightarrow> bool) \<Rightarrow> LinuxPendingSignals \<Rightarrow> LinuxPendingSignal option" where
  "peek_eligible eligible p =
     (case scan_standard (standard_reserved p) eligible (standard_pending p) of
        Some signum \<Rightarrow> Some (standard_records p ! unat signum)
      | None \<Rightarrow> map_option (\<lambda>index. realtime_pending p ! index) (lowest_realtime eligible p))"

text \<open>The removal of the record at an index of the realtime queue.\<close>

definition remove_realtime_index :: "nat \<Rightarrow> LinuxPendingSignals \<Rightarrow> LinuxPendingSignals" where
  "remove_realtime_index index p =
     p\<lparr>realtime_pending := (shift_down index (realtime_len p) (realtime_pending p))[realtime_len p - 1 := EMPTY_SIGNAL],
       realtime_sequences := (shift_down index (realtime_len p) (realtime_sequences p))[realtime_len p - 1 := 0],
       realtime_len := realtime_len p - 1\<rparr>"

definition take_eligible :: "(usize \<Rightarrow> bool) \<Rightarrow> LinuxPendingSignals \<Rightarrow> LinuxPendingSignals \<times> LinuxPendingSignal option" where
  "take_eligible eligible p =
     (case scan_standard (standard_reserved p) eligible (standard_pending p) of
        Some signum \<Rightarrow>
          (p\<lparr>standard_pending := standard_pending p AND NOT (linux_signal_bit signum),
             standard_records := (standard_records p)[unat signum := EMPTY_SIGNAL]\<rparr>,
           Some (standard_records p ! unat signum))
      | None \<Rightarrow>
          (case lowest_realtime eligible p of
             None \<Rightarrow> (p, None)
           | Some index \<Rightarrow> (remove_realtime_index index p, Some (realtime_pending p ! index))))"

definition take_eligible_reserved ::
  "(usize \<Rightarrow> bool) \<Rightarrow> LinuxPendingSignals \<Rightarrow> LinuxPendingSignals \<times> (LinuxPendingSignal \<times> LinuxPendingSignalReservation) option" where
  "take_eligible_reserved eligible p =
     (case scan_standard (standard_reserved p) eligible (standard_pending p) of
        Some signum \<Rightarrow>
          (p\<lparr>standard_pending := standard_pending p AND NOT (linux_signal_bit signum),
             standard_reserved := standard_reserved p OR linux_signal_bit signum,
             standard_records := (standard_records p)[unat signum := EMPTY_SIGNAL]\<rparr>,
           Some (standard_records p ! unat signum, ResStandard signum))
      | None \<Rightarrow>
          (case lowest_realtime eligible p of
             None \<Rightarrow> (p, None)
           | Some index \<Rightarrow>
               let record = realtime_pending p ! index; sequence = realtime_sequences p ! index
               in (case reserve_realtime_sequence sequence p of
                     (p, Inl _) \<Rightarrow> (p, None)
                   | (p, Inr _) \<Rightarrow> (remove_realtime_index index p, Some (record, ResRealtime sequence)))))"

definition mask_matches :: "u64 \<Rightarrow> usize \<Rightarrow> bool" where
  "mask_matches wait_mask signum = (wait_mask AND linux_signal_bit signum \<noteq> 0)"

definition peek_matching :: "u64 \<Rightarrow> LinuxPendingSignals \<Rightarrow> LinuxPendingSignal option" where
  "peek_matching wait_mask = peek_eligible (mask_matches wait_mask)"

definition take_matching :: "u64 \<Rightarrow> LinuxPendingSignals \<Rightarrow> LinuxPendingSignals \<times> LinuxPendingSignal option" where
  "take_matching wait_mask = take_eligible (mask_matches wait_mask)"

definition reserve_direct ::
  "LinuxPendingSignal \<Rightarrow> LinuxPendingSignals
     \<Rightarrow> LinuxPendingSignals \<times> (LinuxSignalRouteError + LinuxPendingSignalReservation option)" where
  "reserve_direct record p =
     (if \<not> (1 \<le> ps_signum record \<and> ps_signum record \<le> LINUX_MAX_SIGNAL) then (p, Inl InvalidSignal)
      else if ps_signum record < LINUX_REALTIME_SIGNAL_MIN then
        let bit = linux_signal_bit (ps_signum record)
        in if standard_reserved p AND bit \<noteq> 0
           then (case pending_queue record p of (p, Inl e) \<Rightarrow> (p, Inl e) | (p, Inr _) \<Rightarrow> (p, Inr None))
           else (p\<lparr>standard_reserved := standard_reserved p OR bit\<rparr>, Inr (Some (ResStandard (ps_signum record))))
      else if LINUX_RT_QUEUE_LIMIT \<le> realtime_len p + realtime_reserved p then (p, Inl QueueFull)
      else
        (case allocate_realtime_sequence p of
           (p, Inl e) \<Rightarrow> (p, Inl e)
         | (p, Inr sequence) \<Rightarrow>
             (case reserve_realtime_sequence sequence p of
                (p, Inl e) \<Rightarrow> (p, Inl e)
              | (p, Inr _) \<Rightarrow> (p, Inr (Some (ResRealtime sequence))))))"

definition take_matching_reserved ::
  "u64 \<Rightarrow> LinuxPendingSignals \<Rightarrow> LinuxPendingSignals \<times> (LinuxPendingSignal \<times> LinuxPendingSignalReservation) option" where
  "take_matching_reserved wait_mask = take_eligible_reserved (mask_matches wait_mask)"

definition commit_reservation ::
  "LinuxPendingSignalReservation \<Rightarrow> LinuxPendingSignals \<Rightarrow> LinuxPendingSignals \<times> (LinuxSignalRouteError + unit)" where
  "commit_reservation reservation p =
     (case reservation of
        ResStandard signum \<Rightarrow>
          let bit = linux_signal_bit signum
          in if \<not> (1 \<le> signum \<and> signum < LINUX_REALTIME_SIGNAL_MIN) \<or> standard_reserved p AND bit = 0
             then (p, Inl InvalidReservation)
             else (p\<lparr>standard_reserved := standard_reserved p AND NOT bit\<rparr>, Inr ())
      | ResRealtime sequence \<Rightarrow>
          (case release_realtime_sequence sequence p of
             (p, False) \<Rightarrow> (p, Inl InvalidReservation)
           | (p, True) \<Rightarrow> (p, Inr ())))"

definition requeue_front :: "LinuxPendingSignal \<Rightarrow> LinuxPendingSignals \<Rightarrow> LinuxPendingSignals \<times> (LinuxSignalRouteError + unit)" where
  "requeue_front record p =
     (if \<not> (1 \<le> ps_signum record \<and> ps_signum record \<le> LINUX_MAX_SIGNAL) then (p, Inl InvalidSignal)
      else if ps_signum record < LINUX_REALTIME_SIGNAL_MIN then
        (p\<lparr>standard_pending := standard_pending p OR linux_signal_bit (ps_signum record),
           standard_records := (standard_records p)[unat (ps_signum record) := record]\<rparr>, Inr ())
      else if LINUX_RT_QUEUE_LIMIT \<le> realtime_len p then (p, Inl QueueFull)
      else
        (case allocate_realtime_sequence p of
           (p, Inl e) \<Rightarrow> (p, Inl e)
         | (p, Inr sequence) \<Rightarrow>
             (p\<lparr>realtime_pending := (shift_up 0 (realtime_len p) (realtime_pending p))[0 := record],
                realtime_sequences := (shift_up 0 (realtime_len p) (realtime_sequences p))[0 := sequence],
                realtime_len := realtime_len p + 1\<rparr>, Inr ())))"

definition rollback_reservation ::
  "LinuxPendingSignalReservation \<Rightarrow> LinuxPendingSignal \<Rightarrow> LinuxPendingSignals \<Rightarrow> LinuxPendingSignals \<times> (LinuxSignalRouteError + unit)" where
  "rollback_reservation reservation record p =
     (case reservation of
        ResStandard signum \<Rightarrow>
          if signum = ps_signum record
          then (case commit_reservation reservation p of (p, Inl e) \<Rightarrow> (p, Inl e) | (p, Inr _) \<Rightarrow> requeue_front record p)
          else (p, Inl InvalidReservation)
      | ResRealtime sequence \<Rightarrow>
          if LINUX_REALTIME_SIGNAL_MIN \<le> ps_signum record
          then (case commit_reservation reservation p of
                  (p, Inl e) \<Rightarrow> (p, Inl e)
                | (p, Inr _) \<Rightarrow> insert_realtime_by_sequence sequence record p)
          else (p, Inl InvalidReservation))"

text \<open>The compaction loop of \<open>discard\<close>, from the read position on.\<close>

fun discard_loop ::
  "usize \<Rightarrow> nat list \<Rightarrow> nat \<Rightarrow> LinuxPendingSignal list \<Rightarrow> u64 list \<Rightarrow> nat \<times> LinuxPendingSignal list \<times> u64 list" where
  "discard_loop signum [] write pending sequences = (write, pending, sequences)"
| "discard_loop signum (read # reads) write pending sequences =
     (if ps_signum (pending ! read) \<noteq> signum
      then discard_loop signum reads (write + 1) (pending[write := pending ! read]) (sequences[write := sequences ! read])
      else discard_loop signum reads write pending sequences)"

definition pending_discard :: "usize \<Rightarrow> LinuxPendingSignals \<Rightarrow> LinuxPendingSignals" where
  "pending_discard signum p =
     (let records = (if signum < LINUX_REALTIME_SIGNAL_MIN then (standard_records p)[unat signum := EMPTY_SIGNAL] else standard_records p);
          (write, pending, sequences) = discard_loop signum [0..<realtime_len p] 0 (realtime_pending p) (realtime_sequences p)
      in p\<lparr>standard_pending := standard_pending p AND NOT (linux_signal_bit signum), standard_records := records,
           realtime_pending := fold (\<lambda>index xs. xs[index := EMPTY_SIGNAL]) [write..<realtime_len p] pending,
           realtime_sequences := fold (\<lambda>index xs. xs[index := 0]) [write..<realtime_len p] sequences,
           realtime_len := write\<rparr>)"

definition discard_stop_signals :: "LinuxPendingSignals \<Rightarrow> LinuxPendingSignals" where
  "discard_stop_signals p = fold pending_discard [19, 20, 21, 22] p"

subsection \<open>Waiting for signals and running handlers\<close>

datatype LinuxSignalWaitOutcome = SwWaiting | SwSignal | SwTimedOut | SwInterrupted

record LinuxSignalWait =
  sw_wait_mask :: u64
  sw_deadline :: "u64 option"
  sw_output_address :: usize
  sw_previous_mask :: "u64 option"
  sw_outcome :: LinuxSignalWaitOutcome
  sw_signal :: LinuxPendingSignal
  sw_signal_source :: "LinuxPendingSignalSource option"
  sw_signal_reservation :: "LinuxPendingSignalReservation option"

definition signal_wait_timed :: "u64 \<Rightarrow> u64 option \<Rightarrow> usize \<Rightarrow> LinuxSignalWait" where
  "signal_wait_timed wait_mask deadline output_address =
     \<lparr>sw_wait_mask = wait_mask, sw_deadline = deadline, sw_output_address = output_address, sw_previous_mask = None,
      sw_outcome = SwWaiting, sw_signal = EMPTY_SIGNAL, sw_signal_source = None, sw_signal_reservation = None\<rparr>"

definition signal_wait_suspend :: "u64 \<Rightarrow> u64 \<Rightarrow> LinuxSignalWait" where
  "signal_wait_suspend wait_mask previous_mask =
     \<lparr>sw_wait_mask = wait_mask, sw_deadline = None, sw_output_address = 0, sw_previous_mask = Some previous_mask,
      sw_outcome = SwWaiting, sw_signal = EMPTY_SIGNAL, sw_signal_source = None, sw_signal_reservation = None\<rparr>"

definition wait_accepts :: "LinuxSignalWait \<Rightarrow> usize \<Rightarrow> bool" where
  "wait_accepts wait signum = (sw_outcome wait = SwWaiting \<and> sw_wait_mask wait AND linux_signal_bit signum \<noteq> 0)"

datatype LinuxRestartTimeout = RestartUnset | RestartInfinite | RestartDeadline u64 bool

record LinuxRestartBlock =
  rb_syscall_number :: u64
  rb_arguments :: "u64 list"
  rb_svc_address :: u64
  rb_timeout :: LinuxRestartTimeout

definition LINUX_SS_ONSTACK :: u64 where "LINUX_SS_ONSTACK = 1"
definition LINUX_SS_DISABLE :: u64 where "LINUX_SS_DISABLE = 2"
definition LINUX_SIGNAL_FRAME_LIMIT :: nat where "LINUX_SIGNAL_FRAME_LIMIT = 16"

record LinuxSignalStack =
  st_sp :: u64
  st_flags :: u32
  st_padding :: u32
  st_size :: u64

definition STACK_DISABLED :: LinuxSignalStack where
  "STACK_DISABLED = \<lparr>st_sp = 0, st_flags = ucast LINUX_SS_DISABLE, st_padding = 0, st_size = 0\<rparr>"

text \<open>The addresses of the frame, of the signal information and of the context on a user stack.\<close>

definition linux_aarch64_signal_user_frame :: "u64 \<Rightarrow> u64 \<Rightarrow> (u64 \<times> u64 \<times> u64) option" where
  "linux_aarch64_signal_user_frame ucontext_bytes stack_top =
     (let frame_bytes = of_nat LINUX_SIGNAL_INFO_BYTES + ucontext_bytes
      in Option.bind (checked_sub stack_top frame_bytes) (\<lambda>frame_base.
           let frame_base = frame_base AND NOT 0xf
           in map_option (\<lambda>context. (frame_base, frame_base, context)) (checked_add frame_base (of_nat LINUX_SIGNAL_INFO_BYTES))))"

record LinuxSignalFrame =
  fr_regs :: "u64 list"
  fr_return_pc :: u64
  fr_previous_mask :: u64
  fr_user_sp :: u64
  fr_previous_stack_flags :: u64
  fr_restart :: "LinuxRestartBlock option"

definition EMPTY_FRAME :: LinuxSignalFrame where
  "EMPTY_FRAME =
     \<lparr>fr_regs = replicate 32 0, fr_return_pc = 0, fr_previous_mask = 0, fr_user_sp = 0, fr_previous_stack_flags = LINUX_SS_DISABLE,
      fr_restart = None\<rparr>"

record LinuxTaskSignalState =
  sig_mask :: u64
  sig_pending :: LinuxPendingSignals
  sig_alt_stack :: LinuxSignalStack
  sig_frames :: "LinuxSignalFrame list"
  sig_timer_notifications :: "(usize \<times> u32) option list"
  sig_frame_depth :: nat
  sig_sigreturn_requested :: bool
  sig_signal_wait :: "LinuxSignalWait option"
  sig_restart_block :: "LinuxRestartBlock option"
  sig_suspend_restore_mask :: "u64 option"

definition task_signal_state_new :: LinuxTaskSignalState where
  "task_signal_state_new =
     \<lparr>sig_mask = 0, sig_pending = pending_new, sig_alt_stack = STACK_DISABLED,
      sig_frames = replicate LINUX_SIGNAL_FRAME_LIMIT EMPTY_FRAME, sig_timer_notifications = replicate LINUX_SIGNAL_FRAME_LIMIT None,
      sig_frame_depth = 0, sig_sigreturn_requested = False, sig_signal_wait = None, sig_restart_block = None,
      sig_suspend_restore_mask = None\<rparr>"

definition signal_state_reset_in_place :: "LinuxTaskSignalState \<Rightarrow> LinuxTaskSignalState" where
  "signal_state_reset_in_place s =
     \<lparr>sig_mask = 0, sig_pending = pending_reset_in_place (sig_pending s),
      sig_alt_stack = \<lparr>st_sp = 0, st_flags = ucast LINUX_SS_DISABLE, st_padding = 0, st_size = 0\<rparr>,
      sig_frames = map (\<lambda>frame. \<lparr>fr_regs = map (\<lambda>_. 0) (fr_regs frame), fr_return_pc = 0, fr_previous_mask = 0, fr_user_sp = 0,
        fr_previous_stack_flags = LINUX_SS_DISABLE, fr_restart = None\<rparr>) (sig_frames s),
      sig_timer_notifications = map (\<lambda>_. None) (sig_timer_notifications s), sig_frame_depth = 0, sig_sigreturn_requested = False,
      sig_signal_wait = None, sig_restart_block = None, sig_suspend_restore_mask = None\<rparr>"

definition unblocked :: "LinuxTaskSignalState \<Rightarrow> usize \<Rightarrow> bool" where
  "unblocked s signum = (sig_mask s AND linux_signal_bit signum = 0)"

definition peek_unblocked :: "LinuxTaskSignalState \<Rightarrow> LinuxPendingSignal option" where
  "peek_unblocked s = peek_eligible (unblocked s) (sig_pending s)"

definition on_pending :: "(LinuxPendingSignals \<Rightarrow> LinuxPendingSignals \<times> 'r) \<Rightarrow> LinuxTaskSignalState \<Rightarrow> LinuxTaskSignalState \<times> 'r" where
  "on_pending operation s = (case operation (sig_pending s) of (p, r) \<Rightarrow> (s\<lparr>sig_pending := p\<rparr>, r))"

definition signal_queue :: "LinuxPendingSignal \<Rightarrow> LinuxTaskSignalState \<Rightarrow> LinuxTaskSignalState \<times> (LinuxSignalRouteError + unit)" where
  "signal_queue record = on_pending (pending_queue record)"

definition take_unblocked :: "LinuxTaskSignalState \<Rightarrow> LinuxTaskSignalState \<times> LinuxPendingSignal option" where
  "take_unblocked s = on_pending (take_eligible (unblocked s)) s"

definition take_unblocked_reserved ::
  "LinuxTaskSignalState \<Rightarrow> LinuxTaskSignalState \<times> (LinuxPendingSignal \<times> LinuxPendingSignalReservation) option" where
  "take_unblocked_reserved s = on_pending (take_eligible_reserved (unblocked s)) s"

definition matching_signum :: "u64 \<Rightarrow> LinuxTaskSignalState \<Rightarrow> usize option" where
  "matching_signum wait_mask s = map_option ps_signum (peek_matching wait_mask (sig_pending s))"

definition install_signal_wait :: "LinuxSignalWait \<Rightarrow> LinuxTaskSignalState \<Rightarrow> LinuxTaskSignalState \<times> bool" where
  "install_signal_wait wait s =
     (if sw_outcome wait \<noteq> SwWaiting \<or> sig_signal_wait s \<noteq> None then (s, False) else (s\<lparr>sig_signal_wait := Some wait\<rparr>, True))"

definition signal_wait_accepts :: "LinuxTaskSignalState \<Rightarrow> usize \<Rightarrow> bool" where
  "signal_wait_accepts s signum = (case sig_signal_wait s of None \<Rightarrow> False | Some wait \<Rightarrow> wait_accepts wait signum)"

definition complete_signal_wait ::
  "LinuxPendingSignal \<Rightarrow> LinuxPendingSignalSource \<Rightarrow> LinuxPendingSignalReservation \<Rightarrow> LinuxTaskSignalState
     \<Rightarrow> LinuxTaskSignalState \<times> bool" where
  "complete_signal_wait record source reservation s =
     (case sig_signal_wait s of
        None \<Rightarrow> (s, False)
      | Some wait \<Rightarrow>
          if sw_previous_mask wait \<noteq> None \<or> \<not> wait_accepts wait (ps_signum record) then (s, False)
          else (s\<lparr>sig_signal_wait := Some (wait\<lparr>sw_signal := record, sw_signal_source := Some source,
                  sw_signal_reservation := Some reservation, sw_outcome := SwSignal\<rparr>)\<rparr>, True))"

definition timed_wait_interrupted_by :: "LinuxTaskSignalState \<Rightarrow> usize \<Rightarrow> bool" where
  "timed_wait_interrupted_by s signum =
     (case sig_signal_wait s of
        None \<Rightarrow> False
      | Some wait \<Rightarrow>
          sw_previous_mask wait = None \<and> sw_outcome wait = SwWaiting \<and> \<not> wait_accepts wait signum
          \<and> sig_mask s AND linux_signal_bit signum = 0)"

definition interrupt_timed_signal_wait :: "usize \<Rightarrow> LinuxTaskSignalState \<Rightarrow> LinuxTaskSignalState \<times> bool" where
  "interrupt_timed_signal_wait signum s =
     (if \<not> timed_wait_interrupted_by s signum then (s, False)
      else
        (case sig_signal_wait s of
           None \<Rightarrow> (s, False)
         | Some wait \<Rightarrow> (s\<lparr>sig_signal_wait := Some (wait\<lparr>sw_outcome := SwInterrupted\<rparr>)\<rparr>, True)))"

definition interrupt_signal_suspend :: "usize \<Rightarrow> LinuxTaskSignalState \<Rightarrow> LinuxTaskSignalState \<times> bool" where
  "interrupt_signal_suspend signum s =
     (case sig_signal_wait s of
        None \<Rightarrow> (s, False)
      | Some wait \<Rightarrow>
          if sw_previous_mask wait = None \<or> \<not> wait_accepts wait signum then (s, False)
          else (s\<lparr>sig_signal_wait := Some (wait\<lparr>sw_outcome := SwInterrupted\<rparr>)\<rparr>, True))"

definition expire_signal_wait :: "u64 \<Rightarrow> LinuxTaskSignalState \<Rightarrow> LinuxTaskSignalState \<times> bool" where
  "expire_signal_wait now s =
     (case sig_signal_wait s of
        None \<Rightarrow> (s, False)
      | Some wait \<Rightarrow>
          if sw_previous_mask wait \<noteq> None \<or> sw_outcome wait \<noteq> SwWaiting
             \<or> \<not> (case sw_deadline wait of None \<Rightarrow> False | Some deadline \<Rightarrow> deadline \<le> now)
          then (s, False)
          else (s\<lparr>sig_signal_wait := Some (wait\<lparr>sw_outcome := SwTimedOut\<rparr>)\<rparr>, True))"

definition take_signal_wait_outcome :: "LinuxTaskSignalState \<Rightarrow> LinuxTaskSignalState \<times> LinuxSignalWait option" where
  "take_signal_wait_outcome s =
     (case sig_signal_wait s of
        None \<Rightarrow> (s, None)
      | Some wait \<Rightarrow>
          if sw_outcome wait = SwWaiting then (s, None)
          else
            let s = s\<lparr>sig_signal_wait := None\<rparr>
            in (if sw_outcome wait = SwInterrupted then s\<lparr>sig_suspend_restore_mask := sw_previous_mask wait\<rparr> else s, Some wait))"

definition cancel_signal_wait :: "LinuxTaskSignalState \<Rightarrow> LinuxTaskSignalState \<times> bool" where
  "cancel_signal_wait s =
     (case sig_signal_wait s of
        None \<Rightarrow> (s, False)
      | Some wait \<Rightarrow>
          let s = s\<lparr>sig_signal_wait := None\<rparr>
          in ((case sw_previous_mask wait of None \<Rightarrow> s | Some previous_mask \<Rightarrow> s\<lparr>sig_mask := previous_mask\<rparr>), True))"

definition take_suspend_restore_mask :: "LinuxTaskSignalState \<Rightarrow> LinuxTaskSignalState \<times> u64 option" where
  "take_suspend_restore_mask s = (s\<lparr>sig_suspend_restore_mask := None\<rparr>, sig_suspend_restore_mask s)"

definition install_restart_block :: "LinuxRestartBlock \<Rightarrow> LinuxTaskSignalState \<Rightarrow> LinuxTaskSignalState \<times> bool" where
  "install_restart_block restart s =
     (if (case sig_restart_block s of
            None \<Rightarrow> False
          | Some current \<Rightarrow>
              rb_syscall_number current = rb_syscall_number restart \<and> rb_arguments current = rb_arguments restart
              \<and> rb_svc_address current = rb_svc_address restart)
      then (s, True)
      else (s\<lparr>sig_restart_block := Some restart\<rparr>, True))"

definition set_restart_timeout :: "LinuxRestartTimeout \<Rightarrow> LinuxTaskSignalState \<Rightarrow> LinuxTaskSignalState \<times> bool" where
  "set_restart_timeout timeout s =
     (case sig_restart_block s of
        None \<Rightarrow> (s, False)
      | Some restart \<Rightarrow> (s\<lparr>sig_restart_block := Some (restart\<lparr>rb_timeout := timeout\<rparr>)\<rparr>, True))"

definition restart_timeout :: "LinuxTaskSignalState \<Rightarrow> LinuxRestartTimeout option" where
  "restart_timeout s = map_option rb_timeout (sig_restart_block s)"

definition clear_restart_block :: "LinuxTaskSignalState \<Rightarrow> LinuxTaskSignalState \<times> bool" where
  "clear_restart_block s = (s\<lparr>sig_restart_block := None\<rparr>, sig_restart_block s \<noteq> None)"

definition take_restart_for_signal :: "bool \<Rightarrow> LinuxTaskSignalState \<Rightarrow> LinuxTaskSignalState \<times> LinuxRestartBlock option" where
  "take_restart_for_signal restart_action s =
     (s\<lparr>sig_restart_block := None\<rparr>, if restart_action then sig_restart_block s else None)"

definition signal_requeue_front :: "LinuxPendingSignal \<Rightarrow> LinuxTaskSignalState \<Rightarrow> LinuxTaskSignalState \<times> (LinuxSignalRouteError + unit)" where
  "signal_requeue_front record = on_pending (requeue_front record)"

definition signal_discard :: "usize \<Rightarrow> LinuxTaskSignalState \<Rightarrow> LinuxTaskSignalState" where
  "signal_discard signum s = s\<lparr>sig_pending := pending_discard signum (sig_pending s)\<rparr>"

definition push_frame :: "LinuxSignalFrame \<Rightarrow> LinuxTaskSignalState \<Rightarrow> LinuxTaskSignalState \<times> nat option" where
  "push_frame frame s =
     (if LINUX_SIGNAL_FRAME_LIMIT \<le> sig_frame_depth s then (s, None)
      else (s\<lparr>sig_frames := (sig_frames s)[sig_frame_depth s := frame], sig_frame_depth := sig_frame_depth s + 1\<rparr>,
            Some (sig_frame_depth s)))"

definition defer_timer_notification :: "nat \<Rightarrow> (usize \<times> u32) option \<Rightarrow> LinuxTaskSignalState \<Rightarrow> LinuxTaskSignalState \<times> bool" where
  "defer_timer_notification frame_depth identity s =
     (if sig_frame_depth s \<le> frame_depth \<or> length (sig_timer_notifications s) \<le> frame_depth then (s, False)
      else (s\<lparr>sig_timer_notifications := (sig_timer_notifications s)[frame_depth := identity]\<rparr>, True))"

definition request_sigreturn :: "LinuxTaskSignalState \<Rightarrow> LinuxTaskSignalState \<times> bool" where
  "request_sigreturn s = (if sig_frame_depth s = 0 then (s, False) else (s\<lparr>sig_sigreturn_requested := True\<rparr>, True))"

definition take_requested_frame_with_timer_notification ::
  "LinuxTaskSignalState \<Rightarrow> LinuxTaskSignalState \<times> (LinuxSignalFrame \<times> (usize \<times> u32) option) option" where
  "take_requested_frame_with_timer_notification s =
     (if \<not> sig_sigreturn_requested s then (s, None)
      else
        let s = s\<lparr>sig_sigreturn_requested := False\<rparr>
        in if sig_frame_depth s = 0 then (s, None)
           else
             let depth = sig_frame_depth s - 1;
                 frame = sig_frames s ! depth;
                 identity = sig_timer_notifications s ! depth;
                 s = s\<lparr>sig_frame_depth := depth, sig_frames := (sig_frames s)[depth := EMPTY_FRAME],
                       sig_timer_notifications := (sig_timer_notifications s)[depth := None]\<rparr>
             in ((case fr_restart frame of None \<Rightarrow> s | Some restart \<Rightarrow> fst (install_restart_block restart s)),
                 Some (frame, identity)))"

subsection \<open>The scans\<close>

lemma and_bit_eq_0: "x AND 2 ^ n = 0 \<longleftrightarrow> \<not> bit x n" for x :: u64
  by (simp add: bit_iff_and_push_bit_not_eq_0)

lemma find_upt_iff:
  "List.find P [0..<k] = Some n \<longleftrightarrow> n < k \<and> P n \<and> (\<forall>m<n. \<not> P m)"
  by (auto simp: find_Some_iff)

lemma find_upt_None: "List.find P [0..<k] = None \<longleftrightarrow> (\<forall>n<k. \<not> P n)"
  by (auto simp: find_None_iff)

lemma scan_standard_find:
  "scan_standard reserved eligible standard =
     map_option (\<lambda>n. of_nat n + 1)
       (List.find (\<lambda>n. bit standard n \<and> \<not> bit reserved n \<and> eligible (of_nat n + 1)) [0..<64])"
proof (induction reserved eligible standard rule: scan_standard.induct)
  case (1 reserved eligible standard)
  let ?P = "\<lambda>s n. bit s n \<and> \<not> bit reserved n \<and> eligible (of_nat n + 1)"
  show ?case
  proof (cases "standard = 0")
    case True
    then have "List.find (?P standard) [0..<64] = None" by (simp add: find_upt_None)
    then show ?thesis using True by (simp add: scan_standard.simps)
  next
    case False
    let ?n = "trailing_zeros standard"
    note t = trailing_zeros_bit [OF False]
    note b = linux_signal_bit_of_nat [OF t(1)]
    show ?thesis
    proof (cases "?P standard ?n")
      case True
      then have "List.find (?P standard) [0..<64] = Some ?n" using t by (simp add: find_upt_iff)
      then show ?thesis using True False b by (simp add: scan_standard.simps [of reserved eligible standard] and_bit_eq_0 Let_def)
    next
      case np: False
      let ?s = "standard AND NOT (2 ^ ?n)"
      have same: "?P ?s m = ?P standard m" if "m < 64" for m using np that by (auto simp: bit_simps)
      have "List.find (?P ?s) [0..<64] = List.find (?P standard) [0..<64]" by (rule find_cong [OF refl]) (use same in auto)
      then show ?thesis using 1 False np b t(2)
        by (auto simp: scan_standard.simps [of reserved eligible standard] and_bit_eq_0 Let_def)
    qed
  qed
qed

lemma lowest_scan:
  assumes "\<And>i. i < length xs \<Longrightarrow> xs ! i = ys ! i"
  shows "case fold (lowest_step ys eligible) (List.enumerate 0 xs) None of
      None \<Rightarrow> \<forall>i<length xs. \<not> eligible (ys ! i)
    | Some k \<Rightarrow> k < length xs \<and> eligible (ys ! k) \<and> (\<forall>i<length xs. eligible (ys ! i) \<longrightarrow> ps_signum (ys ! k) \<le> ps_signum (ys ! i))
        \<and> (\<forall>i<k. eligible (ys ! i) \<longrightarrow> ps_signum (ys ! k) < ps_signum (ys ! i))"
  using assms
proof (induction xs rule: rev_induct)
  case (snoc x xs)
  let ?r = "fold (lowest_step ys eligible) (List.enumerate 0 xs) None"
  have ih: "case ?r of
      None \<Rightarrow> \<forall>i<length xs. \<not> eligible (ys ! i)
    | Some k \<Rightarrow> k < length xs \<and> eligible (ys ! k) \<and> (\<forall>i<length xs. eligible (ys ! i) \<longrightarrow> ps_signum (ys ! k) \<le> ps_signum (ys ! i))
        \<and> (\<forall>i<k. eligible (ys ! i) \<longrightarrow> ps_signum (ys ! k) < ps_signum (ys ! i))"
  proof (rule snoc.IH)
    fix i assume "i < length xs"
    then show "xs ! i = ys ! i" using snoc.prems [of i] by (simp add: nth_append)
  qed
  have x: "ys ! length xs = x" using snoc.prems [of "length xs"] by (simp add: nth_append)
  have f: "fold (lowest_step ys eligible) (List.enumerate 0 (xs @ [x])) None = lowest_step ys eligible (length xs, x) ?r" by (simp add: enumerate_append_eq)
  show ?case
  proof (cases ?r)
    case None
    then show ?thesis using ih x unfolding f by (auto simp: lowest_step_def less_Suc_eq)
  next
    case (Some k)
    then show ?thesis using ih x unfolding f by (auto simp: lowest_step_def less_Suc_eq not_less)
  qed
qed simp

lemma lowest_index_Some:
  assumes "lowest_linux_pending_index ys eligible = Some k"
  shows "k < length ys" "eligible (ys ! k)" "\<And>i. i < length ys \<Longrightarrow> eligible (ys ! i) \<Longrightarrow> ps_signum (ys ! k) \<le> ps_signum (ys ! i)"
    "\<And>i. i < k \<Longrightarrow> eligible (ys ! i) \<Longrightarrow> ps_signum (ys ! k) < ps_signum (ys ! i)"
  using lowest_scan [of ys ys eligible] assms by (simp_all add: lowest_linux_pending_index_def)

lemma lowest_index_None:
  "lowest_linux_pending_index ys eligible = None \<longleftrightarrow> (\<forall>y\<in>set ys. \<not> eligible y)"
proof
  assume "lowest_linux_pending_index ys eligible = None"
  then show "\<forall>y\<in>set ys. \<not> eligible y"
    using lowest_scan [of ys ys eligible] by (auto simp: lowest_linux_pending_index_def in_set_conv_nth)
next
  assume "\<forall>y\<in>set ys. \<not> eligible y"
  then show "lowest_linux_pending_index ys eligible = None"
    using lowest_index_Some(1,2) [of ys eligible] by (cases "lowest_linux_pending_index ys eligible") force+
qed

subsection \<open>Arrays with an unused end\<close>

definition padded :: "'a \<Rightarrow> nat \<Rightarrow> 'a list \<Rightarrow> nat \<Rightarrow> bool" where
  "padded e N xs n = (length xs = N \<and> n \<le> N \<and> drop n xs = replicate (N - n) e)"

lemma paddedI:
  assumes "length xs = N" "n \<le> N" "\<And>k. n \<le> k \<Longrightarrow> k < N \<Longrightarrow> xs ! k = e"
  shows "padded e N xs n"
  unfolding padded_def using assms by (auto intro!: nth_equalityI)

lemma padded_nth: "padded e N xs n \<Longrightarrow> n \<le> k \<Longrightarrow> k < N \<Longrightarrow> xs ! k = e"
proof -
  assume p: "padded e N xs n" "n \<le> k" "k < N"
  have "drop n xs ! (k - n) = xs ! (n + (k - n))" using p by (intro nth_drop) (simp add: padded_def)
  moreover have "replicate (N - n) e ! (k - n) = e" using p by (intro nth_replicate) simp
  ultimately show ?thesis using p by (simp add: padded_def)
qed

lemma padded_eq: "padded e N xs n \<Longrightarrow> padded e N ys n \<Longrightarrow> take n xs = take n ys \<Longrightarrow> xs = ys"
  by (metis append_take_drop_id padded_def)

lemma padded_take: "padded e N xs n \<Longrightarrow> length (take n xs) = n"
  by (simp add: padded_def)

lemma padded_push:
  assumes "padded e N xs n" "n < N"
  shows "padded e N (xs[n := x]) (n + 1)" "take (n + 1) (xs[n := x]) = take n xs @ [x]"
proof -
  have l: "length xs = N" using assms by (simp add: padded_def)
  show "padded e N (xs[n := x]) (n + 1)"
    by (rule paddedI) (use assms l padded_nth [OF assms(1)] in \<open>auto simp: nth_list_update\<close>)
  show "take (n + 1) (xs[n := x]) = take n xs @ [x]" using l assms(2) by (simp add: take_Suc_conv_app_nth)
qed

lemma padded_remove:
  assumes "padded e N xs n" "i < n"
  shows "padded e N ((shift_down i n xs)[n - 1 := e]) (n - 1)"
    "take (n - 1) ((shift_down i n xs)[n - 1 := e]) = vec_remove (take n xs) i"
proof -
  have l: "length xs = N" "n \<le> N" using assms by (simp_all add: padded_def)
  show "take (n - 1) ((shift_down i n xs)[n - 1 := e]) = vec_remove (take n xs) i"
    using take_shift_down(1) [of i n xs e] assms(2) l by simp
  have "n - 1 < length xs" using assms(2) l by simp
  note s = nth_shift_down [OF this, of i, folded shift_down_def]
  show "padded e N ((shift_down i n xs)[n - 1 := e]) (n - 1)"
    by (rule paddedI) (use s l assms(2) padded_nth [OF assms(1)] in \<open>auto simp: nth_list_update\<close>)
qed

lemma padded_insert:
  assumes "padded e N xs n" "n < N" "i \<le> n"
  shows "padded e N ((shift_up i n xs)[i := x]) (n + 1)" "take (n + 1) ((shift_up i n xs)[i := x]) = vec_insert (take n xs) i x"
proof -
  have l: "length xs = N" using assms by (simp add: padded_def)
  show "take (n + 1) ((shift_up i n xs)[i := x]) = vec_insert (take n xs) i x"
    using take_shift_up(1) [of i n xs x] assms l by simp
  have "i + (n - i) < length xs" using assms l by simp
  note s = nth_shift_up [OF this]
  have "i + (n - i) = n" using assms(3) by simp
  note s = s [unfolded this, folded shift_up_def]
  show "padded e N ((shift_up i n xs)[i := x]) (n + 1)"
    by (rule paddedI) (use s l assms(2,3) padded_nth [OF assms(1)] in \<open>auto simp: nth_list_update\<close>)
qed

lemma set_vec_insert [simp]: "set (vec_insert xs i x) = insert x (set xs)"
proof -
  have "set xs = set (take i xs) \<union> set (drop i xs)" by (metis append_take_drop_id set_append)
  then show ?thesis unfolding vec_insert_def by auto
qed

lemma length_vec_insert [simp]: "i \<le> length xs \<Longrightarrow> length (vec_insert xs i x) = Suc (length xs)"
  by (simp add: vec_insert_def)

lemma vec_insert_remove: "i < length xs \<Longrightarrow> vec_insert (vec_remove xs i) i (xs ! i) = xs"
  by (simp add: vec_insert_def vec_remove_def id_take_nth_drop [symmetric])

lemma sorted_vec_remove: "sorted_wrt R xs \<Longrightarrow> sorted_wrt R (vec_remove xs i)"
proof -
  assume s: "sorted_wrt R xs"
  show ?thesis
  proof (cases "i < length xs")
    case True
    then have "xs = take i xs @ xs ! i # drop (Suc i) xs" by (rule id_take_nth_drop)
    with s have "sorted_wrt R (take i xs @ xs ! i # drop (Suc i) xs)" by simp
    then show ?thesis by (auto simp: vec_remove_def sorted_wrt_append)
  next
    case False
    with s show ?thesis by (simp add: vec_remove_def)
  qed
qed

subsection \<open>The invariant of a signal queue\<close>

definition signal_typed :: "LinuxPendingSignal \<Rightarrow> bool" where
  "signal_typed record = (length (ps_info record) = LINUX_SIGNAL_INFO_BYTES)"

definition queued_signals :: "LinuxPendingSignals \<Rightarrow> LinuxPendingSignal list" where
  "queued_signals p = take (realtime_len p) (realtime_pending p)"

definition queued_sequences :: "LinuxPendingSignals \<Rightarrow> u64 list" where
  "queued_sequences p = take (realtime_len p) (realtime_sequences p)"

definition held_sequences :: "LinuxPendingSignals \<Rightarrow> u64 list" where
  "held_sequences p = take (realtime_reserved p) (realtime_reservations p)"

definition std_ok :: "u64 \<Rightarrow> u64 \<Rightarrow> LinuxPendingSignal list \<Rightarrow> bool" where
  "std_ok pending reserved records =
     (length records = 32 \<and> (\<forall>n. bit pending n \<longrightarrow> n < 31 \<and> ps_signum (records ! Suc n) = of_nat n + 1)
      \<and> (\<forall>n. bit reserved n \<longrightarrow> n < 31) \<and> (\<forall>record\<in>set records. signal_typed record))"

definition rt_ok :: "u64 \<Rightarrow> LinuxPendingSignal list \<Rightarrow> u64 list \<Rightarrow> u64 list \<Rightarrow> bool" where
  "rt_ok nxt recs seqs held =
     (length recs = length seqs \<and> length seqs + length held \<le> LINUX_RT_QUEUE_LIMIT
      \<and> (\<forall>record\<in>set recs. LINUX_REALTIME_SIGNAL_MIN \<le> ps_signum record \<and> ps_signum record \<le> LINUX_MAX_SIGNAL \<and> signal_typed record)
      \<and> sorted_wrt (<) seqs \<and> distinct held \<and> set held \<inter> set seqs = {}
      \<and> (\<forall>s\<in>set seqs \<union> set held. s \<noteq> 0 \<and> (nxt = 0 \<or> s < nxt)))"

definition pending_ok :: "LinuxPendingSignals \<Rightarrow> bool" where
  "pending_ok p =
     (std_ok (standard_pending p) (standard_reserved p) (standard_records p)
      \<and> padded EMPTY_SIGNAL LINUX_RT_QUEUE_LIMIT (realtime_pending p) (realtime_len p)
      \<and> padded 0 LINUX_RT_QUEUE_LIMIT (realtime_sequences p) (realtime_len p)
      \<and> padded 0 LINUX_RT_QUEUE_LIMIT (realtime_reservations p) (realtime_reserved p)
      \<and> rt_ok (next_realtime_sequence p) (queued_signals p) (queued_sequences p) (held_sequences p))"

text \<open>
  The weaker form of the invariant, which also holds after a realtime signal was put to the front of
  the queue with a new sequence number: then the queued and the reserved signals may be more than the
  table has places, and the sequence numbers are distinct but not ordered.  With \<open>tight\<close> it is
  the invariant itself.
\<close>

definition rt_shape :: "bool \<Rightarrow> u64 \<Rightarrow> LinuxPendingSignal list \<Rightarrow> u64 list \<Rightarrow> u64 list \<Rightarrow> bool" where
  "rt_shape tight nxt recs seqs held =
     (length recs = length seqs \<and> length seqs \<le> LINUX_RT_QUEUE_LIMIT \<and> length held \<le> LINUX_RT_QUEUE_LIMIT
      \<and> (\<forall>record\<in>set recs. LINUX_REALTIME_SIGNAL_MIN \<le> ps_signum record \<and> ps_signum record \<le> LINUX_MAX_SIGNAL \<and> signal_typed record)
      \<and> distinct seqs \<and> distinct held \<and> set held \<inter> set seqs = {}
      \<and> (\<forall>s\<in>set seqs \<union> set held. s \<noteq> 0 \<and> (nxt = 0 \<or> s < nxt))
      \<and> (tight \<longrightarrow> length seqs + length held \<le> LINUX_RT_QUEUE_LIMIT \<and> sorted_wrt (<) seqs))"

definition pending_shape :: "bool \<Rightarrow> LinuxPendingSignals \<Rightarrow> bool" where
  "pending_shape tight p =
     (std_ok (standard_pending p) (standard_reserved p) (standard_records p)
      \<and> padded EMPTY_SIGNAL LINUX_RT_QUEUE_LIMIT (realtime_pending p) (realtime_len p)
      \<and> padded 0 LINUX_RT_QUEUE_LIMIT (realtime_sequences p) (realtime_len p)
      \<and> padded 0 LINUX_RT_QUEUE_LIMIT (realtime_reservations p) (realtime_reserved p)
      \<and> rt_shape tight (next_realtime_sequence p) (queued_signals p) (queued_sequences p) (held_sequences p))"

lemma strict_sorted_distinct: "sorted_wrt (<) xs \<Longrightarrow> distinct xs" for xs :: "'a::linorder list"
  by (simp add: strict_sorted_iff)

lemma rt_ok_shape: "rt_ok nxt recs seqs held = rt_shape True nxt recs seqs held"
  using strict_sorted_distinct [of seqs] by (auto simp: rt_ok_def rt_shape_def)

lemma pending_ok_shape: "pending_ok p = pending_shape True p"
  by (simp add: pending_ok_def pending_shape_def rt_ok_shape)

lemmas queue_views = queued_signals_def queued_sequences_def held_sequences_def

lemma pending_shapeD:
  assumes "pending_shape tight p"
  shows "std_ok (standard_pending p) (standard_reserved p) (standard_records p)"
    "padded EMPTY_SIGNAL LINUX_RT_QUEUE_LIMIT (realtime_pending p) (realtime_len p)"
    "padded 0 LINUX_RT_QUEUE_LIMIT (realtime_sequences p) (realtime_len p)"
    "padded 0 LINUX_RT_QUEUE_LIMIT (realtime_reservations p) (realtime_reserved p)"
    "rt_shape tight (next_realtime_sequence p) (queued_signals p) (queued_sequences p) (held_sequences p)"
    "length (queued_signals p) = realtime_len p" "length (queued_sequences p) = realtime_len p"
    "length (held_sequences p) = realtime_reserved p"
  using assms by (auto simp: pending_shape_def padded_def queue_views)

lemma empty_signal_typed [simp]: "signal_typed EMPTY_SIGNAL"
  by (simp add: signal_typed_def EMPTY_SIGNAL_def)

lemma u64_max_cases:
  obtains "unat (s :: u64) < 2 ^ 64 - 1" | "unat s = 2 ^ 64 - 1"
proof -
  have "unat s < 2 ^ 64" using unsigned_less [of s] by simp
  then show thesis using that by linarith
qed

lemma next_sequence:
  fixes s :: u64
  shows "(case checked_add s 1 of None \<Rightarrow> 0 | Some n \<Rightarrow> n) = s + 1" "s + 1 = 0 \<or> s < s + 1"
  by (cases rule: u64_max_cases [of s];
      simp add: checked_add_def unat_word_ariths word_unat_eq_iff word_less_nat_alt)+

lemma rt_fresh:
  assumes "rt_shape tight nxt recs seqs held" "nxt \<noteq> 0"
  shows "nxt \<notin> set seqs \<union> set held" "\<And>s. s \<in> set seqs \<union> set held \<Longrightarrow> s < nxt"
    "\<And>s. s \<in> set seqs \<union> set held \<Longrightarrow> s \<noteq> 0 \<and> (nxt + 1 = 0 \<or> s < nxt + 1)" "nxt + 1 = 0 \<or> nxt < nxt + 1"
proof -
  show a: "s < nxt" if "s \<in> set seqs \<union> set held" for s using assms that by (auto simp: rt_shape_def)
  then show "nxt \<notin> set seqs \<union> set held" by blast
  show n: "nxt + 1 = 0 \<or> nxt < nxt + 1" by (rule next_sequence(2))
  show "s \<noteq> 0 \<and> (nxt + 1 = 0 \<or> s < nxt + 1)" if "s \<in> set seqs \<union> set held" for s
  proof
    show "s \<noteq> 0" using assms that by (auto simp: rt_shape_def)
    show "nxt + 1 = 0 \<or> s < nxt + 1" using a [OF that] n by (metis order.strict_trans)
  qed
qed

lemma rt_queue:
  assumes "rt_shape tight nxt recs seqs held" "nxt \<noteq> 0" "length seqs + length held < LINUX_RT_QUEUE_LIMIT"
    "LINUX_REALTIME_SIGNAL_MIN \<le> ps_signum r" "ps_signum r \<le> LINUX_MAX_SIGNAL" "signal_typed r"
  shows "rt_shape tight (nxt + 1) (recs @ [r]) (seqs @ [nxt]) held"
  using assms rt_fresh [OF assms(1,2)] unfolding rt_shape_def by (auto simp: sorted_wrt_append)

lemma rt_reserve:
  assumes "rt_shape tight nxt recs seqs held" "nxt \<noteq> 0" "length seqs + length held < LINUX_RT_QUEUE_LIMIT"
  shows "rt_shape tight (nxt + 1) recs seqs (held @ [nxt])"
  using assms rt_fresh [OF assms(1,2)] unfolding rt_shape_def by auto

lemma vec_remove_split:
  "i < length xs \<Longrightarrow> \<exists>us vs. xs = us @ xs ! i # vs \<and> vec_remove xs i = us @ vs"
  using id_take_nth_drop [of i xs] unfolding vec_remove_def by blast

lemma rt_remove:
  assumes "rt_shape tight nxt recs seqs held" "i < length seqs"
  shows "rt_shape tight nxt (vec_remove recs i) (vec_remove seqs i) held"
    "length held < LINUX_RT_QUEUE_LIMIT \<Longrightarrow> rt_shape tight nxt (vec_remove recs i) (vec_remove seqs i) (held @ [seqs ! i])"
proof -
  note s = sorted_vec_remove [of "(<)" seqs i]
  obtain us vs where u: "seqs = us @ seqs ! i # vs" "vec_remove seqs i = us @ vs" using vec_remove_split [OF assms(2)] by blast
  have "distinct seqs" using assms(1) by (simp add: rt_shape_def)
  then have "distinct (us @ seqs ! i # vs)" using u(1) by simp
  then have nin: "seqs ! i \<notin> set (vec_remove seqs i)" "distinct (vec_remove seqs i)" using u(2) by auto
  have sub: "set (vec_remove seqs i) \<subseteq> set seqs" "set (vec_remove recs i) \<subseteq> set recs" by (rule set_vec_remove)+
  have l: "length (vec_remove recs i) = length seqs - 1" "length (vec_remove seqs i) = length seqs - 1"
    using assms by (simp_all add: length_vec_remove rt_shape_def)
  have m: "seqs ! i \<in> set seqs" using assms(2) by simp
  show "rt_shape tight nxt (vec_remove recs i) (vec_remove seqs i) held" using assms s sub l nin(2) unfolding rt_shape_def by auto
  show "length held < LINUX_RT_QUEUE_LIMIT \<Longrightarrow> rt_shape tight nxt (vec_remove recs i) (vec_remove seqs i) (held @ [seqs ! i])"
    using assms s sub l m nin unfolding rt_shape_def by auto
qed

lemma rt_release:
  assumes "rt_shape tight nxt recs seqs held" "i < length held"
  shows "rt_shape tight nxt recs seqs (vec_remove held i)"
proof -
  obtain us vs where u: "held = us @ held ! i # vs" "vec_remove held i = us @ vs" using vec_remove_split [OF assms(2)] by blast
  have "distinct held" using assms(1) by (simp add: rt_shape_def)
  then have "distinct (us @ held ! i # vs)" using u(1) by simp
  then have "distinct (vec_remove held i)" using u(2) by auto
  then show ?thesis using assms set_vec_remove [of held i] unfolding rt_shape_def by (auto simp: length_vec_remove)
qed

lemma distinct_vec_insert: "distinct xs \<Longrightarrow> x \<notin> set xs \<Longrightarrow> distinct (vec_insert xs k x)"
  using set_take_disj_set_drop_if_distinct [of xs k k]
  by (auto simp: vec_insert_def dest: in_set_takeD in_set_dropD)

definition insert_index :: "u64 \<Rightarrow> u64 list \<Rightarrow> nat" where
  "insert_index s seqs = (case position (\<lambda>queued. s < queued) seqs of None \<Rightarrow> length seqs | Some index \<Rightarrow> index)"

lemma insert_index_bounds:
  shows "insert_index s seqs \<le> length seqs" "\<And>x. x \<in> set (take (insert_index s seqs) seqs) \<Longrightarrow> \<not> s < x"
    "insert_index s seqs < length seqs \<Longrightarrow> s < seqs ! insert_index s seqs"
proof -
  have "insert_index s seqs \<le> length seqs \<and> (\<forall>x\<in>set (take (insert_index s seqs) seqs). \<not> s < x)
    \<and> (insert_index s seqs < length seqs \<longrightarrow> s < seqs ! insert_index s seqs)"
  proof (cases "position (\<lambda>queued. s < queued) seqs")
    case None
    then have "\<forall>x\<in>set seqs. \<not> s < x" by (simp only: position_None_iff)
    then show ?thesis using None by (auto simp: insert_index_def)
  next
    case (Some i)
    then show ?thesis using position_SomeD [OF Some] by (auto simp: insert_index_def in_set_conv_nth)
  qed
  then show "insert_index s seqs \<le> length seqs" "\<And>x. x \<in> set (take (insert_index s seqs) seqs) \<Longrightarrow> \<not> s < x"
    "insert_index s seqs < length seqs \<Longrightarrow> s < seqs ! insert_index s seqs" by blast+
qed

lemma insert_index_sorted:
  assumes "sorted_wrt (<) seqs" "s \<notin> set seqs"
  shows "sorted_wrt (<) (vec_insert seqs (insert_index s seqs) s)"
proof -
  let ?k = "insert_index s seqs"
  note b = insert_index_bounds [where s = s and seqs = seqs]
  have lo: "x < s" if "x \<in> set (take ?k seqs)" for x
    using b(2) [OF that] assms(2) in_set_takeD [OF that] by (metis linorder_neqE)
  have hi: "s < x" if x: "x \<in> set (drop ?k seqs)" for x
  proof -
    have k: "?k < length seqs" using x by (metis drop_all empty_iff linorder_not_le list.set(1))
    then have dk: "drop ?k seqs = seqs ! ?k # drop (Suc ?k) seqs" by (rule Cons_nth_drop_Suc [symmetric])
    have "sorted_wrt (<) (seqs ! ?k # drop (Suc ?k) seqs)" using assms(1) dk by (metis sorted_wrt_drop)
    then show ?thesis using x b(3) [OF k] unfolding dk by auto
  qed
  have "sorted_wrt (<) (take ?k seqs @ drop ?k seqs)" using assms(1) by simp
  then show ?thesis unfolding vec_insert_def using lo hi by (fastforce simp: sorted_wrt_append)
qed

lemma insert_index_removed:
  assumes "sorted_wrt (<) seqs" "i < length seqs"
  shows "insert_index (seqs ! i) (vec_remove seqs i) = i"
proof -
  note n = nth_vec_remove [OF assms(2)]
  have l: "length (vec_remove seqs i) = length seqs - 1" using assms(2) by (rule length_vec_remove)
  have lt: "seqs ! a < seqs ! b" if "a < b" "b < length seqs" for a b using sorted_wrt_nth_less [OF assms(1) that] .
  have low: "\<not> seqs ! i < vec_remove seqs i ! m" if "m < i" for m
    using n [of m] that assms(2) lt [of m i] by auto
  show ?thesis
  proof (cases "i = length seqs - 1")
    case True
    then have "position (\<lambda>q. seqs ! i < q) (vec_remove seqs i) = None" using low l by (auto simp: position_None_iff in_set_conv_nth)
    then show ?thesis using True l by (simp add: insert_index_def)
  next
    case False
    then have i: "i < length seqs - 1" using assms(2) by simp
    then have "seqs ! i < vec_remove seqs i ! i" using n [of i] lt [of i "Suc i"] by simp
    then have "position (\<lambda>q. seqs ! i < q) (vec_remove seqs i) = Some i" using low l i by (intro position_eqI) simp_all
    then show ?thesis by (simp add: insert_index_def)
  qed
qed

lemma rt_insert:
  assumes "rt_shape tight nxt recs seqs held" "i < length held" "length seqs < LINUX_RT_QUEUE_LIMIT"
    "LINUX_REALTIME_SIGNAL_MIN \<le> ps_signum r" "ps_signum r \<le> LINUX_MAX_SIGNAL" "signal_typed r"
  defines "k \<equiv> insert_index (held ! i) seqs"
  shows "rt_shape tight nxt (vec_insert recs k r) (vec_insert seqs k (held ! i)) (vec_remove held i)"
proof -
  note h = rt_release [OF assms(1,2)]
  obtain us vs where u: "held = us @ held ! i # vs" "vec_remove held i = us @ vs" using vec_remove_split [OF assms(2)] by blast
  have m: "held ! i \<in> set held" using assms(2) by simp
  then have new: "held ! i \<notin> set seqs" using assms(1) by (auto simp: rt_shape_def)
  then have s: "sorted_wrt (<) (vec_insert seqs k (held ! i))" if "sorted_wrt (<) seqs"
    unfolding k_def using that by (intro insert_index_sorted)
  have d: "distinct (vec_insert seqs k (held ! i))" using new assms(1) by (intro distinct_vec_insert) (simp_all add: rt_shape_def)
  have "distinct (us @ held ! i # vs)" using assms(1) u(1) by (simp add: rt_shape_def)
  then have nin: "held ! i \<notin> set (vec_remove held i)" using u(2) by auto
  have "k \<le> length seqs" unfolding k_def by (rule insert_index_bounds)
  then show ?thesis using h s d nin m assms(1,2-6) by (auto simp: rt_shape_def length_vec_remove)
qed

lemma rt_front:
  assumes "rt_shape tight nxt recs seqs held" "nxt \<noteq> 0" "length seqs < LINUX_RT_QUEUE_LIMIT"
    "LINUX_REALTIME_SIGNAL_MIN \<le> ps_signum r" "ps_signum r \<le> LINUX_MAX_SIGNAL" "signal_typed r"
  shows "rt_shape False (nxt + 1) (r # recs) (nxt # seqs) held"
  using assms rt_fresh [OF assms(1,2)] unfolding rt_shape_def by auto

lemma discard_loop_spec:
  assumes "wr \<le> k" "len \<le> length P" "length S = length P"
    "\<And>j. k \<le> j \<Longrightarrow> j < len \<Longrightarrow> P ! j = P0 ! j \<and> S ! j = S0 ! j"
    "discard_loop signum [k..<len] wr P S = (w, P', S')"
  defines "kept \<equiv> filter (\<lambda>j. ps_signum (P0 ! j) \<noteq> signum) [k..<len]"
  shows "w = wr + length kept" "take w P' = take wr P @ map ((!) P0) kept" "take w S' = take wr S @ map ((!) S0) kept"
    "length P' = length P" "length S' = length P" "\<And>j. len \<le> j \<Longrightarrow> P' ! j = P ! j \<and> S' ! j = S ! j"
    "set P' \<subseteq> set P"
proof -
  have "w = wr + length kept \<and> take w P' = take wr P @ map ((!) P0) kept \<and> take w S' = take wr S @ map ((!) S0) kept
     \<and> length P' = length P \<and> length S' = length P \<and> (\<forall>j\<ge>len. P' ! j = P ! j \<and> S' ! j = S ! j) \<and> set P' \<subseteq> set P"
    using assms(1-5) unfolding kept_def
  proof (induction "len - k" arbitrary: k wr P S)
    case 0
    then show ?case by simp
  next
    case (Suc n)
    then have k: "k < len" by simp
    then have up: "[k..<len] = k # [Suc k..<len]" by (rule upt_conv_Cons)
    have pk: "P ! k = P0 ! k" "S ! k = S0 ! k" using Suc.prems(4) [of k] k by auto
    show ?case
    proof (cases "ps_signum (P0 ! k) \<noteq> signum")
      case True
      let ?P = "P[wr := P ! k]" and ?S = "S[wr := S ! k]"
      have wl: "wr < length P" "k < length P" using Suc.prems(1,2) k by auto
      have step: "discard_loop signum [Suc k..<len] (wr + 1) ?P ?S = (w, P', S')" using Suc.prems(5) True pk unfolding up by simp
      have "w = wr + 1 + length (filter (\<lambda>j. ps_signum (P0 ! j) \<noteq> signum) [Suc k..<len])
        \<and> take w P' = take (wr + 1) ?P @ map ((!) P0) (filter (\<lambda>j. ps_signum (P0 ! j) \<noteq> signum) [Suc k..<len])
        \<and> take w S' = take (wr + 1) ?S @ map ((!) S0) (filter (\<lambda>j. ps_signum (P0 ! j) \<noteq> signum) [Suc k..<len])
        \<and> length P' = length ?P \<and> length S' = length ?P \<and> (\<forall>j\<ge>len. P' ! j = ?P ! j \<and> S' ! j = ?S ! j) \<and> set P' \<subseteq> set ?P"
        by (rule Suc.hyps(1) [OF _ _ _ _ _ step]) (use Suc.hyps(2) Suc.prems in auto)
      moreover have "take (wr + 1) ?P = take wr P @ [P0 ! k]" "take (wr + 1) ?S = take wr S @ [S0 ! k]"
        using wl pk Suc.prems(3) by (simp_all add: take_Suc_conv_app_nth)
      moreover have "set ?P \<subseteq> set P" using wl by (simp add: set_update_subsetI)
      ultimately show ?thesis using True wl Suc.prems(1) k unfolding up by auto
    next
      case False
      have step: "discard_loop signum [Suc k..<len] wr P S = (w, P', S')" using Suc.prems(5) False pk unfolding up by simp
      have f: "filter (\<lambda>j. ps_signum (P0 ! j) \<noteq> signum) [k..<len] = filter (\<lambda>j. ps_signum (P0 ! j) \<noteq> signum) [Suc k..<len]"
        using False unfolding up by simp
      show ?thesis unfolding f by (rule Suc.hyps(1) [OF _ _ _ _ _ step]) (use Suc.hyps(2) Suc.prems in auto)
    qed
  qed
  then show "w = wr + length kept" "take w P' = take wr P @ map ((!) P0) kept" "take w S' = take wr S @ map ((!) S0) kept"
    "length P' = length P" "length S' = length P" "\<And>j. len \<le> j \<Longrightarrow> P' ! j = P ! j \<and> S' ! j = S ! j" "set P' \<subseteq> set P"
    by auto
qed

subsection \<open>What each operation does to the queue\<close>

lemma signum_bit:
  assumes "1 \<le> s" "s \<le> LINUX_MAX_SIGNAL"
  obtains n where "n < 64" "s = of_nat n + 1" "unat s = Suc n" "linux_signal_bit s = 2 ^ n"
proof -
  have "1 \<le> unat s" "unat s \<le> 64" using assms by (simp_all add: LINUX_MAX_SIGNAL_def word_le_nat_alt)
  then obtain n where n: "unat s = Suc n" "n < 64" by (cases "unat s") auto
  then have "unat s = unat (of_nat n + 1 :: usize)" by (simp add: unat_word_ariths unat_of_nat)
  then have "s = of_nat n + 1" by (simp only: word_unat_eq_iff)
  with n that linux_signal_bit_of_nat [OF n(2)] show thesis by simp
qed

lemma signum_standard: "s < LINUX_REALTIME_SIGNAL_MIN \<Longrightarrow> unat s = Suc n \<Longrightarrow> n < 31"
  by (simp add: LINUX_REALTIME_SIGNAL_MIN_def word_less_nat_alt)

lemma std_queue:
  assumes "std_ok pending reserved records" "n < 31" "signal_typed r" "ps_signum r = of_nat n + 1"
  shows "std_ok (pending OR 2 ^ n) reserved (records[Suc n := r])"
proof -
  have "set (records[Suc n := r]) \<subseteq> insert r (set records)" by (rule set_update_subset_insert)
  with assms show ?thesis unfolding std_ok_def by (auto simp: bit_simps nth_list_update)
qed

lemma std_take:
  assumes "std_ok pending reserved records" "n < 31"
  shows "std_ok (pending AND NOT (2 ^ n)) (reserved OR 2 ^ n) (records[Suc n := EMPTY_SIGNAL])"
    "std_ok (pending AND NOT (2 ^ n)) reserved (records[Suc n := EMPTY_SIGNAL])"
    "std_ok pending (reserved OR 2 ^ n) records" "std_ok pending (reserved AND NOT (2 ^ n)) records"
proof -
  have "set (records[Suc n := EMPTY_SIGNAL]) \<subseteq> insert EMPTY_SIGNAL (set records)" by (rule set_update_subset_insert)
  with assms show "std_ok (pending AND NOT (2 ^ n)) (reserved OR 2 ^ n) (records[Suc n := EMPTY_SIGNAL])"
    "std_ok (pending AND NOT (2 ^ n)) reserved (records[Suc n := EMPTY_SIGNAL])" unfolding std_ok_def by (auto simp: bit_simps nth_list_update)
  show "std_ok pending (reserved OR 2 ^ n) records" "std_ok pending (reserved AND NOT (2 ^ n)) records"
    using assms unfolding std_ok_def by (auto simp: bit_simps)
qed

lemma allocate_eq:
  "allocate_realtime_sequence p =
     (if next_realtime_sequence p = 0 then (p, Inl QueueFull)
      else (p\<lparr>next_realtime_sequence := next_realtime_sequence p + 1\<rparr>, Inr (next_realtime_sequence p)))"
  by (simp add: allocate_realtime_sequence_def Let_def next_sequence(1))

lemma pending_queue_ok:
  assumes ok: "pending_shape tight p" and t: "signal_typed r"
  shows "pending_shape tight (fst (pending_queue r p))"
proof (cases "1 \<le> ps_signum r \<and> ps_signum r \<le> LINUX_MAX_SIGNAL")
  case False
  then show ?thesis using ok by (simp add: pending_queue_def)
next
  case v: True
  then obtain n where n: "n < 64" "ps_signum r = of_nat n + 1" "unat (ps_signum r) = Suc n" "linux_signal_bit (ps_signum r) = 2 ^ n"
    using signum_bit by blast
  note d = pending_shapeD [OF ok]
  show ?thesis
  proof (cases "ps_signum r < LINUX_REALTIME_SIGNAL_MIN")
    case True
    then have "n < 31" using n(3) by (rule signum_standard)
    then have "std_ok (standard_pending p OR 2 ^ n) (standard_reserved p) ((standard_records p)[Suc n := r])"
      using d(1) t n(2) by (intro std_queue)
    then show ?thesis using ok v True n(3,4) by (auto simp: pending_queue_def pending_shape_def queue_views Let_def)
  next
    case False
    show ?thesis
    proof (cases "LINUX_RT_QUEUE_LIMIT \<le> realtime_len p + realtime_reserved p \<or> next_realtime_sequence p = 0")
      case True
      then show ?thesis using ok v False by (auto simp: pending_queue_def allocate_eq)
    next
      case room: False
      then have lt: "realtime_len p < LINUX_RT_QUEUE_LIMIT" by simp
      have rt: "rt_shape tight (next_realtime_sequence p + 1) (queued_signals p @ [r]) (queued_sequences p @ [next_realtime_sequence p]) (held_sequences p)"
        using d room False v t by (intro rt_queue) auto
      note a = padded_push [OF d(2) lt, of r] padded_push [OF d(3) lt, of "next_realtime_sequence p"]
      show ?thesis using d(1,4) a rt v False room by (simp add: pending_queue_def allocate_eq pending_shape_def queue_views)
    qed
  qed
qed

lemma reserve_sequence_ok:
  assumes "pending_shape tight p" "s \<noteq> 0" "s \<notin> set (held_sequences p)" "realtime_reserved p < LINUX_RT_QUEUE_LIMIT"
  shows "reserve_realtime_sequence s p =
     (p\<lparr>realtime_reservations := (realtime_reservations p)[realtime_reserved p := s], realtime_reserved := realtime_reserved p + 1\<rparr>, Inr ())"
  using assms by (simp add: reserve_realtime_sequence_def queue_views)

lemma reserve_direct_ok:
  assumes ok: "pending_shape tight p" and t: "signal_typed r"
  shows "pending_shape tight (fst (reserve_direct r p))"
proof (cases "1 \<le> ps_signum r \<and> ps_signum r \<le> LINUX_MAX_SIGNAL")
  case False
  then show ?thesis using ok by (simp add: reserve_direct_def)
next
  case v: True
  then obtain n where n: "n < 64" "ps_signum r = of_nat n + 1" "unat (ps_signum r) = Suc n" "linux_signal_bit (ps_signum r) = 2 ^ n"
    using signum_bit by blast
  note d = pending_shapeD [OF ok]
  show ?thesis
  proof (cases "ps_signum r < LINUX_REALTIME_SIGNAL_MIN")
    case True
    then have "n < 31" using n(3) by (rule signum_standard)
    then have "pending_shape tight (p\<lparr>standard_reserved := standard_reserved p OR 2 ^ n\<rparr>)"
      using std_take(3) [OF d(1), of n] ok by (simp add: pending_shape_def queue_views)
    then show ?thesis using pending_queue_ok [OF ok t] v True n(4)
      by (auto simp: reserve_direct_def Let_def split: prod.split sum.split)
  next
    case False
    show ?thesis
    proof (cases "LINUX_RT_QUEUE_LIMIT \<le> realtime_len p + realtime_reserved p \<or> next_realtime_sequence p = 0")
      case True
      then show ?thesis using ok v False by (auto simp: reserve_direct_def allocate_eq)
    next
      case room: False
      then have lt: "realtime_reserved p < LINUX_RT_QUEUE_LIMIT" by simp
      have f: "next_realtime_sequence p \<notin> set (held_sequences p)" using rt_fresh(1) [OF d(5)] room by auto
      have rt: "rt_shape tight (next_realtime_sequence p + 1) (queued_signals p) (queued_sequences p) (held_sequences p @ [next_realtime_sequence p])"
        using d room by (intro rt_reserve) auto
      note a = padded_push [OF d(4) lt, of "next_realtime_sequence p"]
      show ?thesis using d(1-3) a rt v False room f
        by (simp add: reserve_direct_def allocate_eq pending_shape_def queue_views reserve_realtime_sequence_def)
    qed
  qed
qed

lemma scan_ok:
  assumes "std_ok pending reserved records" "scan_standard reserved f pending = Some s"
  obtains n where "n < 31" "s = of_nat n + 1" "unat s = Suc n" "linux_signal_bit s = 2 ^ n" "bit pending n" "\<not> bit reserved n" "f s"
    "\<And>m. m < n \<Longrightarrow> \<not> (bit pending m \<and> \<not> bit reserved m \<and> f (of_nat m + 1))" "ps_signum (records ! Suc n) = s"
proof -
  from assms(2) obtain n where n: "List.find (\<lambda>n. bit pending n \<and> \<not> bit reserved n \<and> f (of_nat n + 1)) [0..<64] = Some n" "s = of_nat n + 1"
    by (auto simp: scan_standard_find)
  then have p: "n < 64" "bit pending n" "\<not> bit reserved n" "f s" "\<forall>m<n. \<not> (bit pending m \<and> \<not> bit reserved m \<and> f (of_nat m + 1))"
    by (auto simp: find_upt_iff)
  have "n < 31" "ps_signum (records ! Suc n) = s" using assms(1) p(2) n(2) by (auto simp: std_ok_def)
  moreover have "unat s = Suc n" using p(1) n(2) by (simp add: unat_word_ariths unat_of_nat)
  ultimately show thesis using that p n(2) linux_signal_bit_of_nat [OF p(1)] by auto
qed

lemma lowest_ok:
  assumes "pending_shape tight p" "lowest_realtime f p = Some i"
  shows "i < realtime_len p" "realtime_pending p ! i = queued_signals p ! i" "realtime_sequences p ! i = queued_sequences p ! i"
    "f (ps_signum (queued_signals p ! i))"
    "\<And>j. j < realtime_len p \<Longrightarrow> f (ps_signum (queued_signals p ! j)) \<Longrightarrow> ps_signum (queued_signals p ! i) \<le> ps_signum (queued_signals p ! j)"
    "\<And>j. j < i \<Longrightarrow> f (ps_signum (queued_signals p ! j)) \<Longrightarrow> ps_signum (queued_signals p ! i) < ps_signum (queued_signals p ! j)"
proof -
  note d = pending_shapeD [OF assms(1)]
  note l = lowest_index_Some [OF assms(2) [unfolded lowest_realtime_def, folded queued_signals_def]]
  show i: "i < realtime_len p" using l(1) d(6) by simp
  then show "realtime_pending p ! i = queued_signals p ! i" "realtime_sequences p ! i = queued_sequences p ! i" by (simp_all add: queue_views)
  show "f (ps_signum (queued_signals p ! i))" by (rule l(2))
  show "ps_signum (queued_signals p ! i) \<le> ps_signum (queued_signals p ! j)" if "j < realtime_len p" "f (ps_signum (queued_signals p ! j))" for j
    using l(3) that d(6) by simp
  show "ps_signum (queued_signals p ! i) < ps_signum (queued_signals p ! j)" if "j < i" "f (ps_signum (queued_signals p ! j))" for j
    using l(4) that by simp
qed

lemma remove_index_views:
  assumes "pending_shape tight p" "i < realtime_len p"
  shows "queued_signals (remove_realtime_index i p) = vec_remove (queued_signals p) i"
    "queued_sequences (remove_realtime_index i p) = vec_remove (queued_sequences p) i"
    "held_sequences (remove_realtime_index i p) = held_sequences p"
    "pending_shape tight (remove_realtime_index i p)"
proof -
  note d = pending_shapeD [OF assms(1)]
  note a = padded_remove [OF d(2) assms(2)] padded_remove [OF d(3) assms(2)]
  show v: "queued_signals (remove_realtime_index i p) = vec_remove (queued_signals p) i"
    "queued_sequences (remove_realtime_index i p) = vec_remove (queued_sequences p) i"
    "held_sequences (remove_realtime_index i p) = held_sequences p"
    using a by (simp_all add: queue_views remove_realtime_index_def)
  have "rt_shape tight (next_realtime_sequence p) (vec_remove (queued_signals p) i) (vec_remove (queued_sequences p) i) (held_sequences p)"
    using d(5,7) assms(2) by (intro rt_remove(1)) simp_all
  then show "pending_shape tight (remove_realtime_index i p)"
    using a d v unfolding pending_shape_def by (simp add: remove_realtime_index_def)
qed

text \<open>A taken realtime record moves its sequence number to the reservations.\<close>

definition reserve_index :: "nat \<Rightarrow> LinuxPendingSignals \<Rightarrow> LinuxPendingSignals" where
  "reserve_index i p = remove_realtime_index i
     (p\<lparr>realtime_reservations := (realtime_reservations p)[realtime_reserved p := realtime_sequences p ! i],
        realtime_reserved := realtime_reserved p + 1\<rparr>)"

lemma reserve_index_views:
  assumes "pending_shape tight p" "i < realtime_len p" and lt: "realtime_reserved p < LINUX_RT_QUEUE_LIMIT"
  shows "queued_signals (reserve_index i p) = vec_remove (queued_signals p) i"
    "queued_sequences (reserve_index i p) = vec_remove (queued_sequences p) i"
    "held_sequences (reserve_index i p) = held_sequences p @ [queued_sequences p ! i]"
    "pending_shape tight (reserve_index i p)"
    "reserve_realtime_sequence (realtime_sequences p ! i) p =
       (p\<lparr>realtime_reservations := (realtime_reservations p)[realtime_reserved p := realtime_sequences p ! i],
          realtime_reserved := realtime_reserved p + 1\<rparr>, Inr ())"
proof -
  note d = pending_shapeD [OF assms(1)]
  have q: "realtime_sequences p ! i = queued_sequences p ! i" using assms(2) by (simp add: queue_views)
  have m: "queued_sequences p ! i \<in> set (queued_sequences p)" using assms(2) d(7) by simp
  note a = padded_remove [OF d(2) assms(2)] padded_remove [OF d(3) assms(2)] padded_push [OF d(4) lt, of "queued_sequences p ! i"]
  show v: "queued_signals (reserve_index i p) = vec_remove (queued_signals p) i"
    "queued_sequences (reserve_index i p) = vec_remove (queued_sequences p) i"
    "held_sequences (reserve_index i p) = held_sequences p @ [queued_sequences p ! i]"
    using a q by (simp_all add: queue_views remove_realtime_index_def reserve_index_def)
  have "rt_shape tight (next_realtime_sequence p) (vec_remove (queued_signals p) i) (vec_remove (queued_sequences p) i) (held_sequences p @ [queued_sequences p ! i])"
    using d(5,7,8) assms(2) lt by (intro rt_remove(2)) simp_all
  then show "pending_shape tight (reserve_index i p)"
    using a d v q unfolding pending_shape_def by (simp add: remove_realtime_index_def reserve_index_def)
  have "queued_sequences p ! i \<noteq> 0" "queued_sequences p ! i \<notin> set (held_sequences p)" using d(5) m by (auto simp: rt_shape_def)
  then show "reserve_realtime_sequence (realtime_sequences p ! i) p =
       (p\<lparr>realtime_reservations := (realtime_reservations p)[realtime_reserved p := realtime_sequences p ! i],
          realtime_reserved := realtime_reserved p + 1\<rparr>, Inr ())"
    unfolding q by (intro reserve_sequence_ok [OF assms(1)] lt)
qed

lemma tight_room:
  assumes "pending_shape True p"
  shows "i < realtime_len p \<Longrightarrow> realtime_reserved p < LINUX_RT_QUEUE_LIMIT" "i < realtime_reserved p \<Longrightarrow> realtime_len p < LINUX_RT_QUEUE_LIMIT"
  using pending_shapeD(5,7,8) [OF assms] by (auto simp: rt_shape_def)

text \<open>
  The two ways a take with a reservation succeeds, and the two ways it does not: there is nothing to
  take, or all places for reservations are in use.
\<close>

lemma take_reserved_cases:
  assumes ok: "pending_shape tight p" and t: "take_eligible_reserved f p = (p', res)"
  obtains (standard) n where "n < 31" "unat (of_nat n + 1 :: usize) = Suc n" "linux_signal_bit (of_nat n + 1) = 2 ^ n"
      "bit (standard_pending p) n" "\<not> bit (standard_reserved p) n" "f (of_nat n + 1)"
      "\<And>m. m < n \<Longrightarrow> \<not> (bit (standard_pending p) m \<and> \<not> bit (standard_reserved p) m \<and> f (of_nat m + 1))"
      "ps_signum (standard_records p ! Suc n) = of_nat n + 1"
      "p' = p\<lparr>standard_pending := standard_pending p AND NOT (2 ^ n), standard_reserved := standard_reserved p OR 2 ^ n,
              standard_records := (standard_records p)[Suc n := EMPTY_SIGNAL]\<rparr>"
      "res = Some (standard_records p ! Suc n, ResStandard (of_nat n + 1))"
  | (realtime) i where "scan_standard (standard_reserved p) f (standard_pending p) = None" "lowest_realtime f p = Some i" "i < realtime_len p"
      "realtime_reserved p < LINUX_RT_QUEUE_LIMIT"
      "p' = reserve_index i p" "res = Some (queued_signals p ! i, ResRealtime (queued_sequences p ! i))"
  | (absent) "scan_standard (standard_reserved p) f (standard_pending p) = None" "lowest_realtime f p = None" "p' = p" "res = None"
  | (full) "\<not> tight" "p' = p" "res = None"
proof (cases "scan_standard (standard_reserved p) f (standard_pending p)")
  case (Some s)
  obtain n where n: "n < 31" "s = of_nat n + 1" "unat s = Suc n" "linux_signal_bit s = 2 ^ n" "bit (standard_pending p) n"
    "\<not> bit (standard_reserved p) n" "f s" "\<And>m. m < n \<Longrightarrow> \<not> (bit (standard_pending p) m \<and> \<not> bit (standard_reserved p) m \<and> f (of_nat m + 1))"
    "ps_signum (standard_records p ! Suc n) = s" using scan_ok [OF pending_shapeD(1) [OF ok] Some] by metis
  show thesis using standard [of n] n t Some by (simp add: take_eligible_reserved_def)
next
  case s: None
  show thesis
  proof (cases "lowest_realtime f p")
    case None
    then have "p' = p" "res = None" using t s by (simp_all add: take_eligible_reserved_def)
    then show thesis using absent s None by blast
  next
    case (Some i)
    note l = lowest_ok [OF ok Some]
    show thesis
    proof (cases "realtime_reserved p < LINUX_RT_QUEUE_LIMIT")
      case True
      note v = reserve_index_views [OF ok l(1) True]
      have "p' = reserve_index i p" "res = Some (queued_signals p ! i, ResRealtime (queued_sequences p ! i))"
        using t s Some v(5) l(2,3) by (auto simp: take_eligible_reserved_def Let_def reserve_index_def)
      then show thesis using realtime s Some l(1) True by blast
    next
      case False
      then have "p' = p" "res = None"
        using t s Some by (simp_all add: take_eligible_reserved_def Let_def reserve_realtime_sequence_def)
      moreover have "\<not> tight" using False tight_room(1) [OF _ l(1)] ok by (cases tight) auto
      ultimately show thesis using full by blast
    qed
  qed
qed

lemma take_reserved_ok:
  assumes ok: "pending_shape tight p"
  shows "pending_shape tight (fst (take_eligible_reserved f p))"
proof -
  obtain p' res where t: "take_eligible_reserved f p = (p', res)" by fastforce
  from ok t have "pending_shape tight p'"
  proof (cases rule: take_reserved_cases)
    case (standard n)
    then show ?thesis using std_take(1) [OF pending_shapeD(1) [OF ok], of n] ok by (simp add: pending_shape_def queue_views)
  next
    case (realtime i)
    then show ?thesis using reserve_index_views(4) [OF ok] by simp
  qed (use ok in simp_all)
  then show ?thesis using t by simp
qed

lemma take_eligible_ok:
  assumes ok: "pending_shape tight p"
  shows "pending_shape tight (fst (take_eligible f p))"
proof (cases "scan_standard (standard_reserved p) f (standard_pending p)")
  case (Some s)
  obtain n where n: "n < 31" "unat s = Suc n" "linux_signal_bit s = 2 ^ n" using scan_ok [OF pending_shapeD(1) [OF ok] Some] by metis
  show ?thesis using Some n std_take(2) [OF pending_shapeD(1) [OF ok], of n] ok by (simp add: take_eligible_def pending_shape_def queue_views)
next
  case s: None
  show ?thesis
  proof (cases "lowest_realtime f p")
    case None
    then show ?thesis using s ok by (simp add: take_eligible_def)
  next
    case (Some i)
    then show ?thesis using s remove_index_views(4) [OF ok lowest_ok(1) [OF ok Some]] by (simp add: take_eligible_def)
  qed
qed

definition release_index :: "nat \<Rightarrow> LinuxPendingSignals \<Rightarrow> LinuxPendingSignals" where
  "release_index i p =
     p\<lparr>realtime_reservations := (shift_down i (realtime_reserved p) (realtime_reservations p))[realtime_reserved p - 1 := 0],
       realtime_reserved := realtime_reserved p - 1\<rparr>"

lemma release_index_views:
  assumes "pending_shape tight p" "i < realtime_reserved p"
  shows "queued_signals (release_index i p) = queued_signals p" "queued_sequences (release_index i p) = queued_sequences p"
    "held_sequences (release_index i p) = vec_remove (held_sequences p) i"
    "pending_shape tight (release_index i p)"
proof -
  note d = pending_shapeD [OF assms(1)]
  note a = padded_remove [OF d(4) assms(2)]
  show v: "queued_signals (release_index i p) = queued_signals p" "queued_sequences (release_index i p) = queued_sequences p"
    "held_sequences (release_index i p) = vec_remove (held_sequences p) i"
    using a by (simp_all add: queue_views release_index_def)
  have "rt_shape tight (next_realtime_sequence p) (queued_signals p) (queued_sequences p) (vec_remove (held_sequences p) i)"
    using d(5,8) assms(2) by (intro rt_release) simp_all
  then show "pending_shape tight (release_index i p)"
    using a d v unfolding pending_shape_def by (simp add: release_index_def)
qed

lemma release_sequence:
  assumes "pending_shape tight p" "i < realtime_reserved p"
  shows "release_realtime_sequence (held_sequences p ! i) p = (release_index i p, True)"
proof -
  note d = pending_shapeD [OF assms(1)]
  have di: "distinct (held_sequences p)" using d(5) by (simp add: rt_shape_def)
  have "position (\<lambda>q. q = held_sequences p ! i) (held_sequences p) = Some i"
    by (rule position_eqI) (use assms(2) d(8) di in \<open>auto simp: nth_eq_iff_index_eq\<close>)
  then show ?thesis by (simp add: release_realtime_sequence_def release_index_def held_sequences_def)
qed

lemma commit_ok:
  assumes ok: "pending_shape tight p"
  shows "pending_shape tight (fst (commit_reservation v p))"
proof (cases v)
  case (ResStandard s)
  show ?thesis
  proof (cases "1 \<le> s \<and> s < LINUX_REALTIME_SIGNAL_MIN")
    case True
    then have "s \<le> LINUX_MAX_SIGNAL" by (simp add: LINUX_MAX_SIGNAL_def LINUX_REALTIME_SIGNAL_MIN_def word_le_nat_alt word_less_nat_alt)
    then obtain n where n: "unat s = Suc n" "linux_signal_bit s = 2 ^ n" using signum_bit True by metis
    have "n < 31" using True n(1) signum_standard by blast
    then show ?thesis using ResStandard n ok std_take(4) [OF pending_shapeD(1) [OF ok], of n]
      by (auto simp: commit_reservation_def Let_def pending_shape_def queue_views)
  qed (use ResStandard ok in \<open>simp add: commit_reservation_def\<close>)
next
  case (ResRealtime q)
  show ?thesis
  proof (cases "q \<in> set (held_sequences p)")
    case True
    then obtain i where i: "i < realtime_reserved p" "q = held_sequences p ! i" using pending_shapeD(8) [OF ok] by (metis in_set_conv_nth)
    then show ?thesis using ResRealtime release_sequence [OF ok i(1)] release_index_views(4) [OF ok i(1)] by (simp add: commit_reservation_def)
  next
    case False
    then have "\<forall>x\<in>set (take (realtime_reserved p) (realtime_reservations p)). \<not> x = q" by (auto simp: held_sequences_def)
    then have "position (\<lambda>x. x = q) (take (realtime_reserved p) (realtime_reservations p)) = None" by (simp only: position_None_iff)
    then show ?thesis using ResRealtime ok by (simp add: commit_reservation_def release_realtime_sequence_def)
  qed
qed

lemma insert_sequence:
  assumes ok: "pending_shape tight p" and i: "i < realtime_reserved p" and lt: "realtime_len p < LINUX_RT_QUEUE_LIMIT"
    and r: "LINUX_REALTIME_SIGNAL_MIN \<le> ps_signum r" "ps_signum r \<le> LINUX_MAX_SIGNAL" "signal_typed r"
  defines "s \<equiv> held_sequences p ! i"
  defines "k \<equiv> insert_index s (queued_sequences p)"
  obtains p' where "insert_realtime_by_sequence s r (release_index i p) = (p', Inr ())" "pending_shape tight p'"
    "queued_signals p' = vec_insert (queued_signals p) k r" "queued_sequences p' = vec_insert (queued_sequences p) k s"
    "held_sequences p' = vec_remove (held_sequences p) i" "standard_pending p' = standard_pending p" "standard_reserved p' = standard_reserved p"
    "standard_records p' = standard_records p" "next_realtime_sequence p' = next_realtime_sequence p"
    "realtime_len p' = realtime_len p + 1" "realtime_reserved p' = realtime_reserved p - 1"
proof -
  note d = pending_shapeD [OF ok]
  let ?p = "release_index i p"
  note e = pending_shapeD [OF release_index_views(4) [OF ok i]]
  note v = release_index_views [OF ok i]
  have f: "realtime_len ?p = realtime_len p" "standard_pending ?p = standard_pending p" "standard_reserved ?p = standard_reserved p"
    "standard_records ?p = standard_records p" "next_realtime_sequence ?p = next_realtime_sequence p" "realtime_reserved ?p = realtime_reserved p - 1"
    "realtime_pending ?p = realtime_pending p" "realtime_sequences ?p = realtime_sequences p"
    by (simp_all add: release_index_def)
  have s0: "s \<noteq> 0" using d(5,8) i unfolding s_def rt_shape_def by auto
  have k: "k \<le> realtime_len p" using insert_index_bounds(1) [of s "queued_sequences p"] d(7) unfolding k_def by simp
  have idx: "(case position (\<lambda>queued. s < queued) (take (realtime_len p) (realtime_sequences p)) of None \<Rightarrow> realtime_len p | Some index \<Rightarrow> index) = k"
    unfolding k_def insert_index_def d(7) by (simp only: queued_sequences_def)
  define p' where "p' = ?p\<lparr>realtime_pending := (shift_up k (realtime_len p) (realtime_pending p))[k := r],
      realtime_sequences := (shift_up k (realtime_len p) (realtime_sequences p))[k := s], realtime_len := realtime_len p + 1\<rparr>"
  have eq: "insert_realtime_by_sequence s r ?p = (p', Inr ())"
    unfolding insert_realtime_by_sequence_def f(1,7,8) idx p'_def using s0 lt by simp
  note a = padded_insert [OF d(2) lt k, of r] padded_insert [OF d(3) lt k, of s]
  have w: "queued_signals p' = vec_insert (queued_signals p) k r" "queued_sequences p' = vec_insert (queued_sequences p) k s"
    "held_sequences p' = vec_remove (held_sequences p) i"
    using a v(3) by (simp_all add: queue_views p'_def)
  have "rt_shape tight (next_realtime_sequence p) (vec_insert (queued_signals p) k r) (vec_insert (queued_sequences p) k s) (vec_remove (held_sequences p) i)"
    unfolding s_def k_def using d(5,7,8) i r lt by (intro rt_insert) simp_all
  then have "pending_shape tight p'" unfolding pending_shape_def w using a d(1) e(4) by (simp add: p'_def f)
  then show thesis using that eq w by (simp add: p'_def f)
qed

text \<open>The record a reservation was made for, in the queue it was taken from.\<close>

definition holds_reservation :: "LinuxPendingSignals \<Rightarrow> LinuxPendingSignalReservation \<Rightarrow> LinuxPendingSignal \<Rightarrow> bool" where
  "holds_reservation p v record =
     (signal_typed record \<and>
      (case v of
         ResStandard s \<Rightarrow> s = ps_signum record \<and> 1 \<le> s \<and> s < LINUX_REALTIME_SIGNAL_MIN \<and> standard_reserved p AND linux_signal_bit s \<noteq> 0
       | ResRealtime q \<Rightarrow> LINUX_REALTIME_SIGNAL_MIN \<le> ps_signum record \<and> ps_signum record \<le> LINUX_MAX_SIGNAL
           \<and> q \<in> set (held_sequences p)))"

lemma standard_below_max: "s < LINUX_REALTIME_SIGNAL_MIN \<Longrightarrow> s \<le> LINUX_MAX_SIGNAL"
  by (simp add: LINUX_MAX_SIGNAL_def LINUX_REALTIME_SIGNAL_MIN_def word_le_nat_alt word_less_nat_alt)

lemma commit_standard:
  assumes "holds_reservation p (ResStandard s) r"
  obtains n where "n < 31" "unat s = Suc n" "s = of_nat n + 1" "linux_signal_bit s = 2 ^ n" "bit (standard_reserved p) n" "ps_signum r = s"
    "commit_reservation (ResStandard s) p = (p\<lparr>standard_reserved := standard_reserved p AND NOT (2 ^ n)\<rparr>, Inr ())"
    "rollback_reservation (ResStandard s) r p =
       (p\<lparr>standard_reserved := standard_reserved p AND NOT (2 ^ n), standard_pending := standard_pending p OR 2 ^ n,
          standard_records := (standard_records p)[Suc n := r]\<rparr>, Inr ())"
proof -
  have h: "1 \<le> s" "s < LINUX_REALTIME_SIGNAL_MIN" "s = ps_signum r" "standard_reserved p AND linux_signal_bit s \<noteq> 0"
    using assms by (auto simp: holds_reservation_def)
  obtain n where n: "unat s = Suc n" "s = of_nat n + 1" "linux_signal_bit s = 2 ^ n" using signum_bit h standard_below_max by metis
  have lt: "n < 31" using h(2) n(1) by (rule signum_standard)
  have b: "bit (standard_reserved p) n" using h(4) n(3) by (simp add: and_bit_eq_0)
  have c: "commit_reservation (ResStandard s) p = (p\<lparr>standard_reserved := standard_reserved p AND NOT (2 ^ n)\<rparr>, Inr ())"
    using h n by (simp add: commit_reservation_def)
  have "rollback_reservation (ResStandard s) r p =
       (p\<lparr>standard_reserved := standard_reserved p AND NOT (2 ^ n), standard_pending := standard_pending p OR 2 ^ n,
          standard_records := (standard_records p)[Suc n := r]\<rparr>, Inr ())"
    using c h n standard_below_max [OF h(2)] by (simp add: rollback_reservation_def requeue_front_def)
  then show thesis using that lt n b c h(3) by simp
qed

lemma commit_realtime:
  assumes "pending_shape tight p" "holds_reservation p (ResRealtime q) r"
  obtains i where "i < realtime_reserved p" "q = held_sequences p ! i"
    "commit_reservation (ResRealtime q) p = (release_index i p, Inr ())"
    "rollback_reservation (ResRealtime q) r p = insert_realtime_by_sequence q r (release_index i p)"
proof -
  obtain i where i: "i < realtime_reserved p" "q = held_sequences p ! i"
    using assms pending_shapeD(8) [OF assms(1)] by (auto simp: holds_reservation_def in_set_conv_nth)
  have c: "commit_reservation (ResRealtime q) p = (release_index i p, Inr ())"
    using release_sequence [OF assms(1) i(1)] i(2) by (simp add: commit_reservation_def)
  show thesis using that i c assms(2) by (simp add: rollback_reservation_def holds_reservation_def)
qed

text \<open>A rollback fails only when a realtime record has no place in the queue.\<close>

definition rollback_result :: "LinuxPendingSignals \<Rightarrow> LinuxPendingSignalReservation \<Rightarrow> LinuxSignalRouteError + unit" where
  "rollback_result p v =
     (case v of
        ResStandard s \<Rightarrow> Inr ()
      | ResRealtime q \<Rightarrow> if realtime_len p < LINUX_RT_QUEUE_LIMIT then Inr () else Inl QueueFull)"

lemma insert_full:
  "\<not> realtime_len p < LINUX_RT_QUEUE_LIMIT \<Longrightarrow> insert_realtime_by_sequence s r (release_index i p) = (release_index i p, Inl QueueFull)"
  by (simp add: insert_realtime_by_sequence_def release_index_def)

lemma rollback_ok:
  assumes ok: "pending_shape tight p" and h: "holds_reservation p v r"
  shows "pending_shape tight (fst (rollback_reservation v r p))" "snd (rollback_reservation v r p) = rollback_result p v"
    "snd (commit_reservation v p) = Inr ()" "tight \<Longrightarrow> rollback_result p v = Inr ()"
proof -
  have "pending_shape tight (fst (rollback_reservation v r p)) \<and> snd (rollback_reservation v r p) = rollback_result p v
    \<and> snd (commit_reservation v p) = Inr () \<and> (tight \<longrightarrow> rollback_result p v = Inr ())"
  proof (cases v)
    case (ResStandard s)
    note d = pending_shapeD [OF ok]
    obtain n where n: "n < 31" "s = of_nat n + 1" "ps_signum r = s"
      "commit_reservation (ResStandard s) p = (p\<lparr>standard_reserved := standard_reserved p AND NOT (2 ^ n)\<rparr>, Inr ())"
      "rollback_reservation (ResStandard s) r p =
       (p\<lparr>standard_reserved := standard_reserved p AND NOT (2 ^ n), standard_pending := standard_pending p OR 2 ^ n,
          standard_records := (standard_records p)[Suc n := r]\<rparr>, Inr ())"
      using commit_standard h [unfolded ResStandard] by metis
    have t: "signal_typed r" using h by (simp add: holds_reservation_def)
    have "std_ok (standard_pending p OR 2 ^ n) (standard_reserved p AND NOT (2 ^ n)) ((standard_records p)[Suc n := r])"
      using std_take(4) [OF d(1) n(1)] n t by (intro std_queue) simp_all
    then show ?thesis using ResStandard n ok by (simp add: pending_shape_def queue_views rollback_result_def)
  next
    case (ResRealtime q)
    obtain i where i: "i < realtime_reserved p" "q = held_sequences p ! i" "commit_reservation (ResRealtime q) p = (release_index i p, Inr ())"
      "rollback_reservation (ResRealtime q) r p = insert_realtime_by_sequence q r (release_index i p)"
      using commit_realtime [OF ok h [unfolded ResRealtime]] by metis
    have r: "LINUX_REALTIME_SIGNAL_MIN \<le> ps_signum r" "ps_signum r \<le> LINUX_MAX_SIGNAL" "signal_typed r"
      using h ResRealtime by (simp_all add: holds_reservation_def)
    show ?thesis
    proof (cases "realtime_len p < LINUX_RT_QUEUE_LIMIT")
      case True
      obtain p' where "insert_realtime_by_sequence q r (release_index i p) = (p', Inr ())" "pending_shape tight p'"
        using insert_sequence [OF ok i(1) True r] i(2) by metis
      then show ?thesis using i ResRealtime True by (simp add: rollback_result_def)
    next
      case False
      then have "\<not> tight" using tight_room(2) [OF _ i(1)] ok by (cases tight) auto
      then show ?thesis using i ResRealtime False insert_full [OF False] release_index_views(4) [OF ok i(1)]
        by (simp add: rollback_result_def)
    qed
  qed
  then show "pending_shape tight (fst (rollback_reservation v r p))" "snd (rollback_reservation v r p) = rollback_result p v"
    "snd (commit_reservation v p) = Inr ()" "tight \<Longrightarrow> rollback_result p v = Inr ()" by auto
qed

text \<open>Putting a signal to the front keeps the weaker form, and for a standard signal the invariant.\<close>

lemma requeue_frame:
  "standard_reserved (fst (requeue_front r p)) = standard_reserved p" "held_sequences (fst (requeue_front r p)) = held_sequences p"
  by (simp_all add: requeue_front_def allocate_eq held_sequences_def)

lemma requeue_ok:
  assumes ok: "pending_shape tight p" and t: "signal_typed r"
  shows "pending_shape (tight \<and> (ps_signum r < LINUX_REALTIME_SIGNAL_MIN \<or> snd (requeue_front r p) \<noteq> Inr ())) (fst (requeue_front r p))"
proof (cases "1 \<le> ps_signum r \<and> ps_signum r \<le> LINUX_MAX_SIGNAL")
  case False
  then show ?thesis using ok by (simp add: requeue_front_def)
next
  case v: True
  then obtain n where n: "n < 64" "ps_signum r = of_nat n + 1" "unat (ps_signum r) = Suc n" "linux_signal_bit (ps_signum r) = 2 ^ n"
    using signum_bit by blast
  note d = pending_shapeD [OF ok]
  show ?thesis
  proof (cases "ps_signum r < LINUX_REALTIME_SIGNAL_MIN")
    case True
    then have "n < 31" using n(3) by (rule signum_standard)
    then have "std_ok (standard_pending p OR 2 ^ n) (standard_reserved p) ((standard_records p)[Suc n := r])"
      using d(1) t n(2) by (intro std_queue)
    then show ?thesis using ok v True n(3,4) by (simp add: requeue_front_def pending_shape_def queue_views)
  next
    case rt: False
    show ?thesis
    proof (cases "LINUX_RT_QUEUE_LIMIT \<le> realtime_len p \<or> next_realtime_sequence p = 0")
      case True
      then have "requeue_front r p = (p, Inl QueueFull)" using v rt by (auto simp: requeue_front_def allocate_eq)
      then show ?thesis using ok by simp
    next
      case room: False
      then have lt: "realtime_len p < LINUX_RT_QUEUE_LIMIT" by simp
      have shape: "rt_shape False (next_realtime_sequence p + 1) (r # queued_signals p) (next_realtime_sequence p # queued_sequences p) (held_sequences p)"
        using d(5,7) room rt v t by (intro rt_front) auto
      note a = padded_insert [OF d(2) lt, of 0 r] padded_insert [OF d(3) lt, of 0 "next_realtime_sequence p"]
      have "requeue_front r p =
         (p\<lparr>next_realtime_sequence := next_realtime_sequence p + 1,
            realtime_pending := (shift_up 0 (realtime_len p) (realtime_pending p))[0 := r],
            realtime_sequences := (shift_up 0 (realtime_len p) (realtime_sequences p))[0 := next_realtime_sequence p],
            realtime_len := realtime_len p + 1\<rparr>, Inr ())"
        using v rt room by (simp add: requeue_front_def allocate_eq)
      then show ?thesis using d(1,4) a rt shape by (simp add: pending_shape_def queue_views vec_insert_def)
    qed
  qed
qed

lemma nth_clear_range:
  "k < length xs \<Longrightarrow> fold (\<lambda>index xs. xs[index := e]) [a..<b] xs ! k = (if a \<le> k \<and> k < b then e else xs ! k)"
  "length (fold (\<lambda>index xs. xs[index := e]) [a..<b] xs) = length xs"
  by (induction b arbitrary: k) (auto simp: nth_list_update less_Suc_eq)

lemma padded_clear:
  assumes "padded e N xs0 n" "length xs = N" "w \<le> n" "\<And>j. n \<le> j \<Longrightarrow> j < N \<Longrightarrow> xs ! j = xs0 ! j"
  shows "padded e N (fold (\<lambda>index xs. xs[index := e]) [w..<n] xs) w"
    "take w (fold (\<lambda>index xs. xs[index := e]) [w..<n] xs) = take w xs"
proof -
  show "padded e N (fold (\<lambda>index xs. xs[index := e]) [w..<n] xs) w"
    by (rule paddedI) (use assms padded_nth [OF assms(1)] in \<open>auto simp: nth_clear_range padded_def\<close>)
  show "take w (fold (\<lambda>index xs. xs[index := e]) [w..<n] xs) = take w xs"
    by (rule nth_equalityI) (use assms in \<open>auto simp: nth_clear_range padded_def\<close>)
qed

lemma sorted_filter_nth:
  assumes "sorted_wrt (<) xs" "\<And>j. j \<in> set js \<Longrightarrow> j < length xs" "sorted_wrt (<) js"
  shows "sorted_wrt (<) (map ((!) xs) js)"
  using assms(2,3) by (induction js) (auto intro: sorted_wrt_nth_less [OF assms(1)])

lemma std_discard:
  assumes "std_ok pending reserved records"
  shows "std_ok (pending AND NOT (linux_signal_bit signum)) reserved
     (if signum < LINUX_REALTIME_SIGNAL_MIN then records[unat signum := EMPTY_SIGNAL] else records)"
proof (cases "1 \<le> signum \<and> signum \<le> LINUX_MAX_SIGNAL")
  case True
  then obtain n where n: "unat signum = Suc n" "linux_signal_bit signum = 2 ^ n" using signum_bit by metis
  show ?thesis
  proof (cases "signum < LINUX_REALTIME_SIGNAL_MIN")
    case True
    then show ?thesis using std_take(2) [OF assms signum_standard [OF True n(1)]] n by simp
  qed (use assms n in \<open>auto simp: std_ok_def bit_simps\<close>)
next
  case False
  then have "linux_signal_bit signum = 0" by (simp add: linux_signal_bit_def)
  moreover have "signum = 0" if "signum < LINUX_REALTIME_SIGNAL_MIN"
    using False standard_below_max [OF that] by (simp add: word_le_nat_alt word_unat_eq_iff)
  moreover have "std_ok pending reserved (records[0 := EMPTY_SIGNAL])"
    using assms set_update_subset_insert [of records 0 EMPTY_SIGNAL] unfolding std_ok_def by auto
  ultimately show ?thesis using assms by auto
qed

lemma rt_subset:
  assumes "rt_shape tight nxt recs seqs held" "length recs' = length seqs'" "length seqs' \<le> length seqs" "distinct seqs'"
    "tight \<Longrightarrow> sorted_wrt (<) seqs'" "set recs' \<subseteq> set recs" "set seqs' \<subseteq> set seqs"
  shows "rt_shape tight nxt recs' seqs' held"
proof -
  have "tight \<Longrightarrow> length seqs' + length held \<le> LINUX_RT_QUEUE_LIMIT" using assms(1,3) by (simp add: rt_shape_def)
  moreover have "set held \<inter> set seqs' = {}" using assms(1,7) by (auto simp: rt_shape_def)
  moreover have "\<forall>s\<in>set seqs' \<union> set held. s \<noteq> 0 \<and> (nxt = 0 \<or> s < nxt)" using assms(1,7) unfolding rt_shape_def by blast
  moreover have "distinct held" "length held \<le> LINUX_RT_QUEUE_LIMIT" "length seqs' \<le> LINUX_RT_QUEUE_LIMIT"
    using assms(1,3) by (simp_all add: rt_shape_def)
  moreover have "\<forall>record\<in>set recs'. LINUX_REALTIME_SIGNAL_MIN \<le> ps_signum record \<and> ps_signum record \<le> LINUX_MAX_SIGNAL \<and> signal_typed record"
    using assms(1,6) unfolding rt_shape_def by blast
  ultimately show ?thesis using assms(2,4,5) by (simp add: rt_shape_def)
qed

lemma discard_views:
  fixes signum :: usize
  assumes ok: "pending_shape tight p"
  defines "kept \<equiv> filter (\<lambda>j. ps_signum (queued_signals p ! j) \<noteq> signum) [0..<realtime_len p]"
  shows "queued_signals (pending_discard signum p) = map ((!) (queued_signals p)) kept"
    "queued_sequences (pending_discard signum p) = map ((!) (queued_sequences p)) kept"
    "held_sequences (pending_discard signum p) = held_sequences p"
    "pending_shape tight (pending_discard signum p)"
proof -
  note d = pending_shapeD [OF ok]
  obtain w P S where l: "discard_loop signum [0..<realtime_len p] 0 (realtime_pending p) (realtime_sequences p) = (w, P, S)"
    by (metis prod_cases3)
  have len: "realtime_len p \<le> length (realtime_pending p)" "length (realtime_sequences p) = length (realtime_pending p)"
    "length (realtime_pending p) = LINUX_RT_QUEUE_LIMIT"
    using d(2,3) by (auto simp: padded_def)
  have q: "realtime_pending p ! j = queued_signals p ! j \<and> realtime_sequences p ! j = queued_sequences p ! j" if "j < realtime_len p" for j
    using that by (simp add: queue_views)
  note s = discard_loop_spec [where ?P0.0 = "queued_signals p" and ?S0.0 = "queued_sequences p", OF _ len(1,2) _ l, folded kept_def]
  have s: "w = length kept" "take w P = map ((!) (queued_signals p)) kept" "take w S = map ((!) (queued_sequences p)) kept"
    "length P = LINUX_RT_QUEUE_LIMIT" "length S = LINUX_RT_QUEUE_LIMIT"
    "\<And>j. realtime_len p \<le> j \<Longrightarrow> P ! j = realtime_pending p ! j \<and> S ! j = realtime_sequences p ! j"
    using s q len(3) by simp_all
  have s7: "P ! j = realtime_pending p ! j" "S ! j = realtime_sequences p ! j" if "realtime_len p \<le> j" "j < LINUX_RT_QUEUE_LIMIT" for j
    using s(6) that by simp_all
  have w: "w \<le> realtime_len p" using s(1) length_filter_le [of _ "[0..<realtime_len p]"] by (simp add: kept_def)
  note a = padded_clear [OF d(2) s(4) w s7(1)] padded_clear [OF d(3) s(5) w s7(2)]
  have f: "pending_discard signum p = p\<lparr>standard_pending := standard_pending p AND NOT (linux_signal_bit signum),
      standard_records := (if signum < LINUX_REALTIME_SIGNAL_MIN then (standard_records p)[unat signum := EMPTY_SIGNAL] else standard_records p),
      realtime_pending := fold (\<lambda>index xs. xs[index := EMPTY_SIGNAL]) [w..<realtime_len p] P,
      realtime_sequences := fold (\<lambda>index xs. xs[index := 0]) [w..<realtime_len p] S, realtime_len := w\<rparr>"
    unfolding pending_discard_def l by (simp add: Let_def)
  have "queued_signals (pending_discard signum p) = take w P" "queued_sequences (pending_discard signum p) = take w S"
    unfolding f queue_views by (simp_all add: a(2,4))
  then show v: "queued_signals (pending_discard signum p) = map ((!) (queued_signals p)) kept"
    "queued_sequences (pending_discard signum p) = map ((!) (queued_sequences p)) kept" by (simp_all only: s(2,3))
  show v3: "held_sequences (pending_discard signum p) = held_sequences p" unfolding f held_sequences_def by simp
  have kj: "j < realtime_len p" if "j \<in> set kept" for j using that by (simp add: kept_def)
  have dis: "distinct (map ((!) (queued_sequences p)) kept)"
    using d(5) d(7) kj unfolding distinct_map kept_def by (auto simp: rt_shape_def inj_on_def nth_eq_iff_index_eq)
  have srt: "sorted_wrt (<) (map ((!) (queued_sequences p)) kept)" if tight
  proof (rule sorted_filter_nth)
    show "sorted_wrt (<) (queued_sequences p)" using d(5) that by (simp add: rt_shape_def)
    show "sorted_wrt (<) kept" unfolding kept_def by (intro sorted_wrt_filter) simp
  qed (simp add: d(7) kj)
  have sub: "set (map ((!) (queued_signals p)) kept) \<subseteq> set (queued_signals p)" "set (map ((!) (queued_sequences p)) kept) \<subseteq> set (queued_sequences p)"
    using kj d(6,7) by auto
  have rt: "rt_shape tight (next_realtime_sequence p) (map ((!) (queued_signals p)) kept) (map ((!) (queued_sequences p)) kept) (held_sequences p)"
    by (rule rt_subset [OF d(5) _ _ dis srt sub]) (use w s(1) d(7) in simp_all)
  have "std_ok (standard_pending p AND NOT (linux_signal_bit signum)) (standard_reserved p)
     (if signum < LINUX_REALTIME_SIGNAL_MIN then (standard_records p)[unat signum := EMPTY_SIGNAL] else standard_records p)"
    by (rule std_discard [OF d(1)])
  then show "pending_shape tight (pending_discard signum p)"
    unfolding pending_shape_def v v3 using rt a(1,3) d(4) by (simp add: f)
qed

lemma new_ok: "pending_shape tight pending_new"
  by (simp add: pending_shape_def pending_new_def std_ok_def rt_shape_def padded_def queue_views LINUX_RT_QUEUE_LIMIT_def LINUX_REALTIME_SIGNAL_MIN_def)

lemma reset_new:
  assumes "pending_shape tight p"
  shows "pending_reset_in_place p = pending_new"
proof -
  note d = pending_shapeD [OF assms]
  have e: "record\<lparr>ps_signum := 0, ps_has_info := False, ps_info := map (\<lambda>_. 0) (ps_info record), ps_timer_pid := 0, ps_timer_id := 0\<rparr> = EMPTY_SIGNAL"
    if "signal_typed record" for "record"
    using that by (cases "record") (simp add: signal_typed_def EMPTY_SIGNAL_def map_replicate_const)
  have t: "signal_typed r" if "r \<in> set (realtime_pending p)" for r
  proof -
    have "realtime_pending p = queued_signals p @ replicate (LINUX_RT_QUEUE_LIMIT - realtime_len p) EMPTY_SIGNAL"
      using d(2) unfolding padded_def queued_signals_def by (metis append_take_drop_id)
    then have "r \<in> set (queued_signals p) \<or> r = EMPTY_SIGNAL" using that by (metis Un_iff in_set_replicate set_append)
    then show ?thesis using d(5) by (auto simp: rt_shape_def)
  qed
  have "map (\<lambda>record. record\<lparr>ps_signum := 0, ps_has_info := False, ps_info := map (\<lambda>_. 0) (ps_info record), ps_timer_pid := 0, ps_timer_id := 0\<rparr>)
      (standard_records p) = replicate (unat LINUX_REALTIME_SIGNAL_MIN) EMPTY_SIGNAL"
    using d(1) e by (auto simp: std_ok_def LINUX_REALTIME_SIGNAL_MIN_def intro!: replicate_eqI)
  moreover have "map (\<lambda>record. record\<lparr>ps_signum := 0, ps_has_info := False, ps_info := map (\<lambda>_. 0) (ps_info record), ps_timer_pid := 0, ps_timer_id := 0\<rparr>)
      (realtime_pending p) = replicate LINUX_RT_QUEUE_LIMIT EMPTY_SIGNAL"
    using d(2) e t by (auto simp: padded_def intro!: replicate_eqI)
  ultimately show ?thesis using d(3,4) by (simp add: pending_reset_in_place_def pending_new_def padded_def map_replicate_const)
qed

subsection \<open>Runs of a signal queue\<close>

text \<open>
  A run of all operations that change one queue, with the reservations that are neither committed nor
  rolled back.  The flag says that no realtime signal was put to the front of the queue by
  \<open>requeue_front\<close> since the queue was new or reset.  (The kernel calls \<open>requeue_front\<close> for a signal
  without a reservation, and it takes every signal that it delivers with one.)  A reservation is gone
  after its commit or rollback, also when the rollback fails.  The information block of every signal
  has the 128 bytes of its array type.
\<close>

inductive pending_run :: "bool \<Rightarrow> LinuxPendingSignals \<Rightarrow> (LinuxPendingSignalReservation \<times> LinuxPendingSignal) list \<Rightarrow> bool" where
  run_new: "pending_run True pending_new []"
| run_queue: "pending_run tight p out \<Longrightarrow> signal_typed r \<Longrightarrow> pending_run tight (fst (pending_queue r p)) out"
| run_direct: "pending_run tight p out \<Longrightarrow> signal_typed r \<Longrightarrow> reserve_direct r p = (p', Inr (Some v)) \<Longrightarrow> pending_run tight p' ((v, r) # out)"
| run_direct_not: "pending_run tight p out \<Longrightarrow> signal_typed r \<Longrightarrow> reserve_direct r p = (p', res) \<Longrightarrow> (\<forall>v. res \<noteq> Inr (Some v)) \<Longrightarrow> pending_run tight p' out"
| run_take: "pending_run tight p out \<Longrightarrow> take_eligible_reserved f p = (p', Some (r, v)) \<Longrightarrow> pending_run tight p' ((v, r) # out)"
| run_take_not: "pending_run tight p out \<Longrightarrow> take_eligible_reserved f p = (p', None) \<Longrightarrow> pending_run tight p' out"
| run_consume: "pending_run tight p out \<Longrightarrow> pending_run tight (fst (take_eligible f p)) out"
| run_commit: "pending_run tight p out \<Longrightarrow> (v, r) \<in> set out \<Longrightarrow> commit_reservation v p = (p', res) \<Longrightarrow> pending_run tight p' (remove1 (v, r) out)"
| run_rollback: "pending_run tight p out \<Longrightarrow> (v, r) \<in> set out \<Longrightarrow> rollback_reservation v r p = (p', res) \<Longrightarrow> pending_run tight p' (remove1 (v, r) out)"
| run_requeue: "pending_run tight p out \<Longrightarrow> signal_typed r \<Longrightarrow> requeue_front r p = (p', res) \<Longrightarrow>
    pending_run (tight \<and> (ps_signum r < LINUX_REALTIME_SIGNAL_MIN \<or> res \<noteq> Inr ())) p' out"
| run_discard: "pending_run tight p out \<Longrightarrow> pending_run tight (pending_discard signum p) out"
| run_discard_stop: "pending_run tight p out \<Longrightarrow> pending_run tight (discard_stop_signals p) out"
| run_reset: "pending_run tight p out \<Longrightarrow> pending_run True (pending_reset_in_place p) []"

definition outstanding_ok :: "LinuxPendingSignals \<Rightarrow> (LinuxPendingSignalReservation \<times> LinuxPendingSignal) list \<Rightarrow> bool" where
  "outstanding_ok p out = (distinct (map fst out) \<and> (\<forall>(v, r)\<in>set out. holds_reservation p v r))"

text \<open>A reservation stays held while neither its standard bit nor its sequence number leaves the queue.\<close>

lemma holds_mono:
  assumes "holds_reservation p v r"
    "\<And>n. v = ResStandard (of_nat n + 1) \<Longrightarrow> n < 31 \<Longrightarrow> bit (standard_reserved p) n \<Longrightarrow> bit (standard_reserved p') n"
    "\<And>q. v = ResRealtime q \<Longrightarrow> q \<in> set (held_sequences p) \<Longrightarrow> q \<in> set (held_sequences p')"
  shows "holds_reservation p' v r"
proof (cases v)
  case (ResStandard s)
  obtain n where n: "n < 31" "s = of_nat n + 1" "linux_signal_bit s = 2 ^ n" "bit (standard_reserved p) n"
    using commit_standard assms(1) [unfolded ResStandard] by metis
  then have "bit (standard_reserved p') n" using assms(2) ResStandard by blast
  then show ?thesis using assms(1) ResStandard n(3) by (auto simp: holds_reservation_def and_bit_eq_0)
next
  case (ResRealtime q)
  then show ?thesis using assms(1,3) by (simp add: holds_reservation_def)
qed

lemma outstanding_frame:
  assumes "outstanding_ok p out" "standard_reserved p' = standard_reserved p" "held_sequences p' = held_sequences p"
  shows "outstanding_ok p' out"
  using assms(1) unfolding outstanding_ok_def holds_reservation_def assms(2,3) .

lemma outstanding_add:
  assumes "outstanding_ok p out" "\<And>r'. \<not> holds_reservation p v r'" "holds_reservation p' v r"
    "\<And>n. bit (standard_reserved p) n \<Longrightarrow> bit (standard_reserved p') n" "set (held_sequences p) \<subseteq> set (held_sequences p')"
  shows "outstanding_ok p' ((v, r) # out)"
proof -
  have h: "holds_reservation p w s" if "(w, s) \<in> set out" for w s using assms(1) that by (auto simp: outstanding_ok_def)
  have "holds_reservation p' w s" if "(w, s) \<in> set out" for w s
    by (rule holds_mono [OF h [OF that]]) (use assms(4,5) in auto)
  moreover have "v \<notin> fst ` set out" using h assms(2) by fastforce
  ultimately show ?thesis using assms(1,3) by (auto simp: outstanding_ok_def)
qed

lemma outstanding_remove:
  assumes "outstanding_ok p out" "(v, r) \<in> set out"
    "\<And>n. v \<noteq> ResStandard (of_nat n + 1) \<Longrightarrow> n < 31 \<Longrightarrow> bit (standard_reserved p) n \<Longrightarrow> bit (standard_reserved p') n"
    "\<And>q. v \<noteq> ResRealtime q \<Longrightarrow> q \<in> set (held_sequences p) \<Longrightarrow> q \<in> set (held_sequences p')"
  shows "outstanding_ok p' (remove1 (v, r) out)"
proof -
  have d: "distinct (map fst out)" using assms(1) by (simp add: outstanding_ok_def)
  have "holds_reservation p' w s \<and> w \<noteq> v" if ws: "(w, s) \<in> set (remove1 (v, r) out)" for w s
  proof -
    have m: "(w, s) \<in> set out" "(w, s) \<noteq> (v, r)" using ws d by (auto simp: distinct_map)
    have ne: "w \<noteq> v" using m assms(2) d eq_key_imp_eq_value by metis
    have "holds_reservation p w s" using assms(1) m(1) by (auto simp: outstanding_ok_def)
    then have "holds_reservation p' w s" by (rule holds_mono) (use assms(3,4) ne in auto)
    with ne show ?thesis by simp
  qed
  moreover have "distinct (map fst (remove1 (v, r) out))"
    using d by (metis distinct_map distinct_remove1 inj_on_subset set_remove1_subset)
  ultimately show ?thesis unfolding outstanding_ok_def by blast
qed

lemma queue_frame:
  "standard_reserved (fst (pending_queue r p)) = standard_reserved p" "held_sequences (fst (pending_queue r p)) = held_sequences p"
  by (simp_all add: pending_queue_def Let_def allocate_eq held_sequences_def)

lemma take_eligible_frame:
  "standard_reserved (fst (take_eligible f p)) = standard_reserved p" "held_sequences (fst (take_eligible f p)) = held_sequences p"
  by (simp_all add: take_eligible_def remove_realtime_index_def held_sequences_def split: option.split)

lemma discard_frame: "standard_reserved (pending_discard signum p) = standard_reserved p" "held_sequences (pending_discard signum p) = held_sequences p"
  by (simp_all add: pending_discard_def Let_def held_sequences_def split: prod.split)

lemma direct_outstanding:
  assumes ok: "pending_shape tight p" and o: "outstanding_ok p out" and t: "signal_typed r" and e: "reserve_direct r p = (p', Inr (Some v))"
  shows "outstanding_ok p' ((v, r) # out)"
proof -
  have sg: "1 \<le> ps_signum r" "ps_signum r \<le> LINUX_MAX_SIGNAL" using e by (auto simp: reserve_direct_def split: if_splits)
  note d = pending_shapeD [OF ok]
  show ?thesis
  proof (cases "ps_signum r < LINUX_REALTIME_SIGNAL_MIN")
    case True
    obtain n where n: "linux_signal_bit (ps_signum r) = 2 ^ n" "n < 64" using signum_bit sg by metis
    have nb: "\<not> bit (standard_reserved p) n"
      using e sg True n by (auto simp: reserve_direct_def Let_def and_bit_eq_0 split: if_splits prod.splits sum.splits)
    then have p': "p' = p\<lparr>standard_reserved := standard_reserved p OR 2 ^ n\<rparr>" "v = ResStandard (ps_signum r)"
      using e sg True n by (auto simp: reserve_direct_def Let_def and_bit_eq_0)
    show ?thesis
      by (rule outstanding_add [OF o]) (use p' n nb sg True t in \<open>auto simp: holds_reservation_def and_bit_eq_0 held_sequences_def bit_simps\<close>)
  next
    case False
    then have room: "\<not> LINUX_RT_QUEUE_LIMIT \<le> realtime_len p + realtime_reserved p" "next_realtime_sequence p \<noteq> 0"
      using e sg by (auto simp: reserve_direct_def allocate_eq split: if_splits)
    have lt: "realtime_reserved p < LINUX_RT_QUEUE_LIMIT" using room by simp
    have fresh: "next_realtime_sequence p \<notin> set (held_sequences p)" using rt_fresh(1) [OF d(5)] room by auto
    have p': "held_sequences p' = held_sequences p @ [next_realtime_sequence p]" "standard_reserved p' = standard_reserved p"
      "v = ResRealtime (next_realtime_sequence p)"
      using e sg False room fresh padded_push(2) [OF d(4) lt, of "next_realtime_sequence p"]
      by (auto simp: reserve_direct_def allocate_eq reserve_realtime_sequence_def held_sequences_def)
    show ?thesis by (rule outstanding_add [OF o]) (use p' fresh sg False t in \<open>auto simp: holds_reservation_def\<close>)
  qed
qed

lemma take_outstanding:
  assumes ok: "pending_shape tight p" and o: "outstanding_ok p out" and e: "take_eligible_reserved f p = (p', Some (r, v))"
  shows "outstanding_ok p' ((v, r) # out)"
  using ok e
proof (cases rule: take_reserved_cases)
  case (standard n)
  have t: "signal_typed (standard_records p ! Suc n)" using pending_shapeD(1) [OF ok] standard(1) by (simp add: std_ok_def)
  have s: "1 \<le> (of_nat n + 1 :: usize)" "(of_nat n + 1 :: usize) < LINUX_REALTIME_SIGNAL_MIN"
    using standard(1,2) by (simp_all add: word_le_nat_alt word_less_nat_alt LINUX_REALTIME_SIGNAL_MIN_def)
  have b: "bit (standard_reserved p OR 2 ^ n) n" using standard(1) by (simp add: bit_simps)
  show ?thesis
    by (rule outstanding_add [OF o]) (use standard s t b in \<open>auto simp: holds_reservation_def and_bit_eq_0 held_sequences_def bit_simps\<close>)
next
  case (realtime i)
  note d = pending_shapeD [OF ok]
  note v = reserve_index_views [OF ok realtime(3,4)]
  have m: "queued_signals p ! i \<in> set (queued_signals p)" "queued_sequences p ! i \<in> set (queued_sequences p)"
    using realtime(3) d(6,7) by simp_all
  have q: "queued_sequences p ! i \<notin> set (held_sequences p)" using d(5) m(2) by (auto simp: rt_shape_def)
  have "standard_reserved p' = standard_reserved p" using realtime(5) by (simp add: reserve_index_def remove_realtime_index_def)
  then show ?thesis
    by (intro outstanding_add [OF o]) (use realtime(5,6) v(3) d(5) m(1) q in \<open>auto simp: holds_reservation_def rt_shape_def\<close>)
qed simp_all

lemma in_vec_remove: "x \<in> set xs \<Longrightarrow> i < length xs \<Longrightarrow> x \<noteq> xs ! i \<Longrightarrow> x \<in> set (vec_remove xs i)"
  using vec_remove_split [of i xs] by (metis Un_iff set_ConsD set_append)

lemma release_outstanding:
  assumes ok: "pending_shape tight p" and o: "outstanding_ok p out" and m: "(v, r) \<in> set out"
  shows "outstanding_ok (fst (commit_reservation v p)) (remove1 (v, r) out)" "outstanding_ok (fst (rollback_reservation v r p)) (remove1 (v, r) out)"
proof -
  have h: "holds_reservation p v r" using o m by (auto simp: outstanding_ok_def)
  have "outstanding_ok (fst (commit_reservation v p)) (remove1 (v, r) out) \<and> outstanding_ok (fst (rollback_reservation v r p)) (remove1 (v, r) out)"
  proof (cases v)
    case (ResStandard s)
    obtain n where n: "n < 31" "s = of_nat n + 1"
      "commit_reservation (ResStandard s) p = (p\<lparr>standard_reserved := standard_reserved p AND NOT (2 ^ n)\<rparr>, Inr ())"
      "rollback_reservation (ResStandard s) r p =
       (p\<lparr>standard_reserved := standard_reserved p AND NOT (2 ^ n), standard_pending := standard_pending p OR 2 ^ n,
          standard_records := (standard_records p)[Suc n := r]\<rparr>, Inr ())"
      using commit_standard h [unfolded ResStandard] by metis
    show ?thesis unfolding ResStandard n(3,4)
      by (intro conjI outstanding_remove [OF o m [unfolded ResStandard]]) (use n(1,2) in \<open>auto simp: bit_simps held_sequences_def\<close>)
  next
    case (ResRealtime q)
    obtain i where i: "i < realtime_reserved p" "q = held_sequences p ! i" "commit_reservation (ResRealtime q) p = (release_index i p, Inr ())"
      "rollback_reservation (ResRealtime q) r p = insert_realtime_by_sequence q r (release_index i p)"
      using commit_realtime [OF ok h [unfolded ResRealtime]] by metis
    have r: "LINUX_REALTIME_SIGNAL_MIN \<le> ps_signum r" "ps_signum r \<le> LINUX_MAX_SIGNAL" "signal_typed r"
      using h ResRealtime by (simp_all add: holds_reservation_def)
    have s: "standard_reserved (release_index i p) = standard_reserved p" by (simp add: release_index_def)
    have "held_sequences (release_index i p) = vec_remove (held_sequences p) i" by (rule release_index_views(3) [OF ok i(1)])
    then obtain p' res where p': "insert_realtime_by_sequence q r (release_index i p) = (p', res)"
      "held_sequences p' = vec_remove (held_sequences p) i" "standard_reserved p' = standard_reserved p"
      using insert_sequence [OF ok i(1) _ r] insert_full [of p q r i] i(2) s by metis
    note x = in_vec_remove [of _ "held_sequences p" i, folded i(2)] release_index_views(3) [OF ok i(1)] pending_shapeD(8) [OF ok]
    show ?thesis unfolding ResRealtime i(3,4) p'(1)
      by (intro conjI outstanding_remove [OF o m [unfolded ResRealtime]]) (use i(1) p'(2,3) s x in auto)
  qed
  then show "outstanding_ok (fst (commit_reservation v p)) (remove1 (v, r) out)" "outstanding_ok (fst (rollback_reservation v r p)) (remove1 (v, r) out)"
    by auto
qed

lemma discard_stop_eq: "discard_stop_signals p = pending_discard 22 (pending_discard 21 (pending_discard 20 (pending_discard 19 p)))"
  by (simp add: discard_stop_signals_def)

lemma pending_run_invariant: "pending_run tight p out \<Longrightarrow> pending_shape tight p \<and> outstanding_ok p out"
proof (induction rule: pending_run.induct)
  case run_new
  then show ?case using new_ok by (simp add: outstanding_ok_def)
next
  case (run_queue tight p out r)
  then show ?case using pending_queue_ok outstanding_frame [OF _ queue_frame] by blast
next
  case (run_direct tight p out r p' v)
  then show ?case using reserve_direct_ok [of tight p r] direct_outstanding by (metis fst_conv)
next
  case (run_direct_not tight p out r p' res)
  have "standard_reserved p' = standard_reserved p \<and> held_sequences p' = held_sequences p"
    using run_direct_not.hyps(3,4) queue_frame [of r p] run_direct_not.IH
    by (auto simp: reserve_direct_def allocate_eq reserve_realtime_sequence_def held_sequences_def Let_def split: if_splits prod.splits sum.splits)
  then show ?case using run_direct_not reserve_direct_ok [of tight p r] outstanding_frame by (metis fst_conv)
next
  case (run_take tight p out f p' r v)
  then show ?case using take_reserved_ok [of tight p f] take_outstanding by (metis fst_conv)
next
  case (run_take_not tight p out f p')
  then have "p' = p" by (auto elim!: take_reserved_cases)
  then show ?case using run_take_not by simp
next
  case (run_consume tight p out f)
  then show ?case using take_eligible_ok outstanding_frame [OF _ take_eligible_frame] by blast
next
  case (run_commit tight p out v r p' res)
  then show ?case using commit_ok [of tight p v] release_outstanding(1) by (metis fst_conv)
next
  case (run_rollback tight p out v r p' res)
  then have "holds_reservation p v r" by (auto simp: outstanding_ok_def)
  then show ?case using run_rollback rollback_ok(1) [of tight p v r] release_outstanding(2) by (metis fst_conv)
next
  case (run_requeue tight p out r p' res)
  then show ?case using requeue_ok [of tight p r] requeue_frame [of r p] outstanding_frame [of p out p'] by simp
next
  case (run_discard tight p out signum)
  then show ?case using discard_views(4) outstanding_frame [OF _ discard_frame] by blast
next
  case (run_discard_stop tight p out)
  then show ?case unfolding discard_stop_eq using discard_views(4) outstanding_frame [OF _ discard_frame] by metis
next
  case (run_reset tight p out)
  then show ?case using reset_new [of tight p] new_ok by (simp add: outstanding_ok_def)
qed

subsection \<open>What is taken, and what a rollback puts back\<close>

text \<open>The pending records in the order of delivery within each class: the standard ones by their number, then the realtime queue;
and those of them that may be taken now.\<close>

definition pending_list :: "LinuxPendingSignals \<Rightarrow> LinuxPendingSignal list" where
  "pending_list p = map (\<lambda>n. standard_records p ! Suc n) (filter (bit (standard_pending p)) [0..<31]) @ queued_signals p"

definition standard_ready :: "(usize \<Rightarrow> bool) \<Rightarrow> LinuxPendingSignals \<Rightarrow> nat \<Rightarrow> bool" where
  "standard_ready f p n = (bit (standard_pending p) n \<and> \<not> bit (standard_reserved p) n \<and> f (of_nat n + 1))"

definition deliverable :: "(usize \<Rightarrow> bool) \<Rightarrow> LinuxPendingSignals \<Rightarrow> LinuxPendingSignal list" where
  "deliverable f p =
     map (\<lambda>n. standard_records p ! Suc n) (filter (standard_ready f p) [0..<31]) @ filter (\<lambda>r. f (ps_signum r)) (queued_signals p)"

lemma find_filter: "List.find P (filter Q xs) = List.find (\<lambda>x. Q x \<and> P x) xs"
  by (induction xs) auto

lemma filter_upt_first:
  assumes "n < k" "Q n" "\<And>m. m < n \<Longrightarrow> \<not> Q m"
  shows "filter Q [0..<k] = n # filter Q [Suc n..<k]"
proof -
  have "[0..<k] = [0..<n] @ n # [Suc n..<k]" using assms(1) upt_add_eq_append [of 0 n "k - n"] upt_conv_Cons [of n k] by simp
  moreover have "filter Q [0..<n] = []" using assms(3) by (simp add: filter_empty_conv)
  ultimately show ?thesis using assms(2) by simp
qed

lemma remove1_map_inj: "inj_on g (set xs) \<Longrightarrow> n \<in> set xs \<Longrightarrow> remove1 (g n) (map g xs) = map g (remove1 n xs)"
  by (induction xs) (auto simp: inj_on_def)

lemma remove1_filter_upt: "remove1 n (filter P [0..<k]) = filter (\<lambda>m. P m \<and> m \<noteq> n) [0..<k]"
  by (simp add: distinct_remove1_removeAll removeAll_filter_not_eq) (rule filter_cong, auto)

lemma standard_number: "m < 31 \<Longrightarrow> unat (of_nat m + 1 :: usize) = Suc m"
  by (simp add: unat_word_ariths unat_of_nat)

lemma standard_below_realtime: "n < 31 \<Longrightarrow> LINUX_REALTIME_SIGNAL_MIN \<le> s \<Longrightarrow> of_nat n + 1 < s"
  using standard_number [of n] by (simp add: LINUX_REALTIME_SIGNAL_MIN_def word_le_nat_alt word_less_nat_alt)

lemma standard_signum:
  "pending_shape tight p \<Longrightarrow> bit (standard_pending p) m \<Longrightarrow> m < 31 \<and> ps_signum (standard_records p ! Suc m) = of_nat m + 1"
  using pending_shapeD(1) by (auto simp: std_ok_def)

lemma realtime_signum: "pending_shape tight p \<Longrightarrow> r \<in> set (queued_signals p) \<Longrightarrow> LINUX_REALTIME_SIGNAL_MIN \<le> ps_signum r"
  using pending_shapeD(5) by (auto simp: rt_shape_def)

lemma standard_first:
  assumes ok: "pending_shape tight p" and n: "n < 31" "standard_ready f p n" "\<And>m. m < n \<Longrightarrow> \<not> standard_ready f p m"
  defines "r \<equiv> standard_records p ! Suc n"
  shows "List.find (\<lambda>x. ps_signum x = ps_signum r) (deliverable f p) = Some r" "\<forall>x\<in>set (deliverable f p). ps_signum r \<le> ps_signum x"
proof -
  note h = filter_upt_first [of n 31 "standard_ready f p", OF n(1,2)] n(3)
  have sr: "ps_signum r = of_nat n + 1" using standard_signum [OF ok] n(2) unfolding r_def standard_ready_def by blast
  have dl: "deliverable f p = r # map (\<lambda>n. standard_records p ! Suc n) (filter (standard_ready f p) [Suc n..<31]) @ filter (\<lambda>r. f (ps_signum r)) (queued_signals p)"
    using h by (simp add: deliverable_def r_def)
  show "List.find (\<lambda>x. ps_signum x = ps_signum r) (deliverable f p) = Some r" by (simp add: dl)
  have "ps_signum r \<le> ps_signum (standard_records p ! Suc m)" if "Suc n \<le> m" "m < 31" "standard_ready f p m" for m
    using standard_signum [OF ok, of m] that sr standard_number [of n] standard_number [of m] n(1) by (simp add: standard_ready_def word_le_nat_alt)
  moreover have "ps_signum r \<le> ps_signum x" if "x \<in> set (queued_signals p)" for x
    using realtime_signum [OF ok that] standard_below_realtime [OF n(1)] sr by fastforce
  ultimately show "\<forall>x\<in>set (deliverable f p). ps_signum r \<le> ps_signum x" unfolding dl by auto
qed

lemma standard_removed:
  assumes ok: "pending_shape tight p" and n: "n < 31" "bit (standard_pending p) n"
    and p': "standard_pending p' = standard_pending p AND NOT (2 ^ n)" "standard_records p' = (standard_records p)[Suc n := EMPTY_SIGNAL]"
      "queued_signals p' = queued_signals p"
  shows "pending_list p' = remove1 (standard_records p ! Suc n) (pending_list p)"
proof -
  let ?g = "\<lambda>m. standard_records p ! Suc m" and ?ns = "filter (bit (standard_pending p)) [0..<31]"
  have l: "length (standard_records p) = 32" using pending_shapeD(1) [OF ok] by (simp add: std_ok_def)
  have inj: "inj_on ?g (set ?ns)"
  proof (rule inj_onI)
    fix a b assume ab: "a \<in> set ?ns" "b \<in> set ?ns" "?g a = ?g b"
    then have "(of_nat a + 1 :: usize) = of_nat b + 1" using standard_signum [OF ok, of a] standard_signum [OF ok, of b] by auto
    then have "unat (of_nat a + 1 :: usize) = unat (of_nat b + 1 :: usize)" by simp
    then show "a = b" using ab standard_number by auto
  qed
  have m: "n \<in> set ?ns" using n by simp
  have f: "remove1 n ?ns = filter (bit (standard_pending p')) [0..<31]"
    unfolding remove1_filter_upt p' by (rule filter_cong) (auto simp: bit_simps)
  moreover have "map (\<lambda>m. standard_records p' ! Suc m) (remove1 n ?ns) = map ?g (remove1 n ?ns)"
    unfolding remove1_filter_upt using l by (auto simp: p' nth_list_update)
  moreover have "map ?g (remove1 n ?ns) = remove1 (?g n) (map ?g ?ns)" using remove1_map_inj [OF inj m] by simp
  moreover have "?g n \<in> set (map ?g ?ns)" using m by auto
  ultimately show ?thesis unfolding pending_list_def p'(3) by (metis remove1_append)
qed

lemma realtime_first:
  assumes ok: "pending_shape tight p" and no: "scan_standard (standard_reserved p) f (standard_pending p) = None" and l: "lowest_realtime f p = Some i"
  defines "r \<equiv> queued_signals p ! i"
  shows "List.find (\<lambda>x. ps_signum x = ps_signum r) (deliverable f p) = Some r" "\<forall>x\<in>set (deliverable f p). ps_signum r \<le> ps_signum x"
    "remove1 r (pending_list p) = map (\<lambda>n. standard_records p ! Suc n) (filter (bit (standard_pending p)) [0..<31]) @ vec_remove (queued_signals p) i"
proof -
  note o = lowest_ok [OF ok l] and len = pending_shapeD(6) [OF ok]
  have "\<forall>n<64. \<not> standard_ready f p n" using no by (simp add: scan_standard_find find_upt_None standard_ready_def)
  then have "filter (standard_ready f p) [0..<31] = []" by (simp add: filter_empty_conv)
  then have d: "deliverable f p = filter (\<lambda>r. f (ps_signum r)) (queued_signals p)" by (simp add: deliverable_def)
  show "List.find (\<lambda>x. ps_signum x = ps_signum r) (deliverable f p) = Some r"
    unfolding d find_filter find_Some_iff by (rule exI [of _ i]) (use o(1,4) o(6) [THEN less_imp_neq] len in \<open>force simp: r_def\<close>)
  show "\<forall>x\<in>set (deliverable f p). ps_signum r \<le> ps_signum x"
    unfolding d using o(5) len by (auto simp: in_set_conv_nth r_def)
  have "r \<in> set (queued_signals p)" using o(1) len by (simp add: r_def)
  then have big: "LINUX_REALTIME_SIGNAL_MIN \<le> ps_signum r" by (rule realtime_signum [OF ok])
  have "r \<notin> set (map (\<lambda>n. standard_records p ! Suc n) (filter (bit (standard_pending p)) [0..<31]))"
  proof
    assume "r \<in> set (map (\<lambda>n. standard_records p ! Suc n) (filter (bit (standard_pending p)) [0..<31]))"
    then obtain m where "m < 31" "ps_signum r = of_nat m + 1" using standard_signum [OF ok] by auto
    then show False using standard_below_realtime [OF _ big, of m] by simp
  qed
  moreover have "remove1 r (queued_signals p) = vec_remove (queued_signals p) i"
  proof -
    have "r \<notin> set (take i (queued_signals p))"
    proof
      assume "r \<in> set (take i (queued_signals p))"
      then obtain j where "j < i" "queued_signals p ! j = r" by (auto simp: in_set_conv_nth)
      then show False using o(4) o(6) [of j] by (simp add: r_def)
    qed
    moreover have "queued_signals p = take i (queued_signals p) @ r # drop (Suc i) (queued_signals p)"
      unfolding r_def using o(1) len by (intro id_take_nth_drop) simp
    ultimately show ?thesis unfolding vec_remove_def by (metis remove1.simps(2) remove1_append)
  qed
  ultimately show "remove1 r (pending_list p) = map (\<lambda>n. standard_records p ! Suc n) (filter (bit (standard_pending p)) [0..<31]) @ vec_remove (queued_signals p) i"
    unfolding pending_list_def by (simp add: remove1_append)
qed

text \<open>C6: Taking a pending signal for delivery returns the lowest-numbered one that is eligible and not reserved already, the oldest of its
number if it is a realtime signal; it removes exactly that record and nothing else, and leaves a reservation for it. Nothing is returned
exactly when no record is deliverable, and then the queue is unchanged.\<close>

theorem take_eligible_lowest:
  assumes "pending_ok p"
  shows "case take_eligible_reserved f p of
      (p', None) \<Rightarrow> p' = p \<and> deliverable f p = []
    | (p', Some (r, v)) \<Rightarrow>
        List.find (\<lambda>x. ps_signum x = ps_signum r) (deliverable f p) = Some r \<and> (\<forall>x\<in>set (deliverable f p). ps_signum r \<le> ps_signum x)
        \<and> pending_list p' = remove1 r (pending_list p) \<and> holds_reservation p' v r"
proof -
  obtain p' res where e: "take_eligible_reserved f p = (p', res)" by fastforce
  have ok: "pending_shape True p" using assms by (simp add: pending_ok_shape)
  have hold: "holds_reservation p' v r" if "res = Some (r, v)" for r v
    using take_outstanding [OF ok, of "[]" f p' r v] e that by (simp add: outstanding_ok_def)
  from ok e show ?thesis
  proof (cases rule: take_reserved_cases)
    case (standard n)
    have "standard_ready f p n" "\<And>m. m < n \<Longrightarrow> \<not> standard_ready f p m" using standard(4-7) by (simp_all add: standard_ready_def)
    note s = standard_first [OF ok standard(1) this]
    have "pending_list p' = remove1 (standard_records p ! Suc n) (pending_list p)"
      by (rule standard_removed [OF ok standard(1,4)]) (simp_all add: standard(9) queued_signals_def)
    then show ?thesis using s hold [OF standard(10)] e standard(10) by simp
  next
    case (realtime i)
    note r = realtime_first [OF ok realtime(1,2)]
    have "pending_list p' = remove1 (queued_signals p ! i) (pending_list p)"
      unfolding r(3) using reserve_index_views(1) [OF ok realtime(3,4)] realtime(5)
      by (simp add: pending_list_def reserve_index_def remove_realtime_index_def)
    then show ?thesis using r(1,2) hold [OF realtime(6)] e realtime(6) by simp
  next
    case absent
    have "\<forall>n<64. \<not> standard_ready f p n" using absent(1) by (simp add: scan_standard_find find_upt_None standard_ready_def)
    moreover have "\<forall>r\<in>set (queued_signals p). \<not> f (ps_signum r)"
      using absent(2) by (simp add: lowest_realtime_def lowest_index_None queued_signals_def)
    ultimately have "deliverable f p = []" by (simp add: deliverable_def filter_empty_conv)
    then show ?thesis using absent e by simp
  qed simp
qed

lemma pending_eqI:
  assumes "pending_shape tight p" "pending_shape tight q" "standard_pending p = standard_pending q" "standard_reserved p = standard_reserved q"
    "standard_records p = standard_records q" "next_realtime_sequence p = next_realtime_sequence q" "queued_signals p = queued_signals q"
    "queued_sequences p = queued_sequences q" "held_sequences p = held_sequences q"
  shows "p = q"
proof -
  note d = pending_shapeD [OF assms(1)] and e = pending_shapeD [OF assms(2)]
  have n: "realtime_len p = realtime_len q" "realtime_reserved p = realtime_reserved q" using d(7,8) e(7,8) assms(8,9) by simp_all
  have "realtime_pending p = realtime_pending q" using padded_eq [OF d(2)] e(2) assms(7) n by (simp add: queue_views)
  moreover have "realtime_sequences p = realtime_sequences q" using padded_eq [OF d(3)] e(3) assms(8) n by (simp add: queue_views)
  moreover have "realtime_reservations p = realtime_reservations q" using padded_eq [OF d(4)] e(4) assms(9) n by (simp add: queue_views)
  ultimately show ?thesis using assms n by (intro LinuxPendingSignals.equality) simp_all
qed

text \<open>C7: Rolling back the reservation a take has made restores the queue exactly: a standard signal is pending again with its record,
a realtime signal is back at its old place among the others (by its sequence number), and the reservation is gone.\<close>

theorem take_then_rollback_restores:
  assumes "pending_ok p" and e: "take_eligible_reserved f p = (p', Some (r, v))"
  shows "rollback_reservation v r p' = (p, Inr ())"
proof -
  have ok: "pending_shape True p" using assms(1) by (simp add: pending_ok_shape)
  have h: "holds_reservation p' v r" using take_outstanding [OF ok _ e, of "[]"] by (simp add: outstanding_ok_def)
  from ok e show ?thesis
  proof (cases rule: take_reserved_cases)
    case (standard n)
    have v: "v = ResStandard (of_nat n + 1)" "r = standard_records p ! Suc n" using standard(10) by simp_all
    obtain m where m: "unat (of_nat n + 1 :: usize) = Suc m" "rollback_reservation v r p' =
       (p'\<lparr>standard_reserved := standard_reserved p' AND NOT (2 ^ m), standard_pending := standard_pending p' OR 2 ^ m,
          standard_records := (standard_records p')[Suc m := r]\<rparr>, Inr ())"
      using commit_standard h unfolding v(1) by metis
    have mn: "m = n" using m(1) standard(2) by simp
    have "(standard_reserved p OR 2 ^ n) AND NOT (2 ^ n) = standard_reserved p" using standard(5) by (intro bit_word_eqI) (auto simp: bit_simps)
    moreover have "(standard_pending p AND NOT (2 ^ n)) OR 2 ^ n = standard_pending p" using standard(4) by (intro bit_word_eqI) (auto simp: bit_simps)
    ultimately show ?thesis using m(2) unfolding mn by (simp add: standard(9) v(2))
  next
    case (realtime i)
    note d = pending_shapeD [OF ok] and w = reserve_index_views [OF ok realtime(3,4), folded realtime(5)]
    have v: "v = ResRealtime (queued_sequences p ! i)" "r = queued_signals p ! i" using realtime(6) by simp_all
    have li: "i < length (queued_sequences p)" "i < length (queued_signals p)" using d(6,7) realtime(3) by simp_all
    have r: "LINUX_REALTIME_SIGNAL_MIN \<le> ps_signum r" "ps_signum r \<le> LINUX_MAX_SIGNAL" "signal_typed r"
      using h v(1) by (simp_all add: holds_reservation_def)
    obtain j where j: "j < realtime_reserved p'" "queued_sequences p ! i = held_sequences p' ! j"
      "rollback_reservation v r p' = insert_realtime_by_sequence (queued_sequences p ! i) r (release_index j p')"
      using commit_realtime [OF w(4)] h unfolding v(1) by metis
    have di: "distinct (held_sequences p')" using pending_shapeD(5) [OF w(4)] by (simp add: rt_shape_def)
    have lj: "j < length (held_sequences p')" using pending_shapeD(8) [OF w(4)] j(1) by simp
    have "held_sequences p' ! j = held_sequences p' ! length (held_sequences p)" using j(2) w(3) by simp
    moreover have "length (held_sequences p) < length (held_sequences p')" using w(3) by simp
    ultimately have jj: "j = length (held_sequences p)" using nth_eq_iff_index_eq [OF di lj] by blast
    have srt: "sorted_wrt (<) (queued_sequences p)" using d(5) by (simp add: rt_shape_def)
    obtain q where q: "insert_realtime_by_sequence (queued_sequences p ! i) r (release_index j p') = (q, Inr ())" "pending_shape True q"
      "queued_signals q = vec_insert (vec_remove (queued_signals p) i) i r"
      "queued_sequences q = vec_insert (vec_remove (queued_sequences p) i) i (queued_sequences p ! i)"
      "held_sequences q = vec_remove (held_sequences p') j" "standard_pending q = standard_pending p'" "standard_reserved q = standard_reserved p'"
      "standard_records q = standard_records p'" "next_realtime_sequence q = next_realtime_sequence p'"
      using insert_sequence [OF w(4) j(1) tight_room(2) [OF w(4) j(1)] r, folded j(2), unfolded w(1,2) insert_index_removed [OF srt li(1)]] by metis
    have "q = p"
      by (rule pending_eqI [OF q(2) ok])
        (use q w(3) jj vec_insert_remove [OF li(1)] vec_insert_remove [OF li(2)] v(2) realtime(5) in
          \<open>auto simp: vec_remove_def reserve_index_def remove_realtime_index_def\<close>)
    then show ?thesis using j(3) q(1) by simp
  qed simp_all
qed

text \<open>C4: In every run of the operations of a signal queue, \<open>requeue_front\<close> included, the queue has its shape: every bit of the standard
mask has its record, at most 64 realtime signals are queued and at most 64 reserved, and their sequence numbers are distinct. Every
reservation that is outstanding can be committed, and can be rolled back unless it is for a realtime signal and the queue is full; that
rollback returns \<open>QueueFull\<close> and the signal is lost. As long as \<open>requeue_front\<close> has put no realtime signal to the front since the queue was
new or reset, the queued and the reserved signals together fit the table, the sequence numbers are ordered, and no commit and no rollback
ever fails, whatever was queued, taken or discarded in between.\<close>

theorem signal_reservations_sound:
  assumes "pending_run tight p out"
  shows "pending_shape tight p \<and> (tight \<longrightarrow> pending_ok p)
    \<and> (\<forall>(v, r)\<in>set out. snd (commit_reservation v p) = Inr () \<and> snd (rollback_reservation v r p) = rollback_result p v
         \<and> (tight \<longrightarrow> snd (rollback_reservation v r p) = Inr ()))"
proof -
  have s: "pending_shape tight p" "outstanding_ok p out" using pending_run_invariant [OF assms] by simp_all
  moreover have "tight \<longrightarrow> pending_ok p" using s(1) by (cases tight) (simp_all add: pending_ok_shape)
  ultimately show ?thesis using rollback_ok(2,3,4) [OF s(1)] by (auto simp: outstanding_ok_def)
qed

text \<open>Two realtime signals and a standard one in a queue, and the ones of them that a mask lets through.\<close>

definition sample_queue :: LinuxPendingSignals where
  "sample_queue = fst (pending_queue (standard_signal 10) (fst (pending_queue (standard_signal 34) (fst (pending_queue (standard_signal 40) pending_new)))))"

lemma standard_signal_typed [simp]: "signal_typed (standard_signal s)"
  by (simp add: standard_signal_def signal_typed_def EMPTY_SIGNAL_def)

lemma sample_ok: "pending_ok sample_queue"
  unfolding sample_queue_def pending_ok_shape by (intro pending_queue_ok new_ok standard_signal_typed)

lemma sample_take: "map_option (\<lambda>(r, v). ps_signum r) (snd (take_eligible_reserved (\<lambda>s. 32 \<le> s) sample_queue)) = Some 34"
  by code_simp

theorem take_eligible_lowest_witness:
  "map_option (\<lambda>(r, v). ps_signum r) (snd (take_eligible_reserved (\<lambda>s. 32 \<le> s) sample_queue)) = Some 34 \<and>
   (case take_eligible_reserved (\<lambda>s. 32 \<le> s) sample_queue of
      (p', None) \<Rightarrow> p' = sample_queue \<and> deliverable (\<lambda>s. 32 \<le> s) sample_queue = []
    | (p', Some (r, v)) \<Rightarrow>
        List.find (\<lambda>x. ps_signum x = ps_signum r) (deliverable (\<lambda>s. 32 \<le> s) sample_queue) = Some r
        \<and> (\<forall>x\<in>set (deliverable (\<lambda>s. 32 \<le> s) sample_queue). ps_signum r \<le> ps_signum x)
        \<and> pending_list p' = remove1 r (pending_list sample_queue) \<and> holds_reservation p' v r)"
  using take_eligible_lowest [OF sample_ok, of "\<lambda>s. 32 \<le> s"] sample_take by simp

theorem take_then_rollback_restores_witness:
  "\<exists>p' r v. take_eligible_reserved (\<lambda>s. 32 \<le> s) sample_queue = (p', Some (r, v)) \<and> ps_signum r = 34
     \<and> rollback_reservation v r p' = (sample_queue, Inr ())"
proof -
  obtain p' r v where e: "take_eligible_reserved (\<lambda>s. 32 \<le> s) sample_queue = (p', Some (r, v))" "ps_signum r = 34"
    using sample_take by (cases "take_eligible_reserved (\<lambda>s. 32 \<le> s) sample_queue") auto
  then show ?thesis using take_then_rollback_restores [OF sample_ok e(1)] by blast
qed

theorem signal_reservations_sound_witness:
  "\<exists>p r v. pending_run True p [(v, r)] \<and> pending_ok p \<and> snd (commit_reservation v p) = Inr () \<and> snd (rollback_reservation v r p) = Inr ()"
proof -
  obtain p r v where e: "take_eligible_reserved (\<lambda>s. 32 \<le> s) sample_queue = (p, Some (r, v))"
    using sample_take by (cases "take_eligible_reserved (\<lambda>s. 32 \<le> s) sample_queue") auto
  have "pending_run True sample_queue []" unfolding sample_queue_def by (intro run_queue run_new standard_signal_typed)
  then have "pending_run True p [(v, r)]" using e by (rule run_take)
  then show ?thesis using signal_reservations_sound [of True p "[(v, r)]"] by auto
qed

end
