(* ===== verification/Linux_Futex.thy ===== *)
theory Linux_Futex
  imports Linux_Signal
begin

text \<open>
  Linux futexes (\<open>src/src/syscall/linux_futex_logic_shared.rs\<close> and the runtime
  \<open>linux_futex.rs\<close>): decoding of the operation word, timeouts and deadlines, the queue of
  waiters, and the system call with its wait, wake and timer paths.  The queue is the array of
  its slots; the const generic parameter \<open>N\<close> is its length.
\<close>

subsection \<open>Operation words\<close>

definition FUTEX_WAIT :: u32 where "FUTEX_WAIT = 0"
definition FUTEX_WAKE :: u32 where "FUTEX_WAKE = 1"
definition FUTEX_WAIT_BITSET :: u32 where "FUTEX_WAIT_BITSET = 9"
definition FUTEX_WAKE_BITSET :: u32 where "FUTEX_WAKE_BITSET = 10"
definition FUTEX_PRIVATE_FLAG :: u32 where "FUTEX_PRIVATE_FLAG = 128"
definition FUTEX_CLOCK_REALTIME :: u32 where "FUTEX_CLOCK_REALTIME = 256"
definition FUTEX_CMD_MASK :: u32 where "FUTEX_CMD_MASK = 0x7f"
definition FUTEX_BITSET_MATCH_ANY :: u32 where "FUTEX_BITSET_MATCH_ANY = - 1"
definition FUTEX_SHARED_KEY_TAG :: usize where "FUTEX_SHARED_KEY_TAG = push_bit 63 1"

definition FUTEX_ALLOWED_OP_BITS :: u32 where
  "FUTEX_ALLOWED_OP_BITS = FUTEX_CMD_MASK OR FUTEX_PRIVATE_FLAG OR FUTEX_CLOCK_REALTIME"

definition NANOS_PER_SECOND :: u64 where "NANOS_PER_SECOND = 1000000000"

definition futex_command_supported :: "u32 \<Rightarrow> bool" where
  "futex_command_supported command = (command = 0 \<or> command = 1 \<or> command = 9 \<or> command = 10)"

definition futex_realtime_allowed :: "u32 \<Rightarrow> bool \<Rightarrow> bool" where
  "futex_realtime_allowed command realtime = (\<not> realtime \<or> command = 9)"

definition futex_bitset_matches :: "u32 \<Rightarrow> u32 \<Rightarrow> bool" where
  "futex_bitset_matches waiter requested = (waiter \<noteq> 0 \<and> requested \<noteq> 0 \<and> waiter AND requested \<noteq> 0)"

definition futex_deadline_expired :: "u64 \<Rightarrow> u64 \<Rightarrow> bool" where
  "futex_deadline_expired now deadline = (deadline \<le> now)"

datatype FutexCommand = Wait | Wake | WaitBitset | WakeBitset

record DecodedFutexOp =
  op_command :: FutexCommand
  op_private :: bool
  op_realtime :: bool

definition decode_futex_op :: "u32 \<Rightarrow> DecodedFutexOp option" where
  "decode_futex_op op =
     (if op AND NOT FUTEX_ALLOWED_OP_BITS \<noteq> 0 then None
      else
        let command_number = op AND FUTEX_CMD_MASK
        in if \<not> futex_command_supported command_number then None
           else
             (case (if command_number = FUTEX_WAIT then Some Wait
                    else if command_number = FUTEX_WAKE then Some Wake
                    else if command_number = FUTEX_WAIT_BITSET then Some WaitBitset
                    else if command_number = FUTEX_WAKE_BITSET then Some WakeBitset
                    else None) of
                None \<Rightarrow> None
              | Some command \<Rightarrow>
                  let realtime = (op AND FUTEX_CLOCK_REALTIME \<noteq> 0)
                  in if \<not> futex_realtime_allowed command_number realtime then None
                     else Some \<lparr>op_command = command, op_private = (op AND FUTEX_PRIVATE_FLAG \<noteq> 0),
                                op_realtime = realtime\<rparr>))"

definition futex_address_valid :: "usize \<Rightarrow> bool" where
  "futex_address_valid address = (address \<noteq> 0 \<and> address mod 4 = 0 \<and> checked_add address 4 \<noteq> None)"

definition futex_shared_key :: "u64 \<Rightarrow> usize \<Rightarrow> usize" where
  "futex_shared_key pfn address =
     FUTEX_SHARED_KEY_TAG OR ((pfn * 0x1000) AND NOT FUTEX_SHARED_KEY_TAG) OR (address AND 0xfff)"

definition futex_bitset_valid :: "u32 \<Rightarrow> bool" where
  "futex_bitset_valid bitset = (bitset \<noteq> 0)"

subsection \<open>Timeouts\<close>

definition futex_timespec_valid :: "i64 \<Rightarrow> i64 \<Rightarrow> bool" where
  "futex_timespec_valid seconds nanoseconds =
     (0 \<le> sint seconds \<and> 0 \<le> sint nanoseconds \<and> sint nanoseconds < sint NANOS_PER_SECOND)"

definition futex_wait_value_matches :: "u32 \<Rightarrow> u32 \<Rightarrow> bool" where
  "futex_wait_value_matches observed expected = (observed = expected)"

definition futex_timespec_to_ticks_ceil :: "i64 \<Rightarrow> i64 \<Rightarrow> u64 \<Rightarrow> u64 option" where
  "futex_timespec_to_ticks_ceil seconds nanoseconds tick_nanoseconds =
     (if tick_nanoseconds = 0 \<or> \<not> futex_timespec_valid seconds nanoseconds then None
      else
        (case checked_mul seconds NANOS_PER_SECOND of
           None \<Rightarrow> None
         | Some product \<Rightarrow>
             (case checked_add product nanoseconds of
                None \<Rightarrow> None
              | Some total_nanoseconds \<Rightarrow>
                  let ticks = total_nanoseconds div tick_nanoseconds
                  in if total_nanoseconds mod tick_nanoseconds = 0 then Some ticks
                     else checked_add ticks 1)))"

definition futex_relative_deadline :: "u64 \<Rightarrow> i64 \<Rightarrow> i64 \<Rightarrow> u64 \<Rightarrow> u64 option" where
  "futex_relative_deadline now seconds nanoseconds tick_nanoseconds =
     (case futex_timespec_to_ticks_ceil seconds nanoseconds tick_nanoseconds of
        None \<Rightarrow> None
      | Some duration_ticks \<Rightarrow>
          let phase_guard = (if seconds = 0 \<and> nanoseconds = 0 then 0 else 1)
          in (case checked_add now duration_ticks of
                None \<Rightarrow> None
              | Some ticks \<Rightarrow> checked_add ticks phase_guard))"

text \<open>The checked operations on \<open>i128\<close> and \<open>u128\<close>, and the conversion to \<open>u64\<close>.\<close>

definition checked_i128 :: "int \<Rightarrow> int option" where
  "checked_i128 x = (if - (2 ^ 127) \<le> x \<and> x < 2 ^ 127 then Some x else None)"

definition checked_u128 :: "int \<Rightarrow> int option" where
  "checked_u128 x = (if 0 \<le> x \<and> x < 2 ^ 128 then Some x else None)"

definition u64_try_from :: "int \<Rightarrow> u64 option" where
  "u64_try_from x = (if 0 \<le> x \<and> x < 2 ^ 64 then Some (word_of_int x) else None)"

definition futex_realtime_deadline_ticks :: "i64 \<Rightarrow> i64 \<Rightarrow> i64 \<Rightarrow> u64 \<Rightarrow> u64 option" where
  "futex_realtime_deadline_ticks seconds nanoseconds realtime_offset_nanoseconds tick_nanoseconds =
     (if tick_nanoseconds = 0 \<or> \<not> futex_timespec_valid seconds nanoseconds then None
      else
        Option.bind (checked_i128 (sint seconds * uint NANOS_PER_SECOND)) (\<lambda>product.
        Option.bind (checked_i128 (product + sint nanoseconds)) (\<lambda>realtime_nanoseconds.
        Option.bind (checked_i128 (realtime_nanoseconds - sint realtime_offset_nanoseconds)) (\<lambda>monotonic.
        Option.bind (if monotonic \<le> 0 then Some 0 else checked_u128 monotonic) (\<lambda>monotonic_nanoseconds.
          let tick = uint tick_nanoseconds; ticks = monotonic_nanoseconds div tick
          in Option.bind (checked_u128 (ticks + (if monotonic_nanoseconds mod tick \<noteq> 0 then 1 else 0)))
               u64_try_from)))))"

datatype FutexClock = Monotonic | Realtime

record FutexDeadline =
  dl_ticks :: u64
  dl_clock :: FutexClock

definition futex_deadline_from_timeout ::
  "FutexCommand \<Rightarrow> bool \<Rightarrow> u64 \<Rightarrow> i64 \<Rightarrow> i64 \<Rightarrow> u64 \<Rightarrow> i64 \<Rightarrow> FutexDeadline option" where
  "futex_deadline_from_timeout command realtime now_monotonic seconds nanoseconds tick_nanoseconds
      realtime_offset_nanoseconds =
     (case (command, realtime) of
        (Wait, False) \<Rightarrow>
          map_option (\<lambda>ticks. \<lparr>dl_ticks = ticks, dl_clock = Monotonic\<rparr>)
            (futex_relative_deadline now_monotonic seconds nanoseconds tick_nanoseconds)
      | (WaitBitset, False) \<Rightarrow>
          map_option (\<lambda>ticks. \<lparr>dl_ticks = ticks, dl_clock = Monotonic\<rparr>)
            (futex_timespec_to_ticks_ceil seconds nanoseconds tick_nanoseconds)
      | (WaitBitset, True) \<Rightarrow>
          map_option (\<lambda>ticks. \<lparr>dl_ticks = ticks, dl_clock = Monotonic\<rparr>)
            (futex_realtime_deadline_ticks seconds nanoseconds realtime_offset_nanoseconds tick_nanoseconds)
      | _ \<Rightarrow> None)"

subsection \<open>The queue\<close>

datatype FutexWaitOutcome = FutexWaiting | FutexWoken | FutexTimedOut | FutexInterrupted

record FutexWaiter =
  fw_address :: usize
  fw_bitset :: u32
  fw_tid :: usize
  fw_scheduler_thread :: usize
  fw_deadline :: "FutexDeadline option"
  fw_sequence :: u64
  fw_outcome :: FutexWaitOutcome

datatype FutexQueueError = QueueCapacity | QueueDuplicate | QueueExhausted | QueueInvalid

record FutexQueue =
  fq_waiters :: "FutexWaiter option list"
  fq_next_sequence :: u64
  fq_sequence_exhausted :: bool

definition futex_queue_new :: "nat \<Rightarrow> FutexQueue" where
  "futex_queue_new N = \<lparr>fq_waiters = replicate N None, fq_next_sequence = 0, fq_sequence_exhausted = False\<rparr>"

definition futex_len :: "FutexQueue \<Rightarrow> nat" where
  "futex_len q = length (filter (\<lambda>w. w \<noteq> None) (fq_waiters q))"

definition fw_is :: "usize \<Rightarrow> usize \<Rightarrow> FutexWaiter \<Rightarrow> bool" where
  "fw_is tid scheduler_thread w = (fw_tid w = tid \<and> fw_scheduler_thread w = scheduler_thread)"

definition fw_identity :: "FutexWaiter \<Rightarrow> usize \<times> usize" where
  "fw_identity w = (fw_tid w, fw_scheduler_thread w)"

definition futex_push :: "FutexQueue \<Rightarrow> FutexWaiter \<Rightarrow> FutexQueue \<times> (FutexQueueError + unit)" where
  "futex_push q waiter =
     (if \<not> futex_address_valid (fw_address waiter) \<or> \<not> futex_bitset_valid (fw_bitset waiter)
         \<or> fw_tid waiter = 0 \<or> fw_outcome waiter \<noteq> FutexWaiting
      then (q, Inl QueueInvalid)
      else if list_ex (fw_is (fw_tid waiter) (fw_scheduler_thread waiter)) (flatten (fq_waiters q))
      then (q, Inl QueueDuplicate)
      else if fq_sequence_exhausted q then (q, Inl QueueExhausted)
      else
        (case position (\<lambda>slot. slot = None) (fq_waiters q) of
           None \<Rightarrow> (q, Inl QueueCapacity)
         | Some i \<Rightarrow>
             let stored = waiter\<lparr>fw_sequence := fq_next_sequence q\<rparr>;
                 q = (case checked_add (fq_next_sequence q) 1 of
                        Some following \<Rightarrow> q\<lparr>fq_next_sequence := following\<rparr>
                      | None \<Rightarrow> q\<lparr>fq_sequence_exhausted := True\<rparr>)
             in (q\<lparr>fq_waiters := (fq_waiters q)[i := Some stored]\<rparr>, Inr ())))"

definition oldest_matching :: "FutexWaiter option list \<Rightarrow> (FutexWaiter \<Rightarrow> bool) \<Rightarrow> nat option" where
  "oldest_matching ws p = scan_oldest fw_sequence p 0 ws None (- 1)"

definition fw_wakes :: "usize \<Rightarrow> u32 \<Rightarrow> FutexWaiter \<Rightarrow> bool" where
  "fw_wakes address bitset w =
     (fw_outcome w = FutexWaiting \<and> fw_address w = address \<and> futex_bitset_matches (fw_bitset w) bitset)"

definition fw_woken :: "FutexWaiter \<Rightarrow> FutexWaiter" where
  "fw_woken w = w\<lparr>fw_outcome := FutexWoken\<rparr>"

definition futex_wake ::
  "FutexQueue \<Rightarrow> usize \<Rightarrow> nat \<Rightarrow> u32 \<Rightarrow> (FutexQueue \<times> (usize \<times> usize) option list) option" where
  "futex_wake q address n bitset =
     (let identities = replicate (length (fq_waiters q)) None
      in if n = 0 \<or> \<not> futex_bitset_valid bitset then Some (q, identities)
         else
           map_option (\<lambda>(ws, identities). (q\<lparr>fq_waiters := ws\<rparr>, identities))
             (serve_loop (\<lambda>ws. oldest_matching ws (fw_wakes address bitset)) fw_woken fw_identity
                (min n (length (fq_waiters q))) 0 (fq_waiters q) identities))"

definition fw_expired :: "u64 \<Rightarrow> u64 \<Rightarrow> FutexWaiter \<Rightarrow> bool" where
  "fw_expired now_monotonic now_realtime w =
     (fw_outcome w = FutexWaiting
      \<and> (case fw_deadline w of
           None \<Rightarrow> False
         | Some deadline \<Rightarrow>
             (case dl_clock deadline of
                Monotonic \<Rightarrow> futex_deadline_expired now_monotonic (dl_ticks deadline)
              | Realtime \<Rightarrow> futex_deadline_expired now_realtime (dl_ticks deadline))))"

definition fw_timed_out :: "FutexWaiter \<Rightarrow> FutexWaiter" where
  "fw_timed_out w = w\<lparr>fw_outcome := FutexTimedOut\<rparr>"

definition futex_expire ::
  "FutexQueue \<Rightarrow> u64 \<Rightarrow> u64 \<Rightarrow> (FutexQueue \<times> (usize \<times> usize) option list) option" where
  "futex_expire q now_monotonic now_realtime =
     map_option (\<lambda>(ws, identities). (q\<lparr>fq_waiters := ws\<rparr>, identities))
       (serve_loop (\<lambda>ws. oldest_matching ws (fw_expired now_monotonic now_realtime)) fw_timed_out
          fw_identity (length (fq_waiters q)) 0 (fq_waiters q) (replicate (length (fq_waiters q)) None))"

text \<open>\<open>expire_one\<close>; an empty slot under the selected index would be a panic, the outer \<open>None\<close>.\<close>

definition futex_expire_one ::
  "FutexQueue \<Rightarrow> u64 \<Rightarrow> u64 \<Rightarrow> (FutexQueue \<times> (usize \<times> usize) option) option" where
  "futex_expire_one q now_monotonic now_realtime =
     (case oldest_matching (fq_waiters q) (fw_expired now_monotonic now_realtime) of
        None \<Rightarrow> Some (q, None)
      | Some index \<Rightarrow>
          (case fq_waiters q ! index of
             None \<Rightarrow> None
           | Some w \<Rightarrow>
               Some (q\<lparr>fq_waiters := (fq_waiters q)[index := Some (fw_timed_out w)]\<rparr>, Some (fw_identity w))))"

definition futex_interrupt :: "FutexQueue \<Rightarrow> usize \<Rightarrow> usize \<Rightarrow> FutexQueue \<times> bool" where
  "futex_interrupt q tid scheduler_thread =
     (case position (slot_is (\<lambda>w. fw_is tid scheduler_thread w \<and> fw_outcome w = FutexWaiting)) (fq_waiters q) of
        None \<Rightarrow> (q, False)
      | Some i \<Rightarrow>
          (q\<lparr>fq_waiters := (fq_waiters q)[i := map_option (\<lambda>w. w\<lparr>fw_outcome := FutexInterrupted\<rparr>) (fq_waiters q ! i)]\<rparr>,
           True))"

definition futex_take_outcome ::
  "FutexQueue \<Rightarrow> usize \<Rightarrow> usize \<Rightarrow> FutexQueue \<times> FutexWaitOutcome option" where
  "futex_take_outcome q tid scheduler_thread =
     (case position (slot_is (\<lambda>w. fw_is tid scheduler_thread w \<and> fw_outcome w \<noteq> FutexWaiting)) (fq_waiters q) of
        None \<Rightarrow> (q, None)
      | Some i \<Rightarrow> (q\<lparr>fq_waiters := (fq_waiters q)[i := None]\<rparr>, map_option fw_outcome (fq_waiters q ! i)))"

definition futex_remove :: "FutexQueue \<Rightarrow> usize \<Rightarrow> usize \<Rightarrow> FutexQueue \<times> bool" where
  "futex_remove q tid scheduler_thread =
     (case position (slot_is (fw_is tid scheduler_thread)) (fq_waiters q) of
        None \<Rightarrow> (q, False)
      | Some i \<Rightarrow> (q\<lparr>fq_waiters := (fq_waiters q)[i := None]\<rparr>, True))"

definition futex_remove_task :: "FutexQueue \<Rightarrow> usize \<Rightarrow> usize \<Rightarrow> FutexQueue \<times> nat" where
  "futex_remove_task q tid scheduler_thread =
     (q\<lparr>fq_waiters := map (\<lambda>slot. if slot_is (fw_is tid scheduler_thread) slot then None else slot) (fq_waiters q)\<rparr>,
      length (filter (slot_is (fw_is tid scheduler_thread)) (fq_waiters q)))"

definition futex_reset :: "FutexQueue \<Rightarrow> FutexQueue \<times> nat" where
  "futex_reset q =
     (q\<lparr>fq_waiters := replicate (length (fq_waiters q)) None, fq_next_sequence := 0,
        fq_sequence_exhausted := False\<rparr>, futex_len q)"

subsection \<open>The selections of the queue\<close>

lemma oldest_matching_oldest: "is_oldest fw_sequence p ws (oldest_matching ws p)"
  using scan_oldest_correct [of fw_sequence p "[]" None "- 1" ws] by (simp add: oldest_matching_def)

interpretation futex_wake: oldest_drain fw_sequence "fw_wakes address bitset"
  "\<lambda>ws. oldest_matching ws (fw_wakes address bitset)" fw_woken fw_identity for address bitset
  by unfold_locales (simp_all add: oldest_matching_oldest fw_wakes_def fw_woken_def)

interpretation futex_expire: oldest_drain fw_sequence "fw_expired now_monotonic now_realtime"
  "\<lambda>ws. oldest_matching ws (fw_expired now_monotonic now_realtime)" fw_timed_out fw_identity
  for now_monotonic now_realtime
  by unfold_locales (simp_all add: oldest_matching_oldest fw_expired_def fw_timed_out_def)

text \<open>The invariant of the queue.\<close>

definition fq_bound :: "FutexQueue \<Rightarrow> u64 option" where
  "fq_bound q = (if fq_sequence_exhausted q then None else Some (fq_next_sequence q))"

lemma fq_bound_waiters [simp]: "fq_bound (q\<lparr>fq_waiters := ws\<rparr>) = fq_bound q"
  by (simp add: fq_bound_def)

definition futex_queue_ok :: "FutexQueue \<Rightarrow> bool" where
  "futex_queue_ok q =
     (stamped fw_sequence (fq_bound q) (fq_waiters q)
      \<and> distinct (map fw_identity (flatten (fq_waiters q)))
      \<and> list_all (\<lambda>w. futex_address_valid (fw_address w) \<and> futex_bitset_valid (fw_bitset w) \<and> fw_tid w \<noteq> 0)
          (flatten (fq_waiters q)))"

lemma futex_wake_result:
  assumes "futex_queue_ok q"
  shows "futex_wake q address n bitset =
    (let sel = (if futex_bitset_valid bitset then take n (by_age fw_sequence (fw_wakes address bitset) (fq_waiters q)) else [])
     in Some (q\<lparr>fq_waiters := map (map_option (\<lambda>w. if w \<in> set sel then fw_woken w else w)) (fq_waiters q)\<rparr>,
        compact (length (fq_waiters q)) (map fw_identity sel)))"
proof -
  let ?ws = "fq_waiters q" and ?N = "length (fq_waiters q)"
  let ?age = "by_age fw_sequence (fw_wakes address bitset) ?ws"
  have d: "distinct (map fw_sequence (flatten ?ws))"
    using assms stamped_distinct by (auto simp: futex_queue_ok_def)
  show ?thesis
  proof (cases "n = 0 \<or> \<not> futex_bitset_valid bitset")
    case True
    then show ?thesis by (auto simp: futex_wake_def Let_def compact_def option.map_id0 [unfolded id_def])
  next
    case False
    have "take (min n ?N) ?age = take n ?age"
      using length_by_age [of fw_sequence "fw_wakes address bitset" ?ws] by (cases "n \<le> ?N") simp_all
    moreover have "length (take n ?age) \<le> ?N"
      using length_by_age [of fw_sequence "fw_wakes address bitset" ?ws] by simp
    ultimately show ?thesis
      using False futex_wake.serve_loop_by_age [OF d, of 0 "min n ?N" "replicate ?N None" address bitset]
      by (simp add: futex_wake_def Let_def compact_def)
  qed
qed

lemma futex_ok_clear: "futex_queue_ok q \<Longrightarrow> futex_queue_ok (q\<lparr>fq_waiters := (fq_waiters q)[i := None]\<rparr>)"
  using flatten_clear_subset [of "fq_waiters q" i]
  by (auto simp: futex_queue_ok_def list_all_iff stamped_clear distinct_flatten_clear)

lemma futex_ok_map:
  assumes "futex_queue_ok q" "\<And>w. fw_sequence (f w) = fw_sequence w \<and> fw_identity (f w) = fw_identity w
    \<and> fw_address (f w) = fw_address w \<and> fw_bitset (f w) = fw_bitset w \<and> fw_tid (f w) = fw_tid w"
  shows "futex_queue_ok (q\<lparr>fq_waiters := map (map_option f) (fq_waiters q)\<rparr>)"
proof -
  have "fw_identity \<circ> f = fw_identity" using assms(2) by (simp add: fun_eq_iff)
  then show ?thesis
    using assms stamped_map [where f = f and seqn = fw_sequence]
    by (auto simp: futex_queue_ok_def flatten_map_option list_all_iff split: if_splits)
qed

lemma futex_ok_replace:
  assumes "futex_queue_ok q" "i < length (fq_waiters q)" "fq_waiters q ! i = Some w"
    "fw_sequence v = fw_sequence w" "fw_identity v = fw_identity w" "fw_address v = fw_address w"
    "fw_bitset v = fw_bitset w"
  shows "futex_queue_ok (q\<lparr>fq_waiters := (fq_waiters q)[i := Some v]\<rparr>)"
proof -
  have w: "w \<in> set (flatten (fq_waiters q))" using assms(2,3) by (auto simp: in_flatten_nth)
  have "fw_tid v = fw_tid w" using assms(5) by (simp add: fw_identity_def)
  moreover have "distinct (map fw_identity (flatten ((fq_waiters q)[i := Some v])))"
    using assms(1) map_flatten_replace [where f = fw_identity, OF assms(2,3,5)] by (simp add: futex_queue_ok_def)
  moreover have "list_all (\<lambda>w. futex_address_valid (fw_address w) \<and> futex_bitset_valid (fw_bitset w) \<and> fw_tid w \<noteq> 0)
      (flatten ((fq_waiters q)[i := Some v]))"
    using assms(1,6,7) w \<open>fw_tid v = fw_tid w\<close>
    by (intro list_all_flatten_replace) (auto simp: futex_queue_ok_def list_all_iff)
  ultimately show ?thesis
    using assms(1) stamped_replace [OF _ assms(2,3,4)] by (simp add: futex_queue_ok_def)
qed

lemma futex_remove_task_ok: "futex_queue_ok q \<Longrightarrow> futex_queue_ok (fst (futex_remove_task q tid th))"
  by (auto simp: futex_queue_ok_def futex_remove_task_def stamped_remove flatten_remove list_all_iff
      distinct_map_filter)

lemma futex_remove_ok: "futex_queue_ok q \<Longrightarrow> futex_queue_ok (fst (futex_remove q tid th))"
  by (auto simp: futex_remove_def futex_ok_clear split: option.splits)

lemma futex_take_outcome_ok: "futex_queue_ok q \<Longrightarrow> futex_queue_ok (fst (futex_take_outcome q tid th))"
  by (auto simp: futex_take_outcome_def futex_ok_clear split: option.splits)

lemma futex_interrupt_ok: "futex_queue_ok q \<Longrightarrow> futex_queue_ok (fst (futex_interrupt q tid th))"
proof (cases "position (slot_is (\<lambda>w. fw_is tid th w \<and> fw_outcome w = FutexWaiting)) (fq_waiters q)")
  case (Some i)
  assume ok: "futex_queue_ok q"
  from Some obtain w where "i < length (fq_waiters q)" "fq_waiters q ! i = Some w" by (rule position_slot_is)
  then show ?thesis using futex_ok_replace [OF ok, of i w "w\<lparr>fw_outcome := FutexInterrupted\<rparr>"]
    by (simp add: futex_interrupt_def Some fw_identity_def)
qed (simp add: futex_interrupt_def)

lemma futex_wake_ok:
  assumes "futex_queue_ok q" "futex_wake q address n bitset = Some (q', ids)"
  shows "futex_queue_ok q'"
  using assms(2) futex_wake_result [OF assms(1)] futex_ok_map [OF assms(1)]
  by (auto simp: Let_def fw_woken_def fw_identity_def)

lemma futex_expire_one_ok:
  assumes "futex_queue_ok q" "futex_expire_one q m r = Some (q', x)"
  shows "futex_queue_ok q'"
proof (cases "oldest_matching (fq_waiters q) (fw_expired m r)")
  case (Some i)
  then obtain v where v: "i < length (fq_waiters q)" "fq_waiters q ! i = Some v"
    by (rule futex_expire.oldest_SomeD)
  then show ?thesis
    using assms Some futex_ok_replace [OF assms(1) v, of "fw_timed_out v"]
    by (auto simp: futex_expire_one_def fw_timed_out_def fw_identity_def)
qed (use assms in \<open>simp add: futex_expire_one_def\<close>)

lemma futex_push_ok:
  assumes "futex_queue_ok q" "futex_push q w = (q', r)"
  shows "futex_queue_ok q'"
proof (cases "r = Inr ()")
  case False
  then show ?thesis using assms by (auto simp: futex_push_def Let_def split: if_splits option.splits)
next
  case True
  then obtain i where i: "position (\<lambda>slot. slot = None) (fq_waiters q) = Some i"
    and valid: "futex_address_valid (fw_address w)" "futex_bitset_valid (fw_bitset w)" "fw_tid w \<noteq> 0"
    and fresh: "\<not> list_ex (fw_is (fw_tid w) (fw_scheduler_thread w)) (flatten (fq_waiters q))"
    and ne: "\<not> fq_sequence_exhausted q"
    using assms(2) by (auto simp: futex_push_def Let_def split: if_splits option.splits)
  let ?w = "w\<lparr>fw_sequence := fq_next_sequence q\<rparr>"
  have il: "i < length (fq_waiters q)" "fq_waiters q ! i = None" using position_SomeD [OF i] by simp_all
  let ?ws = "(fq_waiters q)[i := Some ?w]"
  have q': "fq_waiters q' = ?ws" and b: "fq_bound q' = checked_add (fq_next_sequence q) 1"
    using assms(2) True i valid fresh ne
    by (auto simp: futex_push_def Let_def fq_bound_def split: if_splits option.splits)
  have st: "stamped fw_sequence (Some (fq_next_sequence q)) (fq_waiters q)"
    using assms(1) ne by (simp add: futex_queue_ok_def fq_bound_def)
  have "stamped fw_sequence (checked_add (fq_next_sequence q) 1) ?ws"
    using stamped_fill [OF st il] checked_add_one_gt by (metis FutexWaiter.select_convs(6) FutexWaiter.surjective
      FutexWaiter.update_convs(6))
  moreover have m: "mset (flatten ?ws) = mset (?w # flatten (fq_waiters q))"
    using mset_flatten_fill [OF il] by simp
  then have "mset (map fw_identity (flatten ?ws)) = mset (map fw_identity (?w # flatten (fq_waiters q)))" by simp
  moreover have "distinct (map fw_identity (?w # flatten (fq_waiters q)))"
    using assms(1) fresh by (auto simp: futex_queue_ok_def list_ex_iff fw_is_def fw_identity_def)
  ultimately have "distinct (map fw_identity (flatten ?ws))" "stamped fw_sequence (checked_add (fq_next_sequence q) 1) ?ws"
    by (metis mset_eq_imp_distinct_iff)+
  moreover have "set (flatten ?ws) = insert ?w (set (flatten (fq_waiters q)))" using mset_eq_setD [OF m] by simp
  ultimately show ?thesis
    using assms(1) valid unfolding futex_queue_ok_def q' b by (simp add: list_all_iff)
qed

lemma futex_new_ok: "futex_queue_ok (futex_queue_new N)"
  by (simp add: futex_queue_ok_def futex_queue_new_def)

lemma futex_reset_ok: "futex_queue_ok (fst (futex_reset q))"
  by (simp add: futex_queue_ok_def futex_reset_def)

subsection \<open>Waking one waiter at a time\<close>

text \<open>The number of waiters that still wait; every served waiter lowers it.\<close>

definition waiting_count :: "FutexQueue \<Rightarrow> nat" where
  "waiting_count q = length (filter (\<lambda>w. fw_outcome w = FutexWaiting) (flatten (fq_waiters q)))"

lemma futex_wake_one:
  "futex_wake q address 1 bitset =
     (if futex_bitset_valid bitset \<and> fq_waiters q \<noteq> [] then
        (case oldest_matching (fq_waiters q) (fw_wakes address bitset) of
           None \<Rightarrow> Some (q, replicate (length (fq_waiters q)) None)
         | Some i \<Rightarrow>
             (case fq_waiters q ! i of
                None \<Rightarrow> None
              | Some w \<Rightarrow> Some (q\<lparr>fq_waiters := (fq_waiters q)[i := Some (fw_woken w)]\<rparr>,
                  Some (fw_identity w) # replicate (length (fq_waiters q) - 1) None)))
      else Some (q, replicate (length (fq_waiters q)) None))"
proof (cases "fq_waiters q")
  case Nil
  then show ?thesis by (simp add: futex_wake_def serve_loop.simps)
next
  case (Cons a ws)
  then have "min 1 (length (fq_waiters q)) = Suc 0" by simp
  then show ?thesis
    using Cons
    by (simp add: futex_wake_def serve_loop.simps [of _ _ _ "Suc 0" 0] serve_loop.simps [of _ _ _ "Suc 0" "Suc 0"]
        split: option.splits)
qed

lemma waiting_count_serve:
  assumes "i < length (fq_waiters q)" "fq_waiters q ! i = Some w" "fw_outcome w = FutexWaiting" "fw_outcome v \<noteq> FutexWaiting"
  shows "waiting_count (q\<lparr>fq_waiters := (fq_waiters q)[i := Some v]\<rparr>) < waiting_count q"
  using flatten_split [OF assms(1)] flatten_update [OF assms(1), of "Some v"] assms(2-4)
  by (simp add: waiting_count_def)

lemma waiting_count_clear: "waiting_count (q\<lparr>fq_waiters := (fq_waiters q)[i := None]\<rparr>) \<le> waiting_count q"
proof (cases "i < length (fq_waiters q)")
  case True
  then show ?thesis
    using flatten_split [OF True] flatten_update [OF True, of None]
    by (simp add: waiting_count_def split: option.splits)
qed (simp add: list_update_beyond)

lemma waiting_count_take: "waiting_count (fst (futex_take_outcome q tid th)) \<le> waiting_count q"
  by (auto simp: futex_take_outcome_def waiting_count_clear split: option.splits)

lemma futex_wake_one_count:
  assumes "futex_wake q address 1 bitset = Some (q', Some x # ids)"
  shows "waiting_count q' < waiting_count q"
proof (cases "oldest_matching (fq_waiters q) (fw_wakes address bitset)")
  case None
  with assms show ?thesis unfolding futex_wake_one by (cases "fq_waiters q") (auto split: if_splits)
next
  case (Some i)
  then obtain v where v: "i < length (fq_waiters q)" "fq_waiters q ! i = Some v" "fw_wakes address bitset v"
    by (rule futex_wake.oldest_SomeD)
  show ?thesis
  proof (cases "futex_bitset_valid bitset")
    case True
    then have "q' = q\<lparr>fq_waiters := (fq_waiters q)[i := Some (fw_woken v)]\<rparr>"
      using assms Some v unfolding futex_wake_one by (cases "fq_waiters q = []") auto
    then show ?thesis
      using waiting_count_serve [OF v(1,2), of "fw_woken v"] v(3) by (simp add: fw_wakes_def fw_woken_def)
  next
    case False
    then show ?thesis using assms unfolding futex_wake_one by (cases "fq_waiters q") auto
  qed
qed

lemma futex_expire_one_count:
  assumes "futex_expire_one q m r = Some (q', Some x)"
  shows "waiting_count q' < waiting_count q"
proof (cases "oldest_matching (fq_waiters q) (fw_expired m r)")
  case None
  with assms show ?thesis by (simp add: futex_expire_one_def)
next
  case (Some i)
  then obtain v where v: "i < length (fq_waiters q)" "fq_waiters q ! i = Some v" "fw_expired m r v"
    by (rule futex_expire.oldest_SomeD)
  then have "q' = q\<lparr>fq_waiters := (fq_waiters q)[i := Some (fw_timed_out v)]\<rparr>"
    using assms Some by (auto simp: futex_expire_one_def)
  then show ?thesis
    using waiting_count_serve [OF v(1,2), of "fw_timed_out v"] v(3) by (simp add: fw_expired_def fw_timed_out_def)
qed

subsection \<open>Runtime entry points\<close>

definition LINUX_FUTEX_TICK_NANOS :: u64 where
  "LINUX_FUTEX_TICK_NANOS = 10000000"

text \<open>
  The loop of \<open>wake\<close>: one waiter per round; a task that was not blocked does not count, its
  outcome is withdrawn.  The index \<open>[0]\<close> into the result of a queue without slots and a panic
  of the queue are the value \<open>None\<close>.
\<close>

function futex_wake_tasks ::
  "'t waker \<Rightarrow> usize \<Rightarrow> u32 \<Rightarrow> nat \<Rightarrow> nat \<Rightarrow> FutexQueue \<times> 't \<Rightarrow> ((FutexQueue \<times> 't) \<times> nat) option" where
  "futex_wake_tasks wake_blocked address bitset requested woken (q, tasks) =
     (if woken < requested then
        (case futex_wake q address 1 bitset of
           Some (q', Some (tid, scheduler_thread) # _) \<Rightarrow>
             let (tasks, woke) = wake_blocked tid scheduler_thread tasks
             in if woke then futex_wake_tasks wake_blocked address bitset requested (Suc woken) (q', tasks)
                else futex_wake_tasks wake_blocked address bitset requested woken
                       (fst (futex_take_outcome q' tid scheduler_thread), tasks)
         | Some (q', None # _) \<Rightarrow> Some ((q', tasks), woken)
         | _ \<Rightarrow> None)
      else Some ((q, tasks), woken))"
  by pat_completeness auto
termination
  by (relation "measure (\<lambda>(wake_blocked, address, bitset, requested, woken, q, tasks). waiting_count q)")
    (auto dest: futex_wake_one_count [simplified] intro: le_less_trans [OF waiting_count_take])

declare futex_wake_tasks.simps [simp del]

definition futex_wake_call ::
  "'t waker \<Rightarrow> FutexQueue \<times> 't \<Rightarrow> usize \<Rightarrow> nat \<Rightarrow> u32 \<Rightarrow> ((FutexQueue \<times> 't) \<times> (SysError + nat)) option" where
  "futex_wake_call wake_blocked st address requested bitset =
     (if \<not> futex_bitset_valid bitset then Some (st, Inl EINVAL)
      else map_option (map_prod id Inr)
             (futex_wake_tasks wake_blocked address bitset (min requested (length (fq_waiters (fst st)))) 0 st))"

function futex_timer_loop ::
  "'t waker \<Rightarrow> u64 \<Rightarrow> u64 \<Rightarrow> FutexQueue \<times> 't \<Rightarrow> (FutexQueue \<times> 't) option" where
  "futex_timer_loop wake_blocked now_monotonic now_realtime (q, tasks) =
     (case futex_expire_one q now_monotonic now_realtime of
        None \<Rightarrow> None
      | Some (q', None) \<Rightarrow> Some (q', tasks)
      | Some (q', Some (tid, scheduler_thread)) \<Rightarrow>
          let (tasks, woke) = wake_blocked tid scheduler_thread tasks
          in futex_timer_loop wake_blocked now_monotonic now_realtime
               (if woke then q' else fst (futex_take_outcome q' tid scheduler_thread), tasks))"
  by pat_completeness auto
termination
  by (relation "measure (\<lambda>(wake_blocked, now_monotonic, now_realtime, q, tasks). waiting_count q)")
    (auto dest: futex_expire_one_count intro: le_less_trans [OF waiting_count_take])

declare futex_timer_loop.simps [simp del]

definition futex_on_timer_tick ::
  "'t waker \<Rightarrow> nat \<Rightarrow> u64 \<Rightarrow> u64 \<Rightarrow> FutexQueue \<times> 't \<Rightarrow> (FutexQueue \<times> 't) option" where
  "futex_on_timer_tick wake_blocked cpu now_monotonic now_realtime st =
     (if cpu = 0 then futex_timer_loop wake_blocked now_monotonic now_realtime st else Some st)"

definition futex_interrupt_task ::
  "'t waker \<Rightarrow> FutexQueue \<times> 't \<Rightarrow> usize \<Rightarrow> usize \<Rightarrow> (FutexQueue \<times> 't) \<times> bool" where
  "futex_interrupt_task wake_blocked st tid scheduler_thread =
     (let (q, interrupted) = futex_interrupt (fst st) tid scheduler_thread
      in if \<not> interrupted then ((q, snd st), False)
         else
           let (tasks, woken) = wake_blocked tid scheduler_thread (snd st)
           in if woken then ((q, tasks), True)
              else ((fst (futex_take_outcome q tid scheduler_thread), tasks), False))"

subsection \<open>The system call\<close>

text \<open>
  What a futex call uses of its surroundings: the memory of the calling process (\<open>readable\<close>,
  \<open>copy_from_current\<close> and \<open>futex_address_key\<close> of \<open>linux_process_memory.rs\<close>), the clocks, the
  scheduler thread, and the task table of \<open>linux_task.rs\<close> with its state \<open>'t\<close>.
\<close>

record 't futex_env =
  env_readable :: "usize \<Rightarrow> nat \<Rightarrow> bool"
  env_copy :: "usize \<Rightarrow> nat \<Rightarrow> SysError + u8 list"
  env_key :: "usize \<Rightarrow> usize"
  env_dispatch_active :: bool
  env_now :: u64
  env_realtime_offset :: i64
  env_restart :: "LinuxRestartTimeout option"
  env_set_restart :: "LinuxRestartTimeout \<Rightarrow> 't \<Rightarrow> 't"
  env_thread :: usize
  env_tid :: "SysError + usize"
  env_block :: "'t \<Rightarrow> 't \<times> (SysError + usize \<times> usize)"
  env_wake :: "'t waker"

text \<open>\<open>from_ne_bytes\<close>; every target of the kernel is little endian.\<close>

definition from_ne_bytes :: "u8 list \<Rightarrow> 'a::len word" where
  "from_ne_bytes bytes = foldr (\<lambda>b acc. push_bit 8 acc OR ucast b) bytes 0"

definition read_deadline ::
  "'t futex_env \<Rightarrow> usize \<Rightarrow> u64 \<Rightarrow> FutexCommand \<Rightarrow> bool \<Rightarrow> i64 \<Rightarrow> SysError + FutexDeadline option" where
  "read_deadline env timeout_pointer now_monotonic command realtime realtime_offset_nanoseconds =
     (if timeout_pointer = 0 then Inr None
      else if checked_add timeout_pointer 16 = None \<or> \<not> env_readable env timeout_pointer 16
      then Inl EFAULT
      else
        and_then (env_copy env timeout_pointer 16) (\<lambda>timeout_bytes.
          ok_or EINVAL
            (map_option Some
              (futex_deadline_from_timeout command realtime now_monotonic
                (from_ne_bytes (take 8 timeout_bytes)) (from_ne_bytes (drop 8 timeout_bytes))
                LINUX_FUTEX_TICK_NANOS realtime_offset_nanoseconds))))"

text \<open>The deadline of a wait and the restart state it leaves behind.\<close>

definition wait_deadline ::
  "'t futex_env \<Rightarrow> usize \<Rightarrow> FutexCommand \<Rightarrow> bool \<Rightarrow> 't \<Rightarrow> SysError + FutexDeadline option \<times> 't" where
  "wait_deadline env timeout_pointer command realtime tasks =
     (case env_restart env of
        Some RestartInfinite \<Rightarrow> Inr (None, tasks)
      | Some (RestartDeadline ticks realtime) \<Rightarrow>
          Inr (Some \<lparr>dl_ticks = ticks, dl_clock = (if realtime then Realtime else Monotonic)\<rparr>, tasks)
      | _ \<Rightarrow>
          and_then (read_deadline env timeout_pointer (env_now env) command realtime (env_realtime_offset env))
            (\<lambda>deadline.
              let restart = (case deadline of
                    None \<Rightarrow> RestartInfinite
                  | Some d \<Rightarrow> RestartDeadline (dl_ticks d) (dl_clock d = Realtime))
              in Inr (deadline, env_set_restart env restart tasks)))"

datatype futex_result = FutexReturned "SysError + nat" | FutexParked

text \<open>
  \<open>wait\<close> up to the call of the scheduler: it returns with an error, or the caller is queued
  and blocked.
\<close>

definition futex_wait_enter ::
  "'t futex_env \<Rightarrow> FutexQueue \<times> 't \<Rightarrow> usize \<Rightarrow> usize \<Rightarrow> u32 \<Rightarrow> usize \<Rightarrow> u32 \<Rightarrow> FutexCommand \<Rightarrow> bool
     \<Rightarrow> (FutexQueue \<times> 't) \<times> futex_result" where
  "futex_wait_enter env st uaddr key expected timeout_pointer bitset command realtime =
     (if \<not> futex_bitset_valid bitset then (st, FutexReturned (Inl EINVAL))
      else if env_dispatch_active env then (st, FutexReturned (Inl EAGAIN))
      else if \<not> env_readable env uaddr 4 then (st, FutexReturned (Inl EFAULT))
      else
        (case env_copy env uaddr 4 of
           Inl _ \<Rightarrow> (st, FutexReturned (Inl EFAULT))
         | Inr observed_bytes \<Rightarrow>
             if \<not> futex_wait_value_matches (from_ne_bytes observed_bytes) expected
             then (st, FutexReturned (Inl EAGAIN))
             else
               (case wait_deadline env timeout_pointer command realtime (snd st) of
                  Inl error \<Rightarrow> (st, FutexReturned (Inl error))
                | Inr (deadline, tasks) \<Rightarrow>
                    if (case deadline of None \<Rightarrow> False | Some d \<Rightarrow> dl_ticks d \<le> env_now env)
                    then ((fst st, tasks), FutexReturned (Inl ETIMEDOUT))
                    else
                      (case env_tid env of
                         Inl error \<Rightarrow> ((fst st, tasks), FutexReturned (Inl error))
                       | Inr tid \<Rightarrow>
                           (case futex_push (fst st) \<lparr>fw_address = key, fw_bitset = bitset, fw_tid = tid,
                                  fw_scheduler_thread = env_thread env, fw_deadline = deadline,
                                  fw_sequence = 0, fw_outcome = FutexWaiting\<rparr> of
                              (q, Inl _) \<Rightarrow> ((q, tasks), FutexReturned (Inl EAGAIN))
                            | (q, Inr _) \<Rightarrow>
                                let (tasks, blocked) = env_block env tasks
                                in if blocked = Inr (tid, env_thread env) then ((q, tasks), FutexParked)
                                   else ((fst (futex_remove q tid (env_thread env)), tasks),
                                         FutexReturned (Inl EAGAIN)))))))"

text \<open>\<open>wait\<close> after the scheduler has come back; the unreachable arm is the value \<open>None\<close>.\<close>

definition futex_wait_resume ::
  "'t futex_env \<Rightarrow> FutexQueue \<times> 't \<Rightarrow> usize \<Rightarrow> usize \<Rightarrow> ((FutexQueue \<times> 't) \<times> (SysError + nat)) option" where
  "futex_wait_resume env st tid scheduler_thread =
     (let (q, outcome) = futex_take_outcome (fst st) tid scheduler_thread
      in case outcome of
           None \<Rightarrow> Some ((fst (futex_remove q tid scheduler_thread),
                       fst (env_wake env tid scheduler_thread (snd st))), Inl EAGAIN)
         | Some FutexWoken \<Rightarrow> Some ((q, snd st), Inr 0)
         | Some FutexTimedOut \<Rightarrow> Some ((q, snd st), Inl ETIMEDOUT)
         | Some FutexInterrupted \<Rightarrow> Some ((q, snd st), Inl EINTR)
         | Some FutexWaiting \<Rightarrow> None)"

definition sys_futex ::
  "'t futex_env \<Rightarrow> FutexQueue \<times> 't \<Rightarrow> usize \<Rightarrow> u32 \<Rightarrow> u32 \<Rightarrow> usize \<Rightarrow> u32
     \<Rightarrow> ((FutexQueue \<times> 't) \<times> futex_result) option" where
  "sys_futex env st uaddr op val timeout val3 =
     (case decode_futex_op op of
        None \<Rightarrow> Some (st, FutexReturned (Inl EINVAL))
      | Some decoded \<Rightarrow>
          if uaddr mod 4 \<noteq> 0 then Some (st, FutexReturned (Inl EINVAL))
          else if \<not> futex_address_valid uaddr \<or> \<not> env_readable env uaddr 4
          then Some (st, FutexReturned (Inl EFAULT))
          else
            let key = (if op_private decoded then uaddr else env_key env uaddr)
            in (case op_command decoded of
                  Wait \<Rightarrow> Some (futex_wait_enter env st uaddr key val timeout FUTEX_BITSET_MATCH_ANY Wait False)
                | WaitBitset \<Rightarrow>
                    Some (futex_wait_enter env st uaddr key val timeout val3 WaitBitset (op_realtime decoded))
                | Wake \<Rightarrow>
                    map_option (map_prod id FutexReturned)
                      (futex_wake_call (env_wake env) st key (unat val) FUTEX_BITSET_MATCH_ANY)
                | WakeBitset \<Rightarrow>
                    map_option (map_prod id FutexReturned)
                      (futex_wake_call (env_wake env) st key (unat val) val3)))"

definition restartable_wait_operation :: "u32 \<Rightarrow> bool" where
  "restartable_wait_operation op =
     (case decode_futex_op op of None \<Rightarrow> False | Some decoded \<Rightarrow> op_command decoded \<in> {Wait, WaitBitset})"

subsection \<open>The loops of the runtime return\<close>

lemma futex_wake_nonempty:
  assumes "fq_waiters q \<noteq> []" "futex_bitset_valid bitset"
  obtains (none) ids where "futex_wake q address 1 bitset = Some (q, None # ids)"
      "\<forall>w\<in>set (flatten (fq_waiters q)). \<not> fw_wakes address bitset w"
  | (one) i w ids where "futex_wake q address 1 bitset
        = Some (q\<lparr>fq_waiters := (fq_waiters q)[i := Some (fw_woken w)]\<rparr>, Some (fw_identity w) # ids)"
      "i < length (fq_waiters q)" "fq_waiters q ! i = Some w" "fw_wakes address bitset w"
proof (cases "oldest_matching (fq_waiters q) (fw_wakes address bitset)")
  case None
  have "replicate (length (fq_waiters q)) None = None # replicate (length (fq_waiters q) - 1) None"
    using assms(1) by (cases "fq_waiters q") simp_all
  with None assms have "futex_wake q address 1 bitset = Some (q, None # replicate (length (fq_waiters q) - 1) None)"
    unfolding futex_wake_one by simp
  then show thesis using none futex_wake.oldest_NoneD [OF None] by blast
next
  case (Some i)
  then obtain w where w: "i < length (fq_waiters q)" "fq_waiters q ! i = Some w" "fw_wakes address bitset w"
    by (rule futex_wake.oldest_SomeD)
  with Some assms have "futex_wake q address 1 bitset
      = Some (q\<lparr>fq_waiters := (fq_waiters q)[i := Some (fw_woken w)]\<rparr>,
          Some (fw_identity w) # replicate (length (fq_waiters q) - 1) None)"
    unfolding futex_wake_one by simp
  then show thesis using one w by blast
qed

lemma take_outcome_length [simp]: "length (fq_waiters (fst (futex_take_outcome q tid th))) = length (fq_waiters q)"
  by (simp add: futex_take_outcome_def split: option.splits)

lemma futex_wake_tasks_returns:
  "fq_waiters (fst st) \<noteq> [] \<Longrightarrow> futex_bitset_valid bitset \<Longrightarrow> woken \<le> requested \<Longrightarrow>
   \<exists>st' n. futex_wake_tasks wake address bitset requested woken st = Some (st', n) \<and> woken \<le> n \<and> n \<le> requested
     \<and> length (fq_waiters (fst st')) = length (fq_waiters (fst st))
     \<and> (futex_queue_ok (fst st) \<longrightarrow> futex_queue_ok (fst st'))
     \<and> (n = requested \<or> (\<forall>w\<in>set (flatten (fq_waiters (fst st'))). \<not> fw_wakes address bitset w))"
proof (induction wake address bitset requested woken st rule: futex_wake_tasks.induct)
  case (1 wake address bitset requested woken q tasks)
  show ?case
  proof (cases "woken < requested")
    case False
    then show ?thesis using 1(5) by (auto simp: futex_wake_tasks.simps [of _ _ _ _ _ q])
  next
    case True
    have ne: "fq_waiters q \<noteq> []" using 1(3) by simp
    from ne 1(4) show ?thesis
    proof (cases rule: futex_wake_nonempty [where address = address])
      case (none ids)
      then show ?thesis using True by (simp add: futex_wake_tasks.simps [of _ _ _ _ _ q])
    next
      case (one i w ids)
      let ?q = "q\<lparr>fq_waiters := (fq_waiters q)[i := Some (fw_woken w)]\<rparr>"
      obtain tid th where id: "fw_identity w = (tid, th)" by fastforce
      obtain tasks' woke where wk: "wake tid th tasks = (tasks', woke)" by fastforce
      note call = one(1) [unfolded id]
      have ok: "futex_queue_ok q \<Longrightarrow> futex_queue_ok ?q" using futex_wake_ok one(1) by blast
      show ?thesis
      proof (cases woke)
        case True
        have "futex_wake_tasks wake address bitset requested woken (q, tasks)
            = futex_wake_tasks wake address bitset requested (Suc woken) (?q, tasks')"
          using \<open>woken < requested\<close> call wk True by (simp add: futex_wake_tasks.simps [of _ _ _ _ _ q])
        moreover have "\<exists>st' n. futex_wake_tasks wake address bitset requested (Suc woken) (?q, tasks') = Some (st', n)
            \<and> Suc woken \<le> n \<and> n \<le> requested \<and> length (fq_waiters (fst st')) = length (fq_waiters q) \<and> (futex_queue_ok (fst (?q, tasks')) \<longrightarrow> futex_queue_ok (fst st'))
            \<and> (n = requested \<or> (\<forall>w\<in>set (flatten (fq_waiters (fst st'))). \<not> fw_wakes address bitset w))"
          using 1(1) [OF \<open>woken < requested\<close> call refl refl refl refl wk [symmetric] refl True] ne 1(4) \<open>woken < requested\<close>
          by simp
        ultimately show ?thesis using ok by (auto intro: Suc_leD)
      next
        case False
        let ?r = "fst (futex_take_outcome ?q tid th)"
        have "futex_wake_tasks wake address bitset requested woken (q, tasks)
            = futex_wake_tasks wake address bitset requested woken (?r, tasks')"
          using \<open>woken < requested\<close> call wk False by (simp add: futex_wake_tasks.simps [of _ _ _ _ _ q])
        moreover have "length (fq_waiters ?r) \<noteq> 0" using ne by simp
        then have "fq_waiters (fst (?r, tasks')) \<noteq> []" by (metis fst_conv list.size(3))
        ultimately show ?thesis
          using 1(2) [OF \<open>woken < requested\<close> call refl refl refl refl wk [symmetric] refl False] 1(4,5)
            ok futex_take_outcome_ok [of ?q tid th] by auto
      qed
    qed
  qed
qed

lemma futex_timer_loop_returns:
  "\<exists>st'. futex_timer_loop wake m r st = Some st' \<and> length (fq_waiters (fst st')) = length (fq_waiters (fst st))
     \<and> (futex_queue_ok (fst st) \<longrightarrow> futex_queue_ok (fst st'))
     \<and> (\<forall>w\<in>set (flatten (fq_waiters (fst st'))). \<not> fw_expired m r w)"
proof (induction wake m r st rule: futex_timer_loop.induct)
  case (1 wake m r q tasks)
  show ?case
  proof (cases "oldest_matching (fq_waiters q) (fw_expired m r)")
    case None
    then have "futex_expire_one q m r = Some (q, None)" by (simp add: futex_expire_one_def)
    then show ?thesis
      using futex_expire.oldest_NoneD [OF None] by (simp add: futex_timer_loop.simps [of _ _ _ q])
  next
    case (Some i)
    then obtain w where w: "i < length (fq_waiters q)" "fq_waiters q ! i = Some w"
      by (rule futex_expire.oldest_SomeD)
    let ?q = "q\<lparr>fq_waiters := (fq_waiters q)[i := Some (fw_timed_out w)]\<rparr>"
    obtain tid th where id: "fw_identity w = (tid, th)" by fastforce
    obtain tasks' woke where wk: "wake tid th tasks = (tasks', woke)" by fastforce
    have call: "futex_expire_one q m r = Some (?q, Some (tid, th))"
      using Some w id by (simp add: futex_expire_one_def)
    let ?r = "if woke then ?q else fst (futex_take_outcome ?q tid th)"
    have eq: "futex_timer_loop wake m r (q, tasks) = futex_timer_loop wake m r (?r, tasks')"
      using call wk by (simp add: futex_timer_loop.simps [of _ _ _ q])
    have ok: "futex_queue_ok q \<Longrightarrow> futex_queue_ok ?r" "length (fq_waiters ?r) = length (fq_waiters q)"
      using futex_expire_one_ok [OF _ call] futex_take_outcome_ok [of ?q tid th] by auto
    show ?thesis
      using 1 [OF call refl refl refl wk [symmetric] refl] ok unfolding eq fst_conv by metis
  qed
qed

subsection \<open>Runs of the runtime\<close>

inductive futex_step ::
  "FutexQueue \<times> 't \<Rightarrow> FutexQueue \<times> 't \<Rightarrow> bool" where
  step_call: "sys_futex env st uaddr op val timeout val3 = Some (st', result) \<Longrightarrow> futex_step st st'"
| step_resume: "futex_wait_resume env st tid scheduler_thread = Some (st', result) \<Longrightarrow> futex_step st st'"
| step_wake: "futex_wake_call wake_blocked st address requested bitset = Some (st', result) \<Longrightarrow> futex_step st st'"
| step_tick: "futex_on_timer_tick wake_blocked cpu now_monotonic now_realtime st = Some st' \<Longrightarrow> futex_step st st'"
| step_signal: "futex_interrupt_task wake_blocked st tid scheduler_thread = (st', interrupted) \<Longrightarrow> futex_step st st'"
| step_remove: "futex_step (q, tasks) (fst (futex_remove_task q tid scheduler_thread), tasks)"
| step_reset: "futex_step (q, tasks) (fst (futex_reset q), tasks)"
| step_tasks: "futex_step (q, tasks) (q, tasks')"

lemma futex_push_length: "length (fq_waiters (fst (futex_push q w))) = length (fq_waiters q)"
  by (simp add: futex_push_def Let_def split: option.splits)

lemma futex_remove_length: "length (fq_waiters (fst (futex_remove q tid th))) = length (fq_waiters q)"
  by (simp add: futex_remove_def split: option.splits)

lemma futex_wait_enter_cases:
  obtains (returned) r tasks where "futex_wait_enter env st uaddr key expected tp bitset command realtime
      = ((fst st, tasks), FutexReturned r)"
  | (parked) tid deadline tasks q where
      "futex_wait_enter env st uaddr key expected tp bitset command realtime = ((q, tasks), FutexParked)"
      "futex_bitset_valid bitset" "env_readable env uaddr 4"
      "\<exists>bytes. env_copy env uaddr 4 = Inr bytes \<and> from_ne_bytes bytes = expected"
      "env_tid env = Inr tid"
      "futex_push (fst st) \<lparr>fw_address = key, fw_bitset = bitset, fw_tid = tid,
          fw_scheduler_thread = env_thread env, fw_deadline = deadline, fw_sequence = 0, fw_outcome = FutexWaiting\<rparr>
        = (q, Inr ())"
      "\<forall>d. deadline = Some d \<longrightarrow> env_now env < dl_ticks d"
  | (undone) tid deadline tasks q r where
      "futex_wait_enter env st uaddr key expected tp bitset command realtime
        = ((fst (futex_remove q tid (env_thread env)), tasks), FutexReturned r)"
      "futex_push (fst st) \<lparr>fw_address = key, fw_bitset = bitset, fw_tid = tid,
          fw_scheduler_thread = env_thread env, fw_deadline = deadline, fw_sequence = 0, fw_outcome = FutexWaiting\<rparr>
        = (q, Inr ())"
proof (cases "\<not> futex_bitset_valid bitset \<or> env_dispatch_active env \<or> \<not> env_readable env uaddr 4
    \<or> (\<forall>bytes. env_copy env uaddr 4 = Inr bytes \<longrightarrow> from_ne_bytes bytes \<noteq> expected)")
  case True
  then have "\<exists>r. futex_wait_enter env st uaddr key expected tp bitset command realtime = (st, FutexReturned r)"
    by (cases "futex_bitset_valid bitset"; cases "env_dispatch_active env"; cases "env_readable env uaddr 4";
        cases "env_copy env uaddr 4") (simp_all add: futex_wait_enter_def futex_wait_value_matches_def)
  then show thesis using returned [of "snd st"] by (metis prod.collapse)
next
  case False
  then obtain bytes where b: "env_copy env uaddr 4 = Inr bytes" "from_ne_bytes bytes = expected"
    and g: "futex_bitset_valid bitset" "\<not> env_dispatch_active env" "env_readable env uaddr 4" by auto
  note base = b g futex_wait_value_matches_def
  show thesis
  proof (cases "wait_deadline env tp command realtime (snd st)")
    case (Inl e)
    then show thesis using returned [of "snd st"] by (simp add: futex_wait_enter_def base)
  next
    case (Inr dt)
    obtain deadline tasks where dt: "dt = (deadline, tasks)" by fastforce
    show thesis
    proof (cases "(case deadline of None \<Rightarrow> False | Some d \<Rightarrow> dl_ticks d \<le> env_now env) \<or> (\<exists>e. env_tid env = Inl e)")
      case True
      then have "\<exists>r. futex_wait_enter env st uaddr key expected tp bitset command realtime
          = ((fst st, tasks), FutexReturned r)"
        using Inr dt
        by (cases "case deadline of None \<Rightarrow> False | Some d \<Rightarrow> dl_ticks d \<le> env_now env"; cases "env_tid env")
          (simp_all add: futex_wait_enter_def base)
      then show thesis using returned by blast
    next
      case False
      then obtain tid where tid: "env_tid env = Inr tid" by (cases "env_tid env") auto
      have late: "\<forall>d. deadline = Some d \<longrightarrow> env_now env < dl_ticks d" using False by (auto simp: not_le)
      have nl: "\<not> (case deadline of None \<Rightarrow> False | Some d \<Rightarrow> dl_ticks d \<le> env_now env)" using False by simp
      let ?w = "\<lparr>fw_address = key, fw_bitset = bitset, fw_tid = tid, fw_scheduler_thread = env_thread env,
          fw_deadline = deadline, fw_sequence = 0, fw_outcome = FutexWaiting\<rparr>"
      obtain q r where p: "futex_push (fst st) ?w = (q, r)" by fastforce
      show thesis
      proof (cases r)
        case (Inl e)
        then have "q = fst st" using p by (auto simp: futex_push_def Let_def split: if_splits option.splits)
        then show thesis using returned [of tasks] Inr dt tid nl p Inl by (simp add: futex_wait_enter_def base)
      next
        case ok: (Inr u)
        obtain tasks' blocked where bl: "env_block env tasks = (tasks', blocked)" by fastforce
        show thesis
        proof (cases "blocked = Inr (tid, env_thread env)")
          case True
          then have "futex_wait_enter env st uaddr key expected tp bitset command realtime = ((q, tasks'), FutexParked)"
            using Inr dt tid nl p ok bl by (simp add: futex_wait_enter_def base)
          then show thesis using parked [of q tasks' tid deadline] b g tid p ok late by simp
        next
          case False
          then have "futex_wait_enter env st uaddr key expected tp bitset command realtime
              = ((fst (futex_remove q tid (env_thread env)), tasks'), FutexReturned (Inl EAGAIN))"
            using Inr dt tid nl p ok bl by (simp add: futex_wait_enter_def base)
          then show thesis using undone [of q tid tasks' "Inl EAGAIN" deadline] p ok by simp
        qed
      qed
    qed
  qed
qed

lemma futex_wait_enter_ok:
  assumes "futex_queue_ok (fst st)"
  shows "futex_queue_ok (fst (fst (futex_wait_enter env st uaddr key expected tp bitset command realtime)))
    \<and> length (fq_waiters (fst (fst (futex_wait_enter env st uaddr key expected tp bitset command realtime))))
        = length (fq_waiters (fst st))"
proof (cases rule: futex_wait_enter_cases [of env st uaddr key expected tp bitset command realtime])
  case (parked tid deadline tasks q)
  then show ?thesis using futex_push_ok [OF assms parked(6)] futex_push_length [of "fst st"] by (metis fst_conv)
next
  case (undone tid deadline tasks q r)
  then show ?thesis
    using futex_remove_ok [OF futex_push_ok [OF assms undone(2)]] futex_push_length [of "fst st"]
      futex_remove_length [of q tid "env_thread env"] by (metis fst_conv)
qed (use assms in simp)

lemma futex_wake_call_ok:
  assumes "futex_queue_ok (fst st)" "fq_waiters (fst st) \<noteq> []"
  shows "\<exists>st' r. futex_wake_call wake st address requested bitset = Some (st', r) \<and> futex_queue_ok (fst st')
    \<and> length (fq_waiters (fst st')) = length (fq_waiters (fst st))"
proof (cases "futex_bitset_valid bitset")
  case True
  then show ?thesis
    using assms futex_wake_tasks_returns [OF assms(2) True, of 0 "min requested (length (fq_waiters (fst st)))" wake address]
    by (auto simp: futex_wake_call_def)
qed (use assms in \<open>simp add: futex_wake_call_def\<close>)

lemma sys_futex_ok:
  assumes "futex_queue_ok (fst st)" "fq_waiters (fst st) \<noteq> []"
  shows "\<exists>st' r. sys_futex env st uaddr op val timeout val3 = Some (st', r) \<and> futex_queue_ok (fst st')
    \<and> length (fq_waiters (fst st')) = length (fq_waiters (fst st))"
proof (cases "decode_futex_op op")
  case None
  then show ?thesis using assms by (simp add: sys_futex_def)
next
  case (Some d)
  let ?key = "if op_private d then uaddr else env_key env uaddr"
  have wait: "\<exists>st' r. futex_wait_enter env st uaddr ?key val timeout b c rt = (st', r) \<and> futex_queue_ok (fst st')
      \<and> length (fq_waiters (fst st')) = length (fq_waiters (fst st))" for b c rt
    using futex_wait_enter_ok [OF assms(1), of env uaddr ?key val timeout b c rt] by (metis prod.collapse)
  show ?thesis
  proof (cases "uaddr mod 4 \<noteq> 0 \<or> \<not> futex_address_valid uaddr \<or> \<not> env_readable env uaddr 4")
    case True
    then show ?thesis using assms Some by (cases "uaddr mod 4 = 0") (auto simp: sys_futex_def)
  next
    case False
    have wake: "\<exists>st' r. map_option (map_prod id FutexReturned) (futex_wake_call (env_wake env) st ?key (unat val) b)
        = Some (st', r) \<and> futex_queue_ok (fst st') \<and> length (fq_waiters (fst st')) = length (fq_waiters (fst st))" for b
      using futex_wake_call_ok [OF assms, of "env_wake env" ?key "unat val" b] by (metis id_apply map_prod_simp option.simps(9))
    note call = sys_futex_def [of env st uaddr op val timeout val3, unfolded Some option.simps(5) Let_def]
    show ?thesis
    proof (cases "op_command d")
      case Wait
      then show ?thesis using False wait [of FUTEX_BITSET_MATCH_ANY FutexCommand.Wait False] unfolding call by simp
    next
      case Wake
      then show ?thesis using False wake [of FUTEX_BITSET_MATCH_ANY] unfolding call by simp
    next
      case WaitBitset
      then show ?thesis using False wait [of val3 FutexCommand.WaitBitset "op_realtime d"] unfolding call by simp
    next
      case WakeBitset
      then show ?thesis using False wake [of val3] unfolding call by simp
    qed
  qed
qed

lemma futex_take_outcome_not_waiting: "snd (futex_take_outcome q tid th) \<noteq> Some FutexWaiting"
proof (cases "position (slot_is (\<lambda>w. fw_is tid th w \<and> fw_outcome w \<noteq> FutexWaiting)) (fq_waiters q)")
  case (Some i)
  then show ?thesis by (rule position_slot_is) (simp add: futex_take_outcome_def Some)
qed (simp add: futex_take_outcome_def)

lemma futex_wait_resume_ok:
  assumes "futex_queue_ok (fst st)"
  shows "\<exists>st' r. futex_wait_resume env st tid th = Some (st', r) \<and> futex_queue_ok (fst st')
    \<and> length (fq_waiters (fst st')) = length (fq_waiters (fst st))"
proof -
  obtain q outcome where t: "futex_take_outcome (fst st) tid th = (q, outcome)" by fastforce
  have "futex_queue_ok q" "length (fq_waiters q) = length (fq_waiters (fst st))"
    using futex_take_outcome_ok [OF assms, of tid th] take_outcome_length [of "fst st" tid th] t by simp_all
  moreover have "outcome \<noteq> Some FutexWaiting" using futex_take_outcome_not_waiting [of "fst st" tid th] t by simp
  ultimately show ?thesis
    using t futex_remove_ok [of q tid th] futex_remove_length [of q tid th]
    by (auto simp: futex_wait_resume_def split: option.splits FutexWaitOutcome.splits)
qed

lemma futex_step_ok:
  "futex_step st st' \<Longrightarrow> futex_queue_ok (fst st) \<and> fq_waiters (fst st) \<noteq> []
   \<Longrightarrow> futex_queue_ok (fst st') \<and> fq_waiters (fst st') \<noteq> []"
proof (induction rule: futex_step.induct)
  case (step_call env st uaddr op val timeout val3 st' result)
  then show ?case
    using sys_futex_ok [of st env uaddr op val timeout val3] by (metis length_0_conv option.inject prod.inject)
next
  case (step_resume env st tid th st' result)
  then show ?case using futex_wait_resume_ok [of st env tid th] by (metis length_0_conv option.inject prod.inject)
next
  case (step_wake wake st address requested bitset st' result)
  then show ?case
    using futex_wake_call_ok [of st wake address requested bitset] by (metis length_0_conv option.inject prod.inject)
next
  case (step_tick wake cpu m r st st')
  then show ?case
    using futex_timer_loop_returns [of wake m r st] unfolding futex_on_timer_tick_def
    by (metis length_0_conv option.inject)
next
  case (step_signal wake st tid th st' interrupted)
  have l: "length (fq_waiters (fst (futex_interrupt (fst st) tid th))) = length (fq_waiters (fst st))"
    by (simp add: futex_interrupt_def split: option.splits)
  obtain q b where i: "futex_interrupt (fst st) tid th = (q, b)" by fastforce
  have q: "futex_queue_ok q" "length (fq_waiters q) = length (fq_waiters (fst st))"
    using futex_interrupt_ok [of "fst st" tid th] step_signal i l by simp_all
  have "fst st' = q \<or> fst st' = fst (futex_take_outcome q tid th)"
    using step_signal i by (auto simp: futex_interrupt_task_def Let_def split: prod.splits if_splits)
  then show ?case
    using q step_signal.prems futex_take_outcome_ok [OF q(1), of tid th] take_outcome_length [of q tid th]
    by (metis length_0_conv)
next
  case (step_remove q tasks tid th)
  then show ?case using futex_remove_task_ok [of q tid th] by (simp add: futex_remove_task_def)
next
  case (step_reset q tasks)
  then show ?case using futex_reset_ok [of q] by (simp add: futex_reset_def)
qed simp

lemma futex_run_ok:
  assumes "futex_step\<^sup>*\<^sup>* (futex_queue_new N, tasks) st" "0 < N"
  shows "futex_queue_ok (fst st) \<and> fq_waiters (fst st) \<noteq> []"
  using assms(1)
proof (induction rule: rtranclp_induct)
  case base
  then show ?case using assms(2) futex_new_ok [of N] by (simp add: futex_queue_new_def)
next
  case (step y z)
  then show ?case using futex_step_ok by blast
qed

subsection \<open>Timeouts\<close>

lemma unat_i64: "0 \<le> sint w \<Longrightarrow> int (unat w) = sint w" for w :: i64
proof -
  assume "0 \<le> sint w"
  moreover have "sint w < 2 ^ 64" using sint_lt [of w] by simp
  ultimately show ?thesis using uint_sint [of w] by (simp add: take_bit_int_eq_self)
qed

lemma ceil_bounds:
  fixes n q k m t :: nat
  assumes "q * k + m = n" "m < k" "t = (if m = 0 then q else Suc q)"
  shows "n \<le> t * k" "t * k < n + k"
  using assms by (auto split: if_splits)

lemma ticks_ceil:
  assumes "futex_timespec_to_ticks_ceil seconds nanoseconds tick = Some t"
  shows "0 < unat tick"
    "int (unat t) * int (unat tick) \<ge> sint seconds * 1000000000 + sint nanoseconds"
    "int (unat t) * int (unat tick) < sint seconds * 1000000000 + sint nanoseconds + int (unat tick)"
proof -
  from assms have v: "tick \<noteq> 0" "futex_timespec_valid seconds nanoseconds"
    by (auto simp: futex_timespec_to_ticks_ceil_def split: if_splits)
  then show pos: "0 < unat tick" by (simp add: unat_gt_0)
  from assms v obtain p s where p: "checked_mul seconds NANOS_PER_SECOND = Some p" and s: "checked_add p nanoseconds = Some s"
    and r: "(if s mod tick = 0 then Some (s div tick) else checked_add (s div tick) 1) = Some t"
    by (auto simp: futex_timespec_to_ticks_ceil_def Let_def split: option.splits)
  have "unat s = unat seconds * 1000000000 + unat nanoseconds"
    using p s by (simp add: checked_add_Some_iff checked_mul_SomeD NANOS_PER_SECOND_def)
  then have total: "int (unat s) = sint seconds * 1000000000 + sint nanoseconds"
    using v(2) by (simp add: futex_timespec_valid_def unat_i64 [symmetric])
  have "unat t = (if unat s mod unat tick = 0 then unat s div unat tick else Suc (unat s div unat tick))"
    using r by (auto simp: unat_div unat_mod checked_add_Some_iff unat_eq_zero [symmetric] split: if_splits)
  moreover have "unat s div unat tick * unat tick + unat s mod unat tick = unat s" by simp
  moreover have "unat s mod unat tick < unat tick" using pos by simp
  ultimately have "unat t * unat tick \<ge> unat s" "unat t * unat tick < unat s + unat tick"
    using ceil_bounds by blast+
  then show "int (unat t) * int (unat tick) \<ge> sint seconds * 1000000000 + sint nanoseconds"
    "int (unat t) * int (unat tick) < sint seconds * 1000000000 + sint nanoseconds + int (unat tick)"
    unfolding total [symmetric] by (metis of_nat_le_iff of_nat_mult, metis of_nat_add of_nat_less_iff of_nat_mult)
qed

lemma futex_push_fill:
  assumes "futex_push q w = (q', Inr ())"
  shows "mset (flatten (fq_waiters q')) = add_mset (w\<lparr>fw_sequence := fq_next_sequence q\<rparr>) (mset (flatten (fq_waiters q)))"
    "fw_outcome w = FutexWaiting"
    "\<exists>i. position (\<lambda>slot. slot = None) (fq_waiters q) = Some i
      \<and> fq_waiters q' = (fq_waiters q)[i := Some (w\<lparr>fw_sequence := fq_next_sequence q\<rparr>)]"
    "\<forall>v\<in>set (flatten (fq_waiters q)). \<not> fw_is (fw_tid w) (fw_scheduler_thread w) v"
proof -
  obtain i where i: "position (\<lambda>slot. slot = None) (fq_waiters q) = Some i"
    "fq_waiters q' = (fq_waiters q)[i := Some (w\<lparr>fw_sequence := fq_next_sequence q\<rparr>)]"
    using assms by (auto simp: futex_push_def Let_def split: if_splits option.splits)
  then show "\<exists>i. position (\<lambda>slot. slot = None) (fq_waiters q) = Some i
      \<and> fq_waiters q' = (fq_waiters q)[i := Some (w\<lparr>fw_sequence := fq_next_sequence q\<rparr>)]" by blast
  show "mset (flatten (fq_waiters q')) = add_mset (w\<lparr>fw_sequence := fq_next_sequence q\<rparr>) (mset (flatten (fq_waiters q)))"
    using position_SomeD [OF i(1)] i(2) mset_flatten_fill [of i "fq_waiters q"] by simp
  show "fw_outcome w = FutexWaiting" "\<forall>v\<in>set (flatten (fq_waiters q)). \<not> fw_is (fw_tid w) (fw_scheduler_thread w) v"
    using assms by (auto simp: futex_push_def list_ex_iff split: if_splits)
qed

text \<open>Withdrawing a waiter right after queueing it restores the queue.\<close>

lemma futex_push_remove:
  assumes "futex_queue_ok q" "futex_push q w = (q', Inr ())" "fw_tid w = tid" "fw_scheduler_thread w = th"
  shows "fq_waiters (fst (futex_remove q' tid th)) = fq_waiters q"
proof -
  let ?w = "w\<lparr>fw_sequence := fq_next_sequence q\<rparr>"
  obtain i where i: "position (\<lambda>slot. slot = None) (fq_waiters q) = Some i"
    and q': "fq_waiters q' = (fq_waiters q)[i := Some ?w]"
    using futex_push_fill(3) [OF assms(2)] by blast
  have il: "i < length (fq_waiters q)" "fq_waiters q ! i = None" using position_SomeD [OF i] by simp_all
  have "position (slot_is (fw_is tid th)) (fq_waiters q') = Some i"
  proof (rule position_uniqueI)
    show "i < length (fq_waiters q')" "slot_is (fw_is tid th) (fq_waiters q' ! i)"
      using il q' assms(3,4) by (simp_all add: fw_is_def)
    show "j = i" if "j < length (fq_waiters q')" "slot_is (fw_is tid th) (fq_waiters q' ! j)" for j
    proof (rule ccontr)
      assume ne: "j \<noteq> i"
      with that q' obtain v where "fq_waiters q ! j = Some v" "fw_is tid th v" "j < length (fq_waiters q)"
        by (auto dest: slot_isD)
      then show False using futex_push_fill(4) [OF assms(2)] assms(3,4) by (auto simp: in_flatten_nth)
    qed
  qed
  then show ?thesis using q' il by (simp add: futex_remove_def list_update_same_conv [symmetric])
qed

subsection \<open>Encoding of operation words\<close>

definition encode_futex_op :: "DecodedFutexOp \<Rightarrow> u32" where
  "encode_futex_op d =
     (case op_command d of Wait \<Rightarrow> FUTEX_WAIT | Wake \<Rightarrow> FUTEX_WAKE | WaitBitset \<Rightarrow> FUTEX_WAIT_BITSET
        | WakeBitset \<Rightarrow> FUTEX_WAKE_BITSET)
     OR (if op_private d then FUTEX_PRIVATE_FLAG else 0) OR (if op_realtime d then FUTEX_CLOCK_REALTIME else 0)"

lemma single_bit_and: "m = 2 ^ n \<Longrightarrow> w AND m = (if w AND m \<noteq> 0 then m else 0)" for w m :: u32
  by (auto simp: and_exp_eq_0_iff_not_bit intro!: bit_word_eqI) (auto simp: bit_simps)

lemma futex_flags_and:
  "op AND FUTEX_PRIVATE_FLAG = (if op AND FUTEX_PRIVATE_FLAG \<noteq> 0 then FUTEX_PRIVATE_FLAG else 0)"
  "op AND FUTEX_CLOCK_REALTIME = (if op AND FUTEX_CLOCK_REALTIME \<noteq> 0 then FUTEX_CLOCK_REALTIME else 0)"
  by (rule single_bit_and [of _ 7], simp add: FUTEX_PRIVATE_FLAG_def)
    (rule single_bit_and [of _ 8], simp add: FUTEX_CLOCK_REALTIME_def)

lemma allowed_op_split:
  assumes "op AND NOT FUTEX_ALLOWED_OP_BITS = 0"
  shows "op = (op AND FUTEX_CMD_MASK) OR (op AND FUTEX_PRIVATE_FLAG) OR (op AND FUTEX_CLOCK_REALTIME)"
proof -
  have "op = op AND (FUTEX_ALLOWED_OP_BITS OR NOT FUTEX_ALLOWED_OP_BITS)" by simp
  also have "\<dots> = (op AND FUTEX_ALLOWED_OP_BITS) OR (op AND NOT FUTEX_ALLOWED_OP_BITS)"
    by (rule bit.conj_disj_distrib)
  also have "\<dots> = op AND FUTEX_ALLOWED_OP_BITS" using assms by simp
  finally show ?thesis unfolding FUTEX_ALLOWED_OP_BITS_def by (simp add: bit.conj_disj_distrib)
qed

lemma decode_futex_op_encode:
  "op_realtime d \<longrightarrow> op_command d = WaitBitset \<Longrightarrow> decode_futex_op (encode_futex_op d) = Some d"
proof -
  assume r: "op_realtime d \<longrightarrow> op_command d = WaitBitset"
  obtain c p t where d: "d = \<lparr>op_command = c, op_private = p, op_realtime = t\<rparr>" by (cases d)
  show ?thesis using r unfolding d
    by (cases c; cases p; cases t) (simp_all add: decode_futex_op_def encode_futex_op_def FUTEX_ALLOWED_OP_BITS_def
      FUTEX_CMD_MASK_def FUTEX_PRIVATE_FLAG_def FUTEX_CLOCK_REALTIME_def FUTEX_WAIT_def FUTEX_WAKE_def
      FUTEX_WAIT_BITSET_def FUTEX_WAKE_BITSET_def futex_command_supported_def futex_realtime_allowed_def Let_def)
qed

lemma encode_futex_op_decode:
  assumes "decode_futex_op op = Some d"
  shows "encode_futex_op d = op" "op_realtime d \<longrightarrow> op_command d = WaitBitset"
proof -
  from assms have a: "op AND NOT FUTEX_ALLOWED_OP_BITS = 0" "futex_command_supported (op AND FUTEX_CMD_MASK)"
    "op_private d = (op AND FUTEX_PRIVATE_FLAG \<noteq> 0)" "op_realtime d = (op AND FUTEX_CLOCK_REALTIME \<noteq> 0)"
    "(case op_command d of Wait \<Rightarrow> FUTEX_WAIT | Wake \<Rightarrow> FUTEX_WAKE | WaitBitset \<Rightarrow> FUTEX_WAIT_BITSET
        | WakeBitset \<Rightarrow> FUTEX_WAKE_BITSET) = op AND FUTEX_CMD_MASK"
    "futex_realtime_allowed (op AND FUTEX_CMD_MASK) (op_realtime d)"
    by (auto simp: decode_futex_op_def Let_def split: if_splits)
  show "encode_futex_op d = op"
    unfolding encode_futex_op_def a(3-5)
    using allowed_op_split [OF a(1)] futex_flags_and [of op] by simp
  show "op_realtime d \<longrightarrow> op_command d = WaitBitset"
    using a(5,6) by (cases "op_command d") (auto simp: futex_realtime_allowed_def FUTEX_WAIT_def FUTEX_WAKE_def
      FUTEX_WAIT_BITSET_def FUTEX_WAKE_BITSET_def)
qed

definition timespec_nanos :: "i64 \<Rightarrow> i64 \<Rightarrow> int" where
  "timespec_nanos seconds nanoseconds = sint seconds * 1000000000 + sint nanoseconds"

subsection \<open>Properties\<close>

text \<open>
  C34: Waking \<open>n\<close> waiters of an address marks the \<open>n\<close> oldest waiters that wait on it with a
  matching bitset, no other, and returns their tasks in the order in which they queued.
\<close>
theorem futex_wake_fifo:
  assumes "futex_queue_ok q" "futex_bitset_valid bitset"
  shows "futex_wake q address n bitset =
    (let sel = take n (by_age fw_sequence (fw_wakes address bitset) (fq_waiters q))
     in Some (q\<lparr>fq_waiters := map (map_option (\<lambda>w. if w \<in> set sel then w\<lparr>fw_outcome := FutexWoken\<rparr> else w)) (fq_waiters q)\<rparr>,
        compact (length (fq_waiters q)) (map fw_identity sel)))"
  using futex_wake_result [OF assms(1), of address n bitset, unfolded fw_woken_def] assms(2) by simp

text \<open>
  C19: In every run of the futex runtime the queue stays well formed: sequence numbers and
  task identities are distinct, addresses and bitsets valid.  From there every call returns,
  none panics.
\<close>
theorem futex_runtime_safe:
  assumes "futex_step\<^sup>*\<^sup>* (futex_queue_new N, tasks) st" "0 < N"
  shows "futex_queue_ok (fst st)
    \<and> sys_futex env st uaddr op val timeout val3 \<noteq> None
    \<and> futex_wait_resume env st tid th \<noteq> None
    \<and> futex_on_timer_tick wake_blocked cpu now_monotonic now_realtime st \<noteq> None"
  using futex_run_ok [OF assms] sys_futex_ok [of st env uaddr op val timeout val3] futex_wait_resume_ok [of st env tid th]
    futex_timer_loop_returns [of wake_blocked now_monotonic now_realtime st]
  by (auto simp: futex_on_timer_tick_def)

text \<open>
  A wake call returns the number of tasks it made runnable.  It stops early only when no
  waiter qualifies any more: tasks that were not blocked do not use up the request.
\<close>
theorem futex_wake_call_complete:
  assumes "fq_waiters (fst st) \<noteq> []" "futex_bitset_valid bitset"
  shows "\<exists>st' n. futex_wake_call wake_blocked st address requested bitset = Some (st', Inr n)
    \<and> n \<le> requested
    \<and> (n < min requested (length (fq_waiters (fst st)))
        \<longrightarrow> (\<forall>w\<in>set (flatten (fq_waiters (fst st'))). \<not> fw_wakes address bitset w))"
proof -
  obtain st' n where "futex_wake_tasks wake_blocked address bitset (min requested (length (fq_waiters (fst st)))) 0 st = Some (st', n)"
    "n \<le> min requested (length (fq_waiters (fst st)))"
    "n = min requested (length (fq_waiters (fst st)))
      \<or> (\<forall>w\<in>set (flatten (fq_waiters (fst st'))). \<not> fw_wakes address bitset w)"
    using futex_wake_tasks_returns [OF assms, of 0 "min requested (length (fq_waiters (fst st)))" wake_blocked address] by auto
  then show ?thesis using assms(2) by (auto simp: futex_wake_call_def)
qed

text \<open>
  The timer tick terminates and leaves no waiter behind whose deadline has passed.
\<close>
theorem futex_tick_expires_all:
  "\<exists>st'. futex_on_timer_tick wake_blocked 0 now_monotonic now_realtime st = Some st'
    \<and> (\<forall>w\<in>set (flatten (fq_waiters (fst st'))). \<not> fw_expired now_monotonic now_realtime w)"
  using futex_timer_loop_returns [of wake_blocked now_monotonic now_realtime st] by (auto simp: futex_on_timer_tick_def)

text \<open>
  C12: A task is parked on a futex only after the word in memory was seen to hold the expected
  value, and then exactly one waiter is added, with the key, the bitset and the task of the
  call; in every other case the waiters are as before, with their sequence numbers (only the counter
  that numbers them and its flag of exhaustion may have moved).
\<close>
theorem futex_wait_checks_value:
  assumes "futex_queue_ok (fst st)"
    "futex_wait_enter env st uaddr key expected timeout_pointer bitset command realtime = (st', result)"
  shows "(case result of
      FutexParked \<Rightarrow>
        (\<exists>bytes. env_copy env uaddr 4 = Inr bytes \<and> from_ne_bytes bytes = expected)
        \<and> (\<exists>w. mset (flatten (fq_waiters (fst st'))) = add_mset w (mset (flatten (fq_waiters (fst st))))
             \<and> fw_address w = key \<and> fw_bitset w = bitset \<and> env_tid env = Inr (fw_tid w)
             \<and> fw_scheduler_thread w = env_thread env \<and> fw_outcome w = FutexWaiting)
    | FutexReturned _ \<Rightarrow> mset (flatten (fq_waiters (fst st'))) = mset (flatten (fq_waiters (fst st))))"
proof (cases rule: futex_wait_enter_cases [of env st uaddr key expected timeout_pointer bitset command realtime])
  case (parked tid deadline tasks q)
  from futex_push_fill [OF parked(6)] parked assms(2) show ?thesis by fastforce
next
  case (undone tid deadline tasks q r)
  from futex_push_remove [OF assms(1) undone(2)] undone assms(2) show ?thesis by auto
qed (use assms(2) in auto)

text \<open>
  C35: A relative timeout never fires early: a waiter that queues during tick \<open>now\<close> expires
  only when at least the requested time has passed since the end of that tick, and less than
  two ticks later than requested.
\<close>
theorem futex_relative_deadline_bounds:
  assumes "futex_relative_deadline now seconds nanoseconds tick = Some d"
  shows "(if timespec_nanos seconds nanoseconds = 0 then d = now else
      timespec_nanos seconds nanoseconds \<le> (int (unat d) - int (unat now) - 1) * int (unat tick)
      \<and> (int (unat d) - int (unat now)) * int (unat tick) < timespec_nanos seconds nanoseconds + 2 * int (unat tick))"
proof -
  obtain t s where t: "futex_timespec_to_ticks_ceil seconds nanoseconds tick = Some t"
    and s: "checked_add now t = Some s"
    and d: "checked_add s (if seconds = 0 \<and> nanoseconds = 0 then 0 else 1) = Some d"
    using assms(1) by (auto simp: futex_relative_deadline_def Let_def split: option.splits)
  have v: "0 \<le> sint seconds" "0 \<le> sint nanoseconds"
    using t by (auto simp: futex_timespec_to_ticks_ceil_def futex_timespec_valid_def split: if_splits)
  have zero: "seconds = 0 \<and> nanoseconds = 0 \<longleftrightarrow> timespec_nanos seconds nanoseconds = 0"
  proof
    assume "timespec_nanos seconds nanoseconds = 0"
    then have "sint seconds = 0" "sint nanoseconds = 0" using v by (simp_all add: timespec_nanos_def add_nonneg_eq_0_iff)
    then show "seconds = 0 \<and> nanoseconds = 0" using signed_word_eqI [of seconds 0] signed_word_eqI [of nanoseconds 0] by auto
  qed (simp add: timespec_nanos_def)
  have sum: "int (unat d) = int (unat now) + int (unat t) + (if timespec_nanos seconds nanoseconds = 0 then 0 else 1)"
    using s d zero by (auto simp: checked_add_Some_iff split: if_splits)
  note c = ticks_ceil [OF t, folded timespec_nanos_def]
  show ?thesis
  proof (cases "timespec_nanos seconds nanoseconds = 0")
    case True
    then have "int (unat t) * int (unat tick) < 1 * int (unat tick)" using c(3) by simp
    then have "int (unat t) < 1" by (rule mult_right_less_imp_less) simp
    then have "unat t = 0" by linarith
    then show ?thesis using True sum by (simp add: word_uint_eq_iff)
  next
    case False
    then show ?thesis using c sum by (simp add: algebra_simps)
  qed
qed

text \<open>
  C36: The operation words that decode are exactly the encodings of decoded operations in
  which the realtime clock goes with a bitset wait; encoding and decoding are inverse.
\<close>
theorem futex_op_roundtrip:
  "decode_futex_op op = Some d \<longleftrightarrow>
     op = encode_futex_op d \<and> (op_realtime d \<longrightarrow> op_command d = WaitBitset)"
  using decode_futex_op_encode [of d] encode_futex_op_decode [of op d] by auto

subsection \<open>Concrete runs\<close>

definition example_waiter :: "usize \<Rightarrow> usize \<Rightarrow> u64 \<Rightarrow> FutexDeadline option \<Rightarrow> FutexWaiter" where
  "example_waiter address tid sequence deadline =
     \<lparr>fw_address = address, fw_bitset = - 1, fw_tid = tid, fw_scheduler_thread = tid + 10, fw_deadline = deadline,
      fw_sequence = sequence, fw_outcome = FutexWaiting\<rparr>"

definition example_queue :: FutexQueue where
  "example_queue =
     \<lparr>fq_waiters = [Some (example_waiter 0x1000 5 3 (Some \<lparr>dl_ticks = 100, dl_clock = Monotonic\<rparr>)), None,
        Some (example_waiter 0x1000 6 1 None), Some (example_waiter 0x2000 7 2 None)],
      fq_next_sequence = 4, fq_sequence_exhausted = False\<rparr>"

lemma example_queue_ok: "futex_queue_ok example_queue"
  by code_simp

theorem futex_wake_fifo_witness:
  "map_option snd (futex_wake example_queue 0x1000 1 3) = Some [Some (6, 16), None, None, None]"
proof -
  have "futex_bitset_valid 3" by code_simp
  from futex_wake_fifo [OF example_queue_ok this, of "0x1000" 1]
  have "map_option snd (futex_wake example_queue 0x1000 1 3) = Some (compact (length (fq_waiters example_queue))
      (map fw_identity (take 1 (by_age fw_sequence (fw_wakes 0x1000 3) (fq_waiters example_queue)))))"
    by (simp add: Let_def)
  also have "\<dots> = Some [Some (6, 16), None, None, None]" by code_simp
  finally show ?thesis .
qed

text \<open>A call in a process whose futex word holds 7, with a task table that always blocks and wakes.\<close>

definition example_env :: "unit futex_env" where
  "example_env =
     \<lparr>env_readable = \<lambda>_ _. True, env_copy = \<lambda>_ n. Inr (7 # replicate (n - 1) 0), env_key = \<lambda>a. a,
      env_dispatch_active = False, env_now = 40, env_realtime_offset = 0, env_restart = None,
      env_set_restart = \<lambda>_ t. t, env_thread = 12, env_tid = Inr 2, env_block = \<lambda>t. (t, Inr (2, 12)),
      env_wake = \<lambda>_ _ t. (t, True)\<rparr>"

definition example_parked :: FutexQueue where
  "example_parked =
     \<lparr>fq_waiters = [Some \<lparr>fw_address = 0x1000, fw_bitset = - 1, fw_tid = 2, fw_scheduler_thread = 12,
          fw_deadline = None, fw_sequence = 0, fw_outcome = FutexWaiting\<rparr>, None],
      fq_next_sequence = 1, fq_sequence_exhausted = False\<rparr>"

lemma example_wait:
  "sys_futex example_env (futex_queue_new 2, ()) 0x1000 128 7 0 0 = Some ((example_parked, ()), FutexParked)"
  by code_simp

theorem futex_runtime_safe_witness:
  "futex_queue_ok example_parked \<and> sys_futex example_env (example_parked, ()) 0x1000 1 1 0 0 \<noteq> None"
proof -
  have "futex_step\<^sup>*\<^sup>* (futex_queue_new 2, ()) (example_parked, ())"
    using futex_step.step_call [OF example_wait] by blast
  from futex_runtime_safe [OF this, of example_env "0x1000" 1 1 0 0] show ?thesis by simp
qed

theorem futex_wait_checks_value_witness:
  "\<exists>bytes. env_copy example_env 0x1000 4 = Inr bytes \<and> from_ne_bytes bytes = (7 :: u32)"
proof -
  have "futex_wait_enter example_env (futex_queue_new 2, ()) 0x1000 0x1000 7 0 (- 1) Wait False
      = ((example_parked, ()), FutexParked)" by code_simp
  from futex_wait_checks_value [OF _ this] futex_new_ok [of 2] show ?thesis by simp
qed

theorem futex_relative_deadline_bounds_witness:
  "futex_relative_deadline 5 1 0 10000000 = Some 106
   \<and> timespec_nanos 1 0 \<le> (int (unat (106 :: u64)) - int (unat (5 :: u64)) - 1) * int (unat (10000000 :: u64))"
proof -
  have d: "futex_relative_deadline 5 1 0 10000000 = Some 106" by code_simp
  have "timespec_nanos 1 0 \<noteq> 0" by (simp add: timespec_nanos_def)
  with futex_relative_deadline_bounds [OF d] d show ?thesis by presburger
qed

theorem futex_op_roundtrip_witness:
  "decode_futex_op 393 = Some \<lparr>op_command = WaitBitset, op_private = True, op_realtime = True\<rparr>"
proof -
  let ?d = "\<lparr>op_command = WaitBitset, op_private = True, op_realtime = True\<rparr>"
  have "393 = encode_futex_op ?d" by code_simp
  then show ?thesis using futex_op_roundtrip [of 393 ?d] by simp
qed

end
