(* ===== verification/Linux_Mqueue.thy ===== *)
theory Linux_Mqueue
  imports Linux_Wait "HOL-Library.Product_Lexorder"
begin

text \<open>
  POSIX message queues (\<open>src/src/syscall/linux_mqueue_logic_shared.rs\<close> and the runtime
  \<open>linux_mqueue.rs\<close>): named queues with open handles, messages with priorities, the
  notification of an empty queue, and the tasks blocked in sends and receives.

  Names are byte strings.  The const generic parameters \<open>Q\<close> and \<open>H\<close> (queues and handles) are
  arguments of the operations that test them; \<open>W\<close> is the length of the waiter array.  The
  fallible reservations of memory are a Boolean argument of the operations that make them:
  whether the allocator grants them.

  The runtime calls \<open>scheduler::yield_now\<close> after each attempt to wake a task (\<open>wake_identity\<close>), in the
  loop of the timer tick too.  The call itself touches neither the
  queues nor the task table and is left out, so a run of the timer tick below is one in which no other
  task uses the queues between two expired waiters.
\<close>

subsection \<open>Data\<close>

definition LINUX_MQ_PRIO_MAX :: usize where "LINUX_MQ_PRIO_MAX = 32768"
definition LINUX_MQ_DEFAULT_MAXMSG :: usize where "LINUX_MQ_DEFAULT_MAXMSG = 10"
definition LINUX_MQ_DEFAULT_MSGSIZE :: usize where "LINUX_MQ_DEFAULT_MSGSIZE = 8192"
definition LINUX_MQ_MAXMSG_LIMIT :: usize where "LINUX_MQ_MAXMSG_LIMIT = 1024"
definition LINUX_MQ_MSGSIZE_LIMIT :: usize where "LINUX_MQ_MSGSIZE_LIMIT = 8192"
definition LINUX_MQ_NAME_MAX :: nat where "LINUX_MQ_NAME_MAX = 255"

record LinuxMqueueMessage =
  mm_bytes :: "u8 list"
  mm_priority :: usize

record LinuxMqueueAttr =
  ma_flags :: usize
  ma_maxmsg :: usize
  ma_msgsize :: usize
  ma_curmsgs :: usize

definition mqueue_attr_defaults :: LinuxMqueueAttr where
  "mqueue_attr_defaults =
     \<lparr>ma_flags = 0, ma_maxmsg = LINUX_MQ_DEFAULT_MAXMSG, ma_msgsize = LINUX_MQ_DEFAULT_MSGSIZE,
      ma_curmsgs = 0\<rparr>"

record LinuxMqueueOpen =
  mo_created :: bool
  mo_attr :: LinuxMqueueAttr

record LinuxMqueueNotification =
  mn_handle :: u32
  mn_pid :: usize
  mn_signum :: usize

record LinuxMqueueSendOutcome =
  so_receiver :: "(usize \<times> usize) option"
  so_notification :: "LinuxMqueueNotification option"

record LinuxMqueueReceiveOutcome =
  ro_message :: LinuxMqueueMessage
  ro_sender :: "(usize \<times> usize) option"

record LinuxMqueueDeadline =
  md_ticks :: u64

datatype LinuxMqueueWaitKind = MqSend | MqReceive

datatype LinuxMqueueWaitOutcome = MqWaiting | MqWoken | MqTimedOut | MqInterrupted

datatype LinuxMqueueError =
    MqBadDescriptor | MqCapacity | MqExists | MqInvalid | MqMessageTooLarge | MqNameTooLong
  | MqNotFound | MqWouldBlock | MqBusy

record LinuxMqueueQueuedMessage =
  qm_message :: LinuxMqueueMessage
  qm_sequence :: u64

record LinuxMqueueQueue =
  mq_id :: u64
  mq_name :: "string option"
  mq_handles :: "u32 list"
  mq_attr :: LinuxMqueueAttr
  mq_messages :: "LinuxMqueueQueuedMessage list"
  mq_notification :: "LinuxMqueueNotification option"

record LinuxMqueueWaiter =
  mw_queue_id :: u64
  mw_kind :: LinuxMqueueWaitKind
  mw_tid :: usize
  mw_scheduler_thread :: usize
  mw_deadline :: "LinuxMqueueDeadline option"
  mw_sequence :: u64
  mw_outcome :: LinuxMqueueWaitOutcome

record LinuxMqueueState =
  ms_queues :: "LinuxMqueueQueue list"
  ms_waiters :: "LinuxMqueueWaiter option list"
  ms_next_queue_id :: u64
  ms_next_message_sequence :: u64
  ms_next_waiter_sequence :: u64
  ms_queue_id_exhausted :: bool
  ms_message_sequence_exhausted :: bool
  ms_waiter_sequence_exhausted :: bool

definition mqueue_new :: "nat \<Rightarrow> LinuxMqueueState" where
  "mqueue_new W =
     \<lparr>ms_queues = [], ms_waiters = replicate W None, ms_next_queue_id = 1,
      ms_next_message_sequence = 0, ms_next_waiter_sequence = 0, ms_queue_id_exhausted = False,
      ms_message_sequence_exhausted = False, ms_waiter_sequence_exhausted = False\<rparr>"

subsection \<open>Names, attributes and lookups\<close>

definition strip_slash :: "string \<Rightarrow> string" where
  "strip_slash name = (case name of [] \<Rightarrow> name | c # rest \<Rightarrow> if c = CHR ''/'' then rest else name)"

definition linux_mqueue_name_component :: "string \<Rightarrow> LinuxMqueueError + string" where
  "linux_mqueue_name_component name =
     (let component = strip_slash name
      in if component = [] then Inl MqInvalid
         else if LINUX_MQ_NAME_MAX < length component then Inl MqNameTooLong
         else if list_ex (\<lambda>byte. byte = CHR ''/'') component then Inl MqInvalid
         else Inr component)"

definition validate_linux_mqueue_attr :: "LinuxMqueueAttr \<Rightarrow> LinuxMqueueError + LinuxMqueueAttr" where
  "validate_linux_mqueue_attr attr =
     (if ma_maxmsg attr = 0 \<or> ma_msgsize attr = 0 \<or> LINUX_MQ_MAXMSG_LIMIT < ma_maxmsg attr
         \<or> LINUX_MQ_MSGSIZE_LIMIT < ma_msgsize attr
      then Inl MqInvalid
      else Inr (attr\<lparr>ma_flags := 0, ma_curmsgs := 0\<rparr>))"

definition open_handle_count :: "LinuxMqueueState \<Rightarrow> nat" where
  "open_handle_count s = sum_list (map (\<lambda>q. length (mq_handles q)) (ms_queues s))"

definition queue_index_by_handle :: "LinuxMqueueState \<Rightarrow> u32 \<Rightarrow> nat option" where
  "queue_index_by_handle s handle =
     position (\<lambda>q. list_ex (\<lambda>current. current = handle) (mq_handles q)) (ms_queues s)"

definition queue_by_handle :: "LinuxMqueueState \<Rightarrow> u32 \<Rightarrow> LinuxMqueueQueue option" where
  "queue_by_handle s handle =
     (case queue_index_by_handle s handle of
        None \<Rightarrow> None
      | Some index \<Rightarrow> if index < length (ms_queues s) then Some (ms_queues s ! index) else None)"

definition queue_index_by_name :: "LinuxMqueueState \<Rightarrow> string \<Rightarrow> nat option" where
  "queue_index_by_name s name = position (\<lambda>q. mq_name q = Some name) (ms_queues s)"

definition validate_new_handle :: "nat \<Rightarrow> LinuxMqueueState \<Rightarrow> u32 \<Rightarrow> LinuxMqueueError + unit" where
  "validate_new_handle H s handle =
     (if handle = 0 \<or> H \<le> open_handle_count s \<or> queue_index_by_handle s handle \<noteq> None
      then Inl MqCapacity else Inr ())"

definition put_queue :: "LinuxMqueueState \<Rightarrow> nat \<Rightarrow> LinuxMqueueQueue \<Rightarrow> LinuxMqueueState" where
  "put_queue s index q = s\<lparr>ms_queues := (ms_queues s)[index := q]\<rparr>"

definition attach_handle ::
  "bool \<Rightarrow> LinuxMqueueState \<Rightarrow> nat \<Rightarrow> u32 \<Rightarrow> LinuxMqueueState \<times> (LinuxMqueueError + unit)" where
  "attach_handle alloc s index handle =
     (if \<not> alloc then (s, Inl MqCapacity)
      else (put_queue s index (let q = ms_queues s ! index in q\<lparr>mq_handles := mq_handles q @ [handle]\<rparr>), Inr ()))"

subsection \<open>Opening and closing\<close>

definition mqueue_create ::
  "nat \<Rightarrow> bool \<Rightarrow> LinuxMqueueState \<Rightarrow> string \<Rightarrow> u32 \<Rightarrow> LinuxMqueueAttr option
     \<Rightarrow> LinuxMqueueState \<times> (LinuxMqueueError + LinuxMqueueOpen)" where
  "mqueue_create Q alloc s name handle attr =
     (if Q \<le> length (ms_queues s) \<or> ms_queue_id_exhausted s then (s, Inl MqCapacity)
      else
        (case validate_linux_mqueue_attr (case attr of None \<Rightarrow> mqueue_attr_defaults | Some a \<Rightarrow> a) of
           Inl e \<Rightarrow> (s, Inl e)
         | Inr created_attr \<Rightarrow>
             if \<not> alloc then (s, Inl MqCapacity)
             else
               let queue_id = ms_next_queue_id s;
                   s = (case checked_add (ms_next_queue_id s) 1 of
                          Some following \<Rightarrow> s\<lparr>ms_next_queue_id := following\<rparr>
                        | None \<Rightarrow> s\<lparr>ms_queue_id_exhausted := True\<rparr>)
               in (s\<lparr>ms_queues := ms_queues s @
                       [\<lparr>mq_id = queue_id, mq_name = Some name, mq_handles = [handle], mq_attr = created_attr,
                         mq_messages = [], mq_notification = None\<rparr>]\<rparr>,
                   Inr \<lparr>mo_created = True, mo_attr = created_attr\<rparr>)))"

definition mqueue_open ::
  "nat \<Rightarrow> nat \<Rightarrow> bool \<Rightarrow> LinuxMqueueState \<Rightarrow> string \<Rightarrow> u32 \<Rightarrow> bool \<Rightarrow> bool \<Rightarrow> LinuxMqueueAttr option
     \<Rightarrow> LinuxMqueueState \<times> (LinuxMqueueError + LinuxMqueueOpen)" where
  "mqueue_open Q H alloc s name handle create exclusive attr =
     (case linux_mqueue_name_component name of
        Inl e \<Rightarrow> (s, Inl e)
      | Inr name \<Rightarrow>
          (case validate_new_handle H s handle of
             Inl e \<Rightarrow> (s, Inl e)
           | Inr _ \<Rightarrow>
               (case queue_index_by_name s name of
                  Some index \<Rightarrow>
                    if create \<and> exclusive then (s, Inl MqExists)
                    else
                      (case attach_handle alloc s index handle of
                         (s, Inl e) \<Rightarrow> (s, Inl e)
                       | (s, Inr _) \<Rightarrow>
                           let q = ms_queues s ! index
                           in (s, Inr \<lparr>mo_created = False,
                                mo_attr = (mq_attr q)\<lparr>ma_curmsgs := of_nat (length (mq_messages q))\<rparr>\<rparr>))
                | None \<Rightarrow>
                    if \<not> create then (s, Inl MqNotFound)
                    else mqueue_create Q alloc s name handle attr)))"

definition remove_queue_waiters :: "LinuxMqueueState \<Rightarrow> u64 \<Rightarrow> LinuxMqueueState \<times> nat" where
  "remove_queue_waiters s queue_id =
     (s\<lparr>ms_waiters := map (\<lambda>slot. if slot_is (\<lambda>w. mw_queue_id w = queue_id) slot then None else slot) (ms_waiters s)\<rparr>,
      length (filter (slot_is (\<lambda>w. mw_queue_id w = queue_id)) (ms_waiters s)))"

text \<open>A queue without a name and without handles goes away, and its waiters with it.\<close>

definition drop_if_dead :: "LinuxMqueueState \<Rightarrow> nat \<Rightarrow> LinuxMqueueState" where
  "drop_if_dead s index =
     (let q = ms_queues s ! index
      in if mq_handles q = [] \<and> mq_name q = None
         then fst (remove_queue_waiters (s\<lparr>ms_queues := swap_remove (ms_queues s) index\<rparr>) (mq_id q))
         else s)"

definition mqueue_close_handle :: "LinuxMqueueState \<Rightarrow> u32 \<Rightarrow> LinuxMqueueState \<times> bool" where
  "mqueue_close_handle s handle =
     (case queue_index_by_handle s handle of
        None \<Rightarrow> (s, False)
      | Some index \<Rightarrow>
          let q = ms_queues s ! index;
              q = (case position (\<lambda>current. current = handle) (mq_handles q) of
                     None \<Rightarrow> q
                   | Some i \<Rightarrow> q\<lparr>mq_handles := swap_remove (mq_handles q) i\<rparr>);
              q = (case mq_notification q of
                     Some n \<Rightarrow> if mn_handle n = handle then q\<lparr>mq_notification := None\<rparr> else q
                   | None \<Rightarrow> q)
          in (drop_if_dead (put_queue s index q) index, True))"

definition mqueue_unlink :: "LinuxMqueueState \<Rightarrow> string \<Rightarrow> LinuxMqueueState \<times> (LinuxMqueueError + unit)" where
  "mqueue_unlink s name =
     (case linux_mqueue_name_component name of
        Inl e \<Rightarrow> (s, Inl e)
      | Inr name \<Rightarrow>
          (case queue_index_by_name s name of
             None \<Rightarrow> (s, Inl MqNotFound)
           | Some index \<Rightarrow>
               (drop_if_dead (put_queue s index ((ms_queues s ! index)\<lparr>mq_name := None\<rparr>)) index, Inr ())))"

definition mqueue_getattr :: "LinuxMqueueState \<Rightarrow> u32 \<Rightarrow> usize \<Rightarrow> LinuxMqueueError + LinuxMqueueAttr" where
  "mqueue_getattr s handle flags =
     (case queue_by_handle s handle of
        None \<Rightarrow> Inl MqBadDescriptor
      | Some q \<Rightarrow> Inr ((mq_attr q)\<lparr>ma_flags := flags, ma_curmsgs := of_nat (length (mq_messages q))\<rparr>))"

definition mqueue_notify ::
  "LinuxMqueueState \<Rightarrow> u32 \<Rightarrow> LinuxMqueueNotification option \<Rightarrow> LinuxMqueueState \<times> (LinuxMqueueError + unit)" where
  "mqueue_notify s handle notification =
     (case queue_index_by_handle s handle of
        None \<Rightarrow> (s, Inl MqBadDescriptor)
      | Some index \<Rightarrow>
          let q = ms_queues s ! index
          in (case notification of
                Some n \<Rightarrow>
                  if mq_notification q \<noteq> None then (s, Inl MqBusy)
                  else (put_queue s index (q\<lparr>mq_notification := Some n\<rparr>), Inr ())
              | None \<Rightarrow> (put_queue s index (q\<lparr>mq_notification := None\<rparr>), Inr ())))"

subsection \<open>Sending and receiving\<close>

fun scan_best ::
  "nat \<Rightarrow> LinuxMqueueQueuedMessage list \<Rightarrow> nat option \<Rightarrow> usize \<Rightarrow> u64 \<Rightarrow> nat option" where
  "scan_best index [] selected selected_priority selected_sequence = selected"
| "scan_best index (m # ms) selected selected_priority selected_sequence =
     (if selected = None \<or> selected_priority < mm_priority (qm_message m)
         \<or> mm_priority (qm_message m) = selected_priority \<and> qm_sequence m < selected_sequence
      then scan_best (Suc index) ms (Some index) (mm_priority (qm_message m)) (qm_sequence m)
      else scan_best (Suc index) ms selected selected_priority selected_sequence)"

definition best_message_index :: "LinuxMqueueState \<Rightarrow> nat \<Rightarrow> nat option" where
  "best_message_index s queue_index = scan_best 0 (mq_messages (ms_queues s ! queue_index)) None 0 (- 1)"

definition oldest_waiter_index :: "LinuxMqueueWaiter option list \<Rightarrow> (LinuxMqueueWaiter \<Rightarrow> bool) \<Rightarrow> nat option" where
  "oldest_waiter_index ws p = scan_oldest mw_sequence p 0 ws None (- 1)"

definition mw_identity :: "LinuxMqueueWaiter \<Rightarrow> usize \<times> usize" where
  "mw_identity w = (mw_tid w, mw_scheduler_thread w)"

definition mw_wakes :: "u64 \<Rightarrow> LinuxMqueueWaitKind \<Rightarrow> LinuxMqueueWaiter \<Rightarrow> bool" where
  "mw_wakes queue_id kind w = (mw_queue_id w = queue_id \<and> mw_kind w = kind \<and> mw_outcome w = MqWaiting)"

definition mw_woken :: "LinuxMqueueWaiter \<Rightarrow> LinuxMqueueWaiter" where
  "mw_woken w = w\<lparr>mw_outcome := MqWoken\<rparr>"

text \<open>\<open>wake_one\<close>; an empty slot under the selected index would be a panic, the outer \<open>None\<close>.\<close>

definition mqueue_wake_one ::
  "LinuxMqueueState \<Rightarrow> u64 \<Rightarrow> LinuxMqueueWaitKind \<Rightarrow> (LinuxMqueueState \<times> (usize \<times> usize) option) option" where
  "mqueue_wake_one s queue_id kind =
     (case oldest_waiter_index (ms_waiters s) (mw_wakes queue_id kind) of
        None \<Rightarrow> Some (s, None)
      | Some index \<Rightarrow>
          (case ms_waiters s ! index of
             None \<Rightarrow> None
           | Some w \<Rightarrow> Some (s\<lparr>ms_waiters := (ms_waiters s)[index := Some (mw_woken w)]\<rparr>, Some (mw_identity w))))"

definition bump_message_sequence :: "LinuxMqueueState \<Rightarrow> LinuxMqueueState" where
  "bump_message_sequence s =
     (case checked_add (ms_next_message_sequence s) 1 of
        Some following \<Rightarrow> s\<lparr>ms_next_message_sequence := following\<rparr>
      | None \<Rightarrow> s\<lparr>ms_message_sequence_exhausted := True\<rparr>)"

definition mqueue_send ::
  "bool \<Rightarrow> LinuxMqueueState \<Rightarrow> u32 \<Rightarrow> u8 list \<Rightarrow> usize
     \<Rightarrow> (LinuxMqueueState \<times> (LinuxMqueueError + LinuxMqueueSendOutcome)) option" where
  "mqueue_send alloc s handle bytes priority =
     (case queue_index_by_handle s handle of
        None \<Rightarrow> Some (s, Inl MqBadDescriptor)
      | Some index \<Rightarrow>
          let q = ms_queues s ! index
          in if LINUX_MQ_PRIO_MAX \<le> priority then Some (s, Inl MqInvalid)
             else if unat (ma_msgsize (mq_attr q)) < length bytes then Some (s, Inl MqMessageTooLarge)
             else if unat (ma_maxmsg (mq_attr q)) \<le> length (mq_messages q) then Some (s, Inl MqWouldBlock)
             else if ms_message_sequence_exhausted s then Some (s, Inl MqCapacity)
             else if \<not> alloc then Some (s, Inl MqCapacity)
             else
               let was_empty = (mq_messages q = []);
                   stored = \<lparr>qm_message = \<lparr>mm_bytes = bytes, mm_priority = priority\<rparr>,
                             qm_sequence = ms_next_message_sequence s\<rparr>;
                   s = put_queue (bump_message_sequence s) index (q\<lparr>mq_messages := mq_messages q @ [stored]\<rparr>)
               in (case mqueue_wake_one s (mq_id q) MqReceive of
                     None \<Rightarrow> None
                   | Some (s, receiver) \<Rightarrow>
                       if was_empty \<and> receiver = None
                       then Some (put_queue s index ((ms_queues s ! index)\<lparr>mq_notification := None\<rparr>),
                              Inr \<lparr>so_receiver = receiver, so_notification = mq_notification (ms_queues s ! index)\<rparr>)
                       else Some (s, Inr \<lparr>so_receiver = receiver, so_notification = None\<rparr>)))"

definition mqueue_receive ::
  "LinuxMqueueState \<Rightarrow> u32 \<Rightarrow> usize
     \<Rightarrow> (LinuxMqueueState \<times> (LinuxMqueueError + LinuxMqueueReceiveOutcome)) option" where
  "mqueue_receive s handle buffer_len =
     (case queue_index_by_handle s handle of
        None \<Rightarrow> Some (s, Inl MqBadDescriptor)
      | Some index \<Rightarrow>
          let q = ms_queues s ! index
          in if buffer_len < ma_msgsize (mq_attr q) then Some (s, Inl MqMessageTooLarge)
             else
               (case best_message_index s index of
                  None \<Rightarrow> Some (s, Inl MqWouldBlock)
                | Some message_index \<Rightarrow>
                    let message = qm_message (mq_messages q ! message_index);
                        s = put_queue s index (q\<lparr>mq_messages := swap_remove (mq_messages q) message_index\<rparr>)
                    in (case mqueue_wake_one s (mq_id q) MqSend of
                          None \<Rightarrow> None
                        | Some (s, sender) \<Rightarrow> Some (s, Inr \<lparr>ro_message = message, ro_sender = sender\<rparr>))))"

definition mqueue_ready :: "LinuxMqueueState \<Rightarrow> u32 \<Rightarrow> LinuxMqueueWaitKind \<Rightarrow> LinuxMqueueError + bool" where
  "mqueue_ready s handle kind =
     (case queue_by_handle s handle of
        None \<Rightarrow> Inl MqBadDescriptor
      | Some q \<Rightarrow>
          Inr (case kind of
                 MqSend \<Rightarrow> length (mq_messages q) < unat (ma_maxmsg (mq_attr q))
               | MqReceive \<Rightarrow> mq_messages q \<noteq> []))"

subsection \<open>Waiters\<close>

definition mw_is :: "usize \<Rightarrow> usize \<Rightarrow> LinuxMqueueWaiter \<Rightarrow> bool" where
  "mw_is tid scheduler_thread w = (mw_tid w = tid \<and> mw_scheduler_thread w = scheduler_thread)"

definition mqueue_push_waiter ::
  "LinuxMqueueState \<Rightarrow> u32 \<Rightarrow> LinuxMqueueWaitKind \<Rightarrow> usize \<Rightarrow> usize \<Rightarrow> LinuxMqueueDeadline option
     \<Rightarrow> LinuxMqueueState \<times> (LinuxMqueueError + unit)" where
  "mqueue_push_waiter s handle kind tid scheduler_thread deadline =
     (if tid = 0 then (s, Inl MqInvalid)
      else
        (case queue_by_handle s handle of
           None \<Rightarrow> (s, Inl MqBadDescriptor)
         | Some q \<Rightarrow>
             if ms_waiter_sequence_exhausted s then (s, Inl MqCapacity)
             else if list_ex (\<lambda>w. mw_is tid scheduler_thread w \<and> mw_outcome w = MqWaiting) (flatten (ms_waiters s))
             then (s, Inl MqBusy)
             else
               (case position (\<lambda>slot. slot = None) (ms_waiters s) of
                  None \<Rightarrow> (s, Inl MqCapacity)
                | Some i \<Rightarrow>
                    let sequence = ms_next_waiter_sequence s;
                        s = (case checked_add (ms_next_waiter_sequence s) 1 of
                               Some following \<Rightarrow> s\<lparr>ms_next_waiter_sequence := following\<rparr>
                             | None \<Rightarrow> s\<lparr>ms_waiter_sequence_exhausted := True\<rparr>)
                    in (s\<lparr>ms_waiters := (ms_waiters s)[i := Some
                            \<lparr>mw_queue_id = mq_id q, mw_kind = kind, mw_tid = tid,
                             mw_scheduler_thread = scheduler_thread, mw_deadline = deadline,
                             mw_sequence = sequence, mw_outcome = MqWaiting\<rparr>]\<rparr>, Inr ()))))"

definition mw_expired :: "u64 \<Rightarrow> LinuxMqueueWaiter \<Rightarrow> bool" where
  "mw_expired now w =
     (mw_outcome w = MqWaiting \<and> (case mw_deadline w of None \<Rightarrow> False | Some d \<Rightarrow> md_ticks d \<le> now))"

definition mw_timed_out :: "LinuxMqueueWaiter \<Rightarrow> LinuxMqueueWaiter" where
  "mw_timed_out w = w\<lparr>mw_outcome := MqTimedOut\<rparr>"

definition mqueue_expire :: "LinuxMqueueState \<Rightarrow> u64 \<Rightarrow> (LinuxMqueueState \<times> (usize \<times> usize) option list) option" where
  "mqueue_expire s now =
     map_option (\<lambda>(ws, identities). (s\<lparr>ms_waiters := ws\<rparr>, identities))
       (serve_loop (\<lambda>ws. oldest_waiter_index ws (mw_expired now)) mw_timed_out mw_identity
          (length (ms_waiters s)) 0 (ms_waiters s) (replicate (length (ms_waiters s)) None))"

definition mqueue_expire_one :: "LinuxMqueueState \<Rightarrow> u64 \<Rightarrow> (LinuxMqueueState \<times> (usize \<times> usize) option) option" where
  "mqueue_expire_one s now =
     (case oldest_waiter_index (ms_waiters s) (mw_expired now) of
        None \<Rightarrow> Some (s, None)
      | Some index \<Rightarrow>
          (case ms_waiters s ! index of
             None \<Rightarrow> None
           | Some w \<Rightarrow> Some (s\<lparr>ms_waiters := (ms_waiters s)[index := Some (mw_timed_out w)]\<rparr>, Some (mw_identity w))))"

definition mqueue_interrupt :: "LinuxMqueueState \<Rightarrow> usize \<Rightarrow> usize \<Rightarrow> LinuxMqueueState \<times> bool" where
  "mqueue_interrupt s tid scheduler_thread =
     (case position (slot_is (\<lambda>w. mw_is tid scheduler_thread w \<and> mw_outcome w = MqWaiting)) (ms_waiters s) of
        None \<Rightarrow> (s, False)
      | Some i \<Rightarrow>
          (s\<lparr>ms_waiters := (ms_waiters s)[i := map_option (\<lambda>w. w\<lparr>mw_outcome := MqInterrupted\<rparr>) (ms_waiters s ! i)]\<rparr>,
           True))"

definition mqueue_take_outcome ::
  "LinuxMqueueState \<Rightarrow> usize \<Rightarrow> usize \<Rightarrow> LinuxMqueueState \<times> LinuxMqueueWaitOutcome option" where
  "mqueue_take_outcome s tid scheduler_thread =
     (case position (slot_is (\<lambda>w. mw_is tid scheduler_thread w \<and> mw_outcome w \<noteq> MqWaiting)) (ms_waiters s) of
        None \<Rightarrow> (s, None)
      | Some i \<Rightarrow> (s\<lparr>ms_waiters := (ms_waiters s)[i := None]\<rparr>, map_option mw_outcome (ms_waiters s ! i)))"

definition mqueue_remove_task :: "LinuxMqueueState \<Rightarrow> usize \<Rightarrow> usize \<Rightarrow> LinuxMqueueState \<times> nat" where
  "mqueue_remove_task s tid scheduler_thread =
     (s\<lparr>ms_waiters := map (\<lambda>slot. if slot_is (mw_is tid scheduler_thread) slot then None else slot) (ms_waiters s)\<rparr>,
      length (filter (slot_is (mw_is tid scheduler_thread)) (ms_waiters s)))"

definition mqueue_reset :: "LinuxMqueueState \<Rightarrow> LinuxMqueueState" where
  "mqueue_reset s =
     s\<lparr>ms_queues := [], ms_waiters := replicate (length (ms_waiters s)) None, ms_next_queue_id := 1,
       ms_next_message_sequence := 0, ms_next_waiter_sequence := 0, ms_queue_id_exhausted := False,
       ms_message_sequence_exhausted := False, ms_waiter_sequence_exhausted := False\<rparr>"

subsection \<open>Priority order\<close>

text \<open>
  The order in which messages leave a queue: higher priority first, and among equal
  priorities the older message first.
\<close>

definition qm_key :: "LinuxMqueueQueuedMessage \<Rightarrow> int \<times> int" where
  "qm_key m = (- uint (mm_priority (qm_message m)), uint (qm_sequence m))"

lemma qm_key_less:
  "qm_key a < qm_key b \<longleftrightarrow> mm_priority (qm_message b) < mm_priority (qm_message a)
     \<or> mm_priority (qm_message a) = mm_priority (qm_message b) \<and> qm_sequence a < qm_sequence b"
  by (auto simp: qm_key_def word_less_def word_uint_eq_iff)

definition is_best :: "LinuxMqueueQueuedMessage list \<Rightarrow> nat option \<Rightarrow> bool" where
  "is_best ms r =
     (case r of
        None \<Rightarrow> ms = []
      | Some i \<Rightarrow> i < length ms \<and> (\<forall>m\<in>set ms. qm_key (ms ! i) \<le> qm_key m))"

lemma scan_best_correct:
  assumes "is_best front selected"
    and "\<And>i. selected = Some i \<Longrightarrow> p = mm_priority (qm_message (front ! i)) \<and> q = qm_sequence (front ! i)"
  shows "is_best (front @ ms) (scan_best (length front) ms selected p q)"
  using assms
proof (induction ms arbitrary: front selected p q)
  case Nil
  then show ?case by simp
next
  case (Cons m ms)
  show ?case
  proof (cases "selected = None \<or> p < mm_priority (qm_message m) \<or> mm_priority (qm_message m) = p \<and> qm_sequence m < q")
    case True
    have "qm_key m \<le> qm_key x" if "x \<in> set front" for x
    proof (cases selected)
      case None
      with Cons.prems(1) that show ?thesis by (simp add: is_best_def)
    next
      case (Some i)
      with True Cons.prems(2) [OF Some] have "qm_key m < qm_key (front ! i)" by (auto simp: qm_key_less)
      also have "\<dots> \<le> qm_key x" using Cons.prems(1) Some that by (simp add: is_best_def)
      finally show ?thesis by simp
    qed
    then have "is_best (front @ [m]) (Some (length front))" by (auto simp: is_best_def)
    then have "is_best ((front @ [m]) @ ms) (scan_best (length (front @ [m])) ms (Some (length front))
        (mm_priority (qm_message m)) (qm_sequence m))"
      by (rule Cons.IH) simp
    moreover have "scan_best (length front) (m # ms) selected p q = scan_best (length (front @ [m])) ms (Some (length front))
        (mm_priority (qm_message m)) (qm_sequence m)" using True by auto
    ultimately show ?thesis by simp
  next
    case False
    then obtain i where i: "selected = Some i" by auto
    have "\<not> qm_key m < qm_key (front ! i)" using False Cons.prems(2) [OF i] by (auto simp: qm_key_less)
    then have "is_best (front @ [m]) selected" using Cons.prems(1) i by (auto simp: is_best_def nth_append)
    moreover have "i < length front" using Cons.prems(1) i by (simp add: is_best_def)
    ultimately have "is_best ((front @ [m]) @ ms) (scan_best (length (front @ [m])) ms selected p q)"
      using Cons.prems(2) i by (intro Cons.IH) (auto simp: nth_append)
    moreover have "scan_best (length front) (m # ms) selected p q = scan_best (length (front @ [m])) ms selected p q"
      using False by auto
    ultimately show ?thesis by simp
  qed
qed

lemma best_message_best: "is_best (mq_messages (ms_queues s ! i)) (best_message_index s i)"
  using scan_best_correct [of "[]" None 0 "- 1"] by (simp add: best_message_index_def is_best_def)

text \<open>The contents of a queue in the order in which they will be received.\<close>

definition mq_contents :: "LinuxMqueueQueuedMessage list \<Rightarrow> LinuxMqueueMessage list" where
  "mq_contents ms = map qm_message (sort_key qm_key ms)"

text \<open>The queue POSIX asks for: a new message goes behind the messages of at least its priority.\<close>

definition pq_insert :: "LinuxMqueueMessage \<Rightarrow> LinuxMqueueMessage list \<Rightarrow> LinuxMqueueMessage list" where
  "pq_insert m ms =
     takeWhile (\<lambda>x. mm_priority m \<le> mm_priority x) ms @ m # dropWhile (\<lambda>x. mm_priority m \<le> mm_priority x) ms"

lemma qm_key_inj: "distinct (map qm_sequence ms) \<Longrightarrow> inj_on qm_key (set ms)"
  by (auto simp: inj_on_def qm_key_def distinct_map word_uint_eq_iff)

lemma mq_contents_send:
  assumes "distinct (map qm_sequence ms)" "\<forall>x\<in>set ms. qm_sequence x < qm_sequence m"
  shows "mq_contents (ms @ [m]) = pq_insert (qm_message m) (mq_contents ms)"
proof -
  let ?P = "\<lambda>x. mm_priority (qm_message m) \<le> mm_priority (qm_message x)"
  let ?s = "sort_key qm_key ms"
  define t d where "t = takeWhile ?P ?s" and "d = dropWhile ?P ?s"
  have split: "?s = t @ d" by (simp add: t_def d_def)
  have "sorted (map qm_key ?s)" by simp
  then have sorted: "sorted (map qm_key t)" "sorted (map qm_key d)" "\<forall>x\<in>set t. \<forall>y\<in>set d. qm_key x \<le> qm_key y"
    unfolding split by (auto simp: sorted_append)
  have low: "qm_key x \<le> qm_key m" if "x \<in> set t" for x
  proof -
    have "x \<in> set ms" "?P x" using that by (auto simp: t_def dest: set_takeWhileD)
    then have "qm_key x < qm_key m" using assms(2) by (auto simp: qm_key_less)
    then show ?thesis by simp
  qed
  have high: "qm_key m \<le> qm_key x" if x: "x \<in> set d" for x
  proof -
    obtain y ys where y: "d = y # ys" using x by (cases d) auto
    then have "\<not> ?P y" using hd_dropWhile [of ?P ?s] unfolding d_def by (metis list.discI list.sel(1))
    then have "qm_key m < qm_key y" by (auto simp: qm_key_less)
    moreover have "qm_key y \<le> qm_key x" using x sorted(2) unfolding y by auto
    ultimately show ?thesis by simp
  qed
  have "mset ms = mset (t @ d)" unfolding split [symmetric] by simp
  moreover have "distinct (map qm_sequence (ms @ [m]))" using assms by force
  ultimately have "sort_key qm_key (ms @ [m]) = t @ m # d"
    using sorted low high by (intro sort_key_inj_key_eq qm_key_inj) (auto simp: sorted_append)
  then show ?thesis by (simp add: mq_contents_def pq_insert_def takeWhile_map dropWhile_map comp_def t_def d_def)
qed

lemma mq_contents_receive:
  assumes "distinct (map qm_sequence ms)" "is_best ms (Some i)"
  shows "mq_contents ms = qm_message (ms ! i) # mq_contents (swap_remove ms i)"
proof -
  have i: "i < length ms" using assms(2) by (simp add: is_best_def)
  let ?r = "take i ms @ drop (Suc i) ms"
  have m: "mset ms = mset (ms ! i # ?r)" using mset_split_nth [OF i] by simp
  have sw: "mset (swap_remove ms i) = mset ?r" by (rule mset_swap_remove [OF i])
  have "sort_key qm_key ms = ms ! i # sort_key qm_key (swap_remove ms i)"
  proof (rule sort_key_inj_key_eq [OF _ qm_key_inj [OF assms(1)]])
    show "mset ms = mset (ms ! i # sort_key qm_key (swap_remove ms i))" using m sw by simp
    have "set (swap_remove ms i) \<subseteq> set ms" using mset_eq_setD [OF sw] mset_eq_setD [OF m] by auto
    then show "sorted (map qm_key (ms ! i # sort_key qm_key (swap_remove ms i)))"
      using assms(2) by (auto simp: is_best_def)
  qed
  then show ?thesis by (simp add: mq_contents_def)
qed

subsection \<open>Selection of waiters\<close>

lemma oldest_waiter_oldest: "is_oldest mw_sequence p ws (oldest_waiter_index ws p)"
  using scan_oldest_correct [of mw_sequence p "[]" None "- 1" ws] by (simp add: oldest_waiter_index_def)

interpretation mqueue_wake: oldest_drain mw_sequence "mw_wakes queue_id kind"
  "\<lambda>ws. oldest_waiter_index ws (mw_wakes queue_id kind)" mw_woken mw_identity for queue_id kind
  by unfold_locales (simp_all add: oldest_waiter_oldest mw_wakes_def mw_woken_def)

interpretation mqueue_expire: oldest_drain mw_sequence "mw_expired now"
  "\<lambda>ws. oldest_waiter_index ws (mw_expired now)" mw_timed_out mw_identity for now
  by unfold_locales (simp_all add: oldest_waiter_oldest mw_expired_def mw_timed_out_def)

subsection \<open>The invariant\<close>

definition bound_of :: "bool \<Rightarrow> u64 \<Rightarrow> u64 option" where
  "bound_of exhausted following = (if exhausted then None else Some following)"

definition queue_ok :: "u64 option \<Rightarrow> LinuxMqueueQueue \<Rightarrow> bool" where
  "queue_ok b q =
     (0 < unat (ma_maxmsg (mq_attr q)) \<and> unat (ma_maxmsg (mq_attr q)) \<le> 1024
      \<and> 0 < unat (ma_msgsize (mq_attr q)) \<and> unat (ma_msgsize (mq_attr q)) \<le> 8192
      \<and> length (mq_messages q) \<le> unat (ma_maxmsg (mq_attr q))
      \<and> list_all (\<lambda>m. length (mm_bytes (qm_message m)) \<le> unat (ma_msgsize (mq_attr q))
            \<and> mm_priority (qm_message m) < LINUX_MQ_PRIO_MAX) (mq_messages q)
      \<and> stamped qm_sequence b (map Some (mq_messages q))
      \<and> distinct (mq_handles q) \<and> 0 \<notin> set (mq_handles q)
      \<and> (mq_handles q = [] \<longrightarrow> mq_name q \<noteq> None))"

definition queues_apart :: "LinuxMqueueQueue \<Rightarrow> LinuxMqueueQueue \<Rightarrow> bool" where
  "queues_apart a b =
     (mq_id a \<noteq> mq_id b \<and> set (mq_handles a) \<inter> set (mq_handles b) = {}
      \<and> (mq_name a = None \<or> mq_name a \<noteq> mq_name b))"

definition id_below :: "u64 option \<Rightarrow> LinuxMqueueQueue \<Rightarrow> bool" where
  "id_below b q = (case b of None \<Rightarrow> True | Some n \<Rightarrow> mq_id q < n)"

definition queues_ok :: "u64 option \<Rightarrow> u64 option \<Rightarrow> LinuxMqueueQueue list \<Rightarrow> bool" where
  "queues_ok ids msgs qs = (list_all (\<lambda>q. queue_ok msgs q \<and> id_below ids q) qs \<and> sorted_wrt queues_apart qs)"

definition mqueue_ok :: "nat \<Rightarrow> nat \<Rightarrow> LinuxMqueueState \<Rightarrow> bool" where
  "mqueue_ok Q H s =
     (queues_ok (bound_of (ms_queue_id_exhausted s) (ms_next_queue_id s))
        (bound_of (ms_message_sequence_exhausted s) (ms_next_message_sequence s)) (ms_queues s)
      \<and> length (ms_queues s) \<le> Q \<and> open_handle_count s \<le> H
      \<and> stamped mw_sequence (bound_of (ms_waiter_sequence_exhausted s) (ms_next_waiter_sequence s)) (ms_waiters s)
      \<and> list_all (\<lambda>w. mw_queue_id w \<in> mq_id ` set (ms_queues s)) (flatten (ms_waiters s)))"

lemma queues_apart_sym: "queues_apart a b \<Longrightarrow> queues_apart b a"
  by (auto simp: queues_apart_def)

lemma queues_ok_mset: "queues_ok i m qs \<Longrightarrow> mset qs = mset rs \<Longrightarrow> queues_ok i m rs"
  using sorted_wrt_mset [of queues_apart qs rs] queues_apart_sym mset_eq_setD [of qs rs]
  by (auto simp: queues_ok_def list_all_iff)

lemma queues_ok_Cons:
  "queues_ok i m (q # qs) \<longleftrightarrow> queue_ok m q \<and> id_below i q \<and> (\<forall>r\<in>set qs. queues_apart q r) \<and> queues_ok i m qs"
  by (auto simp: queues_ok_def)

lemma queues_ok_split:
  assumes "queues_ok i m qs" "n < length qs"
  shows "queues_ok i m (qs ! n # take n qs @ drop (Suc n) qs)"
  using queues_ok_mset [OF assms(1)] mset_split_nth [OF assms(2)] by simp

text \<open>Changing one queue without giving it new handles or a new name.\<close>

lemma queues_apart_shrink:
  assumes "queues_apart p r" "mq_id q = mq_id p" "set (mq_handles q) \<subseteq> set (mq_handles p)"
    "mq_name q = None \<or> mq_name q = mq_name p"
  shows "queues_apart q r"
proof -
  have "set (mq_handles q) \<inter> set (mq_handles r) = {}" using assms(1,3) by (auto simp: queues_apart_def)
  moreover have "mq_name q = None \<or> mq_name q \<noteq> mq_name r" using assms(1,4) unfolding queues_apart_def by fastforce
  ultimately show ?thesis using assms(1,2) by (simp add: queues_apart_def)
qed

lemma queues_ok_shrink:
  assumes "queues_ok i m qs" "n < length qs" "queue_ok m q" "mq_id q = mq_id (qs ! n)"
    "set (mq_handles q) \<subseteq> set (mq_handles (qs ! n))" "mq_name q = None \<or> mq_name q = mq_name (qs ! n)"
  shows "queues_ok i m (qs[n := q])"
proof -
  let ?rest = "take n qs @ drop (Suc n) qs"
  have "queues_ok i m (qs ! n # ?rest)" by (rule queues_ok_split [OF assms(1,2)])
  then have "queues_ok i m (q # ?rest)"
    using assms(3,4) queues_apart_shrink [OF _ assms(4-6)]
    by (cases i) (simp_all add: queues_ok_Cons id_below_def)
  then show ?thesis using queues_ok_mset [of i m "q # ?rest" "qs[n := q]"] mset_update_nth [OF assms(2)] by simp
qed

lemma queues_ok_drop:
  assumes "queues_ok i m qs" "n < length qs"
  shows "queues_ok i m (swap_remove qs n)"
  using queues_ok_split [OF assms] queues_ok_mset [of i m "take n qs @ drop (Suc n) qs"] mset_swap_remove [OF assms(2)]
  by (simp add: queues_ok_Cons)

lemma queues_ok_snoc:
  assumes "queues_ok i m qs" "queue_ok m q" "id_below i q" "\<forall>r\<in>set qs. queues_apart q r"
  shows "queues_ok i m (qs @ [q])"
  using queues_ok_mset [of i m "q # qs" "qs @ [q]"] assms by (simp add: queues_ok_Cons)

lemma queue_ok_bound:
  assumes "queue_ok (Some n) q" "\<And>b. m = Some b \<Longrightarrow> n \<le> b"
  shows "queue_ok m q"
  using assms by (auto simp: queue_ok_def stamped_def list_all_iff intro: less_le_trans split: option.splits)

lemma queues_ok_bound:
  assumes "queues_ok i (Some n) qs" "\<And>b. m = Some b \<Longrightarrow> n \<le> b"
  shows "queues_ok i m qs"
  using assms queue_ok_bound [OF _ assms(2)] by (auto simp: queues_ok_def list_all_iff)

lemma queues_ok_id_bound:
  assumes "queues_ok (Some n) m qs" "\<And>b. i = Some b \<Longrightarrow> n \<le> b"
  shows "queues_ok i m qs"
  using assms by (auto simp: queues_ok_def list_all_iff id_below_def intro: less_le_trans split: option.splits)

lemma queues_ok_nth: "queues_ok i m qs \<Longrightarrow> n < length qs \<Longrightarrow> queue_ok m (qs ! n) \<and> id_below i (qs ! n)"
  by (auto simp: queues_ok_def list_all_iff)

lemma bound_of_next:
  "(case checked_add n 1 of Some f \<Rightarrow> Some f | None \<Rightarrow> None) = Some b \<Longrightarrow> n \<le> b" for n :: u64
  by (auto split: option.splits dest: checked_add_one_gt)

lemma handle_count_update:
  assumes "n < length qs"
  shows "sum_list (map (\<lambda>q. length (mq_handles q)) (qs[n := q])) + length (mq_handles (qs ! n))
    = sum_list (map (\<lambda>q. length (mq_handles q)) qs) + length (mq_handles q)"
proof -
  have "sum_mset (image_mset (\<lambda>q. length (mq_handles q)) (mset (qs[n := q]))) + length (mq_handles (qs ! n))
      = sum_mset (image_mset (\<lambda>q. length (mq_handles q)) (mset qs)) + length (mq_handles q)"
    unfolding mset_update_nth [OF assms] mset_split_nth [OF assms] by simp
  then show ?thesis by (simp flip: mset_map add: sum_mset_sum_list)
qed

lemma handle_count_drop:
  assumes "n < length qs"
  shows "sum_list (map (\<lambda>q. length (mq_handles q)) (swap_remove qs n)) \<le> sum_list (map (\<lambda>q. length (mq_handles q)) qs)"
proof -
  have "sum_mset (image_mset (\<lambda>q. length (mq_handles q)) (mset (swap_remove qs n)))
      \<le> sum_mset (image_mset (\<lambda>q. length (mq_handles q)) (mset qs))"
    unfolding mset_swap_remove [OF assms] mset_split_nth [OF assms] by simp
  then show ?thesis by (simp flip: mset_map add: sum_mset_sum_list)
qed

lemma queue_index_handleD:
  "queue_index_by_handle s h = Some i \<Longrightarrow> i < length (ms_queues s) \<and> h \<in> set (mq_handles (ms_queues s ! i))"
  using position_SomeD by (fastforce simp: queue_index_by_handle_def list_ex_iff)

lemma queue_index_handle_None: "queue_index_by_handle s h = None \<longleftrightarrow> (\<forall>q\<in>set (ms_queues s). h \<notin> set (mq_handles q))"
  by (auto simp: queue_index_by_handle_def position_None_iff list_ex_iff)

lemma queue_index_nameD:
  "queue_index_by_name s n = Some i \<Longrightarrow> i < length (ms_queues s) \<and> mq_name (ms_queues s ! i) = Some n"
  using position_SomeD by (fastforce simp: queue_index_by_name_def)

subsection \<open>Preservation of the invariant\<close>

lemma mqueue_new_ok: "mqueue_ok Q H (mqueue_new W)"
  by (simp add: mqueue_ok_def mqueue_new_def queues_ok_def open_handle_count_def)

lemma mqueue_reset_ok: "mqueue_ok Q H (mqueue_reset s)"
  by (simp add: mqueue_ok_def mqueue_reset_def queues_ok_def open_handle_count_def)

lemma mqueue_ok_clear: "mqueue_ok Q H s \<Longrightarrow> mqueue_ok Q H (s\<lparr>ms_waiters := (ms_waiters s)[i := None]\<rparr>)"
  using flatten_clear_subset [of "ms_waiters s" i]
  by (auto simp: mqueue_ok_def open_handle_count_def stamped_clear list_all_iff)

lemma mqueue_ok_remove:
  "mqueue_ok Q H s \<Longrightarrow> mqueue_ok Q H (s\<lparr>ms_waiters := map (\<lambda>x. if slot_is p x then None else x) (ms_waiters s)\<rparr>)"
  by (auto simp: mqueue_ok_def open_handle_count_def stamped_remove flatten_remove list_all_iff)

lemma mqueue_ok_replace:
  assumes "mqueue_ok Q H s" "i < length (ms_waiters s)" "ms_waiters s ! i = Some w"
    "mw_sequence v = mw_sequence w" "mw_queue_id v = mw_queue_id w"
  shows "mqueue_ok Q H (s\<lparr>ms_waiters := (ms_waiters s)[i := Some v]\<rparr>)"
proof -
  have "w \<in> set (flatten (ms_waiters s))" using assms(2,3) by (auto simp: in_flatten_nth)
  then have "list_all (\<lambda>w. mw_queue_id w \<in> mq_id ` set (ms_queues s)) (flatten ((ms_waiters s)[i := Some v]))"
    using assms(1,5) by (intro list_all_flatten_replace) (auto simp: mqueue_ok_def list_all_iff)
  then show ?thesis
    using assms(1) stamped_replace [OF _ assms(2-4)] by (simp add: mqueue_ok_def open_handle_count_def)
qed

lemma mqueue_wake_one_ok:
  assumes "mqueue_ok Q H s"
  obtains s' x where "mqueue_wake_one s queue_id kind = Some (s', x)" "mqueue_ok Q H s'"
    "ms_queues s' = ms_queues s"
proof (cases "oldest_waiter_index (ms_waiters s) (mw_wakes queue_id kind)")
  case None
  then show thesis using that assms by (simp add: mqueue_wake_one_def)
next
  case (Some i)
  then obtain w where w: "i < length (ms_waiters s)" "ms_waiters s ! i = Some w" by (rule mqueue_wake.oldest_SomeD)
  have "mqueue_ok Q H (s\<lparr>ms_waiters := (ms_waiters s)[i := Some (mw_woken w)]\<rparr>)"
    using mqueue_ok_replace [OF assms w] by (simp add: mw_woken_def)
  then show thesis using that Some w by (simp add: mqueue_wake_one_def)
qed

lemma image_id_update: "n < length qs \<Longrightarrow> mq_id q = mq_id (qs ! n) \<Longrightarrow> mq_id ` set (qs[n := q]) = mq_id ` set qs"
  using mset_eq_setD [of "map mq_id (qs[n := q])" "map mq_id qs"]
  by (metis image_set list_update_id map_update)

lemma mqueue_ok_put_queue:
  assumes "mqueue_ok Q H s" "n < length (ms_queues s)"
    "queue_ok (bound_of (ms_message_sequence_exhausted s) (ms_next_message_sequence s)) q"
    "mq_id q = mq_id (ms_queues s ! n)" "set (mq_handles q) \<subseteq> set (mq_handles (ms_queues s ! n))"
    "length (mq_handles q) \<le> length (mq_handles (ms_queues s ! n))"
    "mq_name q = None \<or> mq_name q = mq_name (ms_queues s ! n)"
  shows "mqueue_ok Q H (put_queue s n q)"
  using assms(1) queues_ok_shrink [OF _ assms(2-5,7)] handle_count_update [OF assms(2), of q] assms(6)
    image_id_update [OF assms(2,4)]
  by (auto simp: mqueue_ok_def put_queue_def open_handle_count_def)

lemma drop_if_dead_ok:
  assumes ok: "mqueue_ok Q H s" and n: "n < length (ms_queues s)"
    and q: "mq_handles q = [] \<and> mq_name q = None
      \<or> queue_ok (bound_of (ms_message_sequence_exhausted s) (ms_next_message_sequence s)) q"
    and same: "mq_id q = mq_id (ms_queues s ! n)" "set (mq_handles q) \<subseteq> set (mq_handles (ms_queues s ! n))"
    "length (mq_handles q) \<le> length (mq_handles (ms_queues s ! n))"
    "mq_name q = None \<or> mq_name q = mq_name (ms_queues s ! n)"
  shows "mqueue_ok Q H (drop_if_dead (put_queue s n q) n)"
proof (cases "mq_handles q = [] \<and> mq_name q = None")
  case False
  then have "drop_if_dead (put_queue s n q) n = put_queue s n q" using n by (auto simp: drop_if_dead_def put_queue_def)
  then show ?thesis using mqueue_ok_put_queue [OF ok n] q False same by auto
next
  case True
  let ?qs = "ms_queues s" and ?p = "\<lambda>w. mw_queue_id w = mq_id q"
  let ?sw = "swap_remove (?qs[n := q]) n"
  have eq: "drop_if_dead (put_queue s n q) n
      = s\<lparr>ms_queues := ?sw, ms_waiters := map (\<lambda>x. if slot_is ?p x then None else x) (ms_waiters s)\<rparr>"
    using True n by (simp add: drop_if_dead_def put_queue_def remove_queue_waiters_def)
  have m: "mset ?sw = mset (swap_remove ?qs n)"
    using mset_swap_remove [of n "?qs[n := q]"] mset_swap_remove [OF n] n by simp
  have qs: "mset ?qs = add_mset (?qs ! n) (mset (swap_remove ?qs n))"
    using mset_split_nth [OF n] mset_swap_remove [OF n] by simp
  then have set_qs: "set ?qs = insert (?qs ! n) (set ?sw)" using mset_eq_setD [OF m] by (metis mset.simps(2) list.set(2) mset_eq_setD)
  have len: "length ?sw < length ?qs" using n by (simp add: swap_remove_def)
  have "queues_ok (bound_of (ms_queue_id_exhausted s) (ms_next_queue_id s))
      (bound_of (ms_message_sequence_exhausted s) (ms_next_message_sequence s)) ?sw"
    using queues_ok_mset [OF queues_ok_drop [OF _ n]] ok m by (metis mqueue_ok_def)
  moreover have "sum_list (map (\<lambda>q. length (mq_handles q)) ?sw) \<le> open_handle_count s"
    using handle_count_drop [OF n] arg_cong [OF m, where f = "\<lambda>x. sum_mset (image_mset (\<lambda>q. length (mq_handles q)) x)"]
    unfolding open_handle_count_def mset_map [symmetric] sum_mset_sum_list by simp
  moreover have "mw_queue_id w \<in> mq_id ` set ?sw" if "w \<in> set (flatten (ms_waiters s))" "mw_queue_id w \<noteq> mq_id q" for w
    using ok that same(1) set_qs by (auto simp: mqueue_ok_def list_all_iff)
  ultimately show ?thesis
    using ok len stamped_remove [of mw_sequence _ "ms_waiters s" ?p] unfolding eq
    by (auto simp: mqueue_ok_def open_handle_count_def flatten_remove list_all_iff)
qed

lemma mqueue_okD:
  assumes "mqueue_ok Q H s" "n < length (ms_queues s)"
  shows "queue_ok (bound_of (ms_message_sequence_exhausted s) (ms_next_message_sequence s)) (ms_queues s ! n)"
  using assms queues_ok_nth by (auto simp: mqueue_ok_def)

lemma mqueue_close_ok:
  assumes "mqueue_ok Q H s"
  shows "mqueue_ok Q H (fst (mqueue_close_handle s h))"
proof (cases "queue_index_by_handle s h")
  case None
  then show ?thesis using assms by (simp add: mqueue_close_handle_def)
next
  case (Some n)
  then have n: "n < length (ms_queues s)" "h \<in> set (mq_handles (ms_queues s ! n))" by (auto dest: queue_index_handleD)
  let ?q = "ms_queues s ! n"
  obtain i where i: "position (\<lambda>c. c = h) (mq_handles ?q) = Some i"
    using n(2) position_None_iff [of "\<lambda>c. c = h" "mq_handles ?q"] by (cases "position (\<lambda>c. c = h) (mq_handles ?q)") auto
  let ?hs = "swap_remove (mq_handles ?q) i"
  define q' where "q' = (case mq_notification ?q of
      Some v \<Rightarrow> if mn_handle v = h then ?q\<lparr>mq_handles := ?hs, mq_notification := None\<rparr> else ?q\<lparr>mq_handles := ?hs\<rparr>
    | None \<Rightarrow> ?q\<lparr>mq_handles := ?hs\<rparr>)"
  have il: "i < length (mq_handles ?q)" using position_SomeD [OF i] by simp
  have m: "mset (mq_handles ?q) = add_mset (mq_handles ?q ! i) (mset ?hs)"
    using mset_split_nth [OF il] mset_swap_remove [OF il] by simp
  then have sub: "set ?hs \<subseteq> set (mq_handles ?q)" by (metis mset.simps(2) mset_eq_setD set_subset_Cons)
  have d: "distinct (mq_handles ?q) \<Longrightarrow> distinct ?hs"
    using m by (metis distinct.simps(2) mset.simps(2) mset_eq_imp_distinct_iff)
  have len: "length ?hs \<le> length (mq_handles ?q)" by (simp add: swap_remove_def)
  have f: "mq_handles q' = ?hs" "mq_id q' = mq_id ?q" "mq_name q' = mq_name ?q" "mq_attr q' = mq_attr ?q"
    "mq_messages q' = mq_messages ?q" by (auto simp: q'_def split: option.splits)
  have "mq_handles q' = [] \<and> mq_name q' = None
      \<or> queue_ok (bound_of (ms_message_sequence_exhausted s) (ms_next_message_sequence s)) q'"
    using mqueue_okD [OF assms n(1)] d sub unfolding queue_ok_def f by auto
  then have "mqueue_ok Q H (drop_if_dead (put_queue s n q') n)"
    using sub len f by (intro drop_if_dead_ok [OF assms n(1)]) simp_all
  moreover have "fst (mqueue_close_handle s h) = drop_if_dead (put_queue s n q') n"
    by (simp add: mqueue_close_handle_def Some i q'_def Let_def split: option.splits)
  ultimately show ?thesis by simp
qed

lemma mqueue_unlink_ok:
  assumes "mqueue_ok Q H s"
  shows "mqueue_ok Q H (fst (mqueue_unlink s name))"
proof (cases "linux_mqueue_name_component name")
  case (Inl e)
  then show ?thesis using assms by (simp add: mqueue_unlink_def)
next
  case (Inr c)
  show ?thesis
  proof (cases "queue_index_by_name s c")
    case None
    then show ?thesis using assms Inr by (simp add: mqueue_unlink_def)
  next
    case (Some n)
    then have n: "n < length (ms_queues s)" by (auto dest: queue_index_nameD)
    have "mqueue_ok Q H (drop_if_dead (put_queue s n ((ms_queues s ! n)\<lparr>mq_name := None\<rparr>)) n)"
      using mqueue_okD [OF assms n] by (intro drop_if_dead_ok [OF assms n]) (auto simp: queue_ok_def)
    then show ?thesis using Inr Some by (simp add: mqueue_unlink_def)
  qed
qed

lemma mqueue_notify_ok:
  assumes "mqueue_ok Q H s"
  shows "mqueue_ok Q H (fst (mqueue_notify s h v))"
proof (cases "queue_index_by_handle s h")
  case (Some n)
  then have n: "n < length (ms_queues s)" by (auto dest: queue_index_handleD)
  have "mqueue_ok Q H (put_queue s n ((ms_queues s ! n)\<lparr>mq_notification := x\<rparr>))" for x
    using mqueue_okD [OF assms n] by (intro mqueue_ok_put_queue [OF assms n]) (auto simp: queue_ok_def)
  then show ?thesis using assms Some by (auto simp: mqueue_notify_def Let_def split: option.splits)
qed (use assms in \<open>simp add: mqueue_notify_def\<close>)

lemma bump_bound:
  "\<not> ms_message_sequence_exhausted s \<Longrightarrow>
   bound_of (ms_message_sequence_exhausted (bump_message_sequence s)) (ms_next_message_sequence (bump_message_sequence s))
     = checked_add (ms_next_message_sequence s) 1"
  by (auto simp: bump_message_sequence_def bound_of_def split: option.splits)

lemma bump_fields [simp]:
  "ms_queues (bump_message_sequence s) = ms_queues s" "ms_waiters (bump_message_sequence s) = ms_waiters s"
  "ms_next_queue_id (bump_message_sequence s) = ms_next_queue_id s"
  "ms_queue_id_exhausted (bump_message_sequence s) = ms_queue_id_exhausted s"
  "ms_next_waiter_sequence (bump_message_sequence s) = ms_next_waiter_sequence s"
  "ms_waiter_sequence_exhausted (bump_message_sequence s) = ms_waiter_sequence_exhausted s"
  "open_handle_count (bump_message_sequence s) = open_handle_count s"
  by (auto simp: bump_message_sequence_def open_handle_count_def split: option.splits)

lemma mqueue_bump_ok:
  assumes "mqueue_ok Q H s" "\<not> ms_message_sequence_exhausted s"
  shows "mqueue_ok Q H (bump_message_sequence s)"
proof -
  have "queues_ok (bound_of (ms_queue_id_exhausted s) (ms_next_queue_id s)) (Some (ms_next_message_sequence s)) (ms_queues s)"
    using assms by (simp add: mqueue_ok_def bound_of_def)
  then have "queues_ok (bound_of (ms_queue_id_exhausted s) (ms_next_queue_id s))
      (checked_add (ms_next_message_sequence s) 1) (ms_queues s)"
    by (rule queues_ok_bound) (auto dest: checked_add_one_gt)
  then show ?thesis using assms by (simp add: mqueue_ok_def bump_bound)
qed

text \<open>The state after a message was stored.\<close>

definition mqueue_store :: "LinuxMqueueState \<Rightarrow> nat \<Rightarrow> LinuxMqueueMessage \<Rightarrow> LinuxMqueueState" where
  "mqueue_store s n m =
     put_queue (bump_message_sequence s) n
       (let q = ms_queues s ! n
        in q\<lparr>mq_messages := mq_messages q @ [\<lparr>qm_message = m, qm_sequence = ms_next_message_sequence s\<rparr>]\<rparr>)"

lemma mqueue_store_ok:
  assumes "mqueue_ok Q H s" "\<not> ms_message_sequence_exhausted s" "n < length (ms_queues s)"
    "length (mq_messages (ms_queues s ! n)) < unat (ma_maxmsg (mq_attr (ms_queues s ! n)))"
    "length (mm_bytes m) \<le> unat (ma_msgsize (mq_attr (ms_queues s ! n)))" "mm_priority m < LINUX_MQ_PRIO_MAX"
  shows "mqueue_ok Q H (mqueue_store s n m)"
proof -
  let ?q = "ms_queues s ! n" and ?m = "\<lparr>qm_message = m, qm_sequence = ms_next_message_sequence s\<rparr>"
  have ok: "queue_ok (Some (ms_next_message_sequence s)) ?q"
    using mqueue_okD [OF assms(1,3)] assms(2) by (simp add: bound_of_def)
  then have st: "stamped qm_sequence (Some (ms_next_message_sequence s)) (map Some (mq_messages ?q))"
    by (simp add: queue_ok_def)
  have "stamped qm_sequence (checked_add (ms_next_message_sequence s) 1) (map Some (mq_messages ?q @ [?m]))"
  proof (rule stampedI)
    show "distinct (map qm_sequence (flatten (map Some (mq_messages ?q @ [?m]))))"
      using stamped_distinct [OF st] stamped_below [OF st] by force
    show "qm_sequence w < b" if "checked_add (ms_next_message_sequence s) 1 = Some b"
      "w \<in> set (flatten (map Some (mq_messages ?q @ [?m])))" for b w
      using stamped_below [OF st, of w] that checked_add_one_gt by (fastforce dest: less_trans)
  qed
  moreover have "queue_ok (checked_add (ms_next_message_sequence s) 1) ?q"
    using ok by (rule queue_ok_bound) (auto dest: checked_add_one_gt)
  ultimately have "queue_ok (checked_add (ms_next_message_sequence s) 1) (?q\<lparr>mq_messages := mq_messages ?q @ [?m]\<rparr>)"
    using assms(4-6) by (simp add: queue_ok_def)
  then show ?thesis
    unfolding mqueue_store_def Let_def using assms(2,3)
    by (intro mqueue_ok_put_queue [OF mqueue_bump_ok [OF assms(1,2)]]) (simp_all add: bump_bound)
qed

lemma mqueue_send_cases [consumes 1, case_names failed stored]:
  assumes "mqueue_ok Q H s"
  obtains (failed) e where "mqueue_send alloc s h bytes p = Some (s, Inl e)"
  | (stored) n s' r where "queue_index_by_handle s h = Some n" "p < LINUX_MQ_PRIO_MAX" "alloc"
      "length bytes \<le> unat (ma_msgsize (mq_attr (ms_queues s ! n)))"
      "length (mq_messages (ms_queues s ! n)) < unat (ma_maxmsg (mq_attr (ms_queues s ! n)))"
      "\<not> ms_message_sequence_exhausted s"
      "mqueue_ok Q H (mqueue_store s n \<lparr>mm_bytes = bytes, mm_priority = p\<rparr>)"
      "mqueue_wake_one (mqueue_store s n \<lparr>mm_bytes = bytes, mm_priority = p\<rparr>) (mq_id (ms_queues s ! n)) MqReceive = Some (s', r)"
      "mqueue_ok Q H s'" "ms_queues s' = ms_queues (mqueue_store s n \<lparr>mm_bytes = bytes, mm_priority = p\<rparr>)"
      "mqueue_send alloc s h bytes p =
        (if mq_messages (ms_queues s ! n) = [] \<and> r = None
         then Some (put_queue s' n ((ms_queues s' ! n)\<lparr>mq_notification := None\<rparr>),
           Inr \<lparr>so_receiver = r, so_notification = mq_notification (ms_queues s ! n)\<rparr>)
         else Some (s', Inr \<lparr>so_receiver = r, so_notification = None\<rparr>))"
proof (cases "queue_index_by_handle s h")
  case None
  then show thesis using failed by (simp add: mqueue_send_def)
next
  case (Some n)
  let ?q = "ms_queues s ! n" and ?m = "\<lparr>mm_bytes = bytes, mm_priority = p\<rparr>"
  have n: "n < length (ms_queues s)" using Some by (auto dest: queue_index_handleD)
  show thesis
  proof (cases "LINUX_MQ_PRIO_MAX \<le> p \<or> unat (ma_msgsize (mq_attr ?q)) < length bytes
      \<or> unat (ma_maxmsg (mq_attr ?q)) \<le> length (mq_messages ?q) \<or> ms_message_sequence_exhausted s \<or> \<not> alloc")
    case True
    have "\<exists>e. mqueue_send alloc s h bytes p = Some (s, Inl e)" using Some True by (elim disjE) (simp_all add: mqueue_send_def Let_def)
    then show thesis using failed by blast
  next
    case False
    then have ok: "mqueue_ok Q H (mqueue_store s n ?m)" using n by (intro mqueue_store_ok [OF assms]) auto
    obtain s' r where w: "mqueue_wake_one (mqueue_store s n ?m) (mq_id ?q) MqReceive = Some (s', r)"
      "mqueue_ok Q H s'" "ms_queues s' = ms_queues (mqueue_store s n ?m)" by (rule mqueue_wake_one_ok [OF ok])
    have "mq_notification (ms_queues s' ! n) = mq_notification ?q"
      unfolding w(3) using n by (simp add: mqueue_store_def put_queue_def Let_def)
    then have "mqueue_send alloc s h bytes p =
        (if mq_messages ?q = [] \<and> r = None
         then Some (put_queue s' n ((ms_queues s' ! n)\<lparr>mq_notification := None\<rparr>),
           Inr \<lparr>so_receiver = r, so_notification = mq_notification ?q\<rparr>)
         else Some (s', Inr \<lparr>so_receiver = r, so_notification = None\<rparr>))"
      using Some False w(1) unfolding mqueue_store_def by (simp add: mqueue_send_def Let_def)
    then show thesis using stored [OF Some _ _ _ _ _ ok w] False by auto
  qed
qed

lemma mqueue_send_ok:
  assumes "mqueue_ok Q H s"
  obtains s' r where "mqueue_send alloc s h bytes p = Some (s', r)" "mqueue_ok Q H s'"
  using assms
proof (cases rule: mqueue_send_cases [where alloc = alloc and h = h and bytes = bytes and p = p])
  case (failed e)
  then show thesis using that assms by blast
next
  case (stored n s' r)
  have n: "n < length (ms_queues s')" using queue_index_handleD [OF stored(1)] stored(10)
    by (simp add: mqueue_store_def put_queue_def)
  have "mqueue_ok Q H (put_queue s' n ((ms_queues s' ! n)\<lparr>mq_notification := None\<rparr>))"
    using mqueue_okD [OF stored(9) n] by (intro mqueue_ok_put_queue [OF stored(9) n]) (auto simp: queue_ok_def)
  then show thesis using that stored(9,11) by (metis (full_types))
qed

lemma queue_ok_take:
  assumes "queue_ok b q" "i < length (mq_messages q)"
  shows "queue_ok b (q\<lparr>mq_messages := swap_remove (mq_messages q) i\<rparr>)"
proof -
  have m: "mset (mq_messages q) = add_mset (mq_messages q ! i) (mset (swap_remove (mq_messages q) i))"
    using mset_split_nth [OF assms(2)] mset_swap_remove [OF assms(2)] by simp
  then have sub: "set (swap_remove (mq_messages q) i) \<subseteq> set (mq_messages q)"
    by (metis mset.simps(2) mset_eq_setD set_subset_Cons)
  have "mset (map qm_sequence (mq_messages q)) = mset (qm_sequence (mq_messages q ! i) # map qm_sequence (swap_remove (mq_messages q) i))"
    by (simp add: m)
  then have "distinct (map qm_sequence (mq_messages q)) \<Longrightarrow> distinct (map qm_sequence (swap_remove (mq_messages q) i))"
    by (metis distinct.simps(2) mset_eq_imp_distinct_iff)
  moreover have "length (swap_remove (mq_messages q) i) \<le> length (mq_messages q)" by (simp add: swap_remove_def)
  ultimately show ?thesis using assms(1) sub unfolding queue_ok_def stamped_def
    by (auto simp: list_all_iff split: option.splits)
qed

lemma mqueue_receive_cases [consumes 1, case_names failed taken]:
  assumes "mqueue_ok Q H s"
  obtains (failed) e where "mqueue_receive s h len = Some (s, Inl e)"
  | (taken) n i s' r where "queue_index_by_handle s h = Some n" "ma_msgsize (mq_attr (ms_queues s ! n)) \<le> len"
      "is_best (mq_messages (ms_queues s ! n)) (Some i)"
      "mqueue_ok Q H s'"
      "ms_queues s' = (ms_queues s)[n := (ms_queues s ! n)\<lparr>mq_messages := swap_remove (mq_messages (ms_queues s ! n)) i\<rparr>]"
      "mqueue_wake_one (put_queue s n ((ms_queues s ! n)\<lparr>mq_messages := swap_remove (mq_messages (ms_queues s ! n)) i\<rparr>))
         (mq_id (ms_queues s ! n)) MqSend = Some (s', r)"
      "mqueue_receive s h len = Some (s', Inr \<lparr>ro_message = qm_message (mq_messages (ms_queues s ! n) ! i), ro_sender = r\<rparr>)"
proof (cases "queue_index_by_handle s h")
  case None
  then show thesis using failed by (simp add: mqueue_receive_def)
next
  case (Some n)
  let ?q = "ms_queues s ! n"
  have n: "n < length (ms_queues s)" using Some by (auto dest: queue_index_handleD)
  show thesis
  proof (cases "len < ma_msgsize (mq_attr ?q) \<or> best_message_index s n = None")
    case True
    then have "\<exists>e. mqueue_receive s h len = Some (s, Inl e)"
      using Some by (elim disjE) (simp_all add: mqueue_receive_def Let_def)
    then show thesis using failed by blast
  next
    case False
    then obtain i where i: "best_message_index s n = Some i" by auto
    have best: "is_best (mq_messages ?q) (Some i)" using best_message_best [of s n] i by simp
    let ?r = "?q\<lparr>mq_messages := swap_remove (mq_messages ?q) i\<rparr>"
    have "mqueue_ok Q H (put_queue s n ?r)"
      using queue_ok_take [OF mqueue_okD [OF assms n]] best
      by (intro mqueue_ok_put_queue [OF assms n]) (simp_all add: is_best_def)
    then obtain s' r where w: "mqueue_wake_one (put_queue s n ?r) (mq_id ?q) MqSend = Some (s', r)"
      "mqueue_ok Q H s'" "ms_queues s' = ms_queues (put_queue s n ?r)" by (rule mqueue_wake_one_ok)
    show thesis using taken [OF Some _ best w(2) _ w(1)] w False i Some
      by (simp add: mqueue_receive_def Let_def put_queue_def)
  qed
qed

lemma mqueue_receive_ok:
  assumes "mqueue_ok Q H s"
  obtains s' r where "mqueue_receive s h len = Some (s', r)" "mqueue_ok Q H s'"
  using mqueue_receive_cases [OF assms, of h len] assms that by metis

lemma queues_ok_attach:
  assumes "queues_ok i m qs" "n < length qs" "\<forall>q\<in>set qs. h \<notin> set (mq_handles q)" "h \<noteq> 0"
  shows "queues_ok i m (qs[n := (qs ! n)\<lparr>mq_handles := mq_handles (qs ! n) @ [h]\<rparr>])"
proof -
  let ?rest = "take n qs @ drop (Suc n) qs" and ?q = "(qs ! n)\<lparr>mq_handles := mq_handles (qs ! n) @ [h]\<rparr>"
  have old: "queues_ok i m (qs ! n # ?rest)" by (rule queues_ok_split [OF assms(1,2)])
  have free: "h \<notin> set (mq_handles (qs ! n))" using assms(2,3) by simp
  have others: "\<forall>r\<in>set ?rest. h \<notin> set (mq_handles r)"
    using assms(3) by (auto dest: in_set_takeD in_set_dropD)
  have "queue_ok m ?q" using old free assms(4) by (auto simp: queues_ok_Cons queue_ok_def)
  moreover have "id_below i ?q" using old by (auto simp: queues_ok_Cons id_below_def split: option.splits)
  moreover have "\<forall>r\<in>set ?rest. queues_apart ?q r" using old others unfolding queues_ok_Cons queues_apart_def by auto
  ultimately have "queues_ok i m (?q # ?rest)" using old by (simp add: queues_ok_Cons)
  then show ?thesis using queues_ok_mset [of i m "?q # ?rest" "qs[n := ?q]"] mset_update_nth [OF assms(2)] by simp
qed

lemma validate_attrD:
  "validate_linux_mqueue_attr a = Inr b \<Longrightarrow> 0 < unat (ma_maxmsg b) \<and> unat (ma_maxmsg b) \<le> 1024
     \<and> 0 < unat (ma_msgsize b) \<and> unat (ma_msgsize b) \<le> 8192 \<and> ma_flags b = 0 \<and> ma_curmsgs b = 0"
  by (auto simp: validate_linux_mqueue_attr_def LINUX_MQ_MAXMSG_LIMIT_def LINUX_MQ_MSGSIZE_LIMIT_def
      word_le_nat_alt not_less unat_gt_0 split: if_splits)

lemma mqueue_create_ok:
  assumes ok: "mqueue_ok Q H s" and name: "queue_index_by_name s name = None"
    and h: "validate_new_handle H s h = Inr ()"
  shows "mqueue_ok Q H (fst (mqueue_create Q alloc s name h attr))"
proof (cases "validate_linux_mqueue_attr (case attr of None \<Rightarrow> mqueue_attr_defaults | Some a \<Rightarrow> a)")
  case (Inl e)
  then show ?thesis using ok by (simp add: mqueue_create_def)
next
  case (Inr a)
  show ?thesis
  proof (cases "Q \<le> length (ms_queues s) \<or> ms_queue_id_exhausted s \<or> \<not> alloc")
    case True
    then show ?thesis using ok Inr by (auto simp: mqueue_create_def)
  next
    case False
    let ?id = "ms_next_queue_id s"
    let ?q = "\<lparr>mq_id = ?id, mq_name = Some name, mq_handles = [h], mq_attr = a, mq_messages = [], mq_notification = None\<rparr>"
    let ?s = "case checked_add ?id 1 of Some f \<Rightarrow> s\<lparr>ms_next_queue_id := f\<rparr> | None \<Rightarrow> s\<lparr>ms_queue_id_exhausted := True\<rparr>"
    let ?m = "bound_of (ms_message_sequence_exhausted s) (ms_next_message_sequence s)"
    have eq: "fst (mqueue_create Q alloc s name h attr) = ?s\<lparr>ms_queues := ms_queues s @ [?q]\<rparr>"
      using False Inr by (auto simp: mqueue_create_def Let_def split: option.splits)
    have old: "queues_ok (Some ?id) ?m (ms_queues s)" using ok False by (simp add: mqueue_ok_def bound_of_def)
    have new: "h \<noteq> 0" "\<forall>q\<in>set (ms_queues s). h \<notin> set (mq_handles q)" "open_handle_count s < H"
      using h by (auto simp: validate_new_handle_def queue_index_handle_None split: if_splits)
    have "queue_ok ?m ?q" using validate_attrD [OF Inr] new(1) by (simp add: queue_ok_def stamped_def split: option.split)
    moreover have "\<forall>r\<in>set (ms_queues s). queues_apart ?q r"
    proof
      fix r assume r: "r \<in> set (ms_queues s)"
      have "mq_id r < ?id" using old r by (auto simp: queues_ok_def list_all_iff id_below_def)
      moreover have "mq_name r \<noteq> Some name" using name r by (auto simp: queue_index_by_name_def position_None_iff)
      ultimately show "queues_apart ?q r" using new(2) r by (auto simp: queues_apart_def)
    qed
    moreover have "queues_ok (checked_add ?id 1) ?m (ms_queues s)"
      using old by (rule queues_ok_id_bound) (auto dest: checked_add_one_gt)
    moreover have "id_below (checked_add ?id 1) ?q"
      by (auto simp: id_below_def dest: checked_add_one_gt split: option.splits)
    ultimately have "queues_ok (checked_add ?id 1) ?m (ms_queues s @ [?q])" by (intro queues_ok_snoc)
    then show ?thesis using ok new(3) False unfolding eq
      by (auto simp: mqueue_ok_def bound_of_def open_handle_count_def list_all_iff split: option.splits)
  qed
qed

lemma mqueue_open_ok:
  assumes "mqueue_ok Q H s"
  shows "mqueue_ok Q H (fst (mqueue_open Q H alloc s name h create exclusive attr))"
proof (cases "linux_mqueue_name_component name")
  case (Inl e)
  then show ?thesis using assms by (simp add: mqueue_open_def)
next
  case (Inr c)
  show ?thesis
  proof (cases "validate_new_handle H s h")
    case (Inl e)
    then show ?thesis using assms Inr by (simp add: mqueue_open_def)
  next
    case v: (Inr u)
    have new: "h \<noteq> 0" "\<forall>q\<in>set (ms_queues s). h \<notin> set (mq_handles q)" "open_handle_count s < H"
      using v by (auto simp: validate_new_handle_def queue_index_handle_None split: if_splits)
    show ?thesis
    proof (cases "queue_index_by_name s c")
      case None
      then show ?thesis using assms Inr v mqueue_create_ok [OF assms None] by (simp add: mqueue_open_def)
    next
      case (Some n)
      then have n: "n < length (ms_queues s)" by (auto dest: queue_index_nameD)
      let ?q = "(ms_queues s ! n)\<lparr>mq_handles := mq_handles (ms_queues s ! n) @ [h]\<rparr>"
      have "mqueue_ok Q H (put_queue s n ?q)"
        using assms queues_ok_attach [OF _ n new(2,1)] handle_count_update [OF n, of ?q] new(3)
          image_id_update [OF n, of ?q]
        by (auto simp: mqueue_ok_def put_queue_def open_handle_count_def)
      then show ?thesis using assms Inr v Some by (simp add: mqueue_open_def attach_handle_def Let_def)
    qed
  qed
qed

lemma mqueue_push_waiter_ok:
  assumes "mqueue_ok Q H s"
  shows "mqueue_ok Q H (fst (mqueue_push_waiter s h kind tid th deadline))"
proof (cases "queue_by_handle s h")
  case None
  then show ?thesis using assms by (simp add: mqueue_push_waiter_def)
next
  case (Some q)
  show ?thesis
  proof (cases "fst (mqueue_push_waiter s h kind tid th deadline) = s")
    case False
    let ?n = "ms_next_waiter_sequence s"
    let ?w = "\<lparr>mw_queue_id = mq_id q, mw_kind = kind, mw_tid = tid, mw_scheduler_thread = th, mw_deadline = deadline,
      mw_sequence = ?n, mw_outcome = MqWaiting\<rparr>"
    let ?s = "case checked_add ?n 1 of Some f \<Rightarrow> s\<lparr>ms_next_waiter_sequence := f\<rparr>
      | None \<Rightarrow> s\<lparr>ms_waiter_sequence_exhausted := True\<rparr>"
    obtain i where i: "position (\<lambda>slot. slot = None) (ms_waiters s) = Some i" and live: "\<not> ms_waiter_sequence_exhausted s"
      and eq: "fst (mqueue_push_waiter s h kind tid th deadline) = ?s\<lparr>ms_waiters := (ms_waiters s)[i := Some ?w]\<rparr>"
      using False Some by (auto simp: mqueue_push_waiter_def Let_def split: if_splits option.splits)
    have q: "q \<in> set (ms_queues s)" using Some by (auto simp: queue_by_handle_def split: option.splits if_splits)
    have "stamped mw_sequence (Some ?n) (ms_waiters s)" using assms live by (simp add: mqueue_ok_def bound_of_def)
    then have "stamped mw_sequence (checked_add ?n 1) ((ms_waiters s)[i := Some ?w])"
      using position_SomeD [OF i] by (intro stamped_fill) (auto dest: checked_add_one_gt)
    moreover have "list_all (\<lambda>w. mw_queue_id w \<in> mq_id ` set (ms_queues s)) (flatten ((ms_waiters s)[i := Some ?w]))"
      using assms q by (intro list_all_flatten_replace) (simp_all add: mqueue_ok_def)
    ultimately show ?thesis using assms live unfolding eq
      by (auto simp: mqueue_ok_def bound_of_def open_handle_count_def split: option.splits)
  qed (use assms in simp)
qed

lemma mqueue_expire_one_ok:
  assumes "mqueue_ok Q H s"
  obtains s' x where "mqueue_expire_one s now = Some (s', x)" "mqueue_ok Q H s'"
proof (cases "oldest_waiter_index (ms_waiters s) (mw_expired now)")
  case None
  then show thesis using that assms by (simp add: mqueue_expire_one_def)
next
  case (Some i)
  then obtain w where w: "i < length (ms_waiters s)" "ms_waiters s ! i = Some w" by (rule mqueue_expire.oldest_SomeD)
  have "mqueue_ok Q H (s\<lparr>ms_waiters := (ms_waiters s)[i := Some (mw_timed_out w)]\<rparr>)"
    using mqueue_ok_replace [OF assms w] by (simp add: mw_timed_out_def)
  then show thesis using that Some w by (simp add: mqueue_expire_one_def)
qed

lemma mqueue_interrupt_ok:
  assumes "mqueue_ok Q H s"
  shows "mqueue_ok Q H (fst (mqueue_interrupt s tid th))"
proof (cases "position (slot_is (\<lambda>w. mw_is tid th w \<and> mw_outcome w = MqWaiting)) (ms_waiters s)")
  case None
  then show ?thesis using assms by (simp add: mqueue_interrupt_def)
next
  case (Some i)
  then obtain w where "i < length (ms_waiters s)" "ms_waiters s ! i = Some w" by (rule position_slot_is)
  then show ?thesis using Some mqueue_ok_replace [OF assms, of i w "w\<lparr>mw_outcome := MqInterrupted\<rparr>"]
    by (simp add: mqueue_interrupt_def)
qed

lemma mqueue_take_outcome_ok: "mqueue_ok Q H s \<Longrightarrow> mqueue_ok Q H (fst (mqueue_take_outcome s tid th))"
  by (simp add: mqueue_take_outcome_def mqueue_ok_clear split: option.splits)

lemma mqueue_remove_task_ok: "mqueue_ok Q H s \<Longrightarrow> mqueue_ok Q H (fst (mqueue_remove_task s tid th))"
  by (simp add: mqueue_remove_task_def mqueue_ok_remove)

subsection \<open>The runtime\<close>

definition LINUX_MQUEUE_LIMIT :: nat where "LINUX_MQUEUE_LIMIT = 64"
definition LINUX_MQUEUE_HANDLE_LIMIT :: nat where "LINUX_MQUEUE_HANDLE_LIMIT = 256"

definition linux_mqueue_error :: "LinuxMqueueError \<Rightarrow> SysError" where
  "linux_mqueue_error error =
     (case error of
        MqBadDescriptor \<Rightarrow> EBADF | MqCapacity \<Rightarrow> ENOMEM | MqExists \<Rightarrow> EEXIST | MqInvalid \<Rightarrow> EINVAL
      | MqMessageTooLarge \<Rightarrow> EMSGSIZE | MqNameTooLong \<Rightarrow> ENAMETOOLONG | MqNotFound \<Rightarrow> ENOENT
      | MqWouldBlock \<Rightarrow> EAGAIN | MqBusy \<Rightarrow> EBUSY)"

definition linux_mqueue_wait_error :: "LinuxMqueueError \<Rightarrow> SysError" where
  "linux_mqueue_wait_error error = (case error of MqCapacity \<Rightarrow> EAGAIN | MqBusy \<Rightarrow> EAGAIN | _ \<Rightarrow> linux_mqueue_error error)"

definition mqueue_wake_identity :: "'t waker \<Rightarrow> (usize \<times> usize) option \<Rightarrow> 't \<Rightarrow> 't" where
  "mqueue_wake_identity wake_blocked identity tasks =
     (case identity of
        None \<Rightarrow> tasks
      | Some (tid, scheduler_thread) \<Rightarrow> fst (wake_blocked tid scheduler_thread tasks))"

definition mqueue_open_named ::
  "bool \<Rightarrow> LinuxMqueueState \<Rightarrow> string \<Rightarrow> u32 \<Rightarrow> bool \<Rightarrow> bool \<Rightarrow> LinuxMqueueAttr option
     \<Rightarrow> LinuxMqueueState \<times> (SysError + LinuxMqueueOpen)" where
  "mqueue_open_named alloc s name handle create exclusive attr =
     map_prod id (map_sum linux_mqueue_error id)
       (mqueue_open LINUX_MQUEUE_LIMIT LINUX_MQUEUE_HANDLE_LIMIT alloc s name handle create exclusive attr)"

definition mqueue_unlink_call :: "LinuxMqueueState \<Rightarrow> string \<Rightarrow> LinuxMqueueState \<times> (SysError + nat)" where
  "mqueue_unlink_call s name = map_prod id (map_sum linux_mqueue_error (\<lambda>_. 0)) (mqueue_unlink s name)"

definition mqueue_getattr_call :: "LinuxMqueueState \<Rightarrow> u32 \<Rightarrow> usize \<Rightarrow> SysError + LinuxMqueueAttr" where
  "mqueue_getattr_call s handle flags = map_sum linux_mqueue_error id (mqueue_getattr s handle flags)"

definition mqueue_notify_call ::
  "LinuxMqueueState \<Rightarrow> u32 \<Rightarrow> LinuxMqueueNotification option \<Rightarrow> LinuxMqueueState \<times> (SysError + nat)" where
  "mqueue_notify_call s handle notification =
     map_prod id (map_sum linux_mqueue_error (\<lambda>_. 0)) (mqueue_notify s handle notification)"

definition mqueue_send_call ::
  "'t waker \<Rightarrow> bool \<Rightarrow> LinuxMqueueState \<times> 't \<Rightarrow> u32 \<Rightarrow> u8 list \<Rightarrow> usize
     \<Rightarrow> ((LinuxMqueueState \<times> 't) \<times> (SysError + LinuxMqueueSendOutcome)) option" where
  "mqueue_send_call wake_blocked alloc st handle bytes priority =
     (case mqueue_send alloc (fst st) handle bytes priority of
        None \<Rightarrow> None
      | Some (s, Inl error) \<Rightarrow> Some ((s, snd st), Inl (linux_mqueue_error error))
      | Some (s, Inr outcome) \<Rightarrow>
          Some ((s, mqueue_wake_identity wake_blocked (so_receiver outcome) (snd st)), Inr outcome))"

definition mqueue_receive_call ::
  "'t waker \<Rightarrow> LinuxMqueueState \<times> 't \<Rightarrow> u32 \<Rightarrow> usize
     \<Rightarrow> ((LinuxMqueueState \<times> 't) \<times> (SysError + LinuxMqueueReceiveOutcome)) option" where
  "mqueue_receive_call wake_blocked st handle buffer_len =
     (case mqueue_receive (fst st) handle buffer_len of
        None \<Rightarrow> None
      | Some (s, Inl error) \<Rightarrow> Some ((s, snd st), Inl (linux_mqueue_error error))
      | Some (s, Inr outcome) \<Rightarrow>
          Some ((s, mqueue_wake_identity wake_blocked (ro_sender outcome) (snd st)), Inr outcome))"

text \<open>
  What a wait uses of its surroundings: the timer, the scheduler thread and the task table.
\<close>

record 't mqueue_env =
  me_now :: u64
  me_dispatch_active :: bool
  me_thread :: usize
  me_tid :: "SysError + usize"
  me_block :: "'t \<Rightarrow> 't \<times> (SysError + usize \<times> usize)"
  me_wake :: "'t waker"

datatype mqueue_wait_result = MqReturned "SysError + LinuxMqueueWaitOutcome" | MqParked

text \<open>\<open>wait\<close> up to the call of the scheduler.\<close>

definition mqueue_wait_enter ::
  "'t mqueue_env \<Rightarrow> LinuxMqueueState \<times> 't \<Rightarrow> u32 \<Rightarrow> LinuxMqueueWaitKind \<Rightarrow> LinuxMqueueDeadline option
     \<Rightarrow> (LinuxMqueueState \<times> 't) \<times> mqueue_wait_result" where
  "mqueue_wait_enter env st handle kind deadline =
     (if (case deadline of None \<Rightarrow> False | Some d \<Rightarrow> md_ticks d \<le> me_now env)
      then (st, MqReturned (Inl ETIMEDOUT))
      else if me_dispatch_active env then (st, MqReturned (Inl EAGAIN))
      else
        (case me_tid env of
           Inl error \<Rightarrow> (st, MqReturned (Inl error))
         | Inr tid \<Rightarrow>
             (case mqueue_push_waiter (fst st) handle kind tid (me_thread env) deadline of
                (s, Inl error) \<Rightarrow> ((s, snd st), MqReturned (Inl (linux_mqueue_wait_error error)))
              | (s, Inr _) \<Rightarrow>
                  (case mqueue_ready s handle kind of
                     Inl error \<Rightarrow> ((s, snd st), MqReturned (Inl (linux_mqueue_wait_error error)))
                   | Inr True \<Rightarrow>
                       ((fst (mqueue_remove_task s tid (me_thread env)), snd st), MqReturned (Inr MqWoken))
                   | Inr False \<Rightarrow>
                       let (tasks, blocked) = me_block env (snd st)
                       in if blocked = Inr (tid, me_thread env) then ((s, tasks), MqParked)
                          else ((fst (mqueue_remove_task s tid (me_thread env)), tasks), MqReturned (Inl EAGAIN))))))"

text \<open>\<open>wait\<close> after the scheduler has come back.\<close>

definition mqueue_wait_resume ::
  "'t mqueue_env \<Rightarrow> LinuxMqueueState \<times> 't \<Rightarrow> usize \<Rightarrow> usize
     \<Rightarrow> (LinuxMqueueState \<times> 't) \<times> (SysError + LinuxMqueueWaitOutcome)" where
  "mqueue_wait_resume env st tid scheduler_thread =
     (case mqueue_take_outcome (fst st) tid scheduler_thread of
        (s, Some outcome) \<Rightarrow> ((s, snd st), Inr outcome)
      | (s, None) \<Rightarrow>
          ((fst (mqueue_remove_task s tid scheduler_thread), fst (me_wake env tid scheduler_thread (snd st))), Inl EAGAIN))"

definition mqueue_waiting :: "LinuxMqueueState \<Rightarrow> nat" where
  "mqueue_waiting s = length (filter (\<lambda>w. mw_outcome w = MqWaiting) (flatten (ms_waiters s)))"

lemma mqueue_expire_one_cases:
  obtains (none) "mqueue_expire_one s now = Some (s, None)" "\<forall>w\<in>set (flatten (ms_waiters s)). \<not> mw_expired now w"
  | (one) i w where "mqueue_expire_one s now
        = Some (s\<lparr>ms_waiters := (ms_waiters s)[i := Some (mw_timed_out w)]\<rparr>, Some (mw_identity w))"
      "i < length (ms_waiters s)" "ms_waiters s ! i = Some w" "mw_expired now w"
      "\<forall>v\<in>set (flatten (ms_waiters s)). mw_expired now v \<longrightarrow> mw_sequence w \<le> mw_sequence v"
proof (cases "oldest_waiter_index (ms_waiters s) (mw_expired now)")
  case None
  then show thesis using none mqueue_expire.oldest_NoneD [OF None] by (simp add: mqueue_expire_one_def)
next
  case (Some i)
  from Some obtain w where "i < length (ms_waiters s)" "ms_waiters s ! i = Some w" "mw_expired now w"
    "\<forall>v\<in>set (flatten (ms_waiters s)). mw_expired now v \<longrightarrow> mw_sequence w \<le> mw_sequence v"
    by (rule mqueue_expire.oldest_SomeD)
  then show thesis using one Some by (simp add: mqueue_expire_one_def)
qed

lemma mqueue_expire_one_count:
  assumes "mqueue_expire_one s now = Some (s', Some x)"
  shows "mqueue_waiting s' < mqueue_waiting s"
proof (cases rule: mqueue_expire_one_cases [of s now])
  case none
  then show ?thesis using assms by simp
next
  case (one i w)
  then have "s' = s\<lparr>ms_waiters := (ms_waiters s)[i := Some (mw_timed_out w)]\<rparr>" using assms by simp
  then show ?thesis
    using flatten_split [OF one(2)] flatten_update [OF one(2), of "Some (mw_timed_out w)"] one(3,4)
    by (simp add: mqueue_waiting_def mw_expired_def mw_timed_out_def)
qed

function mqueue_timer_loop ::
  "'t waker \<Rightarrow> u64 \<Rightarrow> LinuxMqueueState \<times> 't \<Rightarrow> (LinuxMqueueState \<times> 't) option" where
  "mqueue_timer_loop wake_blocked now (s, tasks) =
     (case mqueue_expire_one s now of
        None \<Rightarrow> None
      | Some (s', None) \<Rightarrow> Some (s', tasks)
      | Some (s', Some identity) \<Rightarrow>
          mqueue_timer_loop wake_blocked now (s', mqueue_wake_identity wake_blocked (Some identity) tasks))"
  by pat_completeness auto
termination
  by (relation "measure (\<lambda>(wake_blocked, now, s, tasks). mqueue_waiting s)") (auto dest: mqueue_expire_one_count)

declare mqueue_timer_loop.simps [simp del]

definition mqueue_on_timer_tick ::
  "'t waker \<Rightarrow> nat \<Rightarrow> u64 \<Rightarrow> LinuxMqueueState \<times> 't \<Rightarrow> (LinuxMqueueState \<times> 't) option" where
  "mqueue_on_timer_tick wake_blocked cpu now st =
     (if cpu = 0 then mqueue_timer_loop wake_blocked now st else Some st)"

definition mqueue_interrupt_task ::
  "'t waker \<Rightarrow> LinuxMqueueState \<times> 't \<Rightarrow> usize \<Rightarrow> usize \<Rightarrow> (LinuxMqueueState \<times> 't) \<times> bool" where
  "mqueue_interrupt_task wake_blocked st tid scheduler_thread =
     (let (s, interrupted) = mqueue_interrupt (fst st) tid scheduler_thread
      in if \<not> interrupted then ((s, snd st), False)
         else
           let (tasks, woken) = wake_blocked tid scheduler_thread (snd st)
           in if woken then ((s, tasks), True)
              else ((fst (mqueue_take_outcome s tid scheduler_thread), tasks), False))"

inductive mqueue_step :: "LinuxMqueueState \<times> 't \<Rightarrow> LinuxMqueueState \<times> 't \<Rightarrow> bool" where
  mq_step_open: "mqueue_open_named alloc s name handle create exclusive attr = (s', r)
     \<Longrightarrow> mqueue_step (s, tasks) (s', tasks)"
| mq_step_unlink: "mqueue_unlink_call s name = (s', r) \<Longrightarrow> mqueue_step (s, tasks) (s', tasks)"
| mq_step_close: "mqueue_close_handle s handle = (s', closed) \<Longrightarrow> mqueue_step (s, tasks) (s', tasks)"
| mq_step_notify: "mqueue_notify_call s handle v = (s', r) \<Longrightarrow> mqueue_step (s, tasks) (s', tasks)"
| mq_step_send: "mqueue_send_call wake_blocked alloc st handle bytes priority = Some (st', r) \<Longrightarrow> mqueue_step st st'"
| mq_step_receive: "mqueue_receive_call wake_blocked st handle buffer_len = Some (st', r') \<Longrightarrow> mqueue_step st st'"
| mq_step_wait: "mqueue_wait_enter env st handle kind deadline = (st', wr) \<Longrightarrow> mqueue_step st st'"
| mq_step_resume: "mqueue_wait_resume env st tid scheduler_thread = (st', rr) \<Longrightarrow> mqueue_step st st'"
| mq_step_tick: "mqueue_on_timer_tick wake_blocked cpu now st = Some st' \<Longrightarrow> mqueue_step st st'"
| mq_step_signal: "mqueue_interrupt_task wake_blocked st tid scheduler_thread = (st', b) \<Longrightarrow> mqueue_step st st'"
| mq_step_remove: "mqueue_step (s, tasks) (fst (mqueue_remove_task s tid scheduler_thread), tasks)"
| mq_step_reset: "mqueue_step (s, tasks) (mqueue_reset s, tasks)"
| mq_step_tasks: "mqueue_step (s, tasks) (s, tasks')"

subsection \<open>Runs of the runtime\<close>

lemma mqueue_timer_loop_returns:
  "mqueue_ok Q H (fst st) \<Longrightarrow> \<exists>st'. mqueue_timer_loop wake now st = Some st' \<and> mqueue_ok Q H (fst st')
     \<and> ms_queues (fst st') = ms_queues (fst st)
     \<and> (\<forall>w\<in>set (flatten (ms_waiters (fst st'))). \<not> mw_expired now w)"
proof (induction wake now st rule: mqueue_timer_loop.induct)
  case (1 wake now s tasks)
  show ?case
  proof (cases rule: mqueue_expire_one_cases [of s now])
    case none
    then show ?thesis using 1(2) by (simp add: mqueue_timer_loop.simps [of wake now s tasks])
  next
    case (one i w)
    let ?s = "s\<lparr>ms_waiters := (ms_waiters s)[i := Some (mw_timed_out w)]\<rparr>"
    let ?t = "mqueue_wake_identity wake (Some (mw_identity w)) tasks"
    have ok: "mqueue_ok Q H ?s" using mqueue_ok_replace [of Q H s i w "mw_timed_out w"] one(2,3) 1(2) by (simp add: mw_timed_out_def)
    have eq: "mqueue_timer_loop wake now (s, tasks) = mqueue_timer_loop wake now (?s, ?t)"
      using one(1) by (simp add: mqueue_timer_loop.simps [of wake now s tasks])
    show ?thesis unfolding eq using 1(1) [OF one(1) refl refl] ok by simp
  qed
qed

lemma mqueue_send_call_ok:
  assumes "mqueue_ok Q H (fst st)"
  shows "\<exists>st' r. mqueue_send_call wake alloc st h bytes p = Some (st', r) \<and> mqueue_ok Q H (fst st')"
proof -
  obtain s' r where "mqueue_send alloc (fst st) h bytes p = Some (s', r)" "mqueue_ok Q H s'"
    by (rule mqueue_send_ok [OF assms])
  then show ?thesis by (cases r) (simp_all add: mqueue_send_call_def)
qed

lemma mqueue_receive_call_ok:
  assumes "mqueue_ok Q H (fst st)"
  shows "\<exists>st' r. mqueue_receive_call wake st h len = Some (st', r) \<and> mqueue_ok Q H (fst st')"
proof -
  obtain s' r where "mqueue_receive (fst st) h len = Some (s', r)" "mqueue_ok Q H s'"
    by (rule mqueue_receive_ok [OF assms])
  then show ?thesis by (cases r) (simp_all add: mqueue_receive_call_def)
qed

lemma mqueue_wait_enter_ok:
  assumes "mqueue_ok Q H (fst st)"
  shows "mqueue_ok Q H (fst (fst (mqueue_wait_enter env st h kind deadline)))"
proof -
  have p: "mqueue_ok Q H s" if "mqueue_push_waiter (fst st) h kind tid (me_thread env) deadline = (s, r)" for tid s r
    using mqueue_push_waiter_ok [OF assms, of h kind tid "me_thread env" deadline] that by simp
  show ?thesis using assms
    by (auto simp: mqueue_wait_enter_def p mqueue_remove_task_ok Let_def
        split: option.splits sum.splits prod.splits bool.splits)
qed

lemma mqueue_wait_resume_ok:
  assumes "mqueue_ok Q H (fst st)"
  shows "mqueue_ok Q H (fst (fst (mqueue_wait_resume env st tid th)))"
proof -
  obtain s r where t: "mqueue_take_outcome (fst st) tid th = (s, r)" by fastforce
  then have "mqueue_ok Q H s" using mqueue_take_outcome_ok [OF assms, of tid th] by simp
  then show ?thesis using t by (cases r) (simp_all add: mqueue_wait_resume_def mqueue_remove_task_ok)
qed

lemma mqueue_interrupt_task_ok:
  assumes "mqueue_ok Q H (fst st)"
  shows "mqueue_ok Q H (fst (fst (mqueue_interrupt_task wake st tid th)))"
proof -
  obtain s b where i: "mqueue_interrupt (fst st) tid th = (s, b)" by fastforce
  then have "mqueue_ok Q H s" using mqueue_interrupt_ok [OF assms, of tid th] by simp
  then show ?thesis using i by (simp add: mqueue_interrupt_task_def mqueue_take_outcome_ok split: prod.split)
qed

lemma mqueue_step_ok:
  "mqueue_step st st' \<Longrightarrow> mqueue_ok LINUX_MQUEUE_LIMIT LINUX_MQUEUE_HANDLE_LIMIT (fst st)
   \<Longrightarrow> mqueue_ok LINUX_MQUEUE_LIMIT LINUX_MQUEUE_HANDLE_LIMIT (fst st')"
proof (induction rule: mqueue_step.induct)
  case (mq_step_open alloc s name handle create exclusive attr s' r tasks)
  then show ?case
    using mqueue_open_ok [of LINUX_MQUEUE_LIMIT LINUX_MQUEUE_HANDLE_LIMIT s alloc name handle create exclusive attr]
    by (auto simp: mqueue_open_named_def map_prod_def split: prod.splits)
next
  case (mq_step_unlink s name s' r tasks)
  then show ?case using mqueue_unlink_ok [of _ _ s name] by (auto simp: mqueue_unlink_call_def map_prod_def split: prod.splits)
next
  case (mq_step_close s handle s' closed tasks)
  then show ?case using mqueue_close_ok [of _ _ s handle] by simp
next
  case (mq_step_notify s handle v s' r tasks)
  then show ?case using mqueue_notify_ok [of _ _ s handle v] by (auto simp: mqueue_notify_call_def map_prod_def split: prod.splits)
next
  case (mq_step_send wake alloc st handle bytes priority st' r)
  then show ?case using mqueue_send_call_ok [OF mq_step_send.prems, of wake alloc handle bytes priority] by auto
next
  case (mq_step_receive wake st handle len st' r)
  then show ?case using mqueue_receive_call_ok [OF mq_step_receive.prems, of wake handle len] by auto
next
  case (mq_step_wait env st handle kind deadline st' wr)
  then show ?case using mqueue_wait_enter_ok [OF mq_step_wait.prems, of env handle kind deadline] by simp
next
  case (mq_step_resume env st tid th st' rr)
  then show ?case using mqueue_wait_resume_ok [OF mq_step_resume.prems, of env tid th] by simp
next
  case (mq_step_tick wake cpu now st st')
  then show ?case using mqueue_timer_loop_returns [OF mq_step_tick.prems, of wake now]
    by (auto simp: mqueue_on_timer_tick_def split: if_splits)
next
  case (mq_step_signal wake st tid th st' b)
  then show ?case using mqueue_interrupt_task_ok [OF mq_step_signal.prems, of wake tid th] by simp
qed (simp_all add: mqueue_remove_task_ok mqueue_reset_ok)

lemma mqueue_run_ok:
  assumes "mqueue_step\<^sup>*\<^sup>* (mqueue_new W, tasks) st"
  shows "mqueue_ok LINUX_MQUEUE_LIMIT LINUX_MQUEUE_HANDLE_LIMIT (fst st)"
  using assms by (induction rule: rtranclp_induct) (auto intro: mqueue_step_ok mqueue_new_ok)

subsection \<open>Views of the queues\<close>

text \<open>What the holder of a handle can see of its queue: the messages in the order of their receipt.\<close>

definition mqueue_view :: "LinuxMqueueState \<Rightarrow> u32 \<Rightarrow> LinuxMqueueMessage list option" where
  "mqueue_view s handle = map_option (\<lambda>q. mq_contents (mq_messages q)) (queue_by_handle s handle)"

lemma queue_index_update:
  assumes "ms_queues s' = (ms_queues s)[n := q]" "n < length (ms_queues s)" "mq_handles q = mq_handles (ms_queues s ! n)"
  shows "queue_index_by_handle s' g = queue_index_by_handle s g"
  unfolding queue_index_by_handle_def assms(1) by (rule position_update) (simp_all add: assms)

lemma mqueue_view_index:
  "mqueue_view s g = map_option (\<lambda>n. mq_contents (mq_messages (ms_queues s ! n))) (queue_index_by_handle s g)"
  using queue_index_handleD [of s g] by (auto simp: mqueue_view_def queue_by_handle_def split: option.splits)

lemma mqueue_view_update:
  assumes "ms_queues s' = (ms_queues s)[n := q]" "n < length (ms_queues s)" "mq_handles q = mq_handles (ms_queues s ! n)"
  shows "mqueue_view s' g = (if queue_index_by_handle s g = Some n then Some (mq_contents (mq_messages q)) else mqueue_view s g)"
  by (cases "queue_index_by_handle s g") (use assms in \<open>auto simp: mqueue_view_index queue_index_update [OF assms]\<close>)

subsection \<open>The queue of POSIX\<close>

text \<open>
  What \<open>mq_send\<close> and \<open>mq_receive\<close> promise for the messages of one queue, listed in the order of
  their receipt.
\<close>

definition posix_mq_send ::
  "LinuxMqueueAttr \<Rightarrow> LinuxMqueueMessage \<Rightarrow> LinuxMqueueMessage list \<Rightarrow> LinuxMqueueError + LinuxMqueueMessage list" where
  "posix_mq_send attr m ms =
     (if LINUX_MQ_PRIO_MAX \<le> mm_priority m then Inl MqInvalid
      else if unat (ma_msgsize attr) < length (mm_bytes m) then Inl MqMessageTooLarge
      else if unat (ma_maxmsg attr) \<le> length ms then Inl MqWouldBlock
      else Inr (pq_insert m ms))"

definition posix_mq_receive ::
  "LinuxMqueueAttr \<Rightarrow> usize \<Rightarrow> LinuxMqueueMessage list
     \<Rightarrow> LinuxMqueueError + LinuxMqueueMessage \<times> LinuxMqueueMessage list" where
  "posix_mq_receive attr buffer_len ms =
     (if buffer_len < ma_msgsize attr then Inl MqMessageTooLarge
      else case ms of [] \<Rightarrow> Inl MqWouldBlock | m # rest \<Rightarrow> Inr (m, rest))"

lemma length_mq_contents [simp]: "length (mq_contents ms) = length ms"
  by (simp add: mq_contents_def)

lemma queue_by_handle_index:
  "queue_index_by_handle s h = Some n \<Longrightarrow> queue_by_handle s h = Some (ms_queues s ! n)"
  by (auto simp: queue_by_handle_def dest: queue_index_handleD)

lemma queue_by_handle_None: "queue_index_by_handle s h = None \<Longrightarrow> queue_by_handle s h = None"
  by (simp add: queue_by_handle_def)

lemma queue_stamps:
  assumes "mqueue_ok Q H s" "n < length (ms_queues s)"
  shows "distinct (map qm_sequence (mq_messages (ms_queues s ! n)))"
    "\<not> ms_message_sequence_exhausted s \<Longrightarrow> m \<in> set (mq_messages (ms_queues s ! n)) \<Longrightarrow> qm_sequence m < ms_next_message_sequence s"
  using mqueue_okD [OF assms] stamped_distinct [of qm_sequence _ "map Some (mq_messages (ms_queues s ! n))"]
    stamped_below [of qm_sequence _ "map Some (mq_messages (ms_queues s ! n))" m]
  by (auto simp: queue_ok_def bound_of_def)

lemma mqueue_send_view:
  assumes "mqueue_ok Q H s" "mqueue_send alloc s h bytes p = Some (s', Inr out)" "queue_index_by_handle s h = Some n"
  shows "mqueue_view s' g =
    (if queue_index_by_handle s g = Some n
     then Some (pq_insert \<lparr>mm_bytes = bytes, mm_priority = p\<rparr> (mq_contents (mq_messages (ms_queues s ! n))))
     else mqueue_view s g)"
  using assms(1)
proof (cases rule: mqueue_send_cases [where alloc = alloc and h = h and bytes = bytes and p = p])
  case (failed e)
  then show ?thesis using assms(2) by simp
next
  case (stored n' s1 r)
  have n: "n' = n" "n < length (ms_queues s)" using stored(1) assms(3) by (auto dest: queue_index_handleD)
  let ?q = "ms_queues s ! n" and ?m = "\<lparr>mm_bytes = bytes, mm_priority = p\<rparr>"
  let ?x = "\<lparr>qm_message = ?m, qm_sequence = ms_next_message_sequence s\<rparr>"
  have s1: "ms_queues s1 = (ms_queues s)[n := ?q\<lparr>mq_messages := mq_messages ?q @ [?x]\<rparr>]"
    using stored(10) n by (simp add: mqueue_store_def put_queue_def Let_def)
  have "ms_queues s' = ms_queues s1 \<or> ms_queues s' = (ms_queues s1)[n := (ms_queues s1 ! n)\<lparr>mq_notification := None\<rparr>]"
    using stored(11) assms(2) n(1) by (auto simp: put_queue_def split: if_splits)
  then obtain q where q: "ms_queues s' = (ms_queues s)[n := q]" "mq_handles q = mq_handles ?q" "mq_messages q = mq_messages ?q @ [?x]"
    using s1 n(2) by fastforce
  have "mq_contents (mq_messages q) = pq_insert ?m (mq_contents (mq_messages ?q))"
    unfolding q(3) using queue_stamps [OF assms(1) n(2)] stored(6) mq_contents_send [of "mq_messages ?q" ?x] by simp
  then show ?thesis using mqueue_view_update [OF q(1) n(2) q(2)] by simp
qed

lemma mqueue_receive_view:
  assumes "mqueue_ok Q H s" "mqueue_receive s h len = Some (s', Inr out)" "queue_index_by_handle s h = Some n"
  obtains rest where "mq_contents (mq_messages (ms_queues s ! n)) = ro_message out # rest"
    "\<forall>g. mqueue_view s' g = (if queue_index_by_handle s g = Some n then Some rest else mqueue_view s g)"
  using assms(1)
proof (cases rule: mqueue_receive_cases [where h = h and len = len])
  case (failed e)
  then show ?thesis using assms(2) by simp
next
  case (taken n' i s1 r)
  have n: "n' = n" "n < length (ms_queues s)" using taken(1) assms(3) by (auto dest: queue_index_handleD)
  let ?q = "ms_queues s ! n"
  have out: "s' = s1" "ro_message out = qm_message (mq_messages ?q ! i)" using taken(7) assms(2) n(1) by auto
  have "mq_contents (mq_messages ?q) = ro_message out # mq_contents (swap_remove (mq_messages ?q) i)"
    using mq_contents_receive [OF queue_stamps(1) [OF assms(1) n(2)]] taken(3) n(1) out(2) by simp
  moreover have "mqueue_view s' g = (if queue_index_by_handle s g = Some n
      then Some (mq_contents (swap_remove (mq_messages ?q) i)) else mqueue_view s g)" for g
    using mqueue_view_update [OF taken(5) [unfolded n(1)] n(2), of g] out(1) by simp
  ultimately show thesis using that by blast
qed

lemma mqueue_wake_one_by_age:
  assumes "distinct (map mw_sequence (flatten (ms_waiters s)))"
  shows "mqueue_wake_one s queue_id kind =
    (case by_age mw_sequence (mw_wakes queue_id kind) (ms_waiters s) of
       [] \<Rightarrow> Some (s, None)
     | w # _ \<Rightarrow> Some (s\<lparr>ms_waiters := map (map_option (\<lambda>v. if v = w then mw_woken v else v)) (ms_waiters s)\<rparr>,
                    Some (mw_identity w)))"
proof (cases "oldest_waiter_index (ms_waiters s) (mw_wakes queue_id kind)")
  case None
  have "by_age mw_sequence (mw_wakes queue_id kind) (ms_waiters s) = []"
    using mqueue_wake.oldest_NoneD [OF None] set_by_age [of mw_sequence "mw_wakes queue_id kind" "ms_waiters s"]
    by (metis (no_types, lifting) Collect_empty_eq set_empty)
  then show ?thesis using None by (simp add: mqueue_wake_one_def)
next
  case (Some i)
  from Some obtain w where w: "i < length (ms_waiters s)" "ms_waiters s ! i = Some w" "mw_wakes queue_id kind w"
    "\<forall>v\<in>set (flatten (ms_waiters s)). mw_wakes queue_id kind v \<longrightarrow> mw_sequence w \<le> mw_sequence v"
    by (rule mqueue_wake.oldest_SomeD)
  have age: "by_age mw_sequence (mw_wakes queue_id kind) (ms_waiters s)
      = w # by_age mw_sequence (mw_wakes queue_id kind) ((ms_waiters s)[i := Some (mw_woken w)])"
    by (rule by_age_serve [OF assms w]) (simp add: mqueue_wake.mark_done)
  have "(ms_waiters s)[i := Some (mw_woken w)] = map (map_option (\<lambda>v. if v = w then mw_woken v else v)) (ms_waiters s)"
  proof (rule nth_equalityI)
    fix j assume j: "j < length ((ms_waiters s)[i := Some (mw_woken w)])"
    have "v \<noteq> w" if "ms_waiters s ! j = Some v" "j \<noteq> i" for v
      using distinct_flatten_nth [OF assms w(1) _ w(2) that(1)] that j by auto
    then show "(ms_waiters s)[i := Some (mw_woken w)] ! j
        = map (map_option (\<lambda>v. if v = w then mw_woken v else v)) (ms_waiters s) ! j"
      using j w(2) by (cases "ms_waiters s ! j"; cases "j = i") auto
  qed simp
  then show ?thesis using Some w(2) age by (simp add: mqueue_wake_one_def)
qed

lemma mq_contents_Nil [simp]: "mq_contents ms = [] \<longleftrightarrow> ms = []"
  by (metis length_0_conv length_mq_contents)

lemma mqueue_send_refine_aux:
  assumes "mqueue_ok Q H s" "alloc" "\<not> ms_message_sequence_exhausted s" "queue_index_by_handle s h = Some n"
    "posix_mq_send (mq_attr (ms_queues s ! n)) \<lparr>mm_bytes = bytes, mm_priority = p\<rparr> (mq_contents (mq_messages (ms_queues s ! n)))
       = Inr ms"
  obtains s' out where "mqueue_send alloc s h bytes p = Some (s', Inr out)"
  using assms(1)
proof (cases rule: mqueue_send_cases [where alloc = alloc and h = h and bytes = bytes and p = p])
  case (failed e)
  have False
    using failed assms(2-5)
    by (auto simp: mqueue_send_def posix_mq_send_def Let_def split: if_splits option.splits)
  then show thesis ..
next
  case (stored n' s1 r)
  show thesis using stored(11) that by (cases "mq_messages (ms_queues s ! n') = [] \<and> r = None") simp_all
qed

subsection \<open>Properties\<close>

text \<open>
  C21: Sending is insertion into the priority queue of POSIX.  While the allocator grants the
  storage and message numbers last, a send fails exactly as POSIX asks (bad descriptor,
  priority out of range, message too long, queue full) and then changes nothing; otherwise it
  succeeds, every handle of the queue then sees the new message behind the messages of at
  least its priority and before those of lower priority, and all other queues are as before.
\<close>

theorem mqueue_send_refines:
  assumes "mqueue_ok Q H s" "alloc" "\<not> ms_message_sequence_exhausted s"
  shows "\<exists>s' r. mqueue_send alloc s handle bytes priority = Some (s', r)
    \<and> (case queue_by_handle s handle of
         None \<Rightarrow> r = Inl MqBadDescriptor \<and> s' = s
       | Some q \<Rightarrow>
           (case posix_mq_send (mq_attr q) \<lparr>mm_bytes = bytes, mm_priority = priority\<rparr> (mq_contents (mq_messages q)) of
              Inl e \<Rightarrow> r = Inl e \<and> s' = s
            | Inr ms \<Rightarrow> \<not> isl r
                \<and> (\<forall>other. mqueue_view s' other =
                     (if queue_index_by_handle s other = queue_index_by_handle s handle then Some ms
                      else mqueue_view s other))))"
proof (cases "queue_index_by_handle s handle")
  case None
  then show ?thesis by (simp add: queue_by_handle_None mqueue_send_def)
next
  case (Some n)
  note q = queue_by_handle_index [OF Some]
  let ?m = "\<lparr>mm_bytes = bytes, mm_priority = priority\<rparr>" and ?q = "ms_queues s ! n"
  show ?thesis
  proof (cases "posix_mq_send (mq_attr ?q) ?m (mq_contents (mq_messages ?q))")
    case (Inl e)
    then have "mqueue_send alloc s handle bytes priority = Some (s, Inl e)"
      using Some by (auto simp: mqueue_send_def posix_mq_send_def split: if_splits)
    then show ?thesis using q Inl by simp
  next
    case (Inr ms)
    obtain s' out where sent: "mqueue_send alloc s handle bytes priority = Some (s', Inr out)"
      by (rule mqueue_send_refine_aux [OF assms Some Inr])
    have "ms = pq_insert ?m (mq_contents (mq_messages ?q))" using Inr by (simp add: posix_mq_send_def split: if_splits)
    then show ?thesis using sent q Inr mqueue_send_view [OF assms(1) sent Some] Some by simp
  qed
qed

text \<open>
  C3: Receiving takes the head of the priority queue of POSIX: a receive fails exactly for a
  bad descriptor, a buffer shorter than the message size of the queue, or an empty queue, and
  then changes nothing; otherwise it returns the oldest message of the highest priority, every
  handle of the queue then sees the remaining messages, and all other queues are as before.
\<close>

theorem mqueue_receive_refines:
  assumes "mqueue_ok Q H s"
  shows "\<exists>s' r. mqueue_receive s handle buffer_len = Some (s', r)
    \<and> (case queue_by_handle s handle of
         None \<Rightarrow> r = Inl MqBadDescriptor \<and> s' = s
       | Some q \<Rightarrow>
           (case posix_mq_receive (mq_attr q) buffer_len (mq_contents (mq_messages q)) of
              Inl e \<Rightarrow> r = Inl e \<and> s' = s
            | Inr (m, rest) \<Rightarrow> (\<exists>sender. r = Inr \<lparr>ro_message = m, ro_sender = sender\<rparr>)
                \<and> (\<forall>other. mqueue_view s' other =
                     (if queue_index_by_handle s other = queue_index_by_handle s handle then Some rest
                      else mqueue_view s other))))"
proof (cases "queue_index_by_handle s handle")
  case None
  then show ?thesis by (simp add: queue_by_handle_None mqueue_receive_def)
next
  case (Some n)
  note q = queue_by_handle_index [OF Some]
  let ?q = "ms_queues s ! n"
  have best: "is_best (mq_messages ?q) (best_message_index s n)" by (rule best_message_best)
  show ?thesis
  proof (cases "posix_mq_receive (mq_attr ?q) buffer_len (mq_contents (mq_messages ?q))")
    case (Inl e)
    then have "mqueue_receive s handle buffer_len = Some (s, Inl e)"
      using Some best by (auto simp: mqueue_receive_def posix_mq_receive_def is_best_def Let_def
          split: if_splits list.splits option.splits)
    then show ?thesis using q Inl by simp
  next
    case (Inr x)
    then have ne: "\<not> buffer_len < ma_msgsize (mq_attr ?q)" "mq_messages ?q \<noteq> []"
      by (auto simp: posix_mq_receive_def simp flip: mq_contents_Nil split: if_splits list.splits)
    obtain s' r where r: "mqueue_receive s handle buffer_len = Some (s', r)" by (rule mqueue_receive_ok [OF assms])
    then obtain out where out: "r = Inr out"
      using Some ne best by (auto simp: mqueue_receive_def is_best_def Let_def split: option.splits)
    obtain rest where rest: "mq_contents (mq_messages ?q) = ro_message out # rest"
      "\<forall>g. mqueue_view s' g = (if queue_index_by_handle s g = Some n then Some rest else mqueue_view s g)"
      by (rule mqueue_receive_view [OF assms r [unfolded out] Some])
    have "x = (ro_message out, rest)" using Inr rest(1) ne by (simp add: posix_mq_receive_def)
    moreover have "\<exists>sender. out = \<lparr>ro_message = ro_message out, ro_sender = sender\<rparr>" by (cases out) simp
    ultimately show ?thesis using r out q Inr rest(2) Some by auto
  qed
qed

text \<open>
  A message that arrives wakes exactly one blocked receiver of its queue, the one that has
  waited longest, and no other waiter changes.  Only when no receiver is blocked and the queue
  was empty is the registered notification handed out, and it is handed out once: it is gone
  from the queue afterwards.
\<close>

theorem mqueue_send_wakes_oldest:
  assumes "mqueue_ok Q H s" "mqueue_send alloc s handle bytes priority = Some (s', Inr out)"
    "queue_by_handle s handle = Some q"
  shows "case by_age mw_sequence (mw_wakes (mq_id q) MqReceive) (ms_waiters s) of
      [] \<Rightarrow> so_receiver out = None \<and> ms_waiters s' = ms_waiters s
        \<and> (if mq_messages q = []
           then so_notification out = mq_notification q \<and> map_option mq_notification (queue_by_handle s' handle) = Some None
           else so_notification out = None)
    | w # _ \<Rightarrow> so_receiver out = Some (mw_identity w) \<and> so_notification out = None
        \<and> ms_waiters s' = map (map_option (\<lambda>v. if v = w then mw_woken v else v)) (ms_waiters s)"
  using assms(1)
proof (cases rule: mqueue_send_cases [where alloc = alloc and h = handle and bytes = bytes and p = priority])
  case (failed e)
  then show ?thesis using assms(2) by simp
next
  case (stored n s1 r)
  have q: "q = ms_queues s ! n" using assms(3) queue_by_handle_index [OF stored(1)] by simp
  have n: "n < length (ms_queues s)" "n < length (ms_queues s1)"
    using queue_index_handleD [OF stored(1)] stored(10) by (simp_all add: mqueue_store_def put_queue_def)
  have ws: "ms_waiters (mqueue_store s n m) = ms_waiters s" for m by (simp add: mqueue_store_def put_queue_def)
  have d: "distinct (map mw_sequence (flatten (ms_waiters s)))"
    using assms(1) stamped_distinct [of mw_sequence _ "ms_waiters s"] by (auto simp: mqueue_ok_def)
  note wake = mqueue_wake_one_by_age [of "mqueue_store s n _", unfolded ws, OF d]
  show ?thesis
  proof (cases "by_age mw_sequence (mw_wakes (mq_id q) MqReceive) (ms_waiters s)")
    case (Cons w rest)
    then show ?thesis using stored(8,11) assms(2) wake [where queue_id = "mq_id q" and kind = MqReceive] q by auto
  next
    case Nil
    have r: "r = None" "ms_waiters s1 = ms_waiters s"
      using stored(8) wake [where queue_id = "mq_id q" and kind = MqReceive] q Nil ws by auto
    show ?thesis
    proof (cases "mq_messages q = []")
      case True
      then have s': "s' = put_queue s1 n ((ms_queues s1 ! n)\<lparr>mq_notification := None\<rparr>)" "so_receiver out = None"
        "so_notification out = mq_notification q"
        using stored(11) assms(2) q r by simp_all
      have "mq_handles (ms_queues s1 ! n) = mq_handles (ms_queues s ! n)" "ms_queues s1 = (ms_queues s)[n := ms_queues s1 ! n]"
        unfolding stored(10) using n(1) by (simp_all add: mqueue_store_def put_queue_def Let_def)
      then have "queue_index_by_handle s1 handle = Some n" using queue_index_update [of s1 s n] n(1) stored(1) by simp
      then have "queue_index_by_handle s' handle = Some n"
        using queue_index_update [of s' s1 n "(ms_queues s1 ! n)\<lparr>mq_notification := None\<rparr>"] n(2) s'(1)
        by (simp add: put_queue_def)
      then have "queue_by_handle s' handle = Some (ms_queues s' ! n)" by (rule queue_by_handle_index)
      then show ?thesis using Nil r s' n(2) True by (simp add: put_queue_def)
    next
      case False
      then show ?thesis using stored(11) assms(2) q r Nil by simp
    qed
  qed
qed

text \<open>
  C11: In every run of the message-queue runtime the tables stay well formed (queues, names,
  handles and sequence numbers are distinct, sizes and priorities are within their limits,
  every waiter belongs to a live queue), sends, receives and timer ticks never hit a panic,
  and the tick of the first processor ends with no waiter left whose deadline has passed.
\<close>

theorem mqueue_runtime_safe:
  assumes "mqueue_step\<^sup>*\<^sup>* (mqueue_new W, tasks) st"
  shows "mqueue_ok LINUX_MQUEUE_LIMIT LINUX_MQUEUE_HANDLE_LIMIT (fst st)
    \<and> mqueue_send_call wake_blocked alloc st handle bytes priority \<noteq> None
    \<and> mqueue_receive_call wake_blocked st handle buffer_len \<noteq> None
    \<and> (\<exists>st'. mqueue_on_timer_tick wake_blocked 0 now st = Some st'
         \<and> list_all (\<lambda>w. \<not> mw_expired now w) (flatten (ms_waiters (fst st'))))"
proof -
  have ok: "mqueue_ok LINUX_MQUEUE_LIMIT LINUX_MQUEUE_HANDLE_LIMIT (fst st)" by (rule mqueue_run_ok [OF assms])
  show ?thesis
    using ok mqueue_send_call_ok [OF ok, of wake_blocked alloc handle bytes priority]
      mqueue_receive_call_ok [OF ok, of wake_blocked handle buffer_len] mqueue_timer_loop_returns [OF ok, of wake_blocked now]
    by (auto simp: mqueue_on_timer_tick_def list_all_iff)
qed

text \<open>
  Closing the last handle of an unlinked queue forgets the tasks blocked on it: their entries
  are gone although nothing made them runnable, so no later wake-up or deadline reaches them.
\<close>

theorem mqueue_close_forgets_waiters:
  assumes "queue_index_by_handle s handle = Some n" "mq_handles (ms_queues s ! n) = [handle]" "mq_name (ms_queues s ! n) = None"
  shows "flatten (ms_waiters (fst (mqueue_close_handle s handle)))
    = filter (\<lambda>w. mw_queue_id w \<noteq> mq_id (ms_queues s ! n)) (flatten (ms_waiters s))"
proof -
  have n: "n < length (ms_queues s)" using queue_index_handleD [OF assms(1)] by simp
  have dead: "drop_if_dead (put_queue s n q) n = fst (remove_queue_waiters
      (s\<lparr>ms_queues := swap_remove ((ms_queues s)[n := q]) n\<rparr>) (mq_id (ms_queues s ! n)))"
    if "mq_handles q = []" "mq_name q = None" "mq_id q = mq_id (ms_queues s ! n)" for q
    using that n by (simp add: drop_if_dead_def put_queue_def)
  show ?thesis
    using assms by (auto simp: mqueue_close_handle_def Let_def dead swap_remove_def remove_queue_waiters_def flatten_remove
        split: option.splits)
qed

subsection \<open>Concrete instances\<close>

text \<open>Two handles of one queue with three messages, and two tasks blocked in a receive.\<close>

definition example_mqueue :: LinuxMqueueState where
  "example_mqueue =
     \<lparr>ms_queues =
        [\<lparr>mq_id = 1, mq_name = Some ''q'', mq_handles = [5, 6],
          mq_attr = \<lparr>ma_flags = 0, ma_maxmsg = 4, ma_msgsize = 16, ma_curmsgs = 0\<rparr>,
          mq_messages =
            [\<lparr>qm_message = \<lparr>mm_bytes = [1], mm_priority = 1\<rparr>, qm_sequence = 0\<rparr>,
             \<lparr>qm_message = \<lparr>mm_bytes = [2], mm_priority = 3\<rparr>, qm_sequence = 1\<rparr>,
             \<lparr>qm_message = \<lparr>mm_bytes = [3], mm_priority = 3\<rparr>, qm_sequence = 2\<rparr>],
          mq_notification = None\<rparr>],
      ms_waiters =
        [Some \<lparr>mw_queue_id = 1, mw_kind = MqReceive, mw_tid = 8, mw_scheduler_thread = 18, mw_deadline = None,
               mw_sequence = 1, mw_outcome = MqWaiting\<rparr>,
         None,
         Some \<lparr>mw_queue_id = 1, mw_kind = MqReceive, mw_tid = 7, mw_scheduler_thread = 17, mw_deadline = None,
               mw_sequence = 0, mw_outcome = MqWaiting\<rparr>],
      ms_next_queue_id = 2, ms_next_message_sequence = 3, ms_next_waiter_sequence = 2,
      ms_queue_id_exhausted = False, ms_message_sequence_exhausted = False, ms_waiter_sequence_exhausted = False\<rparr>"

lemma example_mqueue_ok: "mqueue_ok 4 4 example_mqueue"
  by code_simp

theorem mqueue_send_refines_witness:
  "\<exists>s' r. mqueue_send True example_mqueue 5 [9] 2 = Some (s', r)
     \<and> map_option (map mm_bytes) (mqueue_view s' 6) = Some [[2], [3], [9], [1]]"
proof -
  let ?q = "ms_queues example_mqueue ! 0" and ?m = "\<lparr>mm_bytes = [9], mm_priority = 2\<rparr>"
  let ?ms = "pq_insert ?m (mq_contents (mq_messages ?q))"
  have live: "\<not> ms_message_sequence_exhausted example_mqueue" by code_simp
  have q: "queue_by_handle example_mqueue 5 = Some ?q" by code_simp
  have p: "posix_mq_send (mq_attr ?q) ?m (mq_contents (mq_messages ?q)) = Inr ?ms" by code_simp
  have i: "queue_index_by_handle example_mqueue 6 = queue_index_by_handle example_mqueue 5" by code_simp
  have ms: "map mm_bytes ?ms = [[2], [3], [9], [1]]" by code_simp
  from mqueue_send_refines [OF example_mqueue_ok TrueI live, of 5 "[9]" 2]
  obtain s' r where "mqueue_send True example_mqueue 5 [9] 2 = Some (s', r)" "mqueue_view s' 6 = Some ?ms"
    unfolding q option.case p sum.case using i by metis
  then show ?thesis using ms by auto
qed

theorem mqueue_receive_refines_witness:
  "\<exists>s' out. mqueue_receive example_mqueue 6 16 = Some (s', Inr out) \<and> mm_bytes (ro_message out) = [2]"
proof -
  let ?q = "ms_queues example_mqueue ! 0"
  let ?m = "\<lparr>mm_bytes = [2], mm_priority = 3\<rparr>" and ?rest = "tl (mq_contents (mq_messages ?q))"
  have q: "queue_by_handle example_mqueue 6 = Some ?q" by code_simp
  have p: "posix_mq_receive (mq_attr ?q) 16 (mq_contents (mq_messages ?q)) = Inr (?m, ?rest)" by code_simp
  from mqueue_receive_refines [OF example_mqueue_ok, of 6 16]
  obtain s' sender where "mqueue_receive example_mqueue 6 16 = Some (s', Inr \<lparr>ro_message = ?m, ro_sender = sender\<rparr>)"
    unfolding q option.case p sum.case prod.case by blast
  then show ?thesis by force
qed

theorem mqueue_runtime_safe_witness:
  "\<exists>s. mqueue_open_named True (mqueue_new 3) ''/q'' 5 True False None = (s, Inr \<lparr>mo_created = True, mo_attr = mqueue_attr_defaults\<rparr>)
     \<and> mqueue_ok LINUX_MQUEUE_LIMIT LINUX_MQUEUE_HANDLE_LIMIT s
     \<and> mqueue_send_call (\<lambda>tid th tasks. (tasks, True)) True (s, ()) 5 [9] 2 \<noteq> None"
proof -
  let ?o = "mqueue_open_named True (mqueue_new 3) ''/q'' 5 True False None"
  have "snd ?o = Inr \<lparr>mo_created = True, mo_attr = mqueue_attr_defaults\<rparr>" by code_simp
  then have o: "?o = (fst ?o, Inr \<lparr>mo_created = True, mo_attr = mqueue_attr_defaults\<rparr>)" by (metis prod.collapse)
  have "mqueue_step\<^sup>*\<^sup>* (mqueue_new 3, ()) (fst ?o, ())"
    by (rule r_into_rtranclp) (rule mqueue_step.mq_step_open [OF o])
  from mqueue_runtime_safe [OF this, of "\<lambda>tid th tasks. (tasks, True)" True 5 "[9]" 2] show ?thesis using o by auto
qed

end
