(* ===== verification/Linux_Process.thy ===== *)
theory Linux_Process
  imports Linux_Wait
begin

text \<open>
  The process table (\<open>src/src/syscall/linux_process_logic_shared.rs\<close>): process identifiers and
  their life cycle from reservation to reaping, the wait statuses, the selection of a child by
  \<open>wait4\<close>, and the adoption of orphans by the launch reaper.

  The const generic parameter \<open>N\<close> is the length of the process array.  Closures that act on
  state outside the table are functions on a state of their own.

  \<open>reserve_child\<close>, \<open>publish\<close>, \<open>by_scheduler\<close>, \<open>select_waitable\<close>, \<open>wait_outcome\<close> and
  \<open>complete_linux_wait\<close> are compiled for the host only (\<open>cfg(not(target_os = "none"))\<close>); the kernel
  forks through \<open>reserve_child_with_pid\<close> and \<open>publish_fork\<close>.
\<close>

type_synonym i32 = "32 word"

subsection \<open>Data\<close>

definition LINUX_ROOT_PID :: usize where "LINUX_ROOT_PID = 1"
definition LINUX_LAUNCH_REAPER_PID :: usize where "LINUX_LAUNCH_REAPER_PID = - 1"
definition LINUX_MAX_PID :: usize where "LINUX_MAX_PID = 0x7fffffff"
definition LINUX_SIGCHLD :: usize where "LINUX_SIGCHLD = 17"
definition LINUX_WAIT_WNOHANG :: u32 where "LINUX_WAIT_WNOHANG = 1"
definition LINUX_WAIT_WUNTRACED :: u32 where "LINUX_WAIT_WUNTRACED = 2"

definition linux_wait_options_valid :: "u32 \<Rightarrow> bool" where
  "linux_wait_options_valid options = (options AND NOT (LINUX_WAIT_WNOHANG OR LINUX_WAIT_WUNTRACED) = 0)"

definition linux_child_exit_notification :: "usize \<Rightarrow> usize option" where
  "linux_child_exit_notification exit_signal = (if exit_signal = 0 then None else Some exit_signal)"

definition linux_visible_parent_pid :: "usize \<Rightarrow> usize \<Rightarrow> usize" where
  "linux_visible_parent_pid pid parent_pid =
     (if pid = LINUX_ROOT_PID then 0
      else if parent_pid = LINUX_LAUNCH_REAPER_PID then LINUX_ROOT_PID
      else parent_pid)"

datatype LinuxProcessState = PEmpty | PReserved | PPublishing | PRunning | PZombie

record LinuxProcessCore =
  pc_pid :: usize
  pc_parent_pid :: usize
  pc_process_group :: usize
  pc_root_scheduler_thread :: usize
  pc_state :: LinuxProcessState
  pc_wait_status :: i32
  pc_exit_signal :: usize

definition EMPTY_PROCESS :: LinuxProcessCore where
  "EMPTY_PROCESS =
     \<lparr>pc_pid = 0, pc_parent_pid = 0, pc_process_group = 0, pc_root_scheduler_thread = 0,
      pc_state = PEmpty, pc_wait_status = 0, pc_exit_signal = 0\<rparr>"

record LinuxProcessReservation =
  pr_slot :: nat
  pr_pid :: usize
  pr_parent_pid :: usize

datatype LinuxWaitSelector = WaitPid usize | WaitAny | WaitProcessGroup usize

datatype LinuxWaitOutcome = WaitReady usize i32 | WaitWouldBlock | WaitNoChildren

datatype LinuxSigchldExitPolicy = RetainZombieAndNotify | ReapAndNotify | ReapWithoutNotify

definition reap_immediately :: "LinuxSigchldExitPolicy \<Rightarrow> bool" where
  "reap_immediately policy = (policy = ReapAndNotify \<or> policy = ReapWithoutNotify)"

definition notify_parent :: "LinuxSigchldExitPolicy \<Rightarrow> bool" where
  "notify_parent policy = (policy = RetainZombieAndNotify \<or> policy = ReapAndNotify)"

record LinuxTerminalChildTransition =
  tt_parent_pid :: usize
  tt_notification_signal :: "usize option"

record LinuxChildStateTransition =
  cs_parent_pid :: usize
  cs_child_pid :: usize
  cs_status :: i32

definition apply_linux_terminal_child_transition ::
  "LinuxTerminalChildTransition \<Rightarrow> (usize \<Rightarrow> usize \<Rightarrow> 's \<Rightarrow> 's \<times> ('e + unit)) \<Rightarrow> (usize \<Rightarrow> 's \<Rightarrow> 's) \<Rightarrow> 's
     \<Rightarrow> 's \<times> ('e + unit)" where
  "apply_linux_terminal_child_transition transition notify wake_parent_waiters s =
     (let (s, notification) =
            (case tt_notification_signal transition of
               Some signum \<Rightarrow> notify (tt_parent_pid transition) signum s
             | None \<Rightarrow> (s, Inr ()))
      in (wake_parent_waiters (tt_parent_pid transition) s, notification))"

record ('a, 'p) LinuxProcessSignalStateCore =
  signal_actions :: "'a list"
  process_pending :: 'p

definition signal_state_new :: "nat \<Rightarrow> 'a \<Rightarrow> 'p \<Rightarrow> ('a, 'p) LinuxProcessSignalStateCore" where
  "signal_state_new N default_action empty_pending =
     \<lparr>signal_actions = replicate N default_action, process_pending = empty_pending\<rparr>"

definition signal_state_fork_child ::
  "('a, 'p) LinuxProcessSignalStateCore \<Rightarrow> 'p \<Rightarrow> ('a, 'p) LinuxProcessSignalStateCore" where
  "signal_state_fork_child s empty_pending =
     \<lparr>signal_actions = signal_actions s, process_pending = empty_pending\<rparr>"

definition prepare_linux_fork_task_signal_state ::
  "'s \<Rightarrow> u64 \<Rightarrow> ('s \<Rightarrow> 's) \<Rightarrow> ('s \<Rightarrow> u64 \<Rightarrow> 's) \<Rightarrow> 's" where
  "prepare_linux_fork_task_signal_state child_state parent_mask reset set_mask =
     set_mask (reset child_state) parent_mask"

datatype LinuxSignalDeliveryRoute = RouteIgnore | RouteTerminateProcess | RouteHandle

definition linux_signal_delivery_route :: "'d \<Rightarrow> 'd \<Rightarrow> 'd \<Rightarrow> LinuxSignalDeliveryRoute" where
  "linux_signal_delivery_route disposition ignored terminate =
     (if disposition = ignored then RouteIgnore
      else if disposition = terminate then RouteTerminateProcess
      else RouteHandle)"

text \<open>The first live task of the group that does not block the signal.\<close>

definition select_linux_process_signal_target ::
  "'t list \<Rightarrow> usize \<Rightarrow> u64 \<Rightarrow> ('t \<Rightarrow> bool) \<Rightarrow> ('t \<Rightarrow> usize) \<Rightarrow> (nat \<Rightarrow> u64) \<Rightarrow> 't option" where
  "select_linux_process_signal_target tasks target_tgid signal_bit is_live task_tgid signal_mask =
     (if signal_bit = 0 then None
      else map_option snd
        (List.find (\<lambda>(slot, task). is_live task \<and> task_tgid task = target_tgid \<and> signal_mask slot AND signal_bit = 0)
           (List.enumerate 0 tasks)))"

datatype LinuxProcessError = PrCapacity | PrDuplicateRoot | PrExhausted | PrNoSuchParent

subsection \<open>Wait statuses\<close>

definition linux_wait_status_exit :: "i32 \<Rightarrow> i32" where
  "linux_wait_status_exit code = push_bit 8 (code AND 0xff)"

definition linux_wait_status_signal :: "usize \<Rightarrow> bool \<Rightarrow> i32 option" where
  "linux_wait_status_signal signum core_dumped =
     (if 1 \<le> signum \<and> signum \<le> 127 then Some (ucast signum OR (if core_dumped then 0x80 else 0)) else None)"

definition linux_wait_status_stopped :: "usize \<Rightarrow> i32 option" where
  "linux_wait_status_stopped signum =
     (if 1 \<le> signum \<and> signum \<le> 127 then Some (push_bit 8 (ucast signum) OR 0x7f) else None)"

definition linux_wait_status_is_stopped :: "i32 \<Rightarrow> bool" where
  "linux_wait_status_is_stopped status = (status AND 0xff = 0x7f)"

definition linux_sigchld_exit_policy :: "bool \<Rightarrow> bool \<Rightarrow> LinuxSigchldExitPolicy" where
  "linux_sigchld_exit_policy sigchld_ignored no_child_wait =
     (if sigchld_ignored then ReapWithoutNotify
      else if no_child_wait then ReapAndNotify
      else RetainZombieAndNotify)"

definition linux_wait_selector :: "i32 \<Rightarrow> usize \<Rightarrow> LinuxWaitSelector option" where
  "linux_wait_selector pid current_process_group =
     (if 0 < sint pid then Some (WaitPid (of_int (sint pid)))
      else if sint pid = - 1 then Some WaitAny
      else if sint pid = 0 then Some (WaitProcessGroup current_process_group)
      else Some (WaitProcessGroup (of_int (- sint pid))))"

subsection \<open>The table\<close>

record LinuxProcessTable =
  pt_processes :: "LinuxProcessCore list"
  pt_next_pid :: usize
  pt_exhausted :: bool
  pt_launch_reaper :: bool

definition with_next_pid :: "nat \<Rightarrow> usize \<Rightarrow> LinuxProcessTable" where
  "with_next_pid N next_pid =
     \<lparr>pt_processes = replicate N EMPTY_PROCESS, pt_next_pid = next_pid, pt_exhausted = False,
      pt_launch_reaper = False\<rparr>"

definition process_table_new :: "nat \<Rightarrow> LinuxProcessTable" where
  "process_table_new N = with_next_pid N (LINUX_ROOT_PID + 1)"

definition is_visible :: "LinuxProcessCore \<Rightarrow> bool" where
  "is_visible process = (pc_state process = PRunning \<or> pc_state process = PZombie)"

definition selector_matches :: "LinuxProcessCore \<Rightarrow> LinuxWaitSelector \<Rightarrow> bool" where
  "selector_matches process selector =
     (case selector of
        WaitPid pid \<Rightarrow> pc_pid process = pid
      | WaitAny \<Rightarrow> True
      | WaitProcessGroup process_group \<Rightarrow> pc_process_group process = process_group)"

definition put_process :: "LinuxProcessTable \<Rightarrow> nat \<Rightarrow> LinuxProcessCore \<Rightarrow> LinuxProcessTable" where
  "put_process t slot process = t\<lparr>pt_processes := (pt_processes t)[slot := process]\<rparr>"

definition register_root ::
  "LinuxProcessTable \<Rightarrow> usize \<Rightarrow> LinuxProcessTable \<times> (LinuxProcessError + usize)" where
  "register_root t scheduler_thread =
     (if pt_launch_reaper t
         \<or> list_ex (\<lambda>process. pc_state process \<noteq> PEmpty \<and> pc_pid process = LINUX_ROOT_PID) (pt_processes t)
      then (t, Inl PrDuplicateRoot)
      else
        (case position (\<lambda>process. pc_state process = PEmpty) (pt_processes t) of
           None \<Rightarrow> (t, Inl PrCapacity)
         | Some slot \<Rightarrow>
             ((put_process t slot
                 \<lparr>pc_pid = LINUX_ROOT_PID, pc_parent_pid = 0, pc_process_group = LINUX_ROOT_PID,
                  pc_root_scheduler_thread = scheduler_thread, pc_state = PRunning, pc_wait_status = 0,
                  pc_exit_signal = 0\<rparr>)\<lparr>pt_launch_reaper := True\<rparr>,
              Inr LINUX_ROOT_PID)))"

definition reserve_child_with_pid ::
  "LinuxProcessTable \<Rightarrow> usize \<Rightarrow> usize \<Rightarrow> usize \<Rightarrow> usize
     \<Rightarrow> LinuxProcessTable \<times> (LinuxProcessError + LinuxProcessReservation)" where
  "reserve_child_with_pid t parent_pid scheduler_thread pid exit_signal =
     (case List.find (\<lambda>process. pc_pid process = parent_pid \<and> pc_state process = PRunning) (pt_processes t) of
        None \<Rightarrow> (t, Inl PrNoSuchParent)
      | Some parent \<Rightarrow>
          (case position (\<lambda>process. pc_state process = PEmpty) (pt_processes t) of
             None \<Rightarrow> (t, Inl PrCapacity)
           | Some slot \<Rightarrow>
               if \<not> (LINUX_ROOT_PID + 1 \<le> pid \<and> pid \<le> LINUX_MAX_PID)
                  \<or> list_ex (\<lambda>process. pc_state process \<noteq> PEmpty \<and> pc_pid process = pid) (pt_processes t)
               then (t, Inl PrExhausted)
               else
                 let t = (if pid = LINUX_MAX_PID then t\<lparr>pt_exhausted := True\<rparr>
                          else if pt_next_pid t \<le> pid then t\<lparr>pt_next_pid := pid + 1\<rparr>
                          else t)
                 in (put_process t slot
                       \<lparr>pc_pid = pid, pc_parent_pid = parent_pid, pc_process_group = pc_process_group parent,
                        pc_root_scheduler_thread = scheduler_thread, pc_state = PReserved, pc_wait_status = 0,
                        pc_exit_signal = exit_signal\<rparr>,
                     Inr \<lparr>pr_slot = slot, pr_pid = pid, pr_parent_pid = parent_pid\<rparr>)))"

definition reserve_child ::
  "LinuxProcessTable \<Rightarrow> usize \<Rightarrow> usize \<Rightarrow> LinuxProcessTable \<times> (LinuxProcessError + LinuxProcessReservation)" where
  "reserve_child t parent_pid scheduler_thread =
     (if pt_exhausted t \<or> \<not> (LINUX_ROOT_PID + 1 \<le> pt_next_pid t \<and> pt_next_pid t \<le> LINUX_MAX_PID)
      then (t\<lparr>pt_exhausted := True\<rparr>, Inl PrExhausted)
      else reserve_child_with_pid t parent_pid scheduler_thread (pt_next_pid t) 0)"

definition reservation_matches :: "LinuxProcessReservation \<Rightarrow> LinuxProcessCore \<Rightarrow> bool" where
  "reservation_matches r process = (pc_pid process = pr_pid r \<and> pc_parent_pid process = pr_parent_pid r)"

definition publish :: "LinuxProcessTable \<Rightarrow> LinuxProcessReservation \<Rightarrow> LinuxProcessTable \<times> bool" where
  "publish t r =
     (if \<not> pr_slot r < length (pt_processes t) then (t, False)
      else
        let process = pt_processes t ! pr_slot r
        in if pc_state process \<noteq> PReserved \<or> \<not> reservation_matches r process then (t, False)
           else (put_process t (pr_slot r) (process\<lparr>pc_state := PRunning\<rparr>), True))"

definition publish_fork :: "LinuxProcessTable \<Rightarrow> LinuxProcessReservation \<Rightarrow> LinuxProcessTable \<times> bool" where
  "publish_fork t r =
     (if \<not> pr_slot r < length (pt_processes t) then (t, False)
      else
        let process = pt_processes t ! pr_slot r
        in if pc_state process \<noteq> PReserved \<or> \<not> reservation_matches r process then (t, False)
           else (put_process t (pr_slot r) (process\<lparr>pc_state := PPublishing\<rparr>), True))"

definition complete_fork_publish :: "LinuxProcessTable \<Rightarrow> LinuxProcessReservation \<Rightarrow> LinuxProcessTable \<times> bool" where
  "complete_fork_publish t r =
     (if \<not> pr_slot r < length (pt_processes t) then (t, False)
      else
        let process = pt_processes t ! pr_slot r
        in if pc_state process \<noteq> PPublishing \<or> \<not> reservation_matches r process then (t, False)
           else (put_process t (pr_slot r) (process\<lparr>pc_state := PRunning\<rparr>), True))"

definition rollback_fork :: "LinuxProcessTable \<Rightarrow> LinuxProcessReservation \<Rightarrow> LinuxProcessTable \<times> bool" where
  "rollback_fork t r =
     (if \<not> pr_slot r < length (pt_processes t) then (t, False)
      else
        let process = pt_processes t ! pr_slot r
        in if \<not> (pc_state process = PReserved \<or> pc_state process = PPublishing) \<or> \<not> reservation_matches r process
           then (t, False)
           else (put_process t (pr_slot r) EMPTY_PROCESS, True))"

definition process_rollback :: "LinuxProcessTable \<Rightarrow> LinuxProcessReservation \<Rightarrow> LinuxProcessTable \<times> bool" where
  "process_rollback t r =
     (if \<not> pr_slot r < length (pt_processes t) then (t, False)
      else
        let process = pt_processes t ! pr_slot r
        in if pc_state process \<noteq> PReserved \<or> \<not> reservation_matches r process then (t, False)
           else (put_process t (pr_slot r) EMPTY_PROCESS, True))"

definition by_pid :: "LinuxProcessTable \<Rightarrow> usize \<Rightarrow> LinuxProcessCore option" where
  "by_pid t pid = List.find (\<lambda>process. is_visible process \<and> pc_pid process = pid) (pt_processes t)"

definition by_scheduler :: "LinuxProcessTable \<Rightarrow> usize \<Rightarrow> LinuxProcessCore option" where
  "by_scheduler t scheduler_thread =
     List.find (\<lambda>process. is_visible process \<and> pc_root_scheduler_thread process = scheduler_thread) (pt_processes t)"

definition running_at :: "LinuxProcessTable \<Rightarrow> usize \<Rightarrow> nat option" where
  "running_at t pid = position (\<lambda>process. pc_pid process = pid \<and> pc_state process = PRunning) (pt_processes t)"

definition process_exit :: "LinuxProcessTable \<Rightarrow> usize \<Rightarrow> i32 \<Rightarrow> LinuxProcessTable \<times> bool" where
  "process_exit t pid wait_status =
     (case running_at t pid of
        None \<Rightarrow> (t, False)
      | Some slot \<Rightarrow>
          (put_process t slot ((pt_processes t ! slot)\<lparr>pc_state := PZombie, pc_wait_status := wait_status\<rparr>), True))"

definition stop_child :: "LinuxProcessTable \<Rightarrow> usize \<Rightarrow> usize \<Rightarrow> LinuxProcessTable \<times> LinuxChildStateTransition option" where
  "stop_child t pid signum =
     (case linux_wait_status_stopped signum of
        None \<Rightarrow> (t, None)
      | Some status \<Rightarrow>
          (case running_at t pid of
             None \<Rightarrow> (t, None)
           | Some slot \<Rightarrow>
               let process = (pt_processes t ! slot)\<lparr>pc_wait_status := status\<rparr>
               in (put_process t slot process,
                   Some \<lparr>cs_parent_pid = pc_parent_pid process, cs_child_pid = pc_pid process, cs_status = status\<rparr>)))"

definition continue_child :: "LinuxProcessTable \<Rightarrow> usize \<Rightarrow> LinuxProcessTable \<times> LinuxChildStateTransition option" where
  "continue_child t pid =
     (case running_at t pid of
        None \<Rightarrow> (t, None)
      | Some slot \<Rightarrow>
          let process = pt_processes t ! slot
          in if \<not> linux_wait_status_is_stopped (pc_wait_status process) then (t, None)
             else (put_process t slot (process\<lparr>pc_wait_status := 0\<rparr>),
                   Some \<lparr>cs_parent_pid = pc_parent_pid process, cs_child_pid = pc_pid process, cs_status = 0\<rparr>))"

definition reap :: "LinuxProcessTable \<Rightarrow> usize \<Rightarrow> usize \<Rightarrow> LinuxProcessTable \<times> LinuxProcessCore option" where
  "reap t parent_pid pid =
     (case position (\<lambda>process. pc_state process = PZombie \<and> pc_parent_pid process = parent_pid \<and> pc_pid process = pid)
             (pt_processes t) of
        None \<Rightarrow> (t, None)
      | Some slot \<Rightarrow> (put_process t slot EMPTY_PROCESS, Some (pt_processes t ! slot)))"

definition terminate_child ::
  "LinuxProcessTable \<Rightarrow> usize \<Rightarrow> i32 \<Rightarrow> LinuxSigchldExitPolicy
     \<Rightarrow> LinuxProcessTable \<times> LinuxTerminalChildTransition option" where
  "terminate_child t pid wait_status policy =
     (case List.find (\<lambda>process. pc_pid process = pid \<and> pc_state process = PRunning) (pt_processes t) of
        None \<Rightarrow> (t, None)
      | Some process \<Rightarrow>
          (case process_exit t pid wait_status of
             (t, False) \<Rightarrow> (t, None)
           | (t, True) \<Rightarrow>
               let policy = (if pc_exit_signal process = LINUX_SIGCHLD then policy else RetainZombieAndNotify);
                   (t, reaped) = (if reap_immediately policy
                                  then map_prod id (\<lambda>r. r \<noteq> None) (reap t (pc_parent_pid process) pid)
                                  else (t, True))
               in if \<not> reaped then (t, None)
                  else (t, Some \<lparr>tt_parent_pid = pc_parent_pid process,
                                 tt_notification_signal =
                                   (if notify_parent policy then linux_child_exit_notification (pc_exit_signal process)
                                    else None)\<rparr>)))"

subsection \<open>Waiting\<close>

text \<open>\<open>min_by_key\<close>: the first element with the least key.\<close>

fun min_by_key :: "('a \<Rightarrow> 'k::linorder) \<Rightarrow> 'a list \<Rightarrow> 'a option" where
  "min_by_key key [] = None"
| "min_by_key key (x # xs) =
     (case min_by_key key xs of
        None \<Rightarrow> Some x
      | Some y \<Rightarrow> if key y < key x then Some y else Some x)"

definition waitable :: "usize \<Rightarrow> LinuxWaitSelector \<Rightarrow> bool \<Rightarrow> LinuxProcessCore \<Rightarrow> bool" where
  "waitable parent_pid selector include_stopped process =
     (pc_parent_pid process = parent_pid \<and> selector_matches process selector
      \<and> (pc_state process = PZombie
         \<or> include_stopped \<and> pc_state process = PRunning \<and> linux_wait_status_is_stopped (pc_wait_status process)))"

definition select_waitable_with_options ::
  "LinuxProcessTable \<Rightarrow> usize \<Rightarrow> LinuxWaitSelector \<Rightarrow> bool \<Rightarrow> LinuxProcessCore option" where
  "select_waitable_with_options t parent_pid selector include_stopped =
     min_by_key pc_pid (filter (waitable parent_pid selector include_stopped) (pt_processes t))"

definition select_waitable :: "LinuxProcessTable \<Rightarrow> usize \<Rightarrow> LinuxWaitSelector \<Rightarrow> LinuxProcessCore option" where
  "select_waitable t parent_pid selector = select_waitable_with_options t parent_pid selector False"

definition has_matching_child :: "LinuxProcessTable \<Rightarrow> usize \<Rightarrow> LinuxWaitSelector \<Rightarrow> bool" where
  "has_matching_child t parent_pid selector =
     list_ex (\<lambda>process. is_visible process \<and> pc_parent_pid process = parent_pid \<and> selector_matches process selector)
       (pt_processes t)"

definition wait_outcome_with_options ::
  "LinuxProcessTable \<Rightarrow> usize \<Rightarrow> LinuxWaitSelector \<Rightarrow> bool \<Rightarrow> LinuxWaitOutcome" where
  "wait_outcome_with_options t parent_pid selector include_stopped =
     (case select_waitable_with_options t parent_pid selector include_stopped of
        Some process \<Rightarrow> WaitReady (pc_pid process) (pc_wait_status process)
      | None \<Rightarrow> if has_matching_child t parent_pid selector then WaitWouldBlock else WaitNoChildren)"

definition wait_outcome :: "LinuxProcessTable \<Rightarrow> usize \<Rightarrow> LinuxWaitSelector \<Rightarrow> LinuxWaitOutcome" where
  "wait_outcome t parent_pid selector = wait_outcome_with_options t parent_pid selector False"

definition complete_child_state_report ::
  "LinuxProcessTable \<Rightarrow> usize \<Rightarrow> usize \<Rightarrow> i32 \<Rightarrow> LinuxProcessTable \<times> bool" where
  "complete_child_state_report t parent_pid pid status =
     (case position (\<lambda>process. pc_pid process = pid \<and> pc_parent_pid process = parent_pid \<and> pc_state process = PRunning
             \<and> pc_wait_status process = status \<and> linux_wait_status_is_stopped status) (pt_processes t) of
        None \<Rightarrow> (t, False)
      | Some slot \<Rightarrow> (put_process t slot ((pt_processes t ! slot)\<lparr>pc_wait_status := 0\<rparr>), True))"

datatype 'e LinuxWaitCompletionError = WaitCopy 'e | WaitReap

definition complete_linux_wait_with_options ::
  "LinuxProcessTable \<Rightarrow> usize \<Rightarrow> LinuxWaitSelector \<Rightarrow> usize \<Rightarrow> i32 \<Rightarrow> bool \<Rightarrow> (i32 \<Rightarrow> 'e + unit)
     \<Rightarrow> LinuxProcessTable \<times> ('e LinuxWaitCompletionError + usize option)" where
  "complete_linux_wait_with_options t parent_pid selector pid status include_stopped copy_status =
     (if wait_outcome_with_options t parent_pid selector include_stopped \<noteq> WaitReady pid status then (t, Inr None)
      else
        (case copy_status status of
           Inl e \<Rightarrow> (t, Inl (WaitCopy e))
         | Inr _ \<Rightarrow>
             if (case by_pid t pid of None \<Rightarrow> False | Some process \<Rightarrow> pc_state process = PZombie)
             then
               (case reap t parent_pid pid of
                  (t, None) \<Rightarrow> (t, Inl WaitReap)
                | (t, Some _) \<Rightarrow> (t, Inr (Some pid)))
             else
               (case complete_child_state_report t parent_pid pid status of
                  (t, False) \<Rightarrow> (t, Inl WaitReap)
                | (t, True) \<Rightarrow> (t, Inr (Some pid)))))"

definition complete_linux_wait ::
  "LinuxProcessTable \<Rightarrow> usize \<Rightarrow> LinuxWaitSelector \<Rightarrow> usize \<Rightarrow> i32 \<Rightarrow> (i32 \<Rightarrow> 'e + unit)
     \<Rightarrow> LinuxProcessTable \<times> ('e LinuxWaitCompletionError + usize option)" where
  "complete_linux_wait t parent_pid selector pid status copy_status =
     complete_linux_wait_with_options t parent_pid selector pid status False copy_status"

definition resource_counts :: "LinuxProcessTable \<Rightarrow> nat \<times> nat" where
  "resource_counts t =
     fold (\<lambda>process (running, zombies).
             case pc_state process of
               PRunning \<Rightarrow> (running + 1, zombies)
             | PZombie \<Rightarrow> (running, zombies + 1)
             | _ \<Rightarrow> (running, zombies))
       (pt_processes t) (0, 0)"

definition running_pids_match :: "LinuxProcessTable \<Rightarrow> usize list \<Rightarrow> bool" where
  "running_pids_match t memory_pids =
     (length (filter (\<lambda>process. pc_state process = PRunning) (pt_processes t)) = length memory_pids
      \<and> list_all (\<lambda>process. pc_state process \<noteq> PRunning \<or> pc_pid process \<in> set memory_pids) (pt_processes t))"

subsection \<open>The launch reaper\<close>

definition reparent_children_to_launch_reaper :: "LinuxProcessTable \<Rightarrow> usize \<Rightarrow> LinuxProcessTable \<times> nat" where
  "reparent_children_to_launch_reaper t parent_pid =
     (if \<not> pt_launch_reaper t then (t, 0)
      else
        let hit = (\<lambda>process. is_visible process \<and> pc_parent_pid process = parent_pid)
        in (t\<lparr>pt_processes := map (\<lambda>process. if hit process then process\<lparr>pc_parent_pid := LINUX_LAUNCH_REAPER_PID\<rparr> else process)
                (pt_processes t)\<rparr>,
            length (filter hit (pt_processes t))))"

definition adopt_launch_descendants :: "LinuxProcessTable \<Rightarrow> usize \<Rightarrow> LinuxProcessTable \<times> nat" where
  "adopt_launch_descendants t root_pid =
     (if \<not> pt_launch_reaper t then (t, 0)
      else
        let hit = (\<lambda>process. is_visible process \<and> pc_pid process \<noteq> root_pid)
        in (t\<lparr>pt_processes := map (\<lambda>process. if hit process then process\<lparr>pc_parent_pid := LINUX_LAUNCH_REAPER_PID\<rparr> else process)
                (pt_processes t)\<rparr>,
            length (filter hit (pt_processes t))))"

definition reap_launch_descendants :: "LinuxProcessTable \<Rightarrow> LinuxProcessTable \<times> nat" where
  "reap_launch_descendants t =
     (if \<not> pt_launch_reaper t then (t, 0)
      else
        let hit = (\<lambda>process. is_visible process \<and> pc_parent_pid process = LINUX_LAUNCH_REAPER_PID)
        in (t\<lparr>pt_processes := map (\<lambda>process. if hit process then EMPTY_PROCESS else process) (pt_processes t)\<rparr>,
            length (filter hit (pt_processes t))))"

definition process_reset :: "LinuxProcessTable \<Rightarrow> LinuxProcessTable" where
  "process_reset t =
     t\<lparr>pt_processes := map (\<lambda>_. EMPTY_PROCESS) (pt_processes t), pt_launch_reaper := False\<rparr>"

subsection \<open>Live entries\<close>

definition is_live :: "LinuxProcessCore \<Rightarrow> bool" where
  "is_live process = (pc_state process \<noteq> PEmpty)"

definition process_slots :: "LinuxProcessCore list \<Rightarrow> LinuxProcessCore option list" where
  "process_slots ps = map (\<lambda>p. if is_live p then Some p else None) ps"

lemma process_slots_simps [simp]:
  "length (process_slots ps) = length ps"
  "process_slots (ps[i := p]) = (process_slots ps)[i := if is_live p then Some p else None]"
  by (simp_all add: process_slots_def map_update)

lemma process_slots_nth:
  "i < length ps \<Longrightarrow> process_slots ps ! i = (if is_live (ps ! i) then Some (ps ! i) else None)"
  by (simp add: process_slots_def)

lemma flatten_process_slots: "flatten (process_slots ps) = filter is_live ps"
  by (induction ps) (simp_all add: process_slots_def)

lemma EMPTY_not_live [simp]: "\<not> is_live EMPTY_PROCESS" "\<not> is_visible EMPTY_PROCESS"
  by (simp_all add: is_live_def is_visible_def EMPTY_PROCESS_def)

lemma visible_live: "is_visible p \<Longrightarrow> is_live p"
  by (auto simp: is_visible_def is_live_def)

subsection \<open>The invariant\<close>

text \<open>
  Live processes have different identifiers, all within the range of identifiers.  \<open>issued\<close> is
  the history of the identifiers handed out to children.
\<close>

definition pids_distinct :: "LinuxProcessCore list \<Rightarrow> bool" where
  "pids_distinct ps = distinct (map pc_pid (filter is_live ps))"

definition pid_in_range :: "LinuxProcessCore \<Rightarrow> bool" where
  "pid_in_range p = (is_live p \<longrightarrow> LINUX_ROOT_PID \<le> pc_pid p \<and> pc_pid p \<le> LINUX_MAX_PID)"

definition process_ok :: "LinuxProcessTable \<Rightarrow> bool" where
  "process_ok t = (pids_distinct (pt_processes t) \<and> list_all pid_in_range (pt_processes t))"

definition issued_ok :: "LinuxProcessTable \<Rightarrow> usize list \<Rightarrow> bool" where
  "issued_ok t issued = (pt_exhausted t \<or> list_all (\<lambda>pid. pid < pt_next_pid t) issued)"

lemma pids_distinct_nth:
  assumes "pids_distinct ps" "i < length ps" "j < length ps" "is_live (ps ! i)" "is_live (ps ! j)"
    "pc_pid (ps ! i) = pc_pid (ps ! j)"
  shows "i = j"
  using distinct_flatten_nth [of pc_pid "process_slots ps" i j "ps ! i" "ps ! j"] assms
  by (simp add: pids_distinct_def flatten_process_slots process_slots_nth)

lemma pids_distinct_empty:
  "pids_distinct ps \<Longrightarrow> pids_distinct (ps[i := EMPTY_PROCESS])"
  using distinct_flatten_clear [of pc_pid "process_slots ps" i]
  by (simp add: pids_distinct_def flip: flatten_process_slots)

lemma pids_distinct_replace:
  assumes "pids_distinct ps" "i < length ps" "is_live (ps ! i)" "is_live p" "pc_pid p = pc_pid (ps ! i)"
  shows "pids_distinct (ps[i := p])"
  using assms map_flatten_replace [of i "process_slots ps" "ps ! i" pc_pid p]
  by (simp add: pids_distinct_def process_slots_nth flip: flatten_process_slots)

lemma pids_distinct_fill:
  assumes "pids_distinct ps" "i < length ps" "\<not> is_live (ps ! i)" "is_live p"
    "\<forall>q\<in>set ps. is_live q \<longrightarrow> pc_pid q \<noteq> pc_pid p"
  shows "pids_distinct (ps[i := p])"
proof -
  have "mset (flatten ((process_slots ps)[i := Some p])) = mset (p # flatten (process_slots ps))"
    using mset_flatten_fill [of i "process_slots ps" p] assms(2,3) by (simp add: process_slots_nth)
  then have "mset (map pc_pid (flatten ((process_slots ps)[i := Some p]))) = mset (map pc_pid (p # flatten (process_slots ps)))"
    by (metis mset_map)
  moreover have "distinct (map pc_pid (p # flatten (process_slots ps)))"
    using assms(1,5) by (auto simp: pids_distinct_def flatten_process_slots)
  ultimately have "distinct (map pc_pid (flatten ((process_slots ps)[i := Some p])))"
    using mset_eq_imp_distinct_iff by blast
  then show ?thesis using assms(4) by (simp add: pids_distinct_def flip: flatten_process_slots)
qed

lemma pids_distinct_map:
  assumes "pids_distinct ps" "\<And>p. pc_pid (f p) = pc_pid p" "\<And>p. is_live (f p) = is_live p"
  shows "pids_distinct (map f ps)"
  using assms by (simp add: pids_distinct_def filter_map comp_def)

lemma pids_distinct_clear:
  assumes "pids_distinct ps"
  shows "pids_distinct (map (\<lambda>p. if P p then EMPTY_PROCESS else p) ps)"
proof -
  have "filter is_live (map (\<lambda>p. if P p then EMPTY_PROCESS else p) ps) = filter (\<lambda>p. \<not> P p) (filter is_live ps)"
    by (induction ps) auto
  then show ?thesis using assms unfolding pids_distinct_def by (metis distinct_map_filter)
qed

lemma pid_in_range_EMPTY [simp]: "pid_in_range EMPTY_PROCESS"
  by (simp add: pid_in_range_def)

lemma process_ok_put:
  assumes "process_ok t" "i < length (pt_processes t)" "is_live (pt_processes t ! i)" "pc_pid p = pc_pid (pt_processes t ! i)"
    "is_live p"
  shows "process_ok (put_process t i p)"
proof -
  have "pids_distinct ((pt_processes t)[i := p])" using assms by (intro pids_distinct_replace) (simp_all add: process_ok_def)
  moreover have "pid_in_range p" using assms by (auto simp: process_ok_def list_all_length pid_in_range_def)
  ultimately show ?thesis using assms(1) by (simp add: process_ok_def put_process_def list_all_update)
qed

lemma process_ok_put_empty: "process_ok t \<Longrightarrow> process_ok (put_process t i EMPTY_PROCESS)"
  by (simp add: process_ok_def put_process_def pids_distinct_empty list_all_update)

lemma running_atD:
  "running_at t pid = Some i \<Longrightarrow> i < length (pt_processes t) \<and> pc_pid (pt_processes t ! i) = pid
     \<and> pc_state (pt_processes t ! i) = PRunning \<and> is_live (pt_processes t ! i)"
  by (auto simp: running_at_def is_live_def dest: position_SomeD)

text \<open>Entries keep their identifier while they live, and their states follow the life cycle.\<close>

definition state_follows :: "LinuxProcessState \<Rightarrow> LinuxProcessState \<Rightarrow> bool" where
  "state_follows a b =
     (case a of
        PEmpty \<Rightarrow> b = PEmpty \<or> b = PReserved \<or> b = PRunning
      | PReserved \<Rightarrow> b = PReserved \<or> b = PPublishing \<or> b = PRunning \<or> b = PEmpty
      | PPublishing \<Rightarrow> b = PPublishing \<or> b = PRunning \<or> b = PEmpty
      | PRunning \<Rightarrow> b = PRunning \<or> b = PZombie \<or> b = PEmpty
      | PZombie \<Rightarrow> b = PZombie \<or> b = PEmpty)"

definition process_follows :: "LinuxProcessCore \<Rightarrow> LinuxProcessCore \<Rightarrow> bool" where
  "process_follows p q =
     (state_follows (pc_state p) (pc_state q)
      \<and> (is_live p \<and> is_live q \<longrightarrow>
           pc_pid q = pc_pid p \<and> (pc_parent_pid q = pc_parent_pid p \<or> pc_parent_pid q = LINUX_LAUNCH_REAPER_PID))
      \<and> (\<not> is_live p \<and> is_live q \<longrightarrow> pc_pid q = LINUX_ROOT_PID \<or> pc_state q = PReserved))"

definition table_follows :: "LinuxProcessTable \<Rightarrow> LinuxProcessTable \<Rightarrow> bool" where
  "table_follows t u = list_all2 process_follows (pt_processes t) (pt_processes u)"

lemma process_follows_refl [simp]: "process_follows p p"
  by (auto simp: process_follows_def state_follows_def split: LinuxProcessState.splits)

lemma process_follows_empty [simp]: "process_follows p EMPTY_PROCESS"
  by (auto simp: process_follows_def state_follows_def is_live_def EMPTY_PROCESS_def split: LinuxProcessState.splits)

lemma table_follows_same: "pt_processes u = pt_processes t \<Longrightarrow> table_follows t u"
  by (simp add: table_follows_def list_all2_refl)

lemma table_follows_put:
  assumes "i < length (pt_processes t) \<Longrightarrow> process_follows (pt_processes t ! i) p"
  shows "table_follows t (put_process t i p)"
  by (cases "i < length (pt_processes t)")
    (use assms in \<open>auto simp: table_follows_def put_process_def list_all2_conv_all_nth nth_list_update\<close>)

lemma table_follows_map:
  assumes "\<And>p. process_follows p (f p)"
  shows "table_follows t (t\<lparr>pt_processes := map f (pt_processes t)\<rparr>)"
  using assms by (simp add: table_follows_def list_all2_conv_all_nth)

text \<open>What every operation guarantees of the table it leaves.\<close>

definition advances :: "LinuxProcessTable \<Rightarrow> LinuxProcessTable \<Rightarrow> bool" where
  "advances t u =
     (process_ok u \<and> table_follows t u \<and> pt_next_pid t \<le> pt_next_pid u \<and> (pt_exhausted t \<longrightarrow> pt_exhausted u))"

lemma advances_same: "process_ok t \<Longrightarrow> pt_processes u = pt_processes t \<Longrightarrow> pt_next_pid u = pt_next_pid t
    \<Longrightarrow> (pt_exhausted t \<longrightarrow> pt_exhausted u) \<Longrightarrow> advances t u"
  by (simp add: advances_def process_ok_def table_follows_same)

lemma advances_refl [simp]: "process_ok t \<Longrightarrow> advances t t"
  by (simp add: advances_same)

lemma put_process_fields [simp]:
  "pt_next_pid (put_process t i p) = pt_next_pid t" "pt_exhausted (put_process t i p) = pt_exhausted t"
  "pt_launch_reaper (put_process t i p) = pt_launch_reaper t" "pt_processes (put_process t i p) = (pt_processes t)[i := p]"
  by (simp_all add: put_process_def)

lemma advances_put:
  assumes "process_ok t" "i < length (pt_processes t)" "is_live (pt_processes t ! i)" "is_live p"
    "pc_pid p = pc_pid (pt_processes t ! i)" "pc_parent_pid p = pc_parent_pid (pt_processes t ! i)"
    "state_follows (pc_state (pt_processes t ! i)) (pc_state p)"
  shows "advances t (put_process t i p)"
  using assms process_ok_put [OF assms(1-3,5,4)]
  by (auto simp: advances_def process_follows_def intro!: table_follows_put)

lemma advances_put_empty: "process_ok t \<Longrightarrow> advances t (put_process t i EMPTY_PROCESS)"
  by (auto simp: advances_def process_ok_put_empty intro!: table_follows_put)

lemma register_root_advances:
  assumes "process_ok t"
  shows "advances t (fst (register_root t th))"
proof (cases "pt_launch_reaper t \<or> list_ex (\<lambda>p. pc_state p \<noteq> PEmpty \<and> pc_pid p = LINUX_ROOT_PID) (pt_processes t)
    \<or> position (\<lambda>p. pc_state p = PEmpty) (pt_processes t) = None")
  case True
  then have "fst (register_root t th) = t" by (auto simp: register_root_def)
  then show ?thesis using assms by (simp add: advances_same)
next
  case False
  then obtain i where i: "position (\<lambda>p. pc_state p = PEmpty) (pt_processes t) = Some i" by auto
  then have e: "i < length (pt_processes t)" "\<not> is_live (pt_processes t ! i)" by (auto simp: is_live_def dest: position_SomeD)
  let ?p = "\<lparr>pc_pid = LINUX_ROOT_PID, pc_parent_pid = 0, pc_process_group = LINUX_ROOT_PID,
    pc_root_scheduler_thread = th, pc_state = PRunning, pc_wait_status = 0, pc_exit_signal = 0\<rparr>"
  have eq: "fst (register_root t th) = (put_process t i ?p)\<lparr>pt_launch_reaper := True\<rparr>"
    using False i by (simp add: register_root_def)
  have "pids_distinct ((pt_processes t)[i := ?p])"
    using assms e False by (intro pids_distinct_fill) (auto simp: process_ok_def is_live_def list_ex_iff)
  moreover have "pid_in_range ?p" by (simp add: pid_in_range_def LINUX_ROOT_PID_def LINUX_MAX_PID_def)
  moreover have "process_follows (pt_processes t ! i) ?p"
    using e by (simp add: process_follows_def state_follows_def is_live_def)
  ultimately show ?thesis using assms e table_follows_put [of i t ?p] unfolding eq
    by (auto simp: advances_def process_ok_def table_follows_def list_all_update)
qed

lemma reserve_cases [consumes 1, case_names failed reserved]:
  assumes "process_ok t"
  obtains (failed) e where "reserve_child_with_pid t parent th pid sig = (t, Inl e)"
  | (reserved) u r where "reserve_child_with_pid t parent th pid sig = (u, Inr r)" "advances t u"
      "pr_pid r = pid" "\<forall>q\<in>set (pt_processes t). is_live q \<longrightarrow> pc_pid q \<noteq> pid" "pid \<le> LINUX_MAX_PID"
      "pt_exhausted u \<or> pid < pt_next_pid u"
proof (cases "List.find (\<lambda>p. pc_pid p = parent \<and> pc_state p = PRunning) (pt_processes t) = None
    \<or> position (\<lambda>p. pc_state p = PEmpty) (pt_processes t) = None
    \<or> \<not> (LINUX_ROOT_PID + 1 \<le> pid \<and> pid \<le> LINUX_MAX_PID)
    \<or> list_ex (\<lambda>p. pc_state p \<noteq> PEmpty \<and> pc_pid p = pid) (pt_processes t)")
  case True
  then have "\<exists>e. reserve_child_with_pid t parent th pid sig = (t, Inl e)"
    by (auto simp: reserve_child_with_pid_def split: option.splits)
  then show thesis using failed by blast
next
  case False
  then obtain par i where par: "List.find (\<lambda>p. pc_pid p = parent \<and> pc_state p = PRunning) (pt_processes t) = Some par"
    and i: "position (\<lambda>p. pc_state p = PEmpty) (pt_processes t) = Some i" by auto
  have e: "i < length (pt_processes t)" "\<not> is_live (pt_processes t ! i)" using i by (auto simp: is_live_def dest: position_SomeD)
  have fresh: "\<forall>q\<in>set (pt_processes t). is_live q \<longrightarrow> pc_pid q \<noteq> pid" using False by (auto simp: is_live_def list_ex_iff)
  let ?p = "\<lparr>pc_pid = pid, pc_parent_pid = parent, pc_process_group = pc_process_group par,
    pc_root_scheduler_thread = th, pc_state = PReserved, pc_wait_status = 0, pc_exit_signal = sig\<rparr>"
  let ?t = "if pid = LINUX_MAX_PID then t\<lparr>pt_exhausted := True\<rparr>
    else if pt_next_pid t \<le> pid then t\<lparr>pt_next_pid := pid + 1\<rparr> else t"
  let ?u = "put_process ?t i ?p"
  have call: "reserve_child_with_pid t parent th pid sig = (?u, Inr \<lparr>pr_slot = i, pr_pid = pid, pr_parent_pid = parent\<rparr>)"
    using False par i by (simp add: reserve_child_with_pid_def Let_def)
  have succ: "pid < pid + 1" if "pid \<noteq> LINUX_MAX_PID"
  proof (rule word_less_succ)
    have "\<not> (- 1 \<le> (2147483647 :: usize))" by code_simp
    then show "pid \<noteq> - 1" using False by (auto simp: LINUX_MAX_PID_def)
  qed
  have "pids_distinct ((pt_processes t)[i := ?p])"
    using assms e fresh by (intro pids_distinct_fill) (auto simp: process_ok_def is_live_def)
  moreover have "pid_in_range ?p" using False by (auto simp: pid_in_range_def LINUX_ROOT_PID_def word_le_nat_alt)
  moreover have "process_follows (pt_processes t ! i) ?p"
    using e by (simp add: process_follows_def state_follows_def is_live_def)
  moreover have "pt_next_pid t \<le> pt_next_pid ?u" using succ by (auto intro: less_imp_le order.trans)
  ultimately have "advances t ?u"
    using assms e table_follows_put [of i t ?p] by (auto simp: advances_def process_ok_def table_follows_def list_all_update)
  moreover have "pt_exhausted ?u \<or> pid < pt_next_pid ?u" using succ by auto
  ultimately show thesis using reserved [OF call] fresh False by auto
qed

lemma reserve_child_with_pid_advances:
  "process_ok t \<Longrightarrow> advances t (fst (reserve_child_with_pid t parent th pid sig))"
  by (rule reserve_cases [of t parent th pid sig]) (auto simp: advances_same)

lemma reserve_child_advances: "process_ok t \<Longrightarrow> advances t (fst (reserve_child t parent th))"
  using reserve_child_with_pid_advances [of t parent th "pt_next_pid t" 0]
  by (auto simp: reserve_child_def advances_same)

text \<open>The guarded updates of one reserved entry.\<close>

lemma slot_update_advances:
  assumes "process_ok t"
  shows "advances t (fst (publish t r))" "advances t (fst (publish_fork t r))" "advances t (fst (complete_fork_publish t r))"
    "advances t (fst (rollback_fork t r))" "advances t (fst (process_rollback t r))"
  using assms
  by (auto simp: publish_def publish_fork_def complete_fork_publish_def rollback_fork_def process_rollback_def Let_def
      state_follows_def is_live_def intro!: advances_put advances_put_empty)

lemma running_update_advances:
  assumes "process_ok t" "running_at t pid = Some i" "pc_pid p = pid" "pc_parent_pid p = pc_parent_pid (pt_processes t ! i)"
    "pc_state p = PRunning \<or> pc_state p = PZombie"
  shows "advances t (put_process t i p)"
  using running_atD [OF assms(2)] assms by (intro advances_put) (auto simp: state_follows_def is_live_def)

lemma process_exit_advances: "process_ok t \<Longrightarrow> advances t (fst (process_exit t pid st))"
  by (auto simp: process_exit_def dest: running_atD split: option.splits intro!: running_update_advances)

lemma stop_child_advances: "process_ok t \<Longrightarrow> advances t (fst (stop_child t pid signum))"
  by (auto simp: stop_child_def Let_def dest: running_atD split: option.splits intro!: running_update_advances)

lemma continue_child_advances: "process_ok t \<Longrightarrow> advances t (fst (continue_child t pid))"
  by (auto simp: continue_child_def Let_def dest: running_atD split: option.splits intro!: running_update_advances)

lemma reap_advances: "process_ok t \<Longrightarrow> advances t (fst (reap t parent pid))"
  by (auto simp: reap_def advances_put_empty split: option.splits)

lemma position_pid:
  assumes "process_ok t" "i < length (pt_processes t)" "is_live (pt_processes t ! i)" "P (pt_processes t ! i)"
    "\<And>p. P p \<Longrightarrow> is_live p \<and> pc_pid p = pc_pid (pt_processes t ! i)"
  shows "position P (pt_processes t) = Some i"
proof (rule position_uniqueI)
  show "i < length (pt_processes t)" "P (pt_processes t ! i)" by fact+
  fix j assume j: "j < length (pt_processes t)" "P (pt_processes t ! j)"
  have d: "pids_distinct (pt_processes t)" using assms(1) by (simp add: process_ok_def)
  show "j = i" using assms(5) [OF j(2)] by (intro pids_distinct_nth [OF d j(1) assms(2) _ assms(3)]) simp_all
qed

lemma find_nth: "position P xs = Some i \<Longrightarrow> List.find P xs = Some (xs ! i)"
  by (induction xs arbitrary: i) (auto split: if_splits)

lemma find_None: "position P xs = None \<Longrightarrow> List.find P xs = None"
  by (induction xs) (auto split: if_splits)

lemma exit_then_reap:
  assumes "process_ok t" "running_at t pid = Some i"
  shows "process_exit t pid st = (put_process t i ((pt_processes t ! i)\<lparr>pc_state := PZombie, pc_wait_status := st\<rparr>), True)"
    "reap (put_process t i ((pt_processes t ! i)\<lparr>pc_state := PZombie, pc_wait_status := st\<rparr>))
       (pc_parent_pid (pt_processes t ! i)) pid
     = (put_process t i EMPTY_PROCESS, Some ((pt_processes t ! i)\<lparr>pc_state := PZombie, pc_wait_status := st\<rparr>))"
proof -
  let ?z = "(pt_processes t ! i)\<lparr>pc_state := PZombie, pc_wait_status := st\<rparr>"
  note i = running_atD [OF assms(2)]
  show exit: "process_exit t pid st = (put_process t i ?z, True)" using assms(2) by (simp add: process_exit_def)
  have "process_ok (put_process t i ?z)" using process_exit_advances [OF assms(1), of pid st] exit by (simp add: advances_def)
  then have "position (\<lambda>p. pc_state p = PZombie \<and> pc_parent_pid p = pc_parent_pid (pt_processes t ! i) \<and> pc_pid p = pid)
      (pt_processes (put_process t i ?z)) = Some i"
    using i by (intro position_pid) (auto simp: is_live_def)
  then show "reap (put_process t i ?z) (pc_parent_pid (pt_processes t ! i)) pid = (put_process t i EMPTY_PROCESS, Some ?z)"
    using i by (simp add: reap_def put_process_def)
qed

lemma terminate_child_cases:
  assumes "process_ok t"
  obtains (missing) "running_at t pid = None" "terminate_child t pid st policy = (t, None)"
  | (ended) i q x where "running_at t pid = Some i" "terminate_child t pid st policy = (put_process t i q, Some x)"
      "q = (pt_processes t ! i)\<lparr>pc_state := PZombie, pc_wait_status := st\<rparr> \<or> q = EMPTY_PROCESS"
proof (cases "running_at t pid")
  case None
  then show thesis using missing find_None [OF None [unfolded running_at_def]] by (simp add: terminate_child_def)
next
  case (Some i)
  note e = exit_then_reap [OF assms Some]
  have f: "List.find (\<lambda>p. pc_pid p = pid \<and> pc_state p = PRunning) (pt_processes t) = Some (pt_processes t ! i)"
    by (rule find_nth [OF Some [unfolded running_at_def]])
  show thesis
  proof (cases "reap_immediately (if pc_exit_signal (pt_processes t ! i) = LINUX_SIGCHLD then policy else RetainZombieAndNotify)")
    case True
    then show thesis using ended [OF Some, of EMPTY_PROCESS] f e [of st] by (simp add: terminate_child_def Let_def)
  next
    case False
    then show thesis using ended [OF Some] f e(1) [of st] by (simp add: terminate_child_def Let_def)
  qed
qed

lemma terminate_child_advances: "process_ok t \<Longrightarrow> advances t (fst (terminate_child t pid st policy))"
  by (rule terminate_child_cases [of t pid st policy])
    (auto intro!: running_update_advances advances_put_empty dest: running_atD)

lemma complete_child_state_report_advances:
  assumes "process_ok t"
  shows "advances t (fst (complete_child_state_report t parent pid st))"
proof (cases "position (\<lambda>p. pc_pid p = pid \<and> pc_parent_pid p = parent \<and> pc_state p = PRunning
    \<and> pc_wait_status p = st \<and> linux_wait_status_is_stopped st) (pt_processes t)")
  case (Some i)
  then have "i < length (pt_processes t)" "pc_state (pt_processes t ! i) = PRunning" by (auto dest: position_SomeD)
  then show ?thesis using Some assms
    by (auto simp: complete_child_state_report_def state_follows_def is_live_def intro!: advances_put)
qed (use assms in \<open>simp add: complete_child_state_report_def\<close>)

lemma complete_linux_wait_advances:
  assumes "process_ok t"
  shows "advances t (fst (complete_linux_wait_with_options t parent sel pid st stopped copy))"
proof -
  have "advances t u" if "reap t parent pid = (u, x)" for u x using reap_advances [OF assms, of parent pid] that by simp
  moreover have "advances t u" if "complete_child_state_report t parent pid st = (u, x)" for u x
    using complete_child_state_report_advances [OF assms, of parent pid st] that by simp
  ultimately show ?thesis using assms
    by (auto simp: complete_linux_wait_with_options_def split: sum.splits option.splits prod.splits bool.splits)
qed

lemma reparent_follows: "process_follows p (if is_visible p \<and> P p then p\<lparr>pc_parent_pid := LINUX_LAUNCH_REAPER_PID\<rparr> else p)"
  by (auto simp: process_follows_def state_follows_def is_live_def split: LinuxProcessState.splits)

lemma reparent_advances:
  assumes "process_ok t"
  shows "advances t (t\<lparr>pt_processes := map (\<lambda>p. if is_visible p \<and> P p then p\<lparr>pc_parent_pid := LINUX_LAUNCH_REAPER_PID\<rparr> else p)
    (pt_processes t)\<rparr>)"
  using assms table_follows_map [where f = "\<lambda>p. if is_visible p \<and> P p then p\<lparr>pc_parent_pid := LINUX_LAUNCH_REAPER_PID\<rparr> else p"]
    reparent_follows [of _ P]
  by (auto simp: advances_def process_ok_def list_all_iff pid_in_range_def is_live_def intro!: pids_distinct_map split: if_splits)

lemma clear_advances:
  assumes "process_ok t"
  shows "advances t (t\<lparr>pt_processes := map (\<lambda>p. if P p then EMPTY_PROCESS else p) (pt_processes t)\<rparr>)"
  using assms table_follows_map [where f = "\<lambda>p. if P p then EMPTY_PROCESS else p"]
  by (auto simp: advances_def process_ok_def list_all_iff intro!: pids_distinct_clear)

lemma reaper_advances:
  assumes "process_ok t"
  shows "advances t (fst (reparent_children_to_launch_reaper t pid))" "advances t (fst (adopt_launch_descendants t pid))"
    "advances t (fst (reap_launch_descendants t))"
  using assms reparent_advances [OF assms] clear_advances [OF assms]
  by (simp_all add: reparent_children_to_launch_reaper_def adopt_launch_descendants_def reap_launch_descendants_def Let_def)

lemma process_reset_advances: "process_ok t \<Longrightarrow> advances t (process_reset t)"
  using clear_advances [of t "\<lambda>_. True"] by (simp add: process_reset_def advances_def process_ok_def table_follows_def)

subsection \<open>Runs of the table\<close>

text \<open>The second component of the state is the history of the identifiers given to children.\<close>

definition record_pid :: "usize list \<Rightarrow> 'e + LinuxProcessReservation \<Rightarrow> usize list" where
  "record_pid issued r = (case r of Inl _ \<Rightarrow> issued | Inr v \<Rightarrow> pr_pid v # issued)"

inductive process_step :: "LinuxProcessTable \<times> usize list \<Rightarrow> LinuxProcessTable \<times> usize list \<Rightarrow> bool" where
  ps_root: "process_step (t, issued) (fst (register_root t th), issued)"
| ps_reserve: "reserve_child t parent th = (u, r) \<Longrightarrow> process_step (t, issued) (u, record_pid issued r)"
| ps_reserve_pid: "reserve_child_with_pid t parent th pid sig = (u, r) \<Longrightarrow> process_step (t, issued) (u, record_pid issued r)"
| ps_publish: "process_step (t, issued) (fst (publish t v), issued)"
| ps_publish_fork: "process_step (t, issued) (fst (publish_fork t v), issued)"
| ps_complete: "process_step (t, issued) (fst (complete_fork_publish t v), issued)"
| ps_rollback_fork: "process_step (t, issued) (fst (rollback_fork t v), issued)"
| ps_rollback: "process_step (t, issued) (fst (process_rollback t v), issued)"
| ps_exit: "process_step (t, issued) (fst (process_exit t pid st), issued)"
| ps_stop: "process_step (t, issued) (fst (stop_child t pid signum), issued)"
| ps_continue: "process_step (t, issued) (fst (continue_child t pid), issued)"
| ps_terminate: "process_step (t, issued) (fst (terminate_child t pid st policy), issued)"
| ps_wait: "process_step (t, issued)
     (fst (complete_linux_wait_with_options t parent sel pid st stopped (copy :: i32 \<Rightarrow> unit + unit)), issued)"
| ps_reap: "process_step (t, issued) (fst (reap t parent pid), issued)"
| ps_report: "process_step (t, issued) (fst (complete_child_state_report t parent pid st), issued)"
| ps_reparent: "process_step (t, issued) (fst (reparent_children_to_launch_reaper t pid), issued)"
| ps_adopt: "process_step (t, issued) (fst (adopt_launch_descendants t pid), issued)"
| ps_reap_launch: "process_step (t, issued) (fst (reap_launch_descendants t), issued)"
| ps_reset: "process_step (t, issued) (process_reset t, issued)"

lemmas op_advances = register_root_advances slot_update_advances process_exit_advances stop_child_advances
  continue_child_advances terminate_child_advances complete_linux_wait_advances reap_advances
  complete_child_state_report_advances reaper_advances process_reset_advances

lemma issued_ok_advances: "issued_ok t issued \<Longrightarrow> advances t u \<Longrightarrow> issued_ok u issued"
  by (auto simp: issued_ok_def advances_def list_all_iff intro: less_le_trans)

lemma reserve_issued:
  assumes "process_ok t" "issued_ok t issued" "reserve_child_with_pid t parent th pid sig = (u, r)"
  shows "advances t u \<and> issued_ok u (record_pid issued r)"
  using assms(1)
proof (cases rule: reserve_cases [where parent = parent and th = th and pid = pid and sig = sig])
  case (failed e)
  then show ?thesis using assms by (simp add: record_pid_def)
next
  case (reserved u' r')
  then show ?thesis using assms issued_ok_advances [of t issued u] by (auto simp: record_pid_def issued_ok_def)
qed

lemma reserve_child_issued:
  assumes "process_ok t" "issued_ok t issued" "reserve_child t parent th = (u, r)"
  shows "advances t u \<and> issued_ok u (record_pid issued r)"
proof (cases "pt_exhausted t \<or> \<not> (LINUX_ROOT_PID + 1 \<le> pt_next_pid t \<and> pt_next_pid t \<le> LINUX_MAX_PID)")
  case True
  then have "u = t\<lparr>pt_exhausted := True\<rparr>" "record_pid issued r = issued"
    using assms(3) by (auto simp: reserve_child_def record_pid_def)
  then show ?thesis using assms(1) by (auto simp: issued_ok_def intro!: advances_same)
next
  case False
  then show ?thesis using reserve_issued [OF assms(1,2)] assms(3) by (simp add: reserve_child_def)
qed

lemma process_step_ok:
  "process_step x y \<Longrightarrow> process_ok (fst x) \<and> issued_ok (fst x) (snd x)
     \<Longrightarrow> advances (fst x) (fst y) \<and> issued_ok (fst y) (snd y)"
proof (induction rule: process_step.induct)
  case (ps_reserve t parent th u r issued)
  then show ?case using reserve_child_issued [of t issued parent th u r] by simp
next
  case (ps_reserve_pid t parent th pid sig u r issued)
  then show ?case using reserve_issued [of t issued parent th pid sig u r] by simp
qed (auto simp: op_advances intro: issued_ok_advances)

lemma process_run_ok:
  assumes "process_step\<^sup>*\<^sup>* (process_table_new N, []) x"
  shows "process_ok (fst x) \<and> issued_ok (fst x) (snd x)"
  using assms
proof (induction rule: rtranclp_induct)
  case base
  show ?case by (simp add: process_ok_def issued_ok_def process_table_new_def with_next_pid_def pids_distinct_def
        list_all_length)
next
  case (step y z)
  then show ?case using process_step_ok [of y z] by (simp add: advances_def)
qed

subsection \<open>Waiting\<close>

lemma min_by_key_None [simp]: "min_by_key key xs = None \<longleftrightarrow> xs = []"
  by (cases xs) (auto split: option.splits)

lemma min_by_key_Some:
  "min_by_key key xs = Some y \<Longrightarrow> y \<in> set xs \<and> (\<forall>x\<in>set xs. key y \<le> key x)"
proof (induction xs arbitrary: y)
  case (Cons x xs)
  show ?case
  proof (cases "min_by_key key xs")
    case None
    then show ?thesis using Cons.prems by simp
  next
    case (Some z)
    then show ?thesis using Cons.prems Cons.IH [OF Some] by (auto split: if_splits intro: order.trans less_imp_le)
  qed
qed simp

lemma waitable_visible: "waitable parent sel stopped p \<Longrightarrow> is_visible p"
  by (auto simp: waitable_def is_visible_def)

lemma wait_readyD:
  assumes "wait_outcome_with_options t parent sel stopped = WaitReady pid st"
  obtains i where "i < length (pt_processes t)" "waitable parent sel stopped (pt_processes t ! i)"
    "pc_pid (pt_processes t ! i) = pid" "pc_wait_status (pt_processes t ! i) = st"
    "\<forall>q\<in>set (pt_processes t). waitable parent sel stopped q \<longrightarrow> pid \<le> pc_pid q"
proof -
  obtain p where p: "min_by_key pc_pid (filter (waitable parent sel stopped) (pt_processes t)) = Some p"
    "pid = pc_pid p" "st = pc_wait_status p"
    using assms by (auto simp: wait_outcome_with_options_def select_waitable_with_options_def split: option.splits if_splits)
  have m: "p \<in> set (pt_processes t)" "waitable parent sel stopped p"
    "\<forall>q\<in>set (pt_processes t). waitable parent sel stopped q \<longrightarrow> pid \<le> pc_pid q"
    using min_by_key_Some [OF p(1)] p(2) by auto
  obtain i where "i < length (pt_processes t)" "pt_processes t ! i = p" using m(1) by (auto simp: in_set_conv_nth)
  then show thesis using that m p by auto
qed

text \<open>The entry after its state was collected.\<close>

definition collected :: "LinuxProcessCore \<Rightarrow> LinuxProcessCore" where
  "collected p = (if pc_state p = PZombie then EMPTY_PROCESS else p\<lparr>pc_wait_status := 0\<rparr>)"

lemma collected_not_waitable: "waitable parent sel stopped p \<Longrightarrow> \<not> waitable parent' sel' stopped' (collected p)"
  by (auto simp: waitable_def collected_def EMPTY_PROCESS_def linux_wait_status_is_stopped_def)

lemma complete_wait_collects:
  assumes "process_ok t" "wait_outcome_with_options t parent sel stopped = WaitReady pid st" "copy st = Inr ()"
    "i < length (pt_processes t)" "waitable parent sel stopped (pt_processes t ! i)" "pc_pid (pt_processes t ! i) = pid"
    "pc_wait_status (pt_processes t ! i) = st"
  shows "complete_linux_wait_with_options t parent sel pid st stopped copy
    = (put_process t i (collected (pt_processes t ! i)), Inr (Some pid))"
proof -
  let ?p = "pt_processes t ! i"
  have live: "is_live ?p" "is_visible ?p" using waitable_visible [OF assms(5)] by (simp_all add: visible_live)
  have "position (\<lambda>p. is_visible p \<and> pc_pid p = pid) (pt_processes t) = Some i"
    using assms(6) live by (intro position_pid [OF assms(1,4)]) (auto simp: visible_live)
  then have bp: "by_pid t pid = Some ?p" unfolding by_pid_def by (rule find_nth)
  show ?thesis
  proof (cases "pc_state ?p = PZombie")
    case True
    have "position (\<lambda>p. pc_state p = PZombie \<and> pc_parent_pid p = parent \<and> pc_pid p = pid) (pt_processes t) = Some i"
      using True assms(5,6) live by (intro position_pid [OF assms(1,4)]) (auto simp: waitable_def is_live_def)
    then show ?thesis
      using True bp assms(2,3) by (simp add: complete_linux_wait_with_options_def reap_def collected_def)
  next
    case False
    then have run: "pc_state ?p = PRunning" "linux_wait_status_is_stopped st" "pc_parent_pid ?p = parent"
      using assms(5,7) by (auto simp: waitable_def)
    then have "position (\<lambda>p. pc_pid p = pid \<and> pc_parent_pid p = parent \<and> pc_state p = PRunning
        \<and> pc_wait_status p = st \<and> linux_wait_status_is_stopped st) (pt_processes t) = Some i"
      using assms(6,7) live by (intro position_pid [OF assms(1,4)]) (auto simp: is_live_def)
    then show ?thesis
      using False bp assms(2,3)
      by (simp add: complete_linux_wait_with_options_def complete_child_state_report_def collected_def)
  qed
qed

subsection \<open>Properties\<close>

text \<open>
  C10: In every run of the process table live processes have different identifiers, and an
  identifier that the table chooses itself for a new child was never given to any earlier
  child: also not to one that has long been reaped, and not across a reset.  The identifiers that the
  kernel passes to \<open>reserve_child_with_pid\<close> are part of these runs.
\<close>

theorem process_pids_never_reused:
  assumes "process_step\<^sup>*\<^sup>* (process_table_new N, []) (t, issued)" "reserve_child t parent_pid scheduler_thread = (u, Inr r)"
  shows "pr_pid r \<notin> set issued \<and> process_ok u
    \<and> LINUX_ROOT_PID < pr_pid r \<and> pr_pid r \<le> LINUX_MAX_PID"
proof -
  have ok: "process_ok t" "issued_ok t issued" using process_run_ok [OF assms(1)] by simp_all
  have live: "\<not> pt_exhausted t" "LINUX_ROOT_PID + 1 \<le> pt_next_pid t" "pt_next_pid t \<le> LINUX_MAX_PID"
    and call: "reserve_child_with_pid t parent_pid scheduler_thread (pt_next_pid t) 0 = (u, Inr r)"
    using assms(2) by (auto simp: reserve_child_def split: if_splits)
  have r: "pr_pid r = pt_next_pid t" "advances t u"
    using reserve_cases [OF ok(1), of parent_pid scheduler_thread "pt_next_pid t" 0] call by auto
  have "LINUX_ROOT_PID < pt_next_pid t"
    using live(2) by (simp add: LINUX_ROOT_PID_def word_le_nat_alt word_less_nat_alt)
  then show ?thesis using r ok(2) live by (auto simp: issued_ok_def list_all_iff advances_def)
qed

text \<open>
  C37: Every entry of the process table follows the life cycle.  An empty entry becomes a
  reserved child, or the running root process; a reserved one is published or rolled back; a
  running one becomes a zombie or is collected at once; a zombie is only ever collected.  While
  an entry lives its identifier never changes, and its parent changes only to the launch reaper.
\<close>

theorem process_lifecycle:
  assumes "process_step\<^sup>*\<^sup>* (process_table_new N, []) x" "process_step x y"
  shows "list_all2 process_follows (pt_processes (fst x)) (pt_processes (fst y))"
  using process_step_ok [OF assms(2)] process_run_ok [OF assms(1)] by (simp add: advances_def table_follows_def)

text \<open>
  C18: \<open>wait4\<close> reports a child exactly when one is ready: the matching child with the least
  identifier.  Completing the wait with that report first copies the status out.  When the copy fails,
  its error is returned and the table is unchanged, so the child can be waited for again.  When it
  succeeds, the completion succeeds and collects exactly this child (a zombie leaves the table, a
  stopped child is marked as reported), changes no other entry, and no wait of any kind will report the
  same state again.  A completion with a report that is no longer the current one does nothing.
\<close>

theorem wait_collects_least_once:
  fixes copy_status :: "i32 \<Rightarrow> 'e + unit"
  assumes "process_ok t"
  shows "case wait_outcome_with_options t parent_pid selector include_stopped of
      WaitReady pid status \<Rightarrow>
        (\<exists>i. i < length (pt_processes t) \<and> waitable parent_pid selector include_stopped (pt_processes t ! i)
           \<and> pc_pid (pt_processes t ! i) = pid \<and> pc_wait_status (pt_processes t ! i) = status
           \<and> (\<forall>q\<in>set (pt_processes t). waitable parent_pid selector include_stopped q \<longrightarrow> pid \<le> pc_pid q)
           \<and> complete_linux_wait_with_options t parent_pid selector pid status include_stopped copy_status
               = (case copy_status status of
                    Inl e \<Rightarrow> (t, Inl (WaitCopy e))
                  | Inr _ \<Rightarrow> (put_process t i (collected (pt_processes t ! i)), Inr (Some pid)))
           \<and> \<not> waitable parent' selector' stopped' (collected (pt_processes t ! i)))
        \<and> (\<forall>pid' status'. (pid', status') \<noteq> (pid, status) \<longrightarrow>
             complete_linux_wait_with_options t parent_pid selector pid' status' include_stopped copy_status = (t, Inr None))
    | WaitWouldBlock \<Rightarrow> \<not> list_ex (waitable parent_pid selector include_stopped) (pt_processes t)
        \<and> has_matching_child t parent_pid selector
        \<and> (\<forall>pid' status'. complete_linux_wait_with_options t parent_pid selector pid' status' include_stopped copy_status = (t, Inr None))
    | WaitNoChildren \<Rightarrow> \<not> has_matching_child t parent_pid selector
        \<and> (\<forall>pid' status'. complete_linux_wait_with_options t parent_pid selector pid' status' include_stopped copy_status = (t, Inr None))"
proof (cases "wait_outcome_with_options t parent_pid selector include_stopped")
  case (WaitReady pid st)
  from wait_readyD [OF WaitReady] obtain i where i: "i < length (pt_processes t)"
    "waitable parent_pid selector include_stopped (pt_processes t ! i)"
    "pc_pid (pt_processes t ! i) = pid" "pc_wait_status (pt_processes t ! i) = st"
    "\<forall>q\<in>set (pt_processes t). waitable parent_pid selector include_stopped q \<longrightarrow> pid \<le> pc_pid q" .
  have "complete_linux_wait_with_options t parent_pid selector pid st include_stopped copy_status
      = (case copy_status st of
           Inl e \<Rightarrow> (t, Inl (WaitCopy e)) | Inr _ \<Rightarrow> (put_process t i (collected (pt_processes t ! i)), Inr (Some pid)))"
    using complete_wait_collects [OF assms WaitReady _ i(1-4), of copy_status] WaitReady
    by (cases "copy_status st") (simp_all add: complete_linux_wait_with_options_def)
  moreover have "complete_linux_wait_with_options t parent_pid selector pid' status' include_stopped copy_status = (t, Inr None)"
    if "(pid', status') \<noteq> (pid, st)" for pid' status'
    using that WaitReady by (auto simp: complete_linux_wait_with_options_def)
  ultimately show ?thesis unfolding WaitReady using i collected_not_waitable [OF i(2)] by auto
next
  case WaitWouldBlock
  then have "complete_linux_wait_with_options t parent_pid selector pid' status' include_stopped copy_status = (t, Inr None)"
    for pid' status' by (simp add: complete_linux_wait_with_options_def)
  with WaitWouldBlock show ?thesis
    by (auto simp: wait_outcome_with_options_def select_waitable_with_options_def filter_empty_conv list_ex_iff
        split: option.splits if_splits)
next
  case WaitNoChildren
  then have "complete_linux_wait_with_options t parent_pid selector pid' status' include_stopped copy_status = (t, Inr None)"
    for pid' status' by (simp add: complete_linux_wait_with_options_def)
  with WaitNoChildren show ?thesis by (auto simp: wait_outcome_with_options_def split: option.splits if_splits)
qed

subsection \<open>Concrete instances\<close>

text \<open>A root process with a stopped child and a child that has exited.\<close>

definition example_processes :: LinuxProcessTable where
  "example_processes =
     \<lparr>pt_processes =
        [\<lparr>pc_pid = 1, pc_parent_pid = 0, pc_process_group = 1, pc_root_scheduler_thread = 3, pc_state = PRunning,
          pc_wait_status = 0, pc_exit_signal = 0\<rparr>,
         \<lparr>pc_pid = 4, pc_parent_pid = 1, pc_process_group = 1, pc_root_scheduler_thread = 4, pc_state = PZombie,
          pc_wait_status = 0x700, pc_exit_signal = 17\<rparr>,
         \<lparr>pc_pid = 3, pc_parent_pid = 1, pc_process_group = 1, pc_root_scheduler_thread = 5, pc_state = PRunning,
          pc_wait_status = 0x137f, pc_exit_signal = 17\<rparr>],
      pt_next_pid = 5, pt_exhausted = False, pt_launch_reaper = True\<rparr>"

lemma example_root_step:
  "process_step\<^sup>*\<^sup>* (process_table_new 3, []) (fst (register_root (process_table_new 3) 7), [])"
  by (rule r_into_rtranclp) (rule process_step.ps_root)

theorem process_pids_never_reused_witness:
  "\<exists>u r. reserve_child (fst (register_root (process_table_new 3) 7)) 1 8 = (u, Inr r) \<and> process_ok u \<and> 1 < pr_pid r"
proof -
  let ?c = "reserve_child (fst (register_root (process_table_new 3) 7)) 1 8"
  have "\<not> isl (snd ?c)" by code_simp
  then obtain r where c: "?c = (fst ?c, Inr r)" by (metis isl_def prod.collapse sum.exhaust_sel)
  from process_pids_never_reused [OF example_root_step c] have "process_ok (fst ?c)" "1 < pr_pid r"
    by (simp_all add: LINUX_ROOT_PID_def)
  then show ?thesis using c by blast
qed

theorem process_lifecycle_witness:
  "list_all2 process_follows (pt_processes (fst (register_root (process_table_new 3) 7)))
     (pt_processes (fst (process_exit (fst (register_root (process_table_new 3) 7)) 1 0x100)))
   \<and> map pc_state (pt_processes (fst (process_exit (fst (register_root (process_table_new 3) 7)) 1 0x100)))
       = [PZombie, PEmpty, PEmpty]"
proof -
  let ?t = "fst (register_root (process_table_new 3) 7)"
  have s: "process_step (?t, []) (fst (process_exit ?t 1 0x100), [])" by (rule process_step.ps_exit)
  have "map pc_state (pt_processes (fst (process_exit ?t 1 0x100))) = [PZombie, PEmpty, PEmpty]" by code_simp
  then show ?thesis using process_lifecycle [OF example_root_step s] by simp
qed

theorem wait_collects_least_once_witness:
  "(\<exists>i. complete_linux_wait_with_options example_processes 1 WaitAny 3 0x137f True (\<lambda>_. Inr () :: unit + unit)
       = (put_process example_processes i (collected (pt_processes example_processes ! i)), Inr (Some 3)))
   \<and> complete_linux_wait_with_options example_processes 1 WaitAny 3 0x137f True (\<lambda>_. Inl () :: unit + unit)
       = (example_processes, Inl (WaitCopy ()))"
proof -
  have ok: "process_ok example_processes" by code_simp
  have o: "wait_outcome_with_options example_processes 1 WaitAny True = WaitReady 3 0x137f" by code_simp
  note w = wait_collects_least_once [OF ok, where parent_pid = 1 and selector = WaitAny and include_stopped = True
      and parent' = 0 and selector' = WaitAny and stopped' = True, unfolded o LinuxWaitOutcome.case]
  show ?thesis using w [of "\<lambda>_. Inr ()"] w [of "\<lambda>_. Inl ()"] by (simp only: sum.case) blast
qed

end
