(* ===== verification/Linux_Fork.thy ===== *)
theory Linux_Fork
  imports Linux_Wait
begin

text \<open>
  The fork transaction (\<open>src/src/syscall/linux_fork_logic_shared.rs\<close>, with the acquisition ledger
  and the failure points of \<open>linux_process_memory_logic_shared.rs\<close>): the stages in which a fork
  acquires the parts of a child, their rollback when a stage fails, and the cloning and mapping
  of pages.

  A trait is a record of functions on the state of the implementing type; the closures that
  decide about injected failures are functions on a state of their own.  A step of the
  transaction maps a state to a state and a result, and a sequence of \<open>?\<close> operators is a list of
  steps that is run up to the first failure.
\<close>

subsection \<open>Stages and failure points\<close>

datatype LinuxForkAcquisition =
  SchedulerThread | Task | Process | Resources | Memory | Configured

datatype LinuxForkFailurePoint =
    FpSchedulerThread | FpTask | FpProcess | FpChildRoot | FpTablePage | FpDescriptorReference
  | FpSharedReference | FpPrivatePage | FpPrivatePageAllocation | FpPrivatePageCopy | FpPrivatePageMap
  | FpSharedPageMap | FpMemory | FpConfigured | FpProcessPublication | FpTaskPublication
  | FpSchedulerPublication

record LinuxForkFailureSchedule =
  fs_point :: LinuxForkFailurePoint
  fs_remaining :: usize
  fs_active :: bool

definition failure_schedule_new :: "LinuxForkFailurePoint \<Rightarrow> usize \<Rightarrow> LinuxForkFailureSchedule" where
  "failure_schedule_new point occurrence = \<lparr>fs_point = point, fs_remaining = occurrence, fs_active = True\<rparr>"

definition should_fail ::
  "LinuxForkFailureSchedule \<Rightarrow> LinuxForkFailurePoint \<Rightarrow> LinuxForkFailureSchedule \<times> bool" where
  "should_fail s point =
     (if \<not> fs_active s \<or> point \<noteq> fs_point s then (s, False)
      else if fs_remaining s \<noteq> 0 then (s\<lparr>fs_remaining := fs_remaining s - 1\<rparr>, False)
      else (s\<lparr>fs_active := False\<rparr>, True))"

text \<open>The two atomics of the kernel; no point is configured when the first holds \<open>COUNT\<close>.\<close>

record fork_failpoints =
  fp_point :: "LinuxForkFailurePoint option"
  fp_occurrence :: usize

definition configure_fork_failure :: "LinuxForkFailurePoint \<Rightarrow> usize \<Rightarrow> fork_failpoints" where
  "configure_fork_failure point occurrence = \<lparr>fp_point = Some point, fp_occurrence = occurrence\<rparr>"

definition clear_fork_failure :: fork_failpoints where
  "clear_fork_failure = \<lparr>fp_point = None, fp_occurrence = 0\<rparr>"

definition fork_failpoint :: "fork_failpoints \<Rightarrow> LinuxForkFailurePoint \<Rightarrow> fork_failpoints \<times> bool" where
  "fork_failpoint s point =
     (if fp_point s \<noteq> Some point then (s, False)
      else if fp_occurrence s \<noteq> 0 then (s\<lparr>fp_occurrence := fp_occurrence s - 1\<rparr>, False)
      else (clear_fork_failure, True))"

subsection \<open>The acquisition ledger\<close>

definition ORDER :: "LinuxForkAcquisition list" where
  "ORDER = [SchedulerThread, Task, Process, Resources, Memory, Configured]"

record LinuxForkAcquisitionLedger =
  acquired :: "LinuxForkAcquisition option list"
  ledger_len :: nat

definition ledger_new :: LinuxForkAcquisitionLedger where
  "ledger_new = \<lparr>acquired = replicate 6 None, ledger_len = 0\<rparr>"

definition ledger_acquire :: "LinuxForkAcquisitionLedger \<Rightarrow> LinuxForkAcquisition \<Rightarrow> LinuxForkAcquisitionLedger \<times> bool" where
  "ledger_acquire l stage =
     (if (if ledger_len l < length ORDER then Some (ORDER ! ledger_len l) else None) \<noteq> Some stage then (l, False)
      else (\<lparr>acquired = (acquired l)[ledger_len l := Some stage], ledger_len = ledger_len l + 1\<rparr>, True))"

function rollback_loop ::
  "LinuxForkAcquisitionLedger \<Rightarrow> LinuxForkAcquisition option list \<Rightarrow> nat
     \<Rightarrow> LinuxForkAcquisitionLedger \<times> LinuxForkAcquisition option list \<times> nat" where
  "rollback_loop l out written =
     (if ledger_len l \<noteq> 0 \<and> written < length out
      then
        let len = ledger_len l - 1
        in rollback_loop \<lparr>acquired = (acquired l)[len := None], ledger_len = len\<rparr>
             (out[written := acquired l ! len]) (written + 1)
      else (l, out, written))"
  by pat_completeness auto
termination
  by (relation "measure (\<lambda>(l, out, written). ledger_len l)") auto

declare rollback_loop.simps [simp del]

definition rollback_into ::
  "LinuxForkAcquisitionLedger \<Rightarrow> LinuxForkAcquisition option list
     \<Rightarrow> LinuxForkAcquisitionLedger \<times> LinuxForkAcquisition option list \<times> nat" where
  "rollback_into l out = rollback_loop l out 0"

definition ledger_release :: "LinuxForkAcquisitionLedger \<Rightarrow> LinuxForkAcquisition \<Rightarrow> LinuxForkAcquisitionLedger \<times> bool" where
  "ledger_release l stage =
     (if ledger_len l = 0 \<or> acquired l ! (ledger_len l - 1) \<noteq> Some stage then (l, False)
      else (\<lparr>acquired = (acquired l)[ledger_len l - 1 := None], ledger_len = ledger_len l - 1\<rparr>, True))"

definition ledger_is_empty :: "LinuxForkAcquisitionLedger \<Rightarrow> bool" where
  "ledger_is_empty l = (ledger_len l = 0)"

subsection \<open>The transaction\<close>

type_synonym ('s, 'e, 'a) effect = "'s \<Rightarrow> 's \<times> ('e + 'a)"

record ('b, 'e, 'out) LinuxForkTransactionBackend =
  be_injected_failure :: "'b \<Rightarrow> 'e"
  be_acquire_scheduler_thread :: "('b, 'e, unit) effect"
  be_acquire_task :: "('b, 'e, unit) effect"
  be_acquire_process :: "('b, 'e, unit) effect"
  be_acquire_resources :: "('b, 'e, unit) effect"
  be_acquire_memory :: "('b, 'e, unit) effect"
  be_configure_child :: "('b, 'e, unit) effect"
  be_install_resources :: "('b, 'e, unit) effect"
  be_begin_publication :: "('b, 'e, unit) effect"
  be_publish_process :: "('b, 'e, unit) effect"
  be_publish_task :: "('b, 'e, unit) effect"
  be_publish_scheduler_thread :: "('b, 'e, unit) effect"
  be_complete_publication :: "('b, 'e, unit) effect"
  be_finish :: "('b, 'e, 'out) effect"
  be_rollback :: "LinuxForkAcquisition \<Rightarrow> 'b \<Rightarrow> 'b"

record 'b LinuxForkTransaction =
  tx_backend :: 'b
  tx_ledger :: LinuxForkAcquisitionLedger
  tx_committed :: bool

definition transaction_new :: "'b \<Rightarrow> 'b LinuxForkTransaction" where
  "transaction_new backend = \<lparr>tx_backend = backend, tx_ledger = ledger_new, tx_committed = False\<rparr>"

definition tx_call :: "('b, 'e, 'a) effect \<Rightarrow> ('b LinuxForkTransaction, 'e, 'a) effect" where
  "tx_call operation tx = (case operation (tx_backend tx) of (b, r) \<Rightarrow> (tx\<lparr>tx_backend := b\<rparr>, r))"

definition tx_acquire ::
  "('b, 'e, 'out) LinuxForkTransactionBackend \<Rightarrow> LinuxForkAcquisition \<Rightarrow> ('b, 'e, unit) effect
     \<Rightarrow> ('b LinuxForkTransaction, 'e, unit) effect" where
  "tx_acquire B stage operation tx =
     (case ledger_acquire (tx_ledger tx) stage of
        (l, False) \<Rightarrow> (tx\<lparr>tx_ledger := l\<rparr>, Inl (be_injected_failure B (tx_backend tx)))
      | (l, True) \<Rightarrow> tx_call operation (tx\<lparr>tx_ledger := l\<rparr>))"

definition on_tx ::
  "('b LinuxForkTransaction, 'e, unit) effect \<Rightarrow> ('b LinuxForkTransaction \<times> 'f, 'e, unit) effect" where
  "on_tx step x = (case step (fst x) of (tx, r) \<Rightarrow> ((tx, snd x), r))"

definition tx_fail_if ::
  "('b, 'e, 'out) LinuxForkTransactionBackend \<Rightarrow> ('f \<Rightarrow> LinuxForkFailurePoint \<Rightarrow> 'f \<times> bool) \<Rightarrow> LinuxForkFailurePoint
     \<Rightarrow> ('b LinuxForkTransaction \<times> 'f, 'e, unit) effect" where
  "tx_fail_if B fails point x =
     (case fails (snd x) point of
        (f, True) \<Rightarrow> ((fst x, f), Inl (be_injected_failure B (tx_backend (fst x))))
      | (f, False) \<Rightarrow> ((fst x, f), Inr ()))"

text \<open>\<open>Drop\<close> of a transaction that was not committed rolls its stages back.\<close>

definition tx_drop :: "('b, 'e, 'out) LinuxForkTransactionBackend \<Rightarrow> 'b LinuxForkTransaction \<Rightarrow> 'b LinuxForkTransaction" where
  "tx_drop B tx =
     (if tx_committed tx then tx
      else
        (case rollback_into (tx_ledger tx) (replicate 6 None) of
           (l, rollback, rollback_len) \<Rightarrow>
             tx\<lparr>tx_ledger := l,
                tx_backend := fold (be_rollback B) (flatten (take rollback_len rollback)) (tx_backend tx)\<rparr>))"

fun run_steps :: "('s, 'e, unit) effect list \<Rightarrow> ('s, 'e, unit) effect" where
  "run_steps [] s = (s, Inr ())"
| "run_steps (step # steps) s =
     (case step s of
        (s, Inl e) \<Rightarrow> (s, Inl e)
      | (s, Inr _) \<Rightarrow> run_steps steps s)"

definition fork_stages ::
  "('b, 'e, 'out) LinuxForkTransactionBackend \<Rightarrow> ('f \<Rightarrow> LinuxForkFailurePoint \<Rightarrow> 'f \<times> bool)
     \<Rightarrow> ('b LinuxForkTransaction \<times> 'f, 'e, unit) effect list" where
  "fork_stages B fails =
     [on_tx (tx_acquire B SchedulerThread (be_acquire_scheduler_thread B)),
      tx_fail_if B fails FpSchedulerThread,
      on_tx (tx_acquire B Task (be_acquire_task B)),
      tx_fail_if B fails FpTask,
      on_tx (tx_acquire B Process (be_acquire_process B)),
      tx_fail_if B fails FpProcess,
      on_tx (tx_acquire B Resources (be_acquire_resources B)),
      on_tx (tx_acquire B Memory (be_acquire_memory B)),
      tx_fail_if B fails FpMemory,
      on_tx (tx_acquire B Configured (be_configure_child B)),
      tx_fail_if B fails FpConfigured,
      on_tx (tx_call (be_install_resources B)),
      on_tx (tx_call (be_begin_publication B)),
      on_tx (tx_call (be_publish_process B)),
      tx_fail_if B fails FpProcessPublication,
      on_tx (tx_call (be_publish_task B)),
      tx_fail_if B fails FpTaskPublication,
      on_tx (tx_call (be_publish_scheduler_thread B)),
      tx_fail_if B fails FpSchedulerPublication,
      on_tx (tx_call (be_complete_publication B))]"

definition run_linux_fork_transaction ::
  "('b, 'e, 'out) LinuxForkTransactionBackend \<Rightarrow> ('f \<Rightarrow> LinuxForkFailurePoint \<Rightarrow> 'f \<times> bool) \<Rightarrow> 'b \<Rightarrow> 'f
     \<Rightarrow> 'b LinuxForkTransaction \<times> ('e + 'out)" where
  "run_linux_fork_transaction B fails backend f =
     (case run_steps (fork_stages B fails) (transaction_new backend, f) of
        ((tx, _), Inl e) \<Rightarrow> (tx_drop B tx, Inl e)
      | ((tx, _), Inr _) \<Rightarrow>
          (case tx_call (be_finish B) tx of
             (tx, Inl e) \<Rightarrow> (tx_drop B tx, Inl e)
           | (tx, Inr output) \<Rightarrow> (tx_drop B (tx\<lparr>tx_committed := True\<rparr>), Inr output)))"

subsection \<open>Ownership of the acquired parts\<close>

record ('o, 'e, 'out, 'st, 'par, 'task, 'proc, 'res, 'mem, 'conf, 'pub) LinuxForkOwnershipOps =
  op_injected_failure :: "'o \<Rightarrow> 'e"
  op_acquire_scheduler_thread :: "('o, 'e, 'st) effect"
  op_acquire_task :: "'st \<Rightarrow> ('o, 'e, 'par \<times> 'task) effect"
  op_acquire_process :: "'par \<Rightarrow> 'st \<Rightarrow> 'task \<Rightarrow> ('o, 'e, 'proc) effect"
  op_acquire_resources :: "'par \<Rightarrow> ('o, 'e, 'res) effect"
  op_acquire_memory :: "'par \<Rightarrow> 'proc \<Rightarrow> ('o \<times> 'res, 'e, 'mem) effect"
  op_configure_child :: "'proc \<Rightarrow> 'st \<Rightarrow> 'mem \<Rightarrow> ('o, 'e, 'conf) effect"
  op_install_resources :: "'proc \<Rightarrow> ('o \<times> 'res option, 'e, unit) effect"
  op_begin_publication :: "('o, 'e, 'pub) effect"
  op_publish_process :: "'proc \<Rightarrow> 'conf \<Rightarrow> ('o, 'e, unit) effect"
  op_publish_task :: "'task \<Rightarrow> ('o, 'e, unit) effect"
  op_publish_scheduler_thread :: "'st \<Rightarrow> ('o, 'e, unit) effect"
  op_complete_publication :: "'proc \<Rightarrow> ('o, 'e, unit) effect"
  op_finish :: "'proc \<Rightarrow> 'conf \<Rightarrow> ('o, 'e, 'out) effect"
  op_restore_publication :: "'pub \<Rightarrow> 'o \<Rightarrow> 'o"
  op_rollback_configured :: "'conf \<Rightarrow> 'o \<Rightarrow> 'o"
  op_rollback_memory :: "'mem \<Rightarrow> 'o \<Rightarrow> 'o"
  op_rollback_reserved_resources :: "'res \<Rightarrow> 'o \<Rightarrow> 'o"
  op_rollback_installed_resources :: "'proc \<Rightarrow> 'o \<Rightarrow> 'o"
  op_rollback_process :: "'proc \<Rightarrow> 'o \<Rightarrow> 'o"
  op_rollback_task :: "'task \<Rightarrow> 'o \<Rightarrow> 'o"
  op_rollback_scheduler_thread :: "'st \<Rightarrow> 'o \<Rightarrow> 'o"

record ('o, 'st, 'par, 'task, 'proc, 'res, 'mem, 'conf, 'pub) LinuxForkOwnershipCore =
  fc_ops :: 'o
  fc_scheduler_thread :: "'st option"
  fc_parent :: "'par option"
  fc_task :: "'task option"
  fc_process :: "'proc option"
  fc_resources :: "'res option"
  fc_resources_installed :: bool
  fc_memory :: "'mem option"
  fc_configured :: "'conf option"
  fc_publication :: "'pub option"

definition ownership_new :: "'o \<Rightarrow> ('o, 'st, 'par, 'task, 'proc, 'res, 'mem, 'conf, 'pub) LinuxForkOwnershipCore" where
  "ownership_new ops =
     \<lparr>fc_ops = ops, fc_scheduler_thread = None, fc_parent = None, fc_task = None, fc_process = None,
      fc_resources = None, fc_resources_installed = False, fc_memory = None, fc_configured = None,
      fc_publication = None\<rparr>"

text \<open>\<open>as_ref().ok_or_else(|| self.ops.injected_failure())\<close> in front of the rest of a method.\<close>

definition owned ::
  "('o \<Rightarrow> 'e) \<Rightarrow> 'a option \<Rightarrow> ('a \<Rightarrow> (('o, 'st, 'par, 'task, 'proc, 'res, 'mem, 'conf, 'pub) LinuxForkOwnershipCore, 'e, 'b) effect)
     \<Rightarrow> (('o, 'st, 'par, 'task, 'proc, 'res, 'mem, 'conf, 'pub) LinuxForkOwnershipCore, 'e, 'b) effect" where
  "owned failure x k core = (case x of None \<Rightarrow> (core, Inl (failure (fc_ops core))) | Some v \<Rightarrow> k v core)"

text \<open>A call of one of the operations, with its result stored when it succeeds.\<close>

definition with_ops ::
  "('o, 'e, 'a) effect \<Rightarrow>
   ('a \<Rightarrow> ('o, 'st, 'par, 'task, 'proc, 'res, 'mem, 'conf, 'pub) LinuxForkOwnershipCore
       \<Rightarrow> ('o, 'st, 'par, 'task, 'proc, 'res, 'mem, 'conf, 'pub) LinuxForkOwnershipCore)
     \<Rightarrow> (('o, 'st, 'par, 'task, 'proc, 'res, 'mem, 'conf, 'pub) LinuxForkOwnershipCore, 'e, unit) effect" where
  "with_ops call store core =
     (case call (fc_ops core) of
        (ops, Inl e) \<Rightarrow> (core\<lparr>fc_ops := ops\<rparr>, Inl e)
      | (ops, Inr v) \<Rightarrow> (store v (core\<lparr>fc_ops := ops\<rparr>), Inr ()))"

definition fc_acquire_scheduler_thread where
  "fc_acquire_scheduler_thread D core =
     with_ops (op_acquire_scheduler_thread D) (\<lambda>v core. core\<lparr>fc_scheduler_thread := Some v\<rparr>) core"

definition fc_acquire_task where
  "fc_acquire_task D core =
     owned (op_injected_failure D) (fc_scheduler_thread core) (\<lambda>scheduler_thread.
       with_ops (op_acquire_task D scheduler_thread)
         (\<lambda>(parent, task) core. core\<lparr>fc_parent := Some parent, fc_task := Some task\<rparr>)) core"

definition fc_acquire_process where
  "fc_acquire_process D core =
     owned (op_injected_failure D) (fc_parent core) (\<lambda>parent.
       owned (op_injected_failure D) (fc_scheduler_thread core) (\<lambda>scheduler_thread.
         owned (op_injected_failure D) (fc_task core) (\<lambda>task.
           with_ops (op_acquire_process D parent scheduler_thread task)
             (\<lambda>v core. core\<lparr>fc_process := Some v\<rparr>)))) core"

definition fc_acquire_resources where
  "fc_acquire_resources D core =
     owned (op_injected_failure D) (fc_parent core) (\<lambda>parent.
       with_ops (op_acquire_resources D parent) (\<lambda>v core. core\<lparr>fc_resources := Some v\<rparr>)) core"

definition fc_acquire_memory where
  "fc_acquire_memory D core =
     owned (op_injected_failure D) (fc_parent core) (\<lambda>parent.
       owned (op_injected_failure D) (fc_process core) (\<lambda>process.
         owned (op_injected_failure D) (fc_resources core) (\<lambda>resources core.
           (case op_acquire_memory D parent process (fc_ops core, resources) of
              ((ops, resources), Inl e) \<Rightarrow> (core\<lparr>fc_ops := ops, fc_resources := Some resources\<rparr>, Inl e)
            | ((ops, resources), Inr v) \<Rightarrow>
                (core\<lparr>fc_ops := ops, fc_resources := Some resources, fc_memory := Some v\<rparr>, Inr ()))))) core"

definition fc_configure_child where
  "fc_configure_child D core =
     owned (op_injected_failure D) (fc_process core) (\<lambda>process.
       owned (op_injected_failure D) (fc_scheduler_thread core) (\<lambda>scheduler_thread.
         owned (op_injected_failure D) (fc_memory core) (\<lambda>memory.
           with_ops (op_configure_child D process scheduler_thread memory)
             (\<lambda>v core. core\<lparr>fc_configured := Some v\<rparr>)))) core"

definition fc_install_resources where
  "fc_install_resources D core =
     owned (op_injected_failure D) (fc_process core) (\<lambda>process core.
       (case op_install_resources D process (fc_ops core, fc_resources core) of
          ((ops, resources), Inl e) \<Rightarrow> (core\<lparr>fc_ops := ops, fc_resources := resources\<rparr>, Inl e)
        | ((ops, resources), Inr _) \<Rightarrow>
            (core\<lparr>fc_ops := ops, fc_resources := resources, fc_resources_installed := True\<rparr>, Inr ()))) core"

definition fc_begin_publication where
  "fc_begin_publication D core =
     (if fc_publication core \<noteq> None then (core, Inl (op_injected_failure D (fc_ops core)))
      else with_ops (op_begin_publication D) (\<lambda>v core. core\<lparr>fc_publication := Some v\<rparr>) core)"

definition fc_publish_process where
  "fc_publish_process D core =
     owned (op_injected_failure D) (fc_process core) (\<lambda>process.
       owned (op_injected_failure D) (fc_configured core) (\<lambda>configured.
         with_ops (op_publish_process D process configured) (\<lambda>_ core. core))) core"

definition fc_publish_task where
  "fc_publish_task D core =
     owned (op_injected_failure D) (fc_task core) (\<lambda>task. with_ops (op_publish_task D task) (\<lambda>_ core. core)) core"

definition fc_publish_scheduler_thread where
  "fc_publish_scheduler_thread D core =
     owned (op_injected_failure D) (fc_scheduler_thread core) (\<lambda>scheduler_thread.
       with_ops (op_publish_scheduler_thread D scheduler_thread) (\<lambda>_ core. core)) core"

definition fc_complete_publication where
  "fc_complete_publication D core =
     owned (op_injected_failure D) (fc_process core) (\<lambda>process.
       with_ops (op_complete_publication D process) (\<lambda>_ core. core)) core"

definition restore_publication where
  "restore_publication D core =
     (case fc_publication core of
        None \<Rightarrow> core
      | Some publication \<Rightarrow>
          core\<lparr>fc_publication := None, fc_ops := op_restore_publication D publication (fc_ops core)\<rparr>)"

definition fc_finish where
  "fc_finish D core =
     owned (op_injected_failure D) (fc_process core) (\<lambda>process.
       owned (op_injected_failure D) (fc_configured core) (\<lambda>configured core.
         (case op_finish D process configured (fc_ops core) of
            (ops, Inl e) \<Rightarrow> (core\<lparr>fc_ops := ops\<rparr>, Inl e)
          | (ops, Inr output) \<Rightarrow> (restore_publication D (core\<lparr>fc_ops := ops\<rparr>), Inr output)))) core"

definition fc_rollback where
  "fc_rollback D acquisition core =
     (case acquisition of
        Configured \<Rightarrow>
          (case fc_configured core of
             None \<Rightarrow> core
           | Some configured \<Rightarrow>
               core\<lparr>fc_configured := None, fc_ops := op_rollback_configured D configured (fc_ops core)\<rparr>)
      | Memory \<Rightarrow>
          (case fc_memory core of
             None \<Rightarrow> core
           | Some memory \<Rightarrow> core\<lparr>fc_memory := None, fc_ops := op_rollback_memory D memory (fc_ops core)\<rparr>)
      | Resources \<Rightarrow>
          (let core =
             (if fc_resources_installed core
              then (case fc_process core of
                      None \<Rightarrow> core
                    | Some process \<Rightarrow> core\<lparr>fc_ops := op_rollback_installed_resources D process (fc_ops core)\<rparr>)
                     \<lparr>fc_resources_installed := False\<rparr>
              else core)
           in case fc_resources core of
                None \<Rightarrow> core
              | Some resources \<Rightarrow>
                  core\<lparr>fc_resources := None, fc_ops := op_rollback_reserved_resources D resources (fc_ops core)\<rparr>)
      | Process \<Rightarrow>
          (case fc_process core of
             None \<Rightarrow> core
           | Some process \<Rightarrow> core\<lparr>fc_process := None, fc_ops := op_rollback_process D process (fc_ops core)\<rparr>)
      | Task \<Rightarrow>
          (case fc_task core of
             None \<Rightarrow> core
           | Some task \<Rightarrow> core\<lparr>fc_task := None, fc_ops := op_rollback_task D task (fc_ops core)\<rparr>)
      | SchedulerThread \<Rightarrow>
          restore_publication D
            (case fc_scheduler_thread core of
               None \<Rightarrow> core
             | Some scheduler_thread \<Rightarrow>
                 core\<lparr>fc_scheduler_thread := None,
                      fc_ops := op_rollback_scheduler_thread D scheduler_thread (fc_ops core)\<rparr>))"

definition ownership_backend where
  "ownership_backend D =
     \<lparr>be_injected_failure = (\<lambda>core. op_injected_failure D (fc_ops core)),
      be_acquire_scheduler_thread = fc_acquire_scheduler_thread D,
      be_acquire_task = fc_acquire_task D,
      be_acquire_process = fc_acquire_process D,
      be_acquire_resources = fc_acquire_resources D,
      be_acquire_memory = fc_acquire_memory D,
      be_configure_child = fc_configure_child D,
      be_install_resources = fc_install_resources D,
      be_begin_publication = fc_begin_publication D,
      be_publish_process = fc_publish_process D,
      be_publish_task = fc_publish_task D,
      be_publish_scheduler_thread = fc_publish_scheduler_thread D,
      be_complete_publication = fc_complete_publication D,
      be_finish = fc_finish D,
      be_rollback = fc_rollback D\<rparr>"

subsection \<open>Cloning and mapping pages\<close>

record ('o, 'p, 'e) LinuxForkPageOps =
  pg_failure_error :: "'o \<Rightarrow> 'e"
  pg_is_private :: "'o \<Rightarrow> 'p \<Rightarrow> bool"
  pg_allocate_private :: "'p \<Rightarrow> ('o, 'e, 'p) effect"
  pg_copy_private :: "'p \<Rightarrow> 'p \<Rightarrow> ('o, 'e, unit) effect"
  pg_acquire_shared :: "'p \<Rightarrow> ('o, 'e, 'p) effect"
  pg_release_page :: "'p \<Rightarrow> 'o \<Rightarrow> 'o"
  pg_map_page :: "usize \<Rightarrow> 'p \<Rightarrow> usize \<Rightarrow> ('o, 'e, unit) effect"
  pg_unmap_page :: "usize \<Rightarrow> 'o \<Rightarrow> 'o"

definition linux_fork_page_failure ::
  "LinuxForkFailurePoint \<Rightarrow> LinuxForkFailurePoint \<Rightarrow> ('f \<Rightarrow> LinuxForkFailurePoint \<Rightarrow> 'f \<times> bool) \<Rightarrow> 'f \<Rightarrow> 'f \<times> bool" where
  "linux_fork_page_failure specific aggregate fails f =
     (case fails f specific of (f, True) \<Rightarrow> (f, True) | (f, False) \<Rightarrow> fails f aggregate)"

definition release_linux_fork_pages :: "('o, 'p, 'e) LinuxForkPageOps \<Rightarrow> 'p list \<Rightarrow> 'o \<Rightarrow> 'o" where
  "release_linux_fork_pages P pages ops = fold (pg_release_page P) (rev pages) ops"

text \<open>
  One page of the parent.  The pages cloned before are released by the caller; \<open>Inl None\<close> stands
  for \<open>failure_error()\<close>, which is asked for after that.
\<close>

definition clone_page ::
  "('o, 'p, 'e) LinuxForkPageOps \<Rightarrow> ('f \<Rightarrow> LinuxForkFailurePoint \<Rightarrow> 'f \<times> bool) \<Rightarrow> 'p \<Rightarrow> ('o \<times> 'f, 'e option, 'p) effect" where
  "clone_page P fails parent x =
     (let (ops, f) = x
      in if pg_is_private P ops parent
         then
           (case pg_allocate_private P parent ops of
              (ops, Inl error) \<Rightarrow> ((ops, f), Inl (Some error))
            | (ops, Inr child) \<Rightarrow>
                (case linux_fork_page_failure FpPrivatePageAllocation FpPrivatePage fails f of
                   (f, True) \<Rightarrow> ((pg_release_page P child ops, f), Inl None)
                 | (f, False) \<Rightarrow>
                     (case pg_copy_private P parent child ops of
                        (ops, Inl error) \<Rightarrow> ((pg_release_page P child ops, f), Inl (Some error))
                      | (ops, Inr _) \<Rightarrow>
                          (case linux_fork_page_failure FpPrivatePageCopy FpPrivatePage fails f of
                             (f, True) \<Rightarrow> ((pg_release_page P child ops, f), Inl None)
                           | (f, False) \<Rightarrow> ((ops, f), Inr child)))))
         else
           (case pg_acquire_shared P parent ops of
              (ops, Inl error) \<Rightarrow> ((ops, f), Inl (Some error))
            | (ops, Inr child) \<Rightarrow>
                (case fails f FpSharedReference of
                   (f, True) \<Rightarrow> ((pg_release_page P child ops, f), Inl None)
                 | (f, False) \<Rightarrow> ((ops, f), Inr child))))"

fun clone_pages_loop ::
  "('o, 'p, 'e) LinuxForkPageOps \<Rightarrow> ('f \<Rightarrow> LinuxForkFailurePoint \<Rightarrow> 'f \<times> bool) \<Rightarrow> 'p list \<Rightarrow> 'p list
     \<Rightarrow> ('o \<times> 'f, 'e, 'p list) effect" where
  "clone_pages_loop P fails [] child_pages x = (x, Inr child_pages)"
| "clone_pages_loop P fails (parent # parents) child_pages x =
     (case clone_page P fails parent x of
        ((ops, f), Inl error) \<Rightarrow>
          let ops = release_linux_fork_pages P child_pages ops
          in ((ops, f), Inl (case error of Some error \<Rightarrow> error | None \<Rightarrow> pg_failure_error P ops))
      | (x, Inr child) \<Rightarrow> clone_pages_loop P fails parents (child_pages @ [child]) x)"

definition clone_linux_fork_pages ::
  "('o, 'p, 'e) LinuxForkPageOps \<Rightarrow> ('f \<Rightarrow> LinuxForkFailurePoint \<Rightarrow> 'f \<times> bool) \<Rightarrow> bool \<Rightarrow> 'p list
     \<Rightarrow> ('o \<times> 'f, 'e, 'p list) effect" where
  "clone_linux_fork_pages P fails alloc parent_pages x =
     (if \<not> alloc then (x, Inl (pg_failure_error P (fst x))) else clone_pages_loop P fails parent_pages [] x)"

definition page_at :: "usize \<Rightarrow> usize \<Rightarrow> nat \<Rightarrow> usize" where
  "page_at address page_size index = address + of_nat index * page_size"

definition unmap_linux_fork_pages :: "('o, 'p, 'e) LinuxForkPageOps \<Rightarrow> usize \<Rightarrow> usize \<Rightarrow> nat \<Rightarrow> 'o \<Rightarrow> 'o" where
  "unmap_linux_fork_pages P address page_size mapped ops =
     fold (\<lambda>rollback. pg_unmap_page P (page_at address page_size rollback)) (rev [0..<mapped]) ops"

fun map_pages_loop ::
  "('o, 'p, 'e) LinuxForkPageOps \<Rightarrow> ('f \<Rightarrow> LinuxForkFailurePoint \<Rightarrow> 'f \<times> bool) \<Rightarrow> usize \<Rightarrow> usize \<Rightarrow> (nat \<Rightarrow> usize)
     \<Rightarrow> 'p list \<Rightarrow> nat \<Rightarrow> ('o \<times> 'f, 'e, unit) effect" where
  "map_pages_loop P fails address page_size protection [] mapped x = (x, Inr ())"
| "map_pages_loop P fails address page_size protection (page # pages) mapped (ops, f) =
     (case (case checked_mul (of_nat mapped) page_size of None \<Rightarrow> None | Some offset \<Rightarrow> checked_add address offset) of
        None \<Rightarrow>
          let ops = unmap_linux_fork_pages P address page_size mapped ops in ((ops, f), Inl (pg_failure_error P ops))
      | Some page_address \<Rightarrow>
          (case pg_map_page P page_address page (protection mapped) ops of
             (ops, Inl error) \<Rightarrow> ((unmap_linux_fork_pages P address page_size mapped ops, f), Inl error)
           | (ops, Inr _) \<Rightarrow>
               (case (if pg_is_private P ops page
                      then linux_fork_page_failure FpPrivatePageMap FpPrivatePage fails f
                      else linux_fork_page_failure FpSharedPageMap FpSharedReference fails f) of
                  (f, True) \<Rightarrow>
                    let ops = unmap_linux_fork_pages P address page_size (mapped + 1) ops
                    in ((ops, f), Inl (pg_failure_error P ops))
                | (f, False) \<Rightarrow> map_pages_loop P fails address page_size protection pages (mapped + 1) (ops, f))))"

definition map_linux_fork_pages_with_protection ::
  "('o, 'p, 'e) LinuxForkPageOps \<Rightarrow> ('f \<Rightarrow> LinuxForkFailurePoint \<Rightarrow> 'f \<times> bool) \<Rightarrow> usize \<Rightarrow> usize \<Rightarrow> 'p list \<Rightarrow> (nat \<Rightarrow> usize)
     \<Rightarrow> ('o \<times> 'f, 'e, unit) effect" where
  "map_linux_fork_pages_with_protection P fails address page_size pages protection x =
     map_pages_loop P fails address page_size protection pages 0 x"

definition map_linux_fork_pages ::
  "('o, 'p, 'e) LinuxForkPageOps \<Rightarrow> ('f \<Rightarrow> LinuxForkFailurePoint \<Rightarrow> 'f \<times> bool) \<Rightarrow> usize \<Rightarrow> usize \<Rightarrow> 'p list \<Rightarrow> usize
     \<Rightarrow> ('o \<times> 'f, 'e, unit) effect" where
  "map_linux_fork_pages P fails address page_size pages prot x =
     map_linux_fork_pages_with_protection P fails address page_size pages (\<lambda>_. prot) x"

definition clone_and_map_linux_fork_pages ::
  "('o, 'p, 'e) LinuxForkPageOps \<Rightarrow> ('f \<Rightarrow> LinuxForkFailurePoint \<Rightarrow> 'f \<times> bool) \<Rightarrow> bool \<Rightarrow> usize \<Rightarrow> usize \<Rightarrow> 'p list \<Rightarrow> usize
     \<Rightarrow> ('o \<times> 'f, 'e, 'p list) effect" where
  "clone_and_map_linux_fork_pages P fails alloc address page_size parent_pages prot x =
     (case clone_linux_fork_pages P fails alloc parent_pages x of
        (x, Inl error) \<Rightarrow> (x, Inl error)
      | (x, Inr pages) \<Rightarrow>
          (case map_linux_fork_pages P fails address page_size pages prot x of
             ((ops, f), Inl error) \<Rightarrow> ((release_linux_fork_pages P pages ops, f), Inl error)
           | (x, Inr _) \<Rightarrow> (x, Inr pages)))"

subsection \<open>Context and credentials of the child\<close>

record 'f LinuxForkPreparedContext =
  ctx_frame :: 'f
  ctx_return_pc :: u64
  ctx_pstate :: u64
  ctx_user_sp :: u64
  ctx_tls :: u64
  ctx_root_paddr :: u64

definition prepare_linux_fork_context ::
  "'f \<Rightarrow> u64 \<Rightarrow> u64 \<Rightarrow> u64 \<Rightarrow> u64 \<Rightarrow> u64 \<Rightarrow> ('f \<Rightarrow> 'f) \<Rightarrow> 'f LinuxForkPreparedContext" where
  "prepare_linux_fork_context frame return_pc pstate user_sp tls root_paddr set_child_result =
     \<lparr>ctx_frame = set_child_result frame, ctx_return_pc = return_pc, ctx_pstate = pstate, ctx_user_sp = user_sp,
      ctx_tls = tls, ctx_root_paddr = root_paddr\<rparr>"

record LinuxCredentialsCore =
  real_uid :: usize
  effective_uid :: usize
  saved_uid :: usize
  filesystem_uid :: usize
  real_gid :: usize
  effective_gid :: usize
  saved_gid :: usize
  filesystem_gid :: usize

definition set_resuid :: "LinuxCredentialsCore \<Rightarrow> usize \<Rightarrow> usize \<Rightarrow> usize \<Rightarrow> LinuxCredentialsCore" where
  "set_resuid c real effective saved =
     c\<lparr>real_uid := real, effective_uid := effective, saved_uid := saved, filesystem_uid := effective\<rparr>"

definition set_resgid :: "LinuxCredentialsCore \<Rightarrow> usize \<Rightarrow> usize \<Rightarrow> usize \<Rightarrow> LinuxCredentialsCore" where
  "set_resgid c real effective saved =
     c\<lparr>real_gid := real, effective_gid := effective, saved_gid := saved, filesystem_gid := effective\<rparr>"

definition set_filesystem_uid :: "LinuxCredentialsCore \<Rightarrow> usize \<Rightarrow> LinuxCredentialsCore \<times> usize" where
  "set_filesystem_uid c uid = (c\<lparr>filesystem_uid := uid\<rparr>, filesystem_uid c)"

definition set_filesystem_gid :: "LinuxCredentialsCore \<Rightarrow> usize \<Rightarrow> LinuxCredentialsCore \<times> usize" where
  "set_filesystem_gid c gid = (c\<lparr>filesystem_gid := gid\<rparr>, filesystem_gid c)"

subsection \<open>Observing the operations\<close>

text \<open>
  Operations that behave like the given ones and write down what they hand out and take back.
  Nothing is assumed of the operations that are observed.
\<close>

datatype 'p page_event = PgTook 'p | PgGave 'p | PgMapped usize | PgUnmapped usize

definition logged_pages :: "('o, 'p, 'e) LinuxForkPageOps \<Rightarrow> ('o \<times> 'p page_event list, 'p, 'e) LinuxForkPageOps" where
  "logged_pages P =
     \<lparr>pg_failure_error = (\<lambda>(ops, log). pg_failure_error P ops),
      pg_is_private = (\<lambda>(ops, log). pg_is_private P ops),
      pg_allocate_private = (\<lambda>parent (ops, log).
        case pg_allocate_private P parent ops of
          (ops, Inl e) \<Rightarrow> ((ops, log), Inl e)
        | (ops, Inr child) \<Rightarrow> ((ops, log @ [PgTook child]), Inr child)),
      pg_copy_private = (\<lambda>parent child (ops, log).
        case pg_copy_private P parent child ops of (ops, r) \<Rightarrow> ((ops, log), r)),
      pg_acquire_shared = (\<lambda>parent (ops, log).
        case pg_acquire_shared P parent ops of
          (ops, Inl e) \<Rightarrow> ((ops, log), Inl e)
        | (ops, Inr child) \<Rightarrow> ((ops, log @ [PgTook child]), Inr child)),
      pg_release_page = (\<lambda>page (ops, log). (pg_release_page P page ops, log @ [PgGave page])),
      pg_map_page = (\<lambda>address page prot (ops, log).
        case pg_map_page P address page prot ops of
          (ops, Inl e) \<Rightarrow> ((ops, log), Inl e)
        | (ops, Inr _) \<Rightarrow> ((ops, log @ [PgMapped address]), Inr ())),
      pg_unmap_page = (\<lambda>address (ops, log). (pg_unmap_page P address ops, log @ [PgUnmapped address]))\<rparr>"

definition pages_took :: "'p page_event list \<Rightarrow> 'p list" where
  "pages_took log = List.map_filter (\<lambda>e. case e of PgTook p \<Rightarrow> Some p | _ \<Rightarrow> None) log"
definition pages_gave :: "'p page_event list \<Rightarrow> 'p list" where
  "pages_gave log = List.map_filter (\<lambda>e. case e of PgGave p \<Rightarrow> Some p | _ \<Rightarrow> None) log"
definition pages_mapped :: "'p page_event list \<Rightarrow> usize list" where
  "pages_mapped log = List.map_filter (\<lambda>e. case e of PgMapped a \<Rightarrow> Some a | _ \<Rightarrow> None) log"
definition pages_unmapped :: "'p page_event list \<Rightarrow> usize list" where
  "pages_unmapped log = List.map_filter (\<lambda>e. case e of PgUnmapped a \<Rightarrow> Some a | _ \<Rightarrow> None) log"

lemma page_event_simps [simp]:
  "pages_took [] = []" "pages_gave [] = []" "pages_mapped [] = []" "pages_unmapped [] = []"
  "pages_took (xs @ ys) = pages_took xs @ pages_took ys" "pages_gave (xs @ ys) = pages_gave xs @ pages_gave ys"
  "pages_mapped (xs @ ys) = pages_mapped xs @ pages_mapped ys"
  "pages_unmapped (xs @ ys) = pages_unmapped xs @ pages_unmapped ys"
  "pages_took (e # xs) = (case e of PgTook p \<Rightarrow> p # pages_took xs | _ \<Rightarrow> pages_took xs)"
  "pages_gave (e # xs) = (case e of PgGave p \<Rightarrow> p # pages_gave xs | _ \<Rightarrow> pages_gave xs)"
  "pages_mapped (e # xs) = (case e of PgMapped a \<Rightarrow> a # pages_mapped xs | _ \<Rightarrow> pages_mapped xs)"
  "pages_unmapped (e # xs) = (case e of PgUnmapped a \<Rightarrow> a # pages_unmapped xs | _ \<Rightarrow> pages_unmapped xs)"
  by (auto simp: pages_took_def pages_gave_def pages_mapped_def pages_unmapped_def List.map_filter_def split: page_event.splits)

lemma release_logged:
  "release_linux_fork_pages (logged_pages P) pages (ops, log)
     = (release_linux_fork_pages P pages ops, log @ map PgGave (rev pages))"
proof -
  have "fold (pg_release_page (logged_pages P)) qs (ops, log) = (fold (pg_release_page P) qs ops, log @ map PgGave qs)" for qs
    by (induction qs arbitrary: ops log) (simp_all add: logged_pages_def)
  then show ?thesis by (simp add: release_linux_fork_pages_def)
qed

lemma unmap_logged:
  "unmap_linux_fork_pages (logged_pages P) address page_size n (ops, log)
     = (unmap_linux_fork_pages P address page_size n ops, log @ map (\<lambda>i. PgUnmapped (page_at address page_size i)) (rev [0..<n]))"
proof -
  have "fold (\<lambda>i. pg_unmap_page (logged_pages P) (page_at address page_size i)) is (ops, log)
      = (fold (\<lambda>i. pg_unmap_page P (page_at address page_size i)) is ops, log @ map (\<lambda>i. PgUnmapped (page_at address page_size i)) is)" for "is"
    by (induction "is" arbitrary: ops log) (simp_all add: logged_pages_def)
  then show ?thesis by (simp add: unmap_linux_fork_pages_def)
qed

lemma page_events_gave [simp]:
  "pages_took (map PgGave ps) = [] \<and> pages_gave (map PgGave ps) = ps \<and> pages_mapped (map PgGave ps) = []
     \<and> pages_unmapped (map PgGave ps) = []"
  by (induction ps) simp_all

lemma page_events_unmapped [simp]:
  "pages_took (map (\<lambda>i. PgUnmapped (f i)) is) = [] \<and> pages_gave (map (\<lambda>i. PgUnmapped (f i)) is) = []
     \<and> pages_mapped (map (\<lambda>i. PgUnmapped (f i)) is) = [] \<and> pages_unmapped (map (\<lambda>i. PgUnmapped (f i)) is) = map f is"
  by (induction "is") simp_all

lemma clone_page_logged:
  assumes "clone_page (logged_pages P) fails parent ((ops, log), f) = (((ops', log'), f'), r)"
  shows "case r of
      Inl _ \<Rightarrow> log' = log \<or> (\<exists>p. log' = log @ [PgTook p, PgGave p])
    | Inr child \<Rightarrow> log' = log @ [PgTook child]"
  using assms
  by (auto simp: clone_page_def logged_pages_def split: if_splits prod.splits sum.splits bool.splits)

lemma clone_pages_loop_logged:
  assumes "clone_pages_loop (logged_pages P) fails parents pages ((ops, log), f) = (((ops', log'), f'), r)"
    "pages_took log = pages" "pages_gave log = []" "pages_mapped log = []" "pages_unmapped log = []"
  shows "pages_mapped log' = [] \<and> pages_unmapped log' = [] \<and>
    (case r of
       Inl _ \<Rightarrow> pages_gave log' = rev (pages_took log')
     | Inr ps \<Rightarrow> pages_took log' = ps \<and> length ps = length pages + length parents \<and> pages_gave log' = [])"
  using assms
proof (induction parents arbitrary: pages ops log f)
  case Nil
  then show ?case by auto
next
  case (Cons parent parents)
  obtain ops1 log1 f1 r1 where c: "clone_page (logged_pages P) fails parent ((ops, log), f) = (((ops1, log1), f1), r1)"
    by (metis prod.collapse)
  note l = clone_page_logged [OF c]
  show ?case
  proof (cases r1)
    case (Inl e)
    then have "log' = log1 @ map PgGave (rev pages)" "\<exists>x. r = Inl x"
      using Cons.prems(1) c by (auto simp: release_logged Let_def)
    then show ?thesis using l Inl Cons.prems(2-5) by auto
  next
    case (Inr child)
    then have log1: "log1 = log @ [PgTook child]" using l by simp
    have "clone_pages_loop (logged_pages P) fails parents (pages @ [child]) ((ops1, log1), f1) = (((ops', log'), f'), r)"
      using Cons.prems(1) c Inr by simp
    from Cons.IH [OF this] show ?thesis using Cons.prems(2-5) log1 by (auto split: sum.splits)
  qed
qed

lemma map_pages_loop_logged:
  assumes "map_pages_loop (logged_pages P) fails address page_size protection pages n ((ops, log), f) = (((ops', log'), f'), r)"
    "pages_mapped log = map (page_at address page_size) [0..<n]" "pages_unmapped log = []"
  shows "pages_took log' = pages_took log \<and> pages_gave log' = pages_gave log \<and>
    (case r of
       Inl _ \<Rightarrow> pages_unmapped log' = rev (pages_mapped log')
     | Inr _ \<Rightarrow> pages_mapped log' = map (page_at address page_size) [0..<n + length pages] \<and> pages_unmapped log' = [])"
  using assms
proof (induction pages arbitrary: n ops log f)
  case Nil
  then show ?case by auto
next
  case (Cons page pages)
  let ?a = "case checked_mul (of_nat n) page_size of None \<Rightarrow> None | Some offset \<Rightarrow> checked_add address offset"
  show ?case
  proof (cases ?a)
    case None
    then show ?thesis using Cons.prems by (auto simp: unmap_logged Let_def rev_map)
  next
    case (Some a)
    then have a: "a = page_at address page_size n"
      by (auto simp: page_at_def checked_mul_def checked_add_def split: option.splits if_splits)
    obtain ops1 r1 where m: "pg_map_page P a page (protection n) ops = (ops1, r1)" by fastforce
    show ?thesis
    proof (cases r1)
      case (Inl e)
      then have "pg_map_page (logged_pages P) a page (protection n) (ops, log) = ((ops1, log), Inl e)"
        using m by (simp add: logged_pages_def)
      then show ?thesis using Cons.prems Some by (auto simp: unmap_logged Let_def rev_map)
    next
      case (Inr u)
      let ?log = "log @ [PgMapped a]"
      have call: "pg_map_page (logged_pages P) a page (protection n) (ops, log) = ((ops1, ?log), Inr ())"
        using m Inr by (simp add: logged_pages_def)
      obtain f1 b where fl: "(if pg_is_private (logged_pages P) (ops1, ?log) page
          then linux_fork_page_failure FpPrivatePageMap FpPrivatePage fails f
          else linux_fork_page_failure FpSharedPageMap FpSharedReference fails f) = (f1, b)" by fastforce
      show ?thesis
      proof (cases b)
        case True
        then show ?thesis using Cons.prems Some call fl a by (auto simp: unmap_logged Let_def rev_map)
      next
        case False
        then have "map_pages_loop (logged_pages P) fails address page_size protection pages (n + 1) ((ops1, ?log), f1)
            = (((ops', log'), f'), r)"
          using Cons.prems(1) Some call fl by simp
        from Cons.IH [OF this] show ?thesis using Cons.prems(2,3) a by (simp split: sum.splits)
      qed
    qed
  qed
qed

lemma clone_and_map_logged:
  assumes "clone_and_map_linux_fork_pages (logged_pages P) fails alloc address page_size parents prot ((ops, []), f)
    = (((ops', log), f'), r)"
  shows "case r of
      Inl _ \<Rightarrow> pages_gave log = rev (pages_took log) \<and> pages_unmapped log = rev (pages_mapped log)
    | Inr pages \<Rightarrow> pages_took log = pages \<and> length pages = length parents \<and> pages_gave log = []
        \<and> pages_mapped log = map (page_at address page_size) [0..<length parents] \<and> pages_unmapped log = []"
proof (cases alloc)
  case False
  then show ?thesis using assms by (auto simp: clone_and_map_linux_fork_pages_def clone_linux_fork_pages_def)
next
  case True
  obtain ops1 log1 f1 r1 where c: "clone_pages_loop (logged_pages P) fails parents [] ((ops, []), f) = (((ops1, log1), f1), r1)"
    by (metis prod.collapse)
  note l = clone_pages_loop_logged [OF c]
  show ?thesis
  proof (cases r1)
    case (Inl e)
    then show ?thesis using assms True c l by (auto simp: clone_and_map_linux_fork_pages_def clone_linux_fork_pages_def)
  next
    case (Inr pages)
    obtain ops2 log2 f2 r2 where m: "map_pages_loop (logged_pages P) fails address page_size (\<lambda>_. prot) pages 0 ((ops1, log1), f1)
        = (((ops2, log2), f2), r2)" by (metis prod.collapse)
    have l2: "pages_took log2 = pages \<and> pages_gave log2 = [] \<and>
      (case r2 of Inl _ \<Rightarrow> pages_unmapped log2 = rev (pages_mapped log2)
       | Inr _ \<Rightarrow> pages_mapped log2 = map (page_at address page_size) [0..<length parents] \<and> pages_unmapped log2 = [])"
      using map_pages_loop_logged [OF m] l Inr by (cases r2) simp_all
    show ?thesis
      using assms True c l2 l Inr m
      by (cases r2) (auto simp: clone_and_map_linux_fork_pages_def clone_linux_fork_pages_def map_linux_fork_pages_def
          map_linux_fork_pages_with_protection_def release_logged)
  qed
qed

subsection \<open>Observing a fork\<close>

datatype ('st, 'task, 'proc, 'mem, 'conf) fork_part =
  PartThread 'st | PartTask 'task | PartProcess 'proc | PartMemory 'mem | PartConfigured 'conf

datatype ('part, 'pub) fork_event =
    Took 'part | Gave 'part | ResTook | ResMoved | ResGave | InstDone | InstUndone | PubTook 'pub | PubGave 'pub

definition log_result :: "('o, 'e, 'a) effect \<Rightarrow> ('a \<Rightarrow> 'ev list) \<Rightarrow> ('o \<times> 'ev list, 'e, 'a) effect" where
  "log_result call events x =
     (case call (fst x) of
        (ops, Inl e) \<Rightarrow> ((ops, snd x), Inl e)
      | (ops, Inr v) \<Rightarrow> ((ops, snd x @ events v), Inr v))"

definition log_effect :: "('o \<Rightarrow> 'o) \<Rightarrow> 'ev list \<Rightarrow> 'o \<times> 'ev list \<Rightarrow> 'o \<times> 'ev list" where
  "log_effect call events x = (call (fst x), snd x @ events)"

definition slot_events :: "'r option \<Rightarrow> 'r option \<Rightarrow> ('part, 'pub) fork_event list" where
  "slot_events before after =
     (if before = None \<and> after \<noteq> None then [ResTook] else if before \<noteq> None \<and> after = None then [ResMoved] else [])"

definition logged_fork ::
  "('o, 'e, 'out, 'st, 'par, 'task, 'proc, 'res, 'mem, 'conf, 'pub) LinuxForkOwnershipOps
     \<Rightarrow> ('o \<times> (('st, 'task, 'proc, 'mem, 'conf) fork_part, 'pub) fork_event list, 'e, 'out, 'st, 'par, 'task, 'proc, 'res,
          'mem, 'conf, 'pub) LinuxForkOwnershipOps" where
  "logged_fork D =
     \<lparr>op_injected_failure = (\<lambda>(ops, log). op_injected_failure D ops),
      op_acquire_scheduler_thread = log_result (op_acquire_scheduler_thread D) (\<lambda>v. [Took (PartThread v)]),
      op_acquire_task = (\<lambda>st. log_result (op_acquire_task D st) (\<lambda>(parent, task). [Took (PartTask task)])),
      op_acquire_process = (\<lambda>parent st task. log_result (op_acquire_process D parent st task) (\<lambda>v. [Took (PartProcess v)])),
      op_acquire_resources = (\<lambda>parent. log_result (op_acquire_resources D parent) (\<lambda>_. [ResTook])),
      op_acquire_memory = (\<lambda>parent process ((ops, log), resources).
        case op_acquire_memory D parent process (ops, resources) of
          ((ops, resources), Inl e) \<Rightarrow> (((ops, log), resources), Inl e)
        | ((ops, resources), Inr v) \<Rightarrow> (((ops, log @ [Took (PartMemory v)]), resources), Inr v)),
      op_configure_child = (\<lambda>process st memory.
        log_result (op_configure_child D process st memory) (\<lambda>v. [Took (PartConfigured v)])),
      op_install_resources = (\<lambda>process ((ops, log), resources).
        case op_install_resources D process (ops, resources) of
          ((ops, after), Inl e) \<Rightarrow> (((ops, log @ slot_events resources after), after), Inl e)
        | ((ops, after), Inr _) \<Rightarrow> (((ops, log @ slot_events resources after @ [InstDone]), after), Inr ())),
      op_begin_publication = log_result (op_begin_publication D) (\<lambda>v. [PubTook v]),
      op_publish_process = (\<lambda>process configured. log_result (op_publish_process D process configured) (\<lambda>_. [])),
      op_publish_task = (\<lambda>task. log_result (op_publish_task D task) (\<lambda>_. [])),
      op_publish_scheduler_thread = (\<lambda>st. log_result (op_publish_scheduler_thread D st) (\<lambda>_. [])),
      op_complete_publication = (\<lambda>process. log_result (op_complete_publication D process) (\<lambda>_. [])),
      op_finish = (\<lambda>process configured. log_result (op_finish D process configured) (\<lambda>_. [])),
      op_restore_publication = (\<lambda>publication. log_effect (op_restore_publication D publication) [PubGave publication]),
      op_rollback_configured = (\<lambda>v. log_effect (op_rollback_configured D v) [Gave (PartConfigured v)]),
      op_rollback_memory = (\<lambda>v. log_effect (op_rollback_memory D v) [Gave (PartMemory v)]),
      op_rollback_reserved_resources = (\<lambda>v. log_effect (op_rollback_reserved_resources D v) [ResGave]),
      op_rollback_installed_resources = (\<lambda>process. log_effect (op_rollback_installed_resources D process) [InstUndone]),
      op_rollback_process = (\<lambda>v. log_effect (op_rollback_process D v) [Gave (PartProcess v)]),
      op_rollback_task = (\<lambda>v. log_effect (op_rollback_task D v) [Gave (PartTask v)]),
      op_rollback_scheduler_thread = (\<lambda>v. log_effect (op_rollback_scheduler_thread D v) [Gave (PartThread v)])\<rparr>"

definition ev_took :: "('part, 'pub) fork_event list \<Rightarrow> 'part list" where
  "ev_took log = List.map_filter (\<lambda>e. case e of Took p \<Rightarrow> Some p | _ \<Rightarrow> None) log"
definition ev_gave :: "('part, 'pub) fork_event list \<Rightarrow> 'part list" where
  "ev_gave log = List.map_filter (\<lambda>e. case e of Gave p \<Rightarrow> Some p | _ \<Rightarrow> None) log"
definition pub_took :: "('part, 'pub) fork_event list \<Rightarrow> 'pub list" where
  "pub_took log = List.map_filter (\<lambda>e. case e of PubTook p \<Rightarrow> Some p | _ \<Rightarrow> None) log"
definition pub_gave :: "('part, 'pub) fork_event list \<Rightarrow> 'pub list" where
  "pub_gave log = List.map_filter (\<lambda>e. case e of PubGave p \<Rightarrow> Some p | _ \<Rightarrow> None) log"
definition ev_count :: "('part, 'pub) fork_event \<Rightarrow> ('part, 'pub) fork_event list \<Rightarrow> nat" where
  "ev_count e log = count_list log e"

lemma fork_event_simps [simp]:
  "ev_took [] = []" "ev_gave [] = []" "pub_took [] = []" "pub_gave [] = []" "ev_count x [] = 0"
  "ev_took (xs @ ys) = ev_took xs @ ev_took ys" "ev_gave (xs @ ys) = ev_gave xs @ ev_gave ys"
  "pub_took (xs @ ys) = pub_took xs @ pub_took ys" "pub_gave (xs @ ys) = pub_gave xs @ pub_gave ys"
  "ev_count x (xs @ ys) = ev_count x xs + ev_count x ys"
  "ev_took (e # xs) = (case e of Took p \<Rightarrow> p # ev_took xs | _ \<Rightarrow> ev_took xs)"
  "ev_gave (e # xs) = (case e of Gave p \<Rightarrow> p # ev_gave xs | _ \<Rightarrow> ev_gave xs)"
  "pub_took (e # xs) = (case e of PubTook p \<Rightarrow> p # pub_took xs | _ \<Rightarrow> pub_took xs)"
  "pub_gave (e # xs) = (case e of PubGave p \<Rightarrow> p # pub_gave xs | _ \<Rightarrow> pub_gave xs)"
  "ev_count x (e # xs) = (if e = x then Suc (ev_count x xs) else ev_count x xs)"
  by (auto simp: ev_took_def ev_gave_def pub_took_def pub_gave_def ev_count_def List.map_filter_def split: fork_event.splits)

lemma slot_events_simps [simp]:
  "ev_took (slot_events a b) = []" "ev_gave (slot_events a b) = []" "pub_took (slot_events a b) = []"
  "pub_gave (slot_events a b) = []" "ev_count ResGave (slot_events a b) = 0" "ev_count InstDone (slot_events a b) = 0"
  "ev_count InstUndone (slot_events a b) = 0"
  "ev_count ResTook (slot_events a b) = (if a = None \<and> b \<noteq> None then 1 else 0)"
  "ev_count ResMoved (slot_events a b) = (if a \<noteq> None \<and> b = None then 1 else 0)"
  by (auto simp: slot_events_def)

definition opt_list :: "('a \<Rightarrow> 'b) \<Rightarrow> 'a option \<Rightarrow> 'b list" where
  "opt_list f x = (case x of None \<Rightarrow> [] | Some v \<Rightarrow> [f v])"

lemma opt_list_simps [simp]: "opt_list f None = []" "opt_list f (Some v) = [f v]"
  by (simp_all add: opt_list_def)

definition core_parts where
  "core_parts core =
     opt_list PartThread (fc_scheduler_thread core) @ opt_list PartTask (fc_task core) @ opt_list PartProcess (fc_process core)
       @ opt_list PartMemory (fc_memory core) @ opt_list PartConfigured (fc_configured core)"

text \<open>
  The core holds exactly what was handed out and not given back, and only parts of the stages
  the ledger has entered.  The stages after the sixth are the installation of the resources and
  the publication.
\<close>

definition core_inv where
  "core_inv (n :: nat) core =
     (let log = snd (fc_ops core)
      in ev_took log = core_parts core \<and> ev_gave log = []
       \<and> pub_took log = opt_list id (fc_publication core) \<and> pub_gave log = []
       \<and> ev_count ResTook log = ev_count ResMoved log + (if fc_resources core = None then 0 else 1)
       \<and> ev_count ResGave log = 0
       \<and> ev_count InstDone log = (if fc_resources_installed core then 1 else 0) \<and> ev_count InstUndone log = 0
       \<and> (n < 1 \<longrightarrow> fc_scheduler_thread core = None) \<and> (n < 2 \<longrightarrow> fc_task core = None)
       \<and> (n < 3 \<longrightarrow> fc_process core = None) \<and> (n < 4 \<longrightarrow> fc_resources core = None)
       \<and> (n < 5 \<longrightarrow> fc_memory core = None) \<and> (n < 6 \<longrightarrow> fc_configured core = None)
       \<and> (n < 7 \<longrightarrow> \<not> fc_resources_installed core) \<and> (n < 8 \<longrightarrow> fc_publication core = None)
       \<and> (fc_resources_installed core \<longrightarrow> fc_process core \<noteq> None))"

lemma core_inv_mono: "core_inv n core \<Longrightarrow> core_inv (Suc n) core"
  by (auto simp: core_inv_def Let_def)

lemma core_inv_new: "core_inv 0 (ownership_new (ops, []))"
  by (simp add: core_inv_def ownership_new_def core_parts_def Let_def)

lemma logged_fork_simps [simp]:
  "op_acquire_scheduler_thread (logged_fork D) = log_result (op_acquire_scheduler_thread D) (\<lambda>v. [Took (PartThread v)])"
  "op_acquire_task (logged_fork D) = (\<lambda>st. log_result (op_acquire_task D st) (\<lambda>(parent, task). [Took (PartTask task)]))"
  "op_acquire_process (logged_fork D) =
     (\<lambda>parent st task. log_result (op_acquire_process D parent st task) (\<lambda>v. [Took (PartProcess v)]))"
  "op_acquire_resources (logged_fork D) = (\<lambda>parent. log_result (op_acquire_resources D parent) (\<lambda>_. [ResTook]))"
  "op_configure_child (logged_fork D) = (\<lambda>process st memory.
        log_result (op_configure_child D process st memory) (\<lambda>v. [Took (PartConfigured v)]))"
  "op_begin_publication (logged_fork D) = log_result (op_begin_publication D) (\<lambda>v. [PubTook v])"
  "op_publish_process (logged_fork D) = (\<lambda>process configured. log_result (op_publish_process D process configured) (\<lambda>_. []))"
  "op_publish_task (logged_fork D) = (\<lambda>task. log_result (op_publish_task D task) (\<lambda>_. []))"
  "op_publish_scheduler_thread (logged_fork D) = (\<lambda>st. log_result (op_publish_scheduler_thread D st) (\<lambda>_. []))"
  "op_complete_publication (logged_fork D) = (\<lambda>process. log_result (op_complete_publication D process) (\<lambda>_. []))"
  "op_finish (logged_fork D) = (\<lambda>process configured. log_result (op_finish D process configured) (\<lambda>_. []))"
  "op_restore_publication (logged_fork D) = (\<lambda>v. log_effect (op_restore_publication D v) [PubGave v])"
  "op_rollback_configured (logged_fork D) = (\<lambda>v. log_effect (op_rollback_configured D v) [Gave (PartConfigured v)])"
  "op_rollback_memory (logged_fork D) = (\<lambda>v. log_effect (op_rollback_memory D v) [Gave (PartMemory v)])"
  "op_rollback_reserved_resources (logged_fork D) = (\<lambda>v. log_effect (op_rollback_reserved_resources D v) [ResGave])"
  "op_rollback_installed_resources (logged_fork D) = (\<lambda>v. log_effect (op_rollback_installed_resources D v) [InstUndone])"
  "op_rollback_process (logged_fork D) = (\<lambda>v. log_effect (op_rollback_process D v) [Gave (PartProcess v)])"
  "op_rollback_task (logged_fork D) = (\<lambda>v. log_effect (op_rollback_task D v) [Gave (PartTask v)])"
  "op_rollback_scheduler_thread (logged_fork D) = (\<lambda>v. log_effect (op_rollback_scheduler_thread D v) [Gave (PartThread v)])"
  by (simp_all add: logged_fork_def)

lemma owned_inv:
  "core_inv m core \<Longrightarrow> (\<And>v. x = Some v \<Longrightarrow> core_inv m (fst (k v core))) \<Longrightarrow> core_inv m (fst (owned failure x k core))"
  by (cases x) (simp_all add: owned_def)

lemma core_inv_ops:
  "core_inv m core \<Longrightarrow> core_inv m (core\<lparr>fc_ops := (ops, snd (fc_ops core))\<rparr>)"
  by (simp add: core_inv_def core_parts_def)

lemma with_ops_inv:
  assumes "core_inv m core" "\<And>ops v. core_inv m (store v (core\<lparr>fc_ops := (ops, snd (fc_ops core) @ events v)\<rparr>))"
  shows "core_inv m (fst (with_ops (log_result call events) store core))"
  using assms core_inv_ops [OF assms(1)] by (auto simp: with_ops_def log_result_def split: prod.split sum.split)

lemma acquire_scheduler_thread_inv:
  assumes "core_inv 0 core"
  shows "core_inv 1 (fst (fc_acquire_scheduler_thread (logged_fork D) core))"
  using core_inv_mono [OF assms] assms unfolding fc_acquire_scheduler_thread_def logged_fork_simps
  by (intro with_ops_inv) (simp_all add: core_inv_def core_parts_def Let_def)

lemma acquire_task_inv:
  assumes "core_inv 1 core"
  shows "core_inv 2 (fst (fc_acquire_task (logged_fork D) core))"
proof -
  have m: "core_inv 2 core" using core_inv_mono [OF assms] by (simp add: numeral_2_eq_2)
  show ?thesis unfolding fc_acquire_task_def logged_fork_simps
    by (intro owned_inv m with_ops_inv) (use assms in \<open>simp add: core_inv_def core_parts_def Let_def split: prod.split\<close>)
qed

lemma acquire_process_inv:
  assumes "core_inv 2 core"
  shows "core_inv 3 (fst (fc_acquire_process (logged_fork D) core))"
proof -
  have m: "core_inv 3 core" using core_inv_mono [OF assms] by (simp add: eval_nat_numeral)
  show ?thesis unfolding fc_acquire_process_def logged_fork_simps
    by (intro owned_inv m with_ops_inv) (use assms in \<open>simp add: core_inv_def core_parts_def Let_def\<close>)
qed

lemma acquire_resources_inv:
  assumes "core_inv 3 core"
  shows "core_inv 4 (fst (fc_acquire_resources (logged_fork D) core))"
proof -
  have m: "core_inv 4 core" using core_inv_mono [OF assms] by (simp add: eval_nat_numeral)
  show ?thesis unfolding fc_acquire_resources_def logged_fork_simps
    by (intro owned_inv m with_ops_inv) (use assms in \<open>simp add: core_inv_def core_parts_def Let_def\<close>)
qed

lemma acquire_memory_inv:
  assumes "core_inv 4 core"
  shows "core_inv 5 (fst (fc_acquire_memory (logged_fork D) core))"
proof -
  have m: "core_inv 5 core" using core_inv_mono [OF assms] by (simp add: eval_nat_numeral)
  obtain ops log where o: "fc_ops core = (ops, log)" by fastforce
  show ?thesis unfolding fc_acquire_memory_def
  proof (intro owned_inv m, goal_cases)
    case (1 parent process resources)
    obtain ops1 res1 r1 where c: "op_acquire_memory D parent process (ops, resources) = ((ops1, res1), r1)"
      by (metis prod.collapse)
    show ?case using assms 1 o c
      by (cases r1) (simp_all add: logged_fork_def core_inv_def core_parts_def Let_def)
  qed
qed

lemma configure_child_inv:
  assumes "core_inv 5 core"
  shows "core_inv 6 (fst (fc_configure_child (logged_fork D) core))"
proof -
  have m: "core_inv 6 core" using core_inv_mono [OF assms] by (simp add: eval_nat_numeral)
  show ?thesis unfolding fc_configure_child_def logged_fork_simps
    by (intro owned_inv m with_ops_inv) (use assms in \<open>simp add: core_inv_def core_parts_def Let_def\<close>)
qed

lemma install_resources_inv:
  assumes "core_inv 6 core"
  shows "core_inv 7 (fst (fc_install_resources (logged_fork D) core))"
proof -
  have m: "core_inv 7 core" using core_inv_mono [OF assms] by (simp add: eval_nat_numeral)
  obtain ops log where o: "fc_ops core = (ops, log)" by fastforce
  show ?thesis unfolding fc_install_resources_def
  proof (intro owned_inv m, goal_cases)
    case (1 process)
    obtain ops1 res1 r1 where c: "op_install_resources D process (ops, fc_resources core) = ((ops1, res1), r1)"
      by (metis prod.collapse)
    show ?case using assms 1 o c
      by (cases r1) (simp_all add: logged_fork_def core_inv_def core_parts_def Let_def)
  qed
qed

lemma begin_publication_inv:
  assumes "core_inv 7 core"
  shows "core_inv 8 (fst (fc_begin_publication (logged_fork D) core))"
proof -
  have m: "core_inv 8 core" using core_inv_mono [OF assms] by (simp add: eval_nat_numeral)
  have "core_inv 8 (fst (with_ops (op_begin_publication (logged_fork D)) (\<lambda>v core. core\<lparr>fc_publication := Some v\<rparr>) core))"
    unfolding logged_fork_simps
    by (intro m with_ops_inv) (use assms in \<open>simp add: core_inv_def core_parts_def Let_def\<close>)
  then show ?thesis using m by (simp add: fc_begin_publication_def)
qed

lemma keep_inv:
  assumes "core_inv n core"
  shows "core_inv n (fst (with_ops (log_result call (\<lambda>_. [])) (\<lambda>_ core. core) core))"
  using assms core_inv_ops [OF assms] by (intro with_ops_inv) simp_all

lemma publish_inv:
  assumes "core_inv n core"
  shows "core_inv n (fst (fc_publish_process (logged_fork D) core))"
    "core_inv n (fst (fc_publish_task (logged_fork D) core))"
    "core_inv n (fst (fc_publish_scheduler_thread (logged_fork D) core))"
    "core_inv n (fst (fc_complete_publication (logged_fork D) core))"
  unfolding fc_publish_process_def fc_publish_task_def fc_publish_scheduler_thread_def fc_complete_publication_def
    logged_fork_simps
  by (intro owned_inv assms keep_inv)+

text \<open>On the way without failures the parts of all entered stages are there.\<close>

definition core_has where
  "core_has (n :: nat) core =
     ((1 \<le> n \<longrightarrow> fc_scheduler_thread core \<noteq> None) \<and> (2 \<le> n \<longrightarrow> fc_task core \<noteq> None)
      \<and> (3 \<le> n \<longrightarrow> fc_process core \<noteq> None) \<and> (5 \<le> n \<longrightarrow> fc_memory core \<noteq> None)
      \<and> (6 \<le> n \<longrightarrow> fc_configured core \<noteq> None) \<and> (7 \<le> n \<longrightarrow> fc_resources_installed core))"

lemma owned_Inr: "owned failure x k core = (core', Inr r) \<Longrightarrow> \<exists>v. x = Some v \<and> k v core = (core', Inr r)"
  by (cases x) (simp_all add: owned_def)

lemma with_ops_Inr:
  "with_ops call store core = (core', Inr r) \<Longrightarrow> \<exists>ops v. core' = store v (core\<lparr>fc_ops := ops\<rparr>)"
  by (auto simp: with_ops_def split: prod.splits sum.splits)

lemma acquire_has:
  "core_has 0 c1 \<Longrightarrow> fc_acquire_scheduler_thread D1 c1 = (u1, Inr r1) \<Longrightarrow> core_has 1 u1"
  "core_has 1 c2 \<Longrightarrow> fc_acquire_task D2 c2 = (u2, Inr r2) \<Longrightarrow> core_has 2 u2"
  "core_has 2 c3 \<Longrightarrow> fc_acquire_process D3 c3 = (u3, Inr r3) \<Longrightarrow> core_has 3 u3"
  "core_has 3 c4 \<Longrightarrow> fc_acquire_resources D4 c4 = (u4, Inr r4) \<Longrightarrow> core_has 4 u4"
  "core_has 4 c5 \<Longrightarrow> fc_acquire_memory D5 c5 = (u5, Inr r5) \<Longrightarrow> core_has 5 u5"
  "core_has 5 c6 \<Longrightarrow> fc_configure_child D6 c6 = (u6, Inr r6) \<Longrightarrow> core_has 6 u6"
  "core_has 6 c7 \<Longrightarrow> fc_install_resources D7 c7 = (u7, Inr r7) \<Longrightarrow> core_has 7 u7"
  "core_has 7 c8 \<Longrightarrow> fc_begin_publication D8 c8 = (u8, Inr r8) \<Longrightarrow> core_has 8 u8"
  "core_has n9 c9 \<Longrightarrow> fc_publish_process D9 c9 = (u9, Inr r9) \<Longrightarrow> core_has n9 u9"
  "core_has n10 c10 \<Longrightarrow> fc_publish_task D10 c10 = (u10, Inr r10) \<Longrightarrow> core_has n10 u10"
  "core_has n11 c11 \<Longrightarrow> fc_publish_scheduler_thread D11 c11 = (u11, Inr r11) \<Longrightarrow> core_has n11 u11"
  "core_has n12 c12 \<Longrightarrow> fc_complete_publication D12 c12 = (u12, Inr r12) \<Longrightarrow> core_has n12 u12"
  unfolding fc_acquire_scheduler_thread_def fc_acquire_task_def fc_acquire_process_def fc_acquire_resources_def
    fc_acquire_memory_def fc_configure_child_def fc_install_resources_def fc_begin_publication_def fc_publish_process_def
    fc_publish_task_def fc_publish_scheduler_thread_def fc_complete_publication_def
  by (fastforce simp: core_has_def dest!: owned_Inr with_ops_Inr split: prod.splits sum.splits if_splits)+

subsection \<open>The stages of a transaction\<close>

definition ledger_at :: "nat \<Rightarrow> LinuxForkAcquisitionLedger" where
  "ledger_at n = \<lparr>acquired = map Some (take n ORDER) @ replicate (6 - n) None, ledger_len = n\<rparr>"

text \<open>
  A transaction that has entered \<open>k\<close> stages: \<open>keeps k\<close> holds of its backend whatever happened, and
  \<open>has k\<close> as long as no stage has failed.
\<close>

definition tx_inv :: "(nat \<Rightarrow> 'b \<Rightarrow> bool) \<Rightarrow> nat \<Rightarrow> 'b LinuxForkTransaction \<Rightarrow> bool" where
  "tx_inv keeps k tx =
     (keeps k (tx_backend tx) \<and> tx_ledger tx = ledger_at (min k 6) \<and> \<not> tx_committed tx)"

definition step_ok where
  "step_ok keeps has (k :: nat) step (j :: nat) =
     (\<forall>tx f y r. tx_inv keeps k tx \<longrightarrow> has k (tx_backend tx) \<longrightarrow> step (tx, f) = (y, r) \<longrightarrow>
        (case r of Inl _ \<Rightarrow> \<exists>m. tx_inv keeps m (fst y) | Inr _ \<Rightarrow> tx_inv keeps j (fst y) \<and> has j (tx_backend (fst y))))"

lemma step_okI:
  assumes "\<And>tx f y r. tx_inv keeps k tx \<Longrightarrow> has k (tx_backend tx) \<Longrightarrow> step (tx, f) = (y, r)
    \<Longrightarrow> (case r of Inl _ \<Rightarrow> \<exists>m. tx_inv keeps m (fst y) | Inr _ \<Rightarrow> tx_inv keeps j (fst y) \<and> has j (tx_backend (fst y)))"
  shows "step_ok keeps has k step j"
  unfolding step_ok_def using assms by (intro allI impI)

lemma step_okD:
  assumes "step_ok keeps has k step j" "tx_inv keeps k (fst x)" "has k (tx_backend (fst x))" "step x = (y, r)"
  shows "case r of Inl _ \<Rightarrow> \<exists>m. tx_inv keeps m (fst y) | Inr _ \<Rightarrow> tx_inv keeps j (fst y) \<and> has j (tx_backend (fst y))"
  using assms(1) [unfolded step_ok_def, rule_format, of "fst x" "snd x"] assms(2-4) by simp

lemma run_steps_Nil_ok: "step_ok keeps has k (run_steps []) k"
  by (rule step_okI) auto

lemma run_steps_Cons_ok:
  assumes "step_ok keeps has k s j" "step_ok keeps has j (run_steps ss) l"
  shows "step_ok keeps has k (run_steps (s # ss)) l"
proof (rule step_okI, goal_cases)
  case (1 tx f y r)
  obtain z v where z: "s (tx, f) = (z, v)" by fastforce
  have d: "case v of Inl _ \<Rightarrow> \<exists>m. tx_inv keeps m (fst z) | Inr _ \<Rightarrow> tx_inv keeps j (fst z) \<and> has j (tx_backend (fst z))"
    by (rule step_okD [OF assms(1) _ _ z]) (use 1 in simp_all)
  show ?case
  proof (cases v)
    case (Inl e)
    then show ?thesis using d z 1(3) by auto
  next
    case (Inr u)
    then show ?thesis using d z 1(3) step_okD [OF assms(2), of z y r] by simp
  qed
qed

lemma ledger_acquire_at:
  assumes "k < 6"
  shows "ledger_acquire (ledger_at k) (ORDER ! k) = (ledger_at (Suc k), True)"
proof -
  have "k = 0 \<or> k = 1 \<or> k = 2 \<or> k = 3 \<or> k = 4 \<or> k = 5" using assms by linarith
  then show ?thesis by (elim disjE; hypsubst; code_simp)
qed

lemma acquire_ok:
  assumes "k < 6" "j = Suc k" "stage = ORDER ! k"
    "\<And>b b' r. keeps k b \<Longrightarrow> has k b \<Longrightarrow> operation b = (b', r) \<Longrightarrow> keeps j b' \<and> (\<not> isl r \<longrightarrow> has j b')"
  shows "step_ok keeps has k (on_tx (tx_acquire B stage operation)) j"
proof (rule step_okI, goal_cases)
  case (1 tx f y r)
  obtain b v where c: "operation (tx_backend tx) = (b, v)" by fastforce
  have i: "keeps (Suc k) b \<and> (\<not> isl v \<longrightarrow> has j b)" using assms(2) assms(4) [OF _ 1(2) c] 1(1) by (simp add: tx_inv_def)
  then have "tx_inv keeps (Suc k) (tx\<lparr>tx_ledger := ledger_at (Suc k), tx_backend := b\<rparr>)"
    using 1(1) assms(1) by (simp add: tx_inv_def min_def)
  moreover have "y = (tx\<lparr>tx_ledger := ledger_at (Suc k), tx_backend := b\<rparr>, f)" "r = v"
    using 1 c ledger_acquire_at [OF assms(1)] assms(1,3)
    by (simp_all add: on_tx_def tx_acquire_def tx_call_def tx_inv_def min_def)
  ultimately show ?case using assms(2) i by (auto split: sum.split)
qed

lemma call_ok:
  assumes "6 \<le> k" "6 \<le> j"
    "\<And>b b' r. keeps k b \<Longrightarrow> has k b \<Longrightarrow> operation b = (b', r) \<Longrightarrow> keeps j b' \<and> (\<not> isl r \<longrightarrow> has j b')"
  shows "step_ok keeps has k (on_tx (tx_call operation)) j"
proof (rule step_okI, goal_cases)
  case (1 tx f y r)
  obtain b v where c: "operation (tx_backend tx) = (b, v)" by fastforce
  have i: "keeps j b \<and> (\<not> isl v \<longrightarrow> has j b)" using assms(3) [OF _ 1(2) c] 1(1) by (simp add: tx_inv_def)
  then have "tx_inv keeps j (tx\<lparr>tx_backend := b\<rparr>)"
    using assms(1,2) 1(1) by (simp add: tx_inv_def min_def)
  moreover have "y = (tx\<lparr>tx_backend := b\<rparr>, f)" "r = v" using 1 c by (simp_all add: on_tx_def tx_call_def)
  ultimately show ?case using i by (auto split: sum.split)
qed

lemma fail_if_ok: "step_ok keeps has k (tx_fail_if B fails point) k"
  by (rule step_okI) (auto simp: tx_fail_if_def split: prod.splits bool.splits)

text \<open>The operations of a backend in the order of the stages, with the stage before and after.\<close>

definition stage_ops where
  "stage_ops B =
     [(0 :: nat, be_acquire_scheduler_thread B, 1 :: nat), (1, be_acquire_task B, 2), (2, be_acquire_process B, 3),
      (3, be_acquire_resources B, 4), (4, be_acquire_memory B, 5), (5, be_configure_child B, 6),
      (6, be_install_resources B, 7), (7, be_begin_publication B, 8), (8, be_publish_process B, 8),
      (8, be_publish_task B, 8), (8, be_publish_scheduler_thread B, 8), (8, be_complete_publication B, 9)]"

lemma rollback_into_at:
  assumes "n \<le> 6"
  shows "rollback_into (ledger_at n) (replicate 6 None)
    = (ledger_new, map Some (rev (take n ORDER)) @ replicate (6 - n) None, n)"
proof -
  have "n = 0 \<or> n = 1 \<or> n = 2 \<or> n = 3 \<or> n = 4 \<or> n = 5 \<or> n = 6" using assms by linarith
  then show ?thesis by (elim disjE; hypsubst; code_simp)
qed

lemma tx_drop_backend:
  assumes "tx_inv keeps k tx"
  shows "tx_backend (tx_drop B tx) = fold (be_rollback B) (rev (take (min k 6) ORDER)) (tx_backend tx)"
proof -
  have "length (rev (take (min k 6) ORDER)) = min k 6" by (simp add: ORDER_def)
  then have "flatten (take (min k 6) (map Some (rev (take (min k 6) ORDER)) @ replicate (6 - min k 6) None))
      = rev (take (min k 6) ORDER)" by simp
  then show ?thesis using assms by (simp add: tx_drop_def tx_inv_def rollback_into_at del: take_append)
qed

locale fork_stage_law =
  fixes B :: "('b, 'e, 'out) LinuxForkTransactionBackend"
    and keeps :: "nat \<Rightarrow> 'b \<Rightarrow> bool"
    and has :: "nat \<Rightarrow> 'b \<Rightarrow> bool"
  assumes stage: "(k, operation, j) \<in> set (stage_ops B) \<Longrightarrow> keeps k b \<Longrightarrow> has k b \<Longrightarrow> operation b = (b', r)
    \<Longrightarrow> keeps j b' \<and> (\<not> isl r \<longrightarrow> has j b')"
begin

lemma stages_ok: "step_ok keeps has 0 (run_steps (fork_stages B fails)) 9"
proof -
  note s = stage [unfolded stage_ops_def]
  have a: "step_ok keeps has 0 (on_tx (tx_acquire B SchedulerThread (be_acquire_scheduler_thread B))) 1"
    "step_ok keeps has 1 (on_tx (tx_acquire B Task (be_acquire_task B))) 2"
    "step_ok keeps has 2 (on_tx (tx_acquire B Process (be_acquire_process B))) 3"
    "step_ok keeps has 3 (on_tx (tx_acquire B Resources (be_acquire_resources B))) 4"
    "step_ok keeps has 4 (on_tx (tx_acquire B Memory (be_acquire_memory B))) 5"
    "step_ok keeps has 5 (on_tx (tx_acquire B Configured (be_configure_child B))) 6"
    by (rule acquire_ok, simp, simp, simp add: ORDER_def, erule (2) s [rotated], simp)+
  have c: "step_ok keeps has 6 (on_tx (tx_call (be_install_resources B))) 7"
    "step_ok keeps has 7 (on_tx (tx_call (be_begin_publication B))) 8"
    "step_ok keeps has 8 (on_tx (tx_call (be_publish_process B))) 8"
    "step_ok keeps has 8 (on_tx (tx_call (be_publish_task B))) 8"
    "step_ok keeps has 8 (on_tx (tx_call (be_publish_scheduler_thread B))) 8"
    "step_ok keeps has 8 (on_tx (tx_call (be_complete_publication B))) 9"
    by (rule call_ok, simp, simp, erule (2) s [rotated], simp)+
  show ?thesis unfolding fork_stages_def
    by (rule run_steps_Cons_ok, rule a c fail_if_ok)+ (rule run_steps_Nil_ok)
qed

lemma run_cases [consumes 3, case_names failed unfinished finished]:
  assumes "keeps 0 b" "has 0 b" "run_linux_fork_transaction B fails b f = (tx', r)"
  obtains m tx e where "tx_inv keeps m tx" "tx' = tx_drop B tx" "r = Inl e"
  | tx b' e where "tx_inv keeps 9 tx" "has 9 (tx_backend tx)" "be_finish B (tx_backend tx) = (b', Inl e)"
      "tx' = tx_drop B (tx\<lparr>tx_backend := b'\<rparr>)" "r = Inl e"
  | tx out where "tx_inv keeps 9 tx" "has 9 (tx_backend tx)" "be_finish B (tx_backend tx) = (tx_backend tx', Inr out)" "r = Inr out"
proof -
  have "tx_inv keeps 0 (transaction_new b)"
  proof -
    have "ledger_new = ledger_at 0" by code_simp
    then show ?thesis using assms(1) by (simp add: tx_inv_def transaction_new_def)
  qed
  moreover have "has 0 (tx_backend (transaction_new b))" using assms(2) by (simp add: transaction_new_def)
  moreover obtain tx f1 v where s: "run_steps (fork_stages B fails) (transaction_new b, f) = ((tx, f1), v)"
    by (metis prod.collapse)
  ultimately have d: "case v of Inl _ \<Rightarrow> \<exists>m. tx_inv keeps m tx | Inr _ \<Rightarrow> tx_inv keeps 9 tx \<and> has 9 (tx_backend tx)"
    using step_okD [OF stages_ok, of "(transaction_new b, f)" fails "(tx, f1)" v] by (cases v) simp_all
  show ?thesis
  proof (cases v)
    case (Inl e)
    then obtain m where "tx_inv keeps m tx" using d by auto
    then show ?thesis using s Inl assms(3) that(1) by (auto simp: run_linux_fork_transaction_def)
  next
    case (Inr u)
    obtain b' w where fin: "be_finish B (tx_backend tx) = (b', w)" by fastforce
    then show ?thesis using s Inr d assms(3) that(2) [of tx b'] that(3) [of tx]
      by (cases w) (auto simp: run_linux_fork_transaction_def tx_call_def tx_drop_def)
  qed
qed

end

lemma ownership_backend_simps [simp]:
  "be_acquire_scheduler_thread (ownership_backend D) = fc_acquire_scheduler_thread D"
  "be_acquire_task (ownership_backend D) = fc_acquire_task D"
  "be_acquire_process (ownership_backend D) = fc_acquire_process D"
  "be_acquire_resources (ownership_backend D) = fc_acquire_resources D"
  "be_acquire_memory (ownership_backend D) = fc_acquire_memory D"
  "be_configure_child (ownership_backend D) = fc_configure_child D"
  "be_install_resources (ownership_backend D) = fc_install_resources D"
  "be_begin_publication (ownership_backend D) = fc_begin_publication D"
  "be_publish_process (ownership_backend D) = fc_publish_process D"
  "be_publish_task (ownership_backend D) = fc_publish_task D"
  "be_publish_scheduler_thread (ownership_backend D) = fc_publish_scheduler_thread D"
  "be_complete_publication (ownership_backend D) = fc_complete_publication D"
  "be_finish (ownership_backend D) = fc_finish D"
  "be_rollback (ownership_backend D) = fc_rollback D"
  by (simp_all add: ownership_backend_def)

lemma stage_ops_has:
  assumes "(k, operation, j) \<in> set (stage_ops (ownership_backend D))" "core_has k core" "operation core = (core', Inr r)"
  shows "core_has j core'"
proof -
  have "core_has 8 core' \<Longrightarrow> core_has 9 core'" by (simp add: core_has_def)
  then show ?thesis using assms unfolding stage_ops_def ownership_backend_simps
    by (auto simp del: One_nat_def dest: acquire_has)
qed

lemma stage_ops_inv:
  assumes "(k, operation, j) \<in> set (stage_ops (ownership_backend (logged_fork D)))" "core_inv k core"
  shows "core_inv j (fst (operation core))"
proof -
  have "core_inv 8 c \<Longrightarrow> core_inv 9 c" for c :: "('a \<times> _, _, _, _, _, _, _, _, _) LinuxForkOwnershipCore"
    using core_inv_mono [of 8 c] by simp
  then show ?thesis using assms unfolding stage_ops_def ownership_backend_simps
    by (auto simp del: One_nat_def intro: acquire_scheduler_thread_inv acquire_task_inv acquire_process_inv acquire_resources_inv
      acquire_memory_inv configure_child_inv install_resources_inv begin_publication_inv publish_inv)
qed

interpretation logged: fork_stage_law "ownership_backend (logged_fork D)" core_inv core_has for D
proof (unfold_locales, goal_cases)
  case (1 k operation j b b' r)
  then show ?case using stage_ops_inv [OF 1(1,2)] stage_ops_has [OF 1(1,3), of b'] by (cases r) auto
qed

subsection \<open>Rollback\<close>

text \<open>The effect of one rollback on the log and on the parts held.\<close>

lemma restore_publication_effect:
  "\<exists>ops. restore_publication (logged_fork D) core =
     core\<lparr>fc_publication := None, fc_ops := (ops, snd (fc_ops core) @ opt_list PubGave (fc_publication core))\<rparr>"
proof (cases "fc_publication core")
  case None
  then show ?thesis by (auto simp: restore_publication_def intro!: exI [of _ "fst (fc_ops core)"])
qed (auto simp: restore_publication_def log_effect_def)

lemma rollback_configured_effect:
  "\<exists>ops. fc_rollback (logged_fork D) Configured core =
     core\<lparr>fc_configured := None, fc_ops := (ops, snd (fc_ops core) @ opt_list (\<lambda>v. Gave (PartConfigured v)) (fc_configured core))\<rparr>"
proof (cases "fc_configured core")
  case None
  then show ?thesis by (auto simp: fc_rollback_def intro!: exI [of _ "fst (fc_ops core)"])
qed (auto simp: fc_rollback_def log_effect_def)

lemma rollback_memory_effect:
  "\<exists>ops. fc_rollback (logged_fork D) Memory core =
     core\<lparr>fc_memory := None, fc_ops := (ops, snd (fc_ops core) @ opt_list (\<lambda>v. Gave (PartMemory v)) (fc_memory core))\<rparr>"
proof (cases "fc_memory core")
  case None
  then show ?thesis by (auto simp: fc_rollback_def intro!: exI [of _ "fst (fc_ops core)"])
qed (auto simp: fc_rollback_def log_effect_def)

lemma rollback_process_effect:
  "\<exists>ops. fc_rollback (logged_fork D) Process core =
     core\<lparr>fc_process := None, fc_ops := (ops, snd (fc_ops core) @ opt_list (\<lambda>v. Gave (PartProcess v)) (fc_process core))\<rparr>"
proof (cases "fc_process core")
  case None
  then show ?thesis by (auto simp: fc_rollback_def intro!: exI [of _ "fst (fc_ops core)"])
qed (auto simp: fc_rollback_def log_effect_def)

lemma rollback_task_effect:
  "\<exists>ops. fc_rollback (logged_fork D) Task core =
     core\<lparr>fc_task := None, fc_ops := (ops, snd (fc_ops core) @ opt_list (\<lambda>v. Gave (PartTask v)) (fc_task core))\<rparr>"
proof (cases "fc_task core")
  case None
  then show ?thesis by (auto simp: fc_rollback_def intro!: exI [of _ "fst (fc_ops core)"])
qed (auto simp: fc_rollback_def log_effect_def)

lemma rollback_scheduler_thread_effect:
  "\<exists>ops. fc_rollback (logged_fork D) SchedulerThread core =
     core\<lparr>fc_scheduler_thread := None, fc_publication := None,
          fc_ops := (ops, snd (fc_ops core) @ opt_list (\<lambda>v. Gave (PartThread v)) (fc_scheduler_thread core)
            @ opt_list PubGave (fc_publication core))\<rparr>"
proof (cases "fc_scheduler_thread core")
  case None
  then have "core\<lparr>fc_scheduler_thread := None\<rparr> = core" by simp
  then have "fc_rollback (logged_fork D) SchedulerThread core
      = restore_publication (logged_fork D) (core\<lparr>fc_scheduler_thread := None\<rparr>)"
    using None by (simp only: fc_rollback_def LinuxForkAcquisition.case option.case)
  then show ?thesis using None restore_publication_effect [of D "core\<lparr>fc_scheduler_thread := None\<rparr>"] by simp
next
  case (Some v)
  then show ?thesis
    using restore_publication_effect [of D "core\<lparr>fc_scheduler_thread := None,
      fc_ops := op_rollback_scheduler_thread (logged_fork D) v (fc_ops core)\<rparr>"]
    by (auto simp: fc_rollback_def log_effect_def)
qed

lemma rollback_resources_effect:
  assumes "fc_resources_installed core \<longrightarrow> fc_process core \<noteq> None"
  shows "\<exists>ops. fc_rollback (logged_fork D) Resources core =
     core\<lparr>fc_resources := None, fc_resources_installed := False,
          fc_ops := (ops, snd (fc_ops core) @ (if fc_resources_installed core then [InstUndone] else [])
            @ opt_list (\<lambda>_. ResGave) (fc_resources core))\<rparr>"
proof (cases "fc_resources_installed core")
  case True
  then obtain p where "fc_process core = Some p" using assms by auto
  then show ?thesis using True
    by (cases core, cases "fc_resources core") (auto simp: fc_rollback_def log_effect_def Let_def)
next
  case False
  then show ?thesis
    by (cases core, cases "fc_resources core")
      (auto simp: fc_rollback_def log_effect_def Let_def intro!: exI [of _ "fst (fc_ops core)"])
qed

text \<open>Stages the transaction has not reached have nothing to roll back.\<close>

lemma rollback_unreached:
  assumes "core_inv k core"
  shows "fold (fc_rollback D) (rev (take (min k 6) ORDER)) core = fold (fc_rollback D) (rev ORDER) core"
proof -
  have n: "k < 6 \<Longrightarrow> fc_rollback D Configured core = core" "k < 5 \<Longrightarrow> fc_rollback D Memory core = core"
    "k < 4 \<Longrightarrow> fc_rollback D Resources core = core" "k < 3 \<Longrightarrow> fc_rollback D Process core = core"
    "k < 2 \<Longrightarrow> fc_rollback D Task core = core" "k < 1 \<Longrightarrow> fc_rollback D SchedulerThread core = core"
    using assms by (simp_all add: core_inv_def fc_rollback_def restore_publication_def Let_def)
  consider "k = 0" | "k = 1" | "k = 2" | "k = 3" | "k = 4" | "k = 5" | "6 \<le> k" by linarith
  then show ?thesis by cases (use n in \<open>simp_all add: ORDER_def\<close>)
qed

definition log_balanced :: "('part, 'pub) fork_event list \<Rightarrow> bool" where
  "log_balanced log =
     (ev_gave log = rev (ev_took log) \<and> pub_gave log = pub_took log
      \<and> ev_count ResTook log = ev_count ResMoved log + ev_count ResGave log
      \<and> ev_count InstUndone log = ev_count InstDone log)"

lemma opt_list_events [simp]:
  "ev_took (opt_list (\<lambda>v. Gave (f v)) x) = []" "ev_gave (opt_list (\<lambda>v. Gave (f v)) x) = opt_list f x"
  "pub_took (opt_list (\<lambda>v. Gave (f v)) x) = []" "pub_gave (opt_list (\<lambda>v. Gave (f v)) x) = []"
  "ev_took (opt_list PubGave y) = []" "ev_gave (opt_list PubGave y) = []"
  "pub_took (opt_list PubGave y) = []" "pub_gave (opt_list PubGave y) = opt_list id y"
  "ev_took (opt_list (\<lambda>_. ResGave) z) = []" "ev_gave (opt_list (\<lambda>_. ResGave) z) = []"
  "pub_took (opt_list (\<lambda>_. ResGave) z) = []" "pub_gave (opt_list (\<lambda>_. ResGave) z) = []"
  by (cases x; cases y; cases z; simp)+

lemma opt_list_count [simp]:
  "ev_count ResTook (opt_list (\<lambda>v. Gave (f v)) x) = 0" "ev_count ResMoved (opt_list (\<lambda>v. Gave (f v)) x) = 0"
  "ev_count ResGave (opt_list (\<lambda>v. Gave (f v)) x) = 0" "ev_count InstDone (opt_list (\<lambda>v. Gave (f v)) x) = 0"
  "ev_count InstUndone (opt_list (\<lambda>v. Gave (f v)) x) = 0"
  "ev_count ResTook (opt_list PubGave y) = 0" "ev_count ResMoved (opt_list PubGave y) = 0"
  "ev_count ResGave (opt_list PubGave y) = 0" "ev_count InstDone (opt_list PubGave y) = 0"
  "ev_count InstUndone (opt_list PubGave y) = 0"
  "ev_count ResTook (opt_list (\<lambda>_. ResGave) z) = 0" "ev_count ResMoved (opt_list (\<lambda>_. ResGave) z) = 0"
  "ev_count ResGave (opt_list (\<lambda>_. ResGave) z) = (if z = None then 0 else 1)"
  "ev_count InstDone (opt_list (\<lambda>_. ResGave) z) = 0" "ev_count InstUndone (opt_list (\<lambda>_. ResGave) z) = 0"
  by (cases x; cases y; cases z; simp)+

lemma rev_opt_list [simp]: "rev (opt_list f x) = opt_list f x"
  by (cases x) simp_all

lemma rollback_all:
  assumes "core_inv k core"
  shows "log_balanced (snd (fc_ops (fold (fc_rollback (logged_fork D)) (rev ORDER) core)))"
proof -
  let ?r = "fc_rollback (logged_fork D)"
  obtain o1 where 1: "?r Configured core = core\<lparr>fc_configured := None,
      fc_ops := (o1, snd (fc_ops core) @ opt_list (\<lambda>v. Gave (PartConfigured v)) (fc_configured core))\<rparr>" (is "_ = ?c1")
    using rollback_configured_effect [of D core] by blast
  obtain o2 where 2: "?r Memory ?c1 = ?c1\<lparr>fc_memory := None,
      fc_ops := (o2, snd (fc_ops ?c1) @ opt_list (\<lambda>v. Gave (PartMemory v)) (fc_memory ?c1))\<rparr>" (is "_ = ?c2")
    using rollback_memory_effect [of D ?c1] by blast
  obtain o3 where 3: "?r Resources ?c2 = ?c2\<lparr>fc_resources := None, fc_resources_installed := False,
      fc_ops := (o3, snd (fc_ops ?c2) @ (if fc_resources_installed ?c2 then [InstUndone] else [])
        @ opt_list (\<lambda>_. ResGave) (fc_resources ?c2))\<rparr>" (is "_ = ?c3")
    using rollback_resources_effect [of ?c2 D] assms by (auto simp: core_inv_def Let_def)
  obtain o4 where 4: "?r Process ?c3 = ?c3\<lparr>fc_process := None,
      fc_ops := (o4, snd (fc_ops ?c3) @ opt_list (\<lambda>v. Gave (PartProcess v)) (fc_process ?c3))\<rparr>" (is "_ = ?c4")
    using rollback_process_effect [of D ?c3] by blast
  obtain o5 where 5: "?r Task ?c4 = ?c4\<lparr>fc_task := None,
      fc_ops := (o5, snd (fc_ops ?c4) @ opt_list (\<lambda>v. Gave (PartTask v)) (fc_task ?c4))\<rparr>" (is "_ = ?c5")
    using rollback_task_effect [of D ?c4] by blast
  obtain o6 where 6: "?r SchedulerThread ?c5 = ?c5\<lparr>fc_scheduler_thread := None, fc_publication := None,
      fc_ops := (o6, snd (fc_ops ?c5) @ opt_list (\<lambda>v. Gave (PartThread v)) (fc_scheduler_thread ?c5)
        @ opt_list PubGave (fc_publication ?c5))\<rparr>"
    using rollback_scheduler_thread_effect [of D ?c5] by blast
  have "fold ?r (rev ORDER) core = ?r SchedulerThread (?r Task (?r Process (?r Resources (?r Memory (?r Configured core)))))"
    by (simp add: ORDER_def)
  then show ?thesis unfolding 1 2 3 4 5 6
    using assms by (simp add: core_inv_def core_parts_def Let_def log_balanced_def)
qed

lemma tx_drop_balanced:
  assumes "tx_inv core_inv k tx"
  shows "log_balanced (snd (fc_ops (tx_backend (tx_drop (ownership_backend (logged_fork D)) tx))))"
proof -
  have inv: "core_inv k (tx_backend tx)" using assms by (simp add: tx_inv_def)
  show ?thesis
    using rollback_all [OF inv, of D] rollback_unreached [OF inv, of "logged_fork D"] tx_drop_backend [OF assms, of "ownership_backend (logged_fork D)"]
    by simp
qed

lemma fork_finish_cases:
  assumes "core_inv 9 core" "core_has 9 core" "fc_finish (logged_fork D) core = (core', r)"
  shows "case r of
      Inl _ \<Rightarrow> core_inv 9 core'
    | Inr _ \<Rightarrow> (let log = snd (fc_ops core') in
        ev_took log = core_parts core \<and> ev_gave log = [] \<and> pub_gave log = pub_took log
        \<and> ev_count InstDone log = 1 \<and> ev_count InstUndone log = 0 \<and> ev_count ResGave log = 0)"
proof -
  obtain p c where pc: "fc_process core = Some p" "fc_configured core = Some c" "fc_resources_installed core"
    using assms(2) by (auto simp: core_has_def)
  obtain ops1 r1 where f: "op_finish D p c (fst (fc_ops core)) = (ops1, r1)" by fastforce
  show ?thesis
  proof (cases r1)
    case (Inl e)
    then have "core' = core\<lparr>fc_ops := (ops1, snd (fc_ops core))\<rparr>" "r = Inl e"
      using assms(3) pc f by (simp_all add: fc_finish_def owned_def log_result_def)
    then show ?thesis using core_inv_ops [OF assms(1)] by simp
  next
    case (Inr out)
    let ?c = "core\<lparr>fc_ops := (ops1, snd (fc_ops core))\<rparr>"
    have r: "core' = restore_publication (logged_fork D) ?c" "r = Inr out"
      using assms(3) pc f Inr by (simp_all add: fc_finish_def owned_def log_result_def)
    obtain o2 where "restore_publication (logged_fork D) ?c =
        ?c\<lparr>fc_publication := None, fc_ops := (o2, snd (fc_ops ?c) @ opt_list PubGave (fc_publication ?c))\<rparr>"
      using restore_publication_effect [of D ?c] by blast
    then show ?thesis using r assms(1) pc(3) by (simp add: core_inv_def Let_def)
  qed
qed

lemma core_has_parts:
  assumes "core_has 9 core"
  shows "\<exists>st task proc mem conf. core_parts core
    = [PartThread st, PartTask task, PartProcess proc, PartMemory mem, PartConfigured conf]"
  using assms by (auto simp: core_has_def core_parts_def)

subsection \<open>Properties\<close>

text \<open>
  C9: A fork is all or nothing, whatever its operations and the injected failures do.  When it
  fails, every part that an operation handed out is given back exactly once, in the reverse
  order of acquisition; installed resources are uninstalled and reserved ones released.  When it
  succeeds, the five parts have been acquired in the order of the stages, none is given back and
  the resources stay installed.  In both cases the publication state is restored.
\<close>

theorem fork_all_or_nothing:
  "case run_linux_fork_transaction (ownership_backend (logged_fork D)) fails (ownership_new (ops, [])) f of
     (tx, Inl _) \<Rightarrow> log_balanced (snd (fc_ops (tx_backend tx)))
   | (tx, Inr _) \<Rightarrow>
       (let log = snd (fc_ops (tx_backend tx))
        in (\<exists>st task proc mem conf. ev_took log
              = [PartThread st, PartTask task, PartProcess proc, PartMemory mem, PartConfigured conf])
           \<and> ev_gave log = [] \<and> pub_gave log = pub_took log
           \<and> ev_count InstDone log = 1 \<and> ev_count InstUndone log = 0 \<and> ev_count ResGave log = 0)"
proof -
  obtain tx r where run: "run_linux_fork_transaction (ownership_backend (logged_fork D)) fails (ownership_new (ops, [])) f = (tx, r)"
    by fastforce
  have has: "core_has 0 (ownership_new (ops, []))" by (simp add: core_has_def)
  show ?thesis using core_inv_new has run
  proof (cases rule: logged.run_cases)
    case (failed m tx1 e)
    then show ?thesis using run tx_drop_balanced by simp
  next
    case (unfinished tx1 b' e)
    then have "tx_inv core_inv 9 (tx1\<lparr>tx_backend := b'\<rparr>)" using fork_finish_cases [of "tx_backend tx1" D b'] by (simp add: tx_inv_def)
    then show ?thesis using unfinished run tx_drop_balanced by simp
  next
    case (finished tx1 out)
    then show ?thesis using run fork_finish_cases [of "tx_backend tx1" D "tx_backend tx"] core_has_parts [of "tx_backend tx1"]
      by (simp add: tx_inv_def Let_def)
  qed
qed

text \<open>
  C38: Cloning and mapping the pages of a process leaks nothing, whatever the page operations and
  the injected failures do.  On failure exactly the pages taken are released and exactly the
  addresses mapped are unmapped, each in reverse order; on success the pages returned are the
  pages taken, one for each page of the parent, mapped at consecutive page addresses.
\<close>

theorem fork_pages_balanced:
  "case clone_and_map_linux_fork_pages (logged_pages P) fails alloc address page_size parents prot ((ops, []), f) of
     (((ops', log), f'), Inl _) \<Rightarrow> pages_gave log = rev (pages_took log) \<and> pages_unmapped log = rev (pages_mapped log)
   | (((ops', log), f'), Inr pages) \<Rightarrow>
       pages_took log = pages \<and> length pages = length parents \<and> pages_gave log = []
       \<and> pages_mapped log = map (page_at address page_size) [0..<length parents] \<and> pages_unmapped log = []"
proof -
  obtain ops' log f' r where c: "clone_and_map_linux_fork_pages (logged_pages P) fails alloc address page_size parents prot
      ((ops, []), f) = (((ops', log), f'), r)" by (metis prod.collapse)
  show ?thesis using clone_and_map_logged [OF c] c by (cases r) simp_all
qed

end
