(* ===== verification/Refcount_Law.thy ===== *)
theory Refcount_Law
  imports Smros_Prelude "HOL-Library.Multiset"
begin

text \<open>
  Tables of reference-counted entries.  The open-description table and the table of shared pages
  both count the holders of an entry, refuse to count past the width of the counter, and drop the
  entry with its last reference.  The locale states that contract; its lemmas relate the counters
  to the multiset of keys that the holders have, for single calls and for the loops that acquire
  or release a list of keys.
\<close>

text \<open>The loops \<open>for key in keys { table.release(key) }\<close>, the results collected in order.\<close>

fun release_all :: "('t \<Rightarrow> 'k \<Rightarrow> 't \<times> 'v option) \<Rightarrow> 'k list \<Rightarrow> 't \<Rightarrow> 't \<times> 'v list" where
  "release_all release [] t = (t, [])"
| "release_all release (k # ks) t =
     (case release t k of (t, v) \<Rightarrow>
        (case release_all release ks t of (t, vs) \<Rightarrow>
           (t, (case v of None \<Rightarrow> vs | Some v \<Rightarrow> v # vs))))"

locale refcount_table =
  fixes ok :: "'t \<Rightarrow> bool"
    and refs :: "'t \<Rightarrow> 'k \<Rightarrow> nat option"
    and shape :: "'t \<Rightarrow> 's"
    and acquire :: "'t \<Rightarrow> 'k \<Rightarrow> 't \<times> bool"
    and release :: "'t \<Rightarrow> 'k \<Rightarrow> 't \<times> 'v option"
  assumes acquire_taken: "ok t \<Longrightarrow> acquire t k = (u, True) \<Longrightarrow>
      \<exists>n. refs t k = Some n \<and> refs u = (refs t)(k \<mapsto> Suc n) \<and> shape u = shape t \<and> ok u"
    and acquire_refused: "ok t \<Longrightarrow> acquire t k = (u, False) \<Longrightarrow> u = t"
    and release_kept: "ok t \<Longrightarrow> refs t k = Some (Suc (Suc n)) \<Longrightarrow>
      \<exists>u. release t k = (u, None) \<and> refs u = (refs t)(k \<mapsto> Suc n) \<and> shape u = shape t \<and> ok u"
    and release_last: "ok t \<Longrightarrow> refs t k = Some (Suc 0) \<Longrightarrow>
      \<exists>u v. release t k = (u, Some v) \<and> refs u = (refs t)(k := None) \<and> ok u"
    and shape_dom: "ok t \<Longrightarrow> ok u \<Longrightarrow> shape t = shape u \<Longrightarrow> dom (refs t) = dom (refs u)"
    and table_eqI: "ok t \<Longrightarrow> ok u \<Longrightarrow> refs t = refs u \<Longrightarrow> shape t = shape u \<Longrightarrow> t = u"
begin

text \<open>The counters are exact for a multiset of holders: an entry counts the holders of its key, and every held key has an entry.\<close>

definition counted :: "'t \<Rightarrow> 'k multiset \<Rightarrow> bool" where
  "counted t M \<longleftrightarrow> ok t \<and> (\<forall>k n. refs t k = Some n \<longrightarrow> n = count M k) \<and> (\<forall>k\<in>#M. refs t k \<noteq> None)"

lemma countedD:
  assumes "counted t M"
  shows "ok t" "refs t k = Some n \<Longrightarrow> n = count M k" "k \<in># M \<Longrightarrow> refs t k = Some (count M k)"
  using assms by (auto simp: counted_def)

lemma counted_acquire:
  assumes "counted t M" "acquire t k = (u, True)"
  shows "counted u (add_mset k M)" "shape u = shape t"
  using acquire_taken [OF countedD(1) [OF assms(1)] assms(2)] assms(1) by (auto simp: counted_def)

lemma counted_release:
  assumes c: "counted t (add_mset k M)" and r: "release t k = (u, v)"
  shows "counted u M" "v = None \<longleftrightarrow> k \<in># M" "k \<in># M \<Longrightarrow> shape u = shape t"
proof -
  have rk: "refs t k = Some (Suc (count M k))" using countedD(3) [OF c, of k] by simp
  have "counted u M \<and> (v = None \<longleftrightarrow> k \<in># M) \<and> (k \<in># M \<longrightarrow> shape u = shape t)"
  proof (cases "k \<in># M")
    case True
    then obtain n where n: "count M k = Suc n" by (metis Suc_pred count_greater_zero_iff)
    from release_kept [OF countedD(1) [OF c], of k n] rk n r
    have "refs u = (refs t)(k \<mapsto> Suc n)" "v = None" "shape u = shape t" "ok u" by auto
    then show ?thesis using c True n by (auto simp: counted_def split: if_splits)
  next
    case False
    then have "refs t k = Some (Suc 0)" using rk by (simp add: not_in_iff)
    from release_last [OF countedD(1) [OF c] this] r
    have "refs u = (refs t)(k := None)" "v \<noteq> None" "ok u" by auto
    then show ?thesis using c False by (auto simp: counted_def split: if_splits)
  qed
  then show "counted u M" "v = None \<longleftrightarrow> k \<in># M" "k \<in># M \<Longrightarrow> shape u = shape t" by simp_all
qed

lemma counted_eqI: "counted t M \<Longrightarrow> counted u M \<Longrightarrow> shape t = shape u \<Longrightarrow> t = u"
proof (rule table_eqI)
  assume c: "counted t M" "counted u M" and s: "shape t = shape u"
  then have d: "dom (refs t) = dom (refs u)" by (intro shape_dom countedD(1))
  show "refs t = refs u"
  proof
    fix k
    show "refs t k = refs u k"
    proof (cases "refs t k")
      case None
      then have "k \<notin> dom (refs t)" by (simp add: domIff)
      then have "refs u k = None" using d by (simp add: domIff)
      with None show ?thesis by simp
    next
      case (Some n)
      then have "k \<in> dom (refs u)" using d by (metis domI)
      then obtain m where "refs u k = Some m" by auto
      with Some c show ?thesis using countedD(2) by metis
    qed
  qed
qed (simp_all add: counted_def)

lemma counted_release_all:
  "counted t (mset ks + M) \<Longrightarrow> release_all release ks t = (u, vs) \<Longrightarrow> counted u M"
proof (induction ks arbitrary: t u vs)
  case (Cons k ks)
  then show ?case by (auto split: prod.splits dest: counted_release(1))
qed simp

text \<open>Every entry that goes away is reported.\<close>

lemma card_release_all:
  "counted t (mset ks + M) \<Longrightarrow> finite (dom (refs t)) \<Longrightarrow> release_all release ks t = (u, vs)
     \<Longrightarrow> card (dom (refs t)) = card (dom (refs u)) + length vs"
proof (induction ks arbitrary: t u vs)
  case (Cons k ks)
  obtain t1 v where r: "release t k = (t1, v)" by fastforce
  have c: "counted t (add_mset k (mset ks + M))" using Cons.prems(1) by simp
  have rk: "refs t k = Some (Suc (count (mset ks + M) k))" using countedD(3) [OF c, of k] by simp
  have d: "finite (dom (refs t1)) \<and> card (dom (refs t)) = card (dom (refs t1)) + (case v of None \<Rightarrow> 0 | Some _ \<Rightarrow> 1)"
  proof (cases v)
    case None
    then have "k \<in># mset ks + M" using counted_release(2) [OF c r] by simp
    then have "dom (refs t1) = dom (refs t)"
      using counted_release [OF c r] by (intro shape_dom countedD(1) [OF c]) (auto dest: countedD(1))
    with None Cons.prems(2) show ?thesis by simp
  next
    case (Some h)
    then have "count (mset ks + M) k = 0" using counted_release(2) [OF c r] by (simp add: not_in_iff)
    with release_last [OF countedD(1) [OF c], of k] rk r have "dom (refs t1) = dom (refs t) - {k}" by auto
    moreover have "k \<in> dom (refs t)" using rk by auto
    ultimately show ?thesis using Some Cons.prems(2) card_Suc_Diff1 [of "dom (refs t)" k] by simp
  qed
  obtain w ws where a: "release_all release ks t1 = (w, ws)" by fastforce
  have "card (dom (refs t1)) = card (dom (refs w)) + length ws"
    using Cons.IH [OF counted_release(1) [OF c r] _ a] d by simp
  then show ?case using Cons.prems(3) r a d by (auto split: option.splits)
qed simp

text \<open>Keys that somebody else still holds are released without a trace.\<close>

lemma release_all_shape:
  assumes "counted t (mset ks + M)" "set ks \<subseteq> set_mset M" "release_all release ks t = (u, vs)"
  shows "shape u = shape t \<and> vs = []"
  using assms
proof (induction ks arbitrary: t u vs)
  case (Cons k ks)
  obtain t1 v where r: "release t k = (t1, v)" by fastforce
  have c: "counted t (add_mset k (mset ks + M))" using Cons.prems(1) by simp
  have k: "k \<in># mset ks + M" using Cons.prems(2) by simp
  note s = counted_release [OF c r]
  obtain w ws where a: "release_all release ks t1 = (w, ws)" by fastforce
  have "shape w = shape t1 \<and> ws = []" using Cons.IH [OF s(1) _ a] Cons.prems(2) by simp
  then show ?case using Cons.prems(3) r a s(2,3) k by auto
qed simp

end

end
