(* ===== verification/Linux_Descriptors.thy ===== *)
theory Linux_Descriptors
  imports Linux_Wait Object_Types Slot_Table Refcount_Law
begin

text \<open>
  Open descriptions and the resources of a process: the reference-counted table of open
  descriptions, the descriptors and objects that a process holds, and the clone of these resources
  that a fork reserves, commits or rolls back (\<open>linux_process_memory_logic_shared.rs\<close>).  The
  array lengths \<open>N\<close>, \<open>D\<close> and \<open>O\<close> of the code are the lengths of the lists.

  \<open>LinuxOpenDescriptionTableCore\<close>, \<open>LinuxProcessResourceCore\<close> and \<open>LinuxResourceCloneCore\<close> are compiled
  for the host only (\<open>cfg(not(target_os = "none"))\<close>): they are the executable reference of the
  descriptor tables that the kernel keeps elsewhere, and the lemmas below speak of this reference.
\<close>

subsection \<open>The table of open descriptions\<close>

record LinuxDescriptorEntry =
  de_fd :: usize
  de_description_id :: u32
  de_close_on_exec :: bool

definition EMPTY_DESCRIPTOR :: LinuxDescriptorEntry where
  "EMPTY_DESCRIPTOR = \<lparr>de_fd = 0, de_description_id = 0, de_close_on_exec = False\<rparr>"

record LinuxOpenDescription =
  od_id :: u32
  od_handle :: u32
  od_object_type :: ObjectType
  od_status_flags :: usize
  od_offset :: usize
  od_references :: usize

record LinuxOpenDescriptionTableCore =
  dt_descriptions :: "LinuxOpenDescription option list"
  dt_next_id :: u32

definition description_table_new :: "nat \<Rightarrow> LinuxOpenDescriptionTableCore" where
  "description_table_new N = \<lparr>dt_descriptions = replicate N None, dt_next_id = 1\<rparr>"

definition description_insert ::
  "LinuxOpenDescriptionTableCore \<Rightarrow> u32 \<Rightarrow> ObjectType \<Rightarrow> usize \<Rightarrow> usize \<Rightarrow> LinuxOpenDescriptionTableCore \<times> u32 option" where
  "description_insert t handle object_type status_flags offset =
     (case position (\<lambda>slot. slot = None) (dt_descriptions t) of
        None \<Rightarrow> (t, None)
      | Some slot \<Rightarrow>
          let ident = dt_next_id t
          in if ident = 0 then (t, None)
             else (\<lparr>dt_descriptions = (dt_descriptions t)[slot := Some
                      \<lparr>od_id = ident, od_handle = handle, od_object_type = object_type,
                       od_status_flags = status_flags, od_offset = offset, od_references = 0\<rparr>],
                    dt_next_id = (case checked_add ident 1 of Some following \<Rightarrow> following | None \<Rightarrow> 0)\<rparr>,
                   Some ident))"

definition description_insert_object ::
  "LinuxOpenDescriptionTableCore \<Rightarrow> u32 \<Rightarrow> ObjectType \<Rightarrow> LinuxOpenDescriptionTableCore \<times> u32 option" where
  "description_insert_object t handle object_type = description_insert t handle object_type 0 0"

definition description_get :: "LinuxOpenDescriptionTableCore \<Rightarrow> u32 \<Rightarrow> LinuxOpenDescription option" where
  "description_get t ident = List.find (\<lambda>description. od_id description = ident) (flatten (dt_descriptions t))"

definition description_index :: "LinuxOpenDescription option list \<Rightarrow> u32 \<Rightarrow> nat option" where
  "description_index ds ident = position (slot_is (\<lambda>description. od_id description = ident)) ds"

definition put_description :: "LinuxOpenDescriptionTableCore \<Rightarrow> nat \<Rightarrow> LinuxOpenDescription option \<Rightarrow> LinuxOpenDescriptionTableCore" where
  "put_description t slot d = t\<lparr>dt_descriptions := (dt_descriptions t)[slot := d]\<rparr>"

definition description_set_offset ::
  "LinuxOpenDescriptionTableCore \<Rightarrow> u32 \<Rightarrow> usize \<Rightarrow> LinuxOpenDescriptionTableCore \<times> bool" where
  "description_set_offset t ident offset =
     (case description_index (dt_descriptions t) ident of
        None \<Rightarrow> (t, False)
      | Some slot \<Rightarrow> (put_description t slot (map_option (od_offset_update (\<lambda>_. offset)) (dt_descriptions t ! slot)), True))"

definition description_acquire :: "LinuxOpenDescriptionTableCore \<Rightarrow> u32 \<Rightarrow> LinuxOpenDescriptionTableCore \<times> bool" where
  "description_acquire t ident =
     (case description_index (dt_descriptions t) ident of
        None \<Rightarrow> (t, False)
      | Some slot \<Rightarrow>
          let description = the (dt_descriptions t ! slot)
          in case checked_add (od_references description) 1 of
               None \<Rightarrow> (t, False)
             | Some references \<Rightarrow> (put_description t slot (Some (description\<lparr>od_references := references\<rparr>)), True))"

definition description_release :: "LinuxOpenDescriptionTableCore \<Rightarrow> u32 \<Rightarrow> LinuxOpenDescriptionTableCore \<times> u32 option" where
  "description_release t ident =
     (case description_index (dt_descriptions t) ident of
        None \<Rightarrow> (t, None)
      | Some slot \<Rightarrow>
          let description = the (dt_descriptions t ! slot)
          in case checked_sub (od_references description) 1 of
               None \<Rightarrow> (t, None)
             | Some references \<Rightarrow>
                 if references \<noteq> 0
                 then (put_description t slot (Some (description\<lparr>od_references := references\<rparr>)), None)
                 else (put_description t slot None, Some (od_handle description)))"

subsection \<open>The resources of a process\<close>

record LinuxProcessResourceCore =
  rc_descriptors :: "LinuxDescriptorEntry list"
  rc_descriptor_len :: nat
  rc_objects :: "u32 list"
  rc_object_len :: nat

definition resources_new :: "nat \<Rightarrow> nat \<Rightarrow> LinuxProcessResourceCore" where
  "resources_new D O' =
     \<lparr>rc_descriptors = replicate D EMPTY_DESCRIPTOR, rc_descriptor_len = 0, rc_objects = replicate O' 0, rc_object_len = 0\<rparr>"

definition descriptors :: "LinuxProcessResourceCore \<Rightarrow> LinuxDescriptorEntry list" where
  "descriptors r = take (rc_descriptor_len r) (rc_descriptors r)"

definition objects :: "LinuxProcessResourceCore \<Rightarrow> u32 list" where
  "objects r = take (rc_object_len r) (rc_objects r)"

definition descriptor :: "LinuxProcessResourceCore \<Rightarrow> usize \<Rightarrow> LinuxDescriptorEntry option" where
  "descriptor r fd = List.find (\<lambda>entry. de_fd entry = fd) (descriptors r)"

definition insert_descriptor ::
  "LinuxProcessResourceCore \<Rightarrow> usize \<Rightarrow> u32 \<Rightarrow> bool \<Rightarrow> LinuxOpenDescriptionTableCore
     \<Rightarrow> (LinuxProcessResourceCore \<times> LinuxOpenDescriptionTableCore) \<times> bool" where
  "insert_descriptor r fd description_id close_on_exec descriptions =
     (if rc_descriptor_len r = length (rc_descriptors r) \<or> descriptor r fd \<noteq> None
      then ((r, descriptions), False)
      else
        (case description_acquire descriptions description_id of
           (descriptions, False) \<Rightarrow> ((r, descriptions), False)
         | (descriptions, True) \<Rightarrow>
             ((r\<lparr>rc_descriptors := (rc_descriptors r)[rc_descriptor_len r :=
                    \<lparr>de_fd = fd, de_description_id = description_id, de_close_on_exec = close_on_exec\<rparr>],
                 rc_descriptor_len := rc_descriptor_len r + 1\<rparr>, descriptions), True)))"

definition resource_insert_object ::
  "LinuxProcessResourceCore \<Rightarrow> u32 \<Rightarrow> LinuxOpenDescriptionTableCore
     \<Rightarrow> (LinuxProcessResourceCore \<times> LinuxOpenDescriptionTableCore) \<times> bool" where
  "resource_insert_object r description_id descriptions =
     (if rc_object_len r = length (rc_objects r) \<or> description_id \<in> set (objects r)
      then ((r, descriptions), False)
      else
        (case description_acquire descriptions description_id of
           (descriptions, False) \<Rightarrow> ((r, descriptions), False)
         | (descriptions, True) \<Rightarrow>
             ((r\<lparr>rc_objects := (rc_objects r)[rc_object_len r := description_id],
                 rc_object_len := rc_object_len r + 1\<rparr>, descriptions), True)))"

definition remove_descriptor_index :: "LinuxProcessResourceCore \<Rightarrow> nat \<Rightarrow> LinuxProcessResourceCore" where
  "remove_descriptor_index r index =
     (let shifted = shift_down index (rc_descriptor_len r) (rc_descriptors r);
          len = rc_descriptor_len r - 1
      in r\<lparr>rc_descriptors := shifted[len := EMPTY_DESCRIPTOR], rc_descriptor_len := len\<rparr>)"

definition close_descriptor ::
  "LinuxProcessResourceCore \<Rightarrow> usize \<Rightarrow> LinuxOpenDescriptionTableCore
     \<Rightarrow> (LinuxProcessResourceCore \<times> LinuxOpenDescriptionTableCore) \<times> u32 option" where
  "close_descriptor r fd descriptions =
     (case position (\<lambda>entry. de_fd entry = fd) (take (rc_descriptor_len r) (rc_descriptors r)) of
        None \<Rightarrow> ((r, descriptions), None)
      | Some index \<Rightarrow>
          let entry = rc_descriptors r ! index
          in case description_release descriptions (de_description_id entry) of
               (descriptions, handle) \<Rightarrow> ((remove_descriptor_index r index, descriptions), handle))"

definition release_object ::
  "LinuxProcessResourceCore \<Rightarrow> u32 \<Rightarrow> LinuxOpenDescriptionTableCore
     \<Rightarrow> (LinuxProcessResourceCore \<times> LinuxOpenDescriptionTableCore) \<times> u32 option" where
  "release_object r description_id descriptions =
     (case position (\<lambda>object. object = description_id) (take (rc_object_len r) (rc_objects r)) of
        None \<Rightarrow> ((r, descriptions), None)
      | Some index \<Rightarrow>
          let shifted = shift_down index (rc_object_len r) (rc_objects r);
              len = rc_object_len r - 1
          in case description_release descriptions description_id of
               (descriptions, handle) \<Rightarrow>
                 ((r\<lparr>rc_objects := shifted[len := 0], rc_object_len := len\<rparr>, descriptions), handle))"

subsection \<open>Cloning the resources for a fork\<close>

record LinuxResourceCloneCore =
  cl_descriptors :: "LinuxDescriptorEntry list"
  cl_descriptor_len :: nat
  cl_objects :: "u32 list"
  cl_object_len :: nat

definition clone_descriptors :: "LinuxResourceCloneCore \<Rightarrow> LinuxDescriptorEntry list" where
  "clone_descriptors c = take (cl_descriptor_len c) (cl_descriptors c)"

definition clone_objects :: "LinuxResourceCloneCore \<Rightarrow> u32 list" where
  "clone_objects c = take (cl_object_len c) (cl_objects c)"

fun rollback_release ::
  "u32 list \<Rightarrow> LinuxOpenDescriptionTableCore \<times> u32 option list \<times> nat \<Rightarrow> LinuxOpenDescriptionTableCore \<times> u32 option list \<times> nat" where
  "rollback_release [] x = x"
| "rollback_release (description_id # ids) (descriptions, released, released_len) =
     (case description_release descriptions description_id of
        (descriptions, None) \<Rightarrow> rollback_release ids (descriptions, released, released_len)
      | (descriptions, Some handle) \<Rightarrow>
          if released_len < length released
          then rollback_release ids (descriptions, released[released_len := Some handle], released_len + 1)
          else rollback_release ids (descriptions, released, released_len))"

definition clone_rollback ::
  "LinuxResourceCloneCore \<Rightarrow> LinuxOpenDescriptionTableCore \<Rightarrow> LinuxOpenDescriptionTableCore \<times> u32 option list" where
  "clone_rollback c descriptions =
     (case rollback_release (clone_objects c)
             (rollback_release (map de_description_id (clone_descriptors c))
               (descriptions, replicate (length (dt_descriptions descriptions)) None, 0)) of
        (descriptions, released, _) \<Rightarrow> (descriptions, released))"

definition clone_push_descriptor :: "LinuxResourceCloneCore \<Rightarrow> LinuxDescriptorEntry \<Rightarrow> LinuxResourceCloneCore" where
  "clone_push_descriptor c entry =
     c\<lparr>cl_descriptors := (cl_descriptors c)[cl_descriptor_len c := entry], cl_descriptor_len := cl_descriptor_len c + 1\<rparr>"

definition clone_push_object :: "LinuxResourceCloneCore \<Rightarrow> u32 \<Rightarrow> LinuxResourceCloneCore" where
  "clone_push_object c description_id =
     c\<lparr>cl_objects := (cl_objects c)[cl_object_len c := description_id], cl_object_len := cl_object_len c + 1\<rparr>"

text \<open>The two loops of \<open>reserve_with_failure\<close>; the closure \<open>fail_after_acquire\<close> is a function on its own state.\<close>

fun reserve_loop ::
  "('a \<Rightarrow> u32) \<Rightarrow> (LinuxResourceCloneCore \<Rightarrow> 'a \<Rightarrow> LinuxResourceCloneCore) \<Rightarrow> ('f \<Rightarrow> 'f \<times> bool) \<Rightarrow> 'a list
     \<Rightarrow> LinuxResourceCloneCore \<Rightarrow> LinuxOpenDescriptionTableCore \<times> 'f
     \<Rightarrow> (LinuxOpenDescriptionTableCore \<times> 'f) \<times> LinuxResourceCloneCore option" where
  "reserve_loop key push fail_after_acquire [] clone x = (x, Some clone)"
| "reserve_loop key push fail_after_acquire (entry # entries) clone (descriptions, f) =
     (case description_acquire descriptions (key entry) of
        (descriptions, False) \<Rightarrow> ((fst (clone_rollback clone descriptions), f), None)
      | (descriptions, True) \<Rightarrow>
          let clone = push clone entry
          in case fail_after_acquire f of
               (f, True) \<Rightarrow> ((fst (clone_rollback clone descriptions), f), None)
             | (f, False) \<Rightarrow> reserve_loop key push fail_after_acquire entries clone (descriptions, f))"

definition reserve_with_failure ::
  "LinuxProcessResourceCore \<Rightarrow> ('f \<Rightarrow> 'f \<times> bool) \<Rightarrow> LinuxOpenDescriptionTableCore \<times> 'f
     \<Rightarrow> (LinuxOpenDescriptionTableCore \<times> 'f) \<times> LinuxResourceCloneCore option" where
  "reserve_with_failure parent fail_after_acquire x =
     (let clone = \<lparr>cl_descriptors = replicate (length (rc_descriptors parent)) EMPTY_DESCRIPTOR, cl_descriptor_len = 0,
                   cl_objects = replicate (length (rc_objects parent)) 0, cl_object_len = 0\<rparr>
      in case reserve_loop de_description_id clone_push_descriptor fail_after_acquire (descriptors parent) clone x of
           (x, None) \<Rightarrow> (x, None)
         | (x, Some clone) \<Rightarrow> reserve_loop (\<lambda>object. object) clone_push_object fail_after_acquire (objects parent) clone x)"

definition reserve ::
  "LinuxProcessResourceCore \<Rightarrow> LinuxOpenDescriptionTableCore \<Rightarrow> LinuxOpenDescriptionTableCore \<times> LinuxResourceCloneCore option" where
  "reserve parent descriptions =
     (case reserve_with_failure parent (\<lambda>_. ((), False)) (descriptions, ()) of
        ((descriptions, _), clone) \<Rightarrow> (descriptions, clone))"

definition clone_commit :: "LinuxResourceCloneCore \<Rightarrow> LinuxProcessResourceCore \<Rightarrow> LinuxProcessResourceCore \<times> bool" where
  "clone_commit c child =
     (if rc_descriptor_len child \<noteq> 0 \<or> rc_object_len child \<noteq> 0 then (child, False)
      else (\<lparr>rc_descriptors = cl_descriptors c, rc_descriptor_len = cl_descriptor_len c,
             rc_objects = cl_objects c, rc_object_len = cl_object_len c\<rparr>, True))"

subsection \<open>The table counts references\<close>

interpretation dtab: slot_table "\<lambda>slot. slot \<noteq> None" "\<lambda>slot. od_id (the slot)" description_index
  "position (\<lambda>slot. slot = None)"
proof
  show "description_index es k = position (\<lambda>e. e \<noteq> None \<and> od_id (the e) = k) es" for es k
    unfolding description_index_def by (rule arg_cong [of _ _ "\<lambda>p. position p es"]) (auto simp: slot_is_def split: option.splits)
  show "position (\<lambda>slot. slot = None) es = position (\<lambda>e. \<not> e \<noteq> None) es" for es :: "LinuxOpenDescription option list"
    by simp
qed

text \<open>Identifiers of live descriptions are distinct and lie below the counter.\<close>

definition description_ok :: "LinuxOpenDescriptionTableCore \<Rightarrow> bool" where
  "description_ok t \<longleftrightarrow>
     distinct_live (\<lambda>slot. slot \<noteq> None) (\<lambda>slot. od_id (the slot)) (dt_descriptions t)
     \<and> (dt_next_id t = 0 \<or> (\<forall>d\<in>set (flatten (dt_descriptions t)). od_id d < dt_next_id t))"

definition description_refs :: "LinuxOpenDescriptionTableCore \<Rightarrow> u32 \<Rightarrow> nat option" where
  "description_refs t ident = map_option (\<lambda>d. unat (od_references d)) (description_get t ident)"

definition description_shape :: "LinuxOpenDescriptionTableCore \<Rightarrow> LinuxOpenDescriptionTableCore" where
  "description_shape t = t\<lparr>dt_descriptions := map (map_option (od_references_update (\<lambda>_. 0))) (dt_descriptions t)\<rparr>"

lemma description_get_index:
  "description_get t ident = (case description_index (dt_descriptions t) ident of None \<Rightarrow> None | Some i \<Rightarrow> dt_descriptions t ! i)"
  by (simp add: description_get_def description_index_def find_flatten)

lemma index_slot:
  assumes "description_index ds ident = Some i"
  obtains d where "i < length ds" "ds ! i = Some d" "od_id d = ident"
  using dtab.index_SomeD [OF assms] by auto

text \<open>Replacing a description by one with the same identifier, and dropping one.\<close>

lemma description_get_lookup: "description_get t k = (case dtab.lookup (dt_descriptions t) k of None \<Rightarrow> None | Some slot \<Rightarrow> slot)"
  by (simp add: description_get_index dtab.lookup_def split: option.splits)

lemma description_replace:
  assumes i: "description_index (dt_descriptions t) ident = Some i" and ok: "description_ok t" and d: "od_id d = ident"
  shows "description_get (put_description t i (Some d)) = (description_get t)(ident \<mapsto> d)"
    and "description_ok (put_description t i (Some d))"
proof -
  obtain e where e: "i < length (dt_descriptions t)" "dt_descriptions t ! i = Some e" "od_id e = ident"
    using i by (rule index_slot)
  show "description_get (put_description t i (Some d)) = (description_get t)(ident \<mapsto> d)"
    using dtab.lookup_replace [OF i, of "Some d"] d by (auto simp: description_get_lookup put_description_def)
  have "distinct_live (\<lambda>slot. slot \<noteq> None) (\<lambda>slot. od_id (the slot)) ((dt_descriptions t)[i := Some d])"
    using ok e d by (intro distinct_live_update) (auto simp: description_ok_def dest: distinct_liveD)
  moreover have "e \<in> set (flatten (dt_descriptions t))" using e by (auto simp: in_flatten_nth)
  ultimately show "description_ok (put_description t i (Some d))"
    using ok e d flatten_replace_cases [OF e(1), of _ d] by (fastforce simp: description_ok_def put_description_def)
qed

lemma description_clear:
  assumes i: "description_index (dt_descriptions t) ident = Some i" and ok: "description_ok t"
  shows "description_get (put_description t i None) = (description_get t)(ident := None)"
    and "description_ok (put_description t i None)"
proof -
  obtain e where e: "i < length (dt_descriptions t)" "dt_descriptions t ! i = Some e" "od_id e = ident"
    using i by (rule index_slot)
  have d: "distinct_live (\<lambda>slot. slot \<noteq> None) (\<lambda>slot. od_id (the slot)) (dt_descriptions t)"
    using ok by (simp add: description_ok_def)
  show "description_get (put_description t i None) = (description_get t)(ident := None)"
    using dtab.lookup_clear [OF d i, of None] by (auto simp: description_get_lookup put_description_def)
  show "description_ok (put_description t i None)"
    using dtab.index_clear(2) [OF d e(1), of None] e ok flatten_clear_subset [of "dt_descriptions t" i]
    by (auto simp: description_ok_def put_description_def)
qed

lemma description_acquire_taken:
  assumes ok: "description_ok t" and a: "description_acquire t k = (u, True)"
  shows "\<exists>n. description_refs t k = Some n \<and> description_refs u = (description_refs t)(k \<mapsto> Suc n)
           \<and> description_shape u = description_shape t \<and> description_ok u"
proof -
  obtain i where i: "description_index (dt_descriptions t) k = Some i"
    using a by (auto simp: description_acquire_def split: option.splits)
  obtain d where d: "i < length (dt_descriptions t)" "dt_descriptions t ! i = Some d" "od_id d = k"
    using i by (rule index_slot)
  obtain r where r: "checked_add (od_references d) 1 = Some r" "u = put_description t i (Some (d\<lparr>od_references := r\<rparr>))"
    using a i d by (auto simp: description_acquire_def split: option.splits)
  note p = description_replace [OF i ok, of "d\<lparr>od_references := r\<rparr>", simplified d(3), simplified]
  have "description_shape u = description_shape t"
    using d by (simp add: r(2) put_description_def description_shape_def map_update list_update_same_conv)
  moreover have "description_refs u = (description_refs t)(k \<mapsto> Suc (unat (od_references d)))"
    using p r by (auto simp: description_refs_def checked_add_Some_iff d(3))
  moreover have "description_refs t k = Some (unat (od_references d))"
    using i d by (simp add: description_refs_def description_get_index)
  ultimately show ?thesis using p(2) r(2) d(3) by simp
qed

lemma description_acquire_refused: "description_acquire t k = (u, False) \<Longrightarrow> u = t"
  by (auto simp: description_acquire_def Let_def split: option.splits)

lemma description_refs_slot:
  assumes "description_refs t k = Some n"
  obtains i d where "description_index (dt_descriptions t) k = Some i" "i < length (dt_descriptions t)"
    "dt_descriptions t ! i = Some d" "od_id d = k" "unat (od_references d) = n"
proof -
  obtain i where i: "description_index (dt_descriptions t) k = Some i"
    using assms by (auto simp: description_refs_def description_get_index split: option.splits)
  obtain d where "i < length (dt_descriptions t)" "dt_descriptions t ! i = Some d" "od_id d = k"
    using i by (rule index_slot)
  with i assms that show thesis by (auto simp: description_refs_def description_get_index)
qed

lemma description_release_kept:
  assumes ok: "description_ok t" and n: "description_refs t k = Some (Suc (Suc n))"
  shows "\<exists>u. description_release t k = (u, None) \<and> description_refs u = (description_refs t)(k \<mapsto> Suc n)
           \<and> description_shape u = description_shape t \<and> description_ok u"
proof -
  obtain i d where i: "description_index (dt_descriptions t) k = Some i" "i < length (dt_descriptions t)"
    "dt_descriptions t ! i = Some d" "od_id d = k" "unat (od_references d) = Suc (Suc n)"
    using n by (rule description_refs_slot)
  have one: "1 \<le> od_references d" using i(5) by (simp add: word_le_nat_alt)
  define r where "r = od_references d - 1"
  have r: "checked_sub (od_references d) 1 = Some r" "unat r = Suc n"
    using one i(5) by (simp_all add: checked_sub_def r_def unat_sub)
  then have "r \<noteq> 0" by auto
  then have u: "description_release t k = (put_description t i (Some (d\<lparr>od_references := r\<rparr>)), None)"
    using i r by (simp add: description_release_def)
  note p = description_replace [OF i(1) ok, of "d\<lparr>od_references := r\<rparr>", simplified i(4), simplified]
  have "description_shape (put_description t i (Some (d\<lparr>od_references := r\<rparr>))) = description_shape t"
    using i by (simp add: put_description_def description_shape_def map_update list_update_same_conv)
  moreover have "description_refs (put_description t i (Some (d\<lparr>od_references := r\<rparr>))) = (description_refs t)(k \<mapsto> Suc n)"
    using p r by (auto simp: description_refs_def i(4))
  ultimately show ?thesis using u p(2) i(4) by simp
qed

lemma description_release_last:
  assumes ok: "description_ok t" and n: "description_refs t k = Some (Suc 0)"
  shows "\<exists>u v. description_release t k = (u, Some v) \<and> description_refs u = (description_refs t)(k := None) \<and> description_ok u"
proof -
  obtain i d where i: "description_index (dt_descriptions t) k = Some i" "i < length (dt_descriptions t)"
    "dt_descriptions t ! i = Some d" "od_id d = k" "unat (od_references d) = Suc 0"
    using n by (rule description_refs_slot)
  have "od_references d = 1" using i(5) by (simp add: word_unat_eq_iff)
  then have u: "description_release t k = (put_description t i None, Some (od_handle d))"
    using i by (simp add: description_release_def checked_sub_def)
  note p = description_clear [OF i(1) ok]
  have "description_refs (put_description t i None) = (description_refs t)(k := None)"
    using p by (auto simp: description_refs_def)
  with u p(2) show ?thesis by simp
qed

lemma description_shape_dom:
  assumes ok: "description_ok t" "description_ok u" and s: "description_shape t = description_shape u"
  shows "dom (description_refs t) = dom (description_refs u)"
proof -
  have "description_get w k = None \<longleftrightarrow> description_get (description_shape w) k = None" for w k
    by (auto simp: description_get_def description_shape_def flatten_map_option find_None_iff)
  with s have "description_get t k = None \<longleftrightarrow> description_get u k = None" for k by metis
  then show ?thesis by (auto simp: description_refs_def dom_def)
qed

lemma description_table_eqI:
  assumes ok: "description_ok t" "description_ok u" and r: "description_refs t = description_refs u"
    and s: "description_shape t = description_shape u"
  shows "t = u"
proof -
  let ?z = "map_option (od_references_update (\<lambda>_. 0))"
  have m: "map ?z (dt_descriptions t) = map ?z (dt_descriptions u)" and nx: "dt_next_id t = dt_next_id u"
    using s by (cases t; cases u; simp add: description_shape_def)+
  have len: "length (dt_descriptions t) = length (dt_descriptions u)" using m by (rule map_eq_imp_length_eq)
  have "dt_descriptions t = dt_descriptions u"
  proof (rule nth_equalityI [OF len])
    fix i assume i: "i < length (dt_descriptions t)"
    have z: "?z (dt_descriptions t ! i) = ?z (dt_descriptions u ! i)"
      using m i len by (metis nth_map)
    show "dt_descriptions t ! i = dt_descriptions u ! i"
    proof (cases "dt_descriptions t ! i")
      case None
      with z show ?thesis by simp
    next
      case (Some d)
      with z obtain e where e: "dt_descriptions u ! i = Some e" "d\<lparr>od_references := 0\<rparr> = e\<lparr>od_references := 0\<rparr>"
        by (cases "dt_descriptions u ! i") auto
      then have id: "od_id d = od_id e" by (cases d; cases e) simp
      have "description_index (dt_descriptions t) (od_id d) = Some i" "description_index (dt_descriptions u) (od_id d) = Some i"
        using ok i len Some e id by (auto intro!: dtab.index_SomeI simp: description_ok_def)
      then have "unat (od_references d) = unat (od_references e)"
        using fun_cong [OF r, of "od_id d"] Some e by (simp add: description_refs_def description_get_index)
      then have "d = e" using e(2) by (cases d; cases e) (simp add: word_unat_eq_iff)
      with Some e show ?thesis by simp
    qed
  qed
  with nx show ?thesis by (cases t; cases u) simp
qed

interpretation dref: refcount_table description_ok description_refs description_shape description_acquire description_release
proof (unfold_locales, goal_cases)
  case 1 then show ?case by (rule description_acquire_taken)
next
  case 2 then show ?case using description_acquire_refused by blast
next
  case 3 then show ?case by (rule description_release_kept)
next
  case 4 then show ?case by (rule description_release_last)
next
  case 5 then show ?case by (rule description_shape_dom)
next
  case 6 then show ?case by (rule description_table_eqI)
qed

subsection \<open>Holders of descriptions\<close>

text \<open>
  The counters are exact for a list of held identifiers: each description counts its holders, and
  every held identifier names a description.
\<close>

definition references_exact :: "LinuxOpenDescriptionTableCore \<Rightarrow> u32 list \<Rightarrow> bool" where
  "references_exact t ids \<longleftrightarrow>
     description_ok t
     \<and> (\<forall>d\<in>set (flatten (dt_descriptions t)). unat (od_references d) = count_list ids (od_id d))
     \<and> (\<forall>ident\<in>set ids. \<exists>d\<in>set (flatten (dt_descriptions t)). od_id d = ident)"

lemma description_refs_iff:
  assumes "description_ok t"
  shows "description_refs t k = Some n \<longleftrightarrow>
    (\<exists>d\<in>set (flatten (dt_descriptions t)). od_id d = k \<and> unat (od_references d) = n)"
proof
  assume "description_refs t k = Some n"
  then show "\<exists>d\<in>set (flatten (dt_descriptions t)). od_id d = k \<and> unat (od_references d) = n"
    by (metis description_refs_slot in_flatten_nth)
next
  assume "\<exists>d\<in>set (flatten (dt_descriptions t)). od_id d = k \<and> unat (od_references d) = n"
  then obtain i d where d: "i < length (dt_descriptions t)" "dt_descriptions t ! i = Some d" "od_id d = k" "unat (od_references d) = n"
    by (auto simp: in_flatten_nth)
  then have "description_index (dt_descriptions t) k = Some i"
    using assms by (intro dtab.index_SomeI) (auto simp: description_ok_def)
  with d show "description_refs t k = Some n" by (simp add: description_refs_def description_get_index)
qed

lemma references_exact_counted: "references_exact t ids \<longleftrightarrow> dref.counted t (mset ids)"
proof (cases "description_ok t")
  case True
  have "(\<forall>k n. description_refs t k = Some n \<longrightarrow> n = count (mset ids) k)
      \<longleftrightarrow> (\<forall>d\<in>set (flatten (dt_descriptions t)). unat (od_references d) = count_list ids (od_id d))"
    by (auto simp: description_refs_iff [OF True] count_mset)
  moreover have "(\<forall>k\<in>#mset ids. description_refs t k \<noteq> None)
      \<longleftrightarrow> (\<forall>ident\<in>set ids. \<exists>d\<in>set (flatten (dt_descriptions t)). od_id d = ident)"
    by (auto simp: description_refs_iff [OF True]) blast
  ultimately show ?thesis using True by (simp add: references_exact_def dref.counted_def)
qed (simp add: references_exact_def dref.counted_def)

definition held :: "LinuxProcessResourceCore \<Rightarrow> u32 list" where
  "held r = map de_description_id (descriptors r) @ objects r"

definition clone_held :: "LinuxResourceCloneCore \<Rightarrow> u32 list" where
  "clone_held c = map de_description_id (clone_descriptors c) @ clone_objects c"

definition resource_ok :: "LinuxProcessResourceCore \<Rightarrow> bool" where
  "resource_ok r \<longleftrightarrow> rc_descriptor_len r \<le> length (rc_descriptors r) \<and> rc_object_len r \<le> length (rc_objects r)
     \<and> distinct (map de_fd (descriptors r)) \<and> distinct (objects r)"

lemma resource_ok_new [simp]: "resource_ok (resources_new D O')" "held (resources_new D O') = []"
  by (simp_all add: resource_ok_def resources_new_def descriptors_def objects_def held_def)

lemma take_snoc: "n < length xs \<Longrightarrow> take (Suc n) (xs[n := x]) = take n xs @ [x]"
  by (simp add: take_Suc_conv_app_nth)

lemma mset_vec_remove: "i < length xs \<Longrightarrow> mset xs = add_mset (xs ! i) (mset (vec_remove xs i))"
  unfolding vec_remove_def by (rule mset_split_nth)

lemma map_vec_remove: "map f (vec_remove xs i) = vec_remove (map f xs) i"
  by (simp add: vec_remove_def take_map drop_map)

lemma distinct_vec_remove:
  assumes "distinct xs"
  shows "distinct (vec_remove xs i)"
proof (cases "i < length xs")
  case True
  then have "distinct (take i xs @ xs ! i # drop (Suc i) xs)" using assms by (simp add: id_take_nth_drop [symmetric])
  then show ?thesis by (simp add: vec_remove_def)
qed (simp add: vec_remove_def assms)

lemma descriptor_None: "descriptor r fd = None \<longleftrightarrow> fd \<notin> de_fd ` set (descriptors r)"
  by (auto simp: descriptor_def find_None_iff)

lemma find_position: "List.find p xs = map_option ((!) xs) (position p xs)"
  by (induction xs) (auto simp: option.map_comp comp_def)

lemma insert_descriptor_exact:
  assumes ok: "resource_ok r" and c: "dref.counted t (mset (held r) + M)"
    and i: "insert_descriptor r fd ident cloexec t = ((r', t'), b)"
  shows "resource_ok r' \<and> dref.counted t' (mset (held r') + M)"
proof (cases b)
  case False
  then have "r' = r" "t' = t" using i
    by (auto simp: insert_descriptor_def split: if_splits prod.splits bool.splits dest: description_acquire_refused)
  with ok c show ?thesis by simp
next
  case True
  with i have new: "rc_descriptor_len r \<noteq> length (rc_descriptors r)" "descriptor r fd = None"
    and a: "description_acquire t ident = (t', True)"
    and r': "r' = r\<lparr>rc_descriptors := (rc_descriptors r)[rc_descriptor_len r := \<lparr>de_fd = fd, de_description_id = ident, de_close_on_exec = cloexec\<rparr>],
                 rc_descriptor_len := rc_descriptor_len r + 1\<rparr>"
    by (auto simp: insert_descriptor_def split: if_splits prod.splits bool.splits)
  from new(1) ok have lt: "rc_descriptor_len r < length (rc_descriptors r)" by (simp add: resource_ok_def)
  have d: "descriptors r' = descriptors r @ [\<lparr>de_fd = fd, de_description_id = ident, de_close_on_exec = cloexec\<rparr>]" "objects r' = objects r"
    using lt by (simp_all add: r' descriptors_def objects_def take_snoc)
  have "resource_ok r'" using ok lt new(2) d by (simp add: resource_ok_def descriptor_None) (simp add: r')
  moreover have "mset (held r') = add_mset ident (mset (held r))" using d by (simp add: held_def)
  ultimately show ?thesis using dref.counted_acquire(1) [OF c a] by simp
qed

lemma insert_object_exact:
  assumes ok: "resource_ok r" and c: "dref.counted t (mset (held r) + M)"
    and i: "resource_insert_object r ident t = ((r', t'), b)"
  shows "resource_ok r' \<and> dref.counted t' (mset (held r') + M)"
proof (cases b)
  case False
  then have "r' = r" "t' = t" using i
    by (auto simp: resource_insert_object_def split: if_splits prod.splits bool.splits dest: description_acquire_refused)
  with ok c show ?thesis by simp
next
  case True
  with i have new: "rc_object_len r \<noteq> length (rc_objects r)" "ident \<notin> set (objects r)"
    and a: "description_acquire t ident = (t', True)"
    and r': "r' = r\<lparr>rc_objects := (rc_objects r)[rc_object_len r := ident], rc_object_len := rc_object_len r + 1\<rparr>"
    by (auto simp: resource_insert_object_def split: if_splits prod.splits bool.splits)
  from new(1) ok have lt: "rc_object_len r < length (rc_objects r)" by (simp add: resource_ok_def)
  have d: "objects r' = objects r @ [ident]" "descriptors r' = descriptors r"
    using lt by (simp_all add: r' descriptors_def objects_def take_snoc)
  have "resource_ok r'" using ok lt new(2) d by (simp add: resource_ok_def) (simp add: r')
  moreover have "mset (held r') = add_mset ident (mset (held r))" using d by (simp add: held_def)
  ultimately show ?thesis using dref.counted_acquire(1) [OF c a] by simp
qed

text \<open>A close that finds the descriptor drops the description exactly when nobody else holds it.\<close>

lemma close_descriptor_exact:
  assumes ok: "resource_ok r" and c: "dref.counted t (mset (held r) + M)"
    and i: "close_descriptor r fd t = ((r', t'), v)"
  shows "resource_ok r' \<and> dref.counted t' (mset (held r') + M)"
    and "descriptor r fd = Some e \<Longrightarrow>
      mset (held r) = add_mset (de_description_id e) (mset (held r')) \<and> (v = None \<longleftrightarrow> de_description_id e \<in># mset (held r') + M)"
proof -
  let ?p = "position (\<lambda>entry. de_fd entry = fd) (descriptors r)"
  have main: "resource_ok r' \<and> dref.counted t' (mset (held r') + M)
     \<and> mset (held r) = add_mset (de_description_id (descriptors r ! index)) (mset (held r'))
     \<and> (v = None \<longleftrightarrow> de_description_id (descriptors r ! index) \<in># mset (held r') + M)"
    if p: "?p = Some index" for index
  proof -
    note q = position_SomeD [OF p]
    then have lt: "index < rc_descriptor_len r" by (simp add: descriptors_def)
    have le: "rc_descriptor_len r \<le> length (rc_descriptors r)" using ok by (simp add: resource_ok_def)
    have nth: "rc_descriptors r ! index = descriptors r ! index" using lt by (simp add: descriptors_def)
    have rel: "description_release t (de_description_id (descriptors r ! index)) = (t', v)"
      and r': "r' = remove_descriptor_index r index"
      using i p nth by (auto simp: close_descriptor_def descriptors_def split: prod.splits)
    note s = take_shift_down [OF lt le]
    have d: "descriptors r' = vec_remove (descriptors r) index" "objects r' = objects r"
      using s by (simp_all add: r' remove_descriptor_index_def descriptors_def objects_def Let_def)
    have "mset (map de_description_id (descriptors r))
        = add_mset (de_description_id (descriptors r ! index)) (mset (map de_description_id (descriptors r')))"
      using q d mset_vec_remove [of index "map de_description_id (descriptors r)"] by (simp add: map_vec_remove)
    then have h: "mset (held r) = add_mset (de_description_id (descriptors r ! index)) (mset (held r'))"
      using d by (simp add: held_def)
    then have c': "dref.counted t (add_mset (de_description_id (descriptors r ! index)) (mset (held r') + M))"
      using c by simp
    have "rc_descriptor_len r' = rc_descriptor_len r - 1" "rc_object_len r' = rc_object_len r"
      "rc_objects r' = rc_objects r" "length (rc_descriptors r') = length (rc_descriptors r)"
      using s(2) by (simp_all add: r' remove_descriptor_index_def Let_def)
    then have "resource_ok r'"
      using ok s(2) d distinct_vec_remove [of "map de_fd (descriptors r)" index] le by (simp add: resource_ok_def map_vec_remove)
    with dref.counted_release [OF c' rel] h show ?thesis by simp
  qed
  show "resource_ok r' \<and> dref.counted t' (mset (held r') + M)"
  proof (cases ?p)
    case None
    then show ?thesis using i ok c by (auto simp: close_descriptor_def descriptors_def)
  qed (use main in blast)
  show "mset (held r) = add_mset (de_description_id e) (mset (held r')) \<and> (v = None \<longleftrightarrow> de_description_id e \<in># mset (held r') + M)"
    if e: "descriptor r fd = Some e"
  proof -
    obtain index where p: "?p = Some index" "e = descriptors r ! index"
      using e by (auto simp: descriptor_def find_position)
    with main show ?thesis by blast
  qed
qed

lemma release_object_exact:
  assumes ok: "resource_ok r" and c: "dref.counted t (mset (held r) + M)"
    and i: "release_object r ident t = ((r', t'), v)"
  shows "resource_ok r' \<and> dref.counted t' (mset (held r') + M)"
proof (cases "position (\<lambda>object. object = ident) (objects r)")
  case None
  then show ?thesis using i ok c by (auto simp: release_object_def objects_def)
next
  case (Some index)
  note q = position_SomeD [OF Some]
  then have lt: "index < rc_object_len r" by (simp add: objects_def)
  have le: "rc_object_len r \<le> length (rc_objects r)" using ok by (simp add: resource_ok_def)
  note s = take_shift_down [OF lt le]
  have rel: "description_release t ident = (t', v)"
    and r': "r' = r\<lparr>rc_objects := (shift_down index (rc_object_len r) (rc_objects r))[rc_object_len r - 1 := 0],
                    rc_object_len := rc_object_len r - 1\<rparr>"
    using i Some by (auto simp: release_object_def objects_def Let_def split: prod.splits)
  have d: "objects r' = vec_remove (objects r) index" "descriptors r' = descriptors r"
    using s by (simp_all add: r' descriptors_def objects_def)
  have h: "mset (held r) = add_mset ident (mset (held r'))"
    using q d mset_vec_remove [of index "objects r"] by (simp add: held_def)
  then have c': "dref.counted t (add_mset ident (mset (held r') + M))" using c by simp
  have "resource_ok r'"
    using ok s(2) d distinct_vec_remove [of "objects r" index] le by (simp add: resource_ok_def) (simp add: r')
  with dref.counted_release(1) [OF c' rel] show ?thesis by simp
qed

subsection \<open>Reservation and rollback of a clone\<close>

lemma rollback_release_collects:
  assumes "release_all description_release ids t = (u, ws)" "length vs + length ws \<le> N"
  shows "rollback_release ids (t, compact N vs, length vs) = (u, compact N (vs @ ws), length (vs @ ws))"
  using assms
proof (induction ids arbitrary: t u ws vs)
  case (Cons k ids)
  obtain t1 v where r: "description_release t k = (t1, v)" by fastforce
  obtain w xs where a: "release_all description_release ids t1 = (w, xs)" by fastforce
  show ?case
  proof (cases v)
    case None
    with Cons.prems r a have "u = w" "ws = xs" by simp_all
    with Cons.IH [OF a] Cons.prems(2) r None show ?thesis by simp
  next
    case (Some h)
    with Cons.prems r a have ws: "u = w" "ws = h # xs" by simp_all
    with Cons.prems(2) have lt: "length vs < N" by simp
    have "rollback_release ids (t1, compact N (vs @ [h]), length (vs @ [h])) = (w, compact N ((vs @ [h]) @ xs), length ((vs @ [h]) @ xs))"
      using Cons.prems(2) ws by (intro Cons.IH [OF a]) simp
    with r Some lt ws show ?thesis by (simp add: compact_snoc length_compact)
  qed
qed simp

lemma release_all_append:
  "release_all release (ks @ ls) t =
     (case release_all release ks t of (t, vs) \<Rightarrow> (case release_all release ls t of (t, ws) \<Rightarrow> (t, vs @ ws)))"
  by (induction ks arbitrary: t) (auto split: prod.splits option.splits)

lemma dom_description_refs: "dom (description_refs t) = od_id ` set (flatten (dt_descriptions t))"
  by (auto simp: description_refs_def description_get_def find_None_iff dom_def image_iff)

lemma card_description_refs:
  "finite (dom (description_refs t))" "card (dom (description_refs t)) \<le> length (dt_descriptions t)"
proof -
  show "finite (dom (description_refs t))" by (simp add: dom_description_refs)
  have "card (od_id ` set (flatten (dt_descriptions t))) \<le> length (flatten (dt_descriptions t))"
    by (meson List.finite_set card_image_le card_length le_trans)
  then show "card (dom (description_refs t)) \<le> length (dt_descriptions t)"
    using length_flatten_le [of "dt_descriptions t"] by (simp add: dom_description_refs)
qed

lemma clone_rollback_releases:
  assumes c: "dref.counted t (mset (clone_held c) + M)" and a: "release_all description_release (clone_held c) t = (u, vs)"
  shows "clone_rollback c t = (u, compact (length (dt_descriptions t)) vs)"
proof -
  let ?N = "length (dt_descriptions t)"
  obtain w xs where d: "release_all description_release (map de_description_id (clone_descriptors c)) t = (w, xs)" by fastforce
  obtain u' ys where o: "release_all description_release (clone_objects c) w = (u', ys)" by fastforce
  from a d o have u: "u' = u" "vs = xs @ ys" by (simp_all add: clone_held_def release_all_append)
  have len: "length vs \<le> ?N"
    using dref.card_release_all [OF c card_description_refs(1) a] card_description_refs(2) [of t] by linarith
  have "rollback_release (map de_description_id (clone_descriptors c)) (t, compact ?N [], length ([] :: u32 list)) = (w, compact ?N ([] @ xs), length ([] @ xs))"
    using len u by (intro rollback_release_collects [OF d]) simp
  moreover have "rollback_release (clone_objects c) (w, compact ?N xs, length xs) = (u', compact ?N (xs @ ys), length (xs @ ys))"
    using len u by (intro rollback_release_collects [OF o]) simp
  ultimately show ?thesis using u by (simp add: clone_rollback_def)
qed

lemma clone_rollback_exact:
  assumes c: "dref.counted t (mset (clone_held c) + M)" and r: "clone_rollback c t = (u, released)"
  shows "dref.counted u M" "set (clone_held c) \<subseteq> set_mset M \<Longrightarrow> description_shape u = description_shape t"
proof -
  obtain w vs where a: "release_all description_release (clone_held c) t = (w, vs)" by fastforce
  have "u = w" using clone_rollback_releases [OF c a] r by simp
  with dref.counted_release_all [OF c a] dref.release_all_shape [OF c _ a]
  show "dref.counted u M" "set (clone_held c) \<subseteq> set_mset M \<Longrightarrow> description_shape u = description_shape t" by simp_all
qed

lemma reserve_loop_outcome:
  assumes push: "\<And>c e n. room c (Suc n) \<Longrightarrow> room (push c e) n \<and> mset (clone_held (push c e)) = add_mset (key e) (mset (clone_held c))"
    and "room c (length entries)" "dref.counted t (mset (clone_held c) + M)"
    and "set (map key entries) \<union> set (clone_held c) \<subseteq> set_mset M"
    and "reserve_loop key push fails entries c (t, f) = ((u, g), res)"
  shows "description_shape u = description_shape t
    \<and> (case res of None \<Rightarrow> dref.counted u M
        | Some c' \<Rightarrow> c' = foldl push c entries \<and> dref.counted u (mset (clone_held c') + M) \<and> set (clone_held c') \<subseteq> set_mset M)"
  using assms(2-)
proof (induction entries arbitrary: c t f)
  case Nil
  then show ?case by (cases res) simp_all
next
  case (Cons e entries)
  obtain t1 b where a: "description_acquire t (key e) = (t1, b)" by fastforce
  show ?case
  proof (cases b)
    case False
    then have "t1 = t" using a description_acquire_refused by simp
    with False Cons.prems a clone_rollback_exact [OF Cons.prems(2)] show ?thesis
      by (cases "clone_rollback c t") auto
  next
    case True
    obtain f1 stop where f: "fails f = (f1, stop)" by fastforce
    note p = push [of c "length entries" e]
    have r: "room (push c e) (length entries)" and h: "mset (clone_held (push c e)) = add_mset (key e) (mset (clone_held c))"
      using p Cons.prems(1) by simp_all
    have c1: "dref.counted t1 (mset (clone_held (push c e)) + M)" "description_shape t1 = description_shape t"
      using dref.counted_acquire [OF Cons.prems(2)] a True h by simp_all
    have sub: "set (map key entries) \<union> set (clone_held (push c e)) \<subseteq> set_mset M"
      using Cons.prems(3) h mset_eq_setD [of "clone_held (push c e)" "key e # clone_held c"] by simp
    show ?thesis
    proof (cases stop)
      case True
      with \<open>b\<close> Cons.prems(4) a f clone_rollback_exact [OF c1(1)] sub c1(2) show ?thesis
        by (cases "clone_rollback (push c e) t1") auto
    next
      case False
      with \<open>b\<close> Cons.prems(4) a f have "reserve_loop key push fails entries (push c e) (t1, f1) = ((u, g), res)" by simp
      from Cons.IH [OF r c1(1) sub this] c1(2) show ?thesis by (cases res) simp_all
    qed
  qed
qed

definition clone_of :: "LinuxProcessResourceCore \<Rightarrow> LinuxResourceCloneCore \<Rightarrow> bool" where
  "clone_of r c \<longleftrightarrow> clone_descriptors c = descriptors r \<and> clone_objects c = objects r
     \<and> cl_descriptor_len c = rc_descriptor_len r \<and> cl_object_len c = rc_object_len r
     \<and> length (cl_descriptors c) = length (rc_descriptors r) \<and> length (cl_objects c) = length (rc_objects r)"

definition descriptor_room :: "LinuxResourceCloneCore \<Rightarrow> nat \<Rightarrow> bool" where
  "descriptor_room c n \<longleftrightarrow> cl_descriptor_len c + n \<le> length (cl_descriptors c)"

definition object_room :: "LinuxResourceCloneCore \<Rightarrow> nat \<Rightarrow> bool" where
  "object_room c n \<longleftrightarrow> cl_object_len c + n \<le> length (cl_objects c)"

lemma push_descriptor_room:
  "descriptor_room c (Suc n) \<Longrightarrow> descriptor_room (clone_push_descriptor c e) n
     \<and> mset (clone_held (clone_push_descriptor c e)) = add_mset (de_description_id e) (mset (clone_held c))"
  by (simp add: descriptor_room_def clone_push_descriptor_def clone_held_def clone_descriptors_def clone_objects_def take_snoc)

lemma push_object_room:
  "object_room c (Suc n) \<Longrightarrow> object_room (clone_push_object c e) n
     \<and> mset (clone_held (clone_push_object c e)) = add_mset e (mset (clone_held c))"
  by (simp add: object_room_def clone_push_object_def clone_held_def clone_descriptors_def clone_objects_def take_snoc)

lemma foldl_push_descriptor:
  "descriptor_room c (length es) \<Longrightarrow>
     clone_descriptors (foldl clone_push_descriptor c es) = clone_descriptors c @ es
     \<and> cl_descriptor_len (foldl clone_push_descriptor c es) = cl_descriptor_len c + length es
     \<and> length (cl_descriptors (foldl clone_push_descriptor c es)) = length (cl_descriptors c)
     \<and> cl_objects (foldl clone_push_descriptor c es) = cl_objects c
     \<and> cl_object_len (foldl clone_push_descriptor c es) = cl_object_len c"
proof (induction es arbitrary: c)
  case (Cons e es)
  have "clone_descriptors (clone_push_descriptor c e) = clone_descriptors c @ [e]"
    using Cons.prems by (simp add: descriptor_room_def clone_push_descriptor_def clone_descriptors_def take_snoc)
  with Cons.IH [of "clone_push_descriptor c e"] push_descriptor_room [of c "length es" e] Cons.prems show ?case
    by (simp add: clone_push_descriptor_def)
qed simp

lemma foldl_push_object:
  "object_room c (length es) \<Longrightarrow>
     clone_objects (foldl clone_push_object c es) = clone_objects c @ es
     \<and> cl_object_len (foldl clone_push_object c es) = cl_object_len c + length es
     \<and> length (cl_objects (foldl clone_push_object c es)) = length (cl_objects c)
     \<and> cl_descriptors (foldl clone_push_object c es) = cl_descriptors c
     \<and> cl_descriptor_len (foldl clone_push_object c es) = cl_descriptor_len c"
proof (induction es arbitrary: c)
  case (Cons e es)
  have "clone_objects (clone_push_object c e) = clone_objects c @ [e]"
    using Cons.prems by (simp add: object_room_def clone_push_object_def clone_objects_def take_snoc)
  with Cons.IH [of "clone_push_object c e"] push_object_room [of c "length es" e] Cons.prems show ?case
    by (simp add: clone_push_object_def)
qed simp

lemma reserve_outcome:
  assumes ok: "resource_ok r" and c: "dref.counted t (mset (held r) + M)"
    and x: "reserve_with_failure r fails (t, f) = ((u, g), res)"
  shows "case res of None \<Rightarrow> u = t
    | Some clone \<Rightarrow> clone_of r clone \<and> dref.counted u (mset (clone_held clone) + (mset (held r) + M))
        \<and> description_shape u = description_shape t"
proof -
  let ?M = "mset (held r) + M"
  let ?c0 = "\<lparr>cl_descriptors = replicate (length (rc_descriptors r)) EMPTY_DESCRIPTOR, cl_descriptor_len = 0,
              cl_objects = replicate (length (rc_objects r)) 0, cl_object_len = 0\<rparr>"
  have h0: "clone_held ?c0 = []" by (simp add: clone_held_def clone_descriptors_def clone_objects_def)
  have room: "descriptor_room ?c0 (length (descriptors r))" using ok by (simp add: descriptor_room_def resource_ok_def descriptors_def)
  obtain t1 f1 mid where d: "reserve_loop de_description_id clone_push_descriptor fails (descriptors r) ?c0 (t, f) = ((t1, f1), mid)"
    by (metis prod.collapse)
  have s1: "description_shape t1 = description_shape t
    \<and> (case mid of None \<Rightarrow> dref.counted t1 ?M
        | Some c' \<Rightarrow> c' = foldl clone_push_descriptor ?c0 (descriptors r) \<and> dref.counted t1 (mset (clone_held c') + ?M)
            \<and> set (clone_held c') \<subseteq> set_mset ?M)"
    using c h0 by (intro reserve_loop_outcome [where room = descriptor_room, OF push_descriptor_room room _ _ d]) (auto simp: held_def)
  show ?thesis
  proof (cases mid)
    case None
    with x d s1 dref.counted_eqI [of u ?M t] c show ?thesis by (auto simp: reserve_with_failure_def)
  next
    case (Some c1)
    note f1 = foldl_push_descriptor [OF room]
    have c1: "c1 = foldl clone_push_descriptor ?c0 (descriptors r)" using s1 Some by simp
    have o: "reserve_loop (\<lambda>object. object) clone_push_object fails (objects r) c1 (t1, f1) = ((u, g), res)"
      using x d Some by (simp add: reserve_with_failure_def)
    have room2: "object_room c1 (length (objects r))"
      using ok f1 by (simp add: c1 object_room_def resource_ok_def objects_def)
    have s2: "description_shape u = description_shape t1
      \<and> (case res of None \<Rightarrow> dref.counted u ?M
          | Some c' \<Rightarrow> c' = foldl clone_push_object c1 (objects r) \<and> dref.counted u (mset (clone_held c') + ?M)
              \<and> set (clone_held c') \<subseteq> set_mset ?M)"
      using s1 Some by (intro reserve_loop_outcome [where room = object_room, OF push_object_room room2 _ _ o]) (auto simp: held_def)
    show ?thesis
    proof (cases res)
      case None
      with s1 s2 dref.counted_eqI [of u ?M t] c show ?thesis by simp
    next
      case (Some c2)
      note f2 = foldl_push_object [OF room2]
      have c2: "c2 = foldl clone_push_object c1 (objects r)" using s2 Some by simp
      have "clone_descriptors c2 = clone_descriptors c1" using f2 by (simp add: c2 clone_descriptors_def)
      moreover have "clone_objects c1 = []" using f1 by (simp add: c1 clone_objects_def)
      moreover have "clone_descriptors c1 = descriptors r" using f1 h0 by (simp add: c1 clone_held_def)
      moreover have "length (descriptors r) = rc_descriptor_len r" "length (objects r) = rc_object_len r"
        using ok by (simp_all add: resource_ok_def descriptors_def objects_def)
      ultimately have "clone_of r c2" using f1 f2 by (simp add: clone_of_def c2 c1)
      with Some conjunct1 [OF s1] s2 show ?thesis by auto
    qed
  qed
qed

lemma clone_held_of: "clone_of r c \<Longrightarrow> clone_held c = held r"
  by (simp add: clone_of_def clone_held_def held_def)

subsection \<open>A system of processes that share the table\<close>

lemma description_insert_exact:
  assumes c: "dref.counted t M" and i: "description_insert t h ty fl off = (u, res)"
  shows "dref.counted u M"
proof (cases "position (\<lambda>slot. slot = None) (dt_descriptions t)")
  case None
  then show ?thesis using i c by (simp add: description_insert_def)
next
  case (Some slot)
  show ?thesis
  proof (cases "dt_next_id t = 0")
    case True
    then show ?thesis using i c Some by (simp add: description_insert_def)
  next
    case False
    let ?id = "dt_next_id t"
    let ?d = "\<lparr>od_id = ?id, od_handle = h, od_object_type = ty, od_status_flags = fl, od_offset = off, od_references = 0\<rparr>"
    let ?ds = "dt_descriptions t"
    have u: "u = \<lparr>dt_descriptions = ?ds[slot := Some ?d],
        dt_next_id = (case checked_add ?id 1 of Some following \<Rightarrow> following | None \<Rightarrow> 0)\<rparr>"
      using i Some False by (simp add: description_insert_def Let_def)
    have ok: "description_ok t" using c by (simp add: dref.counted_def)
    have s: "slot < length ?ds" "?ds ! slot = None" using dtab.free_SomeD [OF Some] by simp_all
    have below: "od_id d < ?id" if "d \<in> set (flatten ?ds)" for d using ok False that by (auto simp: description_ok_def)
    then have fresh: "description_index ?ds ?id = None"
      unfolding description_index_def position_slot_is_None by fastforce
    have dl: "distinct_live (\<lambda>slot. slot \<noteq> None) (\<lambda>slot. od_id (the slot)) ?ds" using ok by (simp add: description_ok_def)
    have dl': "distinct_live (\<lambda>slot. slot \<noteq> None) (\<lambda>slot. od_id (the slot)) (?ds[slot := Some ?d])"
      using dtab.index_fill(2) [OF dl s(1) _ _, of "Some ?d"] s(2) fresh by simp
    have "description_get u = (description_get t)(?id \<mapsto> ?d)"
      using dtab.lookup_fill [OF dl s(1) _ _, of "Some ?d"] s(2) fresh by (auto simp: description_get_lookup u)
    then have refs: "description_refs u = (description_refs t)(?id \<mapsto> 0)" by (auto simp: description_refs_def)
    have nxt: "od_id d < dt_next_id u" if "d \<in> set (flatten (?ds[slot := Some ?d]))" "dt_next_id u \<noteq> 0" for d
    proof -
      have "?id < dt_next_id u" using that(2) by (auto simp: u dest: checked_add_one_gt split: option.splits)
      moreover have "d = ?d \<or> d \<in> set (flatten ?ds)" using flatten_replace_cases [OF s(1) that(1)] .
      ultimately show ?thesis using below [of d] by auto
    qed
    have "description_ok u" using dl' nxt by (auto simp: description_ok_def u)
    moreover have "description_refs t ?id = None" using fresh by (simp add: description_refs_def description_get_index)
    then have "?id \<notin># M" using dref.countedD(3) [OF c, of ?id] by auto
    ultimately show ?thesis using c refs by (auto simp: dref.counted_def not_in_iff)
  qed
qed

lemma set_offset_exact:
  assumes c: "dref.counted t M" and i: "description_set_offset t ident off = (u, b)"
  shows "dref.counted u M"
proof (cases "description_index (dt_descriptions t) ident")
  case None
  then show ?thesis using i c by (simp add: description_set_offset_def)
next
  case (Some slot)
  obtain d where d: "slot < length (dt_descriptions t)" "dt_descriptions t ! slot = Some d" "od_id d = ident"
    using Some by (rule index_slot)
  have u: "u = put_description t slot (Some (d\<lparr>od_offset := off\<rparr>))" using i Some d by (simp add: description_set_offset_def)
  have ok: "description_ok t" using c by (simp add: dref.counted_def)
  note p = description_replace [OF Some ok, of "d\<lparr>od_offset := off\<rparr>"]
  have "description_get t ident = Some d" using Some d by (simp add: description_get_index)
  then have "description_refs u = description_refs t" using p(1) d(3) by (auto simp: u description_refs_def)
  with p(2) d(3) c show ?thesis by (simp add: dref.counted_def u)
qed

record resource_system =
  rs_table :: LinuxOpenDescriptionTableCore
  rs_processes :: "LinuxProcessResourceCore list"
  rs_clones :: "LinuxResourceCloneCore list"
  rs_lost :: "LinuxResourceCloneCore list"
  rs_direct :: "u32 list"

definition resource_start :: "nat \<Rightarrow> resource_system" where
  "resource_start N = \<lparr>rs_table = description_table_new N, rs_processes = [], rs_clones = [], rs_lost = [], rs_direct = []\<rparr>"

definition all_held :: "resource_system \<Rightarrow> u32 list" where
  "all_held s = concat (map held (rs_processes s)) @ concat (map clone_held (rs_clones s)) @ concat (map clone_held (rs_lost s))
     @ rs_direct s"

text \<open>
  One call by one process.  A fork first reserves a clone, which later is committed to a child or
  rolled back; calls of other processes may come in between.  \<open>commit\<close> consumes the clone also when it
  refuses, because the child already has descriptors or objects: nobody can give its references back
  any more, and it is recorded in \<open>rs_lost\<close>.  \<open>rs_direct\<close> are the references taken by calling \<open>acquire\<close>
  on the table itself and not given back yet.
\<close>

inductive resource_step :: "resource_system \<Rightarrow> resource_system \<Rightarrow> bool" where
  step_insert: "description_insert (rs_table s) h ty fl off = (t, res) \<Longrightarrow> resource_step s (s\<lparr>rs_table := t\<rparr>)"
| step_set_offset: "description_set_offset (rs_table s) ident off = (t, b) \<Longrightarrow> resource_step s (s\<lparr>rs_table := t\<rparr>)"
| step_acquire: "description_acquire (rs_table s) ident = (t, b) \<Longrightarrow>
    resource_step s (s\<lparr>rs_table := t, rs_direct := (if b then [ident] else []) @ rs_direct s\<rparr>)"
| step_give_back: "ident \<in> set (rs_direct s) \<Longrightarrow> description_release (rs_table s) ident = (t, v) \<Longrightarrow>
    resource_step s (s\<lparr>rs_table := t, rs_direct := remove1 ident (rs_direct s)\<rparr>)"
| step_spawn: "resource_step s (s\<lparr>rs_processes := rs_processes s @ [resources_new D O']\<rparr>)"
| step_descriptor: "p < length (rs_processes s) \<Longrightarrow>
    insert_descriptor (rs_processes s ! p) fd ident cloexec (rs_table s) = ((r, t), b) \<Longrightarrow>
    resource_step s (s\<lparr>rs_table := t, rs_processes := (rs_processes s)[p := r]\<rparr>)"
| step_object: "p < length (rs_processes s) \<Longrightarrow>
    resource_insert_object (rs_processes s ! p) ident (rs_table s) = ((r, t), b) \<Longrightarrow>
    resource_step s (s\<lparr>rs_table := t, rs_processes := (rs_processes s)[p := r]\<rparr>)"
| step_close: "p < length (rs_processes s) \<Longrightarrow>
    close_descriptor (rs_processes s ! p) fd (rs_table s) = ((r, t), v) \<Longrightarrow>
    resource_step s (s\<lparr>rs_table := t, rs_processes := (rs_processes s)[p := r]\<rparr>)"
| step_release: "p < length (rs_processes s) \<Longrightarrow>
    release_object (rs_processes s ! p) ident (rs_table s) = ((r, t), v) \<Longrightarrow>
    resource_step s (s\<lparr>rs_table := t, rs_processes := (rs_processes s)[p := r]\<rparr>)"
| step_reserve: "p < length (rs_processes s) \<Longrightarrow>
    reserve_with_failure (rs_processes s ! p) fails (rs_table s, f :: nat) = ((t, g), res) \<Longrightarrow>
    resource_step s (s\<lparr>rs_table := t, rs_clones := rs_clones s @ (case res of None \<Rightarrow> [] | Some c \<Rightarrow> [c])\<rparr>)"
| step_commit: "p < length (rs_processes s) \<Longrightarrow> q < length (rs_clones s) \<Longrightarrow>
    clone_commit (rs_clones s ! q) (rs_processes s ! p) = (r, b) \<Longrightarrow>
    resource_step s (s\<lparr>rs_processes := (rs_processes s)[p := r], rs_clones := vec_remove (rs_clones s) q,
      rs_lost := rs_lost s @ (if b then [] else [rs_clones s ! q])\<rparr>)"
| step_rollback: "q < length (rs_clones s) \<Longrightarrow>
    clone_rollback (rs_clones s ! q) (rs_table s) = (t, released) \<Longrightarrow>
    resource_step s (s\<lparr>rs_table := t, rs_clones := vec_remove (rs_clones s) q\<rparr>)"

definition clone_ok :: "LinuxResourceCloneCore \<Rightarrow> bool" where
  "clone_ok c \<longleftrightarrow> (\<exists>r. resource_ok r \<and> clone_of r c)"

definition system_ok :: "resource_system \<Rightarrow> bool" where
  "system_ok s \<longleftrightarrow> dref.counted (rs_table s) (mset (all_held s)) \<and> list_all resource_ok (rs_processes s)
     \<and> list_all clone_ok (rs_clones s)"

lemma mset_concat_nth:
  assumes "p < length xs"
  shows "mset (concat (map f xs)) = mset (f (xs ! p)) + mset (concat (map f (vec_remove xs p)))"
    and "mset (concat (map f (xs[p := x]))) = mset (f x) + mset (concat (map f (vec_remove xs p)))"
proof -
  have "mset (concat (map f xs)) = mset (concat (map f (take p xs @ xs ! p # drop (Suc p) xs)))"
    using assms by (simp add: id_take_nth_drop [symmetric])
  then show "mset (concat (map f xs)) = mset (f (xs ! p)) + mset (concat (map f (vec_remove xs p)))"
    by (simp add: vec_remove_def)
  show "mset (concat (map f (xs[p := x]))) = mset (f x) + mset (concat (map f (vec_remove xs p)))"
    using assms by (simp add: vec_remove_def upd_conv_take_nth_drop)
qed

lemma list_all_vec_remove: "list_all P xs \<Longrightarrow> list_all P (vec_remove xs i)"
  using set_vec_remove [of xs i] by (auto simp: list_all_iff)

text \<open>A call that one process makes leaves the holdings of the others alone.\<close>

lemma system_ok_process:
  assumes ok: "system_ok s" and p: "p < length (rs_processes s)"
    and call: "\<And>M. resource_ok (rs_processes s ! p) \<Longrightarrow> dref.counted (rs_table s) (mset (held (rs_processes s ! p)) + M)
      \<Longrightarrow> resource_ok r \<and> dref.counted t (mset (held r) + M)"
  shows "system_ok (s\<lparr>rs_table := t, rs_processes := (rs_processes s)[p := r]\<rparr>)"
proof -
  let ?M = "mset (concat (map held (vec_remove (rs_processes s) p))) + mset (concat (map clone_held (rs_clones s))) + mset (concat (map clone_held (rs_lost s))) + mset (rs_direct s)"
  have "dref.counted (rs_table s) (mset (held (rs_processes s ! p)) + ?M)"
    using ok mset_concat_nth(1) [OF p, of held] by (simp add: system_ok_def all_held_def ac_simps)
  moreover have "resource_ok (rs_processes s ! p)" using ok p by (simp add: system_ok_def list_all_length)
  ultimately have "resource_ok r" "dref.counted t (mset (held r) + ?M)" using call by blast+
  then show ?thesis using ok mset_concat_nth(2) [OF p, of held r]
    by (simp add: system_ok_def all_held_def list_all_update ac_simps)
qed

lemma system_ok_start: "system_ok (resource_start N)"
proof -
  have ok: "description_ok (description_table_new N)"
    by (auto simp: description_ok_def description_table_new_def intro!: distinct_live_none)
  have "description_refs (description_table_new N) k = None" for k
    by (simp add: description_refs_def description_get_def description_table_new_def)
  with ok show ?thesis by (simp add: system_ok_def resource_start_def all_held_def dref.counted_def)
qed

lemma commit_exact:
  assumes "clone_ok c" "clone_commit c child = (r, True)"
  shows "resource_ok r" "held r = clone_held c" "held child = []"
proof -
  obtain p where "resource_ok p" "clone_of p c" using assms(1) by (auto simp: clone_ok_def)
  moreover have "r = \<lparr>rc_descriptors = cl_descriptors c, rc_descriptor_len = cl_descriptor_len c,
      rc_objects = cl_objects c, rc_object_len = cl_object_len c\<rparr>" "rc_descriptor_len child = 0" "rc_object_len child = 0"
    using assms(2) by (auto simp: clone_commit_def split: if_splits)
  moreover from this(1) have "descriptors r = clone_descriptors c" "objects r = clone_objects c"
    by (simp_all add: descriptors_def objects_def clone_descriptors_def clone_objects_def)
  ultimately show "resource_ok r" "held r = clone_held c" "held child = []"
    by (simp_all add: resource_ok_def clone_of_def held_def clone_held_def) (simp_all add: descriptors_def objects_def)
qed

lemma system_ok_step:
  assumes "resource_step s s'" "system_ok s"
  shows "system_ok s'"
  using assms
proof (induction rule: resource_step.induct)
  case (step_insert s h ty fl off t res)
  then show ?case by (auto simp: system_ok_def all_held_def dest: description_insert_exact)
next
  case (step_set_offset s ident off t b)
  then show ?case by (auto simp: system_ok_def all_held_def dest: set_offset_exact)
next
  case (step_acquire s ident t b)
  have c: "dref.counted (rs_table s) (mset (all_held s))" using step_acquire(2) by (simp add: system_ok_def)
  have "t = rs_table s" if "\<not> b" using dref.acquire_refused [OF dref.countedD(1) [OF c], of ident t] step_acquire(1) that by simp
  moreover have "dref.counted t (add_mset ident (mset (all_held s)))" if b
    using dref.counted_acquire(1) [OF c, of ident t] step_acquire(1) that by simp
  ultimately show ?case using step_acquire(2) by (cases b) (simp_all add: system_ok_def all_held_def)
next
  case (step_give_back ident s t v)
  have "dref.counted (rs_table s) (add_mset ident (mset (all_held (s\<lparr>rs_direct := remove1 ident (rs_direct s)\<rparr>))))"
    using step_give_back(1,3) by (simp add: system_ok_def all_held_def)
  from dref.counted_release(1) [OF this step_give_back(2)] show ?case
    using step_give_back(3) by (simp add: system_ok_def all_held_def)
next
  case (step_spawn s D O')
  then show ?case by (simp add: system_ok_def all_held_def)
next
  case (step_descriptor p s fd ident cloexec r t b)
  then show ?case by (intro system_ok_process) (auto dest: insert_descriptor_exact)
next
  case (step_object p s ident r t b)
  then show ?case by (intro system_ok_process) (auto dest: insert_object_exact)
next
  case (step_close p s fd r t v)
  then show ?case by (intro system_ok_process) (auto dest: close_descriptor_exact(1))
next
  case (step_release p s ident r t v)
  then show ?case by (intro system_ok_process) (auto dest: release_object_exact)
next
  case (step_reserve p s fails f t g res)
  let ?M = "mset (concat (map held (vec_remove (rs_processes s) p))) + mset (concat (map clone_held (rs_clones s))) + mset (concat (map clone_held (rs_lost s))) + mset (rs_direct s)"
  have c: "dref.counted (rs_table s) (mset (held (rs_processes s ! p)) + ?M)"
    using step_reserve mset_concat_nth(1) [OF step_reserve(1), of held] by (simp add: system_ok_def all_held_def ac_simps)
  have ok: "resource_ok (rs_processes s ! p)" using step_reserve by (simp add: system_ok_def list_all_length)
  note out = reserve_outcome [OF ok c step_reserve(2)]
  show ?case
  proof (cases res)
    case None
    with out step_reserve(3) show ?thesis by (simp add: system_ok_def all_held_def)
  next
    case (Some clone)
    with out have o: "clone_of (rs_processes s ! p) clone"
      "dref.counted t (mset (clone_held clone) + (mset (held (rs_processes s ! p)) + ?M))" by simp_all
    from o(1) ok have "clone_ok clone" by (auto simp: clone_ok_def)
    with o(2) Some step_reserve(3) mset_concat_nth(1) [OF step_reserve(1), of held] show ?thesis
      by (simp add: system_ok_def all_held_def ac_simps)
  qed
next
  case (step_commit p s q r b)
  have ok: "clone_ok (rs_clones s ! q)" using step_commit by (simp add: system_ok_def list_all_length)
  note m = mset_concat_nth [OF step_commit(1), of held] mset_concat_nth(1) [OF step_commit(2), of clone_held]
  show ?case
  proof (cases b)
    case True
    then have "clone_commit (rs_clones s ! q) (rs_processes s ! p) = (r, True)" using step_commit(3) by simp
    note c = commit_exact [OF ok this]
    have "mset (concat (map held ((rs_processes s)[p := r]))) + mset (concat (map clone_held (vec_remove (rs_clones s) q)))
        + mset (concat (map clone_held (rs_lost s))) + mset (rs_direct s) = mset (all_held s)"
      using m c(2,3) by (simp add: all_held_def ac_simps)
    with step_commit(4) c(1) True show ?thesis
      by (simp add: system_ok_def all_held_def list_all_update list_all_vec_remove ac_simps)
  next
    case False
    then have r: "r = rs_processes s ! p" using step_commit(3) by (auto simp: clone_commit_def split: if_splits)
    let ?s = "s\<lparr>rs_processes := rs_processes s, rs_clones := vec_remove (rs_clones s) q, rs_lost := rs_lost s @ [rs_clones s ! q]\<rparr>"
    have "mset (all_held ?s) = mset (all_held s)" using m(3) by (simp add: all_held_def ac_simps)
    then have "system_ok ?s" using step_commit(4) by (simp add: system_ok_def list_all_vec_remove)
    then show ?thesis using False r by simp
  qed
next
  case (step_rollback q s t released)
  let ?M = "mset (concat (map held (rs_processes s))) + mset (concat (map clone_held (vec_remove (rs_clones s) q))) + mset (concat (map clone_held (rs_lost s))) + mset (rs_direct s)"
  have "dref.counted (rs_table s) (mset (clone_held (rs_clones s ! q)) + ?M)"
    using step_rollback mset_concat_nth(1) [OF step_rollback(1), of clone_held] by (simp add: system_ok_def all_held_def ac_simps)
  from clone_rollback_exact(1) [OF this step_rollback(2)] step_rollback(3) show ?case
    by (simp add: system_ok_def all_held_def list_all_vec_remove add.assoc)
qed

lemma close_frees_last:
  assumes ok: "system_ok s" and p: "p < length (rs_processes s)" and e: "descriptor (rs_processes s ! p) fd = Some e"
  shows "snd (close_descriptor (rs_processes s ! p) fd (rs_table s)) \<noteq> None
    \<longleftrightarrow> count_list (all_held s) (de_description_id e) = 1"
proof -
  let ?M = "mset (concat (map held (vec_remove (rs_processes s) p))) + mset (concat (map clone_held (rs_clones s))) + mset (concat (map clone_held (rs_lost s))) + mset (rs_direct s)"
  let ?r = "rs_processes s ! p"
  obtain r' t' v where c: "close_descriptor ?r fd (rs_table s) = ((r', t'), v)" by (metis prod.collapse)
  have all: "mset (all_held s) = mset (held ?r) + ?M" using mset_concat_nth(1) [OF p, of held] by (simp add: all_held_def ac_simps)
  then have cnt: "dref.counted (rs_table s) (mset (held ?r) + ?M)" using ok by (simp add: system_ok_def)
  have rok: "resource_ok ?r" using ok p by (simp add: system_ok_def list_all_length)
  note x = close_descriptor_exact(2) [OF rok cnt c e]
  have "count_list (all_held s) (de_description_id e) = Suc (count (mset (held r') + ?M) (de_description_id e))"
    using x all by (simp add: count_mset [symmetric])
  moreover have "v \<noteq> None \<longleftrightarrow> count (mset (held r') + ?M) (de_description_id e) = 0"
    using x by (simp add: not_in_iff [symmetric])
  ultimately show ?thesis using c by simp
qed

subsection \<open>Properties\<close>

text \<open>
  C5: In every run of processes that open, close and clone descriptors, with forks reserved,
  committed (successfully or not) and rolled back in any interleaving, each description counts exactly
  its holders, every held identifier names a description, and a process has each descriptor number
  once.  The holders are the processes, the clones that wait for their commit or rollback, the callers
  that have taken a reference from the table itself, and the clones that a refused commit has consumed:
  the references of these are never given back.  A close therefore frees the handle exactly when it
  takes away the last reference, and never while a clone lost in this way refers to the description.
  The code is that of the host build.
\<close>

theorem description_references_exact:
  assumes "resource_step\<^sup>*\<^sup>* (resource_start N) s"
  shows "references_exact (rs_table s) (all_held s) \<and> list_all resource_ok (rs_processes s)
    \<and> (\<forall>p fd e. p < length (rs_processes s) \<and> descriptor (rs_processes s ! p) fd = Some e \<longrightarrow>
         (snd (close_descriptor (rs_processes s ! p) fd (rs_table s)) \<noteq> None
            \<longleftrightarrow> count_list (all_held s) (de_description_id e) = 1))"
proof -
  have ok: "system_ok s"
    using assms by (induction rule: rtranclp_induct) (auto intro: system_ok_start system_ok_step)
  then show ?thesis using close_frees_last [OF ok] by (simp add: system_ok_def references_exact_counted)
qed

theorem description_references_exact_witness:
  "\<exists>s. resource_step\<^sup>*\<^sup>* (resource_start 2) s \<and> references_exact (rs_table s) (all_held s) \<and> all_held s = [1, 1]
     \<and> snd (close_descriptor (rs_processes s ! 0) 3 (rs_table s)) = None"
proof -
  let ?d = "\<lambda>n. \<lparr>dt_descriptions = [Some \<lparr>od_id = 1, od_handle = 9, od_object_type = LinuxFile, od_status_flags = 0,
      od_offset = 0, od_references = n\<rparr>, None], dt_next_id = 2\<rparr>"
  let ?e = "\<lparr>de_fd = 3, de_description_id = 1, de_close_on_exec = False\<rparr>"
  let ?r = "\<lparr>rc_descriptors = [?e], rc_descriptor_len = 1, rc_objects = [0], rc_object_len = 0\<rparr>"
  let ?c = "\<lparr>cl_descriptors = [?e], cl_descriptor_len = 1, cl_objects = [0], cl_object_len = 0\<rparr>"
  let ?s1 = "(resource_start 2)\<lparr>rs_table := ?d 0\<rparr>"
  let ?s2 = "?s1\<lparr>rs_processes := rs_processes ?s1 @ [resources_new 1 1]\<rparr>"
  let ?s3 = "?s2\<lparr>rs_table := ?d 1, rs_processes := (rs_processes ?s2)[0 := ?r]\<rparr>"
  let ?s4 = "?s3\<lparr>rs_table := ?d 2, rs_clones := rs_clones ?s3 @ (case Some ?c of None \<Rightarrow> [] | Some c \<Rightarrow> [c])\<rparr>"
  have "resource_step (resource_start 2) ?s1" by (rule step_insert [of _ 9 LinuxFile 0 0 _ "Some 1"]) code_simp
  moreover have "resource_step ?s1 ?s2" by (rule step_spawn)
  moreover have "resource_step ?s2 ?s3" by (rule step_descriptor [of _ _ 3 1 False _ _ True]) code_simp+
  moreover have "resource_step ?s3 ?s4"
    by (rule step_reserve [of 0 _ "\<lambda>f. (f, False)" 0 _ 0]) code_simp+
  ultimately have run: "resource_step\<^sup>*\<^sup>* (resource_start 2) ?s4" by (meson converse_rtranclp_into_rtranclp rtranclp.rtrancl_refl)
  have h: "all_held ?s4 = [1, 1]" by code_simp
  have e: "0 < length (rs_processes ?s4) \<and> descriptor (rs_processes ?s4 ! 0) 3 = Some ?e" by code_simp
  note x = description_references_exact [OF run]
  have "snd (close_descriptor (rs_processes ?s4 ! 0) 3 (rs_table ?s4)) = None"
    using conjunct2 [OF conjunct2 [OF x], rule_format, OF e] unfolding h by simp
  with run h conjunct1 [OF x] show ?thesis by blast
qed

text \<open>
  C39: Cloning the resources of a process for a fork is atomic.  When the reservation fails, at any
  point and for any failure injection, the table of descriptions is exactly as before; when it
  succeeds, the clone holds the descriptors and objects of the parent and rolling it back restores
  the table.  The code is that of the host build.
\<close>

theorem resource_clone_atomic:
  assumes "resource_ok r" and "references_exact t (held r @ others)"
  shows "case reserve_with_failure r fails (t, f) of
      ((u, _), None) \<Rightarrow> u = t
    | ((u, _), Some clone) \<Rightarrow>
        clone_descriptors clone = descriptors r \<and> clone_objects clone = objects r
        \<and> references_exact u (clone_held clone @ held r @ others)
        \<and> clone_rollback clone u = (t, replicate (length (dt_descriptions u)) None)"
proof -
  let ?M = "mset (held r) + mset others"
  have c: "dref.counted t ?M" using assms(2) by (simp add: references_exact_counted)
  obtain u g res where x: "reserve_with_failure r fails (t, f) = ((u, g), res)" by (metis prod.collapse)
  note out = reserve_outcome [OF assms(1) c x]
  show ?thesis
  proof (cases res)
    case None
    with out x show ?thesis by simp
  next
    case (Some clone)
    with out have o: "clone_of r clone" "dref.counted u (mset (clone_held clone) + ?M)"
      "description_shape u = description_shape t" by simp_all
    obtain w vs where a: "release_all description_release (clone_held clone) u = (w, vs)" by fastforce
    have sub: "set (clone_held clone) \<subseteq> set_mset ?M" using clone_held_of [OF o(1)] by simp
    have "description_shape w = description_shape u \<and> vs = []" by (rule dref.release_all_shape [OF o(2) sub a])
    moreover have "dref.counted w ?M" by (rule dref.counted_release_all [OF o(2) a])
    ultimately have "w = t" "vs = []" using dref.counted_eqI [OF _ c] o(3) by auto
    then have "clone_rollback clone u = (t, replicate (length (dt_descriptions u)) None)"
      using clone_rollback_releases [OF o(2) a] by simp
    with o(1,2) Some x show ?thesis by (simp add: clone_of_def references_exact_counted)
  qed
qed

theorem resource_clone_atomic_witness:
  "case reserve_with_failure
      \<lparr>rc_descriptors = [\<lparr>de_fd = 3, de_description_id = 1, de_close_on_exec = False\<rparr>], rc_descriptor_len = 1,
       rc_objects = [1], rc_object_len = 1\<rparr> (\<lambda>n. (n + 1, n = 1))
      (\<lparr>dt_descriptions = [Some \<lparr>od_id = 1, od_handle = 9, od_object_type = LinuxFile, od_status_flags = 0,
         od_offset = 0, od_references = 2\<rparr>, None], dt_next_id = 2\<rparr>, 0 :: nat) of
     ((u, n), res) \<Rightarrow>
       u = \<lparr>dt_descriptions = [Some \<lparr>od_id = 1, od_handle = 9, od_object_type = LinuxFile, od_status_flags = 0,
         od_offset = 0, od_references = 2\<rparr>, None], dt_next_id = 2\<rparr> \<and> n = 2 \<and> res = None"
proof -
  let ?r = "\<lparr>rc_descriptors = [\<lparr>de_fd = 3, de_description_id = 1, de_close_on_exec = False\<rparr>], rc_descriptor_len = 1,
       rc_objects = [1], rc_object_len = 1\<rparr>"
  let ?t = "\<lparr>dt_descriptions = [Some \<lparr>od_id = 1, od_handle = 9, od_object_type = LinuxFile, od_status_flags = 0,
         od_offset = 0, od_references = 2\<rparr>, None], dt_next_id = 2\<rparr>"
  have ok: "resource_ok ?r" by code_simp
  have "description_ok ?t" by (simp add: description_ok_def distinct_live_def)
  then have ex: "references_exact ?t (held ?r @ [])"
    by (simp add: references_exact_def held_def descriptors_def objects_def)
  have out: "snd (fst (reserve_with_failure ?r (\<lambda>n. (n + 1, n = 1)) (?t, 0 :: nat))) = 2
     \<and> snd (reserve_with_failure ?r (\<lambda>n. (n + 1, n = 1)) (?t, 0 :: nat)) = None" by code_simp
  show ?thesis using resource_clone_atomic [OF ok ex, of "\<lambda>n. (n + 1, n = 1)" "0 :: nat"] out
    by (auto split: prod.splits)
qed

end
