(* ===== verification/Linux_Memory.thy ===== *)
theory Linux_Memory
  imports Linux_Wait Slot_Table Refcount_Law "HOL-Library.Product_Lexorder"
begin

text \<open>
  The memory of a Linux process: page backings and their protection, the classification of faults,
  shared pages and their merge at a fork, the mappings of a process, and the test that a user range
  is covered by mappings (\<open>linux_process_memory_logic_shared.rs\<close>).

  Part of this file is compiled for the host only (\<open>cfg(not(target_os = "none"))\<close>):
  \<open>linux_clone_page_backing\<close>, \<open>linux_merge_shared_page_records\<close>, \<open>LinuxSharedPageTableCore\<close>,
  \<open>LinuxProcessMemoryCore\<close> with its mappings, and \<open>linux_mapping_range_covered\<close>.  The kernel runs
  \<open>linux_merge_shared_page_records_in_place\<close> without the test that \<open>existing\<close> is sorted, which the
  model has as the host build has it; the two builds agree on sorted tables.
\<close>

subsection \<open>Layout and protection\<close>

definition LINUX_PAGE_SIZE :: usize where "LINUX_PAGE_SIZE = 0x1000"
definition LINUX_USER_BASE :: usize where "LINUX_USER_BASE = 0x10000000"
definition LINUX_USER_LIMIT :: usize where "LINUX_USER_LIMIT = 0x20000000"
definition LINUX_MMAP_BASE :: usize where "LINUX_MMAP_BASE = 0x12000000"
definition LINUX_BRK_BASE :: usize where "LINUX_BRK_BASE = 0x1d000000"
definition LINUX_BRK_LIMIT :: usize where "LINUX_BRK_LIMIT = LINUX_BRK_BASE + 0x100000"
definition LINUX_PROT_READ :: usize where "LINUX_PROT_READ = 1"
definition LINUX_PROT_WRITE :: usize where "LINUX_PROT_WRITE = 2"
definition LINUX_PROT_EXEC :: usize where "LINUX_PROT_EXEC = 4"
definition LINUX_MAP_SHARED :: usize where "LINUX_MAP_SHARED = 1"
definition LINUX_FORK_PRIVATE_OBJECT_ID :: u32 where "LINUX_FORK_PRIVATE_OBJECT_ID = 0x80000000"

definition linux_shared_file_identity_matches :: "u64 \<Rightarrow> u64 \<Rightarrow> bool" where
  "linux_shared_file_identity_matches left right = (left \<noteq> 0 \<and> left = right)"

datatype LinuxMemoryFaultAccess = FaultRead | FaultWrite | FaultExecute

datatype LinuxMemoryFaultSignal = SegvMaperr | SegvAccerr | BusAdrerr

record LinuxMemoryFaultRegion =
  fr_addr :: usize
  fr_len :: usize
  fr_prot :: usize
  fr_file_offset :: "usize option"
  fr_backing_len :: "usize option"

definition linux_effective_mapping_page_prot :: "usize \<Rightarrow> usize option \<Rightarrow> usize option \<Rightarrow> usize \<Rightarrow> usize \<Rightarrow> usize" where
  "linux_effective_mapping_page_prot prot file_offset backing_len page_index page_size =
     (case (file_offset, backing_len) of
        (Some file_offset, Some backing_len) \<Rightarrow>
          (case Option.bind (checked_mul page_index page_size) (checked_add file_offset) of
             None \<Rightarrow> 0
           | Some page_offset \<Rightarrow> if backing_len \<le> page_offset then 0 else prot)
      | _ \<Rightarrow> prot)"

definition region_contains :: "usize \<Rightarrow> LinuxMemoryFaultRegion \<Rightarrow> bool" where
  "region_contains address region =
     (fr_addr region \<le> address
      \<and> (case checked_add (fr_addr region) (fr_len region) of None \<Rightarrow> False | Some e \<Rightarrow> address < e))"

definition linux_memory_fault_signal ::
  "LinuxMemoryFaultRegion list \<Rightarrow> usize \<Rightarrow> LinuxMemoryFaultAccess \<Rightarrow> usize \<Rightarrow> LinuxMemoryFaultSignal" where
  "linux_memory_fault_signal regions address access page_size =
     (case List.find (region_contains address) regions of
        None \<Rightarrow> SegvMaperr
      | Some region \<Rightarrow>
          let permission = (case access of
                              FaultRead \<Rightarrow> LINUX_PROT_READ OR LINUX_PROT_WRITE
                            | FaultWrite \<Rightarrow> LINUX_PROT_WRITE
                            | FaultExecute \<Rightarrow> LINUX_PROT_EXEC)
          in if fr_prot region AND permission = 0 \<or> page_size = 0 then SegvAccerr
             else
               let page_index = (address - fr_addr region) div page_size
               in if linux_effective_mapping_page_prot (fr_prot region) (fr_file_offset region) (fr_backing_len region)
                       page_index page_size = 0
                     \<and> fr_file_offset region \<noteq> None
                  then BusAdrerr
                  else SegvAccerr)"

datatype LinuxAddressSpaceErrorKind =
    AsOutOfMemory | InvalidAddress | InvalidPermissions | AlreadyMapped | NotMapped | PermissionDenied

datatype LinuxCopyAddressErrorClass = CopyFault | CopyOutOfMemory

definition linux_copy_address_error_class :: "LinuxAddressSpaceErrorKind \<Rightarrow> LinuxCopyAddressErrorClass" where
  "linux_copy_address_error_class error =
     (case error of
        AsOutOfMemory \<Rightarrow> CopyOutOfMemory
      | InvalidAddress \<Rightarrow> CopyFault | InvalidPermissions \<Rightarrow> CopyFault | AlreadyMapped \<Rightarrow> CopyFault
      | NotMapped \<Rightarrow> CopyFault | PermissionDenied \<Rightarrow> CopyFault)"

record LinuxProcessAttributesCore =
  pa_namespace_flags :: usize
  pa_setns_count :: usize
  pa_mount_count :: usize
  pa_mount_flags :: usize
  pa_pivot_rooted :: bool
  pa_chrooted :: bool
  pa_no_new_privs :: bool
  pa_seccomp_mode :: usize
  pa_seccomp_filters :: usize
  pa_cap_effective :: u64
  pa_cap_permitted :: u64
  pa_cap_inheritable :: u64
  pa_hostname_set :: bool
  pa_domainname_set :: bool

definition attributes_fork_child :: "LinuxProcessAttributesCore \<Rightarrow> usize \<Rightarrow> LinuxProcessAttributesCore" where
  "attributes_fork_child self namespace_flags = self\<lparr>pa_namespace_flags := pa_namespace_flags self OR namespace_flags\<rparr>"

subsection \<open>Page backings\<close>

definition linux_mmap_backing_is_shared :: "usize \<Rightarrow> bool" where
  "linux_mmap_backing_is_shared flags = (flags AND LINUX_MAP_SHARED \<noteq> 0)"

definition linux_shared_page_index :: "usize \<Rightarrow> usize \<Rightarrow> usize option" where
  "linux_shared_page_index first_page index = checked_add first_page index"

datatype LinuxPageBacking =
    PagePrivate (page_pfn: u64)
  | PageShared (page_object_id: u32) (page_page_index: usize) (page_pfn: u64)

definition page_is_shared :: "LinuxPageBacking \<Rightarrow> bool" where
  "page_is_shared backing = (case backing of PagePrivate _ \<Rightarrow> False | PageShared _ _ _ \<Rightarrow> True)"

definition linux_page_backing_is_cow :: "LinuxPageBacking \<Rightarrow> bool" where
  "linux_page_backing_is_cow backing =
     (case backing of
        PageShared object_id _ _ \<Rightarrow> object_id = LINUX_FORK_PRIVATE_OBJECT_ID
      | PagePrivate _ \<Rightarrow> False)"

definition linux_page_protection_for_backing :: "LinuxPageBacking \<Rightarrow> usize \<Rightarrow> usize" where
  "linux_page_protection_for_backing backing prot =
     (if linux_page_backing_is_cow backing then prot AND NOT LINUX_PROT_WRITE else prot)"

definition linux_clone_page_backing :: "LinuxPageBacking \<Rightarrow> u64 \<Rightarrow> LinuxPageBacking" where
  "linux_clone_page_backing backing private_pfn =
     (case backing of
        PagePrivate _ \<Rightarrow> PagePrivate private_pfn
      | PageShared _ _ _ \<Rightarrow> backing)"

record LinuxSharedAttachmentRecord =
  sa_object_id :: u32
  sa_addr :: usize
  sa_len :: usize

record LinuxSharedMappingRange =
  sm_object_id :: u32
  sm_addr :: usize
  sm_len :: usize

definition linux_shared_attachment_has_mapping :: "LinuxSharedAttachmentRecord \<Rightarrow> LinuxSharedMappingRange list \<Rightarrow> bool" where
  "linux_shared_attachment_has_mapping attachment mappings =
     (case checked_add (sa_addr attachment) (sa_len attachment) of
        None \<Rightarrow> False
      | Some attachment_end \<Rightarrow>
          list_ex (\<lambda>mapping.
             sm_object_id mapping = sa_object_id attachment
             \<and> (case checked_add (sm_addr mapping) (sm_len mapping) of
                  None \<Rightarrow> False
                | Some mapping_end \<Rightarrow> sa_addr attachment < mapping_end \<and> sm_addr mapping < attachment_end)) mappings)"

definition linux_shared_attachment_detached_reference ::
  "LinuxSharedAttachmentRecord \<Rightarrow> LinuxSharedMappingRange list \<Rightarrow> (u32 \<times> usize) option" where
  "linux_shared_attachment_detached_reference attachment mappings =
     (if \<not> linux_shared_attachment_has_mapping attachment mappings
      then Some (sa_object_id attachment, sa_addr attachment) else None)"

definition linux_shared_mremap_supported :: "bool \<Rightarrow> bool" where
  "linux_shared_mremap_supported requires_move = (\<not> requires_move)"

subsection \<open>Shared page records\<close>

record LinuxSharedPageRecord =
  sp_object_id :: u32
  sp_page_index :: usize
  sp_pfn :: u64
  sp_references :: usize
  sp_named :: bool

definition linux_shared_page_record_key :: "LinuxSharedPageRecord \<Rightarrow> u32 \<times> usize" where
  "linux_shared_page_record_key r = (sp_object_id r, sp_page_index r)"

definition records_ordered :: "LinuxSharedPageRecord list \<Rightarrow> bool" where
  "records_ordered records =
     successively (\<lambda>a b. linux_shared_page_record_key a < linux_shared_page_record_key b) records"

text \<open>The merge loop; the lists are the records from the two indices on.\<close>

fun merge_records :: "LinuxSharedPageRecord list \<Rightarrow> LinuxSharedPageRecord list \<Rightarrow> LinuxSharedPageRecord list option" where
  "merge_records (e # existing) (a # additions) =
     (if linux_shared_page_record_key e < linux_shared_page_record_key a
      then map_option ((#) e) (merge_records existing (a # additions))
      else if linux_shared_page_record_key a < linux_shared_page_record_key e
      then map_option ((#) a) (merge_records (e # existing) additions)
      else if sp_pfn e \<noteq> sp_pfn a then None
      else (case checked_add (sp_references e) (sp_references a) of
              None \<Rightarrow> None
            | Some references \<Rightarrow> map_option ((#) (e\<lparr>sp_references := references\<rparr>)) (merge_records existing additions)))"
| "merge_records (e # existing) [] = map_option ((#) e) (merge_records existing [])"
| "merge_records [] (a # additions) = map_option ((#) a) (merge_records [] additions)"
| "merge_records [] [] = Some []"

definition linux_merge_shared_page_records ::
  "bool \<Rightarrow> LinuxSharedPageRecord list \<Rightarrow> LinuxSharedPageRecord list \<Rightarrow> LinuxSharedPageRecord list option" where
  "linux_merge_shared_page_records alloc existing additions =
     (if \<not> records_ordered existing \<or> \<not> records_ordered additions then None
      else if \<not> alloc then None
      else merge_records existing additions)"

text \<open>\<open>slice::binary_search_by_key\<close>: \<open>Inr\<close> the index of a match, \<open>Inl\<close> the place of an insertion.\<close>

function search_loop :: "('a \<Rightarrow> 'k::linorder) \<Rightarrow> 'k \<Rightarrow> 'a list \<Rightarrow> nat \<Rightarrow> nat \<Rightarrow> nat" where
  "search_loop key k xs base sz =
     (if sz \<le> 1 then base
      else
        let half = sz div 2;
            mid = base + half
        in search_loop key k xs (if k < key (xs ! mid) then base else mid) (sz - half))"
  by pat_completeness auto
termination by (relation "measure (\<lambda>(_, _, _, _, sz). sz)") auto

declare search_loop.simps [simp del]

definition binary_search_by_key :: "('a \<Rightarrow> 'k::linorder) \<Rightarrow> 'k \<Rightarrow> 'a list \<Rightarrow> nat + nat" where
  "binary_search_by_key key k xs =
     (if xs = [] then Inl 0
      else
        let base = search_loop key k xs 0 (length xs)
        in if key (xs ! base) = k then Inr base
           else Inl (if key (xs ! base) < k then base + 1 else base))"

definition addition_fits :: "LinuxSharedPageRecord list \<Rightarrow> LinuxSharedPageRecord \<Rightarrow> bool" where
  "addition_fits existing addition =
     (case binary_search_by_key linux_shared_page_record_key (linux_shared_page_record_key addition) existing of
        Inr index \<Rightarrow>
          \<not> (sp_pfn (existing ! index) \<noteq> sp_pfn addition
             \<or> checked_add (sp_references (existing ! index)) (sp_references addition) = None)
      | Inl _ \<Rightarrow> True)"

definition place_addition :: "LinuxSharedPageRecord list \<Rightarrow> LinuxSharedPageRecord \<Rightarrow> LinuxSharedPageRecord list" where
  "place_addition existing addition =
     (case binary_search_by_key linux_shared_page_record_key (linux_shared_page_record_key addition) existing of
        Inr index \<Rightarrow>
          existing[index := (existing ! index)\<lparr>sp_references := sp_references (existing ! index) + sp_references addition\<rparr>]
      | Inl index \<Rightarrow> take index existing @ addition # drop index existing)"

definition linux_merge_shared_page_records_in_place ::
  "bool \<Rightarrow> LinuxSharedPageRecord list \<Rightarrow> LinuxSharedPageRecord list \<Rightarrow> LinuxSharedPageRecord list \<times> unit option" where
  "linux_merge_shared_page_records_in_place alloc existing additions =
     (if \<not> records_ordered existing then (existing, None)
      else if \<not> records_ordered additions then (existing, None)
      else if \<not> list_all (addition_fits existing) additions then (existing, None)
      else if \<not> alloc then (existing, None)
      else (foldl place_addition existing additions, Some ()))"

subsection \<open>The table of shared pages\<close>

record LinuxSharedPageTableCore =
  st_pages :: "LinuxSharedPageRecord option list"

definition shared_pages_new :: "nat \<Rightarrow> LinuxSharedPageTableCore" where
  "shared_pages_new N = \<lparr>st_pages = replicate N None\<rparr>"

definition linux_shared_reference_acquire :: "usize \<Rightarrow> usize option" where
  "linux_shared_reference_acquire references = (if references \<noteq> 0 then checked_add references 1 else None)"

definition linux_shared_reference_release :: "usize \<Rightarrow> usize option" where
  "linux_shared_reference_release references = checked_sub references 1"

definition shared_page_index :: "LinuxSharedPageRecord option list \<Rightarrow> u32 \<times> usize \<Rightarrow> nat option" where
  "shared_page_index pages k = position (slot_is (\<lambda>r. sp_object_id r = fst k \<and> sp_page_index r = snd k)) pages"

definition shared_get_any :: "LinuxSharedPageTableCore \<Rightarrow> u32 \<Rightarrow> usize \<Rightarrow> LinuxSharedPageRecord option" where
  "shared_get_any t object_id page_index =
     List.find (\<lambda>r. sp_object_id r = object_id \<and> sp_page_index r = page_index) (flatten (st_pages t))"

definition shared_get :: "LinuxSharedPageTableCore \<Rightarrow> u32 \<Rightarrow> usize \<Rightarrow> LinuxSharedPageRecord option" where
  "shared_get t object_id page_index =
     (case shared_get_any t object_id page_index of
        None \<Rightarrow> None
      | Some r \<Rightarrow> if sp_named r then Some r else None)"

definition put_page :: "LinuxSharedPageTableCore \<Rightarrow> nat \<Rightarrow> LinuxSharedPageRecord option \<Rightarrow> LinuxSharedPageTableCore" where
  "put_page t slot r = t\<lparr>st_pages := (st_pages t)[slot := r]\<rparr>"

definition shared_insert :: "LinuxSharedPageTableCore \<Rightarrow> u32 \<Rightarrow> usize \<Rightarrow> u64 \<Rightarrow> LinuxSharedPageTableCore \<times> bool" where
  "shared_insert t object_id page_index pfn =
     (if object_id = 0 \<or> pfn = 0 \<or> shared_get_any t object_id page_index \<noteq> None then (t, False)
      else
        (case position (\<lambda>slot. slot = None) (st_pages t) of
           None \<Rightarrow> (t, False)
         | Some slot \<Rightarrow>
             (put_page t slot (Some \<lparr>sp_object_id = object_id, sp_page_index = page_index, sp_pfn = pfn,
                                     sp_references = 1, sp_named = True\<rparr>), True)))"

definition shared_acquire_or_insert ::
  "LinuxSharedPageTableCore \<Rightarrow> u32 \<Rightarrow> usize \<Rightarrow> u64 \<Rightarrow> LinuxSharedPageTableCore \<times> u64 option" where
  "shared_acquire_or_insert t object_id page_index candidate_pfn =
     (case shared_page_index (st_pages t) (object_id, page_index) of
        Some slot \<Rightarrow>
          let r = the (st_pages t ! slot)
          in (case linux_shared_reference_acquire (sp_references r) of
                None \<Rightarrow> (t, None)
              | Some references \<Rightarrow> (put_page t slot (Some (r\<lparr>sp_references := references\<rparr>)), Some (sp_pfn r)))
      | None \<Rightarrow>
          (case shared_insert t object_id page_index candidate_pfn of
             (t, inserted) \<Rightarrow> (t, if inserted then Some candidate_pfn else None)))"

definition shared_acquire :: "LinuxSharedPageTableCore \<Rightarrow> u32 \<Rightarrow> usize \<Rightarrow> LinuxSharedPageTableCore \<times> bool" where
  "shared_acquire t object_id page_index =
     (case shared_page_index (st_pages t) (object_id, page_index) of
        None \<Rightarrow> (t, False)
      | Some slot \<Rightarrow>
          let r = the (st_pages t ! slot)
          in (case linux_shared_reference_acquire (sp_references r) of
                None \<Rightarrow> (t, False)
              | Some references \<Rightarrow> (put_page t slot (Some (r\<lparr>sp_references := references\<rparr>)), True)))"

definition shared_remove_name :: "LinuxSharedPageTableCore \<Rightarrow> u32 \<Rightarrow> LinuxSharedPageTableCore \<times> bool" where
  "shared_remove_name t object_id =
     (let named = (\<lambda>r. sp_object_id r = object_id \<and> sp_named r)
      in (t\<lparr>st_pages := map (map_option (\<lambda>r. if named r then r\<lparr>sp_named := False\<rparr> else r)) (st_pages t)\<rparr>,
          list_ex named (flatten (st_pages t))))"

definition shared_release :: "LinuxSharedPageTableCore \<Rightarrow> u32 \<Rightarrow> usize \<Rightarrow> LinuxSharedPageTableCore \<times> u64 option" where
  "shared_release t object_id page_index =
     (case shared_page_index (st_pages t) (object_id, page_index) of
        None \<Rightarrow> (t, None)
      | Some slot \<Rightarrow>
          let r = the (st_pages t ! slot)
          in (case linux_shared_reference_release (sp_references r) of
                None \<Rightarrow> (t, None)
              | Some references \<Rightarrow>
                  if references \<noteq> 0 then (put_page t slot (Some (r\<lparr>sp_references := references\<rparr>)), None)
                  else (put_page t slot None, Some (sp_pfn r))))"

subsection \<open>The mappings of a process\<close>

record LinuxProcessMappingCore =
  pm_owner_pid :: usize
  pm_addr :: usize
  pm_len :: usize
  pm_prot :: usize
  pm_flags :: usize

record LinuxMappingRange =
  mr_addr :: usize
  mr_len :: usize

record LinuxMappingAccessRange =
  ma_addr :: usize
  ma_len :: usize
  ma_prot :: usize

record LinuxBrkCore =
  brk_start :: usize
  brk_current :: usize
  brk_limit :: usize

record LinuxProcessMemoryCore =
  mem_pid :: usize
  mem_root_paddr :: u64
  mem_initial_stack :: "(usize \<times> usize) option"
  mem_next_addr :: usize
  mem_brk :: LinuxBrkCore
  mem_mappings :: "LinuxProcessMappingCore option list"
  mem_mappings_len :: nat

definition linux_user_page_range_valid :: "usize \<Rightarrow> usize \<Rightarrow> bool" where
  "linux_user_page_range_valid address len =
     (address mod LINUX_PAGE_SIZE = 0 \<and> len \<noteq> 0 \<and> len mod LINUX_PAGE_SIZE = 0 \<and> LINUX_USER_BASE \<le> address
      \<and> (case checked_add address len of None \<Rightarrow> False | Some e \<Rightarrow> e \<le> LINUX_USER_LIMIT))"

definition process_memory_new :: "nat \<Rightarrow> usize \<Rightarrow> u64 \<Rightarrow> LinuxProcessMemoryCore option" where
  "process_memory_new N pid root_paddr =
     (if pid = 0 \<or> root_paddr = 0 \<or> root_paddr mod LINUX_PAGE_SIZE \<noteq> 0 then None
      else Some
        \<lparr>mem_pid = pid, mem_root_paddr = root_paddr, mem_initial_stack = None, mem_next_addr = LINUX_MMAP_BASE,
         mem_brk = \<lparr>brk_start = LINUX_BRK_BASE, brk_current = LINUX_BRK_BASE, brk_limit = LINUX_BRK_LIMIT\<rparr>,
         mem_mappings = replicate N None, mem_mappings_len = 0\<rparr>)"

definition mapping_count :: "LinuxProcessMemoryCore \<Rightarrow> nat" where
  "mapping_count m = mem_mappings_len m"

definition push_mapping :: "LinuxProcessMemoryCore \<Rightarrow> LinuxProcessMappingCore \<Rightarrow> LinuxProcessMemoryCore \<times> bool" where
  "push_mapping m mapping =
     (if pm_owner_pid mapping \<noteq> mem_pid m \<or> length (mem_mappings m) \<le> mem_mappings_len m
         \<or> \<not> linux_user_page_range_valid (pm_addr mapping) (pm_len mapping)
      then (m, False)
      else (m\<lparr>mem_mappings := (mem_mappings m)[mem_mappings_len m := Some mapping],
              mem_mappings_len := mem_mappings_len m + 1\<rparr>, True))"

definition set_initial_stack :: "LinuxProcessMemoryCore \<Rightarrow> usize \<Rightarrow> usize \<Rightarrow> LinuxProcessMemoryCore \<times> bool" where
  "set_initial_stack m address len =
     (if mem_initial_stack m \<noteq> None \<or> \<not> linux_user_page_range_valid address len then (m, False)
      else (m\<lparr>mem_initial_stack := Some (address, len)\<rparr>, True))"

definition set_next_addr :: "LinuxProcessMemoryCore \<Rightarrow> usize \<Rightarrow> LinuxProcessMemoryCore \<times> bool" where
  "set_next_addr m address =
     (if address mod LINUX_PAGE_SIZE \<noteq> 0 \<or> \<not> (LINUX_MMAP_BASE \<le> address \<and> address < LINUX_BRK_BASE) then (m, False)
      else (m\<lparr>mem_next_addr := address\<rparr>, True))"

definition set_brk :: "LinuxProcessMemoryCore \<Rightarrow> usize \<Rightarrow> usize \<Rightarrow> usize \<Rightarrow> LinuxProcessMemoryCore \<times> bool" where
  "set_brk m start current limit =
     (if start mod LINUX_PAGE_SIZE \<noteq> 0 \<or> limit mod LINUX_PAGE_SIZE \<noteq> 0 \<or> start < LINUX_USER_BASE
         \<or> current < start \<or> limit < current \<or> LINUX_USER_LIMIT < limit
      then (m, False)
      else (m\<lparr>mem_brk := \<lparr>brk_start = start, brk_current = current, brk_limit = limit\<rparr>\<rparr>, True))"

definition linux_user_copy_chunk :: "usize \<Rightarrow> usize \<Rightarrow> usize \<Rightarrow> usize option" where
  "linux_user_copy_chunk address remaining page_size =
     (if remaining = 0 \<or> page_size = 0 then None
      else let in_page = address mod page_size in Some (min remaining (page_size - in_page)))"

definition linux_mapping_allows :: "usize \<Rightarrow> bool \<Rightarrow> bool" where
  "linux_mapping_allows prot write =
     (if write then prot AND LINUX_PROT_WRITE \<noteq> 0 else prot AND (LINUX_PROT_READ OR LINUX_PROT_WRITE) \<noteq> 0)"

text \<open>The inner loop: the furthest end of an admitted mapping that starts at or before the cursor.\<close>

fun cover_scan :: "('m \<Rightarrow> bool) \<Rightarrow> ('m \<Rightarrow> usize) \<Rightarrow> ('m \<Rightarrow> usize) \<Rightarrow> usize \<Rightarrow> 'm list \<Rightarrow> usize \<Rightarrow> usize" where
  "cover_scan admits addr len cursor [] covered_until = covered_until"
| "cover_scan admits addr len cursor (mapping # mappings) covered_until =
     (if \<not> admits mapping then cover_scan admits addr len cursor mappings covered_until
      else
        (case checked_add (addr mapping) (len mapping) of
           None \<Rightarrow> cover_scan admits addr len cursor mappings covered_until
         | Some mapping_end \<Rightarrow>
             cover_scan admits addr len cursor mappings
               (if addr mapping \<le> cursor \<and> covered_until < mapping_end then mapping_end else covered_until)))"

lemma cover_scan_ge: "covered_until \<le> cover_scan admits addr len cursor mappings covered_until"
proof (induction mappings arbitrary: covered_until)
  case (Cons m mappings)
  have "covered_until \<le> (if addr m \<le> cursor \<and> covered_until < e then e else covered_until)" for e by auto
  then have "covered_until \<le> cover_scan admits addr len cursor mappings
      (if addr m \<le> cursor \<and> covered_until < e then e else covered_until)" for e
    using Cons.IH order_trans by blast
  then show ?case using Cons.IH by (simp split: option.splits)
qed simp

function cover_loop :: "('m \<Rightarrow> bool) \<Rightarrow> ('m \<Rightarrow> usize) \<Rightarrow> ('m \<Rightarrow> usize) \<Rightarrow> 'm list \<Rightarrow> usize \<Rightarrow> usize \<Rightarrow> bool" where
  "cover_loop admits addr len mappings stop cursor =
     (if cursor < stop
      then
        let covered_until = cover_scan admits addr len cursor mappings cursor
        in if covered_until = cursor then False
           else cover_loop admits addr len mappings stop (min covered_until stop)
      else True)"
  by pat_completeness auto
termination
proof (relation "measure (\<lambda>(_, _, _, _, stop, cursor). unat stop - unat cursor)", goal_cases)
  case (2 admits addr len mappings stop cursor covered_until)
  then have "cursor < covered_until" using cover_scan_ge [of cursor admits addr len cursor mappings] by simp
  with 2(1) show ?case by (auto simp: word_less_nat_alt min_def)
qed simp

declare cover_loop.simps [simp del]

definition linux_mapping_access_range_covered :: "LinuxMappingAccessRange list \<Rightarrow> usize \<Rightarrow> usize \<Rightarrow> bool \<Rightarrow> bool" where
  "linux_mapping_access_range_covered mappings address len write =
     (case checked_add address len of
        None \<Rightarrow> False
      | Some stop \<Rightarrow>
          if len = 0 then False
          else cover_loop (\<lambda>mapping. linux_mapping_allows (ma_prot mapping) write) ma_addr ma_len mappings stop address)"

definition linux_mapping_range_covered :: "LinuxMappingRange list \<Rightarrow> usize \<Rightarrow> usize \<Rightarrow> bool" where
  "linux_mapping_range_covered mappings address len =
     (case checked_add address len of
        None \<Rightarrow> False
      | Some stop \<Rightarrow> if len = 0 then False else cover_loop (\<lambda>_. True) mr_addr mr_len mappings stop address)"

definition linux_process_memory_remove_index :: "usize list \<Rightarrow> usize \<Rightarrow> nat option" where
  "linux_process_memory_remove_index pids pid = position (\<lambda>candidate. candidate = pid) pids"

definition linux_mremap_requires_move :: "usize \<Rightarrow> usize \<Rightarrow> usize \<Rightarrow> usize option \<Rightarrow> bool \<Rightarrow> bool" where
  "linux_mremap_requires_move old_address old_len new_len fixed dont_unmap =
     (dont_unmap \<or> old_len \<noteq> new_len \<or> (case fixed of None \<Rightarrow> False | Some new_address \<Rightarrow> new_address \<noteq> old_address))"

subsection \<open>Coverage of a range\<close>

lemma cover_scan_end:
  "(cover_scan admits addr len cursor mappings c = c
      \<or> (\<exists>m\<in>set mappings. admits m \<and> addr m \<le> cursor \<and> checked_add (addr m) (len m) = Some (cover_scan admits addr len cursor mappings c)))
   \<and> (\<forall>m\<in>set mappings. \<forall>e. admits m \<and> addr m \<le> cursor \<and> checked_add (addr m) (len m) = Some e
        \<longrightarrow> e \<le> cover_scan admits addr len cursor mappings c)"
proof (induction mappings arbitrary: c)
  case (Cons m mappings)
  show ?case
  proof (cases "admits m \<and> addr m \<le> cursor \<and> checked_add (addr m) (len m) \<noteq> None")
    case True
    then obtain e where e: "checked_add (addr m) (len m) = Some e" by blast
    let ?c = "if c < e then e else c"
    have ge: "e \<le> ?c" "c \<le> ?c" by auto
    have step: "cover_scan admits addr len cursor (m # mappings) c = cover_scan admits addr len cursor mappings ?c"
      using True e by auto
    have "e \<le> cover_scan admits addr len cursor mappings ?c"
      using cover_scan_ge [of ?c admits addr len cursor mappings] ge(1) by (rule order_trans [rotated])
    moreover have "?c = c \<or> ?c = e" by simp
    ultimately show ?thesis using Cons.IH [of ?c] True e unfolding step by auto
  next
    case False
    then have "cover_scan admits addr len cursor (m # mappings) c = cover_scan admits addr len cursor mappings c"
      by (auto split: option.splits)
    with False Cons.IH [of c] show ?thesis by auto
  qed
qed simp

definition mapped_byte :: "('m \<Rightarrow> bool) \<Rightarrow> ('m \<Rightarrow> usize) \<Rightarrow> ('m \<Rightarrow> usize) \<Rightarrow> 'm list \<Rightarrow> nat \<Rightarrow> bool" where
  "mapped_byte admits addr len mappings b \<longleftrightarrow>
     (\<exists>m\<in>set mappings. admits m \<and> unat (addr m) \<le> b \<and> b < unat (addr m) + unat (len m)
        \<and> unat (addr m) + unat (len m) < 2 ^ 64)"

lemma mapped_byte_until:
  assumes "unat cursor \<le> b" "b < unat (cover_scan admits addr len cursor mappings cursor)"
  shows "mapped_byte admits addr len mappings b"
proof -
  let ?e = "cover_scan admits addr len cursor mappings cursor"
  have "?e \<noteq> cursor" using assms by auto
  then obtain m where m: "m \<in> set mappings" "admits m" "addr m \<le> cursor" "checked_add (addr m) (len m) = Some ?e"
    using cover_scan_end [of admits addr len cursor mappings cursor] by blast
  have "unat ?e < 2 ^ 64" using unsigned_less [of ?e] by simp
  with m assms show ?thesis
    unfolding mapped_byte_def by (intro bexI [of _ m]) (auto simp: word_le_nat_alt checked_add_Some_iff)
qed

lemma mapped_byte_scan:
  "mapped_byte admits addr len mappings (unat cursor) \<longleftrightarrow> cover_scan admits addr len cursor mappings cursor \<noteq> cursor"
proof
  assume "mapped_byte admits addr len mappings (unat cursor)"
  then obtain m where m: "m \<in> set mappings" "admits m" "unat (addr m) \<le> unat cursor"
    "unat cursor < unat (addr m) + unat (len m)" "unat (addr m) + unat (len m) < 2 ^ 64"
    by (auto simp: mapped_byte_def)
  then obtain e where e: "checked_add (addr m) (len m) = Some e" "unat e = unat (addr m) + unat (len m)"
    by (auto simp: checked_add_def unat_word_ariths)
  then have "cursor < e" using m by (simp add: word_less_nat_alt)
  moreover have "e \<le> cover_scan admits addr len cursor mappings cursor"
    using cover_scan_end [of admits addr len cursor mappings cursor] m e by (auto simp: word_le_nat_alt)
  ultimately show "cover_scan admits addr len cursor mappings cursor \<noteq> cursor" by auto
next
  assume "cover_scan admits addr len cursor mappings cursor \<noteq> cursor"
  then have "cursor < cover_scan admits addr len cursor mappings cursor"
    using cover_scan_ge [of cursor admits addr len cursor mappings] by simp
  then show "mapped_byte admits addr len mappings (unat cursor)"
    by (intro mapped_byte_until) (simp_all add: word_less_nat_alt)
qed

lemma cover_loop_iff:
  "cover_loop admits addr len mappings stop cursor
     \<longleftrightarrow> (\<forall>b. unat cursor \<le> b \<and> b < unat stop \<longrightarrow> mapped_byte admits addr len mappings b)"
proof (induction admits addr len mappings stop cursor rule: cover_loop.induct)
  case (1 admits addr len mappings stop cursor)
  let ?e = "cover_scan admits addr len cursor mappings cursor"
  show ?case
  proof (cases "cursor < stop")
    case False
    then show ?thesis by (subst cover_loop.simps) (auto simp: word_less_nat_alt)
  next
    case True
    show ?thesis
    proof (cases "?e = cursor")
      case stuck: True
      then have "\<not> mapped_byte admits addr len mappings (unat cursor)" by (simp add: mapped_byte_scan)
      moreover have "unat cursor < unat stop" using True by (simp add: word_less_nat_alt)
      ultimately show ?thesis using True stuck by (subst cover_loop.simps) auto
    next
      case False
      note ih = 1 [OF True refl False]
      have rec: "cover_loop admits addr len mappings stop cursor = cover_loop admits addr len mappings stop (min ?e stop)"
        using True False by (subst cover_loop.simps) (simp add: Let_def)
      have um: "unat (min ?e stop) = min (unat ?e) (unat stop)" by (simp add: min_def word_le_nat_alt)
      have le: "unat cursor \<le> unat ?e" "unat cursor < unat stop"
        using cover_scan_ge [of cursor admits addr len cursor mappings] True by (simp_all add: word_le_nat_alt word_less_nat_alt)
      have "mapped_byte admits addr len mappings b"
        if "unat cursor \<le> b" "b < unat stop" "\<forall>b. min (unat ?e) (unat stop) \<le> b \<and> b < unat stop \<longrightarrow> mapped_byte admits addr len mappings b" for b
      proof (cases "b < unat ?e")
        case True
        with that(1) show ?thesis by (rule mapped_byte_until)
      qed (use that in auto)
      then show ?thesis unfolding rec ih um using le by auto
    qed
  qed
qed

subsection \<open>Merging shared page records\<close>

lemma records_ordered_sorted: "records_ordered xs \<longleftrightarrow> sorted_wrt (<) (map linux_shared_page_record_key xs)"
  unfolding records_ordered_def successively_map [symmetric] by (rule successively_conv_sorted_wrt) (rule transpI, rule less_trans)

lemma sorted_map_nth_mono:
  assumes "sorted_wrt (<) (map key xs)" "i \<le> j" "j < length xs"
  shows "key (xs ! i) \<le> (key (xs ! j) :: 'k::linorder)"
proof (cases "i = j")
  case False
  with assms have "map key xs ! i < map key xs ! j" by (intro sorted_wrt_nth_less [OF assms(1)]) auto
  with assms show ?thesis by simp
qed simp

lemma search_loop_invariant:
  assumes "sorted_wrt (<) (map key xs)" "0 < sz" "base + sz \<le> length xs"
    and "\<forall>i. base + sz \<le> i \<and> i < length xs \<longrightarrow> k < key (xs ! i)" and "base = 0 \<or> key (xs ! base) \<le> k"
  shows "search_loop key k xs base sz < length xs
    \<and> (\<forall>i. search_loop key k xs base sz < i \<and> i < length xs \<longrightarrow> k < key (xs ! i))
    \<and> (search_loop key k xs base sz = 0 \<or> key (xs ! search_loop key k xs base sz) \<le> k)"
  using assms
proof (induction key k xs base sz rule: search_loop.induct)
  case (1 key k xs base sz)
  show ?case
  proof (cases "sz \<le> 1")
    case True
    then show ?thesis using 1(3-) by (subst (1 2 3 4) search_loop.simps) auto
  next
    case False
    let ?half = "sz div 2"
    let ?mid = "base + ?half"
    let ?base = "if k < key (xs ! ?mid) then base else ?mid"
    have rec: "search_loop key k xs base sz = search_loop key k xs ?base (sz - ?half)"
      using False by (subst search_loop.simps) (simp add: Let_def)
    have half: "0 < ?half" "?half < sz" using False by auto
    have above: "k < key (xs ! i)" if "k < key (xs ! ?mid)" "?mid \<le> i" "i < length xs" for i
      using sorted_map_nth_mono [OF 1(2) that(2,3)] that(1) by (rule less_le_trans [rotated])
    show ?thesis unfolding rec
    proof (rule 1(1) [OF False refl refl 1(2)])
      show "0 < sz - ?half" using half by simp
      show "?base + (sz - ?half) \<le> length xs" using 1(4) half by auto
      show "\<forall>i. ?base + (sz - ?half) \<le> i \<and> i < length xs \<longrightarrow> k < key (xs ! i)"
      proof (intro allI impI)
        fix i assume i: "?base + (sz - ?half) \<le> i \<and> i < length xs"
        have "sz - ?half \<ge> ?half" by linarith
        with i above 1(5) half show "k < key (xs ! i)" by (cases "k < key (xs ! ?mid)") auto
      qed
      show "?base = 0 \<or> key (xs ! ?base) \<le> k" using 1(6) by auto
    qed
  qed
qed

lemma binary_search_spec:
  assumes s: "sorted_wrt (<) (map key xs)"
  shows "case binary_search_by_key key k xs of
      Inr i \<Rightarrow> i < length xs \<and> key (xs ! i) = k
    | Inl i \<Rightarrow> i \<le> length xs \<and> (\<forall>j<i. key (xs ! j) < k) \<and> (\<forall>j. i \<le> j \<and> j < length xs \<longrightarrow> k < key (xs ! j))"
proof (cases "xs = []")
  case True
  then show ?thesis by (simp add: binary_search_by_key_def)
next
  case False
  let ?b = "search_loop key k xs 0 (length xs)"
  have b: "?b < length xs" "\<And>i. ?b < i \<Longrightarrow> i < length xs \<Longrightarrow> k < key (xs ! i)" "?b = 0 \<or> key (xs ! ?b) \<le> k"
  proof -
    have "\<forall>i. 0 + length xs \<le> i \<and> i < length xs \<longrightarrow> k < key (xs ! i)" by auto
    from search_loop_invariant [OF s _ _ this] False
    show "?b < length xs" "\<And>i. ?b < i \<Longrightarrow> i < length xs \<Longrightarrow> k < key (xs ! i)" "?b = 0 \<or> key (xs ! ?b) \<le> k" by auto
  qed
  have below: "key (xs ! j) < k" if "j < ?b" for j
  proof -
    have "key (xs ! j) < key (xs ! ?b)" using sorted_wrt_nth_less [OF s that] b(1) that by simp
    moreover have "key (xs ! ?b) \<le> k" using b(3) that by auto
    ultimately show ?thesis by (rule less_le_trans)
  qed
  consider "key (xs ! ?b) = k" | "key (xs ! ?b) < k" | "k < key (xs ! ?b)" by fastforce
  then show ?thesis
  proof cases
    case 1
    then show ?thesis using False b(1) by (simp add: binary_search_by_key_def Let_def)
  next
    case 2
    then show ?thesis using False b below by (auto simp: binary_search_by_key_def Let_def less_Suc_eq)
  next
    case 3
    then show ?thesis using False b below by (auto simp: binary_search_by_key_def Let_def le_less)
  qed
qed

text \<open>The linear form of one insertion.\<close>

fun merge_one :: "LinuxSharedPageRecord list \<Rightarrow> LinuxSharedPageRecord \<Rightarrow> LinuxSharedPageRecord list" where
  "merge_one [] a = [a]"
| "merge_one (e # existing) a =
     (if linux_shared_page_record_key e < linux_shared_page_record_key a then e # merge_one existing a
      else if linux_shared_page_record_key a < linux_shared_page_record_key e then a # e # existing
      else e\<lparr>sp_references := sp_references e + sp_references a\<rparr> # existing)"

abbreviation "rkey \<equiv> linux_shared_page_record_key"

lemma merge_one_hit:
  "i < length xs \<Longrightarrow> rkey (xs ! i) = rkey a \<Longrightarrow> sorted_wrt (<) (map rkey xs) \<Longrightarrow>
     merge_one xs a = xs[i := (xs ! i)\<lparr>sp_references := sp_references (xs ! i) + sp_references a\<rparr>]"
proof (induction xs arbitrary: i)
  case (Cons e xs)
  show ?case
  proof (cases i)
    case 0
    with Cons.prems show ?thesis by simp
  next
    case (Suc j)
    with Cons.prems have "rkey e < rkey a" by (auto simp: image_iff) (metis nth_mem)
    with Cons.IH [of j] Cons.prems Suc show ?thesis by simp
  qed
qed simp

lemma merge_one_miss:
  "i \<le> length xs \<Longrightarrow> \<forall>j<i. rkey (xs ! j) < rkey a \<Longrightarrow> \<forall>j. i \<le> j \<and> j < length xs \<longrightarrow> rkey a < rkey (xs ! j) \<Longrightarrow>
     merge_one xs a = take i xs @ a # drop i xs"
proof (induction xs arbitrary: i)
  case (Cons e xs)
  show ?case
  proof (cases i)
    case 0
    then have "rkey a < rkey e" using Cons.prems(3) by (metis le0 length_greater_0_conv list.distinct(1) nth_Cons_0)
    then show ?thesis using 0 by (simp add: less_not_sym)
  next
    case (Suc j)
    then have "rkey e < rkey a" using Cons.prems(2) by force
    moreover have "\<forall>n<j. rkey (xs ! n) < rkey a" using Cons.prems(2) Suc by (metis Suc_less_eq nth_Cons_Suc)
    moreover have "\<forall>n. j \<le> n \<and> n < length xs \<longrightarrow> rkey a < rkey (xs ! n)"
      using Cons.prems(3) Suc by (metis Suc_le_mono Suc_less_eq length_Cons nth_Cons_Suc)
    ultimately show ?thesis using Cons.IH [of j] Cons.prems(1) Suc by simp
  qed
qed simp

lemma place_addition_merge_one:
  assumes "records_ordered xs"
  shows "place_addition xs a = merge_one xs a"
proof -
  have s: "sorted_wrt (<) (map rkey xs)" using assms by (simp add: records_ordered_sorted)
  note b = binary_search_spec [OF s, of "rkey a"]
  show ?thesis
  proof (cases "binary_search_by_key rkey (rkey a) xs")
    case (Inl i)
    with b merge_one_miss [of i xs a] show ?thesis by (simp add: place_addition_def)
  next
    case (Inr i)
    with b merge_one_hit [of i xs a] s show ?thesis by (simp add: place_addition_def)
  qed
qed

lemma records_ordered_Cons: "records_ordered (x # xs) \<longleftrightarrow> (\<forall>y\<in>set xs. rkey x < rkey y) \<and> records_ordered xs"
  by (simp add: records_ordered_sorted)

lemma rkey_references [simp]: "rkey (e\<lparr>sp_references := n\<rparr>) = rkey e"
  by (simp add: linux_shared_page_record_key_def)

lemma merge_one_keys: "rkey ` set (merge_one xs a) \<subseteq> insert (rkey a) (rkey ` set xs)"
  by (induction xs) auto

lemma merge_one_ordered: "records_ordered xs \<Longrightarrow> records_ordered (merge_one xs a)"
proof (induction xs)
  case (Cons e xs)
  show ?case
  proof (cases "rkey e < rkey a")
    case True
    have "rkey e < rkey y" if "y \<in> set (merge_one xs a)" for y
      using merge_one_keys [of xs a] that True Cons.prems by (force simp: records_ordered_Cons)
    with True Cons show ?thesis by (simp add: records_ordered_Cons)
  next
    case False
    then show ?thesis using Cons.prems less_trans by (auto simp: records_ordered_Cons)
  qed
qed (simp add: records_ordered_def)

lemma fold_place: "records_ordered xs \<Longrightarrow> foldl place_addition xs as = foldl merge_one xs as"
  by (induction as arbitrary: xs) (simp_all add: place_addition_merge_one merge_one_ordered)

lemma fold_merge_one_past:
  "\<forall>a\<in>set as. rkey e < rkey a \<Longrightarrow> foldl merge_one (e # xs) as = e # foldl merge_one xs as"
  by (induction as arbitrary: xs) simp_all

lemma addition_fits_iff:
  assumes "records_ordered xs"
  shows "addition_fits xs a \<longleftrightarrow>
    (\<forall>e\<in>set xs. rkey e = rkey a \<longrightarrow> sp_pfn e = sp_pfn a \<and> checked_add (sp_references e) (sp_references a) \<noteq> None)"
proof -
  have s: "sorted_wrt (<) (map rkey xs)" using assms by (simp add: records_ordered_sorted)
  have d: "distinct (map rkey xs)" using s by (simp add: strict_sorted_iff)
  note b = binary_search_spec [OF s, of "rkey a"]
  show ?thesis
  proof (cases "binary_search_by_key rkey (rkey a) xs")
    case (Inl i)
    have "rkey e \<noteq> rkey a" if e: "e \<in> set xs" for e
    proof -
      obtain j where j: "j < length xs" "xs ! j = e" using e by (auto simp: in_set_conv_nth)
      from b Inl have "\<forall>j<i. rkey (xs ! j) < rkey a" "\<forall>j. i \<le> j \<and> j < length xs \<longrightarrow> rkey a < rkey (xs ! j)" by simp_all
      with j show ?thesis by (metis not_le_imp_less less_irrefl)
    qed
    with Inl show ?thesis by (simp add: addition_fits_def)
  next
    case (Inr i)
    then have i: "i < length xs" "rkey (xs ! i) = rkey a" using b by simp_all
    have "e = xs ! i" if "e \<in> set xs" "rkey e = rkey a" for e
      using that i d by (metis distinct_map inj_onD nth_mem)
    with Inr i show ?thesis by (auto simp: addition_fits_def)
  qed
qed

lemma merge_records_additions: "merge_records [] as = Some as"
  by (induction as) simp_all

lemma merge_records_existing: "merge_records es [] = Some es"
  by (induction es) simp_all

text \<open>The merge loop is the insertion of the additions one by one.\<close>

lemma merge_records_fold:
  assumes "records_ordered es" "records_ordered as"
  shows "merge_records es as =
    (if list_all (\<lambda>a. \<forall>e\<in>set es. rkey e = rkey a \<longrightarrow> sp_pfn e = sp_pfn a \<and> checked_add (sp_references e) (sp_references a) \<noteq> None) as
     then Some (foldl merge_one es as) else None)"
  using assms
proof (induction es as rule: merge_records.induct)
  case (1 e es a as)
  have lt: "\<forall>x\<in>set es. rkey e < rkey x" "\<forall>x\<in>set as. rkey a < rkey x" and o: "records_ordered es" "records_ordered as"
    using 1(4,5) by (simp_all add: records_ordered_Cons)
  consider "rkey e < rkey a" | "rkey a < rkey e" | "rkey e = rkey a" by fastforce
  then show ?case
  proof cases
    case 1: 1
    have past: "\<forall>x\<in>set (a # as). rkey e < rkey x" using 1 lt(2) less_trans by auto
    then have "\<forall>x\<in>set (a # as). rkey e \<noteq> rkey x" by fastforce
    with fold_merge_one_past [OF past, of es] "1.IH"(1) [OF 1 o(1) "1.prems"(2)] 1 show ?thesis
      by (simp add: list_all_iff)
  next
    case 2
    have past: "\<forall>x\<in>set as. rkey a < rkey x" by (rule lt(2))
    have fresh: "\<forall>x\<in>set (e # es). rkey x \<noteq> rkey a" using 2 lt(1) by auto
    have ne: "\<not> rkey e < rkey a" using 2 by simp
    from fold_merge_one_past [OF past, of "e # es"] "1.IH"(2) [OF ne 2 "1.prems"(1) o(2)] 2 ne fresh show ?thesis
      by (simp add: list_all_iff)
  next
    case 3
    then have ne: "\<not> rkey e < rkey a" "\<not> rkey a < rkey e" by simp_all
    have fresh: "\<forall>x\<in>set es. rkey x \<noteq> rkey a" "\<forall>x\<in>set as. rkey e \<noteq> rkey x" using 3 lt by auto
    show ?thesis
    proof (cases "sp_pfn e = sp_pfn a")
      case False
      with ne 3 show ?thesis by simp
    next
      case pfn: True
      show ?thesis
      proof (cases "checked_add (sp_references e) (sp_references a)")
        case None
        with ne 3 pfn show ?thesis by simp
      next
        case (Some references)
        then have sum: "references = sp_references e + sp_references a" by (auto simp: checked_add_def split: if_splits)
        have past: "\<forall>x\<in>set as. rkey (e\<lparr>sp_references := references\<rparr>) < rkey x" using 3 lt(2) by simp
        from fold_merge_one_past [OF past, of es] "1.IH"(3) [OF ne _ Some o] ne 3 pfn Some fresh sum show ?thesis
          by (simp add: list_all_iff)
      qed
    qed
  qed
qed (simp_all add: merge_records_additions merge_records_existing fold_merge_one_past records_ordered_Cons list_all_iff)

subsection \<open>The table of shared pages counts references\<close>

abbreviation "page_live \<equiv> (\<lambda>slot :: LinuxSharedPageRecord option. slot \<noteq> None)"
abbreviation "page_key \<equiv> (\<lambda>slot. linux_shared_page_record_key (the slot))"

interpretation stab: slot_table page_live page_key shared_page_index "position (\<lambda>slot. slot = None)"
proof
  show "shared_page_index es k = position (\<lambda>e. e \<noteq> None \<and> linux_shared_page_record_key (the e) = k) es" for es k
    unfolding shared_page_index_def
    by (rule arg_cong [of _ _ "\<lambda>p. position p es"])
      (auto simp: slot_is_def linux_shared_page_record_key_def prod_eq_iff split: option.splits)
  show "position (\<lambda>slot. slot = None) es = position (\<lambda>e. \<not> e \<noteq> None) es" for es :: "LinuxSharedPageRecord option list"
    by simp
qed

text \<open>Pages have distinct keys, a frame and at least one reference.\<close>

definition shared_ok :: "LinuxSharedPageTableCore \<Rightarrow> bool" where
  "shared_ok t \<longleftrightarrow> distinct_live page_live page_key (st_pages t)
     \<and> (\<forall>r\<in>set (flatten (st_pages t)). sp_references r \<noteq> 0 \<and> sp_pfn r \<noteq> 0)"

definition shared_page :: "LinuxSharedPageTableCore \<Rightarrow> u32 \<times> usize \<Rightarrow> LinuxSharedPageRecord option" where
  "shared_page t k = shared_get_any t (fst k) (snd k)"

definition shared_refs :: "LinuxSharedPageTableCore \<Rightarrow> u32 \<times> usize \<Rightarrow> nat option" where
  "shared_refs t k = map_option (\<lambda>r. unat (sp_references r)) (shared_page t k)"

definition shared_shape :: "LinuxSharedPageTableCore \<Rightarrow> LinuxSharedPageRecord option list" where
  "shared_shape t = map (map_option (sp_references_update (\<lambda>_. 0))) (st_pages t)"

lemma shared_page_at:
  "shared_page t k = (case shared_page_index (st_pages t) k of None \<Rightarrow> None | Some i \<Rightarrow> st_pages t ! i)"
  by (simp add: shared_page_def shared_get_any_def shared_page_index_def find_flatten)

lemma page_slot:
  assumes "shared_page_index ps k = Some i"
  obtains r where "i < length ps" "ps ! i = Some r" "linux_shared_page_record_key r = k"
  using stab.index_SomeD [OF assms] by auto

lemma shared_page_lookup: "shared_page t k = (case stab.lookup (st_pages t) k of None \<Rightarrow> None | Some slot \<Rightarrow> slot)"
  by (simp add: shared_page_at stab.lookup_def split: option.splits)

lemma shared_replace:
  assumes i: "shared_page_index (st_pages t) k = Some i" and ok: "shared_ok t"
    and r: "linux_shared_page_record_key r = k" "sp_references r \<noteq> 0" "sp_pfn r \<noteq> 0"
  shows "shared_page (put_page t i (Some r)) = (shared_page t)(k \<mapsto> r)" and "shared_ok (put_page t i (Some r))"
proof -
  obtain e where e: "i < length (st_pages t)" "st_pages t ! i = Some e" "linux_shared_page_record_key e = k"
    using i by (rule page_slot)
  show "shared_page (put_page t i (Some r)) = (shared_page t)(k \<mapsto> r)"
    using stab.lookup_replace [OF i, of "Some r"] r(1) by (auto simp: shared_page_lookup put_page_def)
  have "distinct_live page_live page_key ((st_pages t)[i := Some r])"
    using ok e r(1) by (intro distinct_live_update) (auto simp: shared_ok_def dest: distinct_liveD)
  moreover have "sp_references x \<noteq> 0 \<and> sp_pfn x \<noteq> 0" if x: "x \<in> set (flatten ((st_pages t)[i := Some r]))" for x
    using flatten_replace_cases [OF e(1) x] ok r(2,3) by (auto simp: shared_ok_def)
  ultimately show "shared_ok (put_page t i (Some r))" by (simp add: shared_ok_def put_page_def)
qed

lemma shared_clear:
  assumes i: "shared_page_index (st_pages t) k = Some i" and ok: "shared_ok t"
  shows "shared_page (put_page t i None) = (shared_page t)(k := None)" and "shared_ok (put_page t i None)"
proof -
  obtain e where e: "i < length (st_pages t)" "st_pages t ! i = Some e" "linux_shared_page_record_key e = k"
    using i by (rule page_slot)
  have d: "distinct_live page_live page_key (st_pages t)" using ok by (simp add: shared_ok_def)
  show "shared_page (put_page t i None) = (shared_page t)(k := None)"
    using stab.lookup_clear [OF d i, of None] by (auto simp: shared_page_lookup put_page_def)
  show "shared_ok (put_page t i None)"
    using stab.index_clear(2) [OF d e(1), of None] e ok flatten_clear_subset [of "st_pages t" i]
    by (auto simp: shared_ok_def put_page_def)
qed

lemma shared_shape_replace:
  assumes "i < length (st_pages t)" "st_pages t ! i = Some r"
  shows "shared_shape (put_page t i (Some (r\<lparr>sp_references := n\<rparr>))) = shared_shape t"
  using assms by (simp add: put_page_def shared_shape_def map_update list_update_same_conv)

lemma shared_refs_slot:
  assumes "shared_refs t k = Some n"
  obtains i r where "shared_page_index (st_pages t) k = Some i" "i < length (st_pages t)" "st_pages t ! i = Some r"
    "linux_shared_page_record_key r = k" "unat (sp_references r) = n"
proof -
  obtain i where i: "shared_page_index (st_pages t) k = Some i"
    using assms by (auto simp: shared_refs_def shared_page_at split: option.splits)
  obtain r where "i < length (st_pages t)" "st_pages t ! i = Some r" "linux_shared_page_record_key r = k"
    using i by (rule page_slot)
  with i assms that show thesis by (auto simp: shared_refs_def shared_page_at)
qed

lemma shared_slot_ok: "shared_ok t \<Longrightarrow> i < length (st_pages t) \<Longrightarrow> st_pages t ! i = Some r \<Longrightarrow> sp_references r \<noteq> 0 \<and> sp_pfn r \<noteq> 0"
  by (auto simp: shared_ok_def in_flatten_nth)

text \<open>The common part of \<open>acquire\<close> and \<open>acquire_or_insert\<close>.\<close>

lemma shared_bump:
  assumes ok: "shared_ok t" and i: "shared_page_index (st_pages t) k = Some i" "st_pages t ! i = Some r"
    and n: "linux_shared_reference_acquire (sp_references r) = Some n"
  shows "shared_refs (put_page t i (Some (r\<lparr>sp_references := n\<rparr>))) = (shared_refs t)(k \<mapsto> Suc (unat (sp_references r)))"
    and "shared_refs t k = Some (unat (sp_references r))"
    and "shared_shape (put_page t i (Some (r\<lparr>sp_references := n\<rparr>))) = shared_shape t"
    and "shared_ok (put_page t i (Some (r\<lparr>sp_references := n\<rparr>)))"
proof -
  obtain e where e: "i < length (st_pages t)" "st_pages t ! i = Some e" "linux_shared_page_record_key e = k"
    using i(1) by (rule page_slot)
  with i have r: "linux_shared_page_record_key r = k" by simp
  have u: "unat n = Suc (unat (sp_references r))"
    using n by (auto simp: linux_shared_reference_acquire_def checked_add_Some_iff split: if_splits)
  then have "n \<noteq> 0" by auto
  note p = shared_replace [OF i(1) ok, of "r\<lparr>sp_references := n\<rparr>", simplified r rkey_references]
  show "shared_refs (put_page t i (Some (r\<lparr>sp_references := n\<rparr>))) = (shared_refs t)(k \<mapsto> Suc (unat (sp_references r)))"
    using p(1) u \<open>n \<noteq> 0\<close> shared_slot_ok [OF ok e(1) i(2)] by (auto simp: shared_refs_def)
  show "shared_ok (put_page t i (Some (r\<lparr>sp_references := n\<rparr>)))"
    using p(2) \<open>n \<noteq> 0\<close> shared_slot_ok [OF ok e(1) i(2)] by simp
  show "shared_refs t k = Some (unat (sp_references r))" using i by (simp add: shared_refs_def shared_page_at)
  show "shared_shape (put_page t i (Some (r\<lparr>sp_references := n\<rparr>))) = shared_shape t"
    using e(1) i(2) by (rule shared_shape_replace)
qed

lemma shared_acquire_taken:
  assumes ok: "shared_ok t" and a: "shared_acquire t (fst k) (snd k) = (u, True)"
  shows "\<exists>n. shared_refs t k = Some n \<and> shared_refs u = (shared_refs t)(k \<mapsto> Suc n)
           \<and> shared_shape u = shared_shape t \<and> shared_ok u"
proof -
  obtain i where i: "shared_page_index (st_pages t) k = Some i"
    using a by (auto simp: shared_acquire_def split: option.splits)
  obtain r where r: "st_pages t ! i = Some r" using i by (rule page_slot)
  obtain n where "linux_shared_reference_acquire (sp_references r) = Some n" "u = put_page t i (Some (r\<lparr>sp_references := n\<rparr>))"
    using a i r by (auto simp: shared_acquire_def split: option.splits)
  with shared_bump [OF ok i r] show ?thesis by simp
qed

lemma shared_acquire_refused: "shared_acquire t o' p = (u, False) \<Longrightarrow> u = t"
  by (auto simp: shared_acquire_def Let_def split: option.splits)

lemma shared_release_kept:
  assumes ok: "shared_ok t" and n: "shared_refs t k = Some (Suc (Suc n))"
  shows "\<exists>u. shared_release t (fst k) (snd k) = (u, None) \<and> shared_refs u = (shared_refs t)(k \<mapsto> Suc n)
           \<and> shared_shape u = shared_shape t \<and> shared_ok u"
proof -
  obtain i r where i: "shared_page_index (st_pages t) k = Some i" "i < length (st_pages t)" "st_pages t ! i = Some r"
    "linux_shared_page_record_key r = k" "unat (sp_references r) = Suc (Suc n)"
    using n by (rule shared_refs_slot)
  define m where "m = sp_references r - 1"
  have "1 \<le> sp_references r" using i(5) by (simp add: word_le_nat_alt)
  then have m: "linux_shared_reference_release (sp_references r) = Some m" "unat m = Suc n"
    using i(5) by (simp_all add: linux_shared_reference_release_def checked_sub_def m_def unat_sub)
  then have "m \<noteq> 0" by auto
  then have u: "shared_release t (fst k) (snd k) = (put_page t i (Some (r\<lparr>sp_references := m\<rparr>)), None)"
    using i m by (simp add: shared_release_def)
  note p = shared_replace [OF i(1) ok, of "r\<lparr>sp_references := m\<rparr>", simplified i(4) rkey_references]
  have q: "sp_pfn r \<noteq> 0" using shared_slot_ok [OF ok i(2,3)] by simp
  have "shared_refs (put_page t i (Some (r\<lparr>sp_references := m\<rparr>))) = (shared_refs t)(k \<mapsto> Suc n)"
    using p(1) m(2) \<open>m \<noteq> 0\<close> q by (auto simp: shared_refs_def)
  with u p(2) shared_shape_replace [OF i(2,3)] \<open>m \<noteq> 0\<close> q show ?thesis by simp
qed

lemma shared_release_last:
  assumes ok: "shared_ok t" and n: "shared_refs t k = Some (Suc 0)"
  shows "\<exists>u v. shared_release t (fst k) (snd k) = (u, Some v) \<and> shared_refs u = (shared_refs t)(k := None) \<and> shared_ok u"
    and "snd (shared_release t (fst k) (snd k)) = map_option sp_pfn (shared_page t k)"
proof -
  obtain i r where i: "shared_page_index (st_pages t) k = Some i" "i < length (st_pages t)" "st_pages t ! i = Some r"
    "linux_shared_page_record_key r = k" "unat (sp_references r) = Suc 0"
    using n by (rule shared_refs_slot)
  have "sp_references r = 1" using i(5) by (simp add: word_unat_eq_iff)
  then have u: "shared_release t (fst k) (snd k) = (put_page t i None, Some (sp_pfn r))"
    using i by (simp add: shared_release_def linux_shared_reference_release_def checked_sub_def)
  note p = shared_clear [OF i(1) ok]
  have "shared_refs (put_page t i None) = (shared_refs t)(k := None)"
    using p by (auto simp: shared_refs_def)
  with u p(2) show "\<exists>u v. shared_release t (fst k) (snd k) = (u, Some v) \<and> shared_refs u = (shared_refs t)(k := None) \<and> shared_ok u"
    by simp
  show "snd (shared_release t (fst k) (snd k)) = map_option sp_pfn (shared_page t k)"
    using u i by (simp add: shared_page_at)
qed

lemma shared_shape_dom:
  assumes "shared_shape t = shared_shape u"
  shows "dom (shared_refs t) = dom (shared_refs u)"
proof -
  have "shared_page w k = None \<longleftrightarrow>
      (\<forall>x\<in>set (flatten (shared_shape w)). \<not> (sp_object_id x = fst k \<and> sp_page_index x = snd k))" for w k
    by (auto simp: shared_page_def shared_get_any_def shared_shape_def flatten_map_option find_None_iff)
  with assms have "shared_page t k = None \<longleftrightarrow> shared_page u k = None" for k by simp
  then show ?thesis by (auto simp: shared_refs_def dom_def)
qed

lemma shared_table_eqI:
  assumes ok: "shared_ok t" "shared_ok u" and r: "shared_refs t = shared_refs u" and s: "shared_shape t = shared_shape u"
  shows "t = u"
proof -
  let ?z = "map_option (sp_references_update (\<lambda>_. 0))"
  have m: "map ?z (st_pages t) = map ?z (st_pages u)" using s by (simp add: shared_shape_def)
  have len: "length (st_pages t) = length (st_pages u)" using m by (rule map_eq_imp_length_eq)
  have "st_pages t = st_pages u"
  proof (rule nth_equalityI [OF len])
    fix i assume i: "i < length (st_pages t)"
    have z: "?z (st_pages t ! i) = ?z (st_pages u ! i)" using m i len by (metis nth_map)
    show "st_pages t ! i = st_pages u ! i"
    proof (cases "st_pages t ! i")
      case None
      with z show ?thesis by simp
    next
      case (Some d)
      with z obtain e where e: "st_pages u ! i = Some e" "d\<lparr>sp_references := 0\<rparr> = e\<lparr>sp_references := 0\<rparr>"
        by (cases "st_pages u ! i") auto
      then have key: "rkey d = rkey e" by (cases d; cases e) (simp add: linux_shared_page_record_key_def)
      have "shared_page_index (st_pages t) (rkey d) = Some i" "shared_page_index (st_pages u) (rkey d) = Some i"
        using ok i len Some e key by (auto intro!: stab.index_SomeI simp: shared_ok_def)
      then have "unat (sp_references d) = unat (sp_references e)"
        using fun_cong [OF r, of "rkey d"] Some e by (simp add: shared_refs_def shared_page_at)
      then have "d = e" using e(2) by (cases d; cases e) (simp add: word_unat_eq_iff)
      with Some e show ?thesis by simp
    qed
  qed
  then show ?thesis by (cases t; cases u) simp
qed

interpretation sref: refcount_table shared_ok shared_refs shared_shape
  "\<lambda>t k. shared_acquire t (fst k) (snd k)" "\<lambda>t k. shared_release t (fst k) (snd k)"
proof (unfold_locales, goal_cases)
  case 1 then show ?case by (rule shared_acquire_taken)
next
  case 2 then show ?case using shared_acquire_refused by blast
next
  case 3 then show ?case by (rule shared_release_kept)
next
  case 4 then show ?case by (rule shared_release_last(1))
next
  case 5 then show ?case using shared_shape_dom by blast
next
  case 6 then show ?case by (rule shared_table_eqI)
qed

lemma shared_insert_counted:
  assumes c: "sref.counted t M" and i: "shared_insert t o' p pfn = (u, b)"
  shows "if b then sref.counted u (add_mset (o', p) M) \<and> (o', p) \<notin># M else u = t"
proof (cases b)
  case False
  then show ?thesis using i by (auto simp: shared_insert_def split: if_splits option.splits)
next
  case True
  let ?k = "(o', p)"
  let ?r = "\<lparr>sp_object_id = o', sp_page_index = p, sp_pfn = pfn, sp_references = 1, sp_named = True\<rparr>"
  have ok: "shared_ok t" using c by (simp add: sref.counted_def)
  obtain slot where slot: "position (\<lambda>slot. slot = None) (st_pages t) = Some slot" and u: "u = put_page t slot (Some ?r)"
    and new: "pfn \<noteq> 0" "shared_page t ?k = None"
    using i True by (auto simp: shared_insert_def shared_page_def split: if_splits option.splits)
  have s: "slot < length (st_pages t)" "st_pages t ! slot = None" using stab.free_SomeD [OF slot] by simp_all
  have none: "shared_page_index (st_pages t) ?k = None"
  proof (cases "shared_page_index (st_pages t) ?k")
    case (Some i)
    then obtain e where "st_pages t ! i = Some e" by (rule page_slot)
    with new(2) Some show ?thesis by (simp add: shared_page_at)
  qed simp
  have d: "distinct_live page_live page_key (st_pages t)" using ok by (simp add: shared_ok_def)
  have rk: "rkey ?r = ?k" by (simp add: linux_shared_page_record_key_def)
  have "shared_page u = (shared_page t)(?k \<mapsto> ?r)"
    using stab.lookup_fill [OF d s(1), of "Some ?r"] s(2) none rk by (auto simp: shared_page_lookup u put_page_def)
  then have "shared_refs u = (shared_refs t)(?k \<mapsto> 1)" by (auto simp: shared_refs_def)
  moreover have "shared_ok u"
    using ok stab.index_fill(2) [OF d s(1), of "Some ?r"] s none rk new(1) flatten_replace_cases [OF s(1), of _ ?r]
    by (fastforce simp: shared_ok_def u put_page_def)
  moreover have "shared_refs t ?k = None" using new(2) by (simp add: shared_refs_def)
  then have "?k \<notin># M" using sref.countedD(3) [OF c, of ?k] by auto
  ultimately show ?thesis using True c by (auto simp: sref.counted_def not_in_iff)
qed

lemma shared_acquire_or_insert_counted:
  assumes c: "sref.counted t M" and a: "shared_acquire_or_insert t o' p pfn = (u, res)"
  shows "case res of None \<Rightarrow> u = t
    | Some frame \<Rightarrow> sref.counted u (add_mset (o', p) M)
        \<and> frame = (case shared_page t (o', p) of None \<Rightarrow> pfn | Some r \<Rightarrow> sp_pfn r)"
proof (cases "shared_page_index (st_pages t) (o', p)")
  case None
  obtain v b where i: "shared_insert t o' p pfn = (v, b)" by fastforce
  with a None have "u = v" "res = (if b then Some pfn else None)" by (simp_all add: shared_acquire_or_insert_def)
  with shared_insert_counted [OF c i] None show ?thesis by (auto simp: shared_page_at)
next
  case (Some i)
  obtain r where r: "i < length (st_pages t)" "st_pages t ! i = Some r" using Some by (rule page_slot)
  show ?thesis
  proof (cases "linux_shared_reference_acquire (sp_references r)")
    case None
    then show ?thesis using a Some r by (simp add: shared_acquire_or_insert_def)
  next
    case n: (Some n)
    then have "shared_acquire t (fst (o', p)) (snd (o', p)) = (put_page t i (Some (r\<lparr>sp_references := n\<rparr>)), True)"
      using Some r by (simp add: shared_acquire_def)
    from sref.counted_acquire(1) [OF c this] show ?thesis
      using a Some r n by (auto simp: shared_acquire_or_insert_def shared_page_at)
  qed
qed

lemma shared_remove_name_counted:
  assumes c: "sref.counted t M"
  shows "sref.counted (fst (shared_remove_name t o')) M"
proof -
  let ?f = "\<lambda>r. if sp_object_id r = o' \<and> sp_named r then r\<lparr>sp_named := False\<rparr> else r"
  have st: "st_pages (fst (shared_remove_name t o')) = map (map_option ?f) (st_pages t)" by (simp add: shared_remove_name_def Let_def)
  have f: "rkey (?f r) = rkey r" "sp_references (?f r) = sp_references r" "sp_pfn (?f r) = sp_pfn r" for r
    by (simp_all add: linux_shared_page_record_key_def)
  have fk: "sp_object_id (?f r) = sp_object_id r" "sp_page_index (?f r) = sp_page_index r" for r by simp_all
  have ok: "shared_ok t" using c by (simp add: sref.counted_def)
  have find: "List.find (\<lambda>r. sp_object_id r = a \<and> sp_page_index r = b) (map ?f rs)
      = map_option ?f (List.find (\<lambda>r. sp_object_id r = a \<and> sp_page_index r = b) rs)" for a b rs
    by (induction rs) (simp_all only: list.map find.simps fk option.map split: if_split, auto)
  have "shared_page (fst (shared_remove_name t o')) k = map_option ?f (shared_page t k)" for k
    unfolding shared_page_def shared_get_any_def st flatten_map_option by (rule find)
  then have "shared_refs (fst (shared_remove_name t o')) = shared_refs t"
    by (auto simp: shared_refs_def option.map_comp comp_def f)
  moreover have "shared_ok (fst (shared_remove_name t o'))"
  proof -
    have "distinct_live page_live page_key (map (map_option ?f) (st_pages t))"
      using ok f(1) by (intro distinct_live_map) (auto simp: shared_ok_def)
    with ok f(2,3) show ?thesis by (auto simp: shared_ok_def st flatten_map_option)
  qed
  ultimately show ?thesis using c by (simp add: sref.counted_def)
qed

text \<open>
  Runs of the table with the list of held page references: successful acquisitions add a reference
  to the list, a holder releases one that is on it.
\<close>

inductive shared_run :: "nat \<Rightarrow> (u32 \<times> usize) list \<Rightarrow> LinuxSharedPageTableCore \<Rightarrow> bool" for N where
  run_new: "shared_run N [] (shared_pages_new N)"
| run_insert: "shared_run N hs t \<Longrightarrow> shared_insert t object_id page_index pfn = (u, True)
    \<Longrightarrow> shared_run N ((object_id, page_index) # hs) u"
| run_acquire_or_insert: "shared_run N hs t \<Longrightarrow> shared_acquire_or_insert t object_id page_index pfn = (u, Some frame)
    \<Longrightarrow> shared_run N ((object_id, page_index) # hs) u"
| run_acquire: "shared_run N hs t \<Longrightarrow> shared_acquire t object_id page_index = (u, True)
    \<Longrightarrow> shared_run N ((object_id, page_index) # hs) u"
| run_remove_name: "shared_run N hs t \<Longrightarrow> shared_remove_name t object_id = (u, b) \<Longrightarrow> shared_run N hs u"
| run_release: "shared_run N hs t \<Longrightarrow> (object_id, page_index) \<in> set hs \<Longrightarrow> shared_release t object_id page_index = (u, v)
    \<Longrightarrow> shared_run N (remove1 (object_id, page_index) hs) u"

lemma shared_run_counted: "shared_run N hs t \<Longrightarrow> sref.counted t (mset hs)"
proof (induction rule: shared_run.induct)
  case run_new
  have "shared_ok (shared_pages_new N)" by (auto simp: shared_ok_def shared_pages_new_def intro!: distinct_live_none)
  moreover have "shared_refs (shared_pages_new N) k = None" for k
    by (simp add: shared_refs_def shared_page_def shared_get_any_def shared_pages_new_def)
  ultimately show ?case by (simp add: sref.counted_def)
next
  case (run_insert hs t object_id page_index pfn u)
  then show ?case using shared_insert_counted by fastforce
next
  case (run_acquire_or_insert hs t object_id page_index pfn u frame)
  then show ?case using shared_acquire_or_insert_counted by fastforce
next
  case (run_acquire hs t object_id page_index u)
  then show ?case using sref.counted_acquire(1) [of t "mset hs" "(object_id, page_index)" u] by simp
next
  case (run_remove_name hs t object_id u b)
  then show ?case using shared_remove_name_counted [of t "mset hs" object_id] by simp
next
  case (run_release hs t object_id page_index u v)
  define M where "M = mset (remove1 (object_id, page_index) hs)"
  have m: "mset hs = add_mset (object_id, page_index) M" using run_release(2) by (simp add: M_def)
  have "sref.counted t (add_mset (object_id, page_index) M)" using run_release(4) unfolding m .
  from sref.counted_release(1) [OF this] run_release(3) show ?case unfolding M_def by simp
qed

subsection \<open>Faults, copies and address space limits\<close>

lemma region_contains_iff:
  "region_contains address region \<longleftrightarrow>
     unat (fr_addr region) \<le> unat address \<and> unat address < unat (fr_addr region) + unat (fr_len region)
     \<and> unat (fr_addr region) + unat (fr_len region) < 2 ^ 64"
proof (cases "checked_add (fr_addr region) (fr_len region)")
  case None
  then have "2 ^ 64 \<le> unat (fr_addr region) + unat (fr_len region)" by (simp add: checked_add_None_iff)
  with None show ?thesis by (simp add: region_contains_def)
next
  case (Some e)
  then have "unat e = unat (fr_addr region) + unat (fr_len region)" by (simp add: checked_add_Some_iff)
  moreover have "unat e < 2 ^ 64" using unsigned_less [of e] by simp
  ultimately show ?thesis using Some by (simp add: region_contains_def word_le_nat_alt word_less_nat_alt)
qed

text \<open>An address outside every region is unmapped; a bus error needs a file-backed region that allows the access.\<close>

lemma fault_unmapped_iff:
  "linux_memory_fault_signal regions address access page_size = SegvMaperr \<longleftrightarrow> (\<forall>r\<in>set regions. \<not> region_contains address r)"
proof -
  have "linux_memory_fault_signal regions address access page_size = SegvMaperr
      \<longleftrightarrow> List.find (region_contains address) regions = None"
    by (simp add: linux_memory_fault_signal_def Let_def split: option.splits)
  then show ?thesis by (auto simp: find_None_iff)
qed

lemma fault_bus_error:
  assumes "linux_memory_fault_signal regions address access page_size = BusAdrerr"
  obtains r where "r \<in> set regions" "region_contains address r" "fr_file_offset r \<noteq> None"
    "linux_effective_mapping_page_prot (fr_prot r) (fr_file_offset r) (fr_backing_len r)
       ((address - fr_addr r) div page_size) page_size = 0"
proof -
  obtain r where f: "List.find (region_contains address) regions = Some r"
    using assms by (auto simp: linux_memory_fault_signal_def split: option.splits)
  then have "r \<in> set regions" "region_contains address r" by (auto simp: find_Some_iff)
  with assms f that show thesis by (auto simp: linux_memory_fault_signal_def Let_def split: if_splits)
qed

text \<open>A chunk of a user copy is not empty, stays in its page and within the request.\<close>

lemma user_copy_chunk_bounds:
  assumes "linux_user_copy_chunk address remaining page_size = Some chunk"
  shows "0 < chunk" "chunk \<le> remaining" "unat (address mod page_size) + unat chunk \<le> unat page_size"
proof -
  have p: "remaining \<noteq> 0" "page_size \<noteq> 0" "chunk = min remaining (page_size - address mod page_size)"
    using assms by (auto simp: linux_user_copy_chunk_def Let_def split: if_splits)
  have lt: "address mod page_size < page_size" using p(2) by (simp add: word_mod_less_divisor word_neq_0_conv [symmetric] word_greater_zero_iff)
  then have "unat (page_size - address mod page_size) = unat page_size - unat (address mod page_size)" "unat (address mod page_size) < unat page_size"
    by (simp_all add: unat_sub less_imp_le) (simp add: word_less_nat_alt)
  moreover have "0 < unat remaining" using p(1) by (simp add: unat_gt_0)
  ultimately show "0 < chunk" "chunk \<le> remaining" "unat (address mod page_size) + unat chunk \<le> unat page_size"
    using p by (auto simp: min_def word_less_nat_alt word_le_nat_alt split: if_splits)
qed

text \<open>The limits that the operations of a process memory keep.\<close>

definition process_memory_ok :: "LinuxProcessMemoryCore \<Rightarrow> bool" where
  "process_memory_ok m \<longleftrightarrow>
     mem_pid m \<noteq> 0 \<and> mem_root_paddr m mod LINUX_PAGE_SIZE = 0
     \<and> (\<forall>p\<in>set (flatten (mem_mappings m)). pm_owner_pid p = mem_pid m \<and> linux_user_page_range_valid (pm_addr p) (pm_len p))
     \<and> (case mem_initial_stack m of None \<Rightarrow> True | Some (a, n) \<Rightarrow> linux_user_page_range_valid a n)
     \<and> LINUX_MMAP_BASE \<le> mem_next_addr m \<and> mem_next_addr m < LINUX_BRK_BASE
     \<and> LINUX_USER_BASE \<le> brk_start (mem_brk m) \<and> brk_start (mem_brk m) \<le> brk_current (mem_brk m)
     \<and> brk_current (mem_brk m) \<le> brk_limit (mem_brk m) \<and> brk_limit (mem_brk m) \<le> LINUX_USER_LIMIT"

lemma process_memory_new_ok:
  assumes "process_memory_new N pid root = Some m"
  shows "process_memory_ok m"
proof -
  have m: "\<lparr>mem_pid = pid, mem_root_paddr = root, mem_initial_stack = None, mem_next_addr = LINUX_MMAP_BASE,
         mem_brk = \<lparr>brk_start = LINUX_BRK_BASE, brk_current = LINUX_BRK_BASE, brk_limit = LINUX_BRK_LIMIT\<rparr>,
         mem_mappings = replicate N None, mem_mappings_len = 0\<rparr> = m" "pid \<noteq> 0" "root mod LINUX_PAGE_SIZE = 0"
    using assms by (simp_all add: process_memory_new_def split: if_splits)
  show ?thesis unfolding m(1) [symmetric] process_memory_ok_def using m(2,3)
    by (simp add: LINUX_MMAP_BASE_def LINUX_BRK_BASE_def LINUX_BRK_LIMIT_def LINUX_USER_BASE_def LINUX_USER_LIMIT_def)
qed

lemma push_mapping_ok:
  assumes ok: "process_memory_ok m"
  shows "process_memory_ok (fst (push_mapping m p))"
proof (cases "snd (push_mapping m p)")
  case False
  then show ?thesis using ok by (auto simp: push_mapping_def split: if_splits)
next
  case True
  then have p: "pm_owner_pid p = mem_pid m" "mem_mappings_len m < length (mem_mappings m)"
    "linux_user_page_range_valid (pm_addr p) (pm_len p)"
    by (simp_all add: push_mapping_def split: if_splits)
  have "pm_owner_pid q = mem_pid m \<and> linux_user_page_range_valid (pm_addr q) (pm_len q)"
    if q: "q \<in> set (flatten ((mem_mappings m)[mem_mappings_len m := Some p]))" for q
    using flatten_replace_cases [OF p(2) q] ok p by (auto simp: process_memory_ok_def)
  with ok p show ?thesis by (simp add: push_mapping_def process_memory_ok_def)
qed

lemma process_memory_setters_ok:
  assumes "process_memory_ok m"
  shows "process_memory_ok (fst (set_initial_stack m a n))" "process_memory_ok (fst (set_next_addr m a))"
    "process_memory_ok (fst (set_brk m start current limit))"
  using assms by (simp_all add: set_initial_stack_def set_next_addr_def set_brk_def process_memory_ok_def linorder_not_less linorder_not_le)

text \<open>A page shared for copy on write is never mapped writable.\<close>

lemma cow_not_writable:
  "linux_page_backing_is_cow backing \<Longrightarrow> \<not> linux_mapping_allows (linux_page_protection_for_backing backing prot) True"
  by (simp add: linux_page_protection_for_backing_def linux_mapping_allows_def bit_eq_iff bit_and_iff bit_not_iff)

subsection \<open>Properties\<close>

text \<open>
  C13: A user range passes the access check exactly when every byte of it lies in a mapping that
  allows the access, however the range is spread over the mappings; ranges and mappings that run
  past the end of the address space do not count.
\<close>

theorem mapping_coverage_exact:
  "linux_mapping_access_range_covered mappings address len write \<longleftrightarrow>
     len \<noteq> 0 \<and> unat address + unat len < 2 ^ 64
     \<and> (\<forall>b. unat address \<le> b \<and> b < unat address + unat len \<longrightarrow>
          (\<exists>m\<in>set mappings. linux_mapping_allows (ma_prot m) write
             \<and> unat (ma_addr m) \<le> b \<and> b < unat (ma_addr m) + unat (ma_len m)
             \<and> unat (ma_addr m) + unat (ma_len m) < 2 ^ 64))"
proof (cases "checked_add address len")
  case None
  moreover from this have "2 ^ 64 \<le> unat address + unat len" by (simp add: checked_add_None_iff)
  ultimately show ?thesis by (simp add: linux_mapping_access_range_covered_def)
next
  case (Some stop)
  then have "unat stop = unat address + unat len" by (simp add: checked_add_Some_iff)
  moreover have "unat stop < 2 ^ 64" using unsigned_less [of stop] by simp
  ultimately show ?thesis using Some
    by (simp add: linux_mapping_access_range_covered_def cover_loop_iff mapped_byte_def)
qed

theorem mapping_coverage_exact_witness:
  "linux_mapping_access_range_covered
     [\<lparr>ma_addr = 8192, ma_len = 4096, ma_prot = 2\<rparr>, \<lparr>ma_addr = 4096, ma_len = 4096, ma_prot = 3\<rparr>] 8100 200 True"
proof -
  let ?ms = "[\<lparr>ma_addr = 8192, ma_len = 4096, ma_prot = 2\<rparr>, \<lparr>ma_addr = 4096, ma_len = 4096, ma_prot = 3\<rparr>]"
  have p: "linux_mapping_allows 2 True" "linux_mapping_allows 3 True" by code_simp+
  show ?thesis unfolding mapping_coverage_exact [of ?ms 8100 200 True] using p by auto
qed

text \<open>
  C16: Merging shared page records in place, by binary search, gives the same records and fails on
  the same inputs as the reference merge of the two sorted lists, and leaves the records unchanged
  when it fails.  Both are as in the host build, which tests that the existing records are sorted.
\<close>

theorem merge_in_place_equals_merge:
  "linux_merge_shared_page_records_in_place alloc existing additions =
     (case linux_merge_shared_page_records alloc existing additions of
        None \<Rightarrow> (existing, None)
      | Some merged \<Rightarrow> (merged, Some ()))"
proof (cases "records_ordered existing \<and> records_ordered additions")
  case True
  then have "addition_fits existing = (\<lambda>a. \<forall>e\<in>set existing. rkey e = rkey a \<longrightarrow>
      sp_pfn e = sp_pfn a \<and> checked_add (sp_references e) (sp_references a) \<noteq> None)"
    by (intro ext addition_fits_iff) simp
  with True show ?thesis
    by (simp add: linux_merge_shared_page_records_in_place_def linux_merge_shared_page_records_def merge_records_fold fold_place)
next
  case False
  then show ?thesis
    by (auto simp: linux_merge_shared_page_records_in_place_def linux_merge_shared_page_records_def)
qed

text \<open>
  C15: In every run of the table of shared pages each page counts exactly the references that are
  held to it.  A release hands back the frame exactly when it gives up the last reference, and every
  later acquisition of a held page gets the frame the others share.  The table is the one of the host
  build.
\<close>

theorem shared_page_references_exact:
  assumes "shared_run N hs t"
  shows "(\<forall>r\<in>set (flatten (st_pages t)). unat (sp_references r) = count_list hs (linux_shared_page_record_key r))
    \<and> (\<forall>k\<in>set hs. \<exists>r. shared_get_any t (fst k) (snd k) = Some r
        \<and> snd (shared_release t (fst k) (snd k)) = (if count_list hs k = 1 then Some (sp_pfn r) else None)
        \<and> (\<forall>pfn frame. snd (shared_acquire_or_insert t (fst k) (snd k) pfn) = Some frame \<longrightarrow> frame = sp_pfn r))"
proof -
  have c: "sref.counted t (mset hs)" using assms by (rule shared_run_counted)
  have ok: "shared_ok t" using c by (simp add: sref.counted_def)
  have "unat (sp_references r) = count_list hs (rkey r)" if r: "r \<in> set (flatten (st_pages t))" for r
  proof -
    obtain i where i: "i < length (st_pages t)" "st_pages t ! i = Some r" using r by (auto simp: in_flatten_nth)
    then have "shared_page_index (st_pages t) (rkey r) = Some i"
      using ok by (intro stab.index_SomeI) (auto simp: shared_ok_def)
    with i have "shared_refs t (rkey r) = Some (unat (sp_references r))" by (simp add: shared_refs_def shared_page_at)
    from sref.countedD(2) [OF c this] show ?thesis by (simp add: count_mset)
  qed
  moreover have "\<exists>r. shared_get_any t (fst k) (snd k) = Some r
        \<and> snd (shared_release t (fst k) (snd k)) = (if count_list hs k = 1 then Some (sp_pfn r) else None)
        \<and> (\<forall>pfn frame. snd (shared_acquire_or_insert t (fst k) (snd k) pfn) = Some frame \<longrightarrow> frame = sp_pfn r)"
    if k: "k \<in> set hs" for k
  proof -
    have n: "shared_refs t k = Some (count_list hs k)" using sref.countedD(3) [OF c, of k] k by (simp add: count_mset)
    then obtain r where r: "shared_page t k = Some r" by (auto simp: shared_refs_def)
    obtain u v where rel: "shared_release t (fst k) (snd k) = (u, v)" by fastforce
    define M where "M = mset (remove1 k hs)"
    have m: "mset hs = add_mset k M" using k by (simp add: M_def)
    have "v = None \<longleftrightarrow> k \<in># M" by (rule sref.counted_release(2) [OF _ rel]) (use c in \<open>unfold m\<close>)
    also have "\<dots> \<longleftrightarrow> count (mset hs) k \<noteq> 1" unfolding m by (simp add: not_in_iff [symmetric])
    finally have "v = (if count_list hs k = 1 then Some (sp_pfn r) else None)"
      using shared_release_last(2) [OF ok, of k] n r rel by (auto simp: count_mset)
    moreover have "frame = sp_pfn r" if "snd (shared_acquire_or_insert t (fst k) (snd k) pfn) = Some frame" for pfn frame
      using shared_acquire_or_insert_counted [OF c, of "fst k" "snd k" pfn] that r
      by (cases "shared_acquire_or_insert t (fst k) (snd k) pfn") auto
    ultimately show ?thesis using r rel by (simp add: shared_page_def)
  qed
  ultimately show ?thesis by blast
qed

theorem shared_page_references_exact_witness:
  "\<exists>t. shared_run 2 [(5, 0), (5, 0)] t \<and> snd (shared_release t 5 0) = None"
proof -
  let ?t1 = "fst (shared_acquire_or_insert (shared_pages_new 2) 5 0 7)"
  let ?t2 = "fst (shared_acquire_or_insert ?t1 5 0 8)"
  have "shared_run 2 [(5, 0)] ?t1" by (rule run_acquire_or_insert [OF run_new, where frame = 7 and pfn = 7]) code_simp
  then have run: "shared_run 2 [(5, 0), (5, 0)] ?t2"
    by (rule run_acquire_or_insert [where frame = 7 and pfn = 8]) code_simp
  show ?thesis using shared_page_references_exact [OF run] run by (intro exI [of _ ?t2]) auto
qed

end
