(* ===== verification/Linux_Process_Runtime.thy ===== *)
theory Linux_Process_Runtime
  imports Linux_Descriptors Linux_Process Linux_Fork Linux_Signal
begin

text \<open>
  The process runtime (\<open>src/src/syscall/linux_process.rs\<close>): the process table together with the
  signal states and the start images of forked children, the entry points that change it, and the
  operations that the fork transaction runs on AArch64.

  The calls into the scheduler, the task table, the process memory and the resource tables are
  fields of the record \<open>process_world\<close>, functions on a state \<open>'w\<close> of these modules.  The array
  length \<open>LINUX_PROCESS_LIMIT\<close> is the length of the lists.  An \<open>assert!\<close> that fails is recorded in
  the state, since the kernel stops there.
\<close>

subsection \<open>Data\<close>

definition LINUX_DISPATCH_PID :: usize where "LINUX_DISPATCH_PID = 0x10000"
definition THREAD_IDLE :: usize where "THREAD_IDLE = 0"

record LinuxKernelSigaction =
  act_handler :: u64
  act_flags :: u64
  act_restorer :: u64
  act_mask :: u64

definition SIGACTION_DEFAULT :: LinuxKernelSigaction where
  "SIGACTION_DEFAULT = \<lparr>act_handler = 0, act_flags = 0, act_restorer = 0, act_mask = 0\<rparr>"

type_synonym 'p LinuxProcessSignalState = "(LinuxKernelSigaction, 'p) LinuxProcessSignalStateCore"

definition SIGNAL_STATE_EMPTY :: "'p \<Rightarrow> 'p LinuxProcessSignalState" where
  "SIGNAL_STATE_EMPTY no_pending = signal_state_new (unat LINUX_MAX_SIGNAL + 1) SIGACTION_DEFAULT no_pending"


record Aarch64ExceptionFrame =
  ef_regs :: "u64 list"
  ef_simd :: "128 word list"
  ef_fpcr :: u64
  ef_fpsr :: u64

record Aarch64ProcessStart =
  start_frame :: Aarch64ExceptionFrame
  start_return_pc :: u64
  start_pstate :: u64
  start_root_paddr :: u64

record ('p, 's) LinuxProcessRuntime =
  rt_processes :: LinuxProcessTable
  rt_signal_states :: "'p LinuxProcessSignalState list"
  rt_fork_starts :: "'s option list"

definition runtime_new :: "nat \<Rightarrow> 'p \<Rightarrow> ('p, 's) LinuxProcessRuntime" where
  "runtime_new N no_pending =
     \<lparr>rt_processes = process_table_new N, rt_signal_states = replicate N (SIGNAL_STATE_EMPTY no_pending),
      rt_fork_starts = replicate N None\<rparr>"

definition process_error_to_sys_error :: "LinuxProcessError \<Rightarrow> SysError" where
  "process_error_to_sys_error error =
     (case error of PrCapacity \<Rightarrow> EAGAIN | PrExhausted \<Rightarrow> EAGAIN | PrDuplicateRoot \<Rightarrow> EBUSY | PrNoSuchParent \<Rightarrow> ESRCH)"

subsection \<open>The entry points on the runtime alone\<close>

definition running_slot :: "('p, 's) LinuxProcessRuntime \<Rightarrow> usize \<Rightarrow> nat option" where
  "running_slot rt pid = running_at (rt_processes rt) pid"

definition clear_signal_state :: "'p \<Rightarrow> nat \<Rightarrow> ('p, 's) LinuxProcessRuntime \<Rightarrow> ('p, 's) LinuxProcessRuntime" where
  "clear_signal_state no_pending slot rt =
     rt\<lparr>rt_signal_states := (rt_signal_states rt)[slot := SIGNAL_STATE_EMPTY no_pending]\<rparr>"

definition runtime_register_root ::
  "'p \<Rightarrow> usize \<Rightarrow> usize \<Rightarrow> ('p, 's) LinuxProcessRuntime \<Rightarrow> ('p, 's) LinuxProcessRuntime \<times> (SysError + usize)" where
  "runtime_register_root no_pending current_thread scheduler_thread rt =
     (if scheduler_thread = THREAD_IDLE \<or> scheduler_thread \<noteq> current_thread then (rt, Inl ESRCH)
      else
        (case register_root (rt_processes rt) scheduler_thread of
           (t, Inl e) \<Rightarrow> (rt\<lparr>rt_processes := t\<rparr>, Inl (process_error_to_sys_error e))
         | (t, Inr pid) \<Rightarrow>
             let rt = rt\<lparr>rt_processes := t\<rparr>
             in (case running_slot rt pid of
                   None \<Rightarrow> (rt, Inl ESRCH)
                 | Some slot \<Rightarrow> (clear_signal_state no_pending slot rt, Inr pid))))"

definition ensure_dispatch_process ::
  "'p \<Rightarrow> usize \<Rightarrow> usize \<Rightarrow> ('p, 's) LinuxProcessRuntime \<Rightarrow> ('p, 's) LinuxProcessRuntime \<times> (SysError + usize)" where
  "ensure_dispatch_process no_pending pid scheduler_thread rt =
     (if list_ex (\<lambda>process. pc_pid process = pid \<and> pc_state process = PRunning) (pt_processes (rt_processes rt)) then (rt, Inr pid)
      else
        (case position (\<lambda>process. pc_state process = PEmpty) (pt_processes (rt_processes rt)) of
           None \<Rightarrow> (rt, Inl EAGAIN)
         | Some slot \<Rightarrow>
             (clear_signal_state no_pending slot
                (rt\<lparr>rt_processes := put_process (rt_processes rt) slot
                   \<lparr>pc_pid = pid, pc_parent_pid = 0, pc_process_group = pid, pc_root_scheduler_thread = scheduler_thread,
                    pc_state = PRunning, pc_wait_status = 0, pc_exit_signal = 0\<rparr>\<rparr>), Inr pid)))"


definition pids_in_process_group :: "('p, 's) LinuxProcessRuntime \<Rightarrow> usize \<Rightarrow> usize list" where
  "pids_in_process_group rt process_group =
     map pc_pid (filter (\<lambda>process. (pc_state process = PRunning \<or> pc_state process = PZombie) \<and> pc_process_group process = process_group)
       (pt_processes (rt_processes rt)))"

definition visible_pids :: "('p, 's) LinuxProcessRuntime \<Rightarrow> usize list" where
  "visible_pids rt =
     map pc_pid (filter (\<lambda>process. pc_state process = PRunning \<or> pc_state process = PZombie) (pt_processes (rt_processes rt)))"

definition set_process_group ::
  "usize \<Rightarrow> usize \<Rightarrow> ('p, 's) LinuxProcessRuntime \<Rightarrow> ('p, 's) LinuxProcessRuntime \<times> (SysError + unit)" where
  "set_process_group pid process_group rt =
     (if process_group = 0 then (rt, Inl EINVAL)
      else
        (case running_slot rt pid of
           None \<Rightarrow> (rt, Inl ESRCH)
         | Some slot \<Rightarrow>
             (rt\<lparr>rt_processes := put_process (rt_processes rt) slot
                ((pt_processes (rt_processes rt) ! slot)\<lparr>pc_process_group := process_group\<rparr>)\<rparr>, Inr ())))"

definition with_signal_state ::
  "usize \<Rightarrow> ('p LinuxProcessSignalState \<Rightarrow> 'p LinuxProcessSignalState \<times> 'r) \<Rightarrow> ('p, 's) LinuxProcessRuntime
     \<Rightarrow> ('p, 's) LinuxProcessRuntime \<times> (SysError + 'r)" where
  "with_signal_state pid operation rt =
     (case position (\<lambda>process. pc_pid process = pid
              \<and> (pc_state process = PReserved \<or> pc_state process = PPublishing \<or> pc_state process = PRunning))
             (pt_processes (rt_processes rt)) of
        None \<Rightarrow> (rt, Inl ESRCH)
      | Some slot \<Rightarrow>
          (case operation (rt_signal_states rt ! slot) of
             (state, r) \<Rightarrow> (rt\<lparr>rt_signal_states := (rt_signal_states rt)[slot := state]\<rparr>, Inr r)))"

definition clone_signal_state_for_fork ::
  "'p \<Rightarrow> usize \<Rightarrow> usize \<Rightarrow> ('p, 's) LinuxProcessRuntime \<Rightarrow> ('p, 's) LinuxProcessRuntime \<times> (SysError + unit)" where
  "clone_signal_state_for_fork no_pending parent_pid child_pid rt =
     (case running_slot rt parent_pid of
        None \<Rightarrow> (rt, Inl ESRCH)
      | Some parent_slot \<Rightarrow>
          (case position (\<lambda>process. pc_pid process = child_pid \<and> pc_state process = PReserved) (pt_processes (rt_processes rt)) of
             None \<Rightarrow> (rt, Inl ESRCH)
           | Some child_slot \<Rightarrow>
               (rt\<lparr>rt_signal_states := (rt_signal_states rt)[child_slot :=
                  signal_state_fork_child (rt_signal_states rt ! parent_slot) no_pending]\<rparr>, Inr ())))"

text \<open>\<open>current\<close>: the argument is the group of the calling task, from \<open>linux_task::current_task\<close>.\<close>

definition current_process :: "SysError + usize \<Rightarrow> ('p, 's) LinuxProcessRuntime \<Rightarrow> SysError + LinuxProcessCore" where
  "current_process task rt =
     and_then task (\<lambda>tgid.
       ok_or ESRCH
         (case by_pid (rt_processes rt) tgid of
            None \<Rightarrow> None
          | Some process \<Rightarrow> if pc_state process = PRunning then Some process else None))"

definition current_pid :: "SysError + usize \<Rightarrow> ('p, 's) LinuxProcessRuntime \<Rightarrow> SysError + usize" where
  "current_pid task rt = and_then (current_process task rt) (\<lambda>process. Inr (pc_pid process))"

definition current_parent_pid :: "SysError + usize \<Rightarrow> ('p, 's) LinuxProcessRuntime \<Rightarrow> SysError + usize" where
  "current_parent_pid task rt =
     and_then (current_process task rt) (\<lambda>process. Inr (linux_visible_parent_pid (pc_pid process) (pc_parent_pid process)))"

definition reset_current_signal_state ::
  "('p \<Rightarrow> 'p) \<Rightarrow> SysError + usize \<Rightarrow> ('p, 's) LinuxProcessRuntime \<Rightarrow> ('p, 's) LinuxProcessRuntime \<times> (SysError + unit)" where
  "reset_current_signal_state reset_pending task rt =
     (case current_pid task rt of
        Inl e \<Rightarrow> (rt, Inl e)
      | Inr pid \<Rightarrow>
          with_signal_state pid
            (\<lambda>state. (\<lparr>signal_actions = map (\<lambda>_. SIGACTION_DEFAULT) (signal_actions state),
                       process_pending = reset_pending (process_pending state)\<rparr>, ())) rt)"


definition reset_launch :: "'p \<Rightarrow> ('p, 's) LinuxProcessRuntime \<Rightarrow> ('p, 's) LinuxProcessRuntime" where
  "reset_launch no_pending rt =
     \<lparr>rt_processes = process_reset (rt_processes rt),
      rt_signal_states = map (\<lambda>_. SIGNAL_STATE_EMPTY no_pending) (rt_signal_states rt),
      rt_fork_starts = map (\<lambda>_. None) (rt_fork_starts rt)\<rparr>"

record LinuxProcessResourceCounts =
  rcount_processes :: nat
  rcount_zombies :: nat
  rcount_private_pages :: nat
  rcount_shared_pages :: nat
  rcount_page_table_pages :: nat

text \<open>
  One round of the loop of \<open>resource_counts\<close>, with the process identifiers and the page counts of
  the memory runtime; \<open>None\<close> means that the two tables differ and the loop takes another round.
\<close>

definition runtime_resource_counts ::
  "usize list \<Rightarrow> nat \<Rightarrow> nat \<Rightarrow> nat \<Rightarrow> ('p, 's) LinuxProcessRuntime \<Rightarrow> LinuxProcessResourceCounts option" where
  "runtime_resource_counts memory_pids private_pages shared_pages page_table_pages rt =
     (if \<not> running_pids_match (rt_processes rt) memory_pids then None
      else
        (case resource_counts (rt_processes rt) of
           (linux_processes, linux_zombies) \<Rightarrow>
             Some \<lparr>rcount_processes = linux_processes, rcount_zombies = linux_zombies, rcount_private_pages = private_pages,
                   rcount_shared_pages = shared_pages, rcount_page_table_pages = page_table_pages\<rparr>))"

definition take_fork_start :: "usize \<Rightarrow> ('p, 's) LinuxProcessRuntime \<Rightarrow> ('p, 's) LinuxProcessRuntime \<times> 's option" where
  "take_fork_start current_thread rt =
     (case position (\<lambda>process. pc_state process = PRunning \<and> pc_root_scheduler_thread process = current_thread)
             (pt_processes (rt_processes rt)) of
        None \<Rightarrow> (rt, None)
      | Some slot \<Rightarrow> (rt\<lparr>rt_fork_starts := (rt_fork_starts rt)[slot := None]\<rparr>, rt_fork_starts rt ! slot))"

subsection \<open>The other modules\<close>

text \<open>The assertions in the rollback of a fork.\<close>

datatype fork_assert = AssertRestoreTid | AssertUnregister | AssertResources | AssertProcess | AssertThread

record ('w, 'p, 's) process_state =
  ps_runtime :: "('p, 's) LinuxProcessRuntime"
  ps_world :: 'w
  ps_failed :: "fork_assert list"

text \<open>
  The calls into the scheduler (\<open>scheduler.rs\<close>), the task table (\<open>linux_task.rs\<close>), the process memory
  (\<open>linux_process_memory.rs\<close>), the resources of processes (\<open>syscall.rs\<close>) and the processor.  None of
  them changes the process runtime, except for the delivery of a signal.
\<close>

record ('w, 'p, 's, 'task, 'att, 'ps) process_world =
  w_no_pending :: 'p
  w_current_task :: "'w \<Rightarrow> SysError + usize"
  w_current_thread :: "'w \<Rightarrow> usize"
  w_ensure_dispatch_task :: "usize \<Rightarrow> usize \<Rightarrow> ('w, SysError, unit) effect"
  w_block_current :: "('w, SysError, usize \<times> usize) effect"
  w_wake_blocked :: "usize \<Rightarrow> usize \<Rightarrow> 'w \<Rightarrow> 'w"
  w_wake_process_waiters :: "usize \<Rightarrow> 'w \<Rightarrow> 'w"
  w_queue_signal :: "usize \<Rightarrow> usize \<Rightarrow> ('p, 's) LinuxProcessRuntime \<times> 'w \<Rightarrow> (('p, 's) LinuxProcessRuntime \<times> 'w) \<times> (SysError + unit)"
  w_deactivate_address_space :: "('p, 's) LinuxProcessRuntime \<Rightarrow> ('w, SysError, unit) effect"
  w_retire_process_tasks :: "usize \<Rightarrow> bool \<Rightarrow> ('w, SysError, bool) effect"
  w_terminate_process_tasks :: "usize \<Rightarrow> 'w \<Rightarrow> 'w \<times> bool"
  w_retire_launch_descendants :: "usize \<Rightarrow> 'w \<Rightarrow> 'w"
  w_record_cpu_usage :: "usize \<Rightarrow> usize \<Rightarrow> 'w \<Rightarrow> 'w"
  w_release_resources :: "usize \<Rightarrow> 'w \<Rightarrow> 'w"
  w_unregister :: "usize \<Rightarrow> 'w \<Rightarrow> 'w \<times> bool"
  w_copy_to_process :: "usize \<Rightarrow> usize \<Rightarrow> u8 list \<Rightarrow> ('w, SysError, unit) effect"
  w_copy_from_process :: "usize \<Rightarrow> usize \<Rightarrow> nat \<Rightarrow> ('w, SysError, u8 list) effect"
  w_create_suspended_thread :: "'w \<Rightarrow> 'w \<times> usize option"
  w_reserve_fork_task :: "usize \<Rightarrow> ('w, SysError, 'task) effect"
  w_task_tid :: "'task \<Rightarrow> usize"
  w_tid_to_user_value :: "usize \<Rightarrow> u32 option"
  w_reserve_resource_clone :: "usize \<Rightarrow> usize \<Rightarrow> ('w, SysError, LinuxDescriptorEntry list \<times> u32 list \<times> 'ps) effect"
  w_reserve_shared_attachments :: "usize \<Rightarrow> ('w, SysError, 'att list) effect"
  w_release_shared_attachments :: "'att list \<Rightarrow> 'w \<Rightarrow> 'w"
  w_release_resource_clone :: "LinuxDescriptorEntry list \<Rightarrow> u32 list \<Rightarrow> 'w \<Rightarrow> 'w"
  w_install_resource_clone ::
    "usize \<Rightarrow> 'ps \<Rightarrow> 'w \<times> LinuxDescriptorEntry list \<times> u32 list \<Rightarrow> ('w \<times> LinuxDescriptorEntry list \<times> u32 list) \<times> bool"
  w_apply_priority :: "usize \<Rightarrow> usize \<Rightarrow> ('w, SysError, unit) effect"
  w_rollback_resources :: "usize \<Rightarrow> 'w \<Rightarrow> 'w \<times> bool"
  w_clone_for_fork :: "usize \<Rightarrow> usize \<Rightarrow> 'att list \<Rightarrow> ('w, SysError, u64) effect"
  w_user_stack_pointer :: "'w \<Rightarrow> u64"
  w_user_tls :: "'w \<Rightarrow> u64"
  w_set_process_start :: "usize \<Rightarrow> u64 \<Rightarrow> u64 \<Rightarrow> u64 \<Rightarrow> 'w \<Rightarrow> 'w \<times> bool"
  w_set_child_entry :: "usize \<Rightarrow> 'w \<Rightarrow> 'w \<times> bool"
  w_bind_thread_process :: "usize \<Rightarrow> usize \<Rightarrow> 'w \<Rightarrow> 'w \<times> bool"
  w_mask_interrupts :: "'w \<Rightarrow> 'w \<times> usize"
  w_restore_interrupts :: "usize \<Rightarrow> 'w \<Rightarrow> 'w"
  w_publish_fork_task :: "'task \<Rightarrow> usize \<Rightarrow> 'w \<Rightarrow> 'w \<times> bool"
  w_publish_suspended_thread :: "usize \<Rightarrow> 'w \<Rightarrow> 'w \<times> bool"
  w_rollback_fork_task :: "'task \<Rightarrow> 'w \<Rightarrow> 'w"
  w_terminate_thread :: "usize \<Rightarrow> 'w \<Rightarrow> 'w \<times> bool"

text \<open>\<open>to_ne_bytes\<close> and \<open>from_ne_bytes\<close> of a \<open>u32\<close>; the processors are little-endian.\<close>

definition u32_ne_bytes :: "u32 \<Rightarrow> u8 list" where
  "u32_ne_bytes v = map (\<lambda>i. ucast (drop_bit (8 * i) v)) [0, 1, 2, 3]"

definition u32_from_ne_bytes :: "u8 list \<Rightarrow> u32" where
  "u32_from_ne_bytes bs = foldr (\<lambda>b v. ucast b OR push_bit 8 v) bs 0"

text \<open>A call that only acts on the other modules, and one that only acts on the runtime.\<close>

definition in_world :: "('w \<Rightarrow> 'w \<times> 'a) \<Rightarrow> ('w, 'p, 's, 'z) process_state_scheme \<Rightarrow> ('w, 'p, 's, 'z) process_state_scheme \<times> 'a" where
  "in_world call s = (case call (ps_world s) of (w, a) \<Rightarrow> (s\<lparr>ps_world := w\<rparr>, a))"

definition in_runtime ::
  "(('p, 's) LinuxProcessRuntime \<Rightarrow> ('p, 's) LinuxProcessRuntime \<times> 'a) \<Rightarrow> ('w, 'p, 's, 'z) process_state_scheme \<Rightarrow> ('w, 'p, 's, 'z) process_state_scheme \<times> 'a" where
  "in_runtime call s = (case call (ps_runtime s) of (rt, a) \<Rightarrow> (s\<lparr>ps_runtime := rt\<rparr>, a))"

definition world_do :: "('w \<Rightarrow> 'w) \<Rightarrow> ('w, 'p, 's, 'z) process_state_scheme \<Rightarrow> ('w, 'p, 's, 'z) process_state_scheme" where
  "world_do call s = s\<lparr>ps_world := call (ps_world s)\<rparr>"

definition assert_that :: "fork_assert \<Rightarrow> bool \<Rightarrow> ('w, 'p, 's, 'z) process_state_scheme \<Rightarrow> ('w, 'p, 's, 'z) process_state_scheme" where
  "assert_that a b s = (if b then s else s\<lparr>ps_failed := ps_failed s @ [a]\<rparr>)"

text \<open>The operator \<open>?\<close> on effects.\<close>

definition bind_effect :: "('s, 'e, 'a) effect \<Rightarrow> ('a \<Rightarrow> ('s, 'e, 'b) effect) \<Rightarrow> ('s, 'e, 'b) effect" where
  "bind_effect m k s = (case m s of (s, Inl e) \<Rightarrow> (s, Inl e) | (s, Inr a) \<Rightarrow> k a s)"

definition current_of :: "('w, 'p, 's, 'task, 'att, 'ps) process_world \<Rightarrow> ('w, 'p, 's, 'z) process_state_scheme \<Rightarrow> SysError + LinuxProcessCore" where
  "current_of W s = current_process (w_current_task W (ps_world s)) (ps_runtime s)"

definition ensure_dispatch_identity ::
  "('w, 'p, 's, 'task, 'att, 'ps) process_world \<Rightarrow> (('w, 'p, 's, 'z) process_state_scheme, SysError, usize) effect" where
  "ensure_dispatch_identity W s =
     (case current_pid (w_current_task W (ps_world s)) (ps_runtime s) of
        Inr pid \<Rightarrow> (s, Inr pid)
      | Inl _ \<Rightarrow>
          let scheduler_thread = w_current_thread W (ps_world s)
          in bind_effect
               (\<lambda>s. case w_current_task W (ps_world s) of
                     Inr tgid \<Rightarrow> (s, Inr tgid)
                   | Inl _ \<Rightarrow>
                       bind_effect (in_world (w_ensure_dispatch_task W LINUX_DISPATCH_PID scheduler_thread))
                         (\<lambda>_ s. (s, Inr LINUX_DISPATCH_PID)) s)
               (\<lambda>pid. in_runtime (ensure_dispatch_process (w_no_pending W) pid scheduler_thread)) s)"

subsection \<open>Waiting\<close>

datatype wait_result = WaitReturns "SysError + LinuxWaitOutcome" | WaitSleeps usize

text \<open>One round of the loop of \<open>wait_current\<close>; \<open>WaitSleeps\<close> is the call of the scheduler, after which the next round runs.\<close>

definition wait_round ::
  "('w, 'p, 's, 'task, 'att, 'ps) process_world \<Rightarrow> usize \<Rightarrow> LinuxWaitSelector \<Rightarrow> bool \<Rightarrow> bool \<Rightarrow> ('w, 'p, 's, 'z) process_state_scheme
     \<Rightarrow> ('w, 'p, 's, 'z) process_state_scheme \<times> wait_result" where
  "wait_round W parent_pid selector nohang include_stopped s =
     (let outcome = wait_outcome_with_options (rt_processes (ps_runtime s)) parent_pid selector include_stopped
      in if outcome \<noteq> WaitWouldBlock \<or> nohang then (s, WaitReturns (Inr outcome))
         else
           (case in_world (w_block_current W) s of
              (s, Inl e) \<Rightarrow> (s, WaitReturns (Inl e))
            | (s, Inr (tid, scheduler_thread)) \<Rightarrow>
                let rechecked = wait_outcome_with_options (rt_processes (ps_runtime s)) parent_pid selector include_stopped
                in if rechecked \<noteq> WaitWouldBlock
                   then (world_do (w_wake_blocked W tid scheduler_thread) s, WaitReturns (Inr rechecked))
                   else (s, WaitSleeps parent_pid)))"

definition wait_current ::
  "('w, 'p, 's, 'task, 'att, 'ps) process_world \<Rightarrow> LinuxWaitSelector \<Rightarrow> bool \<Rightarrow> bool \<Rightarrow> ('w, 'p, 's, 'z) process_state_scheme
     \<Rightarrow> ('w, 'p, 's, 'z) process_state_scheme \<times> wait_result" where
  "wait_current W selector nohang include_stopped s =
     (case current_of W s of
        Inl e \<Rightarrow> (s, WaitReturns (Inl e))
      | Inr parent \<Rightarrow> wait_round W (pc_pid parent) selector nohang include_stopped s)"


definition report_transition ::
  "('w, 'p, 's, 'task, 'att, 'ps) process_world \<Rightarrow> LinuxChildStateTransition option \<Rightarrow> ('w, 'p, 's, 'z) process_state_scheme \<Rightarrow> ('w, 'p, 's, 'z) process_state_scheme" where
  "report_transition W transition s =
     (case transition of
        None \<Rightarrow> s
      | Some transition \<Rightarrow> world_do (w_wake_process_waiters W (cs_parent_pid transition)) s)"

definition stop_current_child ::
  "('w, 'p, 's, 'task, 'att, 'ps) process_world \<Rightarrow> usize \<Rightarrow> (('w, 'p, 's, 'z) process_state_scheme, SysError, LinuxChildStateTransition option) effect" where
  "stop_current_child W signum s =
     (case current_of W s of
        Inl e \<Rightarrow> (s, Inl e)
      | Inr process \<Rightarrow>
          (case stop_child (rt_processes (ps_runtime s)) (pc_pid process) signum of
             (t, transition) \<Rightarrow>
               (report_transition W transition (s\<lparr>ps_runtime := (ps_runtime s)\<lparr>rt_processes := t\<rparr>\<rparr>), Inr transition)))"

definition runtime_continue_child ::
  "('w, 'p, 's, 'task, 'att, 'ps) process_world \<Rightarrow> usize \<Rightarrow> (('w, 'p, 's, 'z) process_state_scheme, SysError, LinuxChildStateTransition option) effect" where
  "runtime_continue_child W pid s =
     (case continue_child (rt_processes (ps_runtime s)) pid of
        (t, transition) \<Rightarrow>
          (report_transition W transition (s\<lparr>ps_runtime := (ps_runtime s)\<lparr>rt_processes := t\<rparr>\<rparr>), Inr transition))"

subsection \<open>The end of a process\<close>








subsection \<open>The resources of a fork\<close>

record ('att, 'ps) LinuxResourceClone =
  rc_descriptors :: "LinuxDescriptorEntry list"
  rc_objects :: "u32 list"
  rc_process_state :: "'ps option"
  rc_shared_attachments :: "'att list"
  rc_committed :: bool

definition resource_clone_drop ::
  "('w, 'p, 's, 'task, 'att, 'ps) process_world \<Rightarrow> ('att, 'ps) LinuxResourceClone \<Rightarrow> 'w \<Rightarrow> 'w" where
  "resource_clone_drop W clone w =
     (if rc_committed clone then w
      else w_release_resource_clone W (rc_descriptors clone) (rc_objects clone)
             (w_release_shared_attachments W (rc_shared_attachments clone) w))"

definition take_shared_attachments :: "('att, 'ps) LinuxResourceClone \<Rightarrow> ('att, 'ps) LinuxResourceClone \<times> 'att list" where
  "take_shared_attachments clone = (clone\<lparr>rc_shared_attachments := []\<rparr>, rc_shared_attachments clone)"

text \<open>\<open>commit\<close> consumes the clone, which is dropped on every way out.\<close>

definition resource_clone_commit ::
  "('w, 'p, 's, 'task, 'att, 'ps) process_world \<Rightarrow> ('att, 'ps) LinuxResourceClone \<Rightarrow> usize \<Rightarrow> ('w, SysError, unit) effect" where
  "resource_clone_commit W clone child_pid w =
     (case rc_process_state clone of
        None \<Rightarrow> (resource_clone_drop W clone w, Inl EAGAIN)
      | Some process_state \<Rightarrow>
          (case w_install_resource_clone W child_pid process_state (w, rc_descriptors clone, rc_objects clone) of
             ((w, descs, object_ids), installed) \<Rightarrow>
               let clone = clone\<lparr>rc_process_state := None, rc_descriptors := descs, rc_objects := object_ids\<rparr>
               in if \<not> installed then (resource_clone_drop W clone w, Inl EBUSY)
                  else (resource_clone_drop W (clone\<lparr>rc_committed := True\<rparr>) w, Inr ())))"

definition reserve_resource_clone ::
  "('w, 'p, 's, 'task, 'att, 'ps) process_world \<Rightarrow> usize \<Rightarrow> usize \<Rightarrow> ('w, SysError, ('att, 'ps) LinuxResourceClone) effect" where
  "reserve_resource_clone W parent_pid namespace_flags w =
     (case w_reserve_resource_clone W parent_pid namespace_flags w of
        (w, Inl e) \<Rightarrow> (w, Inl e)
      | (w, Inr (descs, object_ids, process_state)) \<Rightarrow>
          (case w_reserve_shared_attachments W parent_pid w of
             (w, Inl e) \<Rightarrow> (w_release_resource_clone W descs object_ids w, Inl e)
           | (w, Inr attachments) \<Rightarrow>
               (w, Inr \<lparr>rc_descriptors = descs, rc_objects = object_ids, rc_process_state = Some process_state,
                        rc_shared_attachments = attachments, rc_committed = False\<rparr>)))"

subsection \<open>The fork operations of AArch64\<close>

record Aarch64LinuxForkOps =
  fo_frame :: Aarch64ExceptionFrame
  fo_return_pc :: u64
  fo_pstate :: u64
  fo_namespace_flags :: usize
  fo_child_exit_signal :: usize
  fo_set_child_tid :: "usize option"
  fo_clear_child_tid :: usize

record Aarch64LinuxForkMemory =
  fm_pid :: usize
  fm_root_paddr :: u64
  fm_child_tid_write :: "(usize \<times> u32) option"

definition fork_acquire_scheduler_thread ::
  "('w, 'p, 's, 'task, 'att, 'ps) process_world \<Rightarrow> (('w, 'p, 's, 'z) process_state_scheme, SysError, usize) effect" where
  "fork_acquire_scheduler_thread W s =
     (case in_world (w_create_suspended_thread W) s of
        (s, None) \<Rightarrow> (s, Inl EAGAIN)
      | (s, Some thread) \<Rightarrow> (s, Inr thread))"

definition fork_acquire_task ::
  "('w, 'p, 's, 'task, 'att, 'ps) process_world \<Rightarrow> usize \<Rightarrow> (('w, 'p, 's, 'z) process_state_scheme, SysError, LinuxProcessCore \<times> 'task) effect" where
  "fork_acquire_task W scheduler_thread s =
     (case current_of W s of
        Inl e \<Rightarrow> (s, Inl e)
      | Inr parent \<Rightarrow>
          (case in_world (w_reserve_fork_task W scheduler_thread) s of
             (s, Inl e) \<Rightarrow> (s, Inl e)
           | (s, Inr task) \<Rightarrow> (s, Inr (parent, task))))"

definition reserve_forked_process ::
  "'p \<Rightarrow> usize \<Rightarrow> usize \<Rightarrow> usize \<Rightarrow> usize \<Rightarrow> (('p, 's) LinuxProcessRuntime, SysError, LinuxProcessReservation) effect" where
  "reserve_forked_process no_pending parent_pid scheduler_thread tid exit_signal rt =
     (case reserve_child_with_pid (rt_processes rt) parent_pid scheduler_thread tid exit_signal of
        (t, Inl e) \<Rightarrow> (rt\<lparr>rt_processes := t\<rparr>, Inl (process_error_to_sys_error e))
      | (t, Inr process) \<Rightarrow>
          (case clone_signal_state_for_fork no_pending parent_pid (pr_pid process) (rt\<lparr>rt_processes := t\<rparr>) of
             (rt, Inl e) \<Rightarrow>
               ((clear_signal_state no_pending (pr_slot process) rt)
                  \<lparr>rt_processes := fst (process_rollback (rt_processes rt) process)\<rparr>, Inl e)
           | (rt, Inr _) \<Rightarrow> (rt, Inr process)))"

definition fork_acquire_process ::
  "('w, 'p, 's, 'task, 'att, 'ps) process_world \<Rightarrow> usize \<Rightarrow> LinuxProcessCore \<Rightarrow> usize \<Rightarrow> 'task
     \<Rightarrow> (('w, 'p, 's, 'z) process_state_scheme, SysError, LinuxProcessReservation) effect" where
  "fork_acquire_process W child_exit_signal parent scheduler_thread task =
     in_runtime (reserve_forked_process (w_no_pending W) (pc_pid parent) scheduler_thread (w_task_tid W task) child_exit_signal)"

definition fork_acquire_resources ::
  "('w, 'p, 's, 'task, 'att, 'ps) process_world \<Rightarrow> usize \<Rightarrow> LinuxProcessCore
     \<Rightarrow> (('w, 'p, 's, 'z) process_state_scheme, SysError, ('att, 'ps) LinuxResourceClone) effect" where
  "fork_acquire_resources W namespace_flags parent = in_world (reserve_resource_clone W (pc_pid parent) namespace_flags)"

definition write_child_tid ::
  "('w, 'p, 's, 'task, 'att, 'ps) process_world \<Rightarrow> usize \<Rightarrow> usize \<Rightarrow> ('w, SysError, usize \<times> u32) effect" where
  "write_child_tid W pid child_tid w =
     (case w_tid_to_user_value W pid of
        None \<Rightarrow> (fst (w_unregister W pid w), Inl EAGAIN)
      | Some tid \<Rightarrow>
          (case w_copy_from_process W pid child_tid 4 w of
             (w, Inl e) \<Rightarrow> (fst (w_unregister W pid w), Inl e)
           | (w, Inr original) \<Rightarrow>
               (case w_copy_to_process W pid child_tid (u32_ne_bytes tid) w of
                  (w, Inl e) \<Rightarrow> (fst (w_unregister W pid (fst (w_copy_to_process W pid child_tid original w))), Inl e)
                | (w, Inr _) \<Rightarrow> (w, Inr (child_tid, u32_from_ne_bytes original)))))"

definition clone_child_memory ::
  "('w, 'p, 's, 'task, 'att, 'ps) process_world \<Rightarrow> usize option \<Rightarrow> LinuxProcessCore \<Rightarrow> LinuxProcessReservation \<Rightarrow> 'att list
     \<Rightarrow> ('w, SysError, Aarch64LinuxForkMemory) effect" where
  "clone_child_memory W set_child_tid parent process attachments w =
     (case w_clone_for_fork W (pc_pid parent) (pr_pid process) attachments w of
        (w, Inl e) \<Rightarrow> (w, Inl e)
      | (w, Inr root_paddr) \<Rightarrow>
          (case set_child_tid of
             None \<Rightarrow> (w, Inr \<lparr>fm_pid = pr_pid process, fm_root_paddr = root_paddr, fm_child_tid_write = None\<rparr>)
           | Some child_tid \<Rightarrow>
               (case write_child_tid W (pr_pid process) child_tid w of
                  (w, Inl e) \<Rightarrow> (w, Inl e)
                | (w, Inr written) \<Rightarrow>
                    (w, Inr \<lparr>fm_pid = pr_pid process, fm_root_paddr = root_paddr, fm_child_tid_write = Some written\<rparr>))))"

definition fork_acquire_memory ::
  "('w, 'p, 's, 'task, 'att, 'ps) process_world \<Rightarrow> usize option \<Rightarrow> LinuxProcessCore \<Rightarrow> LinuxProcessReservation
     \<Rightarrow> (('w, 'p, 's, 'z) process_state_scheme \<times> ('att, 'ps) LinuxResourceClone, SysError, Aarch64LinuxForkMemory) effect" where
  "fork_acquire_memory W set_child_tid parent process x =
     (case take_shared_attachments (snd x) of
        (clone, attachments) \<Rightarrow>
          (case in_world (clone_child_memory W set_child_tid parent process attachments) (fst x) of (s, r) \<Rightarrow> ((s, clone), r)))"

definition fork_configure_child ::
  "('w, 'p, 's, 'task, 'att, 'ps) process_world \<Rightarrow> Aarch64LinuxForkOps \<Rightarrow> LinuxProcessReservation \<Rightarrow> usize \<Rightarrow> Aarch64LinuxForkMemory
     \<Rightarrow> (('w, 'p, 's, 'z) process_state_scheme, SysError, Aarch64ProcessStart) effect" where
  "fork_configure_child W fo process scheduler_thread memory s =
     (let child_context = prepare_linux_fork_context (fo_frame fo) (fo_return_pc fo) (fo_pstate fo)
            (w_user_stack_pointer W (ps_world s)) (w_user_tls W (ps_world s)) (fm_root_paddr memory)
            (\<lambda>frame. frame\<lparr>ef_regs := (ef_regs frame)[0 := 0]\<rparr>);
          (s, started) = in_world (w_set_process_start W scheduler_thread (ctx_user_sp child_context) (ctx_tls child_context)
            (ctx_root_paddr child_context)) s;
          (s, configured) = (if started then in_world (w_bind_thread_process W scheduler_thread (pr_pid process)) s else (s, False))
      in if \<not> configured then (s, Inl EAGAIN)
         else (s, Inr \<lparr>start_frame = ctx_frame child_context, start_return_pc = ctx_return_pc child_context,
                        start_pstate = ctx_pstate child_context, start_root_paddr = ctx_root_paddr child_context\<rparr>))"

definition forked_scheduler_thread :: "LinuxProcessReservation \<Rightarrow> ('p, 's) LinuxProcessRuntime \<Rightarrow> usize option" where
  "forked_scheduler_thread process rt =
     (if \<not> pr_slot process < length (pt_processes (rt_processes rt)) then None
      else
        let process_record = pt_processes (rt_processes rt) ! pr_slot process
        in if pc_pid process_record = pr_pid process \<and> pc_parent_pid process_record = pr_parent_pid process
           then Some (pc_root_scheduler_thread process_record) else None)"

definition install_taken_resources ::
  "('w, 'p, 's, 'task, 'att, 'ps) process_world \<Rightarrow> LinuxProcessReservation \<Rightarrow> usize
     \<Rightarrow> (('w, 'p, 's, 'z) process_state_scheme \<times> ('att, 'ps) LinuxResourceClone option, SysError, unit) effect" where
  "install_taken_resources W process scheduler_thread x =
     (case snd x of
        None \<Rightarrow> ((fst x, None), Inl EAGAIN)
      | Some clone \<Rightarrow>
          (case in_world (resource_clone_commit W clone (pr_pid process)) (fst x) of
             (s, Inl e) \<Rightarrow> ((s, None), Inl e)
           | (s, Inr _) \<Rightarrow>
               (case in_world (w_apply_priority W (pr_pid process) scheduler_thread) s of
                  (s, Inl e) \<Rightarrow> ((world_do (\<lambda>w. fst (w_rollback_resources W (pr_pid process) w)) s, None), Inl e)
                | (s, Inr _) \<Rightarrow> ((s, None), Inr ()))))"

definition fork_install_resources ::
  "('w, 'p, 's, 'task, 'att, 'ps) process_world \<Rightarrow> LinuxProcessReservation
     \<Rightarrow> (('w, 'p, 's, 'z) process_state_scheme \<times> ('att, 'ps) LinuxResourceClone option, SysError, unit) effect" where
  "fork_install_resources W process x =
     (case forked_scheduler_thread process (ps_runtime (fst x)) of
        None \<Rightarrow> (x, Inl EAGAIN)
      | Some scheduler_thread \<Rightarrow>
          install_taken_resources W process scheduler_thread x)"

definition publish_forked_process ::
  "LinuxProcessReservation \<Rightarrow> 's \<Rightarrow> ('p, 's) LinuxProcessRuntime \<Rightarrow> ('p, 's) LinuxProcessRuntime \<times> bool" where
  "publish_forked_process process configured rt =
     (if \<not> pr_slot process < length (rt_fork_starts rt) then (rt, False)
      else if rt_fork_starts rt ! pr_slot process \<noteq> None then (rt, False)
      else
          (case publish_fork (rt_processes rt) process of
             (t, True) \<Rightarrow> (rt\<lparr>rt_processes := t, rt_fork_starts := (rt_fork_starts rt)[pr_slot process := Some configured]\<rparr>, True)
           | (t, False) \<Rightarrow> (rt\<lparr>rt_processes := t, rt_fork_starts := (rt_fork_starts rt)[pr_slot process := None]\<rparr>, False)))"

text \<open>A \<open>bool\<close> of a callee turned into a result, \<open>EAGAIN\<close> for false.\<close>

definition or_eagain :: "'s \<times> bool \<Rightarrow> 's \<times> (SysError + unit)" where
  "or_eagain x = (fst x, if snd x then Inr () else Inl EAGAIN)"

definition fork_publish_process ::
  "LinuxProcessReservation \<Rightarrow> 's \<Rightarrow> (('w, 'p, 's, 'z) process_state_scheme, SysError, unit) effect" where
  "fork_publish_process process configured s = or_eagain (in_runtime (publish_forked_process process configured) s)"

definition fork_publish_task ::
  "('w, 'p, 's, 'task, 'att, 'ps) process_world \<Rightarrow> usize \<Rightarrow> 'task \<Rightarrow> (('w, 'p, 's, 'z) process_state_scheme, SysError, unit) effect" where
  "fork_publish_task W clear_child_tid task s = or_eagain (in_world (w_publish_fork_task W task clear_child_tid) s)"

definition fork_publish_scheduler_thread ::
  "('w, 'p, 's, 'task, 'att, 'ps) process_world \<Rightarrow> usize \<Rightarrow> (('w, 'p, 's, 'z) process_state_scheme, SysError, unit) effect" where
  "fork_publish_scheduler_thread W scheduler_thread s = or_eagain (in_world (w_publish_suspended_thread W scheduler_thread) s)"

definition fork_complete_publication :: "LinuxProcessReservation \<Rightarrow> (('w, 'p, 's, 'z) process_state_scheme, SysError, unit) effect" where
  "fork_complete_publication process s =
     or_eagain (in_runtime (\<lambda>rt. case complete_fork_publish (rt_processes rt) process of (t, b) \<Rightarrow> (rt\<lparr>rt_processes := t\<rparr>, b)) s)"

definition fork_rollback_memory ::
  "('w, 'p, 's, 'task, 'att, 'ps) process_world \<Rightarrow> Aarch64LinuxForkMemory \<Rightarrow> ('w, 'p, 's, 'z) process_state_scheme \<Rightarrow> ('w, 'p, 's, 'z) process_state_scheme" where
  "fork_rollback_memory W memory s =
     (let s = (case fm_child_tid_write memory of
                 None \<Rightarrow> s
               | Some (address, original) \<Rightarrow>
                   (case in_world (w_copy_to_process W (fm_pid memory) address (u32_ne_bytes original)) s of
                      (s, r) \<Rightarrow> assert_that AssertRestoreTid (\<not> isl r) s));
          (s, removed) = in_world (w_unregister W (fm_pid memory)) s
      in assert_that AssertUnregister removed s)"

definition fork_rollback_installed_resources ::
  "('w, 'p, 's, 'task, 'att, 'ps) process_world \<Rightarrow> LinuxProcessReservation \<Rightarrow> ('w, 'p, 's, 'z) process_state_scheme \<Rightarrow> ('w, 'p, 's, 'z) process_state_scheme" where
  "fork_rollback_installed_resources W process s =
     (case in_world (w_rollback_resources W (pr_pid process)) s of (s, released) \<Rightarrow> assert_that AssertResources released s)"

definition remove_forked_process :: "'p \<Rightarrow> LinuxProcessReservation \<Rightarrow> ('p, 's) LinuxProcessRuntime \<Rightarrow> ('p, 's) LinuxProcessRuntime \<times> bool" where
  "remove_forked_process no_pending process rt =
     (let rt = rt\<lparr>rt_fork_starts := (rt_fork_starts rt)[pr_slot process := None]\<rparr>
      in case rollback_fork (rt_processes rt) process of
           (t, True) \<Rightarrow> (clear_signal_state no_pending (pr_slot process) (rt\<lparr>rt_processes := t\<rparr>), True)
         | (t, False) \<Rightarrow>
             (case process_exit t (pr_pid process) 0 of
                (t, False) \<Rightarrow> (rt\<lparr>rt_processes := t\<rparr>, False)
              | (t, True) \<Rightarrow>
                  (case reap t (pr_parent_pid process) (pr_pid process) of
                     (t, None) \<Rightarrow> (rt\<lparr>rt_processes := t\<rparr>, False)
                   | (t, Some _) \<Rightarrow> (clear_signal_state no_pending (pr_slot process) (rt\<lparr>rt_processes := t\<rparr>), True))))"

definition fork_rollback_process ::
  "('w, 'p, 's, 'task, 'att, 'ps) process_world \<Rightarrow> LinuxProcessReservation \<Rightarrow> ('w, 'p, 's, 'z) process_state_scheme \<Rightarrow> ('w, 'p, 's, 'z) process_state_scheme" where
  "fork_rollback_process W process s =
     (case in_runtime (remove_forked_process (w_no_pending W) process) s of (s, removed) \<Rightarrow> assert_that AssertProcess removed s)"

definition fork_rollback_scheduler_thread ::
  "('w, 'p, 's, 'task, 'att, 'ps) process_world \<Rightarrow> usize \<Rightarrow> ('w, 'p, 's, 'z) process_state_scheme \<Rightarrow> ('w, 'p, 's, 'z) process_state_scheme" where
  "fork_rollback_scheduler_thread W scheduler_thread s =
     (case in_world (w_terminate_thread W scheduler_thread) s of (s, terminated) \<Rightarrow> assert_that AssertThread terminated s)"

definition aarch64_fork_ops ::
  "('w, 'p, Aarch64ProcessStart, 'task, 'att, 'ps) process_world \<Rightarrow> Aarch64LinuxForkOps
     \<Rightarrow> (('w, 'p, Aarch64ProcessStart) process_state, SysError, usize, usize, LinuxProcessCore, 'task, LinuxProcessReservation,
         ('att, 'ps) LinuxResourceClone, Aarch64LinuxForkMemory, Aarch64ProcessStart, usize) LinuxForkOwnershipOps" where
  "aarch64_fork_ops W fo =
     \<lparr>op_injected_failure = (\<lambda>_. EAGAIN),
      op_acquire_scheduler_thread = fork_acquire_scheduler_thread W,
      op_acquire_task = fork_acquire_task W,
      op_acquire_process = fork_acquire_process W (fo_child_exit_signal fo),
      op_acquire_resources = fork_acquire_resources W (fo_namespace_flags fo),
      op_acquire_memory = fork_acquire_memory W (fo_set_child_tid fo),
      op_configure_child = fork_configure_child W fo,
      op_install_resources = fork_install_resources W,
      op_begin_publication = (\<lambda>s. case in_world (w_mask_interrupts W) s of (s, state) \<Rightarrow> (s, Inr state)),
      op_publish_process = fork_publish_process,
      op_publish_task = fork_publish_task W (fo_clear_child_tid fo),
      op_publish_scheduler_thread = fork_publish_scheduler_thread W,
      op_complete_publication = fork_complete_publication,
      op_finish = (\<lambda>process _ s. (s, Inr (pr_pid process))),
      op_restore_publication = (\<lambda>publication. world_do (w_restore_interrupts W publication)),
      op_rollback_configured = (\<lambda>_ s. s),
      op_rollback_memory = fork_rollback_memory W,
      op_rollback_reserved_resources = (\<lambda>clone. world_do (resource_clone_drop W clone)),
      op_rollback_installed_resources = fork_rollback_installed_resources W,
      op_rollback_process = fork_rollback_process W,
      op_rollback_task = (\<lambda>task. world_do (w_rollback_fork_task W task)),
      op_rollback_scheduler_thread = fork_rollback_scheduler_thread W\<rparr>"

text \<open>
  The failure points are shared with the other modules, which may count them down in between; here
  they are an arbitrary function on a state of their own.
\<close>

definition run_fork_transaction ::
  "('w, 'p, Aarch64ProcessStart, 'task, 'att, 'ps) process_world \<Rightarrow> Aarch64LinuxForkOps \<Rightarrow> ('f \<Rightarrow> LinuxForkFailurePoint \<Rightarrow> 'f \<times> bool)
     \<Rightarrow> ('w, 'p, Aarch64ProcessStart) process_state \<Rightarrow> 'f \<Rightarrow> ('w, 'p, Aarch64ProcessStart) process_state \<times> (SysError + usize)" where
  "run_fork_transaction W fo fails s f =
     (case run_linux_fork_transaction (ownership_backend (aarch64_fork_ops W fo)) fails (ownership_new s) f of
        (tx, r) \<Rightarrow> (fc_ops (tx_backend tx), r))"

subsection \<open>The fork operations of RISC-V\<close>

record RiscvProcessStart =
  rstart_frame :: "u64 list"
  rstart_return_pc :: u64
  rstart_pstate :: u64
  rstart_user_sp :: u64
  rstart_root_paddr :: u64

record RiscvLinuxForkOps =
  ro_frame :: "u64 list"
  ro_return_pc :: u64
  ro_pstate :: u64
  ro_user_sp :: u64
  ro_namespace_flags :: usize
  ro_child_exit_signal :: usize
  ro_set_child_tid :: "usize option"
  ro_clear_child_tid :: usize

text \<open>The one field of the operations that changes during a fork is part of the state.\<close>

record ('w, 'p, 's) riscv_fork_state = "('w, 'p, 's) process_state" +
  rs_child_scheduler_thread :: "usize option"

definition riscv_configure_child ::
  "('w, 'p, 's, 'task, 'att, 'ps) process_world \<Rightarrow> RiscvLinuxForkOps \<Rightarrow> LinuxProcessReservation \<Rightarrow> usize \<Rightarrow> Aarch64LinuxForkMemory
     \<Rightarrow> (('w, 'p, 's) riscv_fork_state, SysError, RiscvProcessStart) effect" where
  "riscv_configure_child W ro process scheduler_thread memory s =
     (let configured = \<lparr>rstart_frame = (ro_frame ro)[8 := 0], rstart_return_pc = ro_return_pc ro, rstart_pstate = ro_pstate ro,
            rstart_user_sp = ro_user_sp ro, rstart_root_paddr = fm_root_paddr memory\<rparr>;
          (s, entered) = in_world (w_set_child_entry W scheduler_thread) s;
          (s, configured_thread) = (if entered then in_world (w_bind_thread_process W scheduler_thread (pr_pid process)) s else (s, False))
      in if \<not> configured_thread then (s, Inl EAGAIN)
         else (s\<lparr>rs_child_scheduler_thread := Some scheduler_thread\<rparr>, Inr configured))"

definition riscv_install_resources ::
  "('w, 'p, 's, 'task, 'att, 'ps) process_world \<Rightarrow> LinuxProcessReservation
     \<Rightarrow> (('w, 'p, 's) riscv_fork_state \<times> ('att, 'ps) LinuxResourceClone option, SysError, unit) effect" where
  "riscv_install_resources W process x =
     (case rs_child_scheduler_thread (fst x) of
        None \<Rightarrow> (x, Inl EAGAIN)
      | Some scheduler_thread \<Rightarrow> install_taken_resources W process scheduler_thread x)"

text \<open>The other operations are the same text for both processors.\<close>

definition riscv_fork_ops ::
  "('w, 'p, RiscvProcessStart, 'task, 'att, 'ps) process_world \<Rightarrow> RiscvLinuxForkOps
     \<Rightarrow> (('w, 'p, RiscvProcessStart) riscv_fork_state, SysError, usize, usize, LinuxProcessCore, 'task, LinuxProcessReservation,
         ('att, 'ps) LinuxResourceClone, Aarch64LinuxForkMemory, RiscvProcessStart, usize) LinuxForkOwnershipOps" where
  "riscv_fork_ops W ro =
     \<lparr>op_injected_failure = (\<lambda>_. EAGAIN),
      op_acquire_scheduler_thread = fork_acquire_scheduler_thread W,
      op_acquire_task = fork_acquire_task W,
      op_acquire_process = fork_acquire_process W (ro_child_exit_signal ro),
      op_acquire_resources = fork_acquire_resources W (ro_namespace_flags ro),
      op_acquire_memory = fork_acquire_memory W (ro_set_child_tid ro),
      op_configure_child = riscv_configure_child W ro,
      op_install_resources = riscv_install_resources W,
      op_begin_publication = (\<lambda>s. case in_world (w_mask_interrupts W) s of (s, state) \<Rightarrow> (s, Inr state)),
      op_publish_process = fork_publish_process,
      op_publish_task = fork_publish_task W (ro_clear_child_tid ro),
      op_publish_scheduler_thread = fork_publish_scheduler_thread W,
      op_complete_publication = fork_complete_publication,
      op_finish = (\<lambda>process _ s. (s, Inr (pr_pid process))),
      op_restore_publication = (\<lambda>publication. world_do (w_restore_interrupts W publication)),
      op_rollback_configured = (\<lambda>_ s. s),
      op_rollback_memory = fork_rollback_memory W,
      op_rollback_reserved_resources = (\<lambda>clone. world_do (resource_clone_drop W clone)),
      op_rollback_installed_resources = fork_rollback_installed_resources W,
      op_rollback_process = fork_rollback_process W,
      op_rollback_task = (\<lambda>task. world_do (w_rollback_fork_task W task)),
      op_rollback_scheduler_thread = fork_rollback_scheduler_thread W\<rparr>"

definition run_riscv_fork_transaction ::
  "('w, 'p, RiscvProcessStart, 'task, 'att, 'ps) process_world \<Rightarrow> RiscvLinuxForkOps \<Rightarrow> ('f \<Rightarrow> LinuxForkFailurePoint \<Rightarrow> 'f \<times> bool)
     \<Rightarrow> ('w, 'p, RiscvProcessStart) process_state \<Rightarrow> 'f \<Rightarrow> ('w, 'p, RiscvProcessStart) process_state \<times> (SysError + usize)" where
  "run_riscv_fork_transaction W ro fails s f =
     (case run_linux_fork_transaction (ownership_backend (riscv_fork_ops W ro)) fails
             (ownership_new \<lparr>ps_runtime = ps_runtime s, ps_world = ps_world s, ps_failed = ps_failed s, rs_child_scheduler_thread = None\<rparr>) f of
        (tx, r) \<Rightarrow> (process_state.truncate (fc_ops (tx_backend tx)), r))"

subsection \<open>Clients of the fork transaction\<close>

text \<open>
  What a client of the transaction keeps track of: \<open>R None\<close> holds as long as no process has been
  reserved, \<open>R (Some p)\<close> while the reservation \<open>p\<close> is there, \<open>C\<close> of the start images and \<open>F p\<close> once
  the process is published.  A fork that fails ends in \<open>R None\<close>, one that succeeds in \<open>F p\<close>.
\<close>

locale fork_client =
  fixes D :: "('o, 'e, 'out, 'st, 'par, 'task, 'proc, 'res, 'mem, 'conf, 'pub) LinuxForkOwnershipOps"
    and R :: "'proc option \<Rightarrow> 'o \<Rightarrow> bool"
    and C :: "'conf \<Rightarrow> bool"
    and F :: "'proc \<Rightarrow> 'o \<Rightarrow> bool"
    and G :: "'proc \<Rightarrow> 'out \<Rightarrow> bool"
  assumes acquire_scheduler_thread: "R q x \<Longrightarrow> R q (fst (op_acquire_scheduler_thread D x))"
    and acquire_task: "R q x \<Longrightarrow> R q (fst (op_acquire_task D st x))"
    and acquire_process: "R None x \<Longrightarrow> op_acquire_process D par st task x = (x', rp)
      \<Longrightarrow> (case rp of Inl _ \<Rightarrow> R None x' | Inr p \<Rightarrow> R (Some p) x')"
    and acquire_resources: "R q x \<Longrightarrow> R q (fst (op_acquire_resources D par x))"
    and acquire_memory: "R q x \<Longrightarrow> R q (fst (fst (op_acquire_memory D par p (x, res))))"
    and configure_child: "R q x \<Longrightarrow> op_configure_child D p st mem x = (x', rc)
      \<Longrightarrow> R q x' \<and> (case rc of Inl _ \<Rightarrow> True | Inr c \<Rightarrow> C c)"
    and install_resources: "R q x \<Longrightarrow> R q (fst (fst (op_install_resources D p (x, y))))"
    and begin_publication: "R q x \<Longrightarrow> R q (fst (op_begin_publication D x))"
    and publish_process: "R (Some p) x \<Longrightarrow> C c \<Longrightarrow> R (Some p) (fst (op_publish_process D p c x))"
    and publish_task: "R q x \<Longrightarrow> R q (fst (op_publish_task D task x))"
    and publish_scheduler_thread: "R q x \<Longrightarrow> R q (fst (op_publish_scheduler_thread D st x))"
    and complete_publication: "R (Some p) x \<Longrightarrow> op_complete_publication D p x = (x', ru)
      \<Longrightarrow> (case ru of Inl _ \<Rightarrow> R (Some p) x' | Inr _ \<Rightarrow> F p x')"
    and published: "F p x \<Longrightarrow> R (Some p) x"
    and finish: "F p x \<Longrightarrow> op_finish D p c x = (x', ro) \<Longrightarrow> F p x' \<and> (case ro of Inl _ \<Rightarrow> True | Inr out \<Rightarrow> G p out)"
    and restore_publication: "R q x \<Longrightarrow> R q (op_restore_publication D pub x)" "F p x \<Longrightarrow> F p (op_restore_publication D pub x)"
    and rollback_configured: "R q x \<Longrightarrow> R q (op_rollback_configured D c x)"
    and rollback_memory: "R q x \<Longrightarrow> R q (op_rollback_memory D mem x)"
    and rollback_reserved_resources: "R q x \<Longrightarrow> R q (op_rollback_reserved_resources D res x)"
    and rollback_installed_resources: "R q x \<Longrightarrow> R q (op_rollback_installed_resources D p x)"
    and rollback_process: "R (Some p) x \<Longrightarrow> R None (op_rollback_process D p x)"
    and rollback_task: "R q x \<Longrightarrow> R q (op_rollback_task D task x)"
    and rollback_scheduler_thread: "R q x \<Longrightarrow> R q (op_rollback_scheduler_thread D st x)"

definition client_keeps where
  "client_keeps R C (k :: nat) core =
     (R (fc_process core) (fc_ops core) \<and> pred_option C (fc_configured core) \<and> (k < 3 \<longrightarrow> fc_process core = None))"

definition client_has where
  "client_has F (k :: nat) core = (core_has k core \<and> (9 \<le> k \<longrightarrow> pred_option (\<lambda>p. F p (fc_ops core)) (fc_process core)))"

lemma owned_cases:
  assumes "owned failure x k core = (core', r)"
  obtains "core' = core" "isl r" | v where "x = Some v" "k v core = (core', r)"
  using assms by (cases x) (auto simp: owned_def)

lemma with_ops_cases:
  assumes "with_ops call store core = (core', r)"
  obtains ops e where "call (fc_ops core) = (ops, Inl e)" "core' = core\<lparr>fc_ops := ops\<rparr>" "isl r"
  | ops v where "call (fc_ops core) = (ops, Inr v)" "core' = store v (core\<lparr>fc_ops := ops\<rparr>)"
  using assms by (auto simp: with_ops_def split: prod.splits sum.splits)

context fork_client
begin

lemma keeps_mono: "client_keeps R C k core \<Longrightarrow> k \<le> j \<Longrightarrow> client_keeps R C j core"
  by (auto simp: client_keeps_def)

lemma keeps_ops: "client_keeps R C k core \<Longrightarrow> k \<le> j \<Longrightarrow> R (fc_process core) x \<Longrightarrow> client_keeps R C j (core\<lparr>fc_ops := x\<rparr>)"
  by (auto simp: client_keeps_def)

lemma keeps_owned:
  assumes "owned failure x h core = (core', r)" "client_keeps R C k core" "k \<le> j"
    "\<And>v. x = Some v \<Longrightarrow> h v core = (core', r) \<Longrightarrow> client_keeps R C j core'"
  shows "client_keeps R C j core'"
  using assms(1) by (cases rule: owned_cases) (use assms keeps_mono in auto)

lemma keeps_with_ops:
  assumes "with_ops call store core = (core', r)" "client_keeps R C k core" "k \<le> j"
    "R (fc_process core) (fst (call (fc_ops core)))"
    "\<And>v c. client_keeps R C j c \<Longrightarrow> client_keeps R C j (store v c)"
  shows "client_keeps R C j core'"
  using assms(1)
proof (cases rule: with_ops_cases)
  case (1 ops e)
  then show ?thesis using keeps_ops [OF assms(2,3), of ops] assms(4) by simp
next
  case (2 ops v)
  then show ?thesis using assms(5) [OF keeps_ops [OF assms(2,3), of ops]] assms(4) by simp
qed

lemma keeps_R: "client_keeps R C k core \<Longrightarrow> R (fc_process core) (fc_ops core)"
  by (simp add: client_keeps_def)

lemma keeps_acquire_scheduler_thread:
  "client_keeps R C 0 core \<Longrightarrow> fc_acquire_scheduler_thread D core = (core', r) \<Longrightarrow> client_keeps R C 1 core'"
  unfolding fc_acquire_scheduler_thread_def
  by (erule (1) keeps_with_ops) (auto intro!: acquire_scheduler_thread keeps_R simp: client_keeps_def)

lemma keeps_acquire_task:
  "client_keeps R C 1 core \<Longrightarrow> fc_acquire_task D core = (core', r) \<Longrightarrow> client_keeps R C 2 core'"
  unfolding fc_acquire_task_def
  by (erule (1) keeps_owned, simp, erule (1) keeps_with_ops)
    (auto intro!: acquire_task simp: client_keeps_def split: prod.splits)

lemma keeps_acquire_resources:
  "client_keeps R C 3 core \<Longrightarrow> fc_acquire_resources D core = (core', r) \<Longrightarrow> client_keeps R C 4 core'"
  unfolding fc_acquire_resources_def
  by (erule (1) keeps_owned, simp, erule (1) keeps_with_ops)
    (auto intro!: acquire_resources simp: client_keeps_def)

lemma keeps_begin_publication:
  "client_keeps R C 7 core \<Longrightarrow> fc_begin_publication D core = (core', r) \<Longrightarrow> client_keeps R C 8 core'"
  unfolding fc_begin_publication_def
  by (cases "fc_publication core", simp, erule (1) keeps_with_ops)
    (auto intro!: begin_publication simp: client_keeps_def)

lemma keeps_publish_task:
  "client_keeps R C 8 core \<Longrightarrow> fc_publish_task D core = (core', r) \<Longrightarrow> client_keeps R C 8 core'"
  unfolding fc_publish_task_def
  by (erule (1) keeps_owned, simp, erule (1) keeps_with_ops)
    (auto intro!: publish_task simp: client_keeps_def)

lemma keeps_publish_scheduler_thread:
  "client_keeps R C 8 core \<Longrightarrow> fc_publish_scheduler_thread D core = (core', r) \<Longrightarrow> client_keeps R C 8 core'"
  unfolding fc_publish_scheduler_thread_def
  by (erule (1) keeps_owned, simp, erule (1) keeps_with_ops)
    (auto intro!: publish_scheduler_thread simp: client_keeps_def)

end

context fork_client
begin

lemma keeps_acquire_process:
  assumes "client_keeps R C 2 core" "fc_acquire_process D core = (core', r)"
  shows "client_keeps R C 3 core'"
proof -
  have n: "fc_process core = None" "R None (fc_ops core)" "pred_option C (fc_configured core)"
    using assms(1) by (auto simp: client_keeps_def)
  have "with_ops (op_acquire_process D par st task) (\<lambda>v core. core\<lparr>fc_process := Some v\<rparr>) core = (core', r)
      \<Longrightarrow> client_keeps R C 3 core'" for par st task
    by (erule with_ops_cases) (use acquire_process [OF n(2), of par st task] n in \<open>auto simp: client_keeps_def\<close>)
  then show ?thesis using assms(2) unfolding fc_acquire_process_def
    by (elim keeps_owned [OF _ assms(1)]) simp_all
qed

lemma keeps_acquire_memory:
  assumes "client_keeps R C 4 core" "fc_acquire_memory D core = (core', r)"
  shows "client_keeps R C 5 core'"
proof -
  have "(case op_acquire_memory D par p (fc_ops core, res) of
          ((ops, res), Inl e) \<Rightarrow> (core\<lparr>fc_ops := ops, fc_resources := Some res\<rparr>, Inl e)
        | ((ops, res), Inr v) \<Rightarrow> (core\<lparr>fc_ops := ops, fc_resources := Some res, fc_memory := Some v\<rparr>, Inr ())) = (core', r)
      \<Longrightarrow> client_keeps R C 5 core'" for par p res
    using acquire_memory [OF keeps_R [OF assms(1)], of par p res] assms(1)
    by (auto simp: client_keeps_def split: prod.splits sum.splits)
  then show ?thesis using assms(2) unfolding fc_acquire_memory_def
    by (elim keeps_owned [OF _ assms(1)]) simp_all
qed

lemma keeps_configure_child:
  assumes "client_keeps R C 5 core" "fc_configure_child D core = (core', r)"
  shows "client_keeps R C 6 core'"
proof -
  have "with_ops (op_configure_child D p st mem) (\<lambda>v core. core\<lparr>fc_configured := Some v\<rparr>) core = (core', r)
      \<Longrightarrow> client_keeps R C 6 core'" for p st mem
    by (erule with_ops_cases) (use configure_child [OF keeps_R [OF assms(1)], of p st mem] assms(1) in \<open>auto simp: client_keeps_def\<close>)
  then show ?thesis using assms(2) unfolding fc_configure_child_def
    by (elim keeps_owned [OF _ assms(1)]) simp_all
qed

lemma keeps_install_resources:
  assumes "client_keeps R C 6 core" "fc_install_resources D core = (core', r)"
  shows "client_keeps R C 7 core'"
proof -
  have "(case op_install_resources D p (fc_ops core, fc_resources core) of
          ((ops, res), Inl e) \<Rightarrow> (core\<lparr>fc_ops := ops, fc_resources := res\<rparr>, Inl e)
        | ((ops, res), Inr _) \<Rightarrow> (core\<lparr>fc_ops := ops, fc_resources := res, fc_resources_installed := True\<rparr>, Inr ())) = (core', r)
      \<Longrightarrow> client_keeps R C 7 core'" for p
    using install_resources [OF keeps_R [OF assms(1)], of p "fc_resources core"] assms(1)
    by (auto simp: client_keeps_def split: prod.splits sum.splits)
  then show ?thesis using assms(2) unfolding fc_install_resources_def
    by (elim keeps_owned [OF _ assms(1)]) simp_all
qed

lemma keeps_publish_process:
  assumes "client_keeps R C 8 core" "fc_publish_process D core = (core', r)"
  shows "client_keeps R C 8 core'"
proof -
  have "with_ops (op_publish_process D p c) (\<lambda>_ core. core) core = (core', r) \<Longrightarrow> fc_process core = Some p
      \<Longrightarrow> fc_configured core = Some c \<Longrightarrow> client_keeps R C 8 core'" for p c
    by (erule with_ops_cases) (use publish_process [of p "fc_ops core" c] assms(1) in \<open>auto simp: client_keeps_def\<close>)
  then show ?thesis using assms(2) unfolding fc_publish_process_def
    by (elim keeps_owned [OF _ assms(1)]) simp_all
qed

lemma keeps_complete_publication:
  assumes "client_keeps R C 8 core" "fc_complete_publication D core = (core', r)"
  shows "client_keeps R C 9 core'" "\<not> isl r \<Longrightarrow> pred_option (\<lambda>p. F p (fc_ops core')) (fc_process core')"
proof -
  have a: "client_keeps R C 9 core' \<and> (\<not> isl r \<longrightarrow> pred_option (\<lambda>p. F p (fc_ops core')) (fc_process core'))"
    if "with_ops (op_complete_publication D p) (\<lambda>_ core. core) core = (core', r)" "fc_process core = Some p" for p
    using that(1)
    by (rule with_ops_cases) (use complete_publication [of p "fc_ops core"] that(2) assms(1) published [of p]
      in \<open>auto simp: client_keeps_def\<close>)
  have "owned (op_injected_failure D) (fc_process core) (\<lambda>p. with_ops (op_complete_publication D p) (\<lambda>_ core. core)) core = (core', r)"
    using assms(2) by (simp add: fc_complete_publication_def)
  then have "client_keeps R C 9 core' \<and> (\<not> isl r \<longrightarrow> pred_option (\<lambda>p. F p (fc_ops core')) (fc_process core'))"
    by (rule owned_cases) (use a keeps_mono [OF assms(1), of 9] in auto)
  then show "client_keeps R C 9 core'" "\<not> isl r \<Longrightarrow> pred_option (\<lambda>p. F p (fc_ops core')) (fc_process core')" by simp_all
qed

lemma client_stage:
  assumes "(k, operation, j) \<in> set (stage_ops (ownership_backend D))" "client_keeps R C k core" "client_has F k core"
    "operation core = (core', r)"
  shows "client_keeps R C j core' \<and> (\<not> isl r \<longrightarrow> client_has F j core')"
proof -
  have h: "\<not> isl r \<Longrightarrow> core_has j core'" using stage_ops_has [OF assms(1)] assms(3,4) by (cases r) (auto simp: client_has_def)
  have "client_keeps R C j core' \<and> (9 \<le> j \<longrightarrow> \<not> isl r \<longrightarrow> pred_option (\<lambda>p. F p (fc_ops core')) (fc_process core'))"
    using assms(1,2,4) unfolding stage_ops_def ownership_backend_simps
    by (auto simp del: One_nat_def dest: keeps_acquire_scheduler_thread keeps_acquire_task keeps_acquire_process
      keeps_acquire_resources keeps_acquire_memory keeps_configure_child keeps_install_resources keeps_begin_publication
      keeps_publish_process keeps_publish_task keeps_publish_scheduler_thread keeps_complete_publication)
  then show ?thesis using h by (auto simp: client_has_def)
qed

end

sublocale fork_client \<subseteq> client: fork_stage_law "ownership_backend D" "client_keeps R C" "client_has F"
  by (unfold_locales, rule client_stage)

context fork_client
begin

lemma restore_publication_R:
  "R (fc_process core) (fc_ops core) \<Longrightarrow> R (fc_process (Linux_Fork.restore_publication D core)) (fc_ops (Linux_Fork.restore_publication D core))"
  "fc_process (Linux_Fork.restore_publication D core) = fc_process core"
  by (auto simp: Linux_Fork.restore_publication_def restore_publication split: option.split)

lemma rollback_R:
  assumes "R (fc_process core) (fc_ops core)"
  shows "R (fc_process (fc_rollback D stage core)) (fc_ops (fc_rollback D stage core))"
    and "fc_process (fc_rollback D stage core) = (if stage = Process then None else fc_process core)"
proof -
  show "R (fc_process (fc_rollback D stage core)) (fc_ops (fc_rollback D stage core))"
    using assms rollback_process
    by (cases stage) (auto simp: fc_rollback_def Let_def split: option.split intro!: restore_publication_R rollback_reserved_resources
      rollback_installed_resources rollback_configured rollback_memory rollback_task rollback_scheduler_thread)
  show "fc_process (fc_rollback D stage core) = (if stage = Process then None else fc_process core)"
    by (cases stage) (auto simp: fc_rollback_def Let_def restore_publication_R(2) split: option.split)
qed

lemma rollback_fold_R:
  assumes "R (fc_process core) (fc_ops core)"
  shows "R (fc_process (fold (fc_rollback D) stages core)) (fc_ops (fold (fc_rollback D) stages core))
    \<and> fc_process (fold (fc_rollback D) stages core) = (if Process \<in> set stages then None else fc_process core)"
  using assms
proof (induction stages arbitrary: core)
  case (Cons stage stages)
  then show ?case using Cons.IH [of "fc_rollback D stage core"] rollback_R [of core stage] by auto
qed simp

lemma drop_R:
  assumes "tx_inv (client_keeps R C) k tx"
  shows "R None (fc_ops (tx_backend (tx_drop (ownership_backend D) tx)))"
proof -
  let ?c = "tx_backend tx"
  have "client_keeps R C k ?c" using assms by (simp add: tx_inv_def)
  then have "R (fc_process ?c) (fc_ops ?c)" "k < 3 \<Longrightarrow> fc_process ?c = None" by (auto simp: client_keeps_def)
  moreover have "Process \<in> set (rev (take (min k 6) ORDER))" if "\<not> k < 3"
  proof -
    have "set (take 3 ORDER) \<subseteq> set (take (min k 6) ORDER)" by (rule set_take_subset_set_take) (use that in simp)
    moreover have "Process \<in> set (take 3 ORDER)" by (simp add: ORDER_def)
    ultimately show ?thesis by auto
  qed
  ultimately have "R None (fc_ops (fold (fc_rollback D) (rev (take (min k 6) ORDER)) ?c))"
    using rollback_fold_R [of ?c "rev (take (min k 6) ORDER)"] by (cases "k < 3") (auto split: if_splits)
  then show ?thesis using tx_drop_backend [OF assms, of "ownership_backend D"] by simp
qed

lemma finish_F:
  assumes "client_has F 9 core" "fc_finish D core = (core', r)"
  obtains e where "r = Inl e" "fc_process core' = fc_process core" "fc_configured core' = fc_configured core"
    "R (fc_process core') (fc_ops core')"
  | p out where "r = Inr out" "F p (fc_ops core')" "G p out"
proof -
  obtain p c where p: "fc_process core = Some p" "fc_configured core = Some c" "F p (fc_ops core)"
    using assms(1) by (auto simp: client_has_def core_has_def)
  obtain x v where f: "op_finish D p c (fc_ops core) = (x, v)" by fastforce
  have F: "F p x \<and> (case v of Inl _ \<Rightarrow> True | Inr out \<Rightarrow> G p out)" using finish [OF p(3) f] .
  show ?thesis
  proof (cases v)
    case (Inl e)
    then show ?thesis using assms(2) p f F published that(1) [of e] by (auto simp: fc_finish_def owned_def)
  next
    case (Inr out)
    have "F p (fc_ops (Linux_Fork.restore_publication D (core\<lparr>fc_ops := x\<rparr>)))"
      using F restore_publication(2) by (auto simp: Linux_Fork.restore_publication_def split: option.split)
    then show ?thesis using Inr assms(2) p f F that(2) [of out p] by (auto simp: fc_finish_def owned_def)
  qed
qed

theorem fork_client_outcome:
  assumes "R None x" "run_linux_fork_transaction (ownership_backend D) fails (ownership_new x) f = (tx, r)"
  shows "case r of Inl _ \<Rightarrow> R None (fc_ops (tx_backend tx)) | Inr out \<Rightarrow> \<exists>p. F p (fc_ops (tx_backend tx)) \<and> G p out"
proof -
  have "client_keeps R C 0 (ownership_new x)" "client_has F 0 (ownership_new x)"
    using assms(1) by (simp_all add: client_keeps_def client_has_def core_has_def ownership_new_def)
  then show ?thesis using assms(2)
  proof (cases rule: client.run_cases)
    case (failed m tx1 e)
    then show ?thesis using drop_R by simp
  next
    case (unfinished tx1 b' e)
    from unfinished(2,3) have "R (fc_process b') (fc_ops b')" "fc_process b' = fc_process (tx_backend tx1)"
      "fc_configured b' = fc_configured (tx_backend tx1)"
      by (auto elim: finish_F)
    then have "tx_inv (client_keeps R C) 9 (tx1\<lparr>tx_backend := b'\<rparr>)" using unfinished(1) by (simp add: tx_inv_def client_keeps_def)
    then show ?thesis using unfinished drop_R by simp
  next
    case (finished tx1 out)
    then have "fc_finish D (tx_backend tx1) = (tx_backend tx, Inr out)" by simp
    with finished(2) obtain p where "F p (fc_ops (tx_backend tx))" "G p out" by (rule finish_F) auto
    then show ?thesis using finished by auto
  qed
qed

end

subsection \<open>The runtime during a fork\<close>

definition start_prepared :: "Aarch64LinuxForkOps \<Rightarrow> Aarch64ProcessStart \<Rightarrow> bool" where
  "start_prepared fo start =
     (start_frame start = (fo_frame fo)\<lparr>ef_regs := (ef_regs (fo_frame fo))[0 := 0]\<rparr> \<and> start_return_pc start = fo_return_pc fo
      \<and> start_pstate start = fo_pstate fo)"

text \<open>The entries of the live processes of \<open>rt\<close> are the same in \<open>rt'\<close>, with their signal states and start images.\<close>

definition live_kept :: "('p, 's) LinuxProcessRuntime \<Rightarrow> ('p, 's) LinuxProcessRuntime \<Rightarrow> bool" where
  "live_kept rt rt' =
     (length (rt_signal_states rt') = length (rt_signal_states rt) \<and> length (rt_fork_starts rt') = length (rt_fork_starts rt)
      \<and> (\<forall>i < length (pt_processes (rt_processes rt)). is_live (pt_processes (rt_processes rt) ! i) \<longrightarrow>
           rt_signal_states rt' ! i = rt_signal_states rt ! i \<and> rt_fork_starts rt' ! i = rt_fork_starts rt ! i))"

text \<open>The entry that a fork has made at a slot that was empty in \<open>rt\<close>.\<close>

definition forked_child ::
  "'p \<Rightarrow> usize \<Rightarrow> ('p, 's) LinuxProcessRuntime \<Rightarrow> LinuxProcessReservation \<Rightarrow> ('p, 's) LinuxProcessRuntime \<Rightarrow> bool" where
  "forked_child no_pending sig rt p rt' =
     (let child = pt_processes (rt_processes rt') ! pr_slot p
      in pr_slot p < length (pt_processes (rt_processes rt)) \<and> \<not> is_live (pt_processes (rt_processes rt) ! pr_slot p)
       \<and> pc_pid child = pr_pid p \<and> pc_parent_pid child = pr_parent_pid p \<and> pc_exit_signal child = sig
       \<and> (\<exists>i. running_at (rt_processes rt) (pr_parent_pid p) = Some i
            \<and> pc_process_group child = pc_process_group (pt_processes (rt_processes rt) ! i)
            \<and> rt_signal_states rt' ! pr_slot p = signal_state_fork_child (rt_signal_states rt ! i) no_pending))"

definition child_state :: "('s \<Rightarrow> bool) \<Rightarrow> LinuxProcessReservation \<Rightarrow> ('p, 's) LinuxProcessRuntime \<Rightarrow> bool" where
  "child_state C p rt =
     (pc_state (pt_processes (rt_processes rt) ! pr_slot p) = PReserved
      \<or> pc_state (pt_processes (rt_processes rt) ! pr_slot p) \<in> {PPublishing, PRunning}
        \<and> pred_option C (rt_fork_starts rt ! pr_slot p) \<and> rt_fork_starts rt ! pr_slot p \<noteq> None)"

definition slots_with :: "('p, 's) LinuxProcessRuntime \<Rightarrow> LinuxProcessReservation option \<Rightarrow> ('p, 's) LinuxProcessRuntime \<Rightarrow> bool" where
  "slots_with rt q rt' =
     (process_slots (pt_processes (rt_processes rt')) =
        (case q of
           None \<Rightarrow> process_slots (pt_processes (rt_processes rt))
         | Some p \<Rightarrow> (process_slots (pt_processes (rt_processes rt)))[pr_slot p := Some (pt_processes (rt_processes rt') ! pr_slot p)])
      \<and> pt_launch_reaper (rt_processes rt') = pt_launch_reaper (rt_processes rt))"

definition runtime_ok :: "('p, 's) LinuxProcessRuntime \<Rightarrow> bool" where
  "runtime_ok rt =
     (process_ok (rt_processes rt) \<and> length (rt_signal_states rt) = length (pt_processes (rt_processes rt))
      \<and> length (rt_fork_starts rt) = length (pt_processes (rt_processes rt)))"

definition fork_keeps ::
  "'p \<Rightarrow> usize \<Rightarrow> ('s \<Rightarrow> bool) \<Rightarrow> ('p, 's) LinuxProcessRuntime \<Rightarrow> LinuxProcessReservation option \<Rightarrow> ('w, 'p, 's, 'z) process_state_scheme \<Rightarrow> bool" where
  "fork_keeps no_pending sig C rt q s =
     (runtime_ok (ps_runtime s) \<and> live_kept rt (ps_runtime s) \<and> slots_with rt q (ps_runtime s) \<and> AssertProcess \<notin> set (ps_failed s)
      \<and> pred_option (\<lambda>p. forked_child no_pending sig rt p (ps_runtime s) \<and> child_state C p (ps_runtime s)) q)"

definition fork_done ::
  "'p \<Rightarrow> usize \<Rightarrow> ('s \<Rightarrow> bool) \<Rightarrow> ('p, 's) LinuxProcessRuntime \<Rightarrow> LinuxProcessReservation \<Rightarrow> ('w, 'p, 's, 'z) process_state_scheme \<Rightarrow> bool" where
  "fork_done no_pending sig C rt p s =
     (fork_keeps no_pending sig C rt (Some p) s \<and> pc_state (pt_processes (rt_processes (ps_runtime s)) ! pr_slot p) = PRunning)"

lemma fork_keeps_world:
  assumes "fork_keeps no_pending sig C rt q s" "ps_runtime s' = ps_runtime s" "AssertProcess \<in> set (ps_failed s') \<Longrightarrow> AssertProcess \<in> set (ps_failed s)"
  shows "fork_keeps no_pending sig C rt q s'"
  using assms by (auto simp: fork_keeps_def)



lemma world_do_fields [simp]:
  "ps_runtime (world_do call s) = ps_runtime s" "ps_failed (world_do call s) = ps_failed s"
  by (simp_all add: world_do_def)

lemma assert_that_fields [simp]:
  "ps_runtime (assert_that a b s) = ps_runtime s"
  "AssertProcess \<in> set (ps_failed (assert_that a b s)) \<longleftrightarrow> AssertProcess \<in> set (ps_failed s) \<or> a = AssertProcess \<and> \<not> b"
  by (auto simp: assert_that_def)

lemmas world_frame = in_world_def world_do_def assert_that_def or_eagain_def

text \<open>The operations that leave the runtime alone.\<close>

lemma fork_world_ops:
  assumes "fork_keeps no_pending sig C rt q s"
  shows "fork_keeps no_pending sig C rt q (fst (fork_acquire_scheduler_thread W s))"
    "fork_keeps no_pending sig C rt q (fst (fork_acquire_task W st s))"
    "fork_keeps no_pending sig C rt q (fst (fork_acquire_resources W flags par s))"
    "fork_keeps no_pending sig C rt q (fst (fst (fork_acquire_memory W tid par p (s, res))))"
    "fork_keeps no_pending sig C rt q (fst (fork_configure_child W fo p st mem s))"
    "fork_keeps no_pending sig C rt q (fst (fst (fork_install_resources W p (s, y))))"
    "fork_keeps no_pending sig C rt q (fst (fork_publish_task W clear task s))"
    "fork_keeps no_pending sig C rt q (fst (fork_publish_scheduler_thread W st s))"
    "fork_keeps no_pending sig C rt q (fork_rollback_memory W mem s)"
    "fork_keeps no_pending sig C rt q (fork_rollback_installed_resources W p s)"
    "fork_keeps no_pending sig C rt q (fork_rollback_scheduler_thread W st s)"
    "fork_keeps no_pending sig C rt q (world_do call s)"
  by (rule fork_keeps_world [OF assms];
      auto simp: fork_acquire_scheduler_thread_def fork_acquire_task_def fork_acquire_resources_def fork_acquire_memory_def
        fork_configure_child_def fork_install_resources_def install_taken_resources_def fork_publish_task_def fork_publish_scheduler_thread_def
        fork_rollback_memory_def fork_rollback_installed_resources_def fork_rollback_scheduler_thread_def world_frame Let_def
        split: prod.splits sum.splits option.splits if_splits)+

lemma configure_prepared:
  "fork_configure_child W fo p st mem s = (s', Inr c) \<Longrightarrow> start_prepared fo c"
  by (auto simp: fork_configure_child_def start_prepared_def prepare_linux_fork_context_def Let_def split: prod.splits if_splits)

lemma position_process_slots:
  assumes "process_slots ps = process_slots qs" "\<And>p. P p \<Longrightarrow> is_live p"
  shows "position P ps = position P qs"
proof -
  have "position P xs = position (\<lambda>slot. pred_option P slot \<and> slot \<noteq> None) (process_slots xs)" for xs
  proof -
    have "P = (\<lambda>p. pred_option P (if is_live p then Some p else None) \<and> (if is_live p then Some p else None) \<noteq> None)"
      by (rule ext) (use assms(2) in auto)
    then show ?thesis unfolding process_slots_def position_map by (rule arg_cong [where f = "\<lambda>q. position q xs"])
  qed
  then show ?thesis using assms(1) by simp
qed

lemma running_at_slots: "process_slots (pt_processes t) = process_slots (pt_processes u) \<Longrightarrow> running_at t pid = running_at u pid"
  unfolding running_at_def by (rule position_process_slots) (auto simp: is_live_def)

lemma process_slots_live:
  assumes "process_slots ps = process_slots qs" "i < length qs"
  shows "is_live (ps ! i) = is_live (qs ! i)" "is_live (qs ! i) \<Longrightarrow> ps ! i = qs ! i"
proof -
  have "length ps = length qs" using arg_cong [OF assms(1), of length] by simp
  then have "(if is_live (ps ! i) then Some (ps ! i) else None) = (if is_live (qs ! i) then Some (qs ! i) else None)"
    using arg_cong [OF assms(1), of "\<lambda>xs. xs ! i"] assms(2) by (simp add: process_slots_nth)
  then show "is_live (ps ! i) = is_live (qs ! i)" "is_live (qs ! i) \<Longrightarrow> ps ! i = qs ! i" by (auto split: if_splits)
qed

lemma reserve_form [consumes 1, case_names failed reserved]:
  assumes "process_ok t"
  obtains e where "reserve_child_with_pid t parent th pid sig = (t, Inl e)"
  | u i k child where "reserve_child_with_pid t parent th pid sig = (u, Inr \<lparr>pr_slot = i, pr_pid = pid, pr_parent_pid = parent\<rparr>)"
      "process_ok u" "pt_processes u = (pt_processes t)[i := child]" "pt_launch_reaper u = pt_launch_reaper t"
      "i < length (pt_processes t)" "\<not> is_live (pt_processes t ! i)" "running_at t parent = Some k" "pc_pid child = pid"
      "pc_parent_pid child = parent" "pc_process_group child = pc_process_group (pt_processes t ! k)" "pc_state child = PReserved"
      "pc_exit_signal child = sig"
proof (cases rule: reserve_cases [OF assms, of parent th pid sig, case_names failed reserved])
  case (failed e)
  then show thesis by (rule that(1))
next
  case (reserved u r)
  let ?f = "List.find (\<lambda>p. pc_pid p = parent \<and> pc_state p = PRunning) (pt_processes t)"
  let ?e = "position (\<lambda>p. pc_state p = PEmpty) (pt_processes t)"
  obtain k where k: "running_at t parent = Some k"
    using reserved(1) find_None [of "\<lambda>p. pc_pid p = parent \<and> pc_state p = PRunning" "pt_processes t"]
    by (cases "running_at t parent") (auto simp: reserve_child_with_pid_def running_at_def)
  then have f: "?f = Some (pt_processes t ! k)" unfolding running_at_def by (rule find_nth)
  obtain i where i: "?e = Some i" using reserved(1) f by (cases ?e) (auto simp: reserve_child_with_pid_def)
  have n: "i < length (pt_processes t)" "\<not> is_live (pt_processes t ! i)" using i by (auto simp: is_live_def dest: position_SomeD)
  have ok: "process_ok u" using reserved(2) by (simp add: advances_def)
  let ?c = "\<lparr>pc_pid = pid, pc_parent_pid = parent, pc_process_group = pc_process_group (pt_processes t ! k),
    pc_root_scheduler_thread = th, pc_state = PReserved, pc_wait_status = 0, pc_exit_signal = sig\<rparr>"
  have "reserve_child_with_pid t parent th pid sig = (u, Inr \<lparr>pr_slot = i, pr_pid = pid, pr_parent_pid = parent\<rparr>)"
    "pt_processes u = (pt_processes t)[i := ?c]" "pt_launch_reaper u = pt_launch_reaper t"
    using reserved(1) f i by (auto simp: reserve_child_with_pid_def Let_def split: if_splits)
  then show thesis using that(2) [of u i ?c k] ok n k by simp
qed

lemma reserve_forked_process_keeps:
  assumes "runtime_ok rt" "reserve_forked_process no_pending parent th pid sig rt = (rt', r)"
  shows "case r of
      Inl _ \<Rightarrow> rt' = rt
    | Inr p \<Rightarrow> runtime_ok rt' \<and> live_kept rt rt' \<and> slots_with rt (Some p) rt' \<and> forked_child no_pending sig rt p rt' \<and> child_state C p rt'"
proof -
  have ok: "process_ok (rt_processes rt)" using assms(1) by (simp add: runtime_ok_def)
  show ?thesis
  proof (cases rule: reserve_form [OF ok, of parent th pid sig, case_names failed reserved])
    case (failed e)
    then show ?thesis using assms(2) by (auto simp: reserve_forked_process_def)
  next
    case (reserved u i k child)
    let ?rt = "rt\<lparr>rt_processes := u\<rparr>"
    note k = running_atD [OF reserved(7)]
    have "i \<noteq> k" using k reserved(6) by auto
    have "running_at u parent = running_at (rt_processes rt) parent"
      unfolding running_at_def reserved(3)
      by (rule position_update) (use reserved in \<open>auto simp: is_live_def\<close>)
    then have 1: "running_slot ?rt parent = Some k" using reserved(7) by (simp add: running_slot_def)
    have 2: "position (\<lambda>p. pc_pid p = pid \<and> pc_state p = PReserved) (pt_processes u) = Some i"
      by (rule position_pid [OF reserved(2)]) (use reserved in \<open>auto simp: is_live_def\<close>)
    have r: "rt' = ?rt\<lparr>rt_signal_states := (rt_signal_states rt)[i := signal_state_fork_child (rt_signal_states rt ! k) no_pending]\<rparr>"
      "r = Inr \<lparr>pr_slot = i, pr_pid = pid, pr_parent_pid = parent\<rparr>"
      using assms(2) reserved(1) 1 2 by (auto simp: reserve_forked_process_def clone_signal_state_for_fork_def)
    show ?thesis unfolding r
      using reserved assms(1)
      by (auto simp: runtime_ok_def live_kept_def slots_with_def forked_child_def child_state_def is_live_def nth_list_update Let_def)
  qed
qed

lemma live_kept_trans:
  assumes "live_kept rt rt1" "slots_with rt None rt1" "live_kept rt1 rt2"
  shows "live_kept rt rt2"
proof -
  have s: "process_slots (pt_processes (rt_processes rt1)) = process_slots (pt_processes (rt_processes rt))"
    using assms(2) by (simp add: slots_with_def)
  have "length (pt_processes (rt_processes rt1)) = length (pt_processes (rt_processes rt))"
    using arg_cong [OF s, of length] by simp
  then show ?thesis using assms(1,3) process_slots_live(1) [OF s] by (auto simp: live_kept_def)
qed

lemma forked_child_trans:
  assumes "live_kept rt rt1" "slots_with rt None rt1" "forked_child no_pending sig rt1 p rt2"
  shows "forked_child no_pending sig rt p rt2"
proof -
  have s: "process_slots (pt_processes (rt_processes rt1)) = process_slots (pt_processes (rt_processes rt))"
    using assms(2) by (simp add: slots_with_def)
  have l: "length (pt_processes (rt_processes rt1)) = length (pt_processes (rt_processes rt))"
    using arg_cong [OF s, of length] by simp
  obtain i where i: "running_at (rt_processes rt1) (pr_parent_pid p) = Some i"
    "pc_process_group (pt_processes (rt_processes rt2) ! pr_slot p) = pc_process_group (pt_processes (rt_processes rt1) ! i)"
    "rt_signal_states rt2 ! pr_slot p = signal_state_fork_child (rt_signal_states rt1 ! i) no_pending"
    using assms(3) by (auto simp: forked_child_def Let_def)
  have r: "running_at (rt_processes rt) (pr_parent_pid p) = Some i" using i(1) running_at_slots [OF s] by simp
  note k = running_atD [OF r]
  have "pt_processes (rt_processes rt1) ! i = pt_processes (rt_processes rt) ! i" using process_slots_live(2) [OF s] k by simp
  moreover have "rt_signal_states rt1 ! i = rt_signal_states rt ! i" using assms(1) k by (simp add: live_kept_def)
  ultimately show ?thesis using assms(3) i r l process_slots_live(1) [OF s, of "pr_slot p"] by (auto simp: forked_child_def Let_def)
qed

lemma acquire_process_keeps:
  assumes "fork_keeps no_pending sig C rt None s" "w_no_pending W = no_pending" "fork_acquire_process W sig par st task s = (s', r)"
  shows "case r of Inl _ \<Rightarrow> fork_keeps no_pending sig C rt None s' | Inr p \<Rightarrow> fork_keeps no_pending sig C rt (Some p) s'"
proof -
  have k: "runtime_ok (ps_runtime s)" "live_kept rt (ps_runtime s)" "slots_with rt None (ps_runtime s)" "AssertProcess \<notin> set (ps_failed s)"
    using assms(1) by (simp_all add: fork_keeps_def)
  obtain rt' where c: "reserve_forked_process no_pending (pc_pid par) st (w_task_tid W task) sig (ps_runtime s) = (rt', r)"
    "s' = s\<lparr>ps_runtime := rt'\<rparr>"
    using assms(2,3) by (auto simp: fork_acquire_process_def in_runtime_def split: prod.splits)
  note d = reserve_forked_process_keeps [OF k(1) c(1)]
  show ?thesis
  proof (cases r)
    case (Inl e)
    then show ?thesis using d assms(1) c(2) by simp
  next
    case (Inr p)
    then have p: "runtime_ok rt'" "live_kept (ps_runtime s) rt'" "slots_with (ps_runtime s) (Some p) rt'"
      "forked_child no_pending sig (ps_runtime s) p rt'" "child_state C p rt'" using d by simp_all
    have "slots_with rt (Some p) rt'" using p(3) k(3) by (simp add: slots_with_def)
    then show ?thesis
      using Inr c(2) k(4) p live_kept_trans [OF k(2,3) p(2)] forked_child_trans [OF k(2,3) p(4)] by (simp add: fork_keeps_def)
  qed
qed

text \<open>An update of the slot of the child.\<close>

lemma fork_keeps_put:
  assumes "fork_keeps no_pending sig C rt (Some p) s" "rt1 = ps_runtime s" "c = pt_processes (rt_processes rt1) ! pr_slot p"
    "s' = s\<lparr>ps_runtime := rt1\<lparr>rt_processes := put_process (rt_processes rt1) (pr_slot p) (c\<lparr>pc_state := st\<rparr>), rt_fork_starts := starts\<rparr>\<rparr>"
    "st \<noteq> PEmpty" "starts = (rt_fork_starts rt1)[pr_slot p := start]" "st = PReserved \<or> start \<noteq> None \<and> pred_option C start"
    "st \<in> {PReserved, PPublishing, PRunning}"
  shows "fork_keeps no_pending sig C rt (Some p) s'"
proof -
  have k: "runtime_ok rt1" "live_kept rt rt1" "slots_with rt (Some p) rt1" "forked_child no_pending sig rt p rt1" "child_state C p rt1"
    using assms(1,2) by (simp_all add: fork_keeps_def)
  have sl: "process_slots (pt_processes (rt_processes rt1)) = (process_slots (pt_processes (rt_processes rt)))[pr_slot p := Some c]"
    using k(3) assms(3) by (simp add: slots_with_def)
  have l: "length (pt_processes (rt_processes rt1)) = length (pt_processes (rt_processes rt))" using arg_cong [OF sl, of length] by simp
  have i: "pr_slot p < length (pt_processes (rt_processes rt1))" "\<not> is_live (pt_processes (rt_processes rt) ! pr_slot p)" "is_live c"
    using k(4,5) l assms(3) by (auto simp: forked_child_def child_state_def is_live_def Let_def)
  have "process_ok (put_process (rt_processes rt1) (pr_slot p) (c\<lparr>pc_state := st\<rparr>))"
    using k(1) i assms(3,5) by (intro process_ok_put) (auto simp: runtime_ok_def is_live_def)
  then show ?thesis using assms k i l sl
    by (auto simp: fork_keeps_def runtime_ok_def live_kept_def slots_with_def forked_child_def child_state_def is_live_def Let_def nth_list_update)
qed

lemma publish_process_keeps:
  assumes "fork_keeps no_pending sig C rt (Some p) s" "C c"
  shows "fork_keeps no_pending sig C rt (Some p) (fst (fork_publish_process p c s))"
proof -
  let ?rt = "ps_runtime s"
  let ?t = "rt_processes ?rt"
  show ?thesis
  proof (cases "pr_slot p < length (rt_fork_starts ?rt) \<and> rt_fork_starts ?rt ! pr_slot p = None \<and> snd (publish_fork ?t p)")
    case True
    then have f: "fst (fork_publish_process p c s) = s\<lparr>ps_runtime := ?rt\<lparr>rt_processes := fst (publish_fork ?t p),
        rt_fork_starts := (rt_fork_starts ?rt)[pr_slot p := Some c]\<rparr>\<rparr>"
      by (auto simp: fork_publish_process_def or_eagain_def in_runtime_def publish_forked_process_def split: prod.split bool.split)
    have "fst (publish_fork ?t p) = put_process ?t (pr_slot p) ((pt_processes ?t ! pr_slot p)\<lparr>pc_state := PPublishing\<rparr>)"
      using True by (auto simp: publish_fork_def Let_def split: if_splits)
    then show ?thesis unfolding f
      by (intro fork_keeps_put [OF assms(1) refl refl _ _ refl, where start = "Some c" and st = PPublishing]) (use assms(2) in simp_all)
  next
    case False
    have "\<not> snd (publish_fork ?t p) \<Longrightarrow> fst (publish_fork ?t p) = ?t" by (auto simp: publish_fork_def Let_def)
    moreover have "rt_fork_starts ?rt ! pr_slot p = None \<Longrightarrow> (rt_fork_starts ?rt)[pr_slot p := None] = rt_fork_starts ?rt"
      by (metis list_update_id)
    ultimately have "ps_runtime (fst (fork_publish_process p c s)) = ?rt" "ps_failed (fst (fork_publish_process p c s)) = ps_failed s"
      using False
      by (auto simp: fork_publish_process_def or_eagain_def in_runtime_def publish_forked_process_def split: prod.split bool.split)
    then show ?thesis by (intro fork_keeps_world [OF assms(1)]) simp_all
  qed
qed

lemma complete_publication_done:
  assumes "fork_keeps no_pending sig C rt (Some p) s" "fork_complete_publication p s = (s', r)"
  shows "case r of Inl _ \<Rightarrow> fork_keeps no_pending sig C rt (Some p) s' | Inr _ \<Rightarrow> fork_done no_pending sig C rt p s'"
proof -
  let ?rt = "ps_runtime s"
  let ?t = "rt_processes ?rt"
  let ?c = "pt_processes ?t ! pr_slot p"
  show ?thesis
  proof (cases "snd (complete_fork_publish ?t p)")
    case True
    then have f: "complete_fork_publish ?t p = (put_process ?t (pr_slot p) (?c\<lparr>pc_state := PRunning\<rparr>), True)"
      "pc_state ?c = PPublishing" "pr_slot p < length (pt_processes ?t)"
      by (auto simp: complete_fork_publish_def Let_def split: if_splits)
    have start: "pred_option C (rt_fork_starts ?rt ! pr_slot p)" "rt_fork_starts ?rt ! pr_slot p \<noteq> None"
      using assms(1) f(2) by (auto simp: fork_keeps_def child_state_def)
    have s': "s' = s\<lparr>ps_runtime := ?rt\<lparr>rt_processes := put_process ?t (pr_slot p) (?c\<lparr>pc_state := PRunning\<rparr>), rt_fork_starts := rt_fork_starts ?rt\<rparr>\<rparr>"
      "r = Inr ()" using assms(2) f(1) by (auto simp: fork_complete_publication_def or_eagain_def in_runtime_def)
    have "fork_keeps no_pending sig C rt (Some p) s'" unfolding s'
      by (rule fork_keeps_put [OF assms(1) refl refl refl, where start = "rt_fork_starts ?rt ! pr_slot p"]) (use start in simp_all)
    then show ?thesis using s' f(3) by (simp add: fork_done_def)
  next
    case False
    then have "fst (complete_fork_publish ?t p) = ?t" by (auto simp: complete_fork_publish_def Let_def split: if_splits)
    then have "s' = s" "isl r" using assms(2) False
      by (auto simp: fork_complete_publication_def or_eagain_def in_runtime_def split: prod.splits)
    then show ?thesis using assms(1) by (cases r) simp_all
  qed
qed

lemma remove_forked_process_form:
  assumes "runtime_ok rt" "forked_child no_pending sig rt0 p rt" "child_state C p rt" "pr_slot p < length (pt_processes (rt_processes rt))"
  shows "remove_forked_process no_pending p rt =
    (rt\<lparr>rt_processes := put_process (rt_processes rt) (pr_slot p) EMPTY_PROCESS,
        rt_signal_states := (rt_signal_states rt)[pr_slot p := SIGNAL_STATE_EMPTY no_pending],
        rt_fork_starts := (rt_fork_starts rt)[pr_slot p := None]\<rparr>, True)"
proof -
  let ?t = "rt_processes rt"
  let ?c = "pt_processes ?t ! pr_slot p"
  have c: "pc_pid ?c = pr_pid p" "pc_parent_pid ?c = pr_parent_pid p" using assms(2) by (simp_all add: forked_child_def Let_def)
  show ?thesis
  proof (cases "pc_state ?c = PRunning")
    case True
    have ok: "process_ok ?t" using assms(1) by (simp add: runtime_ok_def)
    have "running_at ?t (pr_pid p) = Some (pr_slot p)" unfolding running_at_def
      by (rule position_pid [OF ok assms(4)]) (use True c in \<open>auto simp: is_live_def\<close>)
    note e = exit_then_reap [OF ok this, of 0]
    have "rollback_fork ?t p = (?t, False)" using True by (simp add: rollback_fork_def Let_def)
    then show ?thesis using e c by (simp add: remove_forked_process_def clear_signal_state_def Let_def)
  next
    case False
    then have "rollback_fork ?t p = (put_process ?t (pr_slot p) EMPTY_PROCESS, True)"
      using assms(3,4) c by (auto simp: child_state_def rollback_fork_def reservation_matches_def Let_def)
    then show ?thesis by (simp add: remove_forked_process_def clear_signal_state_def Let_def)
  qed
qed

lemma rollback_process_keeps:
  assumes "fork_keeps no_pending sig C rt (Some p) s" "w_no_pending W = no_pending"
  shows "fork_keeps no_pending sig C rt None (fork_rollback_process W p s)"
proof -
  let ?rt = "ps_runtime s"
  let ?t = "rt_processes ?rt"
  have k: "runtime_ok ?rt" "live_kept rt ?rt" "slots_with rt (Some p) ?rt" "forked_child no_pending sig rt p ?rt" "child_state C p ?rt"
    using assms(1) by (simp_all add: fork_keeps_def)
  have sl: "process_slots (pt_processes ?t) = (process_slots (pt_processes (rt_processes rt)))[pr_slot p := Some (pt_processes ?t ! pr_slot p)]"
    using k(3) by (simp add: slots_with_def)
  have l: "length (pt_processes ?t) = length (pt_processes (rt_processes rt))" using arg_cong [OF sl, of length] by simp
  have i: "pr_slot p < length (pt_processes (rt_processes rt))" "\<not> is_live (pt_processes (rt_processes rt) ! pr_slot p)"
    using k(4) by (auto simp: forked_child_def Let_def)
  have "process_slots (pt_processes (rt_processes rt)) ! pr_slot p = None" using i by (simp add: process_slots_nth)
  then have bk: "process_slots ((pt_processes ?t)[pr_slot p := EMPTY_PROCESS]) = process_slots (pt_processes (rt_processes rt))"
    using sl by simp (metis list_update_id)
  have "pr_slot p < length (pt_processes ?t)" using i l by simp
  note f = remove_forked_process_form [OF k(1,4,5) this]
  have "process_ok (put_process ?t (pr_slot p) EMPTY_PROCESS)" using k(1) process_ok_put_empty by (simp add: runtime_ok_def)
  then have ok: "runtime_ok (fst (remove_forked_process no_pending p ?rt))" using f k(1) by (simp add: runtime_ok_def)
  have "live_kept rt (fst (remove_forked_process no_pending p ?rt))"
    unfolding f live_kept_def using k(2) i(2)
    by (auto simp: live_kept_def nth_list_update_neq) (metis nth_list_update_neq)+
  then show ?thesis using assms f k(3) bk ok
    by (simp add: fork_rollback_process_def in_runtime_def assert_that_def fork_keeps_def slots_with_def)
qed

definition rstart_prepared :: "RiscvLinuxForkOps \<Rightarrow> RiscvProcessStart \<Rightarrow> bool" where
  "rstart_prepared ro start =
     (rstart_frame start = (ro_frame ro)[8 := 0] \<and> rstart_return_pc start = ro_return_pc ro \<and> rstart_pstate start = ro_pstate ro
      \<and> rstart_user_sp start = ro_user_sp ro)"

lemma riscv_configure_keeps:
  assumes "fork_keeps no_pending sig C rt q s" "riscv_configure_child W ro p st mem s = (s', r)"
  shows "fork_keeps no_pending sig C rt q s'" "r = Inr c \<Longrightarrow> rstart_prepared ro c"
proof -
  have "ps_runtime s' = ps_runtime s \<and> ps_failed s' = ps_failed s \<and> (r = Inr c \<longrightarrow> rstart_prepared ro c)"
    using assms(2) by (auto simp: riscv_configure_child_def in_world_def rstart_prepared_def Let_def split: prod.splits if_splits)
  then show "fork_keeps no_pending sig C rt q s'" "r = Inr c \<Longrightarrow> rstart_prepared ro c"
    using fork_keeps_world [OF assms(1), of s'] by simp_all
qed

lemma riscv_install_keeps:
  "fork_keeps no_pending sig C rt q s \<Longrightarrow> fork_keeps no_pending sig C rt q (fst (fst (riscv_install_resources W p (s, y))))"
  by (erule fork_keeps_world)
    (auto simp: riscv_install_resources_def install_taken_resources_def world_frame split: prod.splits sum.splits option.splits)

interpretation aarch64: fork_client "aarch64_fork_ops W fo"
  "fork_keeps (w_no_pending W) (fo_child_exit_signal fo) (start_prepared fo) rt" "start_prepared fo"
  "fork_done (w_no_pending W) (fo_child_exit_signal fo) (start_prepared fo) rt" "\<lambda>p pid. pid = pr_pid p" for W fo rt
proof (unfold_locales, goal_cases)
  case (3 x par st task x' rp)
  then show ?case by (intro acquire_process_keeps [OF 3(1) refl]) (simp add: aarch64_fork_ops_def)
next
  case (6 q x p st mem x' rc)
  then have c: "fork_configure_child W fo p st mem x = (x', rc)" by (simp add: aarch64_fork_ops_def)
  then show ?case using fork_world_ops(5) [OF 6(1), of W fo p st mem] configure_prepared [of W fo p st mem x x'] by (cases rc) auto
next
  case (12 p x x' ru)
  then show ?case by (intro complete_publication_done [OF 12(1)]) (simp add: aarch64_fork_ops_def)
next
  case (16 p x pub)
  then show ?case using fork_world_ops(12) by (auto simp: aarch64_fork_ops_def fork_done_def)
qed (auto simp: aarch64_fork_ops_def fork_done_def in_world_def
  intro: fork_world_ops publish_process_keeps rollback_process_keeps fork_keeps_world split: prod.splits)

interpretation riscv: fork_client "riscv_fork_ops W ro"
  "fork_keeps (w_no_pending W) (ro_child_exit_signal ro) (rstart_prepared ro) rt" "rstart_prepared ro"
  "fork_done (w_no_pending W) (ro_child_exit_signal ro) (rstart_prepared ro) rt" "\<lambda>p pid. pid = pr_pid p" for W ro rt
proof (unfold_locales, goal_cases)
  case (3 x par st task x' rp)
  then show ?case by (intro acquire_process_keeps [OF 3(1) refl]) (simp add: riscv_fork_ops_def)
next
  case (6 q x p st mem x' rc)
  then have c: "riscv_configure_child W ro p st mem x = (x', rc)" by (simp add: riscv_fork_ops_def)
  then show ?case using riscv_configure_keeps [OF 6(1) c] by (cases rc) auto
next
  case (12 p x x' ru)
  then show ?case by (intro complete_publication_done [OF 12(1)]) (simp add: riscv_fork_ops_def)
next
  case (16 p x pub)
  then show ?case using fork_world_ops(12) by (auto simp: riscv_fork_ops_def fork_done_def)
qed (auto simp: riscv_fork_ops_def fork_done_def in_world_def
  intro: fork_world_ops riscv_install_keeps publish_process_keeps rollback_process_keeps fork_keeps_world split: prod.splits)

text \<open>
  What a fork has done to the runtime: the live processes keep their signal states and start
  images and the assertion on the removal of the child held.  After a failure the table has the
  entries it had; after a success it has one more, in a slot that was empty.
\<close>

definition fork_atomic ::
  "'p \<Rightarrow> usize \<Rightarrow> ('s \<Rightarrow> bool) \<Rightarrow> ('w, 'p, 's) process_state \<Rightarrow> ('w, 'p, 's) process_state \<Rightarrow> SysError + usize \<Rightarrow> bool" where
  "fork_atomic no_pending sig C s s' r =
     (live_kept (ps_runtime s) (ps_runtime s') \<and> AssertProcess \<notin> set (ps_failed s')
      \<and> (case r of
           Inl _ \<Rightarrow> slots_with (ps_runtime s) None (ps_runtime s')
         | Inr pid \<Rightarrow>
             \<exists>p start. pr_pid p = pid \<and> slots_with (ps_runtime s) (Some p) (ps_runtime s')
               \<and> forked_child no_pending sig (ps_runtime s) p (ps_runtime s')
               \<and> pc_state (pt_processes (rt_processes (ps_runtime s')) ! pr_slot p) = PRunning
               \<and> rt_fork_starts (ps_runtime s') ! pr_slot p = Some start \<and> C start))"

lemma fork_keeps_start:
  "runtime_ok (ps_runtime s) \<Longrightarrow> AssertProcess \<notin> set (ps_failed s) \<Longrightarrow> fork_keeps no_pending sig C (ps_runtime s) None s"
  by (simp add: fork_keeps_def live_kept_def slots_with_def)

lemma fork_atomicI:
  assumes "case r of Inl _ \<Rightarrow> fork_keeps no_pending sig C (ps_runtime s) None s'
      | Inr pid \<Rightarrow> \<exists>p. fork_done no_pending sig C (ps_runtime s) p s' \<and> pid = pr_pid p"
  shows "fork_atomic no_pending sig C s s' r"
proof (cases r)
  case (Inl e)
  then show ?thesis using assms by (simp add: fork_keeps_def fork_atomic_def)
next
  case (Inr pid)
  then obtain p where p: "fork_done no_pending sig C (ps_runtime s) p s'" "pid = pr_pid p" using assms by auto
  then obtain start where "rt_fork_starts (ps_runtime s') ! pr_slot p = Some start" "C start"
    by (auto simp: fork_done_def fork_keeps_def child_state_def)
  then show ?thesis using Inr p by (auto simp: fork_done_def fork_keeps_def fork_atomic_def)
qed

lemma fork_keeps_truncate [simp]:
  "fork_keeps no_pending sig C rt q (process_state.truncate s) = fork_keeps no_pending sig C rt q s"
  "fork_done no_pending sig C rt p (process_state.truncate s) = fork_done no_pending sig C rt p s"
  by (simp_all add: fork_keeps_def fork_done_def process_state.defs)

subsection \<open>Properties\<close>

text \<open>
  C1: A fork changes the process table all or nothing on both processors, whatever the scheduler,
  the task table, the memory and the resource tables do and wherever it fails.  The live processes
  keep their entries, signal states and start images, and the assertion on the removal of the
  child holds.  A fork that fails leaves the entries of the table as they were; one that succeeds
  has put one running process into a slot that was empty, a child of a running process with its
  group, its signal actions and the prepared start image, and returns its identifier.
\<close>

theorem fork_runtime_atomic:
  assumes "runtime_ok (ps_runtime s)" "AssertProcess \<notin> set (ps_failed s)" "runtime_ok (ps_runtime t)" "AssertProcess \<notin> set (ps_failed t)"
  shows "(case run_fork_transaction W fo fails s f of
            (s', r) \<Rightarrow> fork_atomic (w_no_pending W) (fo_child_exit_signal fo) (start_prepared fo) s s' r)
    \<and> (case run_riscv_fork_transaction V ro fails t f of
            (t', r) \<Rightarrow> fork_atomic (w_no_pending V) (ro_child_exit_signal ro) (rstart_prepared ro) t t' r)"
proof
  obtain tx r where run: "run_linux_fork_transaction (ownership_backend (aarch64_fork_ops W fo)) fails (ownership_new s) f = (tx, r)"
    by fastforce
  note d = aarch64.fork_client_outcome [OF fork_keeps_start [OF assms(1,2)] run]
  show "case run_fork_transaction W fo fails s f of
      (s', r) \<Rightarrow> fork_atomic (w_no_pending W) (fo_child_exit_signal fo) (start_prepared fo) s s' r"
    using fork_atomicI [OF d] run by (simp add: run_fork_transaction_def)
next
  let ?t = "\<lparr>ps_runtime = ps_runtime t, ps_world = ps_world t, ps_failed = ps_failed t, rs_child_scheduler_thread = None\<rparr>"
  obtain tx r where run: "run_linux_fork_transaction (ownership_backend (riscv_fork_ops V ro)) fails (ownership_new ?t) f = (tx, r)"
    by fastforce
  have "runtime_ok (ps_runtime ?t)" "AssertProcess \<notin> set (ps_failed ?t)" using assms(3,4) by simp_all
  note d = riscv.fork_client_outcome [OF fork_keeps_start [OF this] run]
  have "fork_atomic (w_no_pending V) (ro_child_exit_signal ro) (rstart_prepared ro) t (process_state.truncate (fc_ops (tx_backend tx))) r"
    by (rule fork_atomicI) (use d in \<open>cases r; simp\<close>)
  then show "case run_riscv_fork_transaction V ro fails t f of
      (t', r) \<Rightarrow> fork_atomic (w_no_pending V) (ro_child_exit_signal ro) (rstart_prepared ro) t t' r"
    using run by (simp add: run_riscv_fork_transaction_def)
qed

subsection \<open>Witnesses\<close>

definition example_world :: "(nat, unit, 's, usize, unit, unit) process_world" where
  "example_world =
     \<lparr>w_no_pending = (), w_current_task = (\<lambda>_. Inr 1), w_current_thread = (\<lambda>_. 3), w_ensure_dispatch_task = (\<lambda>_ _ w. (w, Inr ())),
      w_block_current = (\<lambda>w. (w, Inr (1, 1))), w_wake_blocked = (\<lambda>_ _ w. w),
      w_wake_process_waiters = (\<lambda>_ w. w), w_queue_signal = (\<lambda>_ _ x. (x, Inr ())), w_deactivate_address_space = (\<lambda>_ w. (w, Inr ())),
      w_retire_process_tasks = (\<lambda>_ _ w. (w, Inr True)), w_terminate_process_tasks = (\<lambda>_ w. (w, True)),
      w_retire_launch_descendants = (\<lambda>_ w. w), w_record_cpu_usage = (\<lambda>_ _ w. w), w_release_resources = (\<lambda>_ w. w),
      w_unregister = (\<lambda>_ w. (w, True)), w_copy_to_process = (\<lambda>_ _ _ w. (w, Inr ())),
      w_copy_from_process = (\<lambda>_ _ n w. (w, Inr (replicate n 0))), w_create_suspended_thread = (\<lambda>w. (w + 1, Some 5)),
      w_reserve_fork_task = (\<lambda>_ w. (w, Inr 2)), w_task_tid = id, w_tid_to_user_value = (\<lambda>_. Some 2),
      w_reserve_resource_clone = (\<lambda>_ _ w. (w, Inr ([], [], ()))), w_reserve_shared_attachments = (\<lambda>_ w. (w, Inr [])),
      w_release_shared_attachments = (\<lambda>_ w. w), w_release_resource_clone = (\<lambda>_ _ w. w),
      w_install_resource_clone = (\<lambda>_ _ x. (x, True)), w_apply_priority = (\<lambda>_ _ w. (w, Inr ())),
      w_rollback_resources = (\<lambda>_ w. (w, True)), w_clone_for_fork = (\<lambda>_ _ _ w. (w, Inr 0x4000)), w_user_stack_pointer = (\<lambda>_. 0),
      w_user_tls = (\<lambda>_. 0), w_set_process_start = (\<lambda>_ _ _ _ w. (w, True)), w_set_child_entry = (\<lambda>_ w. (w, True)), w_bind_thread_process = (\<lambda>_ _ w. (w, True)),
      w_mask_interrupts = (\<lambda>w. (w, 0)), w_restore_interrupts = (\<lambda>_ w. w), w_publish_fork_task = (\<lambda>_ _ w. (w, True)),
      w_publish_suspended_thread = (\<lambda>_ w. (w, True)), w_rollback_fork_task = (\<lambda>_ w. w), w_terminate_thread = (\<lambda>_ w. (w, True))\<rparr>"

definition example_fork :: Aarch64LinuxForkOps where
  "example_fork =
     \<lparr>fo_frame = \<lparr>ef_regs = [9, 8], ef_simd = [], ef_fpcr = 0, ef_fpsr = 0\<rparr>, fo_return_pc = 0x1000, fo_pstate = 0, fo_namespace_flags = 0,
      fo_child_exit_signal = LINUX_SIGCHLD, fo_set_child_tid = None, fo_clear_child_tid = 0\<rparr>"

definition example_riscv_fork :: RiscvLinuxForkOps where
  "example_riscv_fork =
     \<lparr>ro_frame = replicate 34 7, ro_return_pc = 0x1000, ro_pstate = 0, ro_user_sp = 0x8000, ro_namespace_flags = 0,
      ro_child_exit_signal = LINUX_SIGCHLD, ro_set_child_tid = None, ro_clear_child_tid = 0\<rparr>"

definition example_state :: "(nat, unit, 's) process_state" where
  "example_state = \<lparr>ps_runtime = fst (runtime_register_root () 3 3 (runtime_new 2 ())), ps_world = 0, ps_failed = []\<rparr>"

definition example_forked ::
  "fork_failpoints \<Rightarrow> (nat, unit, Aarch64ProcessStart) process_state \<Rightarrow> (nat, unit, Aarch64ProcessStart) process_state \<times> (SysError + usize)" where
  "example_forked f s = run_fork_transaction example_world example_fork fork_failpoint s f"

definition example_riscv_forked :: "fork_failpoints \<Rightarrow> (nat, unit, RiscvProcessStart) process_state \<times> (SysError + usize)" where
  "example_riscv_forked f = run_riscv_fork_transaction example_world example_riscv_fork fork_failpoint example_state f"

lemma example_state_ok:
  "runtime_ok (ps_runtime (example_state :: (nat, unit, 's) process_state))"
  "AssertProcess \<notin> set (ps_failed (example_state :: (nat, unit, 's) process_state))"
proof -
  have "process_ok (rt_processes (ps_runtime (example_state :: (nat, unit, 's) process_state)))" by code_simp
  moreover have "length (rt_signal_states (ps_runtime (example_state :: (nat, unit, 's) process_state))) = 2" by code_simp
  moreover have "length (rt_fork_starts (ps_runtime (example_state :: (nat, unit, 's) process_state))) = 2" by code_simp
  moreover have "length (pt_processes (rt_processes (ps_runtime (example_state :: (nat, unit, 's) process_state)))) = 2" by code_simp
  ultimately show "runtime_ok (ps_runtime (example_state :: (nat, unit, 's) process_state))" by (simp add: runtime_ok_def)
  show "AssertProcess \<notin> set (ps_failed (example_state :: (nat, unit, 's) process_state))" by (simp add: example_state_def)
qed

theorem fork_runtime_atomic_witness:
  "snd (example_forked clear_fork_failure example_state) = Inr 2
   \<and> fork_atomic () LINUX_SIGCHLD (start_prepared example_fork) example_state (fst (example_forked clear_fork_failure example_state)) (Inr 2)
   \<and> snd (example_forked (configure_fork_failure FpSchedulerPublication 0) example_state) = Inl EAGAIN
   \<and> fork_atomic () LINUX_SIGCHLD (start_prepared example_fork) example_state
        (fst (example_forked (configure_fork_failure FpSchedulerPublication 0) example_state)) (Inl EAGAIN)
   \<and> snd (example_riscv_forked clear_fork_failure) = Inr 2
   \<and> fork_atomic () LINUX_SIGCHLD (rstart_prepared example_riscv_fork) example_state (fst (example_riscv_forked clear_fork_failure)) (Inr 2)"
proof -
  have a: "snd (example_forked clear_fork_failure example_state) = Inr 2" by code_simp
  have b: "snd (example_forked (configure_fork_failure FpSchedulerPublication 0) example_state) = Inl EAGAIN" by code_simp
  have c: "snd (example_riscv_forked clear_fork_failure) = Inr 2" by code_simp
  have w: "w_no_pending (example_world :: (nat, unit, 's, usize, unit, unit) process_world) = ()"
    "fo_child_exit_signal example_fork = LINUX_SIGCHLD" "ro_child_exit_signal example_riscv_fork = LINUX_SIGCHLD"
    by (simp_all add: example_fork_def example_riscv_fork_def)
  note t = fork_runtime_atomic [OF example_state_ok example_state_ok, of example_world example_fork fork_failpoint _ example_world
      example_riscv_fork, folded example_forked_def example_riscv_forked_def, unfolded w case_prod_unfold]
  show ?thesis using t [of clear_fork_failure] t [of "configure_fork_failure FpSchedulerPublication 0"] unfolding a b c by simp
qed

subsection \<open>The start image of a child that never ran\<close>











end
