(* ===== verification/Spec2Isabelle.thy ===== *)
theory Spec2Isabelle
  imports Handle_Table Socket_Object Record_Lock Linux_Futex Linux_Mqueue Linux_Process Linux_Fork Linux_Descriptors
    Linux_Memory Linux_Process_Runtime Linux_Signal
begin

text \<open>
  SMROS is an experimental kernel in Rust with two system call surfaces: kernel objects in the
  style of Zircon (\<open>src/src/kernel_objects\<close>), reached through a table of handles, and a Linux
  surface (\<open>src/src/syscall\<close>) with processes, file descriptors, futexes, POSIX message queues
  and record locks.  This development models the state and the operations of both, as functions
  from state to state, and proves what they promise.

  \<^bold>\<open>Conventions.\<close>  A struct is a record, an enum a datatype, a method on \<open>&mut self\<close> a function that
  returns the new state with its result.  \<open>u8\<close> to \<open>u64\<close> and \<open>usize\<close> are words of their width, so
  that sums wrap as in the source; lengths and positions in arrays are natural numbers.  A
  \<open>Result\<close> is a sum with the error on the left.  An operation that may panic has an optional
  result, and a failed \<open>assert!\<close> of the fork path is recorded in the state.  A fixed array is a list
  of its length.  A trait is a record of functions on the state of the implementing type.  Code of
  another module that an operation calls, when that module is not modelled, is a parameter: a
  function argument, or a field of a record of functions (\<open>process_world\<close>, the environment of
  the futex calls, the page operations of a fork).  A call that blocks is split at the call of
  the scheduler, and the interleavings of the blocked tasks are the sequences of these steps.

  \<^bold>\<open>The library.\<close>
  \<^item> \<open>Smros_Prelude\<close>: machine integers, checked and saturating arithmetic, results, and the scans
    of the sources (\<open>position\<close>, \<open>flatten\<close>, \<open>swap_remove\<close>).
  \<^item> \<open>Slot_Table\<close>: the locale \<open>slot_table\<close>, the contract of an array of slots that is searched by
    a key; the handle, socket and descriptor tables interpret it.
  \<^item> \<open>Fifo_Law\<close>: the order of elements that pass through a queue under all interleavings.  The locale
    \<open>fifo_match\<close> relates what receivers see to the elements by any relation, since a receiver may get a
    truncated packet or find the bytes in its own memory; \<open>fifo_law\<close> is the case of equality.  Channels
    and sockets interpret them.
  \<^item> \<open>Ring\<close>: ring buffers as lists.  \<open>User_Memory\<close>: memory behind user pointers.
  \<^item> \<open>Linux_Wait\<close>: arrays of waiters that are served oldest first (\<open>oldest_first\<close>,
    \<open>oldest_drain\<close>); futexes, message queues and record locks interpret it.
  \<^item> \<open>Refcount_Law\<close>: the locale \<open>refcount_table\<close>, the contract of a table of counted references;
    open descriptions and shared pages interpret it.

  \<^bold>\<open>The kernel objects.\<close>
  \<^item> \<open>Object_Types\<close> (\<open>types.rs\<close>, \<open>object_logic_shared.rs\<close>): object types, rights, ranges of pages.
  \<^item> \<open>Handle_Table\<close> (\<open>handle.rs\<close>): rights never grow, values are unique below the wrap of the
    counter if no imported handle is ahead of it, a replacement is atomic.
  \<^item> \<open>Channel_Object\<close> (\<open>channel.rs\<close> and the channel system calls of \<open>syscall.rs\<close>): each direction is
    a queue, the table keeps its invariant, and a read delivers exactly the front message.
  \<^item> \<open>Socket_Object\<close> (\<open>socket.rs\<close>, \<open>socket_logic_shared.rs\<close>): streams of bytes and queues of
    packets over ring buffers, with the invariant of the socket table.

  \<^bold>\<open>The Linux surface.\<close>
  \<^item> \<open>Record_Lock\<close> (\<open>linux_record_lock_logic_shared.rs\<close>, \<open>linux_record_lock.rs\<close>): the lock table
    byte by byte, the waiters, and the runtime: no two conflicting locks, no lost wake-up, no panic.
  \<^item> \<open>Linux_Futex\<close> (\<open>linux_futex_logic_shared.rs\<close>, \<open>linux_futex.rs\<close>): decoding, deadlines, the
    queue and the calls; waiters are woken in order and only after the value was checked.
  \<^item> \<open>Linux_Mqueue\<close> (\<open>linux_mqueue_logic_shared.rs\<close>, \<open>linux_mqueue.rs\<close>): refinement of a priority
    queue, wake-ups, timeouts and notifications.
  \<^item> \<open>Linux_Process\<close> (\<open>linux_process_logic_shared.rs\<close>): the process table, the life cycle of its
    entries, wait.
  \<^item> \<open>Linux_Fork\<close> (\<open>linux_fork_logic_shared.rs\<close> and the ledger of
    \<open>linux_process_memory_logic_shared.rs\<close>): the fork transaction over arbitrary operations.  The
    locale \<open>fork_stage_law\<close> is the induction over its stages.
  \<^item> \<open>Linux_Descriptors\<close> (\<open>linux_process_memory_logic_shared.rs\<close>): open descriptions, the resources
    of a process and their clone at a fork; every reference is accounted for.
  \<^item> \<open>Linux_Memory\<close> (the same file): page backings, faults, shared pages and their merge, and the
    test that a user range is covered by mappings.
  \<^item> \<open>Linux_Process_Runtime\<close> (\<open>linux_process.rs\<close>): the process table with signal states and start
    images, wait, exit and termination, and the operations that the fork transaction runs on AArch64
    and RISC-V.  The locale \<open>fork_client\<close> is the contract between the transaction and its operations;
    both processors interpret it, which gives the atomicity of a fork in the process table.
  \<^item> \<open>Linux_Signal\<close> (the first part of \<open>linux_task_logic_shared.rs\<close>): thread requests, sleep
    deadlines, the pending signals of a task or a process, and the signal state of a task.  The lowest
    signal is delivered first, the oldest of its number; a reservation can always be committed, and
    rolled back as long as no requeued signal has taken its place, and a rollback restores the queue.

  \<^bold>\<open>Loops and bounds.\<close>  Every loop of the models is structural or has a termination proof.  The loop
  that serves waiters has fuel, the number of slots, and the theorems show that it is enough.  The
  loops around a blocking call and around a snapshot (\<open>wait_current\<close>, \<open>resource_counts\<close>) are modelled
  round by round.  Sequence counters are never renumbered: a record lock waiter is refused with
  \<open>Exhausted\<close> at the end of \<open>u64\<close>, and futexes and message queues set a flag that refuses every later
  waiter until a reset.  The handle counter wraps, and the theorems name the bound below which it does not.
\<close>

text \<open>
  \<^bold>\<open>Host builds.\<close>  The logic files are shared by the kernel and by a host build that tests them, and
  some of their code is compiled for the host only (\<open>cfg(not(target_os = "none"))\<close>).  Of what is
  modelled these are: the tables of open descriptions and of process resources with their clone
  (\<open>Linux_Descriptors\<close>); the shared page table, the merge that returns a new list, the mappings of a
  process, the test of a covered range, and the test of sortedness in the merge in place
  (\<open>Linux_Memory\<close>); \<open>reserve_child\<close>, \<open>publish\<close>, \<open>select_waitable\<close> and \<open>complete_linux_wait\<close>
  (\<open>Linux_Process\<close>); and \<open>release\<close> of the fork ledger, \<open>take_eligible\<close>, \<open>take_matching\<close> and
  \<open>take_unblocked\<close>.  The theorems on them speak of the host build, the reference of the runtime.
\<close>

text \<open>
  \<^bold>\<open>Not modelled.\<close>
  \<^item> Boot, interrupts, timers, context switches and the drivers (\<open>main.rs\<close>, \<open>kernel_lowlevel/ARM64\<close>,
    \<open>RISCV64\<close>, \<open>X86_64\<close>, \<open>user_level/drivers\<close>): assembly, device registers and raw memory.
  \<^item> The page tables (\<open>mmu.rs\<close>, \<open>memory.rs\<close>, \<open>aarch64_vm_logic_shared.rs\<close>, \<open>user_address_space.rs\<close>) and
    the memory runtime \<open>linux_process_memory.rs\<close>, whose operations write page tables through raw
    pointers; its pure part is in \<open>Linux_Memory\<close> and \<open>Linux_Descriptors\<close>.
  \<^item> The scheduler (\<open>scheduler.rs\<close>) and the task table (\<open>linux_task.rs\<close> and the second part of
    \<open>linux_task_logic_shared.rs\<close>): they appear as parameters of the blocking calls and of a fork.  The
    layout of a signal frame in user memory (\<open>linux_aarch64_ucontext_core\<close>).
  \<^item> The remaining kernel objects (\<open>fifo.rs\<close>, \<open>port.rs\<close>, \<open>futex.rs\<close>, \<open>vmo.rs\<close>, \<open>vmar.rs\<close>, \<open>right.rs\<close>,
    \<open>compat.rs\<close>, \<open>hypervisor.rs\<close>, \<open>log.rs\<close>) and most of the dispatch of system calls (\<open>syscall.rs\<close>).
  \<^item> The services and applications of the user level (the shell, the file system, the network stack,
    the graphics and container services), the fuzzer, and the proofs and tests that the repository
    keeps beside the kernel.
\<close>

end
